(* ===== verification/Svz_Prelude.thy ===== *)
theory Svz_Prelude
  imports Main "HOL-Library.Word" "HOL-Library.Monad_Syntax"
begin

text \<open>
  Shared vocabulary of the development.

  C code that reads or writes memory is modelled in the option monad: \<^term>\<open>None\<close> is
  undefined behaviour (an access outside a block or a read of an uninitialised cell), so a
  theorem that an operation returns \<^term>\<open>Some\<close> is a memory-safety theorem.
  A heap block is a list of cells; \<open>rd\<close>, \<open>wr\<close>, \<open>rd_range\<close>, \<open>wr_range\<close> and \<open>mv_range\<close> stand
  for \<^verbatim>\<open>p[i]\<close>, \<^verbatim>\<open>p[i] = v\<close>, and the reads and writes of \<^verbatim>\<open>memcpy\<close> and \<^verbatim>\<open>memmove\<close>;
  \<open>realloc\<close> keeps the common prefix and leaves new cells uninitialised.
\<close>

unbundle bit_operations_syntax

type_synonym byte = "8 word"
type_synonym u16 = "16 word"
type_synonym u32 = "32 word"
type_synonym u64 = "64 word"
type_synonym mem = "byte list"
type_synonym addr = nat

named_theorems mem_simps \<open>rewriting of reads after writes on heap blocks\<close>
named_theorems ub_elims \<open>inversion of defined results of the option monad\<close>

subsection \<open>Heap blocks\<close>

datatype 'a cell = Uninit | Cell (the_cell: 'a)

definition rd :: "'a cell list \<Rightarrow> nat \<Rightarrow> 'a option" where
  "rd xs i = (if i < length xs then (case xs ! i of Uninit \<Rightarrow> None | Cell v \<Rightarrow> Some v) else None)"

definition wr :: "'a list \<Rightarrow> nat \<Rightarrow> 'a \<Rightarrow> 'a list option" where
  "wr xs i v = (if i < length xs then Some (xs[i := v]) else None)"

definition rd_range :: "'a cell list \<Rightarrow> nat \<Rightarrow> nat \<Rightarrow> 'a list option" where
  "rd_range xs off n =
     (let ys = take n (drop off xs)
      in if off + n \<le> length xs \<and> Uninit \<notin> set ys then Some (map the_cell ys) else None)"

definition wr_range :: "'a cell list \<Rightarrow> nat \<Rightarrow> 'a list \<Rightarrow> 'a cell list option" where
  "wr_range xs off ys =
     (if off + length ys \<le> length xs
      then Some (take off xs @ map Cell ys @ drop (off + length ys) xs) else None)"

definition mv_range :: "'a cell list \<Rightarrow> nat \<Rightarrow> nat \<Rightarrow> nat \<Rightarrow> 'a cell list option" where
  "mv_range xs dst src n =
     (if src + n \<le> length xs \<and> dst + n \<le> length xs
      then Some (take dst xs @ take n (drop src xs) @ drop (dst + n) xs) else None)"

definition realloc :: "nat \<Rightarrow> 'a cell list \<Rightarrow> 'a cell list" where
  "realloc n xs = take n xs @ replicate (n - length xs) Uninit"

text \<open>A defined prefix: the first \<open>n\<close> cells exist and hold the values \<open>vs\<close>.\<close>

definition holds :: "'a cell list \<Rightarrow> 'a list \<Rightarrow> bool" where
  "holds xs vs \<longleftrightarrow> length vs \<le> length xs \<and> take (length vs) xs = map Cell vs"

lemma the_cell_comp_Cell [simp]: "the_cell \<circ> Cell = id"
  by (rule ext) simp

lemma map_Cell_the_cell: "Uninit \<notin> set xs \<longleftrightarrow> map Cell (map the_cell xs) = xs"
proof (induction xs)
  case (Cons x xs)
  then show ?case by (cases x) auto
qed simp

lemma holds_nth: "holds xs vs \<Longrightarrow> i < length vs \<Longrightarrow> xs ! i = Cell (vs ! i)"
  unfolding holds_def by (metis nth_map nth_take)

lemma holds_rd [mem_simps]: "holds xs vs \<Longrightarrow> i < length vs \<Longrightarrow> rd xs i = Some (vs ! i)"
  by (auto simp: rd_def holds_nth) (auto simp: holds_def)

lemma holds_rd_range [mem_simps]:
  assumes "holds xs vs" and "off + n \<le> length vs"
  shows "rd_range xs off n = Some (take n (drop off vs))"
proof -
  have "take n (drop off xs) = take n (drop off (take (length vs) xs))"
    using assms(2) by (simp add: take_drop)
  also have "\<dots> = map Cell (take n (drop off vs))"
    using assms(1) by (simp add: holds_def take_map drop_map)
  finally have eq: "take n (drop off xs) = map Cell (take n (drop off vs))" .
  have "off + n \<le> length xs" using assms by (simp add: holds_def)
  then show ?thesis by (auto simp: rd_range_def eq Let_def)
qed

lemma rd_range_holds: "rd_range xs 0 n = Some vs \<Longrightarrow> holds xs vs \<and> length vs = n"
  by (auto simp: rd_range_def holds_def Let_def map_Cell_the_cell simp del: map_map split: if_splits)

lemma holds_Nil [simp]: "holds xs []"
  by (simp add: holds_def)

lemma holds_length: "holds xs vs \<Longrightarrow> length vs \<le> length xs"
  by (simp add: holds_def)

lemma holds_take: "holds xs vs \<Longrightarrow> holds xs (take n vs)"
  by (auto simp: holds_def take_map min_def) (metis take_map take_take min.absorb1 nat_le_linear)

lemma holds_append:
  assumes "holds xs vs" and "length vs + length ys \<le> length xs"
  shows "holds (take (length vs) xs @ map Cell ys @ drop (length vs + length ys) xs) (vs @ ys)"
  using assms by (simp add: holds_def)

lemma wr_range_append [mem_simps]:
  assumes "holds xs vs" and "length vs + length ys \<le> length xs"
  shows "\<exists>xs'. wr_range xs (length vs) ys = Some xs' \<and> length xs' = length xs \<and> holds xs' (vs @ ys)"
  using assms holds_append [OF assms] by (simp add: wr_range_def)

lemma mv_range_front:
  assumes "holds xs vs" and "n \<le> length vs"
  shows "\<exists>xs'. mv_range xs 0 n (length vs - n) = Some xs' \<and> length xs' = length xs
                \<and> holds xs' (drop n vs)"
proof -
  have le: "length vs \<le> length xs" using assms(1) by (rule holds_length)
  have "take (length vs - n) (drop n xs) = drop n (take (length vs) xs)"
    by (simp add: take_drop assms(2))
  also have "\<dots> = map Cell (drop n vs)"
    using assms(1) by (simp add: holds_def drop_map)
  finally show ?thesis
    using le assms(2) by (simp add: mv_range_def holds_def)
qed

lemma wr_snoc:
  assumes "holds xs vs" and "length vs < length xs"
  shows "\<exists>xs'. wr xs (length vs) (Cell v) = Some xs' \<and> length xs' = length xs \<and> holds xs' (vs @ [v])"
  using assms by (auto simp: wr_def holds_def take_Suc_conv_app_nth)

lemma wr_update:
  assumes "holds xs vs" and "i < length vs"
  shows "\<exists>xs'. wr xs i (Cell v) = Some xs' \<and> length xs' = length xs \<and> holds xs' (vs[i := v])"
  using assms by (auto simp: wr_def holds_def map_update take_update_swap)

lemma holds_realloc: "holds xs vs \<Longrightarrow> length vs \<le> n \<Longrightarrow> holds (realloc n xs) vs"
  by (auto simp: holds_def realloc_def min_def)

lemma length_realloc [simp]: "length (realloc n xs) = n"
  by (auto simp: realloc_def)

subsection \<open>Byte strings\<close>

text \<open>\<^verbatim>\<open>memcmp\<close>: zero when the first \<open>n\<close> bytes agree, else the sign of the first difference.\<close>

fun memcmp :: "mem \<Rightarrow> mem \<Rightarrow> nat \<Rightarrow> int" where
  "memcmp a b 0 = 0"
| "memcmp (x # a) (y # b) (Suc n) = (if x = y then memcmp a b n else if x < y then -1 else 1)"
| "memcmp _ _ (Suc n) = -1"

lemma memcmp_eq_0: "n \<le> length a \<Longrightarrow> n \<le> length b \<Longrightarrow> memcmp a b n = 0 \<longleftrightarrow> take n a = take n b"
  by (induction a b n rule: memcmp.induct) auto

text \<open>A 32-bit integer stored with its low byte first.\<close>

definition le32 :: "mem \<Rightarrow> u32" where
  "le32 bs = ucast (bs ! 0) OR push_bit 8 (ucast (bs ! 1)) OR push_bit 16 (ucast (bs ! 2))
     OR push_bit 24 (ucast (bs ! 3))"

text \<open>Integers in memory, low byte first, and \<^verbatim>\<open>htons\<close> on such a machine.\<close>

definition enc16 :: "u16 \<Rightarrow> mem" where
  "enc16 x = [ucast x, ucast (drop_bit 8 x)]"

definition dec16 :: "mem \<Rightarrow> u16" where
  "dec16 bs = ucast (bs ! 0) OR push_bit 8 (ucast (bs ! 1))"

definition enc32 :: "u32 \<Rightarrow> mem" where
  "enc32 x = [ucast x, ucast (drop_bit 8 x), ucast (drop_bit 16 x), ucast (drop_bit 24 x)]"

definition htons :: "u16 \<Rightarrow> u16" where
  "htons x = push_bit 8 x OR drop_bit 8 x"

lemma enc_length [simp]: "length (enc16 x) = 2" "length (enc32 y) = 4"
  by (simp_all add: enc16_def enc32_def)

lemma dec_enc16 [simp]: "dec16 (enc16 x) = x"
  by (rule bit_word_eqI) (auto simp: dec16_def enc16_def bit_simps)

lemma htons_htons [simp]: "htons (htons x) = x"
  by (rule bit_word_eqI) (auto simp: htons_def bit_simps)

lemma dec_enc32 [simp]: "le32 (enc32 x) = x"
proof (rule bit_word_eqI)
  fix n assume n: "n < LENGTH(32)"
  consider "n < 8" | "8 \<le> n" "n < 16" | "16 \<le> n" "n < 24" | "24 \<le> n" by linarith
  then show "bit (le32 (enc32 x)) n = bit x n"
    using n by cases (auto simp: le32_def enc32_def bit_simps)
qed

lemma enc_dec32: "4 \<le> length d \<Longrightarrow> enc32 (le32 d) = [d ! 0, d ! 1, d ! 2, d ! 3]"
proof -
  have "ucast (le32 d) = d ! 0" "ucast (drop_bit 8 (le32 d)) = d ! 1" "ucast (drop_bit 16 (le32 d)) = d ! 2" "ucast (drop_bit 24 (le32 d)) = d ! 3"
    by (rule bit_word_eqI; force simp: le32_def bit_simps dest: bit_imp_le_length)+
  then show ?thesis by (simp add: enc32_def)
qed

lemma dec16_append [simp]: "dec16 (enc16 x @ ys) = x" "le32 (enc32 y @ ys) = y"
proof -
  show "dec16 (enc16 x @ ys) = x" using dec_enc16 [of x] by (simp add: dec16_def enc16_def)
  show "le32 (enc32 y @ ys) = y" using dec_enc32 [of y] by (simp add: le32_def enc32_def)
qed

text \<open>Bytes of an ASCII string, with its NUL terminator.\<close>

definition str_bytes :: "string \<Rightarrow> mem" where
  "str_bytes s = map (\<lambda>c. word_of_nat (of_char c)) s @ [0]"

subsection \<open>Words\<close>

lemma unat_bound: "unat (w :: 'a :: len word) < 2 ^ LENGTH('a)"
  by (rule unsigned_less)

subsection \<open>Flag words\<close>

lemma and_not_disjoint: "(f :: u32) AND g = 0 \<Longrightarrow> (x AND NOT f) AND g = x AND g"
proof (rule bit_word_eqI)
  fix n assume "f AND g = 0"
  then have "\<not> (bit f n \<and> bit g n)" by (metis bit_and_iff bit_0_eq bot_apply bot_bool_def)
  moreover assume "n < LENGTH(32)"
  ultimately show "bit ((x AND NOT f) AND g) n \<longleftrightarrow> bit (x AND g) n" by (auto simp: bit_simps)
qed

lemma or_disjoint: "(f :: u32) AND g = 0 \<Longrightarrow> (x OR f) AND g = x AND g"
  by (simp add: bit.conj_disj_distrib2)

subsection \<open>The option monad\<close>

lemma bind_SomeE [ub_elims, elim]:
  "Option.bind x f = Some y \<Longrightarrow> (\<And>v. x = Some v \<Longrightarrow> f v = Some y \<Longrightarrow> P) \<Longrightarrow> P"
  by (cases x) auto

end
