(* ===== verification/Svz_Array.thy ===== *)
theory Svz_Array
  imports Svz_Prelude
begin

text \<open>
  Dynamic arrays, \<^verbatim>\<open>src/libserveez/array.c\<close> and \<^verbatim>\<open>array.h\<close>.

  \<^verbatim>\<open>void *\<close> values are \<open>'a option\<close> with \<^term>\<open>None\<close> for \<^verbatim>\<open>NULL\<close>; a handle
  \<^verbatim>\<open>svz_array_t *\<close> is \<open>'a svz_array option\<close>. The data block is a list of cells, so the
  results are in the option monad (\<^term>\<open>None\<close>: undefined behaviour). Sizes are natural numbers:
  a \<^verbatim>\<open>size_t\<close> computation could only wrap for arrays larger than the address space.
  The locale \<open>vector_store\<close> is the contract clients of the array rely on.
\<close>

record 'a svz_array =
  arr_size :: nat
  arr_capacity :: nat
  arr_destroy :: bool
  arr_data :: "'a option cell list"

definition svz_array_create :: "nat \<Rightarrow> bool \<Rightarrow> 'a svz_array" where
  "svz_array_create capacity destroy =
     (let capacity = (if capacity = 0 then 4 else capacity)
      in \<lparr>arr_size = 0, arr_capacity = capacity, arr_destroy = destroy,
          arr_data = replicate capacity Uninit\<rparr>)"

text \<open>The values handed to the destroy callback, in the order of the calls.\<close>

definition svz_array_destroy :: "'a svz_array option \<Rightarrow> 'a option list option" where
  "svz_array_destroy array =
     (case array of
        None \<Rightarrow> Some []
      | Some a \<Rightarrow> if arr_destroy a then rd_range (arr_data a) 0 (arr_size a) else Some [])"

definition svz_array_get :: "'a svz_array option \<Rightarrow> nat \<Rightarrow> 'a option option" where
  "svz_array_get array index =
     (case array of
        None \<Rightarrow> Some None
      | Some a \<Rightarrow> if index \<ge> arr_size a then Some None else rd (arr_data a) index)"

definition svz_array_set ::
    "'a svz_array option \<Rightarrow> nat \<Rightarrow> 'a option \<Rightarrow> ('a option \<times> 'a svz_array option) option" where
  "svz_array_set array index value =
     (case array of
        None \<Rightarrow> Some (None, None)
      | Some a \<Rightarrow>
          if index \<ge> arr_size a then Some (None, Some a)
          else do {
            prev \<leftarrow> rd (arr_data a) index;
            data \<leftarrow> wr (arr_data a) index (Cell value);
            Some (prev, Some (a\<lparr>arr_data := data\<rparr>))
          })"

definition svz_array_add :: "'a svz_array option \<Rightarrow> 'a option \<Rightarrow> 'a svz_array option option" where
  "svz_array_add array value =
     (case array of
        None \<Rightarrow> Some None
      | Some a \<Rightarrow>
          (let bigger = 1 + arr_size a;
               a = (if bigger > arr_capacity a
                    then let cap = arr_capacity a * 3 div 2 + 1
                         in a\<lparr>arr_capacity := cap, arr_data := realloc cap (arr_data a)\<rparr>
                    else a)
           in do {
             data \<leftarrow> wr (arr_data a) (arr_size a) (Cell value);
             Some (Some (a\<lparr>arr_data := data, arr_size := bigger\<rparr>))
           }))"

definition svz_array_del ::
    "'a svz_array option \<Rightarrow> nat \<Rightarrow> ('a option \<times> 'a svz_array option) option" where
  "svz_array_del array index =
     (case array of
        None \<Rightarrow> Some (None, None)
      | Some a \<Rightarrow>
          if index \<ge> arr_size a then Some (None, Some a)
          else do {
            value \<leftarrow> rd (arr_data a) index;
            data \<leftarrow> (if index \<noteq> arr_size a - 1
                     then mv_range (arr_data a) index (index + 1) (arr_size a - index - 1)
                     else Some (arr_data a));
            Some (value, Some (a\<lparr>arr_data := data, arr_size := arr_size a - 1\<rparr>))
          })"

definition svz_array_size :: "'a svz_array option \<Rightarrow> nat" where
  "svz_array_size array = (case array of None \<Rightarrow> 0 | Some a \<Rightarrow> arr_size a)"

definition svz_array_dup :: "'a svz_array option \<Rightarrow> 'a svz_array option option" where
  "svz_array_dup array =
     (case array of
        None \<Rightarrow> Some None
      | Some a \<Rightarrow>
          (let d = (svz_array_create (arr_size a) (arr_destroy a))\<lparr>arr_size := arr_size a\<rparr>
           in if arr_size a \<noteq> 0
              then do {
                src \<leftarrow> rd_range (arr_data a) 0 (arr_size a);
                data \<leftarrow> wr_range (arr_data d) 0 src;
                Some (Some (d\<lparr>arr_data := data\<rparr>))
              }
              else Some (Some d)))"

text \<open>\<^verbatim>\<open>svz_strdup\<close> of alloc.c: \<^verbatim>\<open>NULL\<close> and the empty string both give \<^verbatim>\<open>NULL\<close>.\<close>

definition svz_strdup :: "'c list option \<Rightarrow> 'c list option" where
  "svz_strdup src = (case src of None \<Rightarrow> None | Some s \<Rightarrow> if length s = 0 then None else Some s)"

fun strdup_loop :: "nat \<Rightarrow> nat \<Rightarrow> 'c list option cell list \<Rightarrow> 'c list option cell list
    \<Rightarrow> 'c list option cell list option" where
  "strdup_loop 0 n src dst = Some dst"
| "strdup_loop (Suc k) n src dst = do {
     v \<leftarrow> rd src n;
     dst \<leftarrow> wr dst n (Cell (svz_strdup v));
     strdup_loop k (Suc n) src dst
   }"

definition svz_array_strdup :: "'c list svz_array option \<Rightarrow> 'c list svz_array option option" where
  "svz_array_strdup array =
     (case array of
        None \<Rightarrow> Some None
      | Some a \<Rightarrow> do {
          let d = (svz_array_create (arr_size a) True)\<lparr>arr_size := arr_size a\<rparr>;
          data \<leftarrow> strdup_loop (arr_size a) 0 (arr_data a) (arr_data d);
          Some (Some (d\<lparr>arr_data := data\<rparr>))
        })"

text \<open>The handle afterwards, and the values destroyed.\<close>

definition svz_array_destroy_zero ::
    "'a svz_array option \<Rightarrow> ('a svz_array option \<times> 'a option list) option" where
  "svz_array_destroy_zero array =
     (case array of
        None \<Rightarrow> Some (None, [])
      | Some a \<Rightarrow>
          if arr_size a = 0
          then do { ds \<leftarrow> svz_array_destroy (Some a); Some (None, ds) }
          else Some (Some a, []))"

text \<open>
  The macro \<^verbatim>\<open>svz_array_foreach\<close>: the values bound by the loop header, in order, when the
  body leaves the array alone.
\<close>

function svz_array_foreach :: "'a svz_array option \<Rightarrow> nat \<Rightarrow> 'a option list option" where
  "svz_array_foreach array i =
     (if array \<noteq> None \<and> i < svz_array_size array
      then case svz_array_get array i of
             None \<Rightarrow> None
           | Some v \<Rightarrow> (case svz_array_foreach array (Suc i) of
                          None \<Rightarrow> None
                        | Some vs \<Rightarrow> Some (v # vs))
      else Some [])"
  by pat_completeness auto
termination
  by (relation "measure (\<lambda>(array, i). svz_array_size array - i)") auto

declare svz_array_foreach.simps [simp del]

subsection \<open>Invariant and abstraction\<close>

definition array_vals :: "'a svz_array \<Rightarrow> 'a option list" where
  "array_vals a = map the_cell (take (arr_size a) (arr_data a))"

definition array_inv :: "'a svz_array \<Rightarrow> bool" where
  "array_inv a \<longleftrightarrow> length (arr_data a) = arr_capacity a \<and> arr_size a \<le> arr_capacity a
     \<and> Uninit \<notin> set (take (arr_size a) (arr_data a))"

lemma array_inv_holds:
  "array_inv a \<longleftrightarrow> length (arr_data a) = arr_capacity a \<and> arr_size a \<le> arr_capacity a
     \<and> holds (arr_data a) (array_vals a) \<and> length (array_vals a) = arr_size a"
  by (auto simp: array_inv_def holds_def array_vals_def map_Cell_the_cell simp del: map_map)

lemma array_invI:
  assumes "length (arr_data a) = arr_capacity a" and "holds (arr_data a) vs" and "length vs = arr_size a"
  shows "array_inv a \<and> array_vals a = vs"
proof -
  have "array_vals a = vs" using assms(2,3) by (auto simp: array_vals_def holds_def)
  with assms show ?thesis by (auto simp: array_inv_holds dest: holds_length)
qed


lemma array_inv_create: "array_inv (svz_array_create c d) \<and> array_vals (svz_array_create c d) = []"
  by (auto simp: array_inv_def array_vals_def svz_array_create_def Let_def)

lemma svz_array_get_vals:
  "array_inv a \<Longrightarrow> svz_array_get (Some a) i
     = Some (if i < length (array_vals a) then array_vals a ! i else None)"
  by (auto simp: array_inv_holds svz_array_get_def mem_simps)

lemma svz_array_set_vals:
  assumes inv: "array_inv a" and i: "i < length (array_vals a)"
  shows "\<exists>a'. svz_array_set (Some a) i v = Some (array_vals a ! i, Some a') \<and> array_inv a'
              \<and> array_vals a' = (array_vals a)[i := v]"
proof -
  from inv i have i': "i < arr_size a" and rd: "rd (arr_data a) i = Some (array_vals a ! i)"
    by (auto simp: array_inv_holds mem_simps)
  from inv i obtain xs where xs: "wr (arr_data a) i (Cell v) = Some xs"
      "length xs = length (arr_data a)" "holds xs ((array_vals a)[i := v])"
    using wr_update by (metis array_inv_holds)
  have "array_inv (a\<lparr>arr_data := xs\<rparr>) \<and> array_vals (a\<lparr>arr_data := xs\<rparr>) = (array_vals a)[i := v]"
    using xs inv by (intro array_invI) (auto simp: array_inv_holds)
  with i' rd xs show ?thesis by (simp add: svz_array_set_def)
qed

lemma svz_array_add_vals:
  assumes inv: "array_inv a"
  shows "\<exists>a'. svz_array_add (Some a) v = Some (Some a') \<and> array_inv a'
              \<and> array_vals a' = array_vals a @ [v]"
proof -
  define b where "b = (if 1 + arr_size a > arr_capacity a
            then a\<lparr>arr_capacity := arr_capacity a * 3 div 2 + 1,
                   arr_data := realloc (arr_capacity a * 3 div 2 + 1) (arr_data a)\<rparr>
            else a)"
  have b: "length (arr_data b) = arr_capacity b" "arr_size b = arr_size a"
      "holds (arr_data b) (array_vals a)" "arr_size a < arr_capacity b"
    using inv by (auto simp: b_def array_inv_holds intro!: holds_realloc)
  have len: "length (array_vals a) = arr_size a" using inv by (simp add: array_inv_holds)
  obtain xs where xs: "wr (arr_data b) (arr_size b) (Cell v) = Some xs"
      "length xs = length (arr_data b)" "holds xs (array_vals a @ [v])"
    using wr_snoc [OF b(3)] b(1,2,4) len by auto
  let ?c = "b\<lparr>arr_data := xs, arr_size := 1 + arr_size a\<rparr>"
  have "array_inv ?c \<and> array_vals ?c = array_vals a @ [v]"
    using xs b(1) len by (intro array_invI) auto
  moreover have "svz_array_add (Some a) v = Option.bind (wr (arr_data b) (arr_size b) (Cell v))
      (\<lambda>data. Some (Some (b\<lparr>arr_data := data, arr_size := 1 + arr_size a\<rparr>)))"
    by (simp add: svz_array_add_def Let_def b_def)
  ultimately show ?thesis using xs(1) by simp
qed

lemma mv_range_remove:
  assumes "holds xs vs" and "i < length vs"
  shows "\<exists>xs'. mv_range xs i (i + 1) (length vs - i - 1) = Some xs' \<and> length xs' = length xs
                \<and> holds xs' (take i vs @ drop (Suc i) vs)"
proof -
  have le: "length vs \<le> length xs" using assms(1) by (rule holds_length)
  have "take (length vs - i - 1) (drop (i + 1) xs) = drop (Suc i) (take (length vs) xs)"
    using assms(2) by (simp add: drop_take)
  also have "\<dots> = map Cell (drop (Suc i) vs)"
    using assms(1) by (simp add: holds_def drop_map)
  finally have mid: "take (length vs - i - 1) (drop (i + 1) xs) = map Cell (drop (Suc i) vs)" .
  have "take i xs = take i (take (length vs) xs)" using assms(2) by simp
  also have "\<dots> = map Cell (take i vs)" using assms(1) by (simp add: holds_def take_map)
  finally have "take i xs = map Cell (take i vs)" .
  with mid le assms(2) show ?thesis by (simp add: mv_range_def holds_def)
qed

lemma svz_array_del_vals:
  assumes inv: "array_inv a" and i: "i < length (array_vals a)"
  shows "\<exists>a'. svz_array_del (Some a) i = Some (array_vals a ! i, Some a') \<and> array_inv a'
              \<and> array_vals a' = take i (array_vals a) @ drop (Suc i) (array_vals a)"
proof -
  let ?vs = "array_vals a" and ?ws = "take i (array_vals a) @ drop (Suc i) (array_vals a)"
  from inv i have i': "i < arr_size a" and rd: "rd (arr_data a) i = Some (?vs ! i)"
      and len: "length ?vs = arr_size a" and h: "holds (arr_data a) ?vs"
    by (auto simp: array_inv_holds mem_simps)
  obtain xs where xs: "(if i \<noteq> arr_size a - 1
        then mv_range (arr_data a) i (i + 1) (arr_size a - i - 1) else Some (arr_data a)) = Some xs"
      "length xs = length (arr_data a)" "holds xs ?ws"
    using mv_range_remove [OF h i] holds_take [OF h, of i] len i' by (cases "i = arr_size a - 1") auto
  let ?b = "a\<lparr>arr_data := xs, arr_size := arr_size a - 1\<rparr>"
  have "array_inv ?b \<and> array_vals ?b = ?ws"
    using xs inv i' len by (intro array_invI) (auto simp: array_inv_holds)
  moreover have "svz_array_del (Some a) i = Some (?vs ! i, Some ?b)"
    using i' rd xs(1) by (simp add: svz_array_del_def)
  ultimately show ?thesis by blast
qed

lemma array_out_of_range:
  "array_inv a \<Longrightarrow> \<not> i < length (array_vals a) \<Longrightarrow>
     svz_array_del (Some a) i = Some (None, Some a) \<and> svz_array_set (Some a) i v = Some (None, Some a)"
  by (auto simp: svz_array_del_def svz_array_set_def array_inv_holds)

subsection \<open>The contract of an array\<close>

text \<open>
  What the users of the array in the other components rely on: a handle with a valid
  invariant behaves like the list of its values, and no operation has undefined behaviour.
\<close>

locale vector_store =
  fixes vsize :: "'h \<Rightarrow> nat"
    and vget :: "'h \<Rightarrow> nat \<Rightarrow> 'v option option"
    and vadd :: "'h \<Rightarrow> 'v option \<Rightarrow> 'h option"
    and vdel :: "'h \<Rightarrow> nat \<Rightarrow> ('v option \<times> 'h) option"
    and vset :: "'h \<Rightarrow> nat \<Rightarrow> 'v option \<Rightarrow> ('v option \<times> 'h) option"
    and vals :: "'h \<Rightarrow> 'v option list"
    and vinv :: "'h \<Rightarrow> bool"
  assumes vsize: "vinv h \<Longrightarrow> vsize h = length (vals h)"
    and vget: "vinv h \<Longrightarrow> vget h i = Some (if i < length (vals h) then vals h ! i else None)"
    and vadd: "vinv h \<Longrightarrow> \<exists>h'. vadd h v = Some h' \<and> vinv h' \<and> vals h' = vals h @ [v]"
    and vdel: "vinv h \<Longrightarrow> i < length (vals h) \<Longrightarrow> \<exists>h'. vdel h i = Some (vals h ! i, h') \<and> vinv h'
                 \<and> vals h' = take i (vals h) @ drop (Suc i) (vals h)"
    and vset: "vinv h \<Longrightarrow> i < length (vals h) \<Longrightarrow> \<exists>h'. vset h i v = Some (vals h ! i, h') \<and> vinv h'
                 \<and> vals h' = (vals h)[i := v]"
    and vout: "vinv h \<Longrightarrow> \<not> i < length (vals h) \<Longrightarrow>
                 vdel h i = Some (None, h) \<and> vset h i v = Some (None, h)"
begin

lemma vget_after_add:
  assumes "vinv h"
  shows "\<exists>h'. vadd h v = Some h' \<and> vinv h' \<and> vsize h' = Suc (vsize h) \<and> vget h' (vsize h) = Some v
           \<and> (\<forall>j < vsize h. vget h' j = vget h j)"
proof -
  obtain h' where "vadd h v = Some h'" "vinv h'" "vals h' = vals h @ [v]" using vadd [OF assms] by blast
  then show ?thesis using assms by (intro exI [of _ h']) (auto simp: vsize vget nth_append)
qed

lemma vget_after_del:
  assumes "vinv h" and "i < vsize h"
  shows "\<exists>v h'. vdel h i = Some (v, h') \<and> vget h i = Some v \<and> vinv h' \<and> Suc (vsize h') = vsize h
           \<and> (\<forall>j. vget h' j = vget h (if j < i then j else Suc j))"
proof -
  from assms have i: "i < length (vals h)" by (simp add: vsize)
  obtain h' where h': "vdel h i = Some (vals h ! i, h')" "vinv h'"
      "vals h' = take i (vals h) @ drop (Suc i) (vals h)"
    using vdel [OF assms(1) i] by blast
  then show ?thesis using assms i
    by (intro exI [of _ "vals h ! i"] exI [of _ h']) (auto simp: vsize vget nth_append)
qed

lemma vsize_zero_iff: "vinv h \<Longrightarrow> vsize h = 0 \<longleftrightarrow> vals h = []"
  by (simp add: vsize)

end

definition handle_inv :: "'a svz_array option \<Rightarrow> bool" where
  "handle_inv h \<longleftrightarrow> (case h of None \<Rightarrow> False | Some a \<Rightarrow> array_inv a)"

definition handle_vals :: "'a svz_array option \<Rightarrow> 'a option list" where
  "handle_vals h = (case h of None \<Rightarrow> [] | Some a \<Rightarrow> array_vals a)"

lemma handle_simps [simp]:
  "handle_inv (Some a) = array_inv a" "\<not> handle_inv None"
  "handle_vals (Some a) = array_vals a" "handle_vals None = []"
  by (simp_all add: handle_inv_def handle_vals_def)

interpretation arr: vector_store svz_array_size svz_array_get svz_array_add svz_array_del
  svz_array_set handle_vals handle_inv
proof (unfold_locales, goal_cases)
  case (1 h)
  then show ?case by (cases h) (auto simp: svz_array_size_def array_inv_holds)
next
  case (2 h i)
  then show ?case by (cases h) (auto simp: svz_array_get_vals)
next
  case (3 h v)
  then obtain a where "h = Some a" "array_inv a" by (cases h) auto
  then show ?case using svz_array_add_vals [of a v] by auto
next
  case (4 h i)
  then obtain a where "h = Some a" "array_inv a" by (cases h) auto
  then show ?case using svz_array_del_vals [of a i] 4 by auto
next
  case (5 h i v)
  then obtain a where "h = Some a" "array_inv a" by (cases h) auto
  then show ?case using svz_array_set_vals [of a i v] 5 by auto
next
  case (6 h i v)
  then show ?case by (cases h) (auto simp: array_out_of_range)
qed


subsection \<open>Runs of operations against the list specification\<close>

datatype 'a array_op = OpAdd "'a option" | OpSet nat "'a option" | OpDel nat | OpGet nat

fun array_step :: "'a svz_array option \<Rightarrow> 'a array_op \<Rightarrow> ('a option \<times> 'a svz_array option) option" where
  "array_step h (OpAdd v) = do { h' \<leftarrow> svz_array_add h v; Some (None, h') }"
| "array_step h (OpSet i v) = svz_array_set h i v"
| "array_step h (OpDel i) = svz_array_del h i"
| "array_step h (OpGet i) = do { v \<leftarrow> svz_array_get h i; Some (v, h) }"

fun array_run :: "'a svz_array option \<Rightarrow> 'a array_op list \<Rightarrow> ('a option list \<times> 'a svz_array option) option" where
  "array_run h [] = Some ([], h)"
| "array_run h (x # xs) = do {
     (r, h') \<leftarrow> array_step h x;
     (rs, h'') \<leftarrow> array_run h' xs;
     Some (r # rs, h'')
   }"

fun list_step :: "'a option list \<Rightarrow> 'a array_op \<Rightarrow> 'a option \<times> 'a option list" where
  "list_step vs (OpAdd v) = (None, vs @ [v])"
| "list_step vs (OpSet i v) = (if i < length vs then (vs ! i, vs[i := v]) else (None, vs))"
| "list_step vs (OpDel i) =
     (if i < length vs then (vs ! i, take i vs @ drop (Suc i) vs) else (None, vs))"
| "list_step vs (OpGet i) = (if i < length vs then vs ! i else None, vs)"

fun list_run :: "'a option list \<Rightarrow> 'a array_op list \<Rightarrow> 'a option list \<times> 'a option list" where
  "list_run vs [] = ([], vs)"
| "list_run vs (x # xs) =
     (let (r, vs') = list_step vs x; (rs, vs'') = list_run vs' xs in (r # rs, vs''))"

lemma array_step_refines:
  assumes "handle_inv h"
  shows "\<exists>h'. array_step h x = Some (fst (list_step (handle_vals h) x), h') \<and> handle_inv h'
            \<and> handle_vals h' = snd (list_step (handle_vals h) x)"
proof (cases x)
  case (OpAdd v)
  then show ?thesis using arr.vadd [OF assms, of v] by auto
next
  case (OpSet i v)
  then show ?thesis using arr.vset [OF assms, of i v] arr.vout [OF assms, of i v] assms
    by (cases "i < length (handle_vals h)") auto
next
  case (OpDel i)
  then show ?thesis using arr.vdel [OF assms, of i] arr.vout [OF assms, of i] assms
    by (cases "i < length (handle_vals h)") auto
next
  case (OpGet i)
  then show ?thesis using arr.vget [OF assms, of i] assms by auto
qed

lemma array_run_handle:
  "handle_inv h \<Longrightarrow> \<exists>h'. array_run h ops = Some (fst (list_run (handle_vals h) ops), h') \<and> handle_inv h'
     \<and> handle_vals h' = snd (list_run (handle_vals h) ops)"
proof (induction ops arbitrary: h)
  case Nil
  then show ?case by simp
next
  case (Cons x xs)
  obtain h1 where h1: "array_step h x = Some (fst (list_step (handle_vals h) x), h1)" "handle_inv h1"
      "handle_vals h1 = snd (list_step (handle_vals h) x)"
    using array_step_refines [OF Cons.prems] by blast
  from Cons.IH [OF h1(2)] h1 show ?case by (auto simp: Let_def split_def)
qed

lemma svz_array_foreach_from:
  "array_inv a \<Longrightarrow> svz_array_foreach (Some a) i = Some (drop i (array_vals a))"
proof (induction "arr_size a - i" arbitrary: i)
  case 0
  then show ?case
    by (simp add: svz_array_foreach.simps [of _ i] svz_array_size_def array_inv_holds)
next
  case (Suc n)
  then have i: "i < arr_size a" "n = arr_size a - Suc i" by auto
  with Suc have "svz_array_foreach (Some a) (Suc i) = Some (drop (Suc i) (array_vals a))" by simp
  with i Suc.prems show ?case
    by (simp add: svz_array_foreach.simps [of _ i] svz_array_size_def svz_array_get_vals
        array_inv_holds Cons_nth_drop_Suc)
qed

lemma strdup_loop_copies:
  "holds src vs \<Longrightarrow> holds dst (map svz_strdup (take n vs)) \<Longrightarrow> n + k = length vs
     \<Longrightarrow> length vs \<le> length dst \<Longrightarrow>
   \<exists>dst'. strdup_loop k n src dst = Some dst' \<and> length dst' = length dst \<and> holds dst' (map svz_strdup vs)"
proof (induction k arbitrary: n dst)
  case 0
  then show ?case by simp
next
  case (Suc k)
  then have n: "n < length vs" by simp
  obtain d where d: "wr dst n (Cell (svz_strdup (vs ! n))) = Some d" "length d = length dst"
      "holds d (map svz_strdup (take n vs) @ [svz_strdup (vs ! n)])"
    using wr_snoc [OF Suc.prems(2), of "svz_strdup (vs ! n)"] Suc.prems(3,4) n by auto
  then have "holds d (map svz_strdup (take (Suc n) vs))" using n by (simp add: take_Suc_conv_app_nth)
  with Suc.IH [of d "Suc n"] Suc.prems d n show ?case by (auto simp: holds_rd)
qed

text \<open>
  C7. Any sequence of add, set, del and get calls on a valid array is free of undefined
  behaviour, returns what the same calls on a plain list return, and leaves a valid array
  whose values are that list.
\<close>

theorem array_run_refines:
  assumes "array_inv a"
  shows "\<exists>a'. array_run (Some a) ops = Some (fst (list_run (array_vals a) ops), Some a') \<and> array_inv a'
            \<and> array_vals a' = snd (list_run (array_vals a) ops)"
proof -
  obtain h' where "array_run (Some a) ops = Some (fst (list_run (array_vals a) ops), h')"
      "handle_inv h'" "handle_vals h' = snd (list_run (array_vals a) ops)"
    using array_run_handle [of "Some a" ops] assms by auto
  then show ?thesis by (cases h') auto
qed

theorem array_run_refines_witness:
  "array_inv (svz_array_create 1 False) \<and>
   (\<exists>a'. array_run (Some (svz_array_create 1 False))
            [OpAdd (Some (7::nat)), OpAdd (Some 8), OpAdd None, OpDel 0, OpGet 0]
         = Some ([None, None, None, Some 7, Some 8], Some a') \<and> array_vals a' = [Some 8, None])"
proof -
  have i: "array_inv (svz_array_create 1 False :: nat svz_array)" by (simp add: array_inv_create)
  show ?thesis
    using array_run_refines [OF i, of "[OpAdd (Some 7), OpAdd (Some 8), OpAdd None, OpDel 0, OpGet 0]"]
    by (auto simp: array_inv_create Let_def)
qed

text \<open>
  \<^verbatim>\<open>svz_array_dup\<close> and \<^verbatim>\<open>svz_array_strdup\<close> give a valid copy: the first has the same values,
  the second maps \<^verbatim>\<open>svz_strdup\<close> over them (so an empty string becomes \<^verbatim>\<open>NULL\<close>), and the loop of
  \<^verbatim>\<open>svz_array_foreach\<close> over an array visits exactly its values in order.
\<close>

theorem array_copies:
  fixes a :: "'c list svz_array"
  assumes "array_inv a"
  shows "(\<exists>d. svz_array_dup (Some a) = Some (Some d) \<and> array_inv d \<and> array_vals d = array_vals a)
    \<and> (\<exists>d. svz_array_strdup (Some a) = Some (Some d) \<and> array_inv d
          \<and> array_vals d = map svz_strdup (array_vals a))
    \<and> svz_array_foreach (Some a) 0 = Some (array_vals a)"
proof (intro conjI)
  let ?n = "arr_size a"
  let ?d = "\<lambda>b. (svz_array_create ?n b :: 'c list svz_array)\<lparr>arr_size := ?n\<rparr>"
  have len: "length (array_vals a) = ?n" and h: "holds (arr_data a) (array_vals a)"
    using assms by (auto simp: array_inv_holds)
  have cap: "length (arr_data (?d b)) = arr_capacity (?d b) \<and> ?n \<le> arr_capacity (?d b)" for b
    by (auto simp: svz_array_create_def Let_def)
  have rd: "rd_range (arr_data a) 0 ?n = Some (array_vals a)"
    using holds_rd_range [OF h, of 0 ?n] len by simp
  obtain xs where xs: "wr_range (arr_data (?d (arr_destroy a))) 0 (array_vals a) = Some xs"
      "length xs = length (arr_data (?d (arr_destroy a)))" "holds xs (array_vals a)"
    using wr_range_append [of "arr_data (?d (arr_destroy a))" "[]" "array_vals a"] cap len by auto
  have "array_inv ((?d (arr_destroy a))\<lparr>arr_data := xs\<rparr>)
        \<and> array_vals ((?d (arr_destroy a))\<lparr>arr_data := xs\<rparr>) = array_vals a"
    using xs cap len by (intro array_invI) auto
  moreover have "?n = 0 \<Longrightarrow> array_inv (?d (arr_destroy a)) \<and> array_vals (?d (arr_destroy a)) = array_vals a"
    using cap len by (intro array_invI) auto
  ultimately show "\<exists>d. svz_array_dup (Some a) = Some (Some d) \<and> array_inv d \<and> array_vals d = array_vals a"
    using rd xs(1) by (auto simp: svz_array_dup_def Let_def)
  obtain ys where ys: "strdup_loop ?n 0 (arr_data a) (arr_data (?d True)) = Some ys"
      "length ys = length (arr_data (?d True))" "holds ys (map svz_strdup (array_vals a))"
    using strdup_loop_copies [OF h, of "arr_data (?d True)" 0 ?n] len cap by auto
  then have "array_inv ((?d True)\<lparr>arr_data := ys\<rparr>)
        \<and> array_vals ((?d True)\<lparr>arr_data := ys\<rparr>) = map svz_strdup (array_vals a)"
    using cap len by (intro array_invI) auto
  with ys(1) show "\<exists>d. svz_array_strdup (Some a) = Some (Some d) \<and> array_inv d
          \<and> array_vals d = map svz_strdup (array_vals a)"
    by (auto simp: svz_array_strdup_def Let_def)
  show "svz_array_foreach (Some a) 0 = Some (array_vals a)"
    using svz_array_foreach_from [OF assms, of 0] by simp
qed

theorem array_copies_witness:
  "array_inv (svz_array_create 0 True :: string svz_array)
   \<and> svz_array_foreach (Some (svz_array_create 0 True :: string svz_array)) 0 = Some []"
proof -
  have i: "array_inv (svz_array_create 0 True :: string svz_array)" by (simp add: array_inv_create)
  show ?thesis using array_copies [OF i] i by (simp add: array_inv_create)
qed

end
