(* ===== verification/Svz_Hash.thy ===== *)
theory Svz_Hash
  imports Svz_Prelude "HOL-Library.Multiset"
begin

text \<open>
  Hash tables, \<^verbatim>\<open>src/libserveez/hash.c\<close> and \<^verbatim>\<open>hash.h\<close>, and the key callbacks other parts of the
  program plug into them (\<^verbatim>\<open>soprop.c\<close>, \<^verbatim>\<open>gnutella.c\<close>).

  A key \<^verbatim>\<open>const char *\<close> is the list of bytes that starts at the pointer; the default callbacks
  read it up to its NUL byte (\<open>c_string\<close> says there is one). A value \<^verbatim>\<open>void *\<close> is
  \<open>'v option\<close> with \<^term>\<open>None\<close> for \<^verbatim>\<open>NULL\<close>. A bucket is the list of its entries, since the code keeps
  the block of a bucket exactly as long as its size. \<^verbatim>\<open>buckets\<close> and \<^verbatim>\<open>keys\<close> are natural numbers
  (they count heap objects); \<^verbatim>\<open>fill\<close> is kept at the width of \<^verbatim>\<open>size_t\<close> on a 64-bit machine,
  because it does wrap around. \<^verbatim>\<open>char\<close> is signed and \<^verbatim>\<open>unsigned long\<close> has 64 bits.
  Results are in the option monad: \<^term>\<open>None\<close> is an access outside the table, or, for
  \<open>svz_hash_create\<close>, a loop that does not end.

  The locale \<open>hash_callbacks\<close> states what the table needs of its callbacks; under it the table
  refines a finite map (locale \<open>assoc_map\<close>).
\<close>

record 'v svz_hash_entry =
  ent_code :: u64
  ent_key :: mem
  ent_value :: "'v option"

type_synonym 'v svz_hash_bucket = "'v svz_hash_entry list"

record 'v svz_hash =
  buckets :: nat
  fill :: u64
  keys :: nat
  equals :: "mem \<Rightarrow> mem \<Rightarrow> int"
  code :: "mem \<Rightarrow> u64"
  keylen :: "mem \<Rightarrow> nat"
  destroy :: bool
  table :: "'v svz_hash_bucket list"

definition HASH_SHRINK_LIMIT :: "'v svz_hash \<Rightarrow> nat" where
  "HASH_SHRINK_LIMIT hash = drop_bit 2 (buckets hash)"

definition HASH_EXPAND_LIMIT :: "'v svz_hash \<Rightarrow> nat" where
  "HASH_EXPAND_LIMIT hash = drop_bit 1 (buckets hash) + drop_bit 2 (buckets hash)"

definition HASH_BUCKET :: "u64 \<Rightarrow> 'v svz_hash \<Rightarrow> nat" where
  "HASH_BUCKET c hash = unat c AND (buckets hash - 1)"

definition SVZ_HASH_MIN_SIZE :: nat where
  "SVZ_HASH_MIN_SIZE = 4"

datatype rehash_type = SVZ_HASH_SHRINK | SVZ_HASH_EXPAND

subsection \<open>The default callbacks\<close>

fun hash_code_loop :: "u64 \<Rightarrow> mem \<Rightarrow> u64" where
  "hash_code_loop c [] = c"
| "hash_code_loop c (p # ps) =
     (if p \<noteq> 0 then hash_code_loop (push_bit 1 c XOR scast p) ps else c)"

definition hash_code :: "mem \<Rightarrow> u64" where
  "hash_code key = hash_code_loop 0 key"

fun hash_equal :: "mem \<Rightarrow> mem \<Rightarrow> int" where
  "hash_equal (p1 # ps1) (p2 # ps2) =
     (if p1 \<noteq> 0 \<and> p2 \<noteq> 0 then (if p1 \<noteq> p2 then -1 else hash_equal ps1 ps2)
      else if p1 = 0 \<and> p2 = 0 then 0 else -1)"
| "hash_equal _ _ = -1"

fun hash_key_length :: "mem \<Rightarrow> nat" where
  "hash_key_length [] = 1"
| "hash_key_length (p # ps) = (if p \<noteq> 0 then Suc (hash_key_length ps) else 1)"

subsection \<open>Creation\<close>

text \<open>\<^verbatim>\<open>for (n = size, size = 1; n != 1; n >>= 1) size <<= 1;\<close>\<close>

partial_function (option) create_size :: "nat \<Rightarrow> nat \<Rightarrow> nat option" where
  "create_size n sz = (if n \<noteq> 1 then create_size (drop_bit 1 n) (push_bit 1 sz) else Some sz)"

definition svz_hash_create :: "nat \<Rightarrow> bool \<Rightarrow> 'v svz_hash option" where
  "svz_hash_create capacity destr = do {
     sz \<leftarrow> create_size capacity 1;
     let sz = (if sz < SVZ_HASH_MIN_SIZE then SVZ_HASH_MIN_SIZE else sz);
     Some \<lparr>buckets = sz, fill = 0, keys = 0, equals = hash_equal, code = hash_code,
           keylen = hash_key_length, destroy = destr, table = replicate sz []\<rparr>
   }"

definition svz_hash_configure ::
    "'v svz_hash \<Rightarrow> (mem \<Rightarrow> nat) option \<Rightarrow> (mem \<Rightarrow> u64) option \<Rightarrow> (mem \<Rightarrow> mem \<Rightarrow> int) option \<Rightarrow> 'v svz_hash"
where
  "svz_hash_configure hash kl co eq =
     (let hash = (case kl of None \<Rightarrow> hash | Some f \<Rightarrow> hash\<lparr>keylen := f\<rparr>);
          hash = (case co of None \<Rightarrow> hash | Some f \<Rightarrow> hash\<lparr>code := f\<rparr>)
      in case eq of None \<Rightarrow> hash | Some f \<Rightarrow> hash\<lparr>equals := f\<rparr>)"

text \<open>The values handed to the destroy callback, in the order of the calls.\<close>

definition svz_hash_destroy :: "'v svz_hash option \<Rightarrow> 'v option list" where
  "svz_hash_destroy hash =
     (case hash of
        None \<Rightarrow> []
      | Some h \<Rightarrow> if destroy h then concat (map (map ent_value) (table h)) else [])"

subsection \<open>Rehashing\<close>

definition bucket_at :: "'v svz_hash \<Rightarrow> nat \<Rightarrow> 'v svz_hash_bucket option" where
  "bucket_at hash n = (if n < length (table hash) then Some (table hash ! n) else None)"

text \<open>Append an entry to the bucket it belongs to, counting a bucket that was empty.\<close>

definition move_entry :: "'v svz_hash \<Rightarrow> 'v svz_hash_entry \<Rightarrow> 'v svz_hash option" where
  "move_entry hash ent = do {
     let m = HASH_BUCKET (ent_code ent) hash;
     nb \<leftarrow> bucket_at hash m;
     let hash = hash\<lparr>table := (table hash)[m := nb @ [ent]]\<rparr>;
     Some (if length nb + 1 = 1 then hash\<lparr>fill := fill hash + 1\<rparr> else hash)
   }"

text \<open>Remove entry \<open>e\<close> of bucket \<open>n\<close>: the last entry takes its place.\<close>

definition drop_entry :: "'v svz_hash \<Rightarrow> nat \<Rightarrow> nat \<Rightarrow> 'v svz_hash" where
  "drop_entry hash n e =
     (let b = table hash ! n
      in if length b - 1 = 0
         then hash\<lparr>table := (table hash)[n := []], fill := fill hash - 1\<rparr>
         else hash\<lparr>table := (table hash)[n := butlast (b[e := last b])]\<rparr>)"

function expand_bucket :: "'v svz_hash \<Rightarrow> nat \<Rightarrow> nat \<Rightarrow> 'v svz_hash option" where
  "expand_bucket hash n e =
     (case bucket_at hash n of
        None \<Rightarrow> None
      | Some b \<Rightarrow>
          if e < length b
          then if n \<noteq> HASH_BUCKET (ent_code (b ! e)) hash
               then (case move_entry hash (b ! e) of
                       None \<Rightarrow> None
                     | Some hash' \<Rightarrow> expand_bucket (drop_entry hash' n e) n e)
               else expand_bucket hash n (e + 1)
          else Some hash)"
  by pat_completeness auto
termination
  by (relation "measure (\<lambda>(hash, n, e). length (table hash ! n) - e)")
     (auto simp: bucket_at_def move_entry_def drop_entry_def Let_def split: if_splits)

declare expand_bucket.simps [simp del]

fun expand_loop :: "nat \<Rightarrow> nat \<Rightarrow> 'v svz_hash \<Rightarrow> 'v svz_hash option" where
  "expand_loop 0 n hash = Some hash"
| "expand_loop (Suc k) n hash = do { hash \<leftarrow> expand_bucket hash n 0; expand_loop k (Suc n) hash }"

fun move_entries :: "'v svz_hash_entry list \<Rightarrow> 'v svz_hash \<Rightarrow> 'v svz_hash option" where
  "move_entries [] hash = Some hash"
| "move_entries (ent # es) hash = do { hash \<leftarrow> move_entry hash ent; move_entries es hash }"

fun shrink_loop :: "nat \<Rightarrow> nat \<Rightarrow> 'v svz_hash \<Rightarrow> 'v svz_hash option" where
  "shrink_loop 0 n hash = Some hash"
| "shrink_loop (Suc k) n hash = do {
     b \<leftarrow> bucket_at hash n;
     hash \<leftarrow> (if length b \<noteq> 0 then move_entries b hash else Some hash);
     shrink_loop k (Suc n) (hash\<lparr>fill := fill hash - 1\<rparr>)
   }"

definition rehash :: "'v svz_hash \<Rightarrow> rehash_type \<Rightarrow> 'v svz_hash option" where
  "rehash hash type =
     (if type = SVZ_HASH_EXPAND
      then let n = push_bit 1 (buckets hash);
               hash = hash\<lparr>buckets := n, table := table hash @ replicate (n - length (table hash)) []\<rparr>
           in expand_loop (drop_bit 1 n) 0 hash
      else if type = SVZ_HASH_SHRINK \<and> buckets hash > SVZ_HASH_MIN_SIZE
      then do {
        let hash = hash\<lparr>buckets := drop_bit 1 (buckets hash)\<rparr>;
        hash \<leftarrow> shrink_loop (push_bit 1 (buckets hash) - buckets hash) (buckets hash) hash;
        Some (hash\<lparr>table := take (buckets hash) (table hash)\<rparr>)
      }
      else Some hash)"

subsection \<open>Operations\<close>

definition matches :: "'v svz_hash \<Rightarrow> mem \<Rightarrow> 'v svz_hash_entry \<Rightarrow> bool" where
  "matches hash key ent \<longleftrightarrow> equals hash (ent_key ent) key = 0"

text \<open>The search loop that put, delete, get and exists share: the first matching index.\<close>

fun find_entry :: "'v svz_hash \<Rightarrow> u64 \<Rightarrow> mem \<Rightarrow> nat \<Rightarrow> 'v svz_hash_bucket \<Rightarrow> nat option" where
  "find_entry hash c key e [] = None"
| "find_entry hash c key e (ent # es) =
     (if ent_code ent = c \<and> equals hash (ent_key ent) key = 0 then Some e
      else find_entry hash c key (Suc e) es)"

definition svz_hash_put ::
    "'v svz_hash \<Rightarrow> mem \<Rightarrow> 'v option \<Rightarrow> ('v option \<times> 'v svz_hash) option" where
  "svz_hash_put hash key value = do {
     let c = code hash key;
     let n = HASH_BUCKET c hash;
     b \<leftarrow> bucket_at hash n;
     case find_entry hash c key 0 b of
       Some e \<Rightarrow> Some (ent_value (b ! e),
                 hash\<lparr>table := (table hash)[n := b[e := (b ! e)\<lparr>ent_value := value\<rparr>]]\<rparr>)
     | None \<Rightarrow> do {
         let ent = \<lparr>ent_code = c, ent_key = take (keylen hash key) key, ent_value = value\<rparr>;
         let hash = hash\<lparr>table := (table hash)[n := b @ [ent]], keys := keys hash + 1\<rparr>;
         if length b + 1 = 1
         then do {
           let hash = hash\<lparr>fill := fill hash + 1\<rparr>;
           hash \<leftarrow> (if fill hash > of_nat (HASH_EXPAND_LIMIT hash) then rehash hash SVZ_HASH_EXPAND
                    else Some hash);
           Some (None, hash)
         }
         else Some (None, hash)
       }
   }"

definition svz_hash_delete :: "'v svz_hash \<Rightarrow> mem \<Rightarrow> ('v option \<times> 'v svz_hash) option" where
  "svz_hash_delete hash key = do {
     let c = code hash key;
     let n = HASH_BUCKET c hash;
     b \<leftarrow> bucket_at hash n;
     case find_entry hash c key 0 b of
       None \<Rightarrow> Some (None, hash)
     | Some e \<Rightarrow> do {
         hash \<leftarrow> (if length b - 1 \<noteq> 0
                  then Some (hash\<lparr>table := (table hash)[n := butlast (b[e := last b])]\<rparr>)
                  else do {
                    let hash = hash\<lparr>table := (table hash)[n := []], fill := fill hash - 1\<rparr>;
                    if fill hash < of_nat (HASH_SHRINK_LIMIT hash) then rehash hash SVZ_HASH_SHRINK
                    else Some hash
                  });
         Some (ent_value (b ! e), hash\<lparr>keys := keys hash - 1\<rparr>)
       }
   }"

definition svz_hash_get :: "'v svz_hash \<Rightarrow> mem \<Rightarrow> 'v option option" where
  "svz_hash_get hash key = do {
     let c = code hash key;
     b \<leftarrow> bucket_at hash (HASH_BUCKET c hash);
     Some (case find_entry hash c key 0 b of None \<Rightarrow> None | Some e \<Rightarrow> ent_value (b ! e))
   }"

definition svz_hash_exists :: "'v svz_hash \<Rightarrow> mem \<Rightarrow> int option" where
  "svz_hash_exists hash key = do {
     let c = code hash key;
     b \<leftarrow> bucket_at hash (HASH_BUCKET c hash);
     Some (case find_entry hash c key 0 b of None \<Rightarrow> 0 | Some e \<Rightarrow> -1)
   }"

text \<open>The key/value pairs the callback of \<^verbatim>\<open>svz_hash_foreach\<close> is called with, in order.\<close>

fun foreach_loop :: "nat \<Rightarrow> 'v svz_hash_bucket list \<Rightarrow> nat \<Rightarrow> (mem \<times> 'v option) list" where
  "foreach_loop ks [] i = []"
| "foreach_loop ks (b # bs) i =
     (if i < ks then map (\<lambda>ent. (ent_key ent, ent_value ent)) b @ foreach_loop ks bs (i + length b)
      else [])"

definition svz_hash_foreach :: "'v svz_hash \<Rightarrow> (mem \<times> 'v option) list" where
  "svz_hash_foreach hash = foreach_loop (keys hash) (take (buckets hash) (table hash)) 0"

definition svz_hash_size :: "'v svz_hash option \<Rightarrow> nat" where
  "svz_hash_size hash = (case hash of None \<Rightarrow> 0 | Some h \<Rightarrow> keys h)"

definition svz_hash_contains :: "'v svz_hash \<Rightarrow> 'v option \<Rightarrow> mem option" where
  "svz_hash_contains hash value =
     map_option ent_key (find (\<lambda>ent. ent_value ent = value) (concat (table hash)))"


subsection \<open>Tables of buckets\<close>

definition entries :: "'v svz_hash \<Rightarrow> 'v svz_hash_entry multiset" where
  "entries hash = mset (concat (table hash))"

definition nonempty :: "'a list list \<Rightarrow> u64" where
  "nonempty t = of_nat (length (filter (\<lambda>b. b \<noteq> []) t))"

text \<open>How far \<^verbatim>\<open>fill\<close> is from the number of non-empty buckets, modulo the width of \<^verbatim>\<open>size_t\<close>.\<close>

definition fill_err :: "'v svz_hash \<Rightarrow> u64" where
  "fill_err hash = fill hash - nonempty (table hash)"

definition placed :: "nat \<Rightarrow> nat \<Rightarrow> 'v svz_hash_bucket \<Rightarrow> bool" where
  "placed m n b \<longleftrightarrow> (\<forall>ent \<in> set b. unat (ent_code ent) mod m = n)"

lemma placed_simps [simp]:
  "placed m n []" "placed m n (e # b) \<longleftrightarrow> unat (ent_code e) mod m = n \<and> placed m n b"
  "placed m n (b @ b') \<longleftrightarrow> placed m n b \<and> placed m n b'"
  by (auto simp: placed_def)

lemma placed_subset: "placed m n b \<Longrightarrow> set b' \<subseteq> set b \<Longrightarrow> placed m n b'"
  by (auto simp: placed_def)

lemma placed_half:
  assumes "placed (2 * B) i b" and "i < B"
  shows "placed B i b"
  unfolding placed_def
proof
  fix ent assume "ent \<in> set b"
  then have "unat (ent_code ent) mod (2 * B) mod B = i" using assms by (simp add: placed_def)
  then show "unat (ent_code ent) mod B = i" by (simp add: mod_mod_cancel)
qed

lemma HASH_BUCKET_mod: "buckets h = 2 ^ k \<Longrightarrow> HASH_BUCKET c h = unat c mod buckets h"
proof -
  assume k: "buckets h = 2 ^ k"
  have "unat c AND (2 ^ k - 1) = take_bit k (unat c)" by (simp only: take_bit_eq_mask mask_eq_exp_minus_1)
  then show ?thesis by (simp only: HASH_BUCKET_def k take_bit_eq_mod)
qed

lemma HASH_BUCKET_cong: "buckets h = buckets h' \<Longrightarrow> HASH_BUCKET c h = HASH_BUCKET c h'"
  by (simp add: HASH_BUCKET_def)

lemma mset_concat_update:
  "i < length t \<Longrightarrow> mset (concat (t[i := x])) + mset (t ! i) = mset (concat t) + mset x"
proof -
  assume i: "i < length t"
  have "mset (concat t) = mset (concat (take i t)) + mset (t ! i) + mset (concat (drop (Suc i) t))"
    by (subst id_take_nth_drop [OF i]) simp
  then show ?thesis by (simp add: upd_conv_take_nth_drop [OF i])
qed

lemma nonempty_update:
  "i < length t \<Longrightarrow> nonempty (t[i := x]) + (if t ! i = [] then 0 else 1)
     = nonempty t + (if x = [] then 0 else 1)"
proof -
  assume i: "i < length t"
  have "nonempty t = nonempty (take i t) + (if t ! i = [] then 0 else 1) + nonempty (drop (Suc i) t)"
    by (subst id_take_nth_drop [OF i]) (simp add: nonempty_def)
  then show ?thesis by (simp add: upd_conv_take_nth_drop [OF i] nonempty_def)
qed

lemma nonempty_append [simp]: "nonempty (t @ t') = nonempty t + nonempty t'"
  by (simp add: nonempty_def)

lemma nonempty_replicate_Nil [simp]: "nonempty (replicate n []) = 0"
  by (simp add: nonempty_def)

lemma mset_swap_remove:
  assumes "e < length b"
  shows "mset (butlast (b[e := last b])) + {#b ! e#} = mset b"
proof (cases "e = length b - 1")
  case True
  then have "b[e := last b] = b" using assms by (metis last_conv_nth length_0_conv list_update_id not_less0)
  moreover have "b = butlast b @ [b ! e]"
    using True assms by (metis append_butlast_last_id last_conv_nth length_0_conv not_less0)
  ultimately show ?thesis by (metis mset.simps(1,2) mset_append)
next
  case False
  define c where "c = butlast b"
  have b: "b = c @ [last b]" using assms c_def by (metis append_butlast_last_id length_0_conv not_less0)
  have e: "e < length c" using assms False by (simp add: c_def)
  have "butlast (b[e := last b]) = c[e := last b]"
    by (metis b butlast_snoc e last_snoc list_update_append1)
  moreover have "mset (c[e := last b]) + {#c ! e#} = mset c + {#last b#}"
    using e by (simp add: mset_update)
  moreover have "b ! e = c ! e" using b e by (metis nth_append)
  ultimately show ?thesis using b by (metis add_mset_add_single mset_append mset.simps(1,2))
qed

lemma take_swap_remove: "e < length b \<Longrightarrow> take e (butlast (b[e := last b])) = take e b"
  by (simp add: take_butlast)

lemma move_entry_eq:
  assumes "HASH_BUCKET (ent_code ent) h < length (table h)"
  shows "move_entry h ent = Some (h\<lparr>
      table := (table h)[HASH_BUCKET (ent_code ent) h := table h ! HASH_BUCKET (ent_code ent) h @ [ent]],
      fill := fill h + (if table h ! HASH_BUCKET (ent_code ent) h = [] then 1 else 0)\<rparr>)"
  using assms by (simp add: move_entry_def bucket_at_def Let_def)

lemma move_entry_err:
  "m < length t \<Longrightarrow> fill h + (if t ! m = [] then 1 else 0) - nonempty (t[m := t ! m @ [x]]) = fill h - nonempty t"
  using nonempty_update [of m t "t ! m @ [x]"] by (simp split: if_splits add: algebra_simps)

lemma drop_entry_eq:
  assumes "n < length (table h)" and "e < length (table h ! n)"
  shows "drop_entry h n e = h\<lparr>
      table := (table h)[n := butlast ((table h ! n)[e := last (table h ! n)])],
      fill := fill h - (if length (table h ! n) = 1 then 1 else 0)\<rparr>"
  using assms by (cases "table h ! n") (auto simp: drop_entry_def Let_def)

lemma drop_entry_err:
  assumes "n < length t" and "e < length (t ! n)"
  shows "fill h - (if length (t ! n) = 1 then 1 else 0)
           - nonempty (t[n := butlast ((t ! n)[e := last (t ! n)])]) = fill h - nonempty t"
proof -
  have "length (butlast ((t ! n)[e := last (t ! n)])) = length (t ! n) - 1" by simp
  then have "(butlast ((t ! n)[e := last (t ! n)]) = []) = (length (t ! n) = 1)" "t ! n \<noteq> []"
    using assms(2) by (metis One_nat_def Suc_pred diff_is_0_eq' le_eq_less_or_eq length_0_conv
        less_nat_zero_code not_less_eq_eq zero_less_diff nat_neq_iff, auto)
  then show ?thesis
    using nonempty_update [OF assms(1), of "butlast ((t ! n)[e := last (t ! n)])"]
    by (auto simp: algebra_simps split: if_splits)
qed


subsection \<open>Rehashing keeps the entries\<close>

lemma double_mod_cases:
  assumes "x mod B = (n::nat)" and "0 < B"
  shows "x mod (2 * B) = n \<or> x mod (2 * B) = n + B"
proof -
  have "x mod (2 * B) = x mod B + B * (x div B mod 2)" by (metis mod_mult2_eq mult.commute add.commute)
  moreover have "x div B mod 2 = 0 \<or> x div B mod 2 = 1" by auto
  ultimately show ?thesis using assms(1) by auto
qed

text \<open>One relocation of the expanding loop: the entry moves, and nothing else changes.\<close>

lemma relocate_entry:
  assumes m: "HASH_BUCKET (ent_code (table h ! n ! e)) h = m" and lt: "m < length (table h)"
    "n < length (table h)" "m \<noteq> n" and e: "e < length (table h ! n)"
  shows "\<exists>h1 t f. move_entry h (table h ! n ! e) = Some h1 \<and> drop_entry h1 n e = h\<lparr>table := t, fill := f\<rparr>
     \<and> length t = length (table h) \<and> t ! n = butlast ((table h ! n)[e := last (table h ! n)])
     \<and> t ! m = table h ! m @ [table h ! n ! e] \<and> (\<forall>i. i \<noteq> n \<longrightarrow> i \<noteq> m \<longrightarrow> t ! i = table h ! i)
     \<and> mset (concat t) = mset (concat (table h)) \<and> f - nonempty t = fill h - nonempty (table h)"
proof -
  let ?b = "table h ! n" and ?ent = "table h ! n ! e"
  let ?b' = "butlast (?b[e := last ?b])"
  define t1 where "t1 = (table h)[m := table h ! m @ [?ent]]"
  define f1 where "f1 = fill h + (if table h ! m = [] then 1 else 0)"
  define t2 where "t2 = t1[n := ?b']"
  define f2 where "f2 = f1 - (if length ?b = 1 then 1 else 0)"
  have me: "move_entry h ?ent = Some (h\<lparr>table := t1, fill := f1\<rparr>)"
    using move_entry_eq [of ?ent h] lt by (simp add: m t1_def f1_def)
  have t1n: "t1 ! n = ?b" "length t1 = length (table h)" using lt by (simp_all add: t1_def)
  have de: "drop_entry (h\<lparr>table := t1, fill := f1\<rparr>) n e = h\<lparr>table := t2, fill := f2\<rparr>"
    using drop_entry_eq [of n "h\<lparr>table := t1, fill := f1\<rparr>" e] lt t1n e by (simp add: t2_def f2_def)
  have err: "f2 - nonempty t2 = fill h - nonempty (table h)"
    using drop_entry_err [of n t1 e "h\<lparr>fill := f1\<rparr>"] move_entry_err [of m "table h" h ?ent] lt t1n e
    by (simp add: f2_def t2_def f1_def t1_def)
  have "mset (concat t1) + mset (table h ! m) = (mset (concat (table h)) + {#?ent#}) + mset (table h ! m)"
    using mset_concat_update [OF lt(1), of "table h ! m @ [?ent]"] by (simp add: t1_def)
  then have c1: "mset (concat t1) = mset (concat (table h)) + {#?ent#}" by (simp only: add_right_cancel)
  have "mset (concat t2) + mset ?b = mset (concat t1) + mset ?b'"
    using mset_concat_update [of n t1 ?b'] lt t1n by (simp add: t2_def)
  also have "\<dots> = mset (concat (table h)) + mset ?b"
    using mset_swap_remove [OF e] by (simp add: c1)
  finally have ms: "mset (concat t2) = mset (concat (table h))" by (simp only: add_right_cancel)
  have "length t2 = length (table h)" "t2 ! n = ?b'" "t2 ! m = table h ! m @ [?ent]"
      "\<forall>i. i \<noteq> n \<longrightarrow> i \<noteq> m \<longrightarrow> t2 ! i = table h ! i"
    using lt by (simp_all add: t2_def t1_def)
  with me de ms err show ?thesis by blast
qed

definition expanded :: "'v svz_hash \<Rightarrow> nat \<Rightarrow> nat \<Rightarrow> 'v svz_hash_bucket list \<Rightarrow> u64 \<Rightarrow> bool" where
  "expanded h B n t f \<longleftrightarrow> length t = 2 * B \<and> mset (concat t) = mset (concat (table h))
     \<and> f - nonempty t = fill h - nonempty (table h)
     \<and> placed (2 * B) n (t ! n) \<and> (\<forall>i. i \<noteq> n \<longrightarrow> i \<noteq> n + B \<longrightarrow> t ! i = table h ! i)
     \<and> (placed (2 * B) (n + B) (table h ! (n + B)) \<longrightarrow> placed (2 * B) (n + B) (t ! (n + B)))"

lemma expand_bucket_correct:
  assumes "buckets h = 2 * B" and "B = 2 ^ k" and "length (table h) = 2 * B" and "n < B"
    and "placed B n (table h ! n)" and "placed (2 * B) n (take e (table h ! n))"
  shows "\<exists>t f. expand_bucket h n e = Some (h\<lparr>table := t, fill := f\<rparr>) \<and> expanded h B n t f"
  using assms
proof (induction h n e rule: expand_bucket.induct)
  case (1 h n e)
  let ?b = "table h ! n" and ?m = "n + B"
  have B: "0 < B" using "1.prems"(2) by simp
  have n: "bucket_at h n = Some ?b" using "1.prems" by (simp add: bucket_at_def)
  have hb: "HASH_BUCKET c h = unat c mod (2 * B)" for c
    using HASH_BUCKET_mod [of h "Suc k"] "1.prems"(1,2) by simp
  consider (stop) "\<not> e < length ?b"
    | (stay) "e < length ?b" "n = HASH_BUCKET (ent_code (?b ! e)) h"
    | (move) "e < length ?b" "n \<noteq> HASH_BUCKET (ent_code (?b ! e)) h" by blast
  then show ?case
  proof cases
    case stop
    then have "expand_bucket h n e = Some (h\<lparr>table := table h, fill := fill h\<rparr>)"
      using n by (simp add: expand_bucket.simps [of h n e])
    with stop "1.prems" show ?thesis
      by (intro exI [of _ "table h"] exI [of _ "fill h"]) (simp add: expanded_def)
  next
    case stay
    have "placed (2 * B) n (take (e + 1) ?b)"
      using stay "1.prems"(6) hb by (simp add: take_Suc_conv_app_nth)
    from "1.IH"(2) [OF n stay(1) _ "1.prems"(1-5) this] stay
    show ?thesis using n by (simp add: expand_bucket.simps [of h n e])
  next
    case move
    have "unat (ent_code (?b ! e)) mod B = n" using "1.prems"(5) move(1) by (simp add: placed_def)
    with double_mod_cases [OF this B] move(2) hb have m: "HASH_BUCKET (ent_code (?b ! e)) h = ?m" by auto
    have lt: "?m < length (table h)" "n < length (table h)" "?m \<noteq> n" using "1.prems" B by auto
    obtain h1 t2 f2 where s: "move_entry h (?b ! e) = Some h1" "drop_entry h1 n e = h\<lparr>table := t2, fill := f2\<rparr>"
        "length t2 = length (table h)" "t2 ! n = butlast (?b[e := last ?b])"
        "t2 ! ?m = table h ! ?m @ [?b ! e]" "\<forall>i. i \<noteq> n \<longrightarrow> i \<noteq> ?m \<longrightarrow> t2 ! i = table h ! i"
        "mset (concat t2) = mset (concat (table h))" "f2 - nonempty t2 = fill h - nonempty (table h)"
      using relocate_entry [OF m lt move(1)] by blast
    have "set (t2 ! n) \<subseteq> set ?b"
      using mset_swap_remove [OF move(1)] s(4) by (metis mset_subset_eq_add_left set_mset_mono set_mset_mset)
    then have p: "placed B n (t2 ! n)" using "1.prems"(5) by (rule placed_subset [rotated])
    have pe: "placed (2 * B) n (take e (t2 ! n))"
      using "1.prems"(6) take_swap_remove [OF move(1)] s(4) by simp
    from "1.IH"(1) [OF n move(1,2) s(1)] p pe s(2,3) "1.prems"(1-4)
    obtain t f where tf: "expand_bucket (h\<lparr>table := t2, fill := f2\<rparr>) n e = Some (h\<lparr>table := t, fill := f\<rparr>)"
        "expanded (h\<lparr>table := t2, fill := f2\<rparr>) B n t f"
      by auto
    have "expand_bucket h n e = Some (h\<lparr>table := t, fill := f\<rparr>)"
      using n move s tf(1) by (simp add: expand_bucket.simps [of h n e])
    moreover have "placed (2 * B) ?m (table h ! ?m) \<Longrightarrow> placed (2 * B) ?m (t2 ! ?m)"
      using m hb by (simp add: s(5))
    ultimately show ?thesis using tf(2) s(6-8) by (auto simp: expanded_def)
  qed
qed

lemma expand_loop_correct:
  assumes "buckets h = 2 * B" and "B = 2 ^ k" and "length (table h) = 2 * B" and "n + j = B"
    and "\<forall>i < B. placed (if i < n then 2 * B else B) i (table h ! i)"
    and "\<forall>i. B \<le> i \<longrightarrow> i < 2 * B \<longrightarrow> placed (2 * B) i (table h ! i)"
  shows "\<exists>t f. expand_loop j n h = Some (h\<lparr>table := t, fill := f\<rparr>) \<and> length t = 2 * B
     \<and> mset (concat t) = mset (concat (table h)) \<and> f - nonempty t = fill h - nonempty (table h)
     \<and> (\<forall>i < 2 * B. placed (2 * B) i (t ! i))"
  using assms
proof (induction j arbitrary: n h)
  case 0
  then have "\<forall>i < 2 * B. placed (2 * B) i (table h ! i)" by (metis add.right_neutral not_le)
  with 0 show ?case by (intro exI [of _ "table h"] exI [of _ "fill h"]) simp
next
  case (Suc j)
  then have "n < B" by simp
  moreover have "placed B n (table h ! n)" using Suc.prems(5) [rule_format, OF \<open>n < B\<close>] by simp
  ultimately obtain t f where tf: "expand_bucket h n 0 = Some (h\<lparr>table := t, fill := f\<rparr>)" "expanded h B n t f"
    using expand_bucket_correct [OF Suc.prems(1-3), of n 0] by auto
  let ?h = "h\<lparr>table := t, fill := f\<rparr>"
  have lo: "\<forall>i < B. placed (if i < Suc n then 2 * B else B) i (table ?h ! i)"
  proof (intro allI impI)
    fix i assume i: "i < B"
    show "placed (if i < Suc n then 2 * B else B) i (table ?h ! i)"
      using tf(2) Suc.prems(5) [rule_format, OF i] i by (cases "i = n") (auto simp: expanded_def less_Suc_eq)
  qed
  have hi: "\<forall>i. B \<le> i \<longrightarrow> i < 2 * B \<longrightarrow> placed (2 * B) i (table ?h ! i)"
    using tf(2) Suc.prems(6) \<open>n < B\<close> by (auto simp: expanded_def)
  from Suc.IH [of ?h "Suc n"] lo hi Suc.prems(1,2,4) tf show ?case by (auto simp: expanded_def)
qed

lemma rehash_expand_correct:
  assumes "buckets h = 2 ^ k" and "length (table h) = buckets h"
    and "\<forall>i < buckets h. placed (buckets h) i (table h ! i)"
  shows "\<exists>t f. rehash h SVZ_HASH_EXPAND = Some (h\<lparr>buckets := 2 * buckets h, table := t, fill := f\<rparr>)
     \<and> length t = 2 * buckets h \<and> mset (concat t) = mset (concat (table h))
     \<and> f - nonempty t = fill h - nonempty (table h) \<and> (\<forall>i < 2 * buckets h. placed (2 * buckets h) i (t ! i))"
proof -
  let ?B = "buckets h"
  let ?h = "h\<lparr>buckets := 2 * ?B, table := table h @ replicate ?B []\<rparr>"
  have c: "concat (table h @ replicate ?B []) = concat (table h)" by simp
  obtain t f where "expand_loop ?B 0 ?h = Some (?h\<lparr>table := t, fill := f\<rparr>)" "length t = 2 * ?B"
      "mset (concat t) = mset (concat (table h))" "f - nonempty t = fill h - nonempty (table h)"
      "\<forall>i < 2 * ?B. placed (2 * ?B) i (t ! i)"
    using expand_loop_correct [of ?h ?B k 0 ?B] assms by (auto simp: nth_append)
  moreover have "rehash h SVZ_HASH_EXPAND = expand_loop ?B 0 ?h"
    by (simp add: rehash_def Let_def push_bit_eq_mult drop_bit_eq_div assms(2) mult.commute)
  ultimately show ?thesis by (intro exI [of _ t] exI [of _ f]) simp
qed


lemma move_entries_correct:
  assumes "buckets h = 2 ^ k" and "buckets h \<le> length (table h)"
    and "\<forall>i < buckets h. placed (buckets h) i (table h ! i)"
  shows "\<exists>t f. move_entries es h = Some (h\<lparr>table := t, fill := f\<rparr>) \<and> length t = length (table h)
     \<and> drop (buckets h) t = drop (buckets h) (table h)
     \<and> mset (concat (take (buckets h) t)) = mset (concat (take (buckets h) (table h))) + mset es
     \<and> f - nonempty (take (buckets h) t) = fill h - nonempty (take (buckets h) (table h))
     \<and> (\<forall>i < buckets h. placed (buckets h) i (t ! i))"
  using assms
proof (induction es arbitrary: h)
  case Nil
  then show ?case by (intro exI [of _ "table h"] exI [of _ "fill h"]) simp
next
  case (Cons ent es)
  let ?B = "buckets h" and ?t = "table h"
  define m where "m = HASH_BUCKET (ent_code ent) h"
  have m: "m = unat (ent_code ent) mod ?B" using HASH_BUCKET_mod [OF Cons.prems(1)] by (simp add: m_def)
  then have lt: "m < ?B" using Cons.prems(1) by simp
  with Cons.prems(2) have ltt: "m < length ?t" by simp
  note lt = lt ltt
  define t1 where "t1 = ?t[m := ?t ! m @ [ent]]"
  define f1 where "f1 = fill h + (if ?t ! m = [] then 1 else 0)"
  have me: "move_entry h ent = Some (h\<lparr>table := t1, fill := f1\<rparr>)"
    using move_entry_eq [of ent h] lt by (simp add: m_def t1_def f1_def)
  have tk: "take ?B t1 = (take ?B ?t)[m := take ?B ?t ! m @ [ent]]" "take ?B ?t ! m = ?t ! m"
    using lt by (simp_all add: t1_def take_update_swap)
  have "mset (concat (take ?B t1)) + mset (?t ! m) = (mset (concat (take ?B ?t)) + {#ent#}) + mset (?t ! m)"
    using mset_concat_update [of m "take ?B ?t" "?t ! m @ [ent]"] lt by (simp add: tk)
  then have ms: "mset (concat (take ?B t1)) = mset (concat (take ?B ?t)) + {#ent#}"
    by (simp only: add_right_cancel)
  have err: "f1 - nonempty (take ?B t1) = fill h - nonempty (take ?B ?t)"
    using move_entry_err [of m "take ?B ?t" h ent] lt by (simp add: tk f1_def)
  have pl: "\<forall>i < ?B. placed ?B i (t1 ! i)"
    using Cons.prems(3) lt m by (auto simp: t1_def nth_list_update)
  have "drop ?B t1 = drop ?B ?t" "length t1 = length ?t" using lt by (simp_all add: t1_def)
  with Cons.IH [of "h\<lparr>table := t1, fill := f1\<rparr>"] Cons.prems(1,2) pl ms err me show ?case
    by auto
qed

lemma shrink_loop_correct:
  assumes "buckets h = 2 ^ k" and "length (table h) = 2 * buckets h" and "n + j = 2 * buckets h"
    and "buckets h \<le> n" and "\<forall>i < buckets h. placed (buckets h) i (table h ! i)"
  shows "\<exists>t f. shrink_loop j n h = Some (h\<lparr>table := t, fill := f\<rparr>) \<and> length t = length (table h)
     \<and> mset (concat (take (buckets h) t))
         = mset (concat (take (buckets h) (table h))) + mset (concat (drop n (table h)))
     \<and> f - nonempty (take (buckets h) t) = fill h - nonempty (take (buckets h) (table h)) - of_nat j
     \<and> (\<forall>i < buckets h. placed (buckets h) i (t ! i))"
  using assms
proof (induction j arbitrary: n h)
  case 0
  then show ?case by (intro exI [of _ "table h"] exI [of _ "fill h"]) simp
next
  case (Suc j)
  let ?B = "buckets h" and ?t = "table h"
  have n: "n < length ?t" using Suc.prems by simp
  obtain t f where tf: "move_entries (?t ! n) h = Some (h\<lparr>table := t, fill := f\<rparr>)"
      "length t = length ?t" "drop ?B t = drop ?B ?t"
      "mset (concat (take ?B t)) = mset (concat (take ?B ?t)) + mset (?t ! n)"
      "f - nonempty (take ?B t) = fill h - nonempty (take ?B ?t)"
      "\<forall>i < ?B. placed ?B i (t ! i)"
    using move_entries_correct [OF Suc.prems(1) _ Suc.prems(5), of "?t ! n"] Suc.prems(2) by auto
  have dr: "drop (Suc n) t = drop (Suc n) ?t"
    using tf(3) Suc.prems(4) by (metis drop_drop le_SucI le_add_diff_inverse2)
  have cc: "concat (drop n ?t) = ?t ! n @ concat (drop (Suc n) ?t)"
    using n by (metis Cons_nth_drop_Suc concat.simps(2))
  let ?h = "h\<lparr>table := t, fill := f - 1\<rparr>"
  obtain t' f' where tf': "shrink_loop j (Suc n) ?h = Some (?h\<lparr>table := t', fill := f'\<rparr>)"
      "length t' = length t"
      "mset (concat (take ?B t')) = mset (concat (take ?B t)) + mset (concat (drop (Suc n) t))"
      "f' - nonempty (take ?B t') = f - 1 - nonempty (take ?B t) - of_nat j"
      "\<forall>i < ?B. placed ?B i (t' ! i)"
    using Suc.IH [of ?h "Suc n"] Suc.prems tf by auto
  have step: "shrink_loop (Suc j) n h = shrink_loop j (Suc n) ?h"
  proof -
    have "(if ?t ! n \<noteq> [] then move_entries (?t ! n) h else Some h) = move_entries (?t ! n) h" by simp
    then show ?thesis using n tf(1) by (simp add: bucket_at_def)
  qed
  have "f' - nonempty (take ?B t') = fill h - nonempty (take ?B ?t) - of_nat (Suc j)"
  proof -
    have "f - 1 - nonempty (take ?B t) - of_nat j = (f - nonempty (take ?B t)) - of_nat (Suc j)"
      by (simp add: algebra_simps)
    then show ?thesis using tf'(4) tf(5) by simp
  qed
  with step tf' tf(2,4) dr cc show ?case by (intro exI [of _ t'] exI [of _ f']) simp
qed

text \<open>
  Halving the table keeps the entries, but the counter drops by one for every upper bucket,
  also for the empty ones.
\<close>

lemma rehash_shrink_correct:
  assumes k: "buckets h = 2 ^ Suc k" and len: "length (table h) = buckets h" and big: "buckets h > SVZ_HASH_MIN_SIZE"
    and pl: "\<forall>i < buckets h. placed (buckets h) i (table h ! i)"
  shows "\<exists>t f. rehash h SVZ_HASH_SHRINK = Some (h\<lparr>buckets := buckets h div 2, table := t, fill := f\<rparr>)
     \<and> length t = buckets h div 2 \<and> mset (concat t) = mset (concat (table h))
     \<and> f - nonempty t = fill h - nonempty (table h)
         - of_nat (length (filter (\<lambda>b. b = []) (drop (buckets h div 2) (table h))))
     \<and> (\<forall>i < buckets h div 2. placed (buckets h div 2) i (t ! i))"
proof -
  define B where "B = (2::nat) ^ k"
  let ?t = "table h" and ?h = "h\<lparr>buckets := B\<rparr>"
  have B: "buckets h = 2 * B" "buckets h div 2 = B" using k by (simp_all add: B_def)
  have "\<forall>i < B. placed B i (?t ! i)"
  proof (intro allI impI)
    fix i assume i: "i < B"
    then have "placed (2 * B) i (?t ! i)" using pl [unfolded B(1)] by simp
    then show "placed B i (?t ! i)" using i by (rule placed_half)
  qed
  then obtain t f where tf: "shrink_loop B B ?h = Some (?h\<lparr>table := t, fill := f\<rparr>)" "length t = length ?t"
      "mset (concat (take B t)) = mset (concat (take B ?t)) + mset (concat (drop B ?t))"
      "f - nonempty (take B t) = fill h - nonempty (take B ?t) - of_nat B"
      "\<forall>i < B. placed B i (t ! i)"
    using shrink_loop_correct [of ?h k B B] B len by (auto simp: B_def)
  have "rehash h SVZ_HASH_SHRINK = Some (h\<lparr>buckets := B, table := take B t, fill := f\<rparr>)"
    using big tf(1) B by (simp add: rehash_def Let_def drop_bit_eq_div push_bit_eq_mult)
  moreover have "mset (concat (take B t)) = mset (concat ?t)"
    using tf(3) by (metis append_take_drop_id concat_append mset_append)
  moreover have "length (drop B ?t) = B" using B len by simp
  then have "of_nat B = nonempty (drop B ?t) + (of_nat (length (filter (\<lambda>b. b = []) (drop B ?t))) :: u64)"
    unfolding nonempty_def of_nat_add [symmetric] using sum_length_filter_compl [of "\<lambda>b. b \<noteq> []" "drop B ?t"]
    by simp
  moreover have "nonempty ?t = nonempty (take B ?t) + nonempty (drop B ?t)"
    by (metis append_take_drop_id nonempty_append)
  ultimately show ?thesis
    using tf(2,4,5) len B by (intro exI [of _ "take B t"] exI [of _ f]) (simp add: algebra_simps)
qed


subsection \<open>Invariant and abstraction\<close>

definition hash_lookup :: "'v svz_hash \<Rightarrow> mem \<Rightarrow> 'v option option" where
  "hash_lookup h key = map_option ent_value (find (matches h key) (concat (table h)))"

definition hash_shape :: "'v svz_hash \<Rightarrow> bool" where
  "hash_shape h \<longleftrightarrow> (\<exists>k. buckets h = 2 ^ k) \<and> SVZ_HASH_MIN_SIZE \<le> buckets h \<and> length (table h) = buckets h
     \<and> (\<forall>i < buckets h. placed (buckets h) i (table h ! i))"

definition hash_ents :: "(mem \<Rightarrow> bool) \<Rightarrow> 'v svz_hash \<Rightarrow> 'v svz_hash_entry multiset \<Rightarrow> bool" where
  "hash_ents valid h M \<longleftrightarrow> (\<forall>ent \<in># M. ent_code ent = code h (ent_key ent) \<and> valid (ent_key ent))
     \<and> (\<forall>key. valid key \<longrightarrow> size (filter_mset (matches h key) M) \<le> 1)"

definition hash_wf :: "(mem \<Rightarrow> bool) \<Rightarrow> 'v svz_hash \<Rightarrow> bool" where
  "hash_wf valid h \<longleftrightarrow> hash_shape h \<and> hash_ents valid h (entries h) \<and> keys h = size (entries h)"

definition uses :: "(mem \<Rightarrow> mem \<Rightarrow> int) \<Rightarrow> (mem \<Rightarrow> u64) \<Rightarrow> (mem \<Rightarrow> nat) \<Rightarrow> 'v svz_hash \<Rightarrow> bool" where
  "uses eq co kl h \<longleftrightarrow> equals h = eq \<and> code h = co \<and> keylen h = kl"

lemma filter_single:
  assumes "size (filter_mset P M) \<le> 1" and "x \<in># M" "P x" and "y \<in># M" "P y"
  shows "x = y"
proof -
  have "x \<in># filter_mset P M" "y \<in># filter_mset P M" using assms by simp_all
  then show ?thesis using assms(1)
    by (metis One_nat_def add_mset_eq_single diff_is_0_eq' insert_DiffM le_0_eq
        le_Suc_eq size_eq_0_iff_empty size_1_singleton_mset empty_iff set_mset_empty)
qed

lemma hash_lookup_None: "hash_lookup h key = None \<longleftrightarrow> (\<forall>ent \<in># entries h. \<not> matches h key ent)"
  by (auto simp: hash_lookup_def entries_def find_None_iff)

lemma hash_lookup_Some:
  assumes "hash_ents valid h (entries h)" and "valid key"
  shows "hash_lookup h key = Some v \<longleftrightarrow> (\<exists>ent \<in># entries h. matches h key ent \<and> ent_value ent = v)"
proof
  assume "hash_lookup h key = Some v"
  then obtain ent where "find (matches h key) (concat (table h)) = Some ent" "ent_value ent = v"
    by (auto simp: hash_lookup_def)
  then show "\<exists>ent \<in># entries h. matches h key ent \<and> ent_value ent = v"
    unfolding entries_def by (metis find_Some_iff nth_mem set_mset_mset)
next
  assume "\<exists>ent \<in># entries h. matches h key ent \<and> ent_value ent = v"
  then obtain ent where ent: "ent \<in># entries h" "matches h key ent" "ent_value ent = v" by blast
  then have "hash_lookup h key \<noteq> None" by (auto simp: hash_lookup_None)
  then obtain ent' where e': "find (matches h key) (concat (table h)) = Some ent'"
    by (auto simp: hash_lookup_def)
  then have "ent' \<in># entries h" "matches h key ent'"
    unfolding entries_def by (metis find_Some_iff nth_mem set_mset_mset)+
  with ent assms have "ent' = ent"
    by (intro filter_single [where P = "matches h key" and M = "entries h"]) (auto simp: hash_ents_def)
  with e' ent(3) show "hash_lookup h key = Some v" by (simp add: hash_lookup_def)
qed

lemma find_entry_Some:
  "find_entry h c key k b = Some e \<Longrightarrow>
     k \<le> e \<and> e - k < length b \<and> ent_code (b ! (e - k)) = c \<and> matches h key (b ! (e - k))"
proof (induction b arbitrary: k)
  case (Cons x b)
  show ?case
  proof (cases "ent_code x = c \<and> equals h (ent_key x) key = 0")
    case True
    with Cons.prems show ?thesis by (auto simp: matches_def)
  next
    case False
    with Cons.prems have "find_entry h c key (Suc k) b = Some e" by auto
    with Cons.IH have *: "Suc k \<le> e \<and> e - Suc k < length b \<and> ent_code (b ! (e - Suc k)) = c
        \<and> matches h key (b ! (e - Suc k))" by blast
    then have "e - k = Suc (e - Suc k)" by auto
    with * show ?thesis by auto
  qed
qed simp

lemma find_entry_None:
  "find_entry h c key k b = None \<longleftrightarrow> (\<forall>ent \<in> set b. ent_code ent = c \<longrightarrow> \<not> matches h key ent)"
  by (induction b arbitrary: k) (auto simp: matches_def)

lemma in_bucket:
  assumes "hash_shape h" and "ent \<in># entries h"
  shows "ent \<in> set (table h ! HASH_BUCKET (ent_code ent) h)"
proof -
  from assms(2) obtain b where "b \<in> set (table h)" "ent \<in> set b" by (auto simp: entries_def)
  then obtain i where i: "i < length (table h)" "ent \<in> set (table h ! i)" by (metis in_set_conv_nth)
  with assms(1) have "unat (ent_code ent) mod buckets h = i" by (auto simp: hash_shape_def placed_def)
  moreover have "HASH_BUCKET (ent_code ent) h = unat (ent_code ent) mod buckets h"
    using assms(1) HASH_BUCKET_mod by (auto simp: hash_shape_def)
  ultimately show ?thesis using i by simp
qed

lemma bucket_at_shape:
  assumes "hash_shape h"
  shows "bucket_at h (HASH_BUCKET c h) = Some (table h ! HASH_BUCKET c h) \<and> HASH_BUCKET c h < length (table h)"
proof -
  from assms have "HASH_BUCKET c h = unat c mod buckets h" "0 < buckets h"
    using HASH_BUCKET_mod by (auto simp: hash_shape_def SVZ_HASH_MIN_SIZE_def)
  with assms show ?thesis by (auto simp: hash_shape_def bucket_at_def)
qed

lemma bucket_entries: "n < length (table h) \<Longrightarrow> ent \<in> set (table h ! n) \<Longrightarrow> ent \<in># entries h"
  by (auto simp: entries_def)

lemma hash_wf_entries_cong:
  assumes "hash_ents valid h (entries h)" and "equals h' = equals h" and "code h' = code h"
    and "entries h' = entries h"
  shows "hash_ents valid h' (entries h')"
proof -
  have "matches h' = matches h" using assms(2) by (simp add: matches_def fun_eq_iff)
  with assms show ?thesis by (simp add: hash_ents_def)
qed


text \<open>What a rehash keeps, and how it moves the counter of filled buckets.\<close>

definition upper_empty :: "'v svz_hash \<Rightarrow> nat" where
  "upper_empty h = length (filter (\<lambda>b. b = []) (drop (buckets h div 2) (table h)))"

definition same_content :: "'v svz_hash \<Rightarrow> 'v svz_hash \<Rightarrow> bool" where
  "same_content h h' \<longleftrightarrow> entries h' = entries h \<and> keys h' = keys h \<and> equals h' = equals h
     \<and> code h' = code h \<and> keylen h' = keylen h \<and> destroy h' = destroy h"

lemma rehash_expand_keeps:
  assumes "hash_shape h"
  shows "\<exists>h'. rehash h SVZ_HASH_EXPAND = Some h' \<and> hash_shape h' \<and> same_content h h'
            \<and> fill_err h' = fill_err h"
proof -
  from assms obtain k where k: "buckets h = 2 ^ k" by (auto simp: hash_shape_def)
  obtain t f where tf: "rehash h SVZ_HASH_EXPAND = Some (h\<lparr>buckets := 2 * buckets h, table := t, fill := f\<rparr>)"
      "length t = 2 * buckets h" "mset (concat t) = mset (concat (table h))"
      "f - nonempty t = fill h - nonempty (table h)" "\<forall>i < 2 * buckets h. placed (2 * buckets h) i (t ! i)"
    using rehash_expand_correct [OF k] assms by (auto simp: hash_shape_def)
  have "2 * buckets h = 2 ^ Suc k" using k by simp
  then have "hash_shape (h\<lparr>buckets := 2 * buckets h, table := t, fill := f\<rparr>)"
    using assms tf(2,5) unfolding hash_shape_def by (intro conjI exI [of _ "Suc k"]) simp_all
  with tf show ?thesis by (auto simp: same_content_def entries_def fill_err_def)
qed

lemma rehash_shrink_keeps:
  assumes "hash_shape h"
  shows "\<exists>h'. rehash h SVZ_HASH_SHRINK = Some h' \<and> hash_shape h' \<and> same_content h h'
            \<and> fill_err h' = fill_err h - (if buckets h > SVZ_HASH_MIN_SIZE then of_nat (upper_empty h) else 0)"
proof (cases "buckets h > SVZ_HASH_MIN_SIZE")
  case False
  then show ?thesis using assms by (simp add: rehash_def same_content_def)
next
  case big: True
  from assms obtain k where k: "buckets h = 2 ^ k" by (auto simp: hash_shape_def)
  have "(2::nat) ^ 2 < 2 ^ k" using big k by (simp add: SVZ_HASH_MIN_SIZE_def)
  then have "2 < k" by (rule power_less_imp_less_exp [rotated]) simp
  then obtain j where j: "k = Suc j" "2 \<le> j" by (cases k) auto
  have kj: "buckets h = 2 ^ Suc j" using k j by simp
  have ge: "SVZ_HASH_MIN_SIZE \<le> 2 ^ j"
    using power_increasing [OF j(2), of "2::nat"] by (simp add: SVZ_HASH_MIN_SIZE_def)
  obtain t f where tf: "rehash h SVZ_HASH_SHRINK = Some (h\<lparr>buckets := buckets h div 2, table := t, fill := f\<rparr>)"
      "length t = buckets h div 2" "mset (concat t) = mset (concat (table h))"
      "f - nonempty t = fill h - nonempty (table h) - of_nat (upper_empty h)"
      "\<forall>i < buckets h div 2. placed (buckets h div 2) i (t ! i)"
    using rehash_shrink_correct [OF kj _ big] assms by (auto simp: hash_shape_def upper_empty_def)
  have "buckets h div 2 = 2 ^ j" using kj by simp
  then have "hash_shape (h\<lparr>buckets := buckets h div 2, table := t, fill := f\<rparr>)"
    using ge tf(2,5) unfolding hash_shape_def by (intro conjI exI [of _ j]) simp_all
  with tf big show ?thesis by (auto simp: same_content_def entries_def fill_err_def)
qed

lemma maybe_expand_keeps:
  assumes "hash_shape h"
  shows "\<exists>h'. (if c then rehash h SVZ_HASH_EXPAND else Some h) = Some h' \<and> hash_shape h'
            \<and> same_content h h' \<and> fill_err h' = fill_err h"
  using rehash_expand_keeps [OF assms] assms by (cases c) (simp_all add: same_content_def)

lemma maybe_shrink_keeps:
  assumes "hash_shape h"
  shows "\<exists>h'. (if c then rehash h SVZ_HASH_SHRINK else Some h) = Some h' \<and> hash_shape h' \<and> same_content h h'"
  using rehash_shrink_keeps [OF assms] assms by (cases c) (auto simp: same_content_def)

subsection \<open>The contract of the callbacks and of the table\<close>

text \<open>
  A finite map from keys to values up to an equivalence of keys: what the users of a hash
  table rely on. \<open>lookup\<close> is the abstract map; \<open>same\<close> is the equivalence of keys.
\<close>

locale assoc_map =
  fixes valid :: "'k \<Rightarrow> bool"
    and same :: "'k \<Rightarrow> 'k \<Rightarrow> bool"
    and minv :: "'h \<Rightarrow> bool"
    and lookup :: "'h \<Rightarrow> 'k \<Rightarrow> 'v option option"
    and mput :: "'h \<Rightarrow> 'k \<Rightarrow> 'v option \<Rightarrow> ('v option \<times> 'h) option"
    and mdel :: "'h \<Rightarrow> 'k \<Rightarrow> ('v option \<times> 'h) option"
    and mget :: "'h \<Rightarrow> 'k \<Rightarrow> 'v option option"
  assumes same_refl: "valid k \<Longrightarrow> same k k"
    and mput: "minv h \<Longrightarrow> valid k \<Longrightarrow> \<exists>h'. mput h k v = Some (Option.bind (lookup h k) id, h') \<and> minv h'
                 \<and> (\<forall>k'. valid k' \<longrightarrow> lookup h' k' = (if same k k' then Some v else lookup h k'))"
    and mdel: "minv h \<Longrightarrow> valid k \<Longrightarrow> \<exists>h'. mdel h k = Some (Option.bind (lookup h k) id, h') \<and> minv h'
                 \<and> (\<forall>k'. valid k' \<longrightarrow> lookup h' k' = (if same k k' then None else lookup h k'))"
    and mget: "minv h \<Longrightarrow> valid k \<Longrightarrow> mget h k = Some (Option.bind (lookup h k) id)"
begin

lemma get_put:
  assumes "minv h" and "valid k" and "valid k'"
  shows "\<exists>old h'. mput h k v = Some (old, h') \<and> minv h' \<and> mget h k = Some old
           \<and> mget h' k' = (if same k k' then Some v else mget h k')"
proof -
  obtain h' where "mput h k v = Some (Option.bind (lookup h k) id, h')" "minv h'"
      "\<forall>k'. valid k' \<longrightarrow> lookup h' k' = (if same k k' then Some v else lookup h k')"
    using mput [OF assms(1,2)] by blast
  then show ?thesis using assms by (auto simp: mget)
qed

lemma get_delete:
  assumes "minv h" and "valid k" and "valid k'"
  shows "\<exists>old h'. mdel h k = Some (old, h') \<and> minv h' \<and> mget h k = Some old
           \<and> mget h' k' = (if same k k' then Some None else mget h k')"
proof -
  obtain h' where "mdel h k = Some (Option.bind (lookup h k) id, h')" "minv h'"
      "\<forall>k'. valid k' \<longrightarrow> lookup h' k' = (if same k k' then None else lookup h k')"
    using mdel [OF assms(1,2)] by blast
  then show ?thesis using assms by (auto simp: mget)
qed

lemma put_get_same:
  "minv h \<Longrightarrow> valid k \<Longrightarrow> \<exists>old h'. mput h k v = Some (old, h') \<and> minv h' \<and> mget h' k = Some v"
  using get_put [of h k k v] same_refl by auto

end

text \<open>What the table needs of its three callbacks.\<close>

locale hash_callbacks =
  fixes valid :: "mem \<Rightarrow> bool"
    and eq :: "mem \<Rightarrow> mem \<Rightarrow> int"
    and co :: "mem \<Rightarrow> u64"
    and kl :: "mem \<Rightarrow> nat"
  assumes eq_refl: "valid k \<Longrightarrow> eq k k = 0"
    and eq_sym: "valid k \<Longrightarrow> valid k' \<Longrightarrow> eq k k' = 0 \<Longrightarrow> eq k' k = 0"
    and eq_trans: "valid k \<Longrightarrow> valid k' \<Longrightarrow> valid k'' \<Longrightarrow> eq k k' = 0 \<Longrightarrow> eq k' k'' = 0 \<Longrightarrow> eq k k'' = 0"
    and eq_code: "valid k \<Longrightarrow> valid k' \<Longrightarrow> eq k k' = 0 \<Longrightarrow> co k = co k'"
    and copy_valid: "valid k \<Longrightarrow> valid (take (kl k) k)"
    and copy_eq: "valid k \<Longrightarrow> eq (take (kl k) k) k = 0"
begin

lemma find_in_bucket:
  assumes "hash_wf valid h" and "uses eq co kl h" and "valid key"
    and b: "b = table h ! HASH_BUCKET (code h key) h"
  shows "case find_entry h (code h key) key 0 b of
      None \<Rightarrow> hash_lookup h key = None
    | Some e \<Rightarrow> e < length b \<and> b ! e \<in># entries h \<and> matches h key (b ! e)
                \<and> ent_code (b ! e) = code h key \<and> hash_lookup h key = Some (ent_value (b ! e))"
proof (cases "find_entry h (code h key) key 0 b")
  case None
  have "\<not> matches h key ent" if ent: "ent \<in># entries h" for ent
  proof
    assume m: "matches h key ent"
    have v: "valid (ent_key ent)" "ent_code ent = code h (ent_key ent)"
      using assms(1) ent by (auto simp: hash_wf_def hash_ents_def)
    then have c: "ent_code ent = code h key"
      using m assms(2,3) eq_code [of "ent_key ent" key] by (simp add: matches_def uses_def)
    have "ent \<in> set b" using in_bucket [OF _ ent] assms(1) b c by (simp add: hash_wf_def)
    with None c m show False by (simp add: find_entry_None)
  qed
  with None show ?thesis by (simp add: hash_lookup_None)
next
  case (Some e)
  then have e: "e < length b" "ent_code (b ! e) = code h key" "matches h key (b ! e)"
    using find_entry_Some [OF Some] by auto
  have "b ! e \<in># entries h"
    using e(1) b bucket_at_shape [of h "code h key"] assms(1)
    by (intro bucket_entries [of "HASH_BUCKET (code h key) h"]) (auto simp: hash_wf_def)
  moreover have "hash_lookup h key = Some (ent_value (b ! e))"
    using hash_lookup_Some [of valid h key] assms(1,3) e(3) calculation by (auto simp: hash_wf_def)
  ultimately show ?thesis using Some e by simp
qed

lemma matches_same:
  assumes "hash_wf valid h" and "uses eq co kl h" and "valid key" "valid key'"
    and "ent \<in># entries h" and "matches h key ent"
  shows "matches h key' ent \<longleftrightarrow> eq key key' = 0"
proof -
  have v: "valid (ent_key ent)" using assms(1,5) by (auto simp: hash_wf_def hash_ents_def)
  have m: "eq (ent_key ent) key = 0" using assms(2,6) by (simp add: matches_def uses_def)
  show ?thesis using eq_trans [OF v assms(3,4) m] eq_sym [OF v assms(3) m]
      eq_trans [OF assms(3) v assms(4)] assms(2) by (auto simp: matches_def uses_def)
qed


lemma lookup_eqI:
  assumes "hash_ents valid h (entries h)" and "hash_ents valid h' (entries h')" and "valid key"
    and "\<And>v. (\<exists>ent \<in># entries h'. matches h' key ent \<and> ent_value ent = v)
             \<longleftrightarrow> (\<exists>ent \<in># entries h. matches h key ent \<and> ent_value ent = v)"
  shows "hash_lookup h' key = hash_lookup h key"
  using hash_lookup_Some [OF assms(1,3)] hash_lookup_Some [OF assms(2,3)] assms(4)
  by (metis not_None_eq)

lemma lookup_replace:
  assumes wf: "hash_wf valid h" "uses eq co kl h" and same: "equals h' = equals h" "code h' = code h"
    and M: "entries h = add_mset x M" "entries h' = add_mset (x\<lparr>ent_value := v\<rparr>) M"
    and key: "valid key" "matches h key x"
  shows "hash_ents valid h' (entries h')" (is ?ents)
    and "\<And>k'. valid k' \<Longrightarrow> hash_lookup h' k' = (if eq key k' = 0 then Some v else hash_lookup h k')"
proof -
  have m: "matches h' = matches h" using same by (simp add: matches_def fun_eq_iff)
  have mx: "matches h k (x\<lparr>ent_value := v\<rparr>) = matches h k x" for k by (simp add: matches_def)
  have ents: "hash_ents valid h (entries h)" using wf(1) by (simp add: hash_wf_def)
  have f: "size (filter_mset (matches h' k) (entries h')) = size (filter_mset (matches h k) (entries h))" for k
    by (simp add: M m mx)
  show e': ?ents using ents f by (auto simp: hash_ents_def M same)
  fix k' assume k': "valid k'"
  have x: "matches h k' x \<longleftrightarrow> eq key k' = 0"
    using matches_same [OF wf key(1) k' _ key(2)] M(1) by simp
  show "hash_lookup h' k' = (if eq key k' = 0 then Some v else hash_lookup h k')"
  proof (cases "eq key k' = 0")
    case True
    then show ?thesis using hash_lookup_Some [OF e' k', of v] x mx m by (auto simp: M(2))
  next
    case False
    then have "hash_lookup h' k' = hash_lookup h k'"
      using x mx m by (intro lookup_eqI [OF ents e' k']) (auto simp: M)
    with False show ?thesis by simp
  qed
qed

lemma lookup_insert:
  assumes wf: "hash_wf valid h" "uses eq co kl h" and same: "equals h' = equals h" "code h' = code h"
    and M: "entries h' = add_mset x (entries h)" and x: "ent_key x = take (kl key) key" "ent_code x = co key"
    and key: "valid key" "hash_lookup h key = None"
  shows "hash_ents valid h' (entries h')" (is ?ents)
    and "\<And>k'. valid k' \<Longrightarrow> hash_lookup h' k' = (if eq key k' = 0 then Some (ent_value x) else hash_lookup h k')"
proof -
  have m: "matches h' = matches h" using same by (simp add: matches_def fun_eq_iff)
  have ents: "hash_ents valid h (entries h)" using wf(1) by (simp add: hash_wf_def)
  have vx: "valid (ent_key x)" "eq (ent_key x) key = 0" using copy_valid copy_eq key(1) x by auto
  have mx: "matches h k' x \<longleftrightarrow> eq key k' = 0" if "valid k'" for k'
    using eq_trans [OF vx(1) key(1) that vx(2)] eq_trans [OF key(1) vx(1) that]
      eq_sym [OF vx(1) key(1) vx(2)] wf(2) by (auto simp: matches_def uses_def)
  have none: "filter_mset (matches h k') (entries h) = {#}" if "valid k'" "eq key k' = 0" for k'
  proof -
    have "\<not> matches h k' ent" if "ent \<in># entries h" for ent
      using matches_same [OF wf \<open>valid k'\<close> key(1) that] eq_sym [OF key(1) \<open>valid k'\<close> \<open>eq key k' = 0\<close>] key(2) that
      by (auto simp: hash_lookup_None)
    then show ?thesis by (simp add: filter_mset_eq_mempty_iff)
  qed
  have "size (filter_mset (matches h' k) (entries h')) \<le> 1" if "valid k" for k
    using ents none [OF that] mx [OF that] that by (auto simp: M m hash_ents_def)
  moreover have "ent_code x = code h (ent_key x)"
    using eq_code [OF vx(1) key(1) vx(2)] x(2) wf(2) by (simp add: uses_def)
  ultimately show e': ?ents using ents vx(1) by (auto simp: hash_ents_def M same)
  fix k' assume k': "valid k'"
  show "hash_lookup h' k' = (if eq key k' = 0 then Some (ent_value x) else hash_lookup h k')"
  proof (cases "eq key k' = 0")
    case True
    then show ?thesis using hash_lookup_Some [OF e' k', of "ent_value x"] mx [OF k'] m by (auto simp: M)
  next
    case False
    then have "hash_lookup h' k' = hash_lookup h k'"
      using mx [OF k'] m by (intro lookup_eqI [OF ents e' k']) (auto simp: M)
    with False show ?thesis by simp
  qed
qed

lemma lookup_remove:
  assumes wf: "hash_wf valid h" "uses eq co kl h" and same: "equals h' = equals h" "code h' = code h"
    and M: "entries h = add_mset x (entries h')" and key: "valid key" "matches h key x"
  shows "hash_ents valid h' (entries h')" (is ?ents)
    and "\<And>k'. valid k' \<Longrightarrow> hash_lookup h' k' = (if eq key k' = 0 then None else hash_lookup h k')"
proof -
  have m: "matches h' = matches h" using same by (simp add: matches_def fun_eq_iff)
  have ents: "hash_ents valid h (entries h)" using wf(1) by (simp add: hash_wf_def)
  have "size (filter_mset (matches h' k) (entries h')) \<le> size (filter_mset (matches h k) (entries h))" for k
    by (simp add: M m)
  then show e': ?ents using ents by (auto simp: hash_ents_def M same intro: order_trans)
  fix k' assume k': "valid k'"
  have x: "matches h k' x \<longleftrightarrow> eq key k' = 0"
    using matches_same [OF wf key(1) k' _ key(2)] M by simp
  show "hash_lookup h' k' = (if eq key k' = 0 then None else hash_lookup h k')"
  proof (cases "eq key k' = 0")
    case True
    then have "size (filter_mset (matches h k') (entries h')) = 0"
      using ents x k' by (auto simp: hash_ents_def M)
    then have "hash_lookup h' k' = None" by (auto simp: hash_lookup_None m filter_mset_eq_mempty_iff)
    with True show ?thesis by simp
  next
    case False
    then have "hash_lookup h' k' = hash_lookup h k'"
      using x m by (intro lookup_eqI [OF ents e' k']) (auto simp: M)
    with False show ?thesis by simp
  qed
qed

end

lemma shape_update:
  assumes "hash_shape h" and "placed (buckets h) n b"
  shows "hash_shape (h\<lparr>table := (table h)[n := b], fill := f, keys := ks\<rparr>)"
proof -
  have "placed (buckets h) i ((table h)[n := b] ! i)" if "i < buckets h" for i
    using assms that by (cases "i = n") (auto simp: hash_shape_def)
  then show ?thesis using assms(1) by (auto simp: hash_shape_def)
qed

lemma shape_frame [simp]: "hash_shape (h\<lparr>fill := f\<rparr>) = hash_shape h" "hash_shape (h\<lparr>keys := ks\<rparr>) = hash_shape h"
  by (simp_all add: hash_shape_def)

lemma entries_update_one:
  assumes "n < length (table h)" and "mset (table h ! n) = add_mset x B" and "mset b = add_mset y B"
  shows "\<exists>M. entries h = add_mset x M \<and> entries (h\<lparr>table := (table h)[n := b]\<rparr>) = add_mset y M"
proof -
  have "mset (concat ((table h)[n := b])) + add_mset x B = entries h + add_mset y B"
    using mset_concat_update [OF assms(1), of b] assms(2,3) by (simp add: entries_def)
  then have eq: "add_mset x (mset (concat ((table h)[n := b]))) = add_mset y (entries h)"
    by (metis add_right_cancel union_mset_add_mset_left union_mset_add_mset_right)
  have "table h ! n \<in> set (table h)" using assms(1) by simp
  moreover have "x \<in> set (table h ! n)" using assms(2) by (metis set_mset_mset union_single_eq_member)
  ultimately have "x \<in># entries h" by (auto simp: entries_def)
  then obtain M where "entries h = add_mset x M" by (metis insert_DiffM)
  with eq show ?thesis by (intro exI [of _ M]) (simp add: entries_def add_mset_commute)
qed

lemma entries_append_one:
  assumes "n < length (table h)"
  shows "entries (h\<lparr>table := (table h)[n := table h ! n @ [x]]\<rparr>) = add_mset x (entries h)"
proof -
  have "mset (concat ((table h)[n := table h ! n @ [x]])) + mset (table h ! n)
      = add_mset x (entries h) + mset (table h ! n)"
    using mset_concat_update [OF assms, of "table h ! n @ [x]"] by (simp add: entries_def)
  then show ?thesis by (simp only: add_right_cancel entries_def) simp
qed

lemma entries_remove_one:
  assumes "n < length (table h)" and "e < length (table h ! n)"
  shows "entries h = add_mset (table h ! n ! e)
     (entries (h\<lparr>table := (table h)[n := butlast ((table h ! n)[e := last (table h ! n)])]\<rparr>))"
proof -
  let ?b = "table h ! n" and ?b' = "butlast ((table h ! n)[e := last (table h ! n)])"
  have "mset (concat ((table h)[n := ?b'])) + (mset ?b' + {#?b ! e#}) = entries h + mset ?b'"
    using mset_concat_update [OF assms(1), of ?b'] mset_swap_remove [OF assms(2)] by (simp add: entries_def)
  then have "add_mset (?b ! e) (mset (concat ((table h)[n := ?b']))) + mset ?b' = entries h + mset ?b'"
    by (simp add: ac_simps)
  then show ?thesis by (simp only: add_right_cancel entries_def) simp
qed

lemma entries_frame [simp]:
  "entries (h\<lparr>fill := f\<rparr>) = entries h" "entries (h\<lparr>keys := ks\<rparr>) = entries h"
  by (simp_all add: entries_def)

lemma fill_err_append:
  "n < length (table h) \<Longrightarrow>
   fill h + (if table h ! n = [] then 1 else 0) - nonempty ((table h)[n := table h ! n @ [x]]) = fill_err h"
  using move_entry_err [of n "table h" h x] by (simp add: fill_err_def)

context hash_callbacks
begin

lemma put_replace:
  assumes wf: "hash_wf valid h" "uses eq co kl h" and key: "valid key"
    and b: "n = HASH_BUCKET (code h key) h" "b = table h ! n"
    and e: "find_entry h (code h key) key 0 b = Some e"
  shows "\<exists>h'. svz_hash_put h key v = Some (Option.bind (hash_lookup h key) id, h') \<and> hash_wf valid h'
     \<and> uses eq co kl h' \<and> fill_err h' = fill_err h
     \<and> (\<forall>k'. valid k' \<longrightarrow> hash_lookup h' k' = (if eq key k' = 0 then Some v else hash_lookup h k'))"
proof -
  let ?ent = "(b ! e)\<lparr>ent_value := v\<rparr>"
  let ?h = "h\<lparr>table := (table h)[n := b[e := ?ent]]\<rparr>"
  have sh: "hash_shape h" using wf(1) by (simp add: hash_wf_def)
  have n: "bucket_at h n = Some b" "n < length (table h)" using bucket_at_shape [OF sh] b by auto
  have f: "e < length b" "matches h key (b ! e)" "hash_lookup h key = Some (ent_value (b ! e))"
    using find_in_bucket [OF wf key, of b] b e by auto
  have ms: "mset b = add_mset (b ! e) (mset b - {#b ! e#})" "mset (b[e := ?ent]) = add_mset ?ent (mset b - {#b ! e#})"
    using f(1) by (simp_all add: mset_update)
  obtain M where M: "entries h = add_mset (b ! e) M" "entries ?h = add_mset ?ent M"
    using entries_update_one [OF n(2)] ms b(2) by metis
  note L = lookup_replace [OF wf _ _ M key f(2)]
  have "placed (buckets h) n (b[e := ?ent])"
    using sh n(2) b f(1) unfolding hash_shape_def placed_def
    by (metis (no_types, lifting) in_set_conv_nth length_list_update nth_list_update nth_mem svz_hash_entry.select_convs(1)
        svz_hash_entry.surjective svz_hash_entry.update_convs(3))
  then have "hash_shape ?h" using shape_update [OF sh, where n = n and b = "b[e := ?ent]" and f = "fill h" and ks = "keys h"] by simp
  moreover have "size (entries ?h) = size (entries h)" by (simp add: M)
  ultimately have "hash_wf valid ?h" using L(1) wf(1) by (simp add: hash_wf_def)
  moreover have "b \<noteq> []" using f(1) by auto
  then have "fill_err ?h = fill_err h"
    using nonempty_update [OF n(2), of "b[e := ?ent]"] b(2) by (simp add: fill_err_def)
  moreover have "svz_hash_put h key v = Some (Option.bind (hash_lookup h key) id, ?h)"
    using n(1) e b(1) f(3) by (simp add: svz_hash_put_def Let_def)
  ultimately show ?thesis using L(2) wf(2) by (auto simp: uses_def)
qed

lemma put_insert:
  assumes wf: "hash_wf valid h" "uses eq co kl h" and key: "valid key"
    and b: "n = HASH_BUCKET (code h key) h" "b = table h ! n"
    and e: "find_entry h (code h key) key 0 b = None"
  shows "\<exists>h'. svz_hash_put h key v = Some (Option.bind (hash_lookup h key) id, h') \<and> hash_wf valid h'
     \<and> uses eq co kl h' \<and> fill_err h' = fill_err h
     \<and> (\<forall>k'. valid k' \<longrightarrow> hash_lookup h' k' = (if eq key k' = 0 then Some v else hash_lookup h k'))"
proof -
  let ?ent = "\<lparr>ent_code = code h key, ent_key = take (keylen h key) key, ent_value = v\<rparr>"
  let ?g = "h\<lparr>table := (table h)[n := b @ [?ent]], keys := keys h + 1\<rparr>"
  let ?g' = "?g\<lparr>fill := fill h + (if b = [] then 1 else 0)\<rparr>"
  have sh: "hash_shape h" using wf(1) by (simp add: hash_wf_def)
  have n: "bucket_at h n = Some b" "n < length (table h)" using bucket_at_shape [OF sh] b by auto
  have none: "hash_lookup h key = None" using find_in_bucket [OF wf key, of b] b e by auto
  have "n = unat (code h key) mod buckets h"
    using sh b(1) HASH_BUCKET_mod by (auto simp: hash_shape_def)
  then have "placed (buckets h) n (b @ [?ent])"
    using sh n(2) b(2) by (simp add: hash_shape_def)
  then have shape: "hash_shape ?g'"
    using shape_update [OF sh, where n = n and b = "b @ [?ent]" and ks = "keys h + 1"
        and f = "fill h + (if b = [] then 1 else 0)"] by simp
  have "entries ?g' = entries (h\<lparr>table := (table h)[n := b @ [?ent]]\<rparr>)" by (simp add: entries_def)
  then have ents: "entries ?g' = add_mset ?ent (entries h)" using entries_append_one [OF n(2)] b(2) by simp
  have err: "fill_err ?g' = fill_err h" using fill_err_append [OF n(2), of ?ent] b(2) by (simp add: fill_err_def)
  obtain h' where h': "(if b = [] \<and> fill ?g' > of_nat (HASH_EXPAND_LIMIT ?g') then rehash ?g' SVZ_HASH_EXPAND
        else Some ?g') = Some h'" "hash_shape h'" "same_content ?g' h'" "fill_err h' = fill_err ?g'"
    using maybe_expand_keeps [OF shape] by blast
  have put: "svz_hash_put h key v = Some (Option.bind (hash_lookup h key) id, h')"
    using n(1) e b(1) none h'(1) by (auto simp: svz_hash_put_def Let_def split: if_splits)
  have hs: "equals h' = equals h" "code h' = code h" "keylen h' = keylen h" "keys h' = keys h + 1"
      "entries h' = add_mset ?ent (entries h)"
    using h'(3) ents by (simp_all add: same_content_def)
  have x: "ent_key ?ent = take (kl key) key" "ent_code ?ent = co key" using wf(2) by (auto simp: uses_def)
  note L = lookup_insert [OF wf hs(1,2,5) x key none]
  have "hash_wf valid h'" using L(1) h'(2) hs wf(1) by (simp add: hash_wf_def)
  with put L(2) h'(4) err hs wf(2) show ?thesis by (auto simp: uses_def)
qed

lemma put_correct:
  assumes "hash_wf valid h" and "uses eq co kl h" and "valid key"
  shows "\<exists>h'. svz_hash_put h key v = Some (Option.bind (hash_lookup h key) id, h') \<and> hash_wf valid h'
     \<and> uses eq co kl h' \<and> fill_err h' = fill_err h
     \<and> (\<forall>k'. valid k' \<longrightarrow> hash_lookup h' k' = (if eq key k' = 0 then Some v else hash_lookup h k'))"
  using put_replace [OF assms refl refl] put_insert [OF assms refl refl]
  by (cases "find_entry h (code h key) key 0 (table h ! HASH_BUCKET (code h key) h)") auto

lemma delete_absent:
  assumes wf: "hash_wf valid h" "uses eq co kl h" and key: "valid key" and none: "hash_lookup h key = None"
  shows "svz_hash_delete h key = Some (None, h)"
    and "\<And>k'. valid k' \<Longrightarrow> eq key k' = 0 \<Longrightarrow> hash_lookup h k' = None"
proof -
  let ?b = "table h ! HASH_BUCKET (code h key) h"
  have "bucket_at h (HASH_BUCKET (code h key) h) = Some ?b"
    using bucket_at_shape wf(1) by (auto simp: hash_wf_def)
  moreover have "find_entry h (code h key) key 0 ?b = None"
    using find_in_bucket [OF wf key refl] none by (auto split: option.splits)
  ultimately show "svz_hash_delete h key = Some (None, h)" by (simp add: svz_hash_delete_def)
  fix k' assume k': "valid k'" "eq key k' = 0"
  then have "eq k' key = 0" using eq_sym key by blast
  then have "\<not> matches h k' ent" if "ent \<in># entries h" for ent
    using matches_same [OF wf k'(1) key that] none that by (auto simp: hash_lookup_None)
  then show "hash_lookup h k' = None" by (simp add: hash_lookup_None)
qed

lemma delete_present:
  assumes wf: "hash_wf valid h" "uses eq co kl h" and key: "valid key"
    and b: "n = HASH_BUCKET (code h key) h" "b = table h ! n"
    and e: "find_entry h (code h key) key 0 b = Some e"
  shows "\<exists>h'. svz_hash_delete h key = Some (Option.bind (hash_lookup h key) id, h') \<and> hash_wf valid h'
     \<and> uses eq co kl h' \<and> (\<forall>k'. valid k' \<longrightarrow> hash_lookup h' k' = (if eq key k' = 0 then None else hash_lookup h k'))"
proof -
  let ?b' = "butlast (b[e := last b])"
  let ?t = "(table h)[n := ?b']"
  define c where "c = (length b - 1 = 0 \<and> fill h - 1 < of_nat (HASH_SHRINK_LIMIT h))"
  define g where "g = h\<lparr>table := ?t, fill := fill h - (if length b - 1 = 0 then 1 else 0)\<rparr>"
  have sh: "hash_shape h" using wf(1) by (simp add: hash_wf_def)
  have n: "bucket_at h n = Some b" "n < length (table h)" using bucket_at_shape [OF sh] b by auto
  have f: "e < length b" "matches h key (b ! e)" "hash_lookup h key = Some (ent_value (b ! e))"
    using find_in_bucket [OF wf key, of b] b e by auto
  have "set ?b' \<subseteq> set b"
    using mset_swap_remove [OF f(1)] by (metis mset_subset_eq_add_left set_mset_mono set_mset_mset)
  moreover have "placed (buckets h) n b" using sh n(2) b(2) by (simp add: hash_shape_def)
  ultimately have "placed (buckets h) n ?b'" by (rule placed_subset [rotated])
  then have shape: "hash_shape g"
    using shape_update [OF sh, where n = n and b = ?b' and ks = "keys h"
        and f = "fill h - (if length b - 1 = 0 then 1 else 0)"] by (simp add: g_def)
  obtain g' where g': "(if c then rehash g SVZ_HASH_SHRINK else Some g) = Some g'" "hash_shape g'" "same_content g g'"
    using maybe_shrink_keeps [OF shape] by blast
  let ?h = "g'\<lparr>keys := keys g' - 1\<rparr>"
  have "?b' = []" if "length b - 1 = 0" using that f(1) by (cases b) auto
  then have del: "svz_hash_delete h key = Some (ent_value (b ! e), ?h)"
    using n(1) e b(1) g'(1) f(1)
    by (auto simp: svz_hash_delete_def Let_def g_def c_def HASH_SHRINK_LIMIT_def split: if_splits)
  have ents: "entries h = add_mset (b ! e) (entries ?h)"
    using entries_remove_one [OF n(2), of e] f(1) b(2) g'(3) by (simp add: same_content_def g_def entries_def)
  have hs: "equals ?h = equals h" "code ?h = code h" "keylen ?h = keylen h" "keys ?h = keys h - 1"
    using g'(3) by (simp_all add: same_content_def g_def)
  note L = lookup_remove [OF wf hs(1,2) ents key f(2)]
  have "size (entries h) = Suc (size (entries ?h))" using ents by simp
  then have "hash_wf valid ?h" using L(1) g'(2) hs(4) wf(1) by (simp add: hash_wf_def)
  with del L(2) hs wf(2) f(3) show ?thesis by (auto simp: uses_def)
qed

lemma delete_correct:
  assumes wf: "hash_wf valid h" "uses eq co kl h" and key: "valid key"
  shows "\<exists>h'. svz_hash_delete h key = Some (Option.bind (hash_lookup h key) id, h') \<and> hash_wf valid h'
     \<and> uses eq co kl h' \<and> (\<forall>k'. valid k' \<longrightarrow> hash_lookup h' k' = (if eq key k' = 0 then None else hash_lookup h k'))"
proof (cases "find_entry h (code h key) key 0 (table h ! HASH_BUCKET (code h key) h)")
  case None
  then have "hash_lookup h key = None" using find_in_bucket [OF wf key refl] by simp
  then show ?thesis using delete_absent [OF wf key] wf by auto
next
  case (Some e)
  then show ?thesis using delete_present [OF wf key refl refl] by blast
qed

lemma get_correct:
  assumes wf: "hash_wf valid h" "uses eq co kl h" and key: "valid key"
  shows "svz_hash_get h key = Some (Option.bind (hash_lookup h key) id)"
    and "svz_hash_exists h key = Some (if hash_lookup h key = None then 0 else -1)"
proof -
  let ?b = "table h ! HASH_BUCKET (code h key) h"
  have "bucket_at h (HASH_BUCKET (code h key) h) = Some ?b"
    using bucket_at_shape wf(1) by (auto simp: hash_wf_def)
  with find_in_bucket [OF wf key refl]
  show "svz_hash_get h key = Some (Option.bind (hash_lookup h key) id)"
    and "svz_hash_exists h key = Some (if hash_lookup h key = None then 0 else -1)"
    by (auto simp: svz_hash_get_def svz_hash_exists_def split: option.splits)
qed

end

sublocale hash_callbacks \<subseteq> assoc_map valid "\<lambda>k k'. eq k k' = 0"
  "\<lambda>h. hash_wf valid h \<and> uses eq co kl h" hash_lookup svz_hash_put svz_hash_delete svz_hash_get
proof (unfold_locales, goal_cases)
  case (1 k)
  then show ?case by (rule eq_refl)
next
  case (2 h k v)
  then show ?case using put_correct [of h k v] by blast
next
  case (3 h k)
  then show ?case using delete_correct [of h k] by blast
next
  case (4 h k)
  then show ?case using get_correct(1) by blast
qed

subsection \<open>Callbacks of the program\<close>

text \<open>The default callbacks work on NUL-terminated strings.\<close>

definition c_string :: "mem \<Rightarrow> bool" where
  "c_string k \<longleftrightarrow> 0 \<in> set k"

definition cstr :: "mem \<Rightarrow> mem" where
  "cstr k = takeWhile (\<lambda>b. b \<noteq> 0) k"

lemma hash_equal_iff: "c_string k \<Longrightarrow> c_string k' \<Longrightarrow> hash_equal k k' = 0 \<longleftrightarrow> cstr k = cstr k'"
  by (induction k k' rule: hash_equal.induct) (auto simp: c_string_def cstr_def)

lemma name_c_string: "c_string (name @ [0])"
  by (simp add: c_string_def)

lemma cstr_name: "0 \<notin> set name \<Longrightarrow> cstr (name @ [0]) = name"
  by (induction name) (auto simp: cstr_def)

lemma same_name: "0 \<notin> set n \<Longrightarrow> 0 \<notin> set n' \<Longrightarrow> hash_equal (n @ [0]) (n' @ [0]) = 0 \<longleftrightarrow> n = n'"
  by (simp add: hash_equal_iff name_c_string cstr_name)

lemma hash_code_cstr: "c_string k \<Longrightarrow> hash_code_loop c k = hash_code_loop c (cstr k)"
  by (induction k arbitrary: c) (auto simp: c_string_def cstr_def)

lemma copy_cstr: "c_string k \<Longrightarrow> take (hash_key_length k) k = cstr k @ [0]"
  by (induction k) (auto simp: c_string_def cstr_def)

lemma cstr_snoc [simp]: "cstr (cstr k @ [0]) = cstr k"
  by (induction k) (auto simp: cstr_def)

interpretation str_hash: hash_callbacks c_string hash_equal hash_code hash_key_length
proof (unfold_locales, goal_cases)
  case (4 k k')
  then show ?case using hash_code_cstr [of k 0] hash_code_cstr [of k' 0] by (simp add: hash_code_def hash_equal_iff)
next
  case (6 k)
  then have "c_string (take (hash_key_length k) k)" by (simp add: copy_cstr c_string_def)
  with 6 show ?case by (simp add: hash_equal_iff) (simp add: copy_cstr)
qed (auto simp: hash_equal_iff copy_cstr, simp add: c_string_def)


text \<open>
  GUID keys of the gnutella server (\<^verbatim>\<open>nut_hash_keylen\<close>, \<^verbatim>\<open>nut_hash_equals\<close>, \<^verbatim>\<open>nut_hash_code\<close> of
  gnutella.c): sixteen bytes.
\<close>

definition NUT_GUID_SIZE :: nat where
  "NUT_GUID_SIZE = 16"

definition nut_hash_keylen :: "mem \<Rightarrow> nat" where
  "nut_hash_keylen guid = NUT_GUID_SIZE"

definition nut_hash_equals :: "mem \<Rightarrow> mem \<Rightarrow> int" where
  "nut_hash_equals guid1 guid2 = memcmp guid1 guid2 NUT_GUID_SIZE"

fun nut_hash_code_loop :: "nat \<Rightarrow> nat \<Rightarrow> mem \<Rightarrow> u64 \<Rightarrow> u64" where
  "nut_hash_code_loop 0 n guid c = c"
| "nut_hash_code_loop (Suc k) n guid c = nut_hash_code_loop k (Suc n) guid (push_bit 2 c XOR scast (guid ! n))"

definition nut_hash_code :: "mem \<Rightarrow> u64" where
  "nut_hash_code guid = nut_hash_code_loop NUT_GUID_SIZE 0 guid 0"

definition make_nut_kce_hash_table :: "bool \<Rightarrow> 'v svz_hash option" where
  "make_nut_kce_hash_table destr = do {
     hash \<leftarrow> svz_hash_create 4 destr;
     Some (svz_hash_configure hash (Some nut_hash_keylen) (Some nut_hash_code) (Some nut_hash_equals))
   }"

lemma nut_hash_code_loop_take:
  "n + k \<le> m \<Longrightarrow> nut_hash_code_loop k n (take m guid) c = nut_hash_code_loop k n guid c"
  by (induction k arbitrary: n c) auto

lemma nut_hash_code_take: "nut_hash_code (take NUT_GUID_SIZE guid) = nut_hash_code guid"
  by (simp add: nut_hash_code_def nut_hash_code_loop_take)

definition guid_key :: "mem \<Rightarrow> bool" where
  "guid_key k \<longleftrightarrow> NUT_GUID_SIZE \<le> length k"

lemma nut_hash_equals_iff:
  "guid_key k \<Longrightarrow> guid_key k' \<Longrightarrow> nut_hash_equals k k' = 0 \<longleftrightarrow> take NUT_GUID_SIZE k = take NUT_GUID_SIZE k'"
  by (simp add: nut_hash_equals_def guid_key_def memcmp_eq_0)

lemma guid_key_take: "guid_key k \<Longrightarrow> guid_key (take NUT_GUID_SIZE k)"
  by (simp add: guid_key_def)

interpretation guid_hash: hash_callbacks guid_key nut_hash_equals nut_hash_code nut_hash_keylen
proof (unfold_locales, goal_cases)
  case (4 k k')
  then show ?case using nut_hash_code_take [of k] nut_hash_code_take [of k'] by (simp add: nut_hash_equals_iff)
qed (auto simp: nut_hash_equals_iff nut_hash_keylen_def guid_key_take)

text \<open>
  Socket keys (soprop.c): the key is the memory of the socket structure, its effective part
  the contiguous members \<^verbatim>\<open>id\<close> and \<^verbatim>\<open>version\<close> behind two pointers (64-bit layout).
\<close>

definition SOPROP_KFIELD_OFFS :: nat where
  "SOPROP_KFIELD_OFFS = 16"

definition SOPROP_KFIELD_SIZE :: nat where
  "SOPROP_KFIELD_SIZE = 8"

definition soprop_keylen :: "mem \<Rightarrow> nat" where
  "soprop_keylen key = SOPROP_KFIELD_OFFS + SOPROP_KFIELD_SIZE"

definition soprop_code :: "mem \<Rightarrow> u64" where
  "soprop_code key = scast (le32 (drop SOPROP_KFIELD_OFFS key))"

definition soprop_equals :: "mem \<Rightarrow> mem \<Rightarrow> int" where
  "soprop_equals a b = memcmp (drop SOPROP_KFIELD_OFFS a) (drop SOPROP_KFIELD_OFFS b) SOPROP_KFIELD_SIZE"

definition svz_soprop_create :: "nat \<Rightarrow> bool \<Rightarrow> 'v svz_hash option" where
  "svz_soprop_create capacity destr = do {
     ht \<leftarrow> svz_hash_create capacity destr;
     Some (svz_hash_configure ht (Some soprop_keylen) (Some soprop_code) (Some soprop_equals))
   }"

definition svz_soprop_put :: "'v svz_hash \<Rightarrow> mem \<Rightarrow> 'v option \<Rightarrow> ('v option \<times> 'v svz_hash) option" where
  "svz_soprop_put ht sock value =
     (if value \<noteq> None then svz_hash_put ht sock value else svz_hash_delete ht sock)"

definition svz_soprop_get :: "'v svz_hash \<Rightarrow> mem \<Rightarrow> 'v option option" where
  "svz_soprop_get ht sock = svz_hash_get ht sock"

definition sock_key :: "mem \<Rightarrow> bool" where
  "sock_key k \<longleftrightarrow> SOPROP_KFIELD_OFFS + SOPROP_KFIELD_SIZE \<le> length k"

definition sock_fields :: "mem \<Rightarrow> mem" where
  "sock_fields k = take SOPROP_KFIELD_SIZE (drop SOPROP_KFIELD_OFFS k)"

lemmas soprop_sizes = SOPROP_KFIELD_OFFS_def SOPROP_KFIELD_SIZE_def

lemma soprop_equals_iff:
  "sock_key k \<Longrightarrow> sock_key k' \<Longrightarrow> soprop_equals k k' = 0 \<longleftrightarrow> sock_fields k = sock_fields k'"
  unfolding soprop_equals_def sock_fields_def sock_key_def by (rule memcmp_eq_0) auto

lemma soprop_code_fields: "sock_key k \<Longrightarrow> soprop_code k = scast (le32 (sock_fields k))"
  by (simp add: soprop_code_def sock_fields_def le32_def soprop_sizes sock_key_def)

lemma sock_key_copy:
  "sock_key k \<Longrightarrow> sock_key (take (soprop_keylen k) k) \<and> sock_fields (take (soprop_keylen k) k) = sock_fields k"
  by (simp add: sock_key_def sock_fields_def soprop_keylen_def take_drop)

interpretation sock_hash: hash_callbacks sock_key soprop_equals soprop_code soprop_keylen
  by unfold_locales (auto simp: soprop_equals_iff soprop_code_fields sock_key_copy)


subsection \<open>Creating a table\<close>

lemma create_size_step: "n \<noteq> 1 \<Longrightarrow> create_size n sz = create_size (n div 2) (2 * sz)"
proof -
  assume n: "n \<noteq> 1"
  have "drop_bit 1 n = n div 2" "push_bit 1 sz = 2 * sz" by (simp_all add: drop_bit_eq_div push_bit_eq_mult)
  then show ?thesis using n by (subst create_size.simps) (simp add: mult.commute)
qed

lemma create_size_returns: "0 < n \<Longrightarrow> \<exists>k. create_size n sz = Some (sz * 2 ^ k) \<and> 2 ^ k \<le> n \<and> n < 2 ^ Suc k"
proof (induction n arbitrary: sz rule: less_induct)
  case (less n)
  show ?case
  proof (cases "n = 1")
    case True
    then show ?thesis by (intro exI [of _ 0]) (simp add: create_size.simps)
  next
    case False
    with less.prems have "0 < n div 2" "n div 2 < n" by auto
    from less.IH [OF this(2,1), of "2 * sz"]
    obtain k where k: "create_size (n div 2) (2 * sz) = Some (2 * sz * 2 ^ k)" "2 ^ k \<le> n div 2" "n div 2 < 2 ^ Suc k"
      by blast
    with False show ?thesis
      by (intro exI [of _ "Suc k"]) (auto simp: create_size_step [of n sz] ac_simps)
  qed
qed

lemma create_size_positive:
  assumes "create_size n sz = Some r"
  shows "n \<noteq> 0"
proof (rule create_size.raw_induct [where P = "\<lambda>n sz r. n \<noteq> 0", OF _ assms])
  fix f :: "nat \<Rightarrow> nat \<Rightarrow> nat option" and n sz r
  assume "\<And>n sz r. f n sz = Some r \<Longrightarrow> n \<noteq> 0"
    and "(if n \<noteq> 1 then f (drop_bit 1 n) (push_bit 1 sz) else Some sz) = Some r"
  then show "n \<noteq> 0" by (metis drop_bit_of_0 zero_neq_one)
qed

lemma fresh_hash_wf:
  assumes "svz_hash_create n d = Some h"
  shows "hash_wf valid h" and "uses hash_equal hash_code hash_key_length h" and "hash_lookup h k = None"
    and "fill_err h = 0" and "entries h = {#}"
proof -
  from assms obtain sz where sz: "create_size n 1 = Some sz" by (auto simp: svz_hash_create_def)
  then have "n \<noteq> 0" by (rule create_size_positive)
  with create_size_returns [of n 1] sz obtain j where j: "sz = 2 ^ j" by auto
  let ?sz = "if sz < SVZ_HASH_MIN_SIZE then SVZ_HASH_MIN_SIZE else sz"
  have p: "\<exists>i. ?sz = 2 ^ i" "SVZ_HASH_MIN_SIZE \<le> ?sz"
    using j by (auto simp: SVZ_HASH_MIN_SIZE_def intro: exI [of _ 2])
  have h: "h = \<lparr>buckets = ?sz, fill = 0, keys = 0, equals = hash_equal, code = hash_code,
           keylen = hash_key_length, destroy = d, table = replicate ?sz []\<rparr>"
    using assms sz by (simp add: svz_hash_create_def Let_def)
  have c: "concat (replicate m []) = []" for m by (induction m) auto
  show e: "entries h = {#}" by (simp add: h entries_def c)
  have "hash_shape h" using p by (simp add: hash_shape_def h)
  then show "hash_wf valid h" using e by (simp add: hash_wf_def hash_ents_def h)
  show "uses hash_equal hash_code hash_key_length h" by (simp add: uses_def h)
  show "hash_lookup h k = None" by (simp add: hash_lookup_None e)
  show "fill_err h = 0" by (simp add: fill_err_def h)
qed

text \<open>
  \<^verbatim>\<open>svz_hash_create\<close> returns exactly for a non-zero capacity, with an empty table whose number
  of buckets is the capacity rounded down to a power of two, but at least four; for capacity
  zero its sizing loop never ends.
\<close>

theorem hash_create_terminates_iff:
  "(\<exists>h. svz_hash_create n d = Some h \<and> SVZ_HASH_MIN_SIZE \<le> buckets h \<and> svz_hash_size (Some h) = 0
       \<and> (\<exists>k. buckets h = max SVZ_HASH_MIN_SIZE (2 ^ k) \<and> 2 ^ k \<le> n \<and> n < 2 ^ Suc k)) \<longleftrightarrow> n \<noteq> 0"
proof
  assume "n \<noteq> 0"
  then obtain k where k: "create_size n 1 = Some (2 ^ k)" "2 ^ k \<le> n" "n < 2 ^ Suc k"
    using create_size_returns [of n 1] by auto
  then show "\<exists>h. svz_hash_create n d = Some h \<and> SVZ_HASH_MIN_SIZE \<le> buckets h \<and> svz_hash_size (Some h) = 0
       \<and> (\<exists>k. buckets h = max SVZ_HASH_MIN_SIZE (2 ^ k) \<and> 2 ^ k \<le> n \<and> n < 2 ^ Suc k)"
    by (intro exI [of _ "\<lparr>buckets = max SVZ_HASH_MIN_SIZE (2 ^ k), fill = 0, keys = 0, equals = hash_equal,
          code = hash_code, keylen = hash_key_length, destroy = d,
          table = replicate (max SVZ_HASH_MIN_SIZE (2 ^ k)) []\<rparr>"] conjI exI [of _ k])
      (simp_all add: svz_hash_create_def Let_def svz_hash_size_def max_def)
qed (auto simp: svz_hash_create_def dest!: create_size_positive)

subsection \<open>Runs of operations against a map\<close>

datatype 'v hash_op = HPut mem "'v option" | HDel mem | HGet mem

fun op_key :: "'v hash_op \<Rightarrow> mem" where
  "op_key (HPut k v) = k"
| "op_key (HDel k) = k"
| "op_key (HGet k) = k"

fun hash_step :: "'v svz_hash \<Rightarrow> 'v hash_op \<Rightarrow> ('v option \<times> 'v svz_hash) option" where
  "hash_step h (HPut k v) = svz_hash_put h k v"
| "hash_step h (HDel k) = svz_hash_delete h k"
| "hash_step h (HGet k) = do { v \<leftarrow> svz_hash_get h k; Some (v, h) }"

fun hash_run :: "'v svz_hash \<Rightarrow> 'v hash_op list \<Rightarrow> ('v option list \<times> 'v svz_hash) option" where
  "hash_run h [] = Some ([], h)"
| "hash_run h (x # xs) = do {
     (r, h') \<leftarrow> hash_step h x;
     (rs, h'') \<leftarrow> hash_run h' xs;
     Some (r # rs, h'')
   }"

fun map_step :: "(mem \<Rightarrow> 'v option option) \<Rightarrow> 'v hash_op \<Rightarrow> 'v option \<times> (mem \<Rightarrow> 'v option option)" where
  "map_step m (HPut k v) = (Option.bind (m (cstr k)) id, m(cstr k \<mapsto> v))"
| "map_step m (HDel k) = (Option.bind (m (cstr k)) id, m(cstr k := None))"
| "map_step m (HGet k) = (Option.bind (m (cstr k)) id, m)"

fun map_run :: "(mem \<Rightarrow> 'v option option) \<Rightarrow> 'v hash_op list \<Rightarrow> 'v option list \<times> (mem \<Rightarrow> 'v option option)" where
  "map_run m [] = ([], m)"
| "map_run m (x # xs) = (let (r, m') = map_step m x; (rs, m'') = map_run m' xs in (r # rs, m''))"

definition hash_rel :: "'v svz_hash \<Rightarrow> (mem \<Rightarrow> 'v option option) \<Rightarrow> bool" where
  "hash_rel h m \<longleftrightarrow> hash_wf c_string h \<and> uses hash_equal hash_code hash_key_length h
     \<and> (\<forall>k. c_string k \<longrightarrow> hash_lookup h k = m (cstr k)) \<and> (\<forall>s \<in> dom m. 0 \<notin> set s)"

lemma zero_notin_cstr: "0 \<notin> set (cstr k)"
  by (auto simp: cstr_def dest: set_takeWhileD)

lemma hash_step_refines:
  assumes "hash_rel h m" and "c_string (op_key x)"
  shows "\<exists>h'. hash_step h x = Some (fst (map_step m x), h') \<and> hash_rel h' (snd (map_step m x))"
proof -
  have wf: "hash_wf c_string h \<and> uses hash_equal hash_code hash_key_length h"
    and lk: "\<And>k. c_string k \<Longrightarrow> hash_lookup h k = m (cstr k)" and dom: "\<forall>s \<in> dom m. 0 \<notin> set s"
    using assms(1) by (auto simp: hash_rel_def)
  show ?thesis
  proof (cases x)
    case (HPut k v)
    with assms(2) have k: "c_string k" by simp
    then show ?thesis using str_hash.mput [OF wf k, of v] lk dom HPut
      by (auto simp: hash_rel_def hash_equal_iff zero_notin_cstr split: if_splits)
  next
    case (HDel k)
    with assms(2) have k: "c_string k" by simp
    then show ?thesis using str_hash.mdel [OF wf k] lk dom HDel
      by (auto simp: hash_rel_def hash_equal_iff split: if_splits)
  next
    case (HGet k)
    with assms(2) have k: "c_string k" by simp
    then show ?thesis using str_hash.mget [OF wf k] lk HGet assms(1) by simp
  qed
qed

lemma hash_run_rel:
  "hash_rel h m \<Longrightarrow> \<forall>x \<in> set ops. c_string (op_key x) \<Longrightarrow>
     \<exists>h'. hash_run h ops = Some (fst (map_run m ops), h') \<and> hash_rel h' (snd (map_run m ops))"
proof (induction ops arbitrary: h m)
  case (Cons x xs)
  obtain h1 where h1: "hash_step h x = Some (fst (map_step m x), h1)" "hash_rel h1 (snd (map_step m x))"
    using hash_step_refines [OF Cons.prems(1), of x] Cons.prems(2) by auto
  from Cons.IH [OF h1(2)] Cons.prems(2) h1(1) show ?case by (auto simp: Let_def split_def)
qed simp

lemma distinct_map_filter:
  "(\<And>s. length (filter (\<lambda>x. f x = s) xs) \<le> 1) \<Longrightarrow> distinct (map f xs)"
proof (induction xs)
  case (Cons x xs)
  have "length (filter (\<lambda>y. f y = s) xs) \<le> 1" for s using Cons.prems [of s] by (simp split: if_splits)
  moreover have "filter (\<lambda>y. f y = f x) xs = []" using Cons.prems [of "f x"] by simp
  then have "f x \<notin> f ` set xs" by (metis (mono_tags, lifting) filter_empty_conv imageE)
  ultimately show ?case using Cons.IH by simp
qed simp

text \<open>The entries of a related table are in bijection with the domain of its map.\<close>

lemma hash_rel_size:
  assumes "hash_rel h m"
  shows "keys h = card (dom m)"
proof -
  let ?f = "\<lambda>ent. cstr (ent_key ent)" and ?xs = "concat (table h)"
  have ents: "hash_ents c_string h (entries h)" and ks: "keys h = length ?xs"
    and eq: "equals h = hash_equal" using assms by (auto simp: hash_rel_def hash_wf_def uses_def entries_def)
  have valid: "c_string (ent_key ent)" if "ent \<in> set ?xs" for ent
    using ents that by (auto simp: hash_ents_def entries_def)
  have m_iff: "matches h k ent \<longleftrightarrow> ?f ent = cstr k" if "ent \<in> set ?xs" "c_string k" for ent k
    using valid that by (auto simp: matches_def eq hash_equal_iff)
  have "length (filter (\<lambda>ent. ?f ent = s) ?xs) \<le> 1" for s
  proof (cases "\<exists>ent \<in> set ?xs. ?f ent = s")
    case True
    then obtain ent where ent: "ent \<in> set ?xs" "?f ent = s" by auto
    have "filter (\<lambda>e. ?f e = s) ?xs = filter (matches h (ent_key ent)) ?xs"
      using m_iff valid ent by (intro filter_cong) auto
    then have "length (filter (\<lambda>e. ?f e = s) ?xs) = size (filter_mset (matches h (ent_key ent)) (entries h))"
      by (simp add: entries_def flip: mset_filter)
    then show ?thesis using ents valid [OF ent(1)] by (simp add: hash_ents_def)
  next
    case False
    then have "filter (\<lambda>e. ?f e = s) ?xs = []" by (auto simp: filter_empty_conv)
    then show ?thesis by simp
  qed
  then have "length ?xs = card (?f ` set ?xs)"
    using distinct_card [OF distinct_map_filter [of ?f ?xs]] by simp
  moreover have "dom m = ?f ` set ?xs"
  proof (intro equalityI subsetI)
    fix s assume s: "s \<in> dom m"
    then have "0 \<notin> set s" using assms by (auto simp: hash_rel_def)
    then have c: "c_string (s @ [0])" "cstr (s @ [0]) = s" by (auto simp: c_string_def cstr_def takeWhile_append)
    with s assms have "hash_lookup h (s @ [0]) \<noteq> None" by (auto simp: hash_rel_def)
    then show "s \<in> ?f ` set ?xs" using m_iff c by (auto simp: hash_lookup_None entries_def)
  next
    fix s assume "s \<in> ?f ` set ?xs"
    then obtain ent where ent: "ent \<in> set ?xs" "s = ?f ent" by auto
    then have "hash_lookup h (ent_key ent) \<noteq> None"
      using m_iff valid by (auto simp: hash_lookup_None entries_def)
    with assms valid ent show "s \<in> dom m" by (auto simp: hash_rel_def)
  qed
  ultimately show ?thesis using ks by simp
qed


text \<open>
  C1. A table made by \<^verbatim>\<open>svz_hash_create\<close> behaves as a finite map on C strings: any sequence of
  put, delete and get calls is free of undefined behaviour and returns what the same calls on
  a map return, through every rehash, and \<^verbatim>\<open>svz_hash_size\<close> is the number of keys of that map.
\<close>

theorem hash_run_refines_map:
  assumes "svz_hash_create n d = Some h" and "\<forall>x \<in> set ops. c_string (op_key x)"
  shows "\<exists>h'. hash_run h ops = Some (fst (map_run Map.empty ops), h')
            \<and> svz_hash_size (Some h') = card (dom (snd (map_run Map.empty ops)))"
proof -
  have "hash_rel h Map.empty" using fresh_hash_wf [OF assms(1)] by (simp add: hash_rel_def)
  from hash_run_rel [OF this assms(2)] show ?thesis
    using hash_rel_size by (fastforce simp: svz_hash_size_def)
qed

theorem hash_run_refines_map_witness:
  "\<exists>h h'. svz_hash_create 4 False = Some h
     \<and> hash_run h [HPut (str_bytes ''nick'') (Some (1::nat)), HPut (str_bytes ''away'') None,
                   HPut (str_bytes ''nick'') (Some 2), HDel (str_bytes ''away''), HGet (str_bytes ''nick'')]
         = Some ([None, None, Some 1, None, Some 2], h')
     \<and> svz_hash_size (Some h') = 1"
proof -
  have "create_size 4 1 = Some 4" by (simp add: create_size_step) (simp add: create_size.simps)
  then obtain h :: "nat svz_hash" where h: "svz_hash_create 4 False = Some h"
    by (auto simp: svz_hash_create_def Let_def)
  let ?ops = "[HPut (str_bytes ''nick'') (Some (1::nat)), HPut (str_bytes ''away'') None,
               HPut (str_bytes ''nick'') (Some 2), HDel (str_bytes ''away''), HGet (str_bytes ''nick'')]"
  have c: "cstr (str_bytes ''nick'') \<noteq> cstr (str_bytes ''away'')" by code_simp
  have "\<forall>x \<in> set ?ops. c_string (op_key x)" by (simp add: c_string_def str_bytes_def)
  from hash_run_refines_map [OF h this] h c show ?thesis
    by (auto simp: Let_def fun_upd_twist)
qed

subsection \<open>Iteration and the other key kinds\<close>

lemma foreach_loop_all:
  "i + length (concat bs) = ks \<Longrightarrow> foreach_loop ks bs i = map (\<lambda>ent. (ent_key ent, ent_value ent)) (concat bs)"
proof (induction bs arbitrary: i)
  case (Cons b bs)
  show ?case
  proof (cases "i < ks")
    case True
    then show ?thesis using Cons by simp
  next
    case False
    with Cons.prems have "b = []" "concat bs = []" by auto
    with False show ?thesis by simp
  qed
qed simp

text \<open>
  On every well-formed table \<^verbatim>\<open>svz_hash_foreach\<close> visits each stored pair exactly once, although
  it stops as soon as \<^verbatim>\<open>keys\<close> pairs were seen; and \<^verbatim>\<open>svz_hash_contains\<close> finds a key exactly for the
  values that are stored.
\<close>

theorem hash_foreach_complete:
  assumes "hash_wf valid h"
  shows "mset (svz_hash_foreach h) = image_mset (\<lambda>ent. (ent_key ent, ent_value ent)) (entries h)
     \<and> (svz_hash_contains h v \<noteq> None \<longleftrightarrow> v \<in> snd ` set (svz_hash_foreach h))"
proof -
  have "take (buckets h) (table h) = table h" "keys h = length (concat (table h))"
    using assms by (auto simp: hash_wf_def hash_shape_def entries_def)
  then have "svz_hash_foreach h = map (\<lambda>ent. (ent_key ent, ent_value ent)) (concat (table h))"
    using foreach_loop_all [of 0 "table h"] by (simp add: svz_hash_foreach_def)
  moreover have "svz_hash_contains h v \<noteq> None \<longleftrightarrow> v \<in> ent_value ` set (concat (table h))"
    by (auto simp: svz_hash_contains_def find_None_iff image_iff)
  ultimately show ?thesis by (auto simp: entries_def image_image)
qed

text \<open>
  Socket properties (soprop.c): in a well-formed table keyed by sockets, storing a value for
  one socket makes it the value of exactly the sockets with the same id and version fields, and
  storing \<^verbatim>\<open>NULL\<close> removes the property; both keep the table well-formed and return the old value.
\<close>

theorem soprop_put_get:
  assumes "hash_wf sock_key ht" and "uses soprop_equals soprop_code soprop_keylen ht"
    and "sock_key s" and "sock_key t"
  shows "\<exists>old ht'. svz_soprop_put ht s v = Some (old, ht') \<and> svz_soprop_get ht s = Some old
     \<and> hash_wf sock_key ht' \<and> uses soprop_equals soprop_code soprop_keylen ht'
     \<and> svz_soprop_get ht' t = (if sock_fields s = sock_fields t then Some v else svz_soprop_get ht t)"
  using sock_hash.get_put [OF conjI [OF assms(1,2)] assms(3,4), of v]
    sock_hash.get_delete [OF conjI [OF assms(1,2)] assms(3,4)] assms(3,4)
  by (cases v) (auto simp: svz_soprop_put_def svz_soprop_get_def soprop_equals_iff)

lemma configured_hash_wf:
  assumes "svz_hash_create n d = Some h"
  shows "hash_wf valid (svz_hash_configure h ko co eo)"
proof -
  have "entries (svz_hash_configure h ko co eo) = {#}"
    using fresh_hash_wf(5) [OF assms] by (simp add: svz_hash_configure_def entries_def split: option.splits)
  then show ?thesis using fresh_hash_wf(1) [OF assms, of valid] fresh_hash_wf(5) [OF assms]
    by (auto simp: hash_wf_def hash_ents_def svz_hash_configure_def hash_shape_def Let_def split: option.splits)
qed

lemma soprop_fresh:
  assumes "svz_soprop_create n d = Some ht"
  shows "hash_wf sock_key ht" and "uses soprop_equals soprop_code soprop_keylen ht"
proof -
  from assms obtain h where h: "svz_hash_create n d = Some h"
      "ht = svz_hash_configure h (Some soprop_keylen) (Some soprop_code) (Some soprop_equals)"
    by (auto simp: svz_soprop_create_def)
  show "hash_wf sock_key ht" unfolding h(2) by (rule configured_hash_wf [OF h(1)])
  show "uses soprop_equals soprop_code soprop_keylen ht" by (simp add: uses_def h(2) svz_hash_configure_def)
qed

theorem soprop_put_get_witness:
  "\<exists>ht old ht'. svz_soprop_create 4 False = Some ht
     \<and> svz_soprop_put ht (replicate 24 0) (Some (5::nat)) = Some (old, ht')
     \<and> svz_soprop_get ht' (replicate 16 9 @ replicate 8 0) = Some (Some 5)"
proof -
  have "create_size 4 1 = Some 4" by (simp add: create_size_step) (simp add: create_size.simps)
  then obtain ht :: "nat svz_hash" where ht: "svz_soprop_create 4 False = Some ht"
    by (auto simp: svz_soprop_create_def svz_hash_create_def Let_def)
  have k: "sock_key (replicate 24 0)" "sock_key (replicate 16 9 @ replicate 8 0)"
    by (simp_all add: sock_key_def soprop_sizes)
  have "sock_fields (replicate 24 0) = sock_fields (replicate 16 9 @ replicate 8 0)" by code_simp
  with soprop_put_get [OF soprop_fresh [OF ht] k, of "Some 5"] ht show ?thesis by auto
qed

theorem hash_foreach_complete_witness:
  "\<exists>h. svz_hash_create 4 False = Some h \<and> hash_wf c_string h
     \<and> mset (svz_hash_foreach h) = ({#} :: (mem \<times> nat option) multiset)"
proof -
  have "create_size 4 1 = Some 4" by (simp add: create_size_step) (simp add: create_size.simps)
  then obtain h :: "nat svz_hash" where h: "svz_hash_create 4 False = Some h"
    by (auto simp: svz_hash_create_def Let_def)
  have wf: "hash_wf c_string h" by (rule fresh_hash_wf(1) [OF h])
  show ?thesis using hash_foreach_complete [OF wf] h wf fresh_hash_wf(5) [OF h] by auto
qed

text \<open>
  The counter of filled buckets goes wrong when the table shrinks: halving a table of eight
  buckets subtracts one for each of the four upper buckets, also for the empty ones. After two
  insertions and one deletion the counter has wrapped around to a huge value although one bucket
  is filled, and from then on every insertion into an empty bucket doubles the table.
\<close>

theorem hash_shrink_corrupts_fill:
  "\<exists>h h1 h2 h3. svz_hash_create 8 False = Some h
     \<and> hash_run h [HPut (str_bytes ''a'') (Some (1::nat)), HPut (str_bytes ''b'') (Some 2), HDel (str_bytes ''b'')]
         = Some ([None, None, Some 2], h1)
     \<and> buckets h1 = 4 \<and> length (filter (\<lambda>b. b \<noteq> []) (table h1)) = 1 \<and> fill h1 = - 3
     \<and> hash_run h [HPut (str_bytes ''a'') (Some (1::nat)), HPut (str_bytes ''b'') (Some 2), HDel (str_bytes ''b''),
                   HPut (str_bytes ''b'') (Some 2)] = Some ([None, None, Some 2, None], h2)
     \<and> buckets h2 = 8
     \<and> hash_run h [HPut (str_bytes ''a'') (Some (1::nat)), HPut (str_bytes ''b'') (Some 2), HDel (str_bytes ''b''),
                   HPut (str_bytes ''b'') (Some 2), HPut (str_bytes ''c'') (Some 3)]
         = Some ([None, None, Some 2, None, None], h3)
     \<and> buckets h3 = 16"
proof -
  let ?a = "HPut (str_bytes ''a'') (Some (1::nat))" and ?b = "HPut (str_bytes ''b'') (Some 2)"
  let ?d = "HDel (str_bytes ''b'')" and ?c = "HPut (str_bytes ''c'') (Some 3)"
  let ?h = "\<lparr>buckets = 8, fill = 0, keys = 0, equals = hash_equal, code = hash_code,
           keylen = hash_key_length, destroy = False, table = replicate 8 []\<rparr>"
  have "create_size 8 1 = Some 8" by (simp add: create_size_step) (simp add: create_size.simps)
  then have "svz_hash_create 8 False = Some ?h" by (simp add: svz_hash_create_def SVZ_HASH_MIN_SIZE_def)
  moreover have "case hash_run ?h [?a, ?b, ?d] of None \<Rightarrow> False | Some (rs, h1) \<Rightarrow>
        rs = [None, None, Some 2] \<and> buckets h1 = 4 \<and> length (filter (\<lambda>b. b \<noteq> []) (table h1)) = 1 \<and> fill h1 = - 3"
    by code_simp
  moreover have "case hash_run ?h [?a, ?b, ?d, ?b] of None \<Rightarrow> False | Some (rs, h2) \<Rightarrow>
        rs = [None, None, Some 2, None] \<and> buckets h2 = 8"
    by code_simp
  moreover have "case hash_run ?h [?a, ?b, ?d, ?b, ?c] of None \<Rightarrow> False | Some (rs, h3) \<Rightarrow>
        rs = [None, None, Some 2, None, None] \<and> buckets h3 = 16"
    by code_simp
  ultimately show ?thesis
    by (simp split: option.splits prod.splits del: hash_run.simps) blast
qed

end
