(* ===== verification/Svz_Socket.thy ===== *)
theory Svz_Socket
  imports Svz_Prelude Svz_Array
begin

text \<open>
  The socket structure and its buffers: \<^verbatim>\<open>src/libserveez/socket.h\<close> and \<^verbatim>\<open>socket.c\<close>, and the TCP
  callbacks of \<^verbatim>\<open>tcp-socket.c\<close> that fill and drain the buffers.

  A socket is a record with the members of \<^verbatim>\<open>struct svz_socket\<close> (the Windows members and the
  members no modelled code reads are left out). Buffers are heap blocks of cells, \<^verbatim>\<open>NULL\<close> being
  \<^term>\<open>None\<close>; their sizes and fills are signed integers as in the code. A callback that the code
  compares or assigns is a tag; a callback that the code calls is a parameter of the calling
  function, over a state \<open>'w\<close> of the world outside. The system calls are the parameter
  record \<open>os\<close>. Results are in the option monad (\<^term>\<open>None\<close>: undefined behaviour or a
  loop without end).
\<close>

subsection \<open>Flags and sizes\<close>

definition SVZ_SOCK_MAX_WRITE :: int where "SVZ_SOCK_MAX_WRITE = 1024"
definition RECV_BUF_SIZE :: int where "RECV_BUF_SIZE = 1024 * 8"
definition SEND_BUF_SIZE :: int where "SEND_BUF_SIZE = 1024 * 8"
definition VSNPRINTF_BUF_SIZE :: nat where "VSNPRINTF_BUF_SIZE = 2048"

definition SVZ_SOFLG_INIT :: u32 where "SVZ_SOFLG_INIT = 0x00000000"
definition SVZ_SOFLG_INBUF :: u32 where "SVZ_SOFLG_INBUF = 0x00000001"
definition SVZ_SOFLG_OUTBUF :: u32 where "SVZ_SOFLG_OUTBUF = 0x00000002"
definition SVZ_SOFLG_CONNECTED :: u32 where "SVZ_SOFLG_CONNECTED = 0x00000004"
definition SVZ_SOFLG_LISTENING :: u32 where "SVZ_SOFLG_LISTENING = 0x00000008"
definition SVZ_SOFLG_KILLED :: u32 where "SVZ_SOFLG_KILLED = 0x00000010"
definition SVZ_SOFLG_NOFLOOD :: u32 where "SVZ_SOFLG_NOFLOOD = 0x00000020"
definition SVZ_SOFLG_INITED :: u32 where "SVZ_SOFLG_INITED = 0x00000040"
definition SVZ_SOFLG_ENQUEUED :: u32 where "SVZ_SOFLG_ENQUEUED = 0x00000080"
definition SVZ_SOFLG_RECV_PIPE :: u32 where "SVZ_SOFLG_RECV_PIPE = 0x00000100"
definition SVZ_SOFLG_SEND_PIPE :: u32 where "SVZ_SOFLG_SEND_PIPE = 0x00000200"
definition SVZ_SOFLG_SOCK :: u32 where "SVZ_SOFLG_SOCK = 0x00001000"
definition SVZ_SOFLG_PIPE :: u32 where "SVZ_SOFLG_PIPE = SVZ_SOFLG_RECV_PIPE OR SVZ_SOFLG_SEND_PIPE"
definition SVZ_SOFLG_CONNECTING :: u32 where "SVZ_SOFLG_CONNECTING = 0x00002000"
definition SVZ_SOFLG_PRIORITY :: u32 where "SVZ_SOFLG_PRIORITY = 0x00004000"
definition SVZ_SOFLG_FILE :: u32 where "SVZ_SOFLG_FILE = 0x00000400"
definition SVZ_SOFLG_FIXED :: u32 where "SVZ_SOFLG_FIXED = 0x00008000"
definition SVZ_SOFLG_FINAL_WRITE :: u32 where "SVZ_SOFLG_FINAL_WRITE = 0x00010000"
definition SVZ_SOFLG_NOSHUTDOWN :: u32 where "SVZ_SOFLG_NOSHUTDOWN = 0x00100000"

lemmas soflg_defs = SVZ_SOFLG_INIT_def SVZ_SOFLG_INBUF_def SVZ_SOFLG_OUTBUF_def SVZ_SOFLG_CONNECTED_def
  SVZ_SOFLG_LISTENING_def SVZ_SOFLG_KILLED_def SVZ_SOFLG_NOFLOOD_def SVZ_SOFLG_INITED_def SVZ_SOFLG_ENQUEUED_def
  SVZ_SOFLG_RECV_PIPE_def SVZ_SOFLG_SEND_PIPE_def SVZ_SOFLG_SOCK_def SVZ_SOFLG_PIPE_def
  SVZ_SOFLG_CONNECTING_def SVZ_SOFLG_PRIORITY_def SVZ_SOFLG_FIXED_def SVZ_SOFLG_FINAL_WRITE_def
  SVZ_SOFLG_NOSHUTDOWN_def

subsection \<open>The socket structure\<close>

text \<open>
  A function pointer is the name of the function. The values of \<^verbatim>\<open>check_request\<close> and \<^verbatim>\<open>write_socket\<close> that
  the library itself assigns or compares have constructors of their own.
\<close>

type_synonym callback = "string option"

datatype check_request_cb = CR_NULL | CR_detect_proto | CR_check_request | CR_split_packet | CR_split_packet_unibyte
  | CR_split_packet_fixed | CR_other string

datatype write_socket_cb = WS_NULL | WS_tcp | WS_other string

record svz_socket =
  sk_next :: "addr option"
  sk_prev :: "addr option"
  sk_id :: int
  sk_version :: int
  sk_parent_id :: int
  sk_parent_version :: int
  sk_referrer_id :: int
  sk_referrer_version :: int
  sk_proto :: u32
  sk_flags :: u32
  sk_userflags :: u32
  sk_sock_desc :: int
  sk_file_desc :: int
  sk_pipe_read :: int
  sk_pipe_write :: int
  sk_pid :: int
  sk_recv_pipe :: "mem option"
  sk_send_pipe :: "mem option"
  sk_boundary :: "mem option"
  sk_boundary_size :: int
  sk_remote_port :: u16
  sk_remote_addr :: "u32 option"
  sk_local_port :: u16
  sk_local_addr :: "u32 option"
  sk_send_buffer :: "byte cell list option"
  sk_recv_buffer :: "byte cell list option"
  sk_send_buffer_size :: int
  sk_recv_buffer_size :: int
  sk_send_buffer_fill :: int
  sk_recv_buffer_fill :: int
  sk_check_request :: check_request_cb
  sk_write_socket :: write_socket_cb
  sk_read_socket :: callback
  sk_connected_socket :: callback
  sk_disconnected_socket :: callback
  sk_idle_func :: callback
  sk_cfg :: "nat option"
  sk_idle_counter :: int
  sk_last_send :: int
  sk_last_recv :: int
  sk_flood_points :: int
  sk_flood_limit :: int
  sk_unavailable :: int
  sk_oob :: byte
  sk_itype :: byte
  sk_send_seq :: u16
  sk_port :: "nat option"

definition has_flag :: "svz_socket \<Rightarrow> u32 \<Rightarrow> bool" where
  "has_flag sock f \<longleftrightarrow> sk_flags sock AND f \<noteq> 0"

definition set_flag :: "u32 \<Rightarrow> svz_socket \<Rightarrow> svz_socket" where
  "set_flag f sock = sock\<lparr>sk_flags := sk_flags sock OR f\<rparr>"

definition clear_flag :: "u32 \<Rightarrow> svz_socket \<Rightarrow> svz_socket" where
  "clear_flag f sock = sock\<lparr>sk_flags := sk_flags sock AND NOT f\<rparr>"

text \<open>The operating system, as far as the modelled code calls it.\<close>

record 'w os =
  os_send :: "int \<Rightarrow> mem \<Rightarrow> 'w \<Rightarrow> int \<times> 'w"
  os_recv :: "int \<Rightarrow> nat \<Rightarrow> 'w \<Rightarrow> (int \<times> mem) \<times> 'w"
  os_time :: "'w \<Rightarrow> int"
  os_unavailable :: "'w \<Rightarrow> bool"
  os_recv_oob :: "int \<Rightarrow> 'w \<Rightarrow> (int \<times> byte) \<times> 'w"
  os_send_oob :: "int \<Rightarrow> byte \<Rightarrow> 'w \<Rightarrow> int \<times> 'w"
  os_getpeername :: "int \<Rightarrow> 'w \<Rightarrow> (u32 \<times> u16) option"
  os_getsockname :: "int \<Rightarrow> 'w \<Rightarrow> (u32 \<times> u16) option"

definition svz_sock_alloc :: "int \<Rightarrow> svz_socket" where
  "svz_sock_alloc now = \<lparr>
     sk_next = None, sk_prev = None, sk_id = 0, sk_version = 0, sk_parent_id = 0, sk_parent_version = 0,
     sk_referrer_id = 0, sk_referrer_version = 0, sk_proto = SVZ_SOFLG_INIT,
     sk_flags = SVZ_SOFLG_INIT OR SVZ_SOFLG_INBUF OR SVZ_SOFLG_OUTBUF, sk_userflags = SVZ_SOFLG_INIT,
     sk_sock_desc = -1, sk_file_desc = -1, sk_pipe_read = -1, sk_pipe_write = -1, sk_pid = -1,
     sk_recv_pipe = None, sk_send_pipe = None, sk_boundary = None, sk_boundary_size = 0,
     sk_remote_port = 0, sk_remote_addr = None, sk_local_port = 0, sk_local_addr = None,
     sk_send_buffer = Some (replicate (nat SEND_BUF_SIZE) Uninit),
     sk_recv_buffer = Some (replicate (nat RECV_BUF_SIZE) Uninit),
     sk_send_buffer_size = SEND_BUF_SIZE, sk_recv_buffer_size = RECV_BUF_SIZE,
     sk_send_buffer_fill = 0, sk_recv_buffer_fill = 0,
     sk_check_request = CR_detect_proto, sk_write_socket = WS_tcp,
     sk_read_socket = Some ''svz_tcp_read_socket'', sk_connected_socket = None, sk_disconnected_socket = Some ''maybe_log_disconnect'',
     sk_idle_func = None, sk_cfg = None, sk_idle_counter = 0, sk_last_send = now, sk_last_recv = now,
     sk_flood_points = 0, sk_flood_limit = 100, sk_unavailable = 0, sk_oob = 0, sk_itype = 0, sk_send_seq = 0, sk_port = None\<rparr>"

text \<open>\<^verbatim>\<open>svz_realloc (NULL, n)\<close> allocates; a negative size is out of the question for \<^verbatim>\<open>size_t\<close>.\<close>

definition resize_block :: "byte cell list option \<Rightarrow> int \<Rightarrow> int \<Rightarrow> byte cell list option option" where
  "resize_block block old new =
     (if new = 0 then Some None
      else if old \<noteq> new
      then (if new < 0 then None
            else Some (Some (realloc (nat new) (case block of None \<Rightarrow> [] | Some xs \<Rightarrow> xs))))
      else Some block)"

definition svz_sock_resize_buffers :: "svz_socket \<Rightarrow> int \<Rightarrow> int \<Rightarrow> svz_socket option" where
  "svz_sock_resize_buffers sock send_buf_size recv_buf_size = do {
     send \<leftarrow> resize_block (sk_send_buffer sock) (sk_send_buffer_size sock) send_buf_size;
     recv \<leftarrow> resize_block (sk_recv_buffer sock) (sk_recv_buffer_size sock) recv_buf_size;
     Some (sock\<lparr>sk_send_buffer := send, sk_recv_buffer := recv,
                sk_send_buffer_size := send_buf_size, sk_recv_buffer_size := recv_buf_size\<rparr>)
   }"

subsection \<open>Access to the buffers\<close>

definition buf_read :: "byte cell list option \<Rightarrow> int \<Rightarrow> int \<Rightarrow> mem option" where
  "buf_read block off n = do {
     xs \<leftarrow> block;
     if 0 \<le> off \<and> 0 \<le> n then rd_range xs (nat off) (nat n) else None
   }"

definition buf_write :: "byte cell list option \<Rightarrow> int \<Rightarrow> mem \<Rightarrow> byte cell list option" where
  "buf_write block off bs = do {
     xs \<leftarrow> block;
     if 0 \<le> off then wr_range xs (nat off) bs else None
   }"

definition buf_move :: "byte cell list option \<Rightarrow> int \<Rightarrow> int \<Rightarrow> int \<Rightarrow> byte cell list option" where
  "buf_move block dst src n = do {
     xs \<leftarrow> block;
     if 0 \<le> dst \<and> 0 \<le> src \<and> 0 \<le> n then mv_range xs (nat dst) (nat src) (nat n) else None
   }"

definition svz_sock_reduce_recv :: "svz_socket \<Rightarrow> int \<Rightarrow> svz_socket option" where
  "svz_sock_reduce_recv sock len = do {
     sock \<leftarrow> (if len \<noteq> 0 \<and> sk_recv_buffer_fill sock > len
              then do { xs \<leftarrow> buf_move (sk_recv_buffer sock) 0 len (sk_recv_buffer_fill sock - len);
                        Some (sock\<lparr>sk_recv_buffer := Some xs\<rparr>) }
              else Some sock);
     Some (sock\<lparr>sk_recv_buffer_fill := sk_recv_buffer_fill sock - len\<rparr>)
   }"

definition svz_sock_reduce_send :: "svz_socket \<Rightarrow> int \<Rightarrow> svz_socket option" where
  "svz_sock_reduce_send sock len = do {
     sock \<leftarrow> (if len \<noteq> 0 \<and> sk_send_buffer_fill sock > len
              then do { xs \<leftarrow> buf_move (sk_send_buffer sock) 0 len (sk_send_buffer_fill sock - len);
                        Some (sock\<lparr>sk_send_buffer := Some xs\<rparr>) }
              else Some sock);
     Some (sock\<lparr>sk_send_buffer_fill := sk_send_buffer_fill sock - len\<rparr>)
   }"

definition svz_wait_if_unavailable :: "'w os \<Rightarrow> svz_socket \<Rightarrow> int \<Rightarrow> 'w \<Rightarrow> int \<times> svz_socket" where
  "svz_wait_if_unavailable os sock relax w =
     (if os_unavailable os w then (1, sock\<lparr>sk_unavailable := relax + os_time os w\<rparr>) else (0, sock))"

subsection \<open>Writing\<close>

type_synonym 'w sock_cb = "svz_socket \<Rightarrow> 'w \<Rightarrow> (int \<times> svz_socket \<times> 'w) option"
type_synonym 'w kick_cb = "(svz_socket \<Rightarrow> int \<Rightarrow> 'w \<Rightarrow> svz_socket \<times> 'w) option"

text \<open>\<^verbatim>\<open>if (sock->kicked_socket) sock->kicked_socket (sock, reason);\<close>\<close>

definition kick :: "'w kick_cb \<Rightarrow> svz_socket \<Rightarrow> int \<Rightarrow> 'w \<Rightarrow> svz_socket \<times> 'w" where
  "kick kicked sock reason w = (case kicked of None \<Rightarrow> (sock, w) | Some f \<Rightarrow> f sock reason w)"

definition write_flush :: "'w sock_cb \<Rightarrow> svz_socket \<Rightarrow> 'w \<Rightarrow> bool \<Rightarrow> (int \<times> svz_socket \<times> 'w) option" where
  "write_flush write_socket sock w untouched =
     (if sk_write_socket sock \<noteq> WS_NULL \<and> sk_unavailable sock = 0 \<and> has_flag sock SVZ_SOFLG_CONNECTED
         \<and> sk_send_buffer_fill sock \<noteq> 0
      then do {
        let inhibitp = has_flag sock SVZ_SOFLG_FINAL_WRITE \<and> sk_write_socket sock = WS_tcp \<and> untouched;
        let sock = (if inhibitp then clear_flag SVZ_SOFLG_FINAL_WRITE sock else sock);
        (ret, sock, w) \<leftarrow> write_socket sock w;
        if ret \<noteq> 0 then Some (ret, sock, w)
        else Some (0, if inhibitp then set_flag SVZ_SOFLG_FINAL_WRITE sock else sock, w)
      }
      else Some (0, sock, w))"

function svz_sock_write_loop ::
    "'w sock_cb \<Rightarrow> 'w kick_cb \<Rightarrow> nat \<Rightarrow> svz_socket \<Rightarrow> mem \<Rightarrow> 'w \<Rightarrow> (int \<times> svz_socket \<times> 'w) option" where
  "svz_sock_write_loop write_socket kicked orig_len sock buf w =
     (if length buf > 0
      then case write_flush write_socket sock w (orig_len = length buf) of
             None \<Rightarrow> None
           | Some (ret, sock, w) \<Rightarrow>
               if ret \<noteq> 0 then Some (ret, sock, w)
               else if sk_send_buffer_fill sock \<ge> sk_send_buffer_size sock
               then (let (sock, w) = kick kicked sock 1 w in Some (-1, sock, w))
               else if sk_send_buffer_fill sock + int (length buf) < sk_send_buffer_size sock
               then (case buf_write (sk_send_buffer sock) (sk_send_buffer_fill sock) buf of
                       None \<Rightarrow> None
                     | Some xs \<Rightarrow>
                         Some (0, sock\<lparr>sk_send_buffer := Some xs,
                               sk_send_buffer_fill := sk_send_buffer_fill sock + int (length buf)\<rparr>, w))
               else (let space = sk_send_buffer_size sock - sk_send_buffer_fill sock
                     in case buf_write (sk_send_buffer sock) (sk_send_buffer_fill sock) (take (nat space) buf) of
                          None \<Rightarrow> None
                        | Some xs \<Rightarrow>
                            svz_sock_write_loop write_socket kicked orig_len
                              (sock\<lparr>sk_send_buffer := Some xs,
                                    sk_send_buffer_fill := sk_send_buffer_fill sock + space\<rparr>)
                              (drop (nat space) buf) w)
      else Some (0, sock, w))"
  by pat_completeness auto
termination
  by (relation "measure (\<lambda>(ws, k, n, sock, buf, w). length buf)") auto

declare svz_sock_write_loop.simps [simp del]

definition svz_sock_write :: "'w sock_cb \<Rightarrow> 'w kick_cb \<Rightarrow> svz_socket \<Rightarrow> mem \<Rightarrow> 'w \<Rightarrow> (int \<times> svz_socket \<times> 'w) option" where
  "svz_sock_write write_socket kicked sock buf w =
     (if has_flag sock SVZ_SOFLG_KILLED then Some (0, sock, w)
      else svz_sock_write_loop write_socket kicked (length buf) sock buf w)"

text \<open>
  \<^verbatim>\<open>vsnprintf\<close> leaves at most \<^term>\<open>VSNPRINTF_BUF_SIZE - 1\<close> bytes of the formatted text and a
  NUL in the static buffer and returns the length of the whole text; \<open>text\<close> is that text and
  \<open>junk\<close> what the rest of the static buffer held before.
\<close>

definition svz_sock_printf ::
    "'w sock_cb \<Rightarrow> 'w kick_cb \<Rightarrow> svz_socket \<Rightarrow> mem \<Rightarrow> mem \<Rightarrow> 'w \<Rightarrow> (int \<times> svz_socket \<times> 'w) option" where
  "svz_sock_printf write_socket kicked sock text junk w =
     (if has_flag sock SVZ_SOFLG_KILLED then Some (0, sock, w)
      else let buffer = take VSNPRINTF_BUF_SIZE (take (VSNPRINTF_BUF_SIZE - 1) text @ 0 # junk);
               len = (if length text > VSNPRINTF_BUF_SIZE then VSNPRINTF_BUF_SIZE else length text)
           in svz_sock_write write_socket kicked sock (take len buffer) w)"

definition svz_tcp_write_socket :: "'w os \<Rightarrow> svz_socket \<Rightarrow> 'w \<Rightarrow> (int \<times> svz_socket \<times> 'w) option" where
  "svz_tcp_write_socket os sock w = do {
     let do_write = sk_send_buffer_fill sock;
     let do_write = (if do_write > SVZ_SOCK_MAX_WRITE then SVZ_SOCK_MAX_WRITE else do_write);
     bytes \<leftarrow> buf_read (sk_send_buffer sock) 0 do_write;
     let (num_written, w) = os_send os (sk_sock_desc sock) bytes w;
     (num_written, sock) \<leftarrow>
       (if num_written > 0
        then do {
          sock \<leftarrow> svz_sock_reduce_send (sock\<lparr>sk_last_send := os_time os w\<rparr>) num_written;
          Some (num_written, sock)
        }
        else if num_written < 0
        then (let (waiting, sock) = svz_wait_if_unavailable os sock 1 w
              in Some (if waiting \<noteq> 0 then 0 else num_written, sock))
        else Some (num_written, sock));
     let num_written = (if has_flag sock SVZ_SOFLG_FINAL_WRITE \<and> sk_send_buffer_fill sock = 0 then -1
                        else num_written);
     Some (if num_written < 0 then -1 else 0, sock, w)
   }"

subsection \<open>Reading\<close>

text \<open>
  C integer division truncates towards zero; \<open>num_read\<close> is a byte count.
  The result is the return value; a kicked socket has gone through its callback.
\<close>

definition svz_sock_flood_protect :: "'w kick_cb \<Rightarrow> svz_socket \<Rightarrow> int \<Rightarrow> 'w \<Rightarrow> int \<times> svz_socket \<times> 'w" where
  "svz_sock_flood_protect kicked sock num_read w =
     (if \<not> has_flag sock SVZ_SOFLG_NOFLOOD
      then let sock = sock\<lparr>sk_flood_points := sk_flood_points sock
                             + (1 + sgn num_read * (\<bar>num_read\<bar> div 50))\<rparr>
           in if sk_flood_points sock > sk_flood_limit sock
              then let (sock, w) = kick kicked sock 0 w in (-1, sock, w)
              else (0, sock, w)
      else (0, sock, w))"

definition svz_tcp_read_socket ::
    "'w os \<Rightarrow> 'w sock_cb \<Rightarrow> 'w kick_cb \<Rightarrow> svz_socket \<Rightarrow> 'w \<Rightarrow> (int \<times> svz_socket \<times> 'w) option" where
  "svz_tcp_read_socket os check_request kicked sock w =
     (let do_read = sk_recv_buffer_size sock - sk_recv_buffer_fill sock
      in if do_read \<le> 0
         then let (sock, w) = kick kicked sock 0 w in Some (-1, sock, w)
         else
           let ((num_read, bytes), w) = os_recv os (sk_sock_desc sock) (nat do_read) w
           in if num_read < 0
              then Some (if os_unavailable os w then 0 else -1, sock, w)
              else if num_read > 0
              then do {
                xs \<leftarrow> buf_write (sk_recv_buffer sock) (sk_recv_buffer_fill sock) bytes;
                let sock = sock\<lparr>sk_recv_buffer := Some xs, sk_last_recv := os_time os w\<rparr>;
                let (kicked_p, sock, w) = svz_sock_flood_protect kicked sock num_read w;
                if kicked_p \<noteq> 0 then Some (-1, sock, w)
                else do {
                  let sock = sock\<lparr>sk_recv_buffer_fill := sk_recv_buffer_fill sock + num_read\<rparr>;
                  if sk_check_request sock \<noteq> CR_NULL then check_request sock w
                  else Some (0, sock, w)
                }
              }
              else Some (-1, sock, w))"

text \<open>The out-of-band byte; \<open>check_oob\<close> is the \<^verbatim>\<open>check_request_oob\<close> callback.\<close>

definition svz_tcp_recv_oob :: "'w os \<Rightarrow> 'w sock_cb option \<Rightarrow> svz_socket \<Rightarrow> 'w \<Rightarrow> (int \<times> svz_socket \<times> 'w) option" where
  "svz_tcp_recv_oob os check_oob sock w =
     (let ((num_read, b), w) = os_recv_oob os (sk_sock_desc sock) w
      in if num_read < 0 then Some (-1, sock, w)
         else if num_read > 0
         then (let sock = sock\<lparr>sk_oob := b\<rparr>
               in case check_oob of None \<Rightarrow> Some (0, sock, w) | Some f \<Rightarrow> f sock w)
         else Some (0, sock, w))"

definition svz_tcp_send_oob :: "'w os \<Rightarrow> svz_socket \<Rightarrow> 'w \<Rightarrow> int \<times> 'w" where
  "svz_tcp_send_oob os sock w =
     (let (num_written, w) = os_send_oob os (sk_sock_desc sock) (sk_oob sock) w
      in (if num_written < 0 then -1 else 0, w))"

text \<open>\<^verbatim>\<open>INADDR_ANY\<close> and port 0 stand in for an unknown end of the connection.\<close>

definition svz_sock_intern_connection_info :: "'w os \<Rightarrow> svz_socket \<Rightarrow> 'w \<Rightarrow> svz_socket" where
  "svz_sock_intern_connection_info os sock w =
     (let (raddr, rport) = (case os_getpeername os (sk_sock_desc sock) w of Some a \<Rightarrow> a | None \<Rightarrow> (0, 0));
          (laddr, lport) = (case os_getsockname os (sk_sock_desc sock) w of Some a \<Rightarrow> a | None \<Rightarrow> (0, 0))
      in sock\<lparr>sk_remote_port := rport, sk_remote_addr := Some raddr,
              sk_local_port := lport, sk_local_addr := Some laddr\<rparr>)"

subsection \<open>Splitting the receive buffer into packets\<close>

type_synonym 'w handler = "svz_socket \<Rightarrow> mem \<Rightarrow> 'w \<Rightarrow> (int \<times> svz_socket \<times> 'w) option"

text \<open>\<^verbatim>\<open>if (sock->handle_request) sock->handle_request (sock, packet, n)\<close>\<close>

definition dispatch :: "'w handler option \<Rightarrow> svz_socket \<Rightarrow> int \<Rightarrow> int \<Rightarrow> 'w \<Rightarrow> (int \<times> svz_socket \<times> 'w) option" where
  "dispatch hr sock packet n w =
     (case hr of
        None \<Rightarrow> Some (0, sock, w)
      | Some f \<Rightarrow> do { bytes \<leftarrow> buf_read (sk_recv_buffer sock) packet n; f sock bytes w })"

text \<open>\<^verbatim>\<open>memcmp (p, sock->boundary, sock->boundary_size)\<close> and \<^verbatim>\<open>*p - *sock->boundary\<close> at an offset.\<close>

definition cmp_boundary :: "svz_socket \<Rightarrow> int \<Rightarrow> int option" where
  "cmp_boundary sock p = do {
     b \<leftarrow> sk_boundary sock;
     bytes \<leftarrow> buf_read (sk_recv_buffer sock) p (sk_boundary_size sock);
     if nat (sk_boundary_size sock) \<le> length b then Some (memcmp bytes b (nat (sk_boundary_size sock))) else None
   }"

definition cmp_byte :: "svz_socket \<Rightarrow> int \<Rightarrow> int option" where
  "cmp_byte sock p = do {
     b \<leftarrow> sk_boundary sock;
     bytes \<leftarrow> buf_read (sk_recv_buffer sock) p 1;
     (case b of [] \<Rightarrow> None | c # _ \<Rightarrow> Some (memcmp bytes [c] 1))
   }"

text \<open>\<^verbatim>\<open>while (p < end && ...) p++;\<close>\<close>

function scan_boundary :: "(svz_socket \<Rightarrow> int \<Rightarrow> int option) \<Rightarrow> svz_socket \<Rightarrow> int \<Rightarrow> int \<Rightarrow> int option" where
  "scan_boundary cmp sock end p =
     (if p < end
      then case cmp sock p of
             None \<Rightarrow> None
           | Some c \<Rightarrow> if c \<noteq> 0 then scan_boundary cmp sock end (p + 1) else Some p
      else Some p)"
  by pat_completeness auto
termination
  by (relation "measure (\<lambda>(cmp, sock, end, p). nat (end - p))") auto

declare scan_boundary.simps [simp del]

text \<open>
  The do-while loop of \<^verbatim>\<open>split_packet_and_dispatch\<close> and of its one-byte variant; \<open>step\<close> is how far
  a found boundary moves \<^verbatim>\<open>p\<close>, and \<^verbatim>\<open>packet\<close>, \<^verbatim>\<open>p\<close>, \<^verbatim>\<open>end\<close> are offsets into the receive buffer.
\<close>

partial_function (option) split_loop ::
    "(svz_socket \<Rightarrow> int \<Rightarrow> int option) \<Rightarrow> (svz_socket \<Rightarrow> int) \<Rightarrow> 'w handler option \<Rightarrow> int
     \<Rightarrow> svz_socket \<Rightarrow> 'w \<Rightarrow> int \<Rightarrow> int \<Rightarrow> int \<Rightarrow> (int \<times> svz_socket \<times> 'w) option" where
  "split_loop cmp step hr end sock w p packet len = do {
     p \<leftarrow> scan_boundary cmp sock end p;
     c \<leftarrow> (if p < end then cmp sock p else Some 1);
     if p < end \<and> c = 0
     then do {
       let p = p + step sock;
       let len = len + (p - packet);
       (ret, sock, w) \<leftarrow> dispatch hr sock packet (p - packet) w;
       if ret \<noteq> 0 then Some (-1, sock, w)
       else if p < end then split_loop cmp step hr end sock w p p len
       else do { sock \<leftarrow> svz_sock_reduce_recv sock len; Some (0, sock, w) }
     }
     else if p < end then split_loop cmp step hr end sock w p packet len
     else do { sock \<leftarrow> svz_sock_reduce_recv sock len; Some (0, sock, w) }
   }"

definition split_packet_and_dispatch :: "'w handler option \<Rightarrow> svz_socket \<Rightarrow> 'w \<Rightarrow> (int \<times> svz_socket \<times> 'w) option" where
  "split_packet_and_dispatch hr sock w =
     split_loop cmp_boundary sk_boundary_size hr
       (sk_recv_buffer_fill sock - sk_boundary_size sock + 1) sock w 0 0 0"

definition split_packet_unibyte_and_dispatch ::
    "'w handler option \<Rightarrow> svz_socket \<Rightarrow> 'w \<Rightarrow> (int \<times> svz_socket \<times> 'w) option" where
  "split_packet_unibyte_and_dispatch hr sock w =
     split_loop cmp_byte (\<lambda>_. 1) hr (sk_recv_buffer_fill sock) sock w 0 0 0"

partial_function (option) fixed_loop ::
    "'w handler option \<Rightarrow> int \<Rightarrow> svz_socket \<Rightarrow> 'w \<Rightarrow> int \<Rightarrow> int \<Rightarrow> int \<Rightarrow> (int \<times> svz_socket \<times> 'w) option" where
  "fixed_loop hr end sock w p packet len =
     (if p + sk_boundary_size sock < end
      then do {
        let len = len + sk_boundary_size sock;
        let p = p + sk_boundary_size sock;
        (ret, sock, w) \<leftarrow> dispatch hr sock packet (sk_boundary_size sock) w;
        if ret \<noteq> 0 then Some (-1, sock, w) else fixed_loop hr end sock w p p len
      }
      else do { sock \<leftarrow> svz_sock_reduce_recv sock len; Some (0, sock, w) })"

definition split_packet_fixed_and_dispatch ::
    "'w handler option \<Rightarrow> svz_socket \<Rightarrow> 'w \<Rightarrow> (int \<times> svz_socket \<times> 'w) option" where
  "split_packet_fixed_and_dispatch hr sock w = fixed_loop hr (sk_recv_buffer_fill sock) sock w 0 0 0"

definition svz_sock_check_request :: "'w handler option \<Rightarrow> svz_socket \<Rightarrow> 'w \<Rightarrow> (int \<times> svz_socket \<times> 'w) option" where
  "svz_sock_check_request hr sock w =
     (if sk_boundary_size sock \<le> 0 then Some (-1, sock, w)
      else if sk_boundary sock = None
      then split_packet_fixed_and_dispatch hr (sock\<lparr>sk_check_request := CR_split_packet_fixed\<rparr>) w
      else if sk_boundary_size sock > 1
      then split_packet_and_dispatch hr (sock\<lparr>sk_check_request := CR_split_packet\<rparr>) w
      else split_packet_unibyte_and_dispatch hr (sock\<lparr>sk_check_request := CR_split_packet_unibyte\<rparr>) w)"

text \<open>
  The registered prefree callbacks (\<open>'f\<close>) live in an array; unregistering removes every
  occurrence by index, stepping back after each removal.
\<close>

function prefree_remove :: "'f svz_array option \<Rightarrow> 'f \<Rightarrow> nat \<Rightarrow> 'f svz_array option option" where
  "prefree_remove prefree fn i =
     (if i < svz_array_size prefree
      then case svz_array_get prefree i of
             None \<Rightarrow> None
           | Some v \<Rightarrow>
               if v = Some fn
               then (case svz_array_del prefree i of
                       None \<Rightarrow> None
                     | Some (_, prefree') \<Rightarrow> prefree_remove prefree' fn i)
               else prefree_remove prefree fn (Suc i)
      else Some prefree)"
  by pat_completeness auto
termination
  by (relation "measure (\<lambda>(prefree, fn, i). svz_array_size prefree - i)")
     (auto simp: svz_array_size_def svz_array_del_def elim!: bind_SomeE split: option.splits if_splits)

declare prefree_remove.simps [simp del]

definition svz_sock_prefree :: "'f svz_array option \<Rightarrow> int \<Rightarrow> 'f \<Rightarrow> 'f svz_array option option" where
  "svz_sock_prefree prefree addsub fn =
     (let prefree = (if prefree = None then Some (svz_array_create 1 False) else prefree)
      in if addsub \<noteq> 0 then svz_array_add prefree (Some fn) else prefree_remove prefree fn 0)"

text \<open>The callbacks \<^verbatim>\<open>svz_sock_free\<close> runs, last registered first.\<close>

fun free_loop :: "'f svz_array option \<Rightarrow> nat \<Rightarrow> 'f option list option" where
  "free_loop prefree 0 = Some []"
| "free_loop prefree (Suc i) = do { fn \<leftarrow> svz_array_get prefree i; fns \<leftarrow> free_loop prefree i; Some (fn # fns) }"

definition svz_sock_free :: "'f svz_array option \<Rightarrow> 'f option list option" where
  "svz_sock_free prefree = free_loop prefree (svz_array_size prefree)"


subsection \<open>Buffers as byte queues\<close>

text \<open>
  A buffer block of \<open>sz\<close> cells whose first \<open>fill\<close> cells hold the bytes \<open>vs\<close>. A socket
  is well-formed towards its writers when \<open>send_rep\<close> holds of some queue, towards its readers
  when \<open>recv_rep\<close> does.
\<close>

definition buf_rep :: "byte cell list option \<Rightarrow> int \<Rightarrow> int \<Rightarrow> mem \<Rightarrow> bool" where
  "buf_rep block sz fill vs \<longleftrightarrow>
     (\<exists>xs. block = Some xs \<and> int (length xs) = sz \<and> holds xs vs \<and> fill = int (length vs))"

definition send_rep :: "svz_socket \<Rightarrow> mem \<Rightarrow> bool" where
  "send_rep sock vs \<longleftrightarrow> buf_rep (sk_send_buffer sock) (sk_send_buffer_size sock) (sk_send_buffer_fill sock) vs"

definition recv_rep :: "svz_socket \<Rightarrow> mem \<Rightarrow> bool" where
  "recv_rep sock vs \<longleftrightarrow> buf_rep (sk_recv_buffer sock) (sk_recv_buffer_size sock) (sk_recv_buffer_fill sock) vs"

lemma buf_rep_length: "buf_rep block sz fill vs \<Longrightarrow> fill = int (length vs) \<and> int (length vs) \<le> sz"
  by (auto simp: buf_rep_def dest: holds_length)

lemma buf_rep_unique: "buf_rep block sz fill vs \<Longrightarrow> buf_rep block sz fill ws \<Longrightarrow> vs = ws"
proof -
  assume "buf_rep block sz fill vs" "buf_rep block sz fill ws"
  then obtain xs where "holds xs vs" "holds xs ws" "length vs = length ws" by (auto simp: buf_rep_def)
  then have "map Cell vs = map Cell ws" by (simp add: holds_def)
  then show ?thesis by (metis the_cell_comp_Cell list.map_id map_map)
qed

lemma buf_read_rep:
  assumes "buf_rep block sz fill vs" "0 \<le> off" "0 \<le> n" "off + n \<le> int (length vs)"
  shows "buf_read block off n = Some (take (nat n) (drop (nat off) vs))"
proof -
  have "nat off + nat n \<le> length vs" using assms(2-4) by linarith
  then show ?thesis using assms by (auto simp: buf_read_def buf_rep_def mem_simps)
qed

lemma buf_write_rep:
  assumes "buf_rep block sz fill vs" "int (length vs + length ys) \<le> sz"
  shows "\<exists>xs. buf_write block fill ys = Some xs \<and> buf_rep (Some xs) sz (fill + int (length ys)) (vs @ ys)"
proof -
  obtain xs where xs: "block = Some xs" "int (length xs) = sz" "holds xs vs" "fill = int (length vs)"
    using assms(1) by (auto simp: buf_rep_def)
  then have "length vs + length ys \<le> length xs" using assms(2) by linarith
  from wr_range_append [OF xs(3) this] xs show ?thesis by (auto simp: buf_write_def buf_rep_def)
qed

lemma buf_move_rep:
  assumes "buf_rep block sz fill vs" "0 \<le> n" "n \<le> fill"
  shows "\<exists>xs. buf_move block 0 n (fill - n) = Some xs \<and> buf_rep (Some xs) sz (fill - n) (drop (nat n) vs)"
proof -
  obtain xs where xs: "block = Some xs" "int (length xs) = sz" "holds xs vs" "fill = int (length vs)"
    using assms(1) by (auto simp: buf_rep_def)
  then have n: "nat n \<le> length vs" and e: "nat (fill - n) = length vs - nat n" "fill - n = int (length vs - nat n)"
    using assms(2,3) by linarith+
  obtain ys where ys: "mv_range xs 0 (nat n) (length vs - nat n) = Some ys" "length ys = length xs"
      "holds ys (drop (nat n) vs)" using mv_range_front [OF xs(3) n] by blast
  have "buf_move block 0 n (fill - n) = Some ys"
    using assms(2,3) ys(1) e(1) by (simp add: buf_move_def xs(1))
  moreover have "buf_rep (Some ys) sz (fill - n) (drop (nat n) vs)"
    using ys(2,3) xs(2) e(2) by (simp add: buf_rep_def)
  ultimately show ?thesis by blast
qed

lemma buf_rep_take0: "buf_rep block sz fill vs \<Longrightarrow> buf_rep block sz 0 []"
  by (auto simp: buf_rep_def)

lemma send_rep_flag [simp]:
  "send_rep (set_flag f sock) = send_rep sock" "send_rep (clear_flag f sock) = send_rep sock"
  by (auto simp: send_rep_def set_flag_def clear_flag_def fun_eq_iff)

lemma recv_rep_flag [simp]:
  "recv_rep (set_flag f sock) = recv_rep sock" "recv_rep (clear_flag f sock) = recv_rep sock"
  by (auto simp: recv_rep_def set_flag_def clear_flag_def fun_eq_iff)

lemma svz_sock_reduce_recv_rep:
  assumes "recv_rep sock vs" "0 \<le> n" "n \<le> int (length vs)"
  shows "\<exists>xs. svz_sock_reduce_recv sock n = Some (sock\<lparr>sk_recv_buffer := Some xs,
              sk_recv_buffer_fill := sk_recv_buffer_fill sock - n\<rparr>)
            \<and> buf_rep (Some xs) (sk_recv_buffer_size sock) (sk_recv_buffer_fill sock - n) (drop (nat n) vs)"
proof -
  have fill: "sk_recv_buffer_fill sock = int (length vs)"
    using assms(1) by (auto simp: recv_rep_def dest: buf_rep_length)
  obtain b where b: "sk_recv_buffer sock = Some b" using assms(1) by (auto simp: recv_rep_def buf_rep_def)
  show ?thesis
  proof (cases "n \<noteq> 0 \<and> sk_recv_buffer_fill sock > n")
    case True
    with buf_move_rep [of _ _ "sk_recv_buffer_fill sock" vs n] assms fill show ?thesis
      by (fastforce simp: svz_sock_reduce_recv_def recv_rep_def)
  next
    case False
    then have "svz_sock_reduce_recv sock n = Some (sock\<lparr>sk_recv_buffer := Some b,
        sk_recv_buffer_fill := sk_recv_buffer_fill sock - n\<rparr>)"
      by (auto simp: svz_sock_reduce_recv_def b)
    moreover from False have "buf_rep (Some b) (sk_recv_buffer_size sock) (sk_recv_buffer_fill sock - n) (drop (nat n) vs)"
      using assms fill b by (auto simp: recv_rep_def buf_rep_def)
    ultimately show ?thesis by blast
  qed
qed

lemma svz_sock_reduce_send_rep:
  assumes "send_rep sock vs" "0 \<le> n" "n \<le> int (length vs)"
  shows "\<exists>xs. svz_sock_reduce_send sock n = Some (sock\<lparr>sk_send_buffer := Some xs,
              sk_send_buffer_fill := sk_send_buffer_fill sock - n\<rparr>)
            \<and> buf_rep (Some xs) (sk_send_buffer_size sock) (sk_send_buffer_fill sock - n) (drop (nat n) vs)"
proof -
  have fill: "sk_send_buffer_fill sock = int (length vs)"
    using assms(1) by (auto simp: send_rep_def dest: buf_rep_length)
  obtain b where b: "sk_send_buffer sock = Some b" using assms(1) by (auto simp: send_rep_def buf_rep_def)
  show ?thesis
  proof (cases "n \<noteq> 0 \<and> sk_send_buffer_fill sock > n")
    case True
    with buf_move_rep [of _ _ "sk_send_buffer_fill sock" vs n] assms fill show ?thesis
      by (fastforce simp: svz_sock_reduce_send_def send_rep_def)
  next
    case False
    then have "svz_sock_reduce_send sock n = Some (sock\<lparr>sk_send_buffer := Some b,
        sk_send_buffer_fill := sk_send_buffer_fill sock - n\<rparr>)"
      by (auto simp: svz_sock_reduce_send_def b)
    moreover from False have "buf_rep (Some b) (sk_send_buffer_size sock) (sk_send_buffer_fill sock - n) (drop (nat n) vs)"
      using assms fill b by (auto simp: send_rep_def buf_rep_def)
    ultimately show ?thesis by blast
  qed
qed

lemma svz_sock_alloc_rep: "send_rep (svz_sock_alloc now) [] \<and> recv_rep (svz_sock_alloc now) []"
  by (simp add: svz_sock_alloc_def send_rep_def recv_rep_def buf_rep_def SEND_BUF_SIZE_def RECV_BUF_SIZE_def)

subsection \<open>The outgoing stream\<close>

text \<open>
  What the code relies on of \<^verbatim>\<open>send (2)\<close>: it puts a prefix of the bytes it is given on the wire and
  returns its length, or a negative value and puts nothing there. \<open>wire w\<close> is what has been
  put on the wire so far in the world \<open>w\<close>.
\<close>

definition posix_send :: "'w os \<Rightarrow> ('w \<Rightarrow> mem) \<Rightarrow> bool" where
  "posix_send os wire \<longleftrightarrow>
     (\<forall>fd bytes w. fst (os_send os fd bytes w) \<le> int (length bytes)
        \<and> wire (snd (os_send os fd bytes w)) = wire w @ take (nat (fst (os_send os fd bytes w))) bytes)"

text \<open>The contract of a \<^verbatim>\<open>write_socket\<close> callback: bytes move from the queue to the wire in order.\<close>

definition stream_writer :: "'w sock_cb \<Rightarrow> ('w \<Rightarrow> mem) \<Rightarrow> bool" where
  "stream_writer ws wire \<longleftrightarrow>
     (\<forall>sock w pend. send_rep sock pend \<longrightarrow>
        (\<exists>ret sock' w' pend'. ws sock w = Some (ret, sock', w') \<and> send_rep sock' pend'
           \<and> sk_send_buffer_size sock' = sk_send_buffer_size sock \<and> wire w' @ pend' = wire w @ pend))"

lemma tcp_write_resultI:
  "svz_tcp_write_socket os sock w = Some (ret, sock', w') \<Longrightarrow> send_rep sock' (drop k pend) \<Longrightarrow>
   wire w' = wire w @ take k pend \<Longrightarrow> k \<le> 1024 \<Longrightarrow> sk_send_buffer_size sock' = sk_send_buffer_size sock \<Longrightarrow>
   \<exists>ret sock' w' k. svz_tcp_write_socket os sock w = Some (ret, sock', w')
     \<and> send_rep sock' (drop k pend) \<and> wire w' = wire w @ take k pend \<and> k \<le> 1024
     \<and> sk_send_buffer_size sock' = sk_send_buffer_size sock"
  by blast

lemma svz_tcp_write_socket_eq:
  assumes "posix_send os wire" "send_rep sock pend"
  shows "\<exists>ret sock' w' k. svz_tcp_write_socket os sock w = Some (ret, sock', w')
           \<and> send_rep sock' (drop k pend) \<and> wire w' = wire w @ take k pend \<and> k \<le> 1024
           \<and> sk_send_buffer_size sock' = sk_send_buffer_size sock"
proof -
  define d where "d = (if sk_send_buffer_fill sock > SVZ_SOCK_MAX_WRITE then SVZ_SOCK_MAX_WRITE else sk_send_buffer_fill sock)"
  have rep: "buf_rep (sk_send_buffer sock) (sk_send_buffer_size sock) (sk_send_buffer_fill sock) pend"
    using assms(2) by (simp add: send_rep_def)
  then have fill: "sk_send_buffer_fill sock = int (length pend)" using buf_rep_length by blast
  have d: "0 \<le> d" "d \<le> int (length pend)" "d \<le> 1024" using fill by (auto simp: d_def SVZ_SOCK_MAX_WRITE_def)
  obtain n w1 where sd: "os_send os (sk_sock_desc sock) (take (nat d) pend) w = (n, w1)" by fastforce
  have n: "n \<le> d" "wire w1 = wire w @ take (nat n) (take (nat d) pend)"
    using assms(1) sd d unfolding posix_send_def by (metis fst_conv length_take min_def nat_le_iff nat_0_le of_nat_le_iff order_trans min.cobounded2, metis fst_conv snd_conv)
  have rd: "buf_read (sk_send_buffer sock) 0 d = Some (take (nat d) pend)"
    using buf_read_rep [OF rep, of 0 d] d by simp
  show ?thesis
  proof (cases "n > 0")
    case True
    let ?s = "sock\<lparr>sk_last_send := os_time os w1\<rparr>"
    obtain xs where xs: "svz_sock_reduce_send ?s n = Some (?s\<lparr>sk_send_buffer := Some xs, sk_send_buffer_fill := sk_send_buffer_fill sock - n\<rparr>)"
      "buf_rep (Some xs) (sk_send_buffer_size sock) (sk_send_buffer_fill sock - n) (drop (nat n) pend)"
      using svz_sock_reduce_send_rep [of ?s pend n] assms(2) True n(1) d by (auto simp: send_rep_def)
    then have "\<exists>ret. svz_tcp_write_socket os sock w = Some (ret, ?s\<lparr>sk_send_buffer := Some xs,
        sk_send_buffer_fill := sk_send_buffer_fill sock - n\<rparr>, w1)"
      using True by (simp add: svz_tcp_write_socket_def rd sd d_def [symmetric] Let_def)
    moreover have "wire w1 = wire w @ take (nat n) pend" "nat n \<le> 1024"
      using n d True by (simp_all add: min_def)
    ultimately show ?thesis using xs(2)
      by (auto intro!: tcp_write_resultI [where k = "nat n"] simp: send_rep_def)
  next
    case False
    define u where "u = (if n < 0 \<and> os_unavailable os w1 then 1 + os_time os w1 else sk_unavailable sock)"
    have "sock = sock\<lparr>sk_unavailable := sk_unavailable sock\<rparr>" by simp
    then have "\<exists>ret. svz_tcp_write_socket os sock w = Some (ret, sock\<lparr>sk_unavailable := u\<rparr>, w1)"
      using False
      by (cases "n < 0 \<and> os_unavailable os w1")
         (simp_all add: svz_tcp_write_socket_def rd sd d_def [symmetric] Let_def svz_wait_if_unavailable_def u_def)
    moreover have "wire w1 = wire w @ take 0 pend" using n False by simp
    ultimately show ?thesis using assms(2)
      by (elim exE) (rule tcp_write_resultI [where k = 0], assumption, auto simp: send_rep_def)
  qed
qed

lemma tcp_stream_writer: "posix_send os wire \<Longrightarrow> stream_writer (svz_tcp_write_socket os) wire"
  unfolding stream_writer_def using svz_tcp_write_socket_eq [of os wire] by (metis append_assoc append_take_drop_id)

lemma write_flush_stream:
  assumes "stream_writer ws wire" "send_rep sock pend"
  shows "\<exists>ret sock' w' pend'. write_flush ws sock w u = Some (ret, sock', w') \<and> send_rep sock' pend'
           \<and> sk_send_buffer_size sock' = sk_send_buffer_size sock \<and> wire w' @ pend' = wire w @ pend"
proof -
  let ?s = "if has_flag sock SVZ_SOFLG_FINAL_WRITE \<and> sk_write_socket sock = WS_tcp \<and> u
            then clear_flag SVZ_SOFLG_FINAL_WRITE sock else sock"
  have "send_rep ?s pend" "sk_send_buffer_size ?s = sk_send_buffer_size sock"
    using assms(2) by (auto simp: clear_flag_def send_rep_def)
  then obtain ret sock' w' pend' where "ws ?s w = Some (ret, sock', w')" "send_rep sock' pend'"
      "sk_send_buffer_size sock' = sk_send_buffer_size sock" "wire w' @ pend' = wire w @ pend"
    using assms(1) unfolding stream_writer_def by metis
  moreover have "sk_send_buffer_size (set_flag f s) = sk_send_buffer_size s" for f s
    by (simp add: set_flag_def)
  ultimately show ?thesis using assms(2)
    by (cases "ret = 0") (simp_all add: write_flush_def Let_def, blast+)
qed

text \<open>A \<^verbatim>\<open>kicked_socket\<close> callback that leaves the send queue and the wire alone.\<close>

definition kick_keeps :: "'w kick_cb \<Rightarrow> ('w \<Rightarrow> mem) \<Rightarrow> bool" where
  "kick_keeps kicked wire \<longleftrightarrow>
     (\<forall>sock reason w pend. send_rep sock pend \<longrightarrow>
        send_rep (fst (kick kicked sock reason w)) pend \<and> wire (snd (kick kicked sock reason w)) = wire w)"

lemma svz_sock_write_loop_stream:
  assumes "stream_writer ws wire" "send_rep sock pend" "kick_keeps kicked wire"
  shows "\<exists>ret sock' w' pend' k. svz_sock_write_loop ws kicked n sock buf w = Some (ret, sock', w')
           \<and> send_rep sock' pend' \<and> wire w' @ pend' = wire w @ pend @ take k buf
           \<and> (ret = 0 \<longrightarrow> k = length buf)"
  using assms
proof (induction ws kicked n sock buf w arbitrary: pend rule: svz_sock_write_loop.induct)
  case (1 ws kicked n sock buf w)
  show ?case
  proof (cases "buf = []")
    case True
    then show ?thesis using 1 by (subst svz_sock_write_loop.simps) auto
  next
    case False
    obtain ret s1 w1 p1 where fl: "write_flush ws sock w (n = length buf) = Some (ret, s1, w1)"
      and rep: "send_rep s1 p1" and wire: "wire w1 @ p1 = wire w @ pend"
      using write_flush_stream [OF 1(2,3), of w "n = length buf"] by blast
    have b: "buf_rep (sk_send_buffer s1) (sk_send_buffer_size s1) (sk_send_buffer_fill s1) p1"
      using rep by (simp add: send_rep_def)
    have fill: "sk_send_buffer_fill s1 = int (length p1)" "int (length p1) \<le> sk_send_buffer_size s1"
      using buf_rep_length [OF b] by auto
    note step = svz_sock_write_loop.simps [of ws kicked n sock buf w]
    consider "ret \<noteq> 0" | "ret = 0" "sk_send_buffer_fill s1 \<ge> sk_send_buffer_size s1"
      | "ret = 0" "sk_send_buffer_fill s1 + int (length buf) < sk_send_buffer_size s1"
      | "ret = 0" "sk_send_buffer_fill s1 < sk_send_buffer_size s1" "\<not> sk_send_buffer_fill s1 + int (length buf) < sk_send_buffer_size s1"
      by linarith
    then show ?thesis
    proof cases
      case 1
      have "svz_sock_write_loop ws kicked n sock buf w = Some (ret, s1, w1)"
        using 1 False by (simp add: step fl)
      then show ?thesis using rep wire 1 by (intro exI [of _ p1] exI [of _ 0] exI conjI) auto
    next
      case 2
      have "svz_sock_write_loop ws kicked n sock buf w = Some (-1, kick kicked s1 1 w1)"
        using 2 False by (simp add: step fl case_prod_beta)
      then show ?thesis using rep wire 1(4) [unfolded kick_keeps_def]
        by (intro exI [of _ "fst (kick kicked s1 1 w1)"] exI [of _ "snd (kick kicked s1 1 w1)"]
              exI [of _ p1] exI [of _ 0] exI [of _ "-1"] conjI) auto
    next
      case 3
      then obtain xs where xs: "buf_write (sk_send_buffer s1) (sk_send_buffer_fill s1) buf = Some xs"
          "buf_rep (Some xs) (sk_send_buffer_size s1) (sk_send_buffer_fill s1 + int (length buf)) (p1 @ buf)"
        using buf_write_rep [OF b, of buf] fill by auto
      have "svz_sock_write_loop ws kicked n sock buf w = Some (0, s1\<lparr>sk_send_buffer := Some xs,
              sk_send_buffer_fill := sk_send_buffer_fill s1 + int (length buf)\<rparr>, w1)"
        using 3 False xs(1) by (simp add: step fl)
      then show ?thesis using xs(2) wire
        by (intro exI [of _ "p1 @ buf"] exI [of _ "length buf"] exI conjI) (auto simp: send_rep_def)
    next
      case 4
      let ?sp = "sk_send_buffer_size s1 - sk_send_buffer_fill s1"
      let ?s2 = "\<lambda>xs. s1\<lparr>sk_send_buffer := Some xs, sk_send_buffer_fill := sk_send_buffer_fill s1 + ?sp\<rparr>"
      have len: "int (length (take (nat ?sp) buf)) = ?sp" using 4 by auto
      then obtain xs where xs: "buf_write (sk_send_buffer s1) (sk_send_buffer_fill s1) (take (nat ?sp) buf) = Some xs"
          "buf_rep (Some xs) (sk_send_buffer_size s1) (sk_send_buffer_fill s1 + ?sp) (p1 @ take (nat ?sp) buf)"
        using buf_write_rep [OF b, of "take (nat ?sp) buf"] fill by auto
      have eq: "svz_sock_write_loop ws kicked n sock buf w
                  = svz_sock_write_loop ws kicked n (?s2 xs) (drop (nat ?sp) buf) w1"
        using 4 False xs(1) by (simp add: step fl Let_def)
      have "send_rep (?s2 xs) (p1 @ take (nat ?sp) buf)" using xs(2) by (simp add: send_rep_def)
      have "\<exists>ret sock' w' pend' k.
          svz_sock_write_loop ws kicked n (?s2 xs) (drop (nat ?sp) buf) w1 = Some (ret, sock', w')
          \<and> send_rep sock' pend' \<and> wire w' @ pend' = wire w1 @ (p1 @ take (nat ?sp) buf) @ take k (drop (nat ?sp) buf)
          \<and> (ret = 0 \<longrightarrow> k = length (drop (nat ?sp) buf))"
        using False 4 by (intro "1.IH" [OF _ fl refl refl _ _ _ refl xs(1) 1(2) \<open>send_rep (?s2 xs) _\<close> 1(4)]) simp_all
      then
      obtain ret sock' w' pend' k where
        "svz_sock_write_loop ws kicked n (?s2 xs) (drop (nat ?sp) buf) w1 = Some (ret, sock', w')"
        "send_rep sock' pend'" "wire w' @ pend' = wire w1 @ (p1 @ take (nat ?sp) buf) @ take k (drop (nat ?sp) buf)"
        "ret = 0 \<longrightarrow> k = length (drop (nat ?sp) buf)" by blast
      then show ?thesis using wire 4 fill unfolding eq
        by (intro exI [of _ pend'] exI [of _ "nat ?sp + k"] exI conjI) (auto simp: take_add)
    qed
  qed
qed

lemma svz_sock_write_stream:
  assumes "posix_send os wire" and "kick_keeps kicked wire" and "send_rep sock pend"
  shows "\<exists>ret sock' w' pend' k.
           svz_sock_write (svz_tcp_write_socket os) kicked sock buf w = Some (ret, sock', w')
           \<and> send_rep sock' pend' \<and> wire w' @ pend' = wire w @ pend @ take k buf
           \<and> (ret = 0 \<longrightarrow> k = (if has_flag sock SVZ_SOFLG_KILLED then 0 else length buf))"
proof (cases "has_flag sock SVZ_SOFLG_KILLED")
  case True
  then show ?thesis using assms by (auto simp: svz_sock_write_def)
next
  case False
  then show ?thesis
    using svz_sock_write_loop_stream [OF tcp_stream_writer [OF assms(1)] assms(3,2)]
    by (auto simp: svz_sock_write_def)
qed

text \<open>
  C14. Writing to a socket whose \<^verbatim>\<open>write_socket\<close> is \<^verbatim>\<open>svz_tcp_write_socket\<close> never touches memory
  outside the send buffer and always returns. What is on the wire followed by what is queued
  grows by a prefix of the given bytes, by all of them when the result is 0: nothing is lost,
  duplicated or reordered, whatever \<^verbatim>\<open>send\<close> accepts per call. On a killed socket nothing happens.
\<close>

theorem sock_write_stream:
  assumes "posix_send os wire" and "kick_keeps kicked wire" and "send_rep sock pend"
  shows "\<exists>ret sock' w' pend' k.
           svz_sock_write (svz_tcp_write_socket os) kicked sock buf w = Some (ret, sock', w')
           \<and> send_rep sock' pend' \<and> wire w' @ pend' = wire w @ pend @ take k buf
           \<and> (ret = 0 \<longrightarrow> k = (if has_flag sock SVZ_SOFLG_KILLED then 0 else length buf))"
  using assms by (rule svz_sock_write_stream)

text \<open>A world that is the wire and a \<^verbatim>\<open>send\<close> that takes at most three bytes a call.\<close>

definition slow_os :: "mem os" where
  "slow_os = \<lparr>os_send = (\<lambda>fd bytes w. (int (length (take 3 bytes)), w @ take 3 bytes)),
     os_recv = (\<lambda>fd n w. ((int (min n 2), replicate (min n 2) 65), w)), os_time = (\<lambda>w. 7),
     os_unavailable = (\<lambda>w. False), os_recv_oob = (\<lambda>fd w. ((0, 0), w)), os_send_oob = (\<lambda>fd b w. (1, w)),
     os_getpeername = (\<lambda>fd w. None), os_getsockname = (\<lambda>fd w. None)\<rparr>"

lemma posix_send_slow_os: "posix_send slow_os id"
  by (auto simp: posix_send_def slow_os_def min_def)

lemma kick_keeps_None [simp]: "kick_keeps None wire"
  by (simp add: kick_keeps_def kick_def)

theorem sock_write_stream_witness:
  "\<exists>ret sock' w' pend' k.
     svz_sock_write (svz_tcp_write_socket slow_os) None (set_flag SVZ_SOFLG_CONNECTED (svz_sock_alloc 0)) [1, 2, 3] [9]
       = Some (ret, sock', w')
     \<and> send_rep sock' pend' \<and> id w' @ pend' = id [9] @ [] @ take k [1, 2, 3]
     \<and> (ret = 0 \<longrightarrow> k = (if has_flag (set_flag SVZ_SOFLG_CONNECTED (svz_sock_alloc 0)) SVZ_SOFLG_KILLED then 0
                          else length [1, 2, 3 :: byte]))"
  using svz_sock_alloc_rep by (intro sock_write_stream posix_send_slow_os) simp_all

lemma svz_sock_printf_text:
  "svz_sock_printf ws kicked sock txt junk w =
     svz_sock_write ws kicked sock
       (if length txt < VSNPRINTF_BUF_SIZE then txt else take (VSNPRINTF_BUF_SIZE - 1) txt @ [0]) w"
proof -
  have "take 2048 (take 2047 txt @ 0 # junk) = take 2047 txt @ [0]" if "length txt \<ge> 2048"
    using that by simp
  moreover have "take (length txt) (take 2048 (take 2047 txt @ 0 # junk)) = txt" if "length txt < 2048"
    using that by simp
  ultimately show ?thesis
    by (auto simp: svz_sock_printf_def VSNPRINTF_BUF_SIZE_def Let_def svz_sock_write_def)
qed

text \<open>
  \<^verbatim>\<open>svz_sock_printf\<close> writes texts of up to 2047 bytes as they are. Of a longer text it writes
  the first 2047 bytes and the NUL terminator that \<^verbatim>\<open>vsnprintf\<close> put at the end of the buffer:
  the peer gets a NUL byte that is not part of the text.
\<close>

theorem sock_printf_truncates:
  "svz_sock_printf ws kicked sock txt junk w =
     svz_sock_write ws kicked sock
       (if length txt < VSNPRINTF_BUF_SIZE then txt else take (VSNPRINTF_BUF_SIZE - 1) txt @ [0]) w"
  by (rule svz_sock_printf_text)

subsection \<open>The incoming stream\<close>

text \<open>
  What the code relies on of \<^verbatim>\<open>recv (2)\<close>: a positive result is the number of bytes stored and at
  most the number asked for.
\<close>

definition posix_recv :: "'w os \<Rightarrow> bool" where
  "posix_recv os \<longleftrightarrow>
     (\<forall>fd n w. fst (fst (os_recv os fd n w)) \<le> int n
        \<and> (0 < fst (fst (os_recv os fd n w)) \<longrightarrow>
             length (snd (fst (os_recv os fd n w))) = nat (fst (fst (os_recv os fd n w)))))"

text \<open>
  Reading from a TCP socket with room in its receive buffer: when \<^verbatim>\<open>recv\<close> delivers bytes and the
  flood limit is not exceeded, they are appended to the buffered bytes inside the buffer, and the
  request checker runs on the result; an exceeded flood limit or an end of file gives -1 and a
  temporary error 0, with the buffered bytes unchanged.
\<close>

theorem tcp_read_appends:
  assumes "posix_recv os" and "recv_rep sock got" and "length got < nat (sk_recv_buffer_size sock)"
    and "os_recv os (sk_sock_desc sock) (nat (sk_recv_buffer_size sock) - length got) w = ((n, bytes), w1)"
    and "sk_check_request sock \<noteq> CR_NULL"
  shows "if n < 0 then svz_tcp_read_socket os cr None sock w = Some (if os_unavailable os w1 then 0 else -1, sock, w1)
         else if n = 0 then svz_tcp_read_socket os cr None sock w = Some (-1, sock, w1)
         else if \<not> has_flag sock SVZ_SOFLG_NOFLOOD \<and> sk_flood_points sock + 1 + n div 50 > sk_flood_limit sock
         then \<exists>sock'. svz_tcp_read_socket os cr None sock w = Some (-1, sock', w1) \<and> recv_rep sock' got
         else \<exists>sock'. svz_tcp_read_socket os cr None sock w = cr sock' w1 \<and> recv_rep sock' (got @ bytes)
                    \<and> sk_boundary sock' = sk_boundary sock \<and> sk_boundary_size sock' = sk_boundary_size sock"
proof -
  have b: "buf_rep (sk_recv_buffer sock) (sk_recv_buffer_size sock) (sk_recv_buffer_fill sock) got"
    using assms(2) by (simp add: recv_rep_def)
  have fill: "sk_recv_buffer_fill sock = int (length got)" using buf_rep_length [OF b] by auto
  let ?d = "nat (sk_recv_buffer_size sock - sk_recv_buffer_fill sock)"
  have d: "?d = nat (sk_recv_buffer_size sock) - length got" "0 < sk_recv_buffer_size sock - sk_recv_buffer_fill sock"
    using fill assms(3) by linarith+
  note rcv = assms(4) [folded d(1)]
  have n: "n \<le> int ?d" "0 < n \<Longrightarrow> length bytes = nat n"
    using assms(1) rcv unfolding posix_recv_def by (metis fst_conv, metis fst_conv snd_conv)
  have pos: "\<exists>xs. buf_write (sk_recv_buffer sock) (sk_recv_buffer_fill sock) bytes = Some xs
      \<and> buf_rep (Some xs) (sk_recv_buffer_size sock) (sk_recv_buffer_fill sock + n) (got @ bytes)" if "0 < n"
    using buf_write_rep [OF b, of bytes] n that fill d by auto
  have keep: "buf_rep (Some xs) sz (f + n) (vs @ bytes) \<Longrightarrow> f = int (length vs) \<Longrightarrow> buf_rep (Some xs) sz f vs" for xs sz f vs
    using holds_take [of xs "vs @ bytes" "length vs"] by (auto simp: buf_rep_def)
  show ?thesis
  proof (cases "0 < n")
    case False
    then show ?thesis using d(2) rcv by (auto simp: svz_tcp_read_socket_def Let_def)
  next
    case True
    then obtain xs where xs: "buf_write (sk_recv_buffer sock) (sk_recv_buffer_fill sock) bytes = Some xs"
        "buf_rep (Some xs) (sk_recv_buffer_size sock) (sk_recv_buffer_fill sock + n) (got @ bytes)"
      using pos by blast
    have sgn: "sgn n * (\<bar>n\<bar> div 50) = n div 50" using True by simp
    show ?thesis using True d(2) rcv xs keep [OF xs(2) fill] assms(5)
      by (auto simp: svz_tcp_read_socket_def Let_def svz_sock_flood_protect_def kick_def recv_rep_def sgn has_flag_def)
  qed
qed

lemma posix_recv_slow_os: "posix_recv slow_os"
  by (auto simp: posix_recv_def slow_os_def)

theorem tcp_read_appends_witness:
  "\<exists>sock'. svz_tcp_read_socket slow_os (\<lambda>s w. Some (0, s, w)) None (svz_sock_alloc 0) [] = Some (0, sock', [])
      \<and> recv_rep sock' ([] @ [65, 65])"
proof -
  have "os_recv slow_os (sk_sock_desc (svz_sock_alloc 0)) (nat (sk_recv_buffer_size (svz_sock_alloc 0)) - length ([] :: mem)) []
      = ((2, [65, 65]), [])"
    by (simp add: slow_os_def svz_sock_alloc_def RECV_BUF_SIZE_def numeral_eq_Suc)
  from tcp_read_appends [OF posix_recv_slow_os svz_sock_alloc_rep [THEN conjunct2] _ this, of "\<lambda>s w. Some (0, s, w)"]
  show ?thesis by (auto simp: svz_sock_alloc_def RECV_BUF_SIZE_def has_flag_def soflg_defs)
qed

subsection \<open>Packets\<close>

text \<open>The first occurrence of a boundary, and the packets a byte string splits into.\<close>

fun find_boundary :: "mem \<Rightarrow> mem \<Rightarrow> nat option" where
  "find_boundary b [] = None"
| "find_boundary b (x # xs) =
     (if take (length b) (x # xs) = b then Some 0 else map_option Suc (find_boundary b xs))"

lemma find_boundary_Some:
  "find_boundary b xs = Some i \<Longrightarrow>
     i < length xs \<and> take (length b) (drop i xs) = b \<and> (\<forall>j < i. take (length b) (drop j xs) \<noteq> b)"
proof (induction b xs arbitrary: i rule: find_boundary.induct)
  case (2 b x xs)
  then show ?case
    by (cases "take (length b) (x # xs) = b") (auto simp: less_Suc_eq_0_disj)
qed simp

lemma find_boundary_None:
  "b \<noteq> [] \<Longrightarrow> find_boundary b xs = None \<Longrightarrow> take (length b) (drop j xs) \<noteq> b"
proof (induction b xs arbitrary: j rule: find_boundary.induct)
  case (2 b x xs)
  then show ?case by (cases j) (auto split: if_splits)
qed simp

lemma find_boundary_bound: "find_boundary b xs = Some i \<Longrightarrow> i + length b \<le> length xs"
proof -
  assume a: "find_boundary b xs = Some i"
  then have "length (take (length b) (drop i xs)) = length b" using find_boundary_Some by metis
  then have "length b \<le> length xs - i" by (simp only: length_take length_drop min_def split: if_splits)
  then show ?thesis using find_boundary_Some [OF a] by linarith
qed

lemma find_boundary_SomeI:
  assumes "b \<noteq> []" "take (length b) (drop i xs) = b" "\<forall>j < i. take (length b) (drop j xs) \<noteq> b"
  shows "find_boundary b xs = Some i"
proof (cases "find_boundary b xs")
  case None
  then show ?thesis using find_boundary_None [OF assms(1) None] assms(2) by blast
next
  case (Some k)
  then show ?thesis using find_boundary_Some [OF Some] assms by (metis linorder_neqE_nat)
qed

function packets :: "mem \<Rightarrow> mem \<Rightarrow> mem list \<times> mem" where
  "packets b xs =
     (if b = [] then ([], xs)
      else case find_boundary b xs of
             None \<Rightarrow> ([], xs)
           | Some i \<Rightarrow> (let (ps, r) = packets b (drop (i + length b) xs)
                        in (take (i + length b) xs # ps, r)))"
  by pat_completeness auto
termination
proof (relation "measure (\<lambda>(b, xs). length xs)", goal_cases)
  case (2 b xs i)
  then show ?case using find_boundary_Some [of b xs i] by (cases xs) auto
qed simp

declare packets.simps [simp del]

lemma packets_None: "find_boundary b xs = None \<Longrightarrow> packets b xs = ([], xs)"
  by (subst packets.simps) simp

lemma packets_Some:
  "b \<noteq> [] \<Longrightarrow> find_boundary b xs = Some i \<Longrightarrow>
   packets b xs = (take (i + length b) xs # fst (packets b (drop (i + length b) xs)), snd (packets b (drop (i + length b) xs)))"
  by (subst packets.simps) (simp add: case_prod_beta)

lemma packets_concat: "concat (fst (packets b xs)) @ snd (packets b xs) = xs"
proof (induction b xs rule: packets.induct)
  case (1 b xs)
  show ?case
  proof (cases "b = [] \<or> find_boundary b xs = None")
    case True
    then show ?thesis by (subst (1 2) packets.simps) auto
  next
    case False
    then obtain i where i: "find_boundary b xs = Some i" by auto
    then show ?thesis using 1 [of i] False by (simp add: packets_Some)
  qed
qed

text \<open>Splitting more input later gives the packets of the whole input.\<close>

lemma find_boundary_append:
  assumes "b \<noteq> []" "find_boundary b xs = Some i"
  shows "find_boundary b (xs @ ys) = Some i"
proof (rule find_boundary_SomeI [OF assms(1)])
  note i = find_boundary_Some [OF assms(2)] and bd = find_boundary_bound [OF assms(2)]
  show "take (length b) (drop i (xs @ ys)) = b" using i bd by simp
  have "take (length b) (drop j (xs @ ys)) = take (length b) (drop j xs)" if "j < i" for j
    using that bd by simp
  then show "\<forall>j < i. take (length b) (drop j (xs @ ys)) \<noteq> b"
    using i by (simp del: take_append drop_append)
qed

lemma packets_append:
  "packets b (xs @ ys) = (fst (packets b xs) @ fst (packets b (snd (packets b xs) @ ys)),
                          snd (packets b (snd (packets b xs) @ ys)))"
proof (induction b xs rule: packets.induct)
  case (1 b xs)
  show ?case
  proof (cases "b = [] \<or> find_boundary b xs = None")
    case True
    then have "packets b xs = ([], xs)" by (subst packets.simps) auto
    then show ?thesis by simp
  next
    case False
    then obtain i where i: "find_boundary b xs = Some i" by auto
    have le: "i + length b \<le> length xs" by (rule find_boundary_bound [OF i])
    show ?thesis using False 1 [of i] le i packets_Some [OF _ i]
        packets_Some [OF _ find_boundary_append [OF _ i], of ys] by simp
  qed
qed

lemma packets_shape:
  assumes "b \<noteq> []"
  shows "(\<forall>p \<in> set (fst (packets b xs)). \<exists>q. p = q @ b \<and> find_boundary b p = Some (length q))
         \<and> find_boundary b (snd (packets b xs)) = None"
  using assms
proof (induction b xs rule: packets.induct)
  case (1 b xs)
  show ?case
  proof (cases "find_boundary b xs")
    case None
    then show ?thesis by (simp add: packets_None)
  next
    case (Some i)
    note bd = find_boundary_bound [OF Some] and at = find_boundary_Some [OF Some]
    let ?p = "take (i + length b) xs"
    have "?p = take i xs @ b" using at by (simp add: take_add)
    moreover have "find_boundary b ?p = Some i"
    proof (rule find_boundary_SomeI [OF 1(2)])
      show "take (length b) (drop i ?p) = b" using at bd by (simp add: drop_take)
      have "take (length b) (drop j ?p) = take (length b) (drop j xs)" if "j < i" for j
        using that by (simp add: drop_take)
      then show "\<forall>j < i. take (length b) (drop j ?p) \<noteq> b" using at by simp
    qed
    moreover have "length (take i xs) = i" using bd by simp
    ultimately show ?thesis using 1(1) [OF 1(2) Some 1(2)] packets_Some [OF 1(2) Some] by auto
  qed
qed

subsection \<open>Request handlers\<close>

text \<open>
  The part of a socket that the splitting loops read. The contract of a \<^verbatim>\<open>handle_request\<close>
  callback is to leave it alone; running the handler over a list of packets stops at the
  first non-zero result.
\<close>

definition recv_view :: "svz_socket \<Rightarrow> byte cell list option \<times> int \<times> int \<times> mem option \<times> int" where
  "recv_view sock = (sk_recv_buffer sock, sk_recv_buffer_size sock, sk_recv_buffer_fill sock,
                     sk_boundary sock, sk_boundary_size sock)"

fun run_handlers :: "'w handler \<Rightarrow> mem list \<Rightarrow> svz_socket \<Rightarrow> 'w \<Rightarrow> (int \<times> svz_socket \<times> 'w) option" where
  "run_handlers hr [] sock w = Some (0, sock, w)"
| "run_handlers hr (p # ps) sock w = do {
     (ret, sock, w) \<leftarrow> hr sock p w;
     if ret \<noteq> 0 then Some (-1, sock, w) else run_handlers hr ps sock w
   }"

definition handle_all :: "'w handler \<Rightarrow> mem list \<Rightarrow> int \<Rightarrow> svz_socket \<Rightarrow> 'w \<Rightarrow> (int \<times> svz_socket \<times> 'w) option" where
  "handle_all hr ps len sock w = do {
     (ret, sock, w) \<leftarrow> run_handlers hr ps sock w;
     if ret \<noteq> 0 then Some (ret, sock, w)
     else do { sock \<leftarrow> svz_sock_reduce_recv sock len; Some (0, sock, w) }
   }"

lemma handle_all_Nil: "handle_all hr [] len sock w = do { sock \<leftarrow> svz_sock_reduce_recv sock len; Some (0, sock, w) }"
  by (simp add: handle_all_def)

lemma handle_all_Cons:
  "handle_all hr (p # ps) len sock w = do {
     (ret, sock, w) \<leftarrow> hr sock p w;
     if ret \<noteq> 0 then Some (-1, sock, w) else handle_all hr ps len sock w
   }"
  by (cases "hr sock p w") (auto simp: handle_all_def)

lemma recv_view_rep: "recv_view s = recv_view sock \<Longrightarrow> recv_rep s = recv_rep sock"
  by (auto simp: recv_view_def recv_rep_def fun_eq_iff)

text \<open>A comparison of the loops decides whether the boundary stands at an offset.\<close>

definition cmp_ok :: "(svz_socket \<Rightarrow> int \<Rightarrow> int option) \<Rightarrow> svz_socket \<Rightarrow> mem \<Rightarrow> mem \<Rightarrow> bool" where
  "cmp_ok cmp sock b got \<longleftrightarrow>
     (\<forall>q. q + length b \<le> length got \<longrightarrow>
        (\<exists>c. cmp sock (int q) = Some c \<and> (c = 0 \<longleftrightarrow> take (length b) (drop q got) = b)))"

lemma cmp_boundary_ok:
  assumes "recv_rep sock got" "sk_boundary sock = Some b" "sk_boundary_size sock = int (length b)"
  shows "cmp_ok cmp_boundary sock b got"
  unfolding cmp_ok_def
proof (intro allI impI)
  fix q assume q: "q + length b \<le> length got"
  have "buf_read (sk_recv_buffer sock) (int q) (int (length b)) = Some (take (length b) (drop q got))"
    using buf_read_rep [of _ _ _ got "int q" "int (length b)"] assms(1) q by (auto simp: recv_rep_def)
  then show "\<exists>c. cmp_boundary sock (int q) = Some c \<and> (c = 0 \<longleftrightarrow> take (length b) (drop q got) = b)"
    using q assms(2,3) by (simp add: cmp_boundary_def memcmp_eq_0)
qed

lemma cmp_byte_ok:
  assumes "recv_rep sock got" "sk_boundary sock = Some [x]"
  shows "cmp_ok cmp_byte sock [x] got"
  unfolding cmp_ok_def
proof (intro allI impI)
  fix q assume q: "q + length [x] \<le> length got"
  have "buf_read (sk_recv_buffer sock) (int q) 1 = Some (take 1 (drop q got))"
    using buf_read_rep [of _ _ _ got "int q" 1] assms(1) q by (auto simp: recv_rep_def)
  then show "\<exists>c. cmp_byte sock (int q) = Some c \<and> (c = 0 \<longleftrightarrow> take (length [x]) (drop q got) = [x])"
    using q assms(2) memcmp_eq_0 [of 1 "take 1 (drop q got)" "[x]"] by (simp add: cmp_byte_def)
qed

lemma scan_boundary_spec:
  assumes "cmp_ok cmp sock b got" "b \<noteq> []"
  shows "scan_boundary cmp sock (int (length got) - int (length b) + 1) (int p) =
           Some (case find_boundary b (drop p got) of
                   Some i \<Rightarrow> int (p + i)
                 | None \<Rightarrow> max (int p) (int (length got) - int (length b) + 1))"
proof (induction "length got - p" arbitrary: p rule: less_induct)
  case less
  show ?case
  proof (cases "p + length b \<le> length got")
    case False
    moreover have "0 < length b" using assms(2) by simp
    ultimately have "length (drop p got) < length b" unfolding length_drop by linarith
    then have "find_boundary b (drop p got) = None"
      using find_boundary_bound [of b "drop p got"] by (cases "find_boundary b (drop p got)") auto
    then show ?thesis using False by (subst scan_boundary.simps) auto
  next
    case True
    then obtain c where c: "cmp sock (int p) = Some c" "c = 0 \<longleftrightarrow> take (length b) (drop p got) = b"
      using assms(1) unfolding cmp_ok_def by blast
    have lt: "p < length got" using True assms(2) by (cases b) auto
    then have dr: "drop p got = got ! p # drop (Suc p) got" by (rule Cons_nth_drop_Suc [symmetric])
    have fb: "find_boundary b (drop p got) = (if c = 0 then Some 0 else map_option Suc (find_boundary b (drop (Suc p) got)))"
      using c(2) by (simp add: dr)
    have "scan_boundary cmp sock (int (length got) - int (length b) + 1) (int p) =
        (if c \<noteq> 0 then scan_boundary cmp sock (int (length got) - int (length b) + 1) (int (Suc p)) else Some (int p))"
      using True c(1) by (subst scan_boundary.simps) (simp add: add.commute)
    then show ?thesis using less [of "Suc p"] lt fb True
      by (auto split: option.splits)
  qed
qed

text \<open>The packets of the fixed-size loop: it stops when no more than one packet is left.\<close>

function fixed_packets :: "nat \<Rightarrow> mem \<Rightarrow> mem list" where
  "fixed_packets n xs =
     (if 0 < n \<and> n < length xs then take n xs # fixed_packets n (drop n xs) else [])"
  by pat_completeness auto
termination
  by (relation "measure (\<lambda>(n, xs). length xs)") auto

declare fixed_packets.simps [simp del]

lemma concat_fixed_packets:
  "\<exists>r. concat (fixed_packets n xs) @ r = xs \<and> (0 < n \<longrightarrow> length r \<le> n)
     \<and> length (concat (fixed_packets n xs)) = n * length (fixed_packets n xs)"
proof (induction n xs rule: fixed_packets.induct)
  case (1 n xs)
  show ?case
  proof (cases "0 < n \<and> n < length xs")
    case True
    then obtain r where "concat (fixed_packets n (drop n xs)) @ r = drop n xs" "length r \<le> n"
        "length (concat (fixed_packets n (drop n xs))) = n * length (fixed_packets n (drop n xs))" using 1 by auto
    moreover have "fixed_packets n xs = take n xs # fixed_packets n (drop n xs)"
      using True by (subst fixed_packets.simps) simp
    ultimately show ?thesis using True by (intro exI [of _ r]) auto
  next
    case False
    then have "fixed_packets n xs = []" by (subst fixed_packets.simps) simp
    then show ?thesis using False by auto
  qed
qed

lemma split_loop_found:
  assumes "scan_boundary cmp sock e p = Some m" "m < e" "cmp sock m = Some 0" "m + stepf sock = q"
    "buf_read (sk_recv_buffer sock) p (q - p) = Some bytes"
  shows "split_loop cmp stepf (Some hr) e sock w p p p = do {
           (ret, s, w') \<leftarrow> hr sock bytes w;
           if ret \<noteq> 0 then Some (-1, s, w')
           else if q < e then split_loop cmp stepf (Some hr) e s w' q q q
           else do { s \<leftarrow> svz_sock_reduce_recv s q; Some (0, s, w') } }"
  using assms by (subst split_loop.simps) (simp add: dispatch_def Let_def)

locale packet_handler =
  fixes hr :: "'w handler"
  assumes keeps: "hr sock bytes w = Some (ret, sock', w') \<Longrightarrow> recv_view sock' = recv_view sock"
begin

lemma split_loop_spec:
  assumes "\<And>s. recv_view s = recv_view sock0 \<Longrightarrow> cmp_ok cmp s b got \<and> stepf s = int (length b)"
    and "b \<noteq> []" "recv_rep sock0 got" "recv_view sock = recv_view sock0" "p \<le> length got"
  shows "split_loop cmp stepf (Some hr) (int (length got) - int (length b) + 1) sock w (int p) (int p) (int p) =
           handle_all hr (fst (packets b (drop p got)))
             (int (length got) - int (length (snd (packets b (drop p got))))) sock w"
  using assms(4,5)
proof (induction "length got - p" arbitrary: p sock w rule: less_induct)
  case less
  let ?e = "int (length got) - int (length b) + 1"
  have ok: "cmp_ok cmp sock b got" and st: "stepf sock = int (length b)" using assms(1) [OF less.prems(1)] by auto
  note scan = scan_boundary_spec [OF ok assms(2), of p]
  show ?case
  proof (cases "find_boundary b (drop p got)")
    case None
    have "int (length got) - int (length (drop p got)) = int p" using less.prems(2) by auto
    moreover have "split_loop cmp stepf (Some hr) ?e sock w (int p) (int p) (int p)
        = do { sock \<leftarrow> svz_sock_reduce_recv sock (int p); Some (0, sock, w) }"
      by (subst split_loop.simps) (simp add: scan None)
    ultimately show ?thesis using None by (simp add: packets_None handle_all_Nil)
  next
    case (Some i)
    let ?q = "p + i + length b"
    have bd: "?q \<le> length got" using find_boundary_bound [OF Some] less.prems(2) by simp
    have at: "take (length b) (drop (p + i) got) = b" using find_boundary_Some [OF Some] by (simp add: add.commute)
    obtain c where c: "cmp sock (int (p + i)) = Some c" "c = 0" using ok bd at unfolding cmp_ok_def by blast
    have rep: "buf_rep (sk_recv_buffer sock) (sk_recv_buffer_size sock) (sk_recv_buffer_fill sock) got"
      using assms(3) recv_view_rep [OF less.prems(1)] unfolding recv_rep_def by metis
    have rd: "buf_read (sk_recv_buffer sock) (int p) (int (i + length b)) = Some (take (i + length b) (drop p got))"
      using buf_read_rep [OF rep, of "int p" "int (i + length b)"] bd by (simp add: nat_int_add)
    have lt: "length got - ?q < length got - p" using assms(2) bd by (cases b) auto
    have dr: "drop (i + length b) (drop p got) = drop ?q got" by (simp add: add.commute add.left_commute)
    have rest: "(if int ?q < ?e then split_loop cmp stepf (Some hr) ?e s w' (int ?q) (int ?q) (int ?q)
                 else do { s \<leftarrow> svz_sock_reduce_recv s (int ?q); Some (0, s, w') })
        = handle_all hr (fst (packets b (drop ?q got))) (int (length got) - int (length (snd (packets b (drop ?q got))))) s w'"
      if "recv_view s = recv_view sock0" for s w'
    proof (cases "int ?q < ?e")
      case True
      then show ?thesis using less.hyps [OF lt that bd] by simp
    next
      case False
      then have "find_boundary b (drop ?q got) = None"
        using find_boundary_bound [of b "drop ?q got"] bd by (cases "find_boundary b (drop ?q got)") auto
      then show ?thesis using False bd by (simp add: packets_None handle_all_Nil add.assoc)
    qed
    have "split_loop cmp stepf (Some hr) ?e sock w (int p) (int p) (int p) = do {
        (ret, s, w') \<leftarrow> hr sock (take (i + length b) (drop p got)) w;
        if ret \<noteq> 0 then Some (-1, s, w')
        else if int ?q < ?e then split_loop cmp stepf (Some hr) ?e s w' (int ?q) (int ?q) (int ?q)
        else do { s \<leftarrow> svz_sock_reduce_recv s (int ?q); Some (0, s, w') } }"
    proof (rule split_loop_found)
      show "scan_boundary cmp sock ?e (int p) = Some (int (p + i))" using scan Some by simp
      show "int (p + i) < ?e" using bd by linarith
      show "cmp sock (int (p + i)) = Some 0" using c by simp
      show "int (p + i) + stepf sock = int ?q" using st by simp
      have "int ?q - int p = int (i + length b)" by simp
      then show "buf_read (sk_recv_buffer sock) (int p) (int ?q - int p) = Some (take (i + length b) (drop p got))"
        using rd by simp
    qed
    also have "\<dots> = handle_all hr (fst (packets b (drop p got))) (int (length got) - int (length (snd (packets b (drop p got))))) sock w"
      unfolding packets_Some [OF assms(2) Some] fst_conv snd_conv handle_all_Cons dr
      using rest less.prems(1) by (cases "hr sock (take (i + length b) (drop p got)) w") (auto dest!: keeps)
    finally show ?thesis .
  qed
qed

lemma split_packet_spec:
  assumes "recv_rep sock got" "sk_boundary sock = Some b" "sk_boundary_size sock = int (length b)" "b \<noteq> []"
  shows "split_packet_and_dispatch (Some hr) sock w =
           handle_all hr (fst (packets b got)) (int (length got) - int (length (snd (packets b got)))) sock w"
proof -
  have "cmp_ok cmp_boundary s b got \<and> sk_boundary_size s = int (length b)" if "recv_view s = recv_view sock" for s
    using cmp_boundary_ok [of s got b] recv_view_rep [OF that] that assms by (auto simp: recv_view_def)
  from split_loop_spec [OF this assms(4,1) refl, of 0 w] assms show ?thesis
    by (auto simp: split_packet_and_dispatch_def recv_rep_def dest: buf_rep_length)
qed

lemma split_packet_unibyte_spec:
  assumes "recv_rep sock got" "sk_boundary sock = Some [x]"
  shows "split_packet_unibyte_and_dispatch (Some hr) sock w =
           handle_all hr (fst (packets [x] got)) (int (length got) - int (length (snd (packets [x] got)))) sock w"
proof -
  have "cmp_ok cmp_byte s [x] got \<and> (1 :: int) = int (length [x])" if "recv_view s = recv_view sock" for s
    using cmp_byte_ok [of s got x] recv_view_rep [OF that] that assms by (auto simp: recv_view_def)
  from split_loop_spec [OF this _ assms(1) refl, of 0 w] assms show ?thesis
    by (auto simp: split_packet_unibyte_and_dispatch_def recv_rep_def dest: buf_rep_length)
qed

lemma run_handlers_view:
  "run_handlers hr ps sock w = Some (ret, sock', w') \<Longrightarrow> recv_view sock' = recv_view sock \<and> (ret = 0 \<or> ret = -1)"
proof (induction ps arbitrary: sock w)
  case (Cons p ps)
  then show ?case by (auto split: if_splits dest!: keeps)
qed simp

lemma handle_all_rest:
  assumes "recv_rep sock got" "concat ps @ r = got"
    "handle_all hr ps (int (length got) - int (length r)) sock w = Some (ret, sock', w')"
  shows "ret = 0 \<and> recv_rep sock' r \<or> ret = -1 \<and> recv_rep sock' got"
proof -
  obtain ret1 s w1 where run: "run_handlers hr ps sock w = Some (ret1, s, w1)"
    using assms(3) by (auto simp: handle_all_def)
  have rep: "recv_rep s got" using recv_view_rep assms(1) run_handlers_view [OF run] by metis
  show ?thesis
  proof (cases "ret1 = 0")
    case False
    then show ?thesis using run_handlers_view [OF run] assms(3) rep run by (simp add: handle_all_def)
  next
    case True
    let ?n = "int (length got) - int (length r)"
    have n: "0 \<le> ?n" "?n \<le> int (length got)" "drop (nat ?n) got = r" using assms(2) by auto
    obtain xs where "svz_sock_reduce_recv s ?n = Some (s\<lparr>sk_recv_buffer := Some xs, sk_recv_buffer_fill := sk_recv_buffer_fill s - ?n\<rparr>)"
      "buf_rep (Some xs) (sk_recv_buffer_size s) (sk_recv_buffer_fill s - ?n) r"
      using svz_sock_reduce_recv_rep [OF rep n(1,2)] n(3) by auto
    then show ?thesis using True assms(3) run by (auto simp: handle_all_def recv_rep_def)
  qed
qed

lemma fixed_loop_spec:
  assumes "recv_rep sock0 got" "sk_boundary_size sock0 = int n" "0 < n" "recv_view sock = recv_view sock0" "p \<le> length got"
  shows "fixed_loop (Some hr) (int (length got)) sock w (int p) (int p) (int p) =
           handle_all hr (fixed_packets n (drop p got)) (int p + int (length (concat (fixed_packets n (drop p got))))) sock w"
  using assms(4,5)
proof (induction "length got - p" arbitrary: p sock w rule: less_induct)
  case less
  have sz: "sk_boundary_size sock = int n" using assms(2) less.prems(1) by (simp add: recv_view_def)
  show ?case
  proof (cases "p + n < length got")
    case False
    then have "fixed_packets n (drop p got) = []" by (subst fixed_packets.simps) auto
    then show ?thesis using False sz by (subst fixed_loop.simps) (simp add: handle_all_Nil)
  next
    case True
    let ?q = "p + n"
    have fp: "fixed_packets n (drop p got) = take n (drop p got) # fixed_packets n (drop ?q got)"
      using True assms(3) by (subst fixed_packets.simps) (auto simp: add.commute)
    have rep: "buf_rep (sk_recv_buffer sock) (sk_recv_buffer_size sock) (sk_recv_buffer_fill sock) got"
      using assms(1) recv_view_rep [OF less.prems(1)] unfolding recv_rep_def by metis
    have rd: "buf_read (sk_recv_buffer sock) (int p) (int n) = Some (take n (drop p got))"
      using buf_read_rep [OF rep, of "int p" "int n"] True by simp
    have len: "int p + int (length (concat (fixed_packets n (drop p got))))
        = int ?q + int (length (concat (fixed_packets n (drop ?q got))))" using True by (simp add: fp)
    have "fixed_loop (Some hr) (int (length got)) sock w (int p) (int p) (int p) = do {
        (ret, s, w') \<leftarrow> hr sock (take n (drop p got)) w;
        if ret \<noteq> 0 then Some (-1, s, w')
        else fixed_loop (Some hr) (int (length got)) s w' (int ?q) (int ?q) (int ?q) }"
      using True sz rd by (subst fixed_loop.simps) (simp add: dispatch_def Let_def cong: if_cong)
    also have "\<dots> = handle_all hr (fixed_packets n (drop p got)) (int p + int (length (concat (fixed_packets n (drop p got))))) sock w"
      unfolding len unfolding fp handle_all_Cons
      using less.hyps [of ?q] less.prems True assms(3)
      by (cases "hr sock (take n (drop p got)) w") (auto dest!: keeps)
    finally show ?thesis .
  qed
qed

lemma split_fixed_spec:
  assumes "recv_rep sock got" "sk_boundary_size sock = int n" "0 < n"
  shows "split_packet_fixed_and_dispatch (Some hr) sock w =
           handle_all hr (fixed_packets n got) (int (length (concat (fixed_packets n got)))) sock w"
  using fixed_loop_spec [OF assms refl, of 0 w] assms(1)
  by (auto simp: split_packet_fixed_and_dispatch_def recv_rep_def dest: buf_rep_length)

end

subsection \<open>Prefree callbacks\<close>

lemma prefree_remove_spec:
  "handle_inv h \<Longrightarrow> i \<le> length (handle_vals h) \<Longrightarrow>
   \<exists>h'. prefree_remove h fn i = Some h' \<and> handle_inv h'
     \<and> handle_vals h' = take i (handle_vals h) @ filter (\<lambda>v. v \<noteq> Some fn) (drop i (handle_vals h))"
proof (induction h fn i rule: prefree_remove.induct)
  case (1 h fn i)
  note inv = 1(3)
  show ?case
  proof (cases "i < length (handle_vals h)")
    case False
    then show ?thesis using 1(3,4) arr.vsize [OF inv] by (subst prefree_remove.simps) simp
  next
    case True
    then have sz: "i < svz_array_size h" and get: "svz_array_get h i = Some (handle_vals h ! i)"
      using arr.vsize [OF inv] arr.vget [OF inv] by simp_all
    have dr: "drop i (handle_vals h) = handle_vals h ! i # drop (Suc i) (handle_vals h)"
      using Cons_nth_drop_Suc [OF True] by simp
    show ?thesis
    proof (cases "handle_vals h ! i = Some fn")
      case eq: True
      obtain h1 where d: "svz_array_del h i = Some (handle_vals h ! i, h1)" "handle_inv h1"
          "handle_vals h1 = take i (handle_vals h) @ drop (Suc i) (handle_vals h)"
        using arr.vdel [OF inv True] by blast
      have "prefree_remove h fn i = prefree_remove h1 fn i"
        using sz get eq d(1) by (subst prefree_remove.simps) simp
      then show ?thesis using 1(1) [OF sz get eq d(1) refl d(2)] d(3) True dr eq by (simp add: min_def)
    next
      case ne: False
      have "prefree_remove h fn i = prefree_remove h fn (Suc i)"
        using sz get ne by (subst prefree_remove.simps) simp
      then show ?thesis using 1(2) [OF sz get ne inv] True dr ne by (simp add: take_Suc_conv_app_nth)
    qed
  qed
qed

lemma free_loop_spec: "handle_inv h \<Longrightarrow> n \<le> length (handle_vals h) \<Longrightarrow> free_loop h n = Some (rev (take n (handle_vals h)))"
  by (induction n) (simp_all add: arr.vget take_Suc_conv_app_nth)

lemma svz_sock_free_spec: "handle_inv h \<Longrightarrow> svz_sock_free h = Some (rev (handle_vals h))"
  using free_loop_spec [OF _ order_refl, of h] by (simp add: svz_sock_free_def arr.vsize)

lemma prefree_create: "handle_inv (Some (svz_array_create 1 False))" "handle_vals (Some (svz_array_create 1 False)) = []"
  by (simp_all add: svz_array_create_def array_inv_def array_vals_def rd_range_def)

text \<open>
  Registering a prefree callback appends it, unregistering removes every registration of it and
  keeps the others in order, and freeing a socket runs the registered callbacks, the last
  registered first; the first call ever creates the list.
\<close>

theorem prefree_lifecycle:
  assumes "h = None \<or> handle_inv h"
  shows "(\<exists>h'. svz_sock_prefree h 1 fn = Some h' \<and> handle_inv h' \<and> handle_vals h' = handle_vals h @ [Some fn]
            \<and> svz_sock_free h' = Some (Some fn # rev (handle_vals h)))
         \<and> (\<exists>h'. svz_sock_prefree h 0 fn = Some h' \<and> handle_inv h' \<and> handle_vals h' = filter (\<lambda>v. v \<noteq> Some fn) (handle_vals h)
            \<and> svz_sock_free h' = Some (rev (filter (\<lambda>v. v \<noteq> Some fn) (handle_vals h))))"
proof -
  let ?h = "if h = None then Some (svz_array_create 1 False) else h"
  have inv: "handle_inv ?h" and vals: "handle_vals ?h = handle_vals h"
    using assms prefree_create by auto
  show ?thesis
    using arr.vadd [OF inv, of "Some fn"] prefree_remove_spec [OF inv, of 0 fn] vals
    by (auto simp: svz_sock_prefree_def Let_def svz_sock_free_spec)
qed

theorem prefree_lifecycle_witness:
  "\<exists>h'. svz_sock_prefree (None :: nat svz_array option) 1 7 = Some h' \<and> svz_sock_free h' = Some [Some 7]"
  using prefree_lifecycle [of "None :: nat svz_array option" 7] by auto

end
