(* ===== verification/Svz_Util.thy ===== *)
theory Svz_Util
  imports Svz_Prelude
begin

text \<open>
  The conversions of \<^verbatim>\<open>src/libserveez/util.c\<close>: \<^verbatim>\<open>svz_itoa\<close>, \<^verbatim>\<open>svz_atoi\<close>, \<^verbatim>\<open>svz_tolower\<close> and
  \<^verbatim>\<open>svz_hexdump\<close>, and the decimal and hexadecimal conversions of \<^verbatim>\<open>printf\<close> that several parts of the
  program use. Strings are byte lists with their NUL; unsigned ints are 32-bit words.
\<close>

subsection \<open>Conversions of the C library\<close>

text \<open>The text \<^verbatim>\<open>printf\<close> makes of \<^verbatim>\<open>%u\<close> and of \<^verbatim>\<open>%d\<close>.\<close>

fun dec_digits :: "nat \<Rightarrow> mem" where
  "dec_digits n = (if n < 10 then [word_of_nat n + 48] else dec_digits (n div 10) @ [word_of_nat (n mod 10) + 48])"

declare dec_digits.simps [simp del]

definition printf_d :: "int \<Rightarrow> mem" where
  "printf_d i = (if i < 0 then 45 # dec_digits (nat (- i)) else dec_digits (nat i))"

text \<open>A string literal without its NUL.\<close>

definition lit :: "string \<Rightarrow> mem" where
  "lit s = map (\<lambda>c. word_of_nat (of_char c)) s"

definition is_digit :: "byte \<Rightarrow> bool" where
  "is_digit c \<longleftrightarrow> 48 \<le> c \<and> c \<le> 57"

text \<open>\<^verbatim>\<open>isupper\<close> and \<^verbatim>\<open>tolower\<close> in the C locale.\<close>

definition is_upper :: "byte \<Rightarrow> bool" where
  "is_upper c \<longleftrightarrow> 65 \<le> c \<and> c \<le> 90"

definition to_lower :: "byte \<Rightarrow> byte" where
  "to_lower c = (if is_upper c then c + 32 else c)"

subsection \<open>Numbers\<close>

text \<open>
  The loop of \<^verbatim>\<open>svz_itoa\<close> fills its 32-byte static buffer from the end; \<open>p\<close> is the index of the
  next byte to the right.
\<close>

function itoa_loop :: "byte cell list \<Rightarrow> nat \<Rightarrow> u32 \<Rightarrow> (byte cell list \<times> nat) option" where
  "itoa_loop buf p i =
     (if p = 0 then None
      else case wr buf (p - 1) (Cell (ucast (i mod 10) + 48)) of
             None \<Rightarrow> None
           | Some buf' \<Rightarrow> if i div 10 \<noteq> 0 then itoa_loop buf' (p - 1) (i div 10) else Some (buf', p - 1))"
  by pat_completeness auto
termination
  by (relation "measure (\<lambda>(buf, p, i). p)") auto

declare itoa_loop.simps [simp del]

text \<open>The result: the static buffer and the index of the first digit in it.\<close>

definition svz_itoa :: "byte cell list \<Rightarrow> u32 \<Rightarrow> (byte cell list \<times> nat) option" where
  "svz_itoa buffer i = do { buf \<leftarrow> wr buffer 31 (Cell 0); itoa_loop buf 31 i }"

fun atoi_loop :: "mem \<Rightarrow> u32 \<Rightarrow> u32 option" where
  "atoi_loop [] i = None"
| "atoi_loop (c # str) i = (if is_digit c then atoi_loop str (i * 10 + (ucast c - 48)) else Some i)"

definition svz_atoi :: "mem \<Rightarrow> u32 option" where
  "svz_atoi str = atoi_loop str 0"

text \<open>\<^verbatim>\<open>svz_tolower\<close> rewrites a string in place up to its NUL.\<close>

fun svz_tolower :: "mem \<Rightarrow> mem option" where
  "svz_tolower [] = None"
| "svz_tolower (c # str) =
     (if c = 0 then Some (c # str)
      else do { r \<leftarrow> svz_tolower str; Some ((if is_upper c then to_lower c else c) # r) })"

subsection \<open>Hexadecimal dumps\<close>

text \<open>
  A line of the dump: the offset, the sixteen columns (a missing column is printed as blanks) and
  the character column. The text the fields are printed as is left to \<^verbatim>\<open>fprintf\<close>.
\<close>

record dump_line =
  dl_offset :: int
  dl_columns :: "byte option list"
  dl_chars :: mem

definition MAX_DUMP_LINE :: int where "MAX_DUMP_LINE = 16"

definition dump_columns :: "mem \<Rightarrow> int \<Rightarrow> int \<Rightarrow> byte option list option" where
  "dump_columns buffer limit x =
     those (map (\<lambda>col. if x + int col < limit
                       then (if nat (x + int col) < length buffer then Some (Some (buffer ! nat (x + int col))) else None)
                       else Some None) [0..<nat MAX_DUMP_LINE])"

fun dump_chars :: "mem \<Rightarrow> int \<Rightarrow> int \<Rightarrow> nat \<Rightarrow> mem option" where
  "dump_chars buffer limit x 0 = Some []"
| "dump_chars buffer limit x (Suc n) =
     (if x < limit
      then if nat x < length buffer
           then do { r \<leftarrow> dump_chars buffer limit (x + 1) n;
                     Some ((if sint (buffer ! nat x) \<ge> 32 then buffer ! nat x else 46) # r) }
           else None
      else Some [])"

function dump_rows :: "mem \<Rightarrow> int \<Rightarrow> int \<Rightarrow> int \<Rightarrow> int \<Rightarrow> dump_line list option" where
  "dump_rows buffer limit max_col row x =
     (if row < max_col \<and> x < limit
      then do {
        cols \<leftarrow> dump_columns buffer limit x;
        chars \<leftarrow> dump_chars buffer limit x (nat MAX_DUMP_LINE);
        rest \<leftarrow> dump_rows buffer limit max_col (row + 1) (x + int (length chars));
        Some (\<lparr>dl_offset = x, dl_columns = cols, dl_chars = chars\<rparr> # rest)
      }
      else Some [])"
  by pat_completeness auto
termination
  by (relation "measure (\<lambda>(b, l, m, row, x). nat (m - row))") auto

declare dump_rows.simps [simp del]

definition svz_hexdump :: "mem \<Rightarrow> int \<Rightarrow> int \<Rightarrow> dump_line list option" where
  "svz_hexdump buffer len limit =
     (let limit = (if limit = 0 then len else limit);
          limit = (if limit > len then len else limit);
          max_col = sgn limit * (\<bar>limit\<bar> div MAX_DUMP_LINE);
          max_col = (if sgn limit * (\<bar>limit\<bar> mod MAX_DUMP_LINE) \<noteq> 0 then max_col + 1 else max_col)
      in dump_rows buffer limit max_col 0 0)"

subsection \<open>Decimal conversions\<close>

lemma dec_digits_small: "n < 10 \<Longrightarrow> dec_digits n = [word_of_nat n + 48]"
  by (subst dec_digits.simps) simp

lemma dec_digits_step: "10 \<le> n \<Longrightarrow> dec_digits n = dec_digits (n div 10) @ [word_of_nat (n mod 10) + 48]"
  by (subst dec_digits.simps) simp

lemma length_dec_digits: "n < 10 ^ Suc k \<Longrightarrow> length (dec_digits n) \<le> Suc k"
proof (induction k arbitrary: n)
  case 0
  then show ?case by (simp add: dec_digits_small)
next
  case (Suc k)
  show ?case
  proof (cases "n < 10")
    case True
    then show ?thesis by (simp add: dec_digits_small)
  next
    case False
    have "n div 10 < 10 ^ Suc k" using Suc.prems by (auto simp: div_less_iff_less_mult)
    then show ?thesis using Suc.IH False by (simp add: dec_digits_step)
  qed
qed

lemma length_dec_digits_pos [simp]: "0 < length (dec_digits n)"
  by (subst dec_digits.simps) simp

lemma digit_byte:
  assumes "d < 10"
  shows "is_digit (word_of_nat d + 48)" "ucast (word_of_nat d + 48 :: byte) - 48 = (word_of_nat d :: u32)"
proof -
  from assms have "d \<in> set [0, 1, 2, 3, 4, 5, 6, 7, 8, 9]" by (auto simp: eval_nat_numeral less_Suc_eq)
  then show "is_digit (word_of_nat d + 48)" "ucast (word_of_nat d + 48 :: byte) - 48 = (word_of_nat d :: u32)"
    by (auto simp: is_digit_def)
qed

lemma dec_digits_is_digit: "c \<in> set (dec_digits n) \<Longrightarrow> is_digit c"
proof (induction n rule: dec_digits.induct)
  case (1 n)
  then show ?case
    by (cases "n < 10") (auto simp: dec_digits_small dec_digits_step intro: digit_byte)
qed

lemma atoi_loop_dec_digits:
  "atoi_loop (dec_digits n @ ys) i = atoi_loop ys (i * 10 ^ length (dec_digits n) + word_of_nat n)"
proof (induction n arbitrary: ys rule: dec_digits.induct)
  case (1 n)
  show ?case
  proof (cases "n < 10")
    case True
    then show ?thesis using digit_byte [OF True] by (simp add: dec_digits_small)
  next
    case False
    have m: "n mod 10 < 10" by simp
    have "(word_of_nat n :: u32) = word_of_nat (n div 10 * 10 + n mod 10)" by simp
    also have "\<dots> = word_of_nat (n div 10) * 10 + word_of_nat (n mod 10)" by (simp only: of_nat_add of_nat_mult of_nat_numeral)
    finally have eq: "(word_of_nat n :: u32) = word_of_nat (n div 10) * 10 + word_of_nat (n mod 10)" .
    show ?thesis using 1 False digit_byte [OF m]
      by (simp add: dec_digits_step eq algebra_simps)
  qed
qed

lemma unat_digit: "ucast ((i :: u32) mod 10) + 48 = (word_of_nat (unat i mod 10) + 48 :: byte)"
proof -
  have "ucast (i mod 10) = (word_of_nat (unat (i mod 10)) :: byte)" by simp
  then show ?thesis by (simp add: unat_mod)
qed

lemma itoa_loop_spec:
  "p \<le> length buf \<Longrightarrow> length (dec_digits (unat i)) \<le> p \<Longrightarrow>
   itoa_loop buf p i = Some (take (p - length (dec_digits (unat i))) buf @ map Cell (dec_digits (unat i)) @ drop p buf,
                             p - length (dec_digits (unat i)))"
proof (induction buf p i rule: itoa_loop.induct)
  case (1 buf p i)
  have p: "0 < p" using 1(3) length_dec_digits_pos [of "unat i"] by linarith
  let ?c = "Cell (word_of_nat (unat i mod 10) + 48 :: byte)"
  have w: "wr buf (p - 1) (Cell (ucast (i mod 10) + 48)) = Some (buf[p - 1 := ?c])"
    using p 1(2) by (simp add: wr_def unat_digit)
  have upd: "buf[p - 1 := ?c] = take (p - 1) buf @ ?c # drop p buf"
    using p 1(2) by (simp add: upd_conv_take_nth_drop)
  have z: "i div 10 \<noteq> 0 \<longleftrightarrow> 10 \<le> unat i"
    by (simp add: unat_eq_zero [symmetric] unat_div) linarith
  show ?case
  proof (cases "10 \<le> unat i")
    case False
    then show ?thesis using p 1(2) w z upd by (subst itoa_loop.simps) (simp add: dec_digits_small)
  next
    case True
    have "length (dec_digits (unat (i div 10))) \<le> p - 1" using 1(3) True by (simp add: dec_digits_step unat_div)
    then have "itoa_loop (buf[p - 1 := ?c]) (p - 1) (i div 10) =
        Some (take (p - 1 - length (dec_digits (unat (i div 10)))) (buf[p - 1 := ?c])
                @ map Cell (dec_digits (unat (i div 10))) @ drop (p - 1) (buf[p - 1 := ?c]),
              p - 1 - length (dec_digits (unat (i div 10))))"
      using 1(1) [OF _ w] p 1(2) True z by simp
    moreover have "take (p - 1 - k) (buf[p - 1 := ?c]) = take (p - 1 - k) buf" for k
      by (simp add: take_update_cancel)
    moreover have "drop (p - 1) (buf[p - 1 := ?c]) = ?c # drop p buf" using upd 1(2) by simp
    ultimately show ?thesis using p w z True
      by (subst itoa_loop.simps) (simp add: dec_digits_step unat_div)
  qed
qed

text \<open>
  \<^verbatim>\<open>svz_itoa\<close> stays inside its 32-byte buffer for every unsigned int and leaves its decimal digits
  and a NUL at the returned address; \<^verbatim>\<open>svz_atoi\<close> reads the number back from there.
\<close>

theorem itoa_atoi_roundtrip:
  assumes "length buffer = 32"
  shows "\<exists>buf p. svz_itoa buffer i = Some (buf, p) \<and> length buf = 32
           \<and> drop p buf = map Cell (dec_digits (unat i) @ [0])
           \<and> rd_range buf p (32 - p) = Some (dec_digits (unat i) @ [0])
           \<and> svz_atoi (dec_digits (unat i) @ [0]) = Some i"
proof -
  let ?d = "dec_digits (unat i)"
  have "unat i < 2 ^ 32" using unsigned_less [of i] by simp
  then have len: "length ?d \<le> 10" using length_dec_digits [of "unat i" 9] by simp
  define b where "b = buffer[31 := Cell (0 :: byte)]"
  have b: "length b = 32" "drop 31 b = [Cell 0]"
    using assms by (simp_all add: b_def upd_conv_take_nth_drop)
  have it: "svz_itoa buffer i = Some (take (31 - length ?d) b @ map Cell ?d @ [Cell 0], 31 - length ?d)"
    using itoa_loop_spec [of 31 b i] b len assms by (simp add: svz_itoa_def wr_def b_def [symmetric])
  let ?buf = "take (31 - length ?d) b @ map Cell ?d @ [Cell 0]"
  have "length ?buf = 32" using b len by simp
  moreover have dr: "drop (31 - length ?d) ?buf = map Cell (?d @ [0])" using b by simp
  moreover have "rd_range ?buf (31 - length ?d) (32 - (31 - length ?d)) = Some (?d @ [0])"
    using len b dr by (auto simp: rd_range_def)
  moreover have "svz_atoi (?d @ [0]) = Some i"
    by (simp add: svz_atoi_def atoi_loop_dec_digits is_digit_def)
  ultimately show ?thesis using it by blast
qed

theorem itoa_atoi_roundtrip_witness:
  "\<exists>buf p. svz_itoa (replicate 32 Uninit) 4294967295 = Some (buf, p) \<and> length buf = 32
     \<and> drop p buf = map Cell (dec_digits (unat (4294967295 :: u32)) @ [0])
     \<and> rd_range buf p (32 - p) = Some (dec_digits (unat (4294967295 :: u32)) @ [0])
     \<and> svz_atoi (dec_digits (unat (4294967295 :: u32)) @ [0]) = Some 4294967295"
  by (rule itoa_atoi_roundtrip) simp

text \<open>A digit string of any length is read modulo \<^verbatim>\<open>UINT_MAX + 1\<close>.\<close>

lemma svz_atoi_wraps: "\<not> is_digit c \<Longrightarrow> svz_atoi (dec_digits n @ c # rest) = Some (word_of_nat n)"
  by (simp add: svz_atoi_def atoi_loop_dec_digits)

subsection \<open>Lower case\<close>

lemma svz_tolower_spec:
  "0 \<notin> set s \<Longrightarrow> svz_tolower (s @ 0 # rest) = Some (map to_lower s @ 0 # rest)"
  by (induction s) (auto simp: to_lower_def)

subsection \<open>Dumps\<close>

lemma dump_chars_spec:
  "0 \<le> x \<Longrightarrow> limit \<le> int (length buffer) \<Longrightarrow>
   dump_chars buffer limit x n = Some (map (\<lambda>c. if sint c \<ge> 32 then c else 46) (take n (drop (nat x) (take (nat limit) buffer))))"
proof (induction n arbitrary: x)
  case (Suc n)
  show ?case
  proof (cases "x < limit")
    case True
    then have lt: "nat x < length (take (nat limit) buffer)" using Suc.prems by auto
    have "drop (nat x) (take (nat limit) buffer) = buffer ! nat x # drop (Suc (nat x)) (take (nat limit) buffer)"
      using Cons_nth_drop_Suc [OF lt] lt by simp
    moreover have "nat (x + 1) = Suc (nat x)" using Suc.prems by simp
    ultimately show ?thesis using Suc True lt by simp
  next
    case False
    then show ?thesis using Suc.prems by simp
  qed
qed simp

lemma those_map: "(\<And>x. x \<in> set xs \<Longrightarrow> f x = Some (g x)) \<Longrightarrow> those (map f xs) = Some (map g xs)"
  by (induction xs) auto

definition dump_bytes :: "dump_line \<Rightarrow> mem" where
  "dump_bytes l = map the (filter (\<lambda>c. c \<noteq> None) (dl_columns l))"

lemma dump_columns_spec:
  assumes "0 \<le> x" "limit \<le> int (length buffer)"
  defines "bs \<equiv> take 16 (drop (nat x) (take (nat limit) buffer))"
  shows "dump_columns buffer limit x = Some (map Some bs @ replicate (16 - length bs) None)"
proof -
  have "dump_columns buffer limit x = Some (map (\<lambda>col. if x + int col < limit then Some (buffer ! nat (x + int col)) else None) [0..<nat 16])"
    unfolding dump_columns_def MAX_DUMP_LINE_def by (rule those_map) (use assms(1,2) in auto)
  then have "dump_columns buffer limit x = Some (map (\<lambda>col. if x + int col < limit then Some (buffer ! nat (x + int col)) else None) [0..<16])"
    by simp
  also have "map (\<lambda>col. if x + int col < limit then Some (buffer ! nat (x + int col)) else None) [0..<16]
      = map Some bs @ replicate (16 - length bs) None"
  proof (rule nth_equalityI)
    show "length (map (\<lambda>col. if x + int col < limit then Some (buffer ! nat (x + int col)) else None) [0..<16])
        = length (map Some bs @ replicate (16 - length bs) None)" by (simp add: bs_def)
    fix i assume i: "i < length (map (\<lambda>col. if x + int col < limit then Some (buffer ! nat (x + int col)) else None) [0..<16])"
    have len: "length bs = min 16 (nat limit - nat x)" using assms(2) by (simp add: bs_def min.commute)
    show "map (\<lambda>col. if x + int col < limit then Some (buffer ! nat (x + int col)) else None) [0..<16] ! i
        = (map Some bs @ replicate (16 - length bs) None) ! i"
    proof (cases "x + int i < limit")
      case True
      then have ib: "i < length bs" "nat (x + int i) = nat x + i" "nat x + i < nat limit" "nat x \<le> length (take (nat limit) buffer)"
        using i assms(1,2) len by auto
      have "bs ! i = buffer ! (nat x + i)" using ib by (simp add: bs_def)
      then show ?thesis using True i ib by (simp add: nth_append)
    next
      case False
      then have "\<not> i < length bs" using len assms(1) by auto
      then show ?thesis using False i by (simp add: nth_append)
    qed
  qed
  finally show ?thesis .
qed

lemma dump_row_bound:
  fixes limit x max_col row :: int
  assumes "limit - x \<le> 16 * (max_col - row)" "row < max_col"
  shows "limit - (x + min 16 (limit - x)) \<le> 16 * (max_col - (row + 1))"
proof -
  have "16 * (max_col - row) = 16 * (max_col - (row + 1)) + 16" "0 \<le> 16 * (max_col - (row + 1))"
    using assms(2) by (simp_all add: algebra_simps)
  then show ?thesis using assms(1) by (simp only: min_def split: if_split) linarith
qed

lemma take_drop_length: "take n xs @ drop (length (take n xs)) xs = xs"
  by (cases "n \<le> length xs") auto

lemma dump_rows_spec:
  assumes "0 \<le> x" "limit \<le> int (length buffer)" "limit - x \<le> 16 * (max_col - row)"
  shows "\<exists>ls. dump_rows buffer limit max_col row x = Some ls
           \<and> concat (map dump_bytes ls) = drop (nat x) (take (nat limit) buffer)"
  using assms
proof (induction buffer limit max_col row x rule: dump_rows.induct)
  case (1 buffer limit max_col row x)
  let ?bs = "take 16 (drop (nat x) (take (nat limit) buffer))"
  show ?case
  proof (cases "x < limit")
    case False
    then have "drop (nat x) (take (nat limit) buffer) = []" using 1(2) by simp
    then show ?thesis using False by (subst dump_rows.simps) simp
  next
    case True
    let ?chars = "map (\<lambda>c. if sint c \<ge> 32 then c else 46) ?bs"
    have "0 < 16 * (max_col - row)" using True 1(4) by linarith
    then have row: "row < max_col" by simp
    have cols: "dump_columns buffer limit x = Some (map Some ?bs @ replicate (16 - length ?bs) None)"
      by (rule dump_columns_spec [OF 1(2,3)])
    have chars: "dump_chars buffer limit x (nat MAX_DUMP_LINE) = Some ?chars"
      unfolding MAX_DUMP_LINE_def using dump_chars_spec [OF 1(2,3), of 16] by simp
    have len: "int (length ?chars) = min 16 (limit - x)" using 1(2,3) True by auto
    then have le: "limit - (x + int (length ?chars)) \<le> 16 * (max_col - (row + 1))"
      using dump_row_bound [OF 1(4) row] by linarith
    have x': "0 \<le> x + int (length ?chars)" using 1(2) by (rule add_nonneg_nonneg) simp
    obtain ls where ls: "dump_rows buffer limit max_col (row + 1) (x + int (length ?chars)) = Some ls"
        "concat (map dump_bytes ls) = drop (nat (x + int (length ?chars))) (take (nat limit) buffer)"
      using 1(1) [OF conjI [OF row True] cols chars x' 1(3) le] by (elim exE conjE)
    let ?D = "drop (nat x) (take (nat limit) buffer)"
    have "nat (x + int (length ?chars)) = length ?bs + nat x" using 1(2) unfolding length_map by linarith
    then have "concat (map dump_bytes ls) = drop (length ?bs) ?D" using ls(2) by (simp only: drop_drop)
    then have "?bs @ concat (map dump_bytes ls) = ?D" using take_drop_length [of 16 ?D] by simp
    then show ?thesis using row True cols chars ls(1)
      by (subst dump_rows.simps) (simp add: dump_bytes_def filter_map comp_def)
  qed
qed

lemma dump_row_count:
  assumes "0 \<le> (m :: int)"
  shows "m \<le> 16 * (if sgn m * (\<bar>m\<bar> mod 16) \<noteq> 0 then sgn m * (\<bar>m\<bar> div 16) + 1 else sgn m * (\<bar>m\<bar> div 16))"
proof (cases "m = 0")
  case False
  then have "sgn m = 1" "\<bar>m\<bar> = m" using assms by simp_all
  moreover have "m \<le> 16 * (if m mod 16 \<noteq> 0 then m div 16 + 1 else m div 16)" by presburger
  ultimately show ?thesis by (simp only: mult_1_left)
qed simp

text \<open>
  \<^verbatim>\<open>svz_hexdump\<close> reads only inside the buffer and its lines show exactly the first bytes of it: all
  of them, or at most the given maximum when it is not zero.
\<close>

theorem hexdump_shows_bytes:
  assumes "0 \<le> limit"
  shows "\<exists>ls. svz_hexdump buffer (int (length buffer)) limit = Some ls
           \<and> concat (map dump_bytes ls) = take (if limit = 0 then length buffer else nat limit) buffer"
proof -
  let ?l = "if limit = 0 then int (length buffer) else limit"
  let ?m = "if ?l > int (length buffer) then int (length buffer) else ?l"
  let ?c = "sgn ?m * (\<bar>?m\<bar> div MAX_DUMP_LINE)"
  let ?c' = "if sgn ?m * (\<bar>?m\<bar> mod MAX_DUMP_LINE) \<noteq> 0 then ?c + 1 else ?c"
  have m: "0 \<le> ?m" "?m \<le> int (length buffer)" using assms by auto
  have "?m \<le> 16 * ?c'"
    using dump_row_count [OF m(1)] unfolding MAX_DUMP_LINE_def by simp
  then obtain ls where "dump_rows buffer ?m ?c' 0 0 = Some ls" "concat (map dump_bytes ls) = drop 0 (take (nat ?m) buffer)"
    using dump_rows_spec [of 0 ?m buffer ?c' 0] m by auto
  moreover have "take (nat ?m) buffer = take (if limit = 0 then length buffer else nat limit) buffer"
    using assms by auto
  ultimately show ?thesis by (simp only: svz_hexdump_def Let_def) simp
qed

theorem hexdump_shows_bytes_witness:
  "\<exists>ls. svz_hexdump [1, 2, 3] (int (length [1, 2, 3 :: byte])) 2 = Some ls
     \<and> concat (map dump_bytes ls) = take (if (2 :: int) = 0 then length [1, 2, 3 :: byte] else nat 2) [1, 2, 3]"
  by (rule hexdump_shows_bytes) simp

end
