(* ===== verification/Foo_Server.thy ===== *)
theory Foo_Server
  imports Svz_Socket Svz_Util
begin

text \<open>
  The example server, \<^verbatim>\<open>src/foo-server/foo-proto.c\<close>: protocol detection, the connect callback and the
  request handler, run by the packet splitting of \<^verbatim>\<open>socket.c\<close>. The handler is the instance on which
  the contract \<open>packet_handler\<close> of the splitting loops is discharged, and the theorems on
  splitting that hold for every handler are applied here to it, up to what a foo client sees.
\<close>

definition foo_packet_delim :: mem where "foo_packet_delim = [13, 10]"
definition foo_packet_delim_len :: int where "foo_packet_delim_len = 2"

definition foo_detect_proto :: "svz_socket \<Rightarrow> (int \<times> svz_socket) option" where
  "foo_detect_proto sock =
     (if sk_recv_buffer_fill sock \<ge> 5
      then do {
        bytes \<leftarrow> buf_read (sk_recv_buffer sock) 0 5;
        if memcmp bytes (lit ''foo'' @ [13, 10]) 5 = 0
        then do { sock \<leftarrow> svz_sock_reduce_recv sock 5; Some (-1, sock) }
        else Some (0, sock)
      }
      else Some (0, sock))"

text \<open>
  The configuration supplies \<open>reply\<close> and \<open>messages\<close>; \<open>junk\<close> is what \<^verbatim>\<open>svz_sock_printf\<close>'s
  static buffer held before.
\<close>

definition foo_reply :: "mem \<Rightarrow> int \<Rightarrow> mem" where
  "foo_reply reply len = reply @ lit '': '' @ printf_d len @ [13, 10]"

definition foo_handle_request :: "'w sock_cb \<Rightarrow> 'w kick_cb \<Rightarrow> mem \<Rightarrow> mem \<Rightarrow> 'w handler" where
  "foo_handle_request ws kicked reply junk sock request w =
     svz_sock_printf ws kicked sock (foo_reply reply (int (length request))) junk w"

fun foo_messages :: "'w sock_cb \<Rightarrow> 'w kick_cb \<Rightarrow> mem \<Rightarrow> mem list \<Rightarrow> svz_socket \<Rightarrow> 'w \<Rightarrow> (int \<times> svz_socket \<times> 'w) option" where
  "foo_messages ws kicked junk [] sock w = Some (0, sock, w)"
| "foo_messages ws kicked junk (msg # msgs) sock w = do {
     (ret, sock, w) \<leftarrow> svz_sock_printf ws kicked sock (msg @ [13, 10]) junk w;
     if ret \<noteq> 0 then Some (ret, sock, w) else foo_messages ws kicked junk msgs sock w
   }"

definition foo_connect_socket ::
    "'w sock_cb \<Rightarrow> 'w kick_cb \<Rightarrow> (u32 option \<Rightarrow> 'w \<Rightarrow> 'w) \<Rightarrow> mem \<Rightarrow> mem list \<Rightarrow> svz_socket \<Rightarrow> 'w \<Rightarrow> (int \<times> svz_socket \<times> 'w) option" where
  "foo_connect_socket ws kicked rdns junk messages sock w = do {
     let sock = sock\<lparr>sk_boundary := Some foo_packet_delim, sk_boundary_size := foo_packet_delim_len,
                     sk_check_request := CR_check_request\<rparr>;
     (ret, sock, w) \<leftarrow> foo_messages ws kicked junk messages sock w;
     if ret \<noteq> 0 then Some (ret, sock, w)
     else do {
       (ret, sock, w) \<leftarrow> svz_sock_printf ws kicked sock (lit ''Starting reverse lookup...'' @ [13, 10]) junk w;
       let w = rdns (sk_remote_addr sock) w;
       (ret, sock, w) \<leftarrow> svz_sock_printf ws kicked sock (lit ''Waiting...'' @ [13, 10]) junk w;
       Some (0, sock, w)
     }
   }"

text \<open>The callback of the reverse lookup; \<open>found\<close> is the socket \<^verbatim>\<open>svz_sock_find\<close> gives, if any.\<close>

definition foo_rdns_done ::
    "'w sock_cb \<Rightarrow> 'w kick_cb \<Rightarrow> mem \<Rightarrow> mem option \<Rightarrow> svz_socket option \<Rightarrow> 'w \<Rightarrow> (int \<times> svz_socket option \<times> 'w) option" where
  "foo_rdns_done ws kicked junk host found w =
     (case (host, found) of
        (Some h, Some sock) \<Rightarrow> do {
          (ret, sock, w) \<leftarrow> svz_sock_printf ws kicked sock (lit ''You are '' @ [96] @ h @ [39, 13, 10]) junk w;
          Some (0, Some sock, w)
        }
      | _ \<Rightarrow> Some (0, found, w))"

subsection \<open>What writing leaves alone\<close>

definition sock_view :: "svz_socket \<Rightarrow> (byte cell list option \<times> int \<times> int \<times> mem option \<times> int) \<times> bool" where
  "sock_view sock = (recv_view sock, has_flag sock SVZ_SOFLG_KILLED)"

lemma disjoint_flags: "SVZ_SOFLG_FINAL_WRITE AND SVZ_SOFLG_KILLED = 0"
  by (simp add: SVZ_SOFLG_FINAL_WRITE_def SVZ_SOFLG_KILLED_def)

lemma sock_view_final_write [simp]:
  "sock_view (set_flag SVZ_SOFLG_FINAL_WRITE sock) = sock_view sock"
  "sock_view (clear_flag SVZ_SOFLG_FINAL_WRITE sock) = sock_view sock"
  by (simp_all add: sock_view_def recv_view_def has_flag_def set_flag_def clear_flag_def and_not_disjoint or_disjoint
        disjoint_flags)

lemma tcp_write_view:
  "svz_tcp_write_socket os sock w = Some (ret, sock', w') \<Longrightarrow> sock_view sock' = sock_view sock"
  by (auto simp: svz_tcp_write_socket_def svz_sock_reduce_send_def svz_wait_if_unavailable_def sock_view_def
      recv_view_def has_flag_def Let_def elim!: bind_SomeE split: prod.splits if_splits)

lemma write_flush_view:
  "write_flush (svz_tcp_write_socket os) sock w u = Some (ret, sock', w') \<Longrightarrow> sock_view sock' = sock_view sock"
  by (auto simp: write_flush_def Let_def elim!: bind_SomeE split: if_splits dest!: tcp_write_view)

lemma write_loop_view:
  "svz_sock_write_loop (svz_tcp_write_socket os) None n sock buf w = Some (ret, sock', w') \<Longrightarrow> sock_view sock' = sock_view sock"
proof (induction "svz_tcp_write_socket os" "None :: 'a kick_cb" n sock buf w rule: svz_sock_write_loop.induct)
  case (1 n sock buf w)
  then show ?case
    apply (subst (asm) (2) svz_sock_write_loop.simps)
    apply (auto simp: Let_def kick_def split: if_splits option.splits dest!: write_flush_view)
    apply (auto simp: sock_view_def recv_view_def has_flag_def)
    done
qed

lemma sock_write_view:
  "svz_sock_write (svz_tcp_write_socket os) None sock buf w = Some (ret, sock', w') \<Longrightarrow> sock_view sock' = sock_view sock"
  by (auto simp: svz_sock_write_def split: if_splits dest: write_loop_view)

lemma foo_handle_request_view:
  "foo_handle_request (svz_tcp_write_socket os) None reply junk sock bytes w = Some (ret, sock', w') \<Longrightarrow>
   sock_view sock' = sock_view sock"
  by (auto simp: foo_handle_request_def svz_sock_printf_def Let_def split: if_splits dest: sock_write_view)

interpretation foo: packet_handler "foo_handle_request (svz_tcp_write_socket os) None reply junk" for os reply junk
  by unfold_locales (auto simp: sock_view_def dest!: foo_handle_request_view)

subsection \<open>Splitting\<close>

text \<open>
  C13. \<^verbatim>\<open>svz_sock_check_request\<close> on a socket with a packet delimiter hands the request handler exactly
  the packets of the buffered bytes, in order, delimiter included, until one is refused: every
  packet ends with its first delimiter, the packets and the rest make up the buffered bytes, the
  rest has no delimiter and is what stays buffered. It does not matter how the input was cut into
  reads: packets of the rest and later bytes continue the packets of the whole.
\<close>

theorem check_request_splits:
  assumes "packet_handler hr" and "recv_rep sock got"
    and "sk_boundary sock = Some b" and "sk_boundary_size sock = int (length b)" and "b \<noteq> []"
  shows "(\<exists>cr. svz_sock_check_request (Some hr) sock w =
            handle_all hr (fst (packets b got)) (int (length got) - int (length (snd (packets b got))))
              (sock\<lparr>sk_check_request := cr\<rparr>) w)
         \<and> (\<forall>ret sock' w'. svz_sock_check_request (Some hr) sock w = Some (ret, sock', w') \<longrightarrow>
              ret = 0 \<and> recv_rep sock' (snd (packets b got)) \<or> ret = -1 \<and> recv_rep sock' got)
         \<and> concat (fst (packets b got)) @ snd (packets b got) = got
         \<and> (\<forall>p \<in> set (fst (packets b got)). \<exists>q. p = q @ b \<and> find_boundary b p = Some (length q))
         \<and> find_boundary b (snd (packets b got)) = None
         \<and> (\<forall>more. fst (packets b (got @ more)) = fst (packets b got) @ fst (packets b (snd (packets b got) @ more)))"
proof -
  let ?P = "\<lambda>s. handle_all hr (fst (packets b got)) (int (length got) - int (length (snd (packets b got)))) s w"
  have rep: "recv_rep (sock\<lparr>sk_check_request := cr\<rparr>) got" for cr using assms(2) by (simp add: recv_rep_def)
  have "\<exists>cr. svz_sock_check_request (Some hr) sock w = ?P (sock\<lparr>sk_check_request := cr\<rparr>)"
  proof (cases "length b = 1")
    case True
    then obtain x where "b = [x]" by (auto simp: length_Suc_conv)
    then show ?thesis using assms packet_handler.split_packet_unibyte_spec [OF assms(1) rep]
      by (auto simp: svz_sock_check_request_def)
  next
    case False
    then have "length b > 1" using assms(5) by (cases b) auto
    then show ?thesis using assms packet_handler.split_packet_spec [OF assms(1) rep]
      by (auto simp: svz_sock_check_request_def)
  qed
  then obtain cr where cr: "svz_sock_check_request (Some hr) sock w = ?P (sock\<lparr>sk_check_request := cr\<rparr>)" by blast
  have "ret = 0 \<and> recv_rep sock' (snd (packets b got)) \<or> ret = -1 \<and> recv_rep sock' got"
    if "svz_sock_check_request (Some hr) sock w = Some (ret, sock', w')" for ret sock' w'
    using packet_handler.handle_all_rest [OF assms(1) rep packets_concat that [unfolded cr]] .
  then show ?thesis using cr packets_concat packets_shape [OF assms(5), of got] packets_append [of b got] by auto
qed

text \<open>
  For one-byte delimiters the optimised splitting routine does the same as the general one.
\<close>

theorem unibyte_split_equiv:
  assumes "packet_handler hr" and "recv_rep sock got" and "sk_boundary sock = Some [x]" and "sk_boundary_size sock = 1"
  shows "split_packet_unibyte_and_dispatch (Some hr) sock w = split_packet_and_dispatch (Some hr) sock w"
  using packet_handler.split_packet_unibyte_spec [OF assms(1-3)]
    packet_handler.split_packet_spec [OF assms(1-3)] assms(4) by simp

text \<open>
  With fixed-size packets of \<open>n\<close> bytes the handler gets consecutive chunks of \<open>n\<close> bytes only
  while more than \<open>n\<close> bytes are left: the last packet of a burst is never dispatched when it
  ends exactly at the end of the input, and a single complete packet is not dispatched at all.
\<close>

theorem fixed_split_lags:
  assumes "packet_handler hr" and "recv_rep sock got" and "sk_boundary_size sock = int n" and "0 < n"
  shows "split_packet_fixed_and_dispatch (Some hr) sock w =
           handle_all hr (fixed_packets n got) (int (n * length (fixed_packets n got))) sock w
         \<and> (\<exists>r. concat (fixed_packets n got) @ r = got \<and> length r \<le> n)
         \<and> (length got = n \<longrightarrow> fixed_packets n got = [])"
proof -
  have "fixed_packets n got = []" if "length got = n" using that by (subst fixed_packets.simps) simp
  then show ?thesis
    using packet_handler.split_fixed_spec [OF assms, of w] concat_fixed_packets [of n got] assms(4) by auto
qed


text \<open>A socket that has received \<^verbatim>\<open>ab\r\nc\<close>, with the delimiters of the foo server.\<close>

definition foo_sock :: "mem option \<Rightarrow> int \<Rightarrow> svz_socket" where
  "foo_sock b n = (svz_sock_alloc 0)\<lparr>sk_recv_buffer := Some (map Cell [97, 98, 13, 10, 99]), sk_recv_buffer_size := 5,
     sk_recv_buffer_fill := 5, sk_boundary := b, sk_boundary_size := n\<rparr>"

lemma foo_sock_rep: "recv_rep (foo_sock b n) [97, 98, 13, 10, 99]"
  by (simp add: foo_sock_def recv_rep_def buf_rep_def holds_def)

lemma foo_sock_fields: "sk_boundary (foo_sock b n) = b" "sk_boundary_size (foo_sock b n) = n"
  by (simp_all add: foo_sock_def)

lemma foo_packets: "packets [13, 10] [97, 98, 13, 10, 99] = ([[97, 98, 13, 10]], [99])"
  by (subst packets.simps, simp, subst packets.simps, simp)

theorem check_request_splits_witness:
  "\<exists>cr. svz_sock_check_request (Some (foo_handle_request (svz_tcp_write_socket slow_os) None [] [])) (foo_sock (Some [13, 10]) 2) [] =
     handle_all (foo_handle_request (svz_tcp_write_socket slow_os) None [] []) [[97, 98, 13, 10]] (int 5 - int 1)
       (foo_sock (Some [13, 10]) 2\<lparr>sk_check_request := cr\<rparr>) []"
  using check_request_splits [OF foo.packet_handler_axioms [of slow_os "[]" "[]"] foo_sock_rep [of "Some [13, 10]" 2], of "[13, 10]" "[]"]
  by (simp add: foo_sock_fields foo_packets)

theorem unibyte_split_equiv_witness:
  "split_packet_unibyte_and_dispatch (Some (foo_handle_request (svz_tcp_write_socket slow_os) None [] [])) (foo_sock (Some [10]) 1) [] =
   split_packet_and_dispatch (Some (foo_handle_request (svz_tcp_write_socket slow_os) None [] [])) (foo_sock (Some [10]) 1) []"
  by (rule unibyte_split_equiv [OF foo.packet_handler_axioms foo_sock_rep]) (simp_all add: foo_sock_fields)

theorem fixed_split_lags_witness:
  "split_packet_fixed_and_dispatch (Some (foo_handle_request (svz_tcp_write_socket slow_os) None [] [])) (foo_sock None 5) [] =
     handle_all (foo_handle_request (svz_tcp_write_socket slow_os) None [] []) [] (int (5 * 0)) (foo_sock None 5) []"
  using fixed_split_lags [OF foo.packet_handler_axioms [of slow_os "[]" "[]"] foo_sock_rep [of None 5], of 5 "[]"]
  by (simp add: foo_sock_fields)

subsection \<open>A foo session\<close>

lemma foo_handle_request_stream:
  assumes "posix_send os wire" "send_rep sock pend" "\<not> has_flag sock SVZ_SOFLG_KILLED"
    "length (foo_reply reply (int (length p))) < VSNPRINTF_BUF_SIZE"
  shows "\<exists>ret sock' w' pend' k. foo_handle_request (svz_tcp_write_socket os) None reply junk sock p w = Some (ret, sock', w')
           \<and> send_rep sock' pend' \<and> \<not> has_flag sock' SVZ_SOFLG_KILLED
           \<and> wire w' @ pend' = wire w @ pend @ take k (foo_reply reply (int (length p)))
           \<and> (ret = 0 \<longrightarrow> k = length (foo_reply reply (int (length p))))"
proof -
  let ?t = "foo_reply reply (int (length p))"
  obtain ret sock' w' pend' k where
    wr: "svz_sock_write (svz_tcp_write_socket os) None sock ?t w = Some (ret, sock', w')"
      and r0: "send_rep sock' pend'" "wire w' @ pend' = wire w @ pend @ take k ?t"
        "ret = 0 \<longrightarrow> k = (if has_flag sock SVZ_SOFLG_KILLED then 0 else length ?t)"
    using svz_sock_write_stream [OF assms(1) kick_keeps_None assms(2), of ?t w] by blast
  then have r: "send_rep sock' pend'" "wire w' @ pend' = wire w @ pend @ take k ?t" "ret = 0 \<longrightarrow> k = length ?t"
    using assms(3) by simp_all
  have "\<not> has_flag sock' SVZ_SOFLG_KILLED" using sock_write_view [OF wr] assms(3) by (simp add: sock_view_def)
  moreover have "foo_handle_request (svz_tcp_write_socket os) None reply junk sock p w = Some (ret, sock', w')"
    using wr assms(4) by (simp add: foo_handle_request_def svz_sock_printf_text)
  ultimately show ?thesis using r by blast
qed

lemma foo_run_stream:
  assumes "posix_send os wire" "send_rep sock pend" "\<not> has_flag sock SVZ_SOFLG_KILLED"
    "\<forall>p \<in> set ps. length (foo_reply reply (int (length p))) < VSNPRINTF_BUF_SIZE"
  shows "\<exists>ret sock' w' pend' k. run_handlers (foo_handle_request (svz_tcp_write_socket os) None reply junk) ps sock w = Some (ret, sock', w')
           \<and> send_rep sock' pend'
           \<and> wire w' @ pend' = wire w @ pend @ take k (concat (map (\<lambda>p. foo_reply reply (int (length p))) ps))
           \<and> (ret = 0 \<longrightarrow> k = length (concat (map (\<lambda>p. foo_reply reply (int (length p))) ps)))"
  using assms(2-)
proof (induction ps arbitrary: sock w pend)
  case Nil
  then show ?case by auto
next
  case (Cons p ps)
  let ?r = "\<lambda>p. foo_reply reply (int (length p))"
  let ?rs = "concat (map ?r ps)"
  have lp: "length (?r p) < VSNPRINTF_BUF_SIZE" and lps: "\<forall>p \<in> set ps. length (?r p) < VSNPRINTF_BUF_SIZE"
    using Cons.prems(3) by simp_all
  obtain ret s1 w1 p1 k where h: "foo_handle_request (svz_tcp_write_socket os) None reply junk sock p w = Some (ret, s1, w1)"
      "send_rep s1 p1" "\<not> has_flag s1 SVZ_SOFLG_KILLED" "wire w1 @ p1 = wire w @ pend @ take k (?r p)" "ret = 0 \<longrightarrow> k = length (?r p)"
    using foo_handle_request_stream [OF assms(1) Cons.prems(1,2) lp, of junk w] by blast
  show ?case
  proof (cases "ret = 0")
    case False
    have "take k (?r p) = take (min k (length (?r p))) (concat (map ?r (p # ps)))" by (simp add: min_def)
    moreover have "run_handlers (foo_handle_request (svz_tcp_write_socket os) None reply junk) (p # ps) sock w = Some (-1, s1, w1)"
      using False h(1) by simp
    moreover have "(-1 :: int) \<noteq> 0" by simp
    ultimately show ?thesis using h(2,4) by metis
  next
    case True
    obtain ret' s2 w2 p2 k2 where ih: "run_handlers (foo_handle_request (svz_tcp_write_socket os) None reply junk) ps s1 w1 = Some (ret', s2, w2)"
        "send_rep s2 p2" "wire w2 @ p2 = wire w1 @ p1 @ take k2 ?rs" "ret' = 0 \<longrightarrow> k2 = length ?rs"
      using Cons.IH [OF h(2,3) lps, of w1] by blast
    have "wire w2 @ p2 = wire w @ pend @ take (length (?r p) + k2) (concat (map ?r (p # ps)))"
      using ih(3) h(4,5) True by simp
    moreover have "run_handlers (foo_handle_request (svz_tcp_write_socket os) None reply junk) (p # ps) sock w = Some (ret', s2, w2)"
      using True h(1) ih(1) by simp
    moreover have "ret' = 0 \<longrightarrow> length (?r p) + k2 = length (concat (map ?r (p # ps)))" using ih(4) by simp
    ultimately show ?thesis using ih(2) by blast
  qed
qed



text \<open>
  Protocol detection of the foo server claims a connection exactly when its input begins with
  the five bytes of the identification line, which it then removes; it never reads outside the
  receive buffer, and otherwise leaves the socket as it is.
\<close>

theorem foo_detects:
  assumes "recv_rep sock got"
  shows "\<exists>ret sock'. foo_detect_proto sock = Some (ret, sock')
           \<and> (if take 5 got = lit ''foo'' @ [13, 10] then ret = -1 \<and> recv_rep sock' (drop 5 got) else ret = 0 \<and> sock' = sock)"
proof -
  let ?id = "lit ''foo'' @ [13, 10]"
  have id: "length ?id = 5" by (simp add: lit_def)
  have b: "buf_rep (sk_recv_buffer sock) (sk_recv_buffer_size sock) (sk_recv_buffer_fill sock) got"
    using assms by (simp add: recv_rep_def)
  have fill: "sk_recv_buffer_fill sock = int (length got)" using buf_rep_length [OF b] by simp
  show ?thesis
  proof (cases "5 \<le> length got")
    case False
    then have "take 5 got \<noteq> ?id" using id by (metis length_take min.absorb1 min.cobounded1)
    then show ?thesis using False fill by (simp add: foo_detect_proto_def)
  next
    case True
    then have rd: "buf_read (sk_recv_buffer sock) 0 5 = Some (take 5 got)" using buf_read_rep [OF b, of 0 5] by simp
    have cmp: "memcmp (take 5 got) ?id 5 = 0 \<longleftrightarrow> take 5 got = ?id"
      using memcmp_eq_0 [of 5 "take 5 got" ?id] True id by simp
    obtain xs where "svz_sock_reduce_recv sock 5 = Some (sock\<lparr>sk_recv_buffer := Some xs, sk_recv_buffer_fill := sk_recv_buffer_fill sock - 5\<rparr>)"
        "buf_rep (Some xs) (sk_recv_buffer_size sock) (sk_recv_buffer_fill sock - 5) (drop 5 got)"
      using svz_sock_reduce_recv_rep [OF assms, of 5] True by auto
    then show ?thesis using True fill rd cmp by (auto simp: foo_detect_proto_def recv_rep_def)
  qed
qed

theorem foo_detects_witness:
  "\<exists>ret sock'. foo_detect_proto (foo_sock None 0) = Some (ret, sock') \<and> ret = 0 \<and> sock' = foo_sock None 0"
  using foo_detects [OF foo_sock_rep [of None 0]] by (simp add: lit_def)

end
