(* ===== verification/Svz_Core.thy ===== *)
theory Svz_Core
  imports Svz_Socket
begin

text \<open>
  The socket list and lookup table, \<^verbatim>\<open>src/libserveez/server-core.c\<close>, with \<^verbatim>\<open>svz_sock_disconnect\<close> of
  \<^verbatim>\<open>socket.c\<close>, and \<^verbatim>\<open>svz_pipe_valid\<close> and \<^verbatim>\<open>svz_pipe_disconnect\<close> of \<^verbatim>\<open>pipe-socket.c\<close>.

  The sockets live in a heap: an address that maps to \<^term>\<open>None\<close> is not allocated (or freed), and
  following it is undefined behaviour. The static variables of \<^verbatim>\<open>server-core.c\<close> are the members of
  the record \<open>core\<close>. The doubly linked list is related to an abstract list of addresses by
  \<open>core_inv\<close>, which every operation preserves; the lookup functions are specified on that
  list. Versions count up without bound (in C they would overflow after \<open>2\<^sup>3\<^sup>1\<close> sockets).
\<close>

record core =
  heap :: "addr \<Rightarrow> svz_socket option"
  svz_sock_root :: "addr option"
  last_socket :: "addr option"
  socktab :: "addr option list"
  sock_id :: int
  sock_version :: int
  sock_limit :: int
  svz_sock_connections :: int

definition core_init :: core where
  "core_init = \<lparr>heap = (\<lambda>_. None), svz_sock_root = None, last_socket = None, socktab = replicate 1024 None,
     sock_id = 0, sock_version = 0, sock_limit = 1024, svz_sock_connections = 0\<rparr>"

text \<open>Access through pointers: \<open>upd c a f\<close> stands for assignments to members of \<^verbatim>\<open>*a\<close>.\<close>

definition upd :: "core \<Rightarrow> addr \<Rightarrow> (svz_socket \<Rightarrow> svz_socket) \<Rightarrow> core option" where
  "upd c a f = do { s \<leftarrow> heap c a; Some (c\<lparr>heap := (heap c)(a \<mapsto> f s)\<rparr>) }"

definition tab_get :: "core \<Rightarrow> int \<Rightarrow> addr option option" where
  "tab_get c i = (if 0 \<le> i \<and> i < int (length (socktab c)) then Some (socktab c ! nat i) else None)"

definition tab_set :: "core \<Rightarrow> int \<Rightarrow> addr option \<Rightarrow> core option" where
  "tab_set c i v =
     (if 0 \<le> i \<and> i < int (length (socktab c)) then Some (c\<lparr>socktab := (socktab c)[nat i := v]\<rparr>) else None)"

text \<open>\<^verbatim>\<open>svz_invalid_handle_p\<close> and \<^verbatim>\<open>INVALID_SOCKET\<close> compare with -1.\<close>

definition svz_pipe_valid :: "svz_socket \<Rightarrow> int" where
  "svz_pipe_valid sock =
     (if has_flag sock SVZ_SOFLG_LISTENING then 0
      else if \<not> has_flag sock SVZ_SOFLG_CONNECTED then -1
      else if has_flag sock SVZ_SOFLG_RECV_PIPE \<and> sk_pipe_read sock = -1 then -1
      else if has_flag sock SVZ_SOFLG_SEND_PIPE \<and> sk_pipe_write sock = -1 then -1
      else 0)"

definition validate_sock :: "svz_socket \<Rightarrow> int" where
  "validate_sock sock =
     (if \<not> has_flag sock (SVZ_SOFLG_LISTENING OR SVZ_SOFLG_CONNECTED OR SVZ_SOFLG_CONNECTING) then -1
      else if sk_sock_desc sock = -1 then -1
      else 0)"

subsection \<open>Identity\<close>

definition svz_sock_find :: "core \<Rightarrow> int \<Rightarrow> int \<Rightarrow> addr option option" where
  "svz_sock_find c sid version =
     (if sid AND NOT (sock_limit c - 1) \<noteq> 0 then Some None
      else do {
        sock \<leftarrow> tab_get c sid;
        case sock of
          None \<Rightarrow> Some None
        | Some a \<Rightarrow>
            if version \<noteq> -1
            then do { s \<leftarrow> heap c a; Some (if sk_version s \<noteq> version then None else Some a) }
            else Some (Some a)
      })"

fun unique_id_loop :: "core \<Rightarrow> nat \<Rightarrow> int \<Rightarrow> (int \<times> bool) option" where
  "unique_id_loop c 0 sid = Some (sid, False)"
| "unique_id_loop c (Suc n) sid = do {
     let sid = (sid + 1) AND (sock_limit c - 1);
     t \<leftarrow> tab_get c sid;
     if t = None then Some (sid, True) else unique_id_loop c n sid
   }"

definition svz_sock_unique_id :: "core \<Rightarrow> addr \<Rightarrow> (int \<times> core) option" where
  "svz_sock_unique_id c a = do {
     (sid, found) \<leftarrow> unique_id_loop c (nat (sock_limit c)) (sock_id c);
     let c = (if found then c\<lparr>sock_id := sid\<rparr>
              else c\<lparr>socktab := take (nat (sock_limit c)) (socktab c) @ replicate (nat (sock_limit c)) None,
                     sock_id := sock_limit c, sock_limit := sock_limit c * 2\<rparr>);
     c \<leftarrow> upd c a (\<lambda>s. s\<lparr>sk_id := sock_id c, sk_version := sock_version c\<rparr>);
     Some (sock_id c, c\<lparr>sock_version := sock_version c + 1\<rparr>)
   }"

definition svz_sock_setparent :: "core \<Rightarrow> addr option \<Rightarrow> addr option \<Rightarrow> core option" where
  "svz_sock_setparent c child parent =
     (case (parent, child) of
        (Some p, Some ch) \<Rightarrow> do {
          ps \<leftarrow> heap c p;
          upd c ch (\<lambda>s. s\<lparr>sk_parent_id := sk_id ps, sk_parent_version := sk_version ps\<rparr>)
        }
      | _ \<Rightarrow> Some c)"

definition svz_sock_getparent :: "core \<Rightarrow> addr option \<Rightarrow> addr option option" where
  "svz_sock_getparent c child =
     (case child of
        None \<Rightarrow> Some None
      | Some ch \<Rightarrow> do { s \<leftarrow> heap c ch; svz_sock_find c (sk_parent_id s) (sk_parent_version s) })"

definition svz_sock_setreferrer :: "core \<Rightarrow> addr \<Rightarrow> addr option \<Rightarrow> core option" where
  "svz_sock_setreferrer c sock referrer =
     (case referrer of
        None \<Rightarrow> upd c sock (\<lambda>s. s\<lparr>sk_referrer_version := -1, sk_referrer_id := -1\<rparr>)
      | Some r \<Rightarrow> do {
          rs \<leftarrow> heap c r;
          upd c sock (\<lambda>s. s\<lparr>sk_referrer_id := sk_id rs, sk_referrer_version := sk_version rs\<rparr>)
        })"

definition svz_sock_getreferrer :: "core \<Rightarrow> addr option \<Rightarrow> addr option option" where
  "svz_sock_getreferrer c sock =
     (case sock of
        None \<Rightarrow> Some None
      | Some a \<Rightarrow> do { s \<leftarrow> heap c a; svz_sock_find c (sk_referrer_id s) (sk_referrer_version s) })"

definition svz_sock_portcfg :: "core \<Rightarrow> addr \<Rightarrow> nat option option" where
  "svz_sock_portcfg c sock = do {
     parent \<leftarrow> svz_sock_getparent c (Some sock);
     case parent of None \<Rightarrow> Some None | Some p \<Rightarrow> do { s \<leftarrow> heap c p; Some (sk_port s) }
   }"

subsection \<open>The list\<close>

definition invalid_desc :: "svz_socket \<Rightarrow> bool" where
  "invalid_desc s \<longleftrightarrow> has_flag s SVZ_SOFLG_PIPE \<and> svz_pipe_valid s = -1 \<or> has_flag s SVZ_SOFLG_SOCK \<and> validate_sock s = -1"

definition svz_sock_enqueue :: "core \<Rightarrow> addr \<Rightarrow> (int \<times> core) option" where
  "svz_sock_enqueue c sock = do {
     s \<leftarrow> heap c sock;
     if invalid_desc s then Some (-1, c)
     else do {
       t \<leftarrow> tab_get c (sk_id s);
       if t \<noteq> None \<or> has_flag s SVZ_SOFLG_ENQUEUED then Some (-1, c)
       else do {
         c \<leftarrow> upd c sock (\<lambda>s. s\<lparr>sk_next := None, sk_prev := None\<rparr>);
         c \<leftarrow> (case svz_sock_root c of
                 None \<Rightarrow> Some (c\<lparr>svz_sock_root := Some sock\<rparr>)
               | Some _ \<Rightarrow> do {
                   l \<leftarrow> last_socket c;
                   c \<leftarrow> upd c l (\<lambda>s. s\<lparr>sk_next := Some sock\<rparr>);
                   upd c sock (\<lambda>s. s\<lparr>sk_prev := Some l\<rparr>)
                 });
         c \<leftarrow> upd (c\<lparr>last_socket := Some sock\<rparr>) sock (set_flag SVZ_SOFLG_ENQUEUED);
         c \<leftarrow> tab_set c (sk_id s) (Some sock);
         Some (0, c)
       }
     }
   }"

definition dequeue :: "core \<Rightarrow> addr \<Rightarrow> (int \<times> core) option" where
  "dequeue c sock = do {
     s \<leftarrow> heap c sock;
     if invalid_desc s then Some (-1, c)
     else do {
       t \<leftarrow> tab_get c (sk_id s);
       if t = None \<or> \<not> has_flag s SVZ_SOFLG_ENQUEUED then Some (-1, c)
       else do {
         c \<leftarrow> (case sk_next s of
                 Some n \<Rightarrow> upd c n (\<lambda>s'. s'\<lparr>sk_prev := sk_prev s\<rparr>)
               | None \<Rightarrow> Some (c\<lparr>last_socket := sk_prev s\<rparr>));
         c \<leftarrow> (case sk_prev s of
                 Some p \<Rightarrow> upd c p (\<lambda>s'. s'\<lparr>sk_next := sk_next s\<rparr>)
               | None \<Rightarrow> Some (c\<lparr>svz_sock_root := sk_next s\<rparr>));
         c \<leftarrow> upd c sock (clear_flag SVZ_SOFLG_ENQUEUED);
         c \<leftarrow> tab_set c (sk_id s) None;
         Some (0, c)
       }
     }
   }"

text \<open>The \<^verbatim>\<open>for\<close> loop of \<^verbatim>\<open>rechain_list_of_socks\<close> that looks for the last listener.\<close>

partial_function (option) last_listen_loop :: "core \<Rightarrow> addr \<Rightarrow> bool \<Rightarrow> addr option \<Rightarrow> addr option option" where
  "last_listen_loop c sock sock_listens ll =
     (if ll = None then Some None
      else do {
          let a = the ll;
          s \<leftarrow> heap c a;
          if a \<noteq> sock \<and> has_flag s (SVZ_SOFLG_LISTENING OR SVZ_SOFLG_PRIORITY) \<and> \<not> sock_listens
          then last_listen_loop c sock sock_listens (sk_next s) else Some (Some a)
        })"

definition rechain_list_of_socks :: "core \<Rightarrow> core option" where
  "rechain_list_of_socks c =
     (case last_socket c of
        None \<Rightarrow> Some c
      | Some sock \<Rightarrow> do {
          s \<leftarrow> heap c sock;
          case sk_prev s of
            None \<Rightarrow> Some c
          | Some end_socket \<Rightarrow> do {
              ll \<leftarrow> last_listen_loop c sock (has_flag s SVZ_SOFLG_LISTENING) (svz_sock_root c);
              case ll of
                None \<Rightarrow> Some c
              | Some l \<Rightarrow>
                  if sock = l then Some c
                  else do {
                    ls \<leftarrow> heap c l;
                    c \<leftarrow> (case sk_prev ls of
                            Some l' \<Rightarrow> do {
                              ls' \<leftarrow> heap c l';
                              c \<leftarrow> upd c sock (\<lambda>s. s\<lparr>sk_next := sk_next ls'\<rparr>);
                              n \<leftarrow> sk_next ls';
                              c \<leftarrow> upd c n (\<lambda>s. s\<lparr>sk_prev := Some sock\<rparr>);
                              c \<leftarrow> upd c l' (\<lambda>s. s\<lparr>sk_next := Some sock\<rparr>);
                              upd c sock (\<lambda>s. s\<lparr>sk_prev := Some l'\<rparr>)
                            }
                          | None \<Rightarrow> do {
                              c \<leftarrow> upd c sock (\<lambda>s. s\<lparr>sk_next := svz_sock_root c, sk_prev := None\<rparr>);
                              n \<leftarrow> svz_sock_root c;
                              c \<leftarrow> upd c n (\<lambda>s. s\<lparr>sk_prev := Some sock\<rparr>);
                              Some (c\<lparr>svz_sock_root := Some sock\<rparr>)
                            });
                    c \<leftarrow> upd c end_socket (\<lambda>s. s\<lparr>sk_next := None\<rparr>);
                    Some (c\<lparr>last_socket := Some end_socket\<rparr>)
                  }
            }
        })"

text \<open>
  \<^verbatim>\<open>svz_sock_foreach\<close> is a \<^verbatim>\<open>for\<close> loop over the list with the loop body as a macro argument; the
  state of the loop is any type that holds the core, read by \<open>get\<close>. \<open>svz_foreach_socket\<close> is the
  function that stops at the first negative result.
\<close>

partial_function (option) svz_sock_foreach ::
    "('s \<Rightarrow> core) \<Rightarrow> (addr \<Rightarrow> 's \<Rightarrow> 's option) \<Rightarrow> 's \<Rightarrow> addr option \<Rightarrow> 's option" where
  "svz_sock_foreach get body st cur =
     (if cur = None then Some st
      else do {
        st \<leftarrow> body (the cur) st;
        s \<leftarrow> heap (get st) (the cur);
        svz_sock_foreach get body st (sk_next s)
      })"

partial_function (option) foreach_socket_loop ::
    "(addr \<Rightarrow> core \<Rightarrow> (int \<times> core) option) \<Rightarrow> core \<Rightarrow> addr option \<Rightarrow> (int \<times> core) option" where
  "foreach_socket_loop func c cur =
     (if cur = None then Some (0, c)
      else do {
        (rv, c) \<leftarrow> func (the cur) c;
        if 0 > rv then Some (rv, c)
        else do { s \<leftarrow> heap c (the cur); foreach_socket_loop func c (sk_next s) }
      })"

definition svz_foreach_socket :: "(addr \<Rightarrow> core \<Rightarrow> (int \<times> core) option) \<Rightarrow> core \<Rightarrow> (int \<times> core) option" where
  "svz_foreach_socket func c = foreach_socket_loop func c (svz_sock_root c)"

text \<open>\<^verbatim>\<open>validate_list_of_socks\<close> aborts the program (the result \<^term>\<open>False\<close>) on an inconsistent list.\<close>

partial_function (option) validate_loop :: "core \<Rightarrow> addr option \<Rightarrow> addr option \<Rightarrow> bool option" where
  "validate_loop c prev cur =
     (if cur = None then Some (prev = last_socket c)
      else do {
        s \<leftarrow> heap c (the cur);
        if invalid_desc s then Some False
        else do {
          t \<leftarrow> tab_get c (sk_id s);
          if t \<noteq> cur \<or> prev \<noteq> sk_prev s then Some False
          else validate_loop c cur (sk_next s)
        }
      })"

definition validate_list_of_socks :: "core \<Rightarrow> bool option" where
  "validate_list_of_socks c = validate_loop c None (svz_sock_root c)"

subsection \<open>Shutting down\<close>

datatype sched_task = Kill addr | Scan addr "addr option"

text \<open>
  \<^verbatim>\<open>svz_sock_schedule_for_shutdown\<close> calls itself from the loop over the children of a listener: the
  tasks are a call (\<open>Kill\<close>) and the rest of the loop for a listener (\<open>Scan\<close>).
\<close>

partial_function (option) sched :: "core \<Rightarrow> sched_task \<Rightarrow> core option" where
  "sched c task =
     (case task of
        Kill a \<Rightarrow> do {
          s \<leftarrow> heap c a;
          if has_flag s SVZ_SOFLG_KILLED then Some c
          else do {
            c \<leftarrow> upd c a (set_flag SVZ_SOFLG_KILLED);
            if has_flag s SVZ_SOFLG_LISTENING then sched c (Scan a (svz_sock_root c)) else Some c
          }
        }
      | Scan a cur \<Rightarrow>
          if cur = None then Some c
          else do {
            parent \<leftarrow> svz_sock_getparent c cur;
            c \<leftarrow> (if parent = Some a then sched c (Kill (the cur)) else Some c);
            s \<leftarrow> heap c (the cur);
            sched c (Scan a (sk_next s))
          })"

definition svz_sock_schedule_for_shutdown :: "core \<Rightarrow> addr \<Rightarrow> core option" where
  "svz_sock_schedule_for_shutdown c a = sched c (Kill a)"

text \<open>The results of \<^verbatim>\<open>shutdown\<close>, \<^verbatim>\<open>close\<close> and \<^verbatim>\<open>unlink\<close> are only logged.\<close>

definition svz_sock_disconnect :: "core \<Rightarrow> addr \<Rightarrow> core option" where
  "svz_sock_disconnect c a = do {
     s \<leftarrow> heap c a;
     let c = (if has_flag s SVZ_SOFLG_CONNECTED then c\<lparr>svz_sock_connections := svz_sock_connections c - 1\<rparr> else c);
     upd c a (\<lambda>s. s\<lparr>sk_sock_desc := -1\<rparr>)
   }"

definition svz_pipe_disconnect :: "core \<Rightarrow> addr \<Rightarrow> core option" where
  "svz_pipe_disconnect c a = do {
     s \<leftarrow> heap c a;
     c \<leftarrow> (if has_flag s SVZ_SOFLG_CONNECTED
           then do {
             rsock \<leftarrow> svz_sock_getreferrer c (Some a);
             c \<leftarrow> (case rsock of
                     Some r \<Rightarrow> do { c \<leftarrow> upd c r (clear_flag SVZ_SOFLG_INITED); svz_sock_setreferrer c r None }
                   | None \<Rightarrow> Some c);
             upd c a (\<lambda>s. s\<lparr>sk_pipe_read := -1, sk_pipe_write := -1\<rparr>)
           }
           else Some c);
     if has_flag s SVZ_SOFLG_LISTENING
     then do {
       rsock \<leftarrow> svz_sock_getreferrer c (Some a);
       c \<leftarrow> (case rsock of Some r \<Rightarrow> svz_sock_setreferrer c r None | None \<Rightarrow> Some c);
       upd c a (\<lambda>s. s\<lparr>sk_pipe_read := -1, sk_pipe_write := -1\<rparr>)
     }
     else Some c
   }"

text \<open>\<open>disc\<close> is the \<^verbatim>\<open>disconnected_socket\<close> callback; freeing removes the socket from the heap.\<close>

definition svz_sock_shutdown :: "(addr \<Rightarrow> core \<Rightarrow> core option) \<Rightarrow> core \<Rightarrow> addr \<Rightarrow> core option" where
  "svz_sock_shutdown disc c a = do {
     c \<leftarrow> disc a c;
     (_, c) \<leftarrow> dequeue c a;
     s \<leftarrow> heap c a;
     c \<leftarrow> (if has_flag s SVZ_SOFLG_SOCK then svz_sock_disconnect c a else Some c);
     c \<leftarrow> (if has_flag s SVZ_SOFLG_PIPE then svz_pipe_disconnect c a else Some c);
     Some (c\<lparr>heap := (heap c)(a := None)\<rparr>)
   }"

text \<open>The last loop of \<^verbatim>\<open>svz_loop_one\<close>, and \<^verbatim>\<open>svz_loop_post\<close>.\<close>

partial_function (option) sweep :: "(addr \<Rightarrow> core \<Rightarrow> core option) \<Rightarrow> core \<Rightarrow> addr option \<Rightarrow> core option" where
  "sweep disc c cur =
     (if cur = None then Some c
      else do {
        s \<leftarrow> heap c (the cur);
        c \<leftarrow> (if has_flag s SVZ_SOFLG_KILLED then svz_sock_shutdown disc c (the cur) else Some c);
        sweep disc c (sk_next s)
      })"

partial_function (option) loop_post :: "(addr \<Rightarrow> core \<Rightarrow> core option) \<Rightarrow> core \<Rightarrow> core option" where
  "loop_post disc c =
     (if svz_sock_root c = None then Some c
      else do { c \<leftarrow> svz_sock_shutdown disc c (the (svz_sock_root c)); loop_post disc c })"

definition svz_loop_post :: "(addr \<Rightarrow> core \<Rightarrow> core option) \<Rightarrow> core \<Rightarrow> core option" where
  "svz_loop_post disc c = do { c \<leftarrow> loop_post disc c; Some (c\<lparr>last_socket := None\<rparr>) }"

subsection \<open>Doubly linked segments\<close>

definition hd_or :: "addr list \<Rightarrow> addr option \<Rightarrow> addr option" where
  "hd_or xs n = (case xs of [] \<Rightarrow> n | a # _ \<Rightarrow> Some a)"

definition last_or :: "addr option \<Rightarrow> addr list \<Rightarrow> addr option" where
  "last_or p xs = (if xs = [] then p else Some (last xs))"

fun lseg :: "(addr \<Rightarrow> svz_socket option) \<Rightarrow> addr option \<Rightarrow> addr list \<Rightarrow> addr option \<Rightarrow> bool" where
  "lseg h p [] n \<longleftrightarrow> True"
| "lseg h p (a # xs) n \<longleftrightarrow>
     (\<exists>s. h a = Some s \<and> sk_prev s = p \<and> sk_next s = hd_or xs n) \<and> lseg h (Some a) xs n"

lemma hd_or_simps [simp]: "hd_or [] n = n" "hd_or (a # xs) n = Some a"
  by (simp_all add: hd_or_def)

lemma hd_or_append [simp]: "hd_or (xs @ ys) n = hd_or xs (hd_or ys n)"
  by (cases xs) simp_all

lemma last_or_simps [simp]:
  "last_or p [] = p" "last_or p (a # xs) = last_or (Some a) xs" "last_or p (xs @ ys) = last_or (last_or p xs) ys"
  by (auto simp: last_or_def)

lemma lseg_append: "lseg h p (xs @ ys) n \<longleftrightarrow> lseg h p xs (hd_or ys n) \<and> lseg h (last_or p xs) ys n"
  by (induction xs arbitrary: p) auto

lemma lseg_cong: "(\<And>a. a \<in> set xs \<Longrightarrow> h a = h' a) \<Longrightarrow> lseg h p xs n = lseg h' p xs n"
  by (induction xs arbitrary: p) auto

lemma lseg_frame [simp]: "a \<notin> set xs \<Longrightarrow> lseg (h(a := v)) p xs n = lseg h p xs n"
  by (rule lseg_cong) auto

lemma lseg_alloc: "lseg h p xs n \<Longrightarrow> a \<in> set xs \<Longrightarrow> \<exists>s. h a = Some s"
  by (induction xs arbitrary: p) auto

text \<open>Heap changes that leave the links alone.\<close>

definition same_links :: "(addr \<Rightarrow> svz_socket option) \<Rightarrow> (addr \<Rightarrow> svz_socket option) \<Rightarrow> addr set \<Rightarrow> bool" where
  "same_links h h' A \<longleftrightarrow> (\<forall>a \<in> A. \<forall>s. h a = Some s \<longrightarrow>
     (\<exists>s'. h' a = Some s' \<and> sk_next s' = sk_next s \<and> sk_prev s' = sk_prev s))"

lemma lseg_same_links: "same_links h h' (set xs) \<Longrightarrow> lseg h p xs n \<Longrightarrow> lseg h' p xs n"
  by (induction xs arbitrary: p) (auto simp: same_links_def)

subsection \<open>The invariant\<close>

definition chain :: "core \<Rightarrow> addr list \<Rightarrow> bool" where
  "chain c xs \<longleftrightarrow> distinct xs \<and> lseg (heap c) None xs None \<and> svz_sock_root c = hd_or xs None \<and> last_socket c = last_or None xs"

definition tab_ok :: "core \<Rightarrow> addr list \<Rightarrow> bool" where
  "tab_ok c xs \<longleftrightarrow>
     (\<exists>k. sock_limit c = 2 ^ k) \<and> int (length (socktab c)) = sock_limit c
     \<and> (\<forall>a \<in> set xs. \<exists>s. heap c a = Some s \<and> has_flag s SVZ_SOFLG_ENQUEUED \<and> tab_get c (sk_id s) = Some (Some a))
     \<and> (\<forall>i a. tab_get c i = Some (Some a) \<longrightarrow> a \<in> set xs \<and> (\<exists>s. heap c a = Some s \<and> sk_id s = i))"

definition core_inv :: "core \<Rightarrow> addr list \<Rightarrow> bool" where
  "core_inv c xs \<longleftrightarrow> chain c xs \<and> tab_ok c xs"

lemma tab_ok_member:
  "tab_ok c xs \<Longrightarrow> a \<in> set xs \<Longrightarrow>
   \<exists>s. heap c a = Some s \<and> has_flag s SVZ_SOFLG_ENQUEUED \<and> tab_get c (sk_id s) = Some (Some a)"
  by (simp add: tab_ok_def)

lemma tab_ok_entry:
  "tab_ok c xs \<Longrightarrow> tab_get c i = Some (Some a) \<Longrightarrow> a \<in> set xs \<and> (\<exists>s. heap c a = Some s \<and> sk_id s = i)"
  by (simp add: tab_ok_def)

lemma core_init_inv: "core_inv core_init []"
proof -
  have "\<exists>k. sock_limit core_init = 2 ^ k" by (rule exI [of _ 10]) (simp add: core_init_def)
  moreover have "tab_get core_init i \<noteq> Some (Some a)" for i a by (auto simp: core_init_def tab_get_def nat_less_iff)
  ultimately show ?thesis by (simp add: core_inv_def chain_def tab_ok_def core_init_def)
qed

lemma tab_get_set:
  "0 \<le> i \<Longrightarrow> i < int (length (socktab c)) \<Longrightarrow>
   tab_get (c\<lparr>socktab := (socktab c)[nat i := v]\<rparr>) j = (if j = i then Some v else tab_get c j)"
  by (auto simp: tab_get_def nth_list_update)

lemma tab_get_other [simp]: "tab_get (c\<lparr>heap := h\<rparr>) = tab_get c" "tab_get (c\<lparr>svz_sock_root := r\<rparr>) = tab_get c"
    "tab_get (c\<lparr>last_socket := r\<rparr>) = tab_get c" "tab_get (c\<lparr>sock_version := v\<rparr>) = tab_get c"
    "tab_get (c\<lparr>svz_sock_connections := v\<rparr>) = tab_get c" "tab_get (c\<lparr>sock_id := v\<rparr>) = tab_get c"
    "tab_get (c\<lparr>sock_limit := v\<rparr>) = tab_get c"
  by (simp_all add: tab_get_def fun_eq_iff)

lemma tab_get_bounds: "tab_get c i = Some v \<Longrightarrow> 0 \<le> i \<and> i < int (length (socktab c))"
  by (simp add: tab_get_def split: if_splits)

lemma enqueued_flag [simp]: "has_flag (set_flag SVZ_SOFLG_ENQUEUED s) SVZ_SOFLG_ENQUEUED"
  by (simp add: has_flag_def set_flag_def SVZ_SOFLG_ENQUEUED_def bit.conj_disj_distrib2)

lemma set_flag_id [simp]: "sk_id (set_flag f s) = sk_id s" "sk_id (clear_flag f s) = sk_id s"
  by (simp_all add: set_flag_def clear_flag_def)

lemma chain_last_next:
  assumes "lseg h p (xs @ [l]) None" "l \<notin> set xs" "h l = Some s"
  shows "lseg (h(l \<mapsto> s\<lparr>sk_next := Some a\<rparr>)) p (xs @ [l]) (Some a)"
  using assms by (auto simp: lseg_append)

lemma enqueue_chain:
  assumes "chain c xs" "heap c a = Some s" "a \<notin> set xs" "\<not> invalid_desc s"
    "tab_get c (sk_id s) = Some None" "\<not> has_flag s SVZ_SOFLG_ENQUEUED"
  shows "\<exists>c'. svz_sock_enqueue c a = Some (0, c') \<and> chain c' (xs @ [a])
           \<and> socktab c' = (socktab c)[nat (sk_id s) := Some a] \<and> sock_limit c' = sock_limit c
           \<and> sock_id c' = sock_id c \<and> sock_version c' = sock_version c \<and> svz_sock_connections c' = svz_sock_connections c
           \<and> (\<forall>b. b \<noteq> a \<longrightarrow> map_option (\<lambda>s. s\<lparr>sk_next := None, sk_prev := None\<rparr>) (heap c' b)
                              = map_option (\<lambda>s. s\<lparr>sk_next := None, sk_prev := None\<rparr>) (heap c b))
           \<and> (\<exists>n p. heap c' a = Some (set_flag SVZ_SOFLG_ENQUEUED (s\<lparr>sk_next := n, sk_prev := p\<rparr>)))"
proof (cases xs rule: rev_cases)
  case Nil
  then show ?thesis using assms tab_get_bounds [OF assms(5)]
    by (auto simp: svz_sock_enqueue_def upd_def tab_set_def chain_def set_flag_def)
next
  case (snoc ys l)
  obtain sl where l: "heap c l = Some sl" "l \<noteq> a" using assms(1,3) snoc by (auto simp: chain_def lseg_append)
  obtain r where r: "svz_sock_root c = Some r" using assms(1) snoc by (cases ys) (auto simp: chain_def)
  have ll: "last_socket c = Some l" using assms(1) snoc by (simp add: chain_def)
  have seg: "lseg ((heap c)(l \<mapsto> sl\<lparr>sk_next := Some a\<rparr>)) None (ys @ [l]) (Some a)"
    using assms(1) snoc l by (intro chain_last_next) (auto simp: chain_def)
  let ?s2 = "s\<lparr>sk_next := None, sk_prev := Some l\<rparr>"
  let ?h = "(heap c)(l \<mapsto> sl\<lparr>sk_next := Some a\<rparr>, a \<mapsto> set_flag SVZ_SOFLG_ENQUEUED ?s2)"
  let ?c = "c\<lparr>heap := ?h, last_socket := Some a, socktab := (socktab c)[nat (sk_id s) := Some a]\<rparr>"
  have "svz_sock_enqueue c a = Some (0, ?c)"
    using assms(2,4-6) tab_get_bounds [OF assms(5)] l r ll
    by (simp add: svz_sock_enqueue_def upd_def tab_set_def fun_upd_twist)
  moreover have "lseg ?h None (ys @ [l]) (Some a)" using seg assms(3) snoc by simp
  then have "chain ?c (xs @ [a])"
    using assms(1,3) snoc by (simp add: chain_def lseg_append set_flag_def)
  ultimately show ?thesis using l by (intro exI [of _ ?c]) (auto simp: set_flag_def)
qed

text \<open>What the list operations leave of a socket: everything but the links.\<close>

definition payload :: "svz_socket \<Rightarrow> svz_socket" where
  "payload s = s\<lparr>sk_next := None, sk_prev := None\<rparr>"

definition same_payload :: "core \<Rightarrow> core \<Rightarrow> addr set \<Rightarrow> bool" where
  "same_payload c c' A \<longleftrightarrow> (\<forall>b \<in> A. map_option payload (heap c' b) = map_option payload (heap c b))"

lemma payload_simps [simp]:
  "payload (s\<lparr>sk_next := n\<rparr>) = payload s" "payload (s\<lparr>sk_prev := n\<rparr>) = payload s" "sk_flags (payload s) = sk_flags s"
  "sk_id (payload s) = sk_id s" "sk_version (payload s) = sk_version s"
  by (simp_all add: payload_def)

lemma payload_fields:
  assumes "map_option payload x = map_option payload y" "y = Some s"
  shows "\<exists>s'. x = Some s' \<and> sk_id s' = sk_id s \<and> sk_flags s' = sk_flags s \<and> sk_version s' = sk_version s"
  using assms by (cases x) (auto, (metis payload_simps(3-5))+)

lemma same_payload_fields:
  assumes "same_payload c c' A" "b \<in> A" "heap c b = Some s"
  shows "\<exists>s'. heap c' b = Some s' \<and> sk_id s' = sk_id s \<and> sk_flags s' = sk_flags s \<and> sk_version s' = sk_version s"
  using assms payload_fields unfolding same_payload_def by blast

lemma has_flag_cong: "sk_flags s = sk_flags s' \<Longrightarrow> has_flag s f = has_flag s' f"
  by (simp add: has_flag_def)

lemma tab_ok_add:
  assumes "tab_ok c xs" "a \<notin> set xs" "tab_get c i = Some None" "same_payload c c' (set xs)"
    "socktab c' = (socktab c)[nat i := Some a]" "sock_limit c' = sock_limit c"
    "heap c' a = Some s" "sk_id s = i" "has_flag s SVZ_SOFLG_ENQUEUED"
  shows "tab_ok c' (xs @ [a])"
proof -
  have tg: "tab_get c' j = (if j = i then Some (Some a) else tab_get c j)" for j
    using tab_get_bounds [OF assms(3)] by (auto simp: tab_get_def assms(5) nth_list_update)
  have "\<exists>s. heap c' b = Some s \<and> has_flag s SVZ_SOFLG_ENQUEUED \<and> tab_get c' (sk_id s) = Some (Some b)" if b: "b \<in> set xs" for b
  proof -
    obtain t where "heap c b = Some t" "has_flag t SVZ_SOFLG_ENQUEUED" "tab_get c (sk_id t) = Some (Some b)"
      using tab_ok_member [OF assms(1) b] by blast
    then obtain t' where "heap c' b = Some t'" "sk_id t' = sk_id t" "sk_flags t' = sk_flags t" and ne: "sk_id t \<noteq> i"
      using same_payload_fields [OF assms(4) b] assms(3) by fastforce
    then show ?thesis using tg \<open>has_flag t SVZ_SOFLG_ENQUEUED\<close> \<open>tab_get c (sk_id t) = Some (Some b)\<close>
      by (simp add: has_flag_def)
  qed
  moreover have "b \<in> set (xs @ [a]) \<and> (\<exists>s. heap c' b = Some s \<and> sk_id s = j)" if "tab_get c' j = Some (Some b)" for j b
  proof (cases "j = i")
    case True
    then show ?thesis using that tg assms(7,8) by auto
  next
    case False
    then have "tab_get c j = Some (Some b)" using that tg [of j] by simp
    then obtain t where "b \<in> set xs" "heap c b = Some t" "sk_id t = j"
      using tab_ok_entry [OF assms(1)] by blast
    then show ?thesis using same_payload_fields [OF assms(4), of b t] by auto
  qed
  ultimately show ?thesis using assms tg unfolding tab_ok_def by auto
qed

lemma enqueue_inv:
  assumes "core_inv c xs" "heap c a = Some s" "\<not> invalid_desc s"
    "tab_get c (sk_id s) = Some None" "\<not> has_flag s SVZ_SOFLG_ENQUEUED"
  shows "\<exists>c' n p. svz_sock_enqueue c a = Some (0, c') \<and> core_inv c' (xs @ [a])
           \<and> same_payload c c' (- {a}) \<and> heap c' a = Some (set_flag SVZ_SOFLG_ENQUEUED (s\<lparr>sk_next := n, sk_prev := p\<rparr>))
           \<and> sock_id c' = sock_id c \<and> sock_version c' = sock_version c \<and> sock_limit c' = sock_limit c
           \<and> svz_sock_connections c' = svz_sock_connections c"
proof -
  have a: "a \<notin> set xs" using assms(1,2,5) by (auto simp: core_inv_def tab_ok_def)
  obtain c' n p where c': "svz_sock_enqueue c a = Some (0, c')" "chain c' (xs @ [a])"
      "socktab c' = (socktab c)[nat (sk_id s) := Some a]" "sock_limit c' = sock_limit c"
      "sock_id c' = sock_id c" "sock_version c' = sock_version c" "svz_sock_connections c' = svz_sock_connections c"
      "\<forall>b. b \<noteq> a \<longrightarrow> map_option (\<lambda>s. s\<lparr>sk_next := None, sk_prev := None\<rparr>) (heap c' b)
                              = map_option (\<lambda>s. s\<lparr>sk_next := None, sk_prev := None\<rparr>) (heap c b)"
      "heap c' a = Some (set_flag SVZ_SOFLG_ENQUEUED (s\<lparr>sk_next := n, sk_prev := p\<rparr>))"
    using enqueue_chain [of c xs a s] assms a unfolding core_inv_def by blast
  have pay: "same_payload c c' (- {a})" using c'(8) by (auto simp: same_payload_def payload_def [abs_def])
  then have "same_payload c c' (set xs)" using a by (auto simp: same_payload_def)
  then have "tab_ok c' (xs @ [a])"
    using assms(1) by (intro tab_ok_add [OF _ a assms(4) _ c'(3,4,9)]) (simp_all add: core_inv_def set_flag_id)
  then show ?thesis using c' pay unfolding core_inv_def by blast
qed

subsection \<open>Removal and reordering\<close>

lemma lseg_set_last_next:
  "lseg h p ys n \<Longrightarrow> distinct ys \<Longrightarrow> ys \<noteq> [] \<Longrightarrow> h (last ys) = Some s \<Longrightarrow> lseg (h(last ys \<mapsto> s\<lparr>sk_next := m\<rparr>)) p ys m"
  by (cases ys rule: rev_cases) (auto simp: lseg_append)

lemma lseg_set_first_prev:
  "lseg h p (z # zs) n \<Longrightarrow> distinct (z # zs) \<Longrightarrow> h z = Some s \<Longrightarrow> lseg (h(z \<mapsto> s\<lparr>sk_prev := q\<rparr>)) q (z # zs) n"
  by auto

text \<open>The two pointer updates of a removal, as functions on the heap.\<close>

definition set_prev_of :: "addr option \<Rightarrow> addr option \<Rightarrow> (addr \<Rightarrow> svz_socket option) \<Rightarrow> addr \<Rightarrow> svz_socket option" where
  "set_prev_of n v h = (case n of None \<Rightarrow> h | Some a \<Rightarrow> h(a := map_option (\<lambda>s. s\<lparr>sk_prev := v\<rparr>) (h a)))"

definition set_next_of :: "addr option \<Rightarrow> addr option \<Rightarrow> (addr \<Rightarrow> svz_socket option) \<Rightarrow> addr \<Rightarrow> svz_socket option" where
  "set_next_of p v h = (case p of None \<Rightarrow> h | Some a \<Rightarrow> h(a := map_option (\<lambda>s. s\<lparr>sk_next := v\<rparr>) (h a)))"

lemma lseg_set_prev: "lseg h p zs n \<Longrightarrow> distinct zs \<Longrightarrow> lseg (set_prev_of (hd_or zs None) q h) q zs n"
  by (cases zs) (auto simp: set_prev_of_def)

lemma lseg_set_next: "lseg h p ys n \<Longrightarrow> distinct ys \<Longrightarrow> lseg (set_next_of (last_or None ys) m h) p ys m"
  by (cases ys rule: rev_cases) (auto simp: set_next_of_def lseg_append)

lemma lseg_set_prev_other: "(\<And>a. n = Some a \<Longrightarrow> a \<notin> set ys) \<Longrightarrow> lseg (set_prev_of n v h) p ys m = lseg h p ys m"
  by (cases n) (simp_all add: set_prev_of_def)

lemma lseg_set_next_other: "(\<And>a. n = Some a \<Longrightarrow> a \<notin> set ys) \<Longrightarrow> lseg (set_next_of n v h) p ys m = lseg h p ys m"
  by (cases n) (simp_all add: set_next_of_def)

lemma hd_or_in: "hd_or zs None = Some a \<Longrightarrow> a \<in> set zs"
  by (cases zs) auto

lemma last_or_in: "last_or None zs = Some a \<Longrightarrow> a \<in> set zs"
  by (auto simp: last_or_def split: if_splits)

lemma unlink_lseg:
  assumes "lseg h None (ys @ a # zs) None" "distinct (ys @ a # zs)"
  shows "lseg (set_next_of (last_or None ys) (hd_or zs None) (set_prev_of (hd_or zs None) (last_or None ys) h)) None (ys @ zs) None"
proof -
  have seg: "lseg h None ys (Some a)" "lseg h (Some a) zs None" using assms(1) by (simp_all add: lseg_append)
  have "lseg (set_prev_of (hd_or zs None) (last_or None ys) h) (last_or None ys) zs None"
    using seg(2) assms(2) by (intro lseg_set_prev) auto
  moreover have "lseg (set_prev_of (hd_or zs None) (last_or None ys) h) None ys (Some a)"
    using seg(1) assms(2) by (subst lseg_set_prev_other) (auto dest: hd_or_in)
  moreover have "a \<notin> set zs" if "last_or None ys = Some a" for a using last_or_in [OF that] assms(2) by auto
  ultimately show ?thesis using assms(2) unfolding lseg_append
    by (auto simp: lseg_set_next_other intro: lseg_set_next)
qed

lemma set_of_payload:
  "map_option payload (set_next_of p v h b) = map_option payload (h b)"
  "map_option payload (set_prev_of p v h b) = map_option payload (h b)"
  by (auto simp: set_next_of_def set_prev_of_def option.map_comp comp_def split: option.splits)

lemma tab_ok_remove:
  assumes "tab_ok c (ys @ a # zs)" "distinct (ys @ a # zs)" "heap c a = Some s" "same_payload c c' (- {a})"
    "socktab c' = (socktab c)[nat (sk_id s) := None]" "sock_limit c' = sock_limit c"
  shows "tab_ok c' (ys @ zs)"
proof -
  have i: "tab_get c (sk_id s) = Some (Some a)" using tab_ok_member [OF assms(1), of a] assms(3) by auto
  have tg: "tab_get c' j = (if j = sk_id s then Some None else tab_get c j)" for j
    using tab_get_bounds [OF i] by (auto simp: tab_get_def assms(5) nth_list_update)
  have "\<exists>s. heap c' b = Some s \<and> has_flag s SVZ_SOFLG_ENQUEUED \<and> tab_get c' (sk_id s) = Some (Some b)" if b: "b \<in> set (ys @ zs)" for b
  proof -
    have ab: "b \<noteq> a" "b \<in> set (ys @ a # zs)" using b assms(2) by auto
    obtain t where t: "heap c b = Some t" "has_flag t SVZ_SOFLG_ENQUEUED" "tab_get c (sk_id t) = Some (Some b)"
      using tab_ok_member [OF assms(1) ab(2)] by blast
    obtain t' where t': "heap c' b = Some t'" "sk_id t' = sk_id t" "sk_flags t' = sk_flags t"
      using same_payload_fields [OF assms(4) _ t(1)] ab(1) by auto
    have "sk_id t \<noteq> sk_id s" using t(3) i ab(1) by auto
    then show ?thesis using t t' tg [of "sk_id t"] by (simp add: has_flag_def)
  qed
  moreover have "b \<in> set (ys @ zs) \<and> (\<exists>s. heap c' b = Some s \<and> sk_id s = j)" if j: "tab_get c' j = Some (Some b)" for j b
  proof -
    have ne: "j \<noteq> sk_id s" "tab_get c j = Some (Some b)" using j tg [of j] by (auto split: if_splits)
    obtain t where t: "b \<in> set (ys @ a # zs)" "heap c b = Some t" "sk_id t = j"
      using tab_ok_entry [OF assms(1) ne(2)] by blast
    have "b \<noteq> a" using t(2,3) ne(1) assms(3) by auto
    then show ?thesis using t same_payload_fields [OF assms(4) _ t(2)] by auto
  qed
  ultimately show ?thesis using assms(1,5,6) unfolding tab_ok_def by auto
qed

lemma dequeue_inv:
  assumes "core_inv c xs" "a \<in> set xs" "heap c a = Some s" "\<not> invalid_desc s"
  shows "\<exists>c' n p. dequeue c a = Some (0, c') \<and> core_inv c' (remove1 a xs) \<and> same_payload c c' (- {a})
           \<and> heap c' a = Some (clear_flag SVZ_SOFLG_ENQUEUED (s\<lparr>sk_next := n, sk_prev := p\<rparr>))
           \<and> sock_id c' = sock_id c \<and> sock_version c' = sock_version c \<and> sock_limit c' = sock_limit c
           \<and> svz_sock_connections c' = svz_sock_connections c"
proof -
  have ch: "chain c xs" and tab: "tab_ok c xs" using assms(1) by (simp_all add: core_inv_def)
  obtain ys zs where xs: "xs = ys @ a # zs" using split_list [OF assms(2)] by blast
  have dist: "distinct (ys @ a # zs)" and seg: "lseg (heap c) None (ys @ a # zs) None"
    using ch xs by (simp_all add: chain_def)
  have s: "sk_prev s = last_or None ys" "sk_next s = hd_or zs None"
    using seg assms(3) by (auto simp: lseg_append)
  have t: "tab_get c (sk_id s) = Some (Some a)" "has_flag s SVZ_SOFLG_ENQUEUED"
    using tab_ok_member [OF tab assms(2)] assms(3) by auto
  let ?h1 = "set_next_of (sk_prev s) (sk_next s) (set_prev_of (sk_next s) (sk_prev s) (heap c))"
  let ?h = "?h1(a \<mapsto> clear_flag SVZ_SOFLG_ENQUEUED s)"
  let ?c = "c\<lparr>heap := ?h, last_socket := last_or None (ys @ zs), svz_sock_root := hd_or (ys @ zs) None,
              socktab := (socktab c)[nat (sk_id s) := None]\<rparr>"
  have alloc: "\<exists>t. heap c b = Some t" if "b \<in> set xs" for b using lseg_alloc seg xs that by blast
  have ends: "svz_sock_root c = hd_or xs None" "last_socket c = last_or None xs" using ch by (simp_all add: chain_def)
  have deq: "dequeue c a = Some (0, ?c)"
  proof (cases zs)
    case Nil
    show ?thesis
    proof (cases ys rule: rev_cases)
      case Nil
      then show ?thesis using \<open>zs = []\<close> assms(3,4) s t tab_get_bounds [OF t(1)]
        by (simp add: dequeue_def upd_def tab_set_def set_next_of_def set_prev_of_def)
    next
      case (snoc ys' l)
      then obtain sl where "heap c l = Some sl" "l \<noteq> a" using alloc [of l] xs dist by auto
      then show ?thesis using snoc \<open>zs = []\<close> assms(3,4) s t tab_get_bounds [OF t(1)] ends xs
        by (cases ys') (simp_all add: dequeue_def upd_def tab_set_def set_next_of_def set_prev_of_def)
    qed
  next
    case (Cons z zs')
    then obtain sz where z: "heap c z = Some sz" "z \<noteq> a" using alloc [of z] xs dist by auto
    show ?thesis
    proof (cases ys rule: rev_cases)
      case Nil
      then show ?thesis using z Cons assms(3,4) s t tab_get_bounds [OF t(1)] ends xs
        by (simp add: dequeue_def upd_def tab_set_def set_next_of_def set_prev_of_def)
    next
      case (snoc ys' l)
      then obtain sl where "heap c l = Some sl" "l \<noteq> a" "l \<noteq> z" using alloc [of l] xs dist Cons by auto
      then show ?thesis using z snoc Cons assms(3,4) s t tab_get_bounds [OF t(1)] ends xs
        by (cases ys') (simp_all add: dequeue_def upd_def tab_set_def set_next_of_def set_prev_of_def)
    qed
  qed
  have pay: "same_payload c ?c (- {a})" by (simp add: same_payload_def set_of_payload)
  have "lseg ?h1 None (ys @ zs) None" using unlink_lseg [OF seg dist] s by simp
  then have "chain ?c (ys @ zs)" using dist by (simp add: chain_def)
  moreover have "tab_ok ?c (ys @ zs)"
    by (rule tab_ok_remove [OF tab [unfolded xs] dist assms(3) pay]) simp_all
  moreover have "remove1 a xs = ys @ zs" using xs dist by (simp add: remove1_append)
  ultimately show ?thesis using deq pay unfolding core_inv_def
    by (intro exI [of _ ?c] exI [of _ "sk_next s"] exI [of _ "sk_prev s"]) simp
qed

text \<open>Where \<^verbatim>\<open>rechain_list_of_socks\<close> moves the last socket: behind the leading listeners.\<close>

definition listens :: "core \<Rightarrow> addr \<Rightarrow> bool" where
  "listens c a \<longleftrightarrow> (case heap c a of Some s \<Rightarrow> has_flag s SVZ_SOFLG_LISTENING | None \<Rightarrow> False)"

definition prefers :: "core \<Rightarrow> addr \<Rightarrow> bool" where
  "prefers c a \<longleftrightarrow> (case heap c a of Some s \<Rightarrow> has_flag s (SVZ_SOFLG_LISTENING OR SVZ_SOFLG_PRIORITY) | None \<Rightarrow> False)"

definition rechained :: "core \<Rightarrow> addr list \<Rightarrow> addr list" where
  "rechained c xs =
     (if xs = [] then []
      else let front = takeWhile (\<lambda>b. prefers c b \<and> \<not> listens c (last xs)) (butlast xs)
           in front @ last xs # drop (length front) (butlast xs))"

lemma last_listen_loop_spec:
  assumes "lseg (heap c) p (zs @ [a]) n" "a \<notin> set zs"
  shows "last_listen_loop c a lst (hd_or (zs @ [a]) n) =
           Some (Some (hd (dropWhile (\<lambda>b. prefers c b \<and> \<not> lst) zs @ [a])))"
  using assms
proof (induction zs arbitrary: p)
  case Nil
  then show ?case by (subst last_listen_loop.simps) auto
next
  case (Cons z zs)
  then obtain s where s: "heap c z = Some s" "sk_next s = hd_or (zs @ [a]) n" "z \<noteq> a" by auto
  show ?case
  proof (cases "prefers c z \<and> \<not> lst")
    case True
    then have "last_listen_loop c a lst (Some z) = last_listen_loop c a lst (sk_next s)"
      using s by (subst last_listen_loop.simps) (simp add: prefers_def)
    moreover have "last_listen_loop c a lst (sk_next s) = Some (Some (hd (dropWhile (\<lambda>b. prefers c b \<and> \<not> lst) zs @ [a])))"
      using Cons.IH [of "Some z"] Cons.prems s(2) by auto
    ultimately show ?thesis using True by simp
  next
    case False
    then have "last_listen_loop c a lst (Some z) = Some (Some z)"
      using s by (subst last_listen_loop.simps) (auto simp: prefers_def)
    then show ?thesis using False by auto
  qed
qed

definition relink :: "addr \<Rightarrow> svz_socket \<Rightarrow> addr list \<Rightarrow> addr list \<Rightarrow> (addr \<Rightarrow> svz_socket option) \<Rightarrow> addr \<Rightarrow> svz_socket option" where
  "relink a sa front rest h =
     set_next_of (last_or None rest) None (set_next_of (last_or None front) (Some a)
       (set_prev_of (hd_or rest None) (Some a)
         (h(a \<mapsto> sa\<lparr>sk_next := hd_or rest None, sk_prev := last_or None front\<rparr>))))"

lemma relink_payload: "h a = Some sa \<Longrightarrow> map_option payload (relink a sa front rest h b) = map_option payload (h b)"
  by (simp add: relink_def set_of_payload)

lemma relink_lseg:
  assumes "lseg h None (front @ rest @ [a]) None" "distinct (front @ rest @ [a])" "rest \<noteq> []" "h a = Some sa"
  shows "lseg (relink a sa front rest h) None (front @ a # rest) None"
proof -
  let ?s = "sa\<lparr>sk_next := hd_or rest None, sk_prev := last_or None front\<rparr>"
  let ?h1 = "h(a \<mapsto> ?s)"
  let ?h2 = "set_prev_of (hd_or rest None) (Some a) ?h1"
  let ?h3 = "set_next_of (last_or None front) (Some a) ?h2"
  obtain r rs where r: "rest = r # rs" using assms(3) by (cases rest) auto
  have nin: "\<And>b. hd_or rest None = Some b \<Longrightarrow> b \<notin> set front \<and> b \<noteq> a" "\<And>b. last_or None front = Some b \<Longrightarrow> b \<notin> set rest \<and> b \<noteq> a"
    "\<And>b. last_or None rest = Some b \<Longrightarrow> b \<notin> set front \<and> b \<noteq> a"
    using assms(2) by (auto dest!: hd_or_in last_or_in)
  have segs: "lseg h None front (hd_or rest None)" "lseg h (last_or None front) rest (Some a)"
    using assms(1) r by (auto simp: lseg_append)
  have "lseg ?h1 None front (hd_or rest None)" "lseg ?h1 (last_or None front) rest (Some a)"
    using segs assms(2) by (simp_all add: lseg_frame)
  then have "lseg ?h2 None front (hd_or rest None)" "lseg ?h2 (Some a) rest (Some a)"
    using nin(1) assms(2) by (auto simp: lseg_set_prev_other intro: lseg_set_prev)
  then have "lseg ?h3 None front (Some a)" "lseg ?h3 (Some a) rest (Some a)"
    using nin(2) assms(2) by (auto simp: lseg_set_next_other intro: lseg_set_next)
  then have fr: "lseg (relink a sa front rest h) None front (Some a)" "lseg (relink a sa front rest h) (Some a) rest None"
    using nin(3) assms(2) unfolding relink_def by (auto simp: lseg_set_next_other intro: lseg_set_next)
  have "relink a sa front rest h a = Some ?s"
    using nin unfolding relink_def by (auto simp: set_next_of_def set_prev_of_def split: option.splits)
  then show ?thesis using fr by (auto simp: lseg_append)
qed

lemma takeWhile_drop: "dropWhile P xs = drop (length (takeWhile P xs)) xs"
  by (induction xs) auto

lemma rechain_heap:
  assumes "chain c (front @ l # rest @ [a])" "heap c a = Some sa"
    "last_listen_loop c a (has_flag sa SVZ_SOFLG_LISTENING) (svz_sock_root c) = Some (Some l)"
  shows "rechain_list_of_socks c = Some (c\<lparr>heap := relink a sa front (l # rest) (heap c),
           svz_sock_root := hd_or (front @ [a]) None, last_socket := last_or None (l # rest)\<rparr>)"
proof -
  have dist: "distinct (front @ l # rest @ [a])" and seg: "lseg (heap c) None (front @ (l # rest) @ [a]) None"
    using assms(1) by (simp_all add: chain_def)
  obtain e where e: "last_or None (l # rest) = Some e" "e \<in> set (l # rest)" by (auto simp: last_or_def)
  obtain sl where sl: "heap c l = Some sl" "sk_prev sl = last_or None front" using seg by (auto simp: lseg_append)
  have alloc: "\<exists>t. heap c b = Some t" if "b \<in> set (front @ (l # rest) @ [a])" for b using lseg_alloc [OF seg that] .
  obtain se where se: "heap c e = Some se" using alloc [of e] e(2) by auto
  have a: "last_socket c = Some a" "sk_prev sa = Some e" "a \<noteq> l" "e \<noteq> a"
    using assms(1,2) seg e dist by (auto simp: chain_def lseg_append)
  have eq: "last_or (Some l) rest = Some e" using e(1) by simp
  show ?thesis
  proof (cases front rule: rev_cases)
    case Nil
    then have "svz_sock_root c = Some l" using assms(1) by (simp add: chain_def)
    then show ?thesis using Nil a assms(2,3) sl se eq
      by (cases "e = l") (simp_all add: rechain_list_of_socks_def upd_def relink_def set_next_of_def set_prev_of_def)
  next
    case (snoc fs l')
    then obtain s' where s': "heap c l' = Some s'" "sk_next s' = Some l" "l' \<noteq> a" "l' \<noteq> l" "l' \<noteq> e"
      using seg dist e(2) by (auto simp: lseg_append)
    have "svz_sock_root c = hd_or (front @ [a]) None" using assms(1) snoc by (cases fs) (simp_all add: chain_def)
    then show ?thesis using snoc a assms(2,3) sl se eq s'
      by (cases "e = l") (simp_all add: rechain_list_of_socks_def upd_def relink_def set_next_of_def set_prev_of_def fun_upd_twist)
  qed
qed

lemma tab_ok_perm:
  assumes "tab_ok c xs" "same_payload c c' UNIV" "socktab c' = socktab c" "sock_limit c' = sock_limit c" "set xs' = set xs"
  shows "tab_ok c' xs'"
proof -
  have tg: "tab_get c' = tab_get c" using assms(3) by (simp add: tab_get_def fun_eq_iff)
  have "\<exists>s. heap c' b = Some s \<and> has_flag s SVZ_SOFLG_ENQUEUED \<and> tab_get c' (sk_id s) = Some (Some b)" if "b \<in> set xs'" for b
  proof -
    have "b \<in> set xs" using that assms(5) by simp
    then obtain t where t: "heap c b = Some t" "has_flag t SVZ_SOFLG_ENQUEUED" "tab_get c (sk_id t) = Some (Some b)"
      using tab_ok_member [OF assms(1)] by blast
    obtain t' where "heap c' b = Some t'" "sk_id t' = sk_id t" "sk_flags t' = sk_flags t"
      using same_payload_fields [OF assms(2) UNIV_I t(1)] by blast
    then show ?thesis using t(2,3) tg by (simp add: has_flag_def)
  qed
  moreover have "b \<in> set xs' \<and> (\<exists>s. heap c' b = Some s \<and> sk_id s = j)" if j: "tab_get c' j = Some (Some b)" for j b
  proof -
    obtain t where t: "b \<in> set xs" "heap c b = Some t" "sk_id t = j"
      using tab_ok_entry [OF assms(1)] j tg by metis
    then show ?thesis using same_payload_fields [OF assms(2) UNIV_I t(2)] assms(5) by metis
  qed
  ultimately show ?thesis using assms unfolding tab_ok_def by auto
qed

lemma rechain_inv:
  assumes "core_inv c xs"
  shows "\<exists>c'. rechain_list_of_socks c = Some c' \<and> core_inv c' (rechained c xs) \<and> same_payload c c' UNIV
           \<and> sock_id c' = sock_id c \<and> sock_version c' = sock_version c \<and> sock_limit c' = sock_limit c
           \<and> socktab c' = socktab c \<and> svz_sock_connections c' = svz_sock_connections c"
proof (cases xs rule: rev_cases)
  case Nil
  then have "rechain_list_of_socks c = Some c"
    using assms by (simp add: rechain_list_of_socks_def core_inv_def chain_def)
  then show ?thesis using assms Nil by (simp add: rechained_def same_payload_def)
next
  case (snoc ys a)
  have ch: "chain c (ys @ [a])" and tab: "tab_ok c (ys @ [a])" using assms snoc by (simp_all add: core_inv_def)
  then have dist: "distinct (ys @ [a])" and seg: "lseg (heap c) None (ys @ [a]) None" by (simp_all add: chain_def)
  obtain sa where sa: "heap c a = Some sa" "sk_prev sa = last_or None ys" using seg by (auto simp: lseg_append)
  let ?lst = "has_flag sa SVZ_SOFLG_LISTENING"
  let ?P = "\<lambda>b. prefers c b \<and> \<not> ?lst"
  let ?front = "takeWhile ?P ys"
  have re: "rechained c xs = ?front @ a # dropWhile ?P ys"
    using snoc sa by (simp add: rechained_def listens_def takeWhile_drop Let_def)
  have ll: "last_listen_loop c a ?lst (svz_sock_root c) = Some (Some (hd (dropWhile ?P ys @ [a])))"
    using last_listen_loop_spec [OF seg, of ?lst] dist ch by (simp add: chain_def)
  show ?thesis
  proof (cases "dropWhile ?P ys")
    case Nil
    then have "?front = ys" using takeWhile_dropWhile_id [of ?P ys] by simp
    then have same: "rechained c xs = xs" using re Nil snoc by simp
    have "rechain_list_of_socks c = Some c"
    proof (cases "ys = []")
      case True
      then show ?thesis using ch sa by (simp add: rechain_list_of_socks_def chain_def)
    next
      case False
      then show ?thesis using ch sa ll Nil by (simp add: rechain_list_of_socks_def chain_def last_or_def)
    qed
    then show ?thesis using assms same by (simp add: same_payload_def)
  next
    case (Cons l rest)
    then have ys: "ys = ?front @ l # rest" using takeWhile_dropWhile_id [of ?P ys] by simp
    define front where "front = ?front"
    have ys': "ys = front @ l # rest" using ys front_def by simp
    have ch': "chain c (front @ l # rest @ [a])" using ch ys' by simp
    let ?c = "c\<lparr>heap := relink a sa front (l # rest) (heap c),
           svz_sock_root := hd_or (front @ [a]) None, last_socket := last_or None (l # rest)\<rparr>"
    have rc: "rechain_list_of_socks c = Some ?c"
      using rechain_heap [OF ch' sa(1)] ll Cons by simp
    have "lseg (relink a sa front (l # rest) (heap c)) None (front @ a # l # rest) None"
      using relink_lseg [of "heap c" front "l # rest" a sa] ch' sa(1) by (simp add: chain_def)
    moreover have "hd_or (front @ [a]) None = hd_or (front @ a # l # rest) None" by simp
    ultimately have "chain ?c (front @ a # l # rest)" using ch' by (auto simp: chain_def)
    moreover have pay: "same_payload c ?c UNIV" using relink_payload [of "heap c" a sa, OF sa(1)] by (simp add: same_payload_def)
    then have "tab_ok ?c (front @ a # l # rest)" using tab ys' by (intro tab_ok_perm [OF tab pay]) auto
    ultimately show ?thesis using rc pay re Cons front_def by (auto simp: core_inv_def)
  qed
qed

subsection \<open>Lookup and fresh identities\<close>

lemma and_not_mask_zero_iff: "i AND NOT (2 ^ k - 1 :: int) = 0 \<longleftrightarrow> 0 \<le> i \<and> i < 2 ^ k"
proof -
  have "i AND NOT (mask k) = 0 \<longleftrightarrow> i AND mask k = i" by (auto simp: bit_eq_iff bit_simps)
  also have "\<dots> \<longleftrightarrow> take_bit k i = i" by (simp add: take_bit_eq_mask)
  also have "\<dots> \<longleftrightarrow> 0 \<le> i \<and> i < 2 ^ k" by (simp add: take_bit_int_eq_self_iff)
  finally show ?thesis by (simp add: mask_eq_exp_minus_1)
qed

lemma and_mask_mod: "i AND (2 ^ k - 1 :: int) = i mod 2 ^ k"
  by (simp add: mask_eq_exp_minus_1 [symmetric] take_bit_eq_mask [symmetric] take_bit_eq_mod)

lemma find_spec:
  assumes "core_inv c xs"
  shows "\<exists>r. svz_sock_find c i v = Some r
           \<and> (\<forall>a. r = Some a \<longleftrightarrow> a \<in> set xs \<and> (\<exists>s. heap c a = Some s \<and> sk_id s = i \<and> (v = -1 \<or> sk_version s = v)))"
proof -
  have tab: "tab_ok c xs" using assms by (simp add: core_inv_def)
  then obtain k where k: "sock_limit c = 2 ^ k" "int (length (socktab c)) = 2 ^ k" by (auto simp: tab_ok_def)
  have mem: "tab_get c i = Some (Some a) \<longleftrightarrow> a \<in> set xs \<and> (\<exists>s. heap c a = Some s \<and> sk_id s = i)" for a
    using tab_ok_member [OF tab, of a] tab_ok_entry [OF tab, of i a] by auto
  show ?thesis
  proof (cases "0 \<le> i \<and> i < 2 ^ k")
    case False
    then have "svz_sock_find c i v = Some None" by (simp add: svz_sock_find_def k and_not_mask_zero_iff)
    moreover have "tab_get c i = None" using False k by (simp add: tab_get_def)
    ultimately show ?thesis using mem by auto
  next
    case True
    then obtain e where e: "tab_get c i = Some e" using k by (simp add: tab_get_def)
    have z: "i AND NOT (sock_limit c - 1) = 0" using True k by (simp add: and_not_mask_zero_iff)
    show ?thesis
    proof (cases e)
      case None
      then show ?thesis using e z mem by (auto simp: svz_sock_find_def)
    next
      case (Some a)
      then obtain s where s: "a \<in> set xs" "heap c a = Some s" "sk_id s = i" using mem e by blast
      have f: "svz_sock_find c i v = Some (if v = -1 \<or> sk_version s = v then Some a else None)"
        using e z Some s by (simp add: svz_sock_find_def)
      have uniq: "b = a" if "b \<in> set xs" "\<exists>t. heap c b = Some t \<and> sk_id t = i" for b
        using mem [of b] that e Some by simp
      have "(if v = -1 \<or> sk_version s = v then Some a else None) = Some b \<longleftrightarrow>
          b \<in> set xs \<and> (\<exists>s. heap c b = Some s \<and> sk_id s = i \<and> (v = -1 \<or> sk_version s = v))" for b
      proof (cases "b = a")
        case True
        then show ?thesis using s by simp
      next
        case False
        then show ?thesis using uniq [of b] by (simp split: if_split) blast
      qed
      then show ?thesis by (intro exI [of _ "if v = -1 \<or> sk_version s = v then Some a else None"] conjI f allI)
    qed
  qed
qed

lemma unique_id_loop_spec:
  assumes "sock_limit c = 2 ^ k" "int (length (socktab c)) = 2 ^ k"
  shows "\<exists>j found. unique_id_loop c n i = Some (j, found)
           \<and> (if found then tab_get c j = Some None
              else \<forall>m \<in> {1..n}. tab_get c ((i + int m) mod 2 ^ k) \<noteq> Some None)"
proof (induction n arbitrary: i)
  case (Suc n)
  let ?i = "(i + 1) mod 2 ^ k"
  have step: "(i + 1) AND (sock_limit c - 1) = ?i" using and_mask_mod [of "i + 1" k] assms(1) by simp
  have "0 \<le> ?i" "?i < 2 ^ k" by simp_all
  then obtain t where t: "tab_get c ?i = Some t" using assms(2) by (simp add: tab_get_def)
  show ?case
  proof (cases t)
    case None
    then show ?thesis using t by (auto simp: step Let_def)
  next
    case (Some a)
    obtain j found where j: "unique_id_loop c n ?i = Some (j, found)"
        "if found then tab_get c j = Some None else \<forall>m \<in> {1..n}. tab_get c ((?i + int m) mod 2 ^ k) \<noteq> Some None"
      using Suc.IH by blast
    have "tab_get c ((i + int m) mod 2 ^ k) \<noteq> Some None" if "m \<in> {1..Suc n}" "\<not> found" for m
    proof (cases "m = 1")
      case True
      then show ?thesis using t Some by simp
    next
      case False
      have "(i + int m) mod 2 ^ k = (?i + int (m - 1)) mod 2 ^ k"
        using False that(1) by (simp add: mod_add_left_eq of_nat_diff)
      moreover have "m - 1 \<in> {1..n}" using False that(1) by auto
      ultimately show ?thesis using j(2) that(2) by metis
    qed
    then show ?thesis using t Some j by (simp add: step Let_def)
  qed
qed (auto intro: exI [of _ False])

lemma unique_id_inv:
  assumes "core_inv c xs" "heap c a = Some s" "a \<notin> set xs"
  shows "\<exists>i c'. svz_sock_unique_id c a = Some (i, c') \<and> core_inv c' xs \<and> tab_get c' i = Some None
           \<and> heap c' = (heap c)(a \<mapsto> s\<lparr>sk_id := i, sk_version := sock_version c\<rparr>)
           \<and> sock_version c' = sock_version c + 1 \<and> svz_sock_connections c' = svz_sock_connections c
           \<and> (sock_limit c' = sock_limit c
              \<or> sock_limit c' = sock_limit c * 2 \<and> i = sock_limit c \<and> None \<notin> set (socktab c))"
proof -
  have ch: "chain c xs" and tab: "tab_ok c xs" using assms(1) by (simp_all add: core_inv_def)
  then obtain k where k: "sock_limit c = 2 ^ k" "int (length (socktab c)) = 2 ^ k" by (auto simp: tab_ok_def)
  let ?n = "nat (sock_limit c)"
  obtain j found where j: "unique_id_loop c ?n (sock_id c) = Some (j, found)"
      "if found then tab_get c j = Some None
       else \<forall>m \<in> {1..?n}. tab_get c ((sock_id c + int m) mod 2 ^ k) \<noteq> Some None"
    using unique_id_loop_spec [OF k] by blast
  let ?h = "\<lambda>i. (heap c)(a \<mapsto> s\<lparr>sk_id := i, sk_version := sock_version c\<rparr>)"
  have seg: "lseg (?h i) None xs None" for i using ch assms(3) by (simp add: chain_def)
  have mem: "b \<in> set xs \<Longrightarrow> ?h i b = heap c b" for b i using assms(3) by auto
  show ?thesis
  proof (cases found)
    case True
    let ?c = "c\<lparr>sock_id := j, heap := ?h j, sock_version := sock_version c + 1\<rparr>"
    have "svz_sock_unique_id c a = Some (j, ?c)"
      using j True assms(2) by (simp add: svz_sock_unique_id_def upd_def)
    moreover have "chain ?c xs" using ch seg by (simp add: chain_def)
    moreover have "tab_get ?c = tab_get c" by (simp add: tab_get_def fun_eq_iff)
    moreover have "tab_ok ?c xs" using tab mem unfolding tab_ok_def \<open>tab_get ?c = tab_get c\<close> by fastforce
    ultimately show ?thesis using j True by (intro exI [of _ j] exI [of _ ?c]) (auto simp: core_inv_def)
  next
    case False
    let ?c = "c\<lparr>socktab := take ?n (socktab c) @ replicate ?n None, sock_id := sock_limit c, sock_limit := sock_limit c * 2,
                heap := ?h (sock_limit c), sock_version := sock_version c + 1\<rparr>"
    have n: "length (socktab c) = ?n" "int ?n = 2 ^ k" using k by linarith+
    have eq: "svz_sock_unique_id c a = Some (sock_limit c, ?c)"
      using j False assms(2) by (simp add: svz_sock_unique_id_def upd_def)
    have full: "tab_get c i \<noteq> Some None" if "0 \<le> i" "i < 2 ^ k" for i
    proof -
      define m where "m = (i - sock_id c - 1) mod 2 ^ k + 1"
      have "(i - sock_id c - 1) mod 2 ^ k < 2 ^ k" "0 \<le> (i - sock_id c - 1) mod 2 ^ k" by simp_all
      then have m: "1 \<le> m" "m \<le> 2 ^ k" unfolding m_def by linarith+
      have "(sock_id c + m) mod 2 ^ k = i mod 2 ^ k"
        unfolding m_def by (metis (no_types, opaque_lifting) add.commute add_diff_cancel_left' diff_add_cancel diff_diff_add mod_add_right_eq add.assoc)
      then have "(sock_id c + int (nat m)) mod 2 ^ k = i" using m that by simp
      moreover have "nat m \<in> {1..?n}" using nat_mono [OF m(1)] nat_mono [OF m(2)] k(1) by simp
      ultimately show ?thesis using j(2) False by metis
    qed
    have tg: "tab_get ?c i = (if 2 ^ k \<le> i \<and> i < 2 * 2 ^ k then Some None else tab_get c i)" for i
    proof (cases "2 ^ k \<le> i \<and> i < 2 * 2 ^ k")
      case True
      then have "\<not> nat i < ?n" "nat i - ?n < ?n" "0 \<le> i" using n(2) by linarith+
      then show ?thesis using True n by (simp add: tab_get_def nth_append)
    next
      case False
      then show ?thesis using n k by (auto simp: tab_get_def nth_append)
    qed
    have "chain ?c xs" using ch seg by (simp add: chain_def)
    moreover have "tab_ok ?c xs" unfolding tab_ok_def
    proof (intro conjI ballI allI impI)
      show "\<exists>k. sock_limit ?c = 2 ^ k" using k(1) by (intro exI [of _ "Suc k"]) simp
      show "int (length (socktab ?c)) = sock_limit ?c" using n k by simp
      show "\<exists>s. heap ?c b = Some s \<and> has_flag s SVZ_SOFLG_ENQUEUED \<and> tab_get ?c (sk_id s) = Some (Some b)" if b: "b \<in> set xs" for b
      proof -
        obtain t where t: "heap c b = Some t" "has_flag t SVZ_SOFLG_ENQUEUED" "tab_get c (sk_id t) = Some (Some b)"
          using tab_ok_member [OF tab b] by blast
        then show ?thesis using mem [OF b] tg [of "sk_id t"] tab_get_bounds [OF t(3)] k(2) by simp
      qed
      fix i b assume ib: "tab_get ?c i = Some (Some b)"
      then have "tab_get c i = Some (Some b)" unfolding tg by (simp split: if_splits)
      then show "b \<in> set xs" "\<exists>s. heap ?c b = Some s \<and> sk_id s = i"
        using tab_ok_entry [OF tab, of i b] mem [of b "sock_limit c"] by auto
    qed
    moreover have "None \<notin> set (socktab c)"
    proof
      assume "None \<in> set (socktab c)"
      then obtain i where "i < length (socktab c)" "socktab c ! i = None" by (auto simp: in_set_conv_nth)
      then show False using full [of "int i"] k(2) by (simp add: tab_get_def) 
    qed
    moreover have "tab_get ?c (sock_limit c) = Some None" using tg [of "sock_limit c"] k(1) by simp
    ultimately show ?thesis using eq by (intro exI [of _ "sock_limit c"] exI [of _ ?c]) (simp add: core_inv_def)
  qed
qed

subsection \<open>Scheduling for shutdown\<close>

text \<open>The only effect of scheduling: some sockets get the killed flag.\<close>

definition kill_ext :: "core \<Rightarrow> core \<Rightarrow> bool" where
  "kill_ext c c' \<longleftrightarrow> (\<exists>h. c' = c\<lparr>heap := h\<rparr>
     \<and> (\<forall>a. h a = heap c a \<or> h a = map_option (set_flag SVZ_SOFLG_KILLED) (heap c a)))"

definition killed :: "core \<Rightarrow> addr \<Rightarrow> bool" where
  "killed c a \<longleftrightarrow> (case heap c a of Some s \<Rightarrow> has_flag s SVZ_SOFLG_KILLED | None \<Rightarrow> False)"

lemma set_flag_twice [simp]: "set_flag f (set_flag f s) = set_flag f s"
  by (simp add: set_flag_def)

lemma set_flag_self [simp]: "f \<noteq> 0 \<Longrightarrow> has_flag (set_flag f s) f"
  by (simp add: has_flag_def set_flag_def bit.conj_disj_distrib2)

lemma set_killed_other:
  "f AND SVZ_SOFLG_KILLED = 0 \<Longrightarrow> has_flag (set_flag SVZ_SOFLG_KILLED s) f = has_flag s f"
  by (simp add: has_flag_def set_flag_def bit.conj_disj_distrib2 and.commute [of SVZ_SOFLG_KILLED])

lemma set_flag_fields [simp]:
  "sk_next (set_flag f s) = sk_next s" "sk_prev (set_flag f s) = sk_prev s" "sk_version (set_flag f s) = sk_version s"
  "sk_parent_id (set_flag f s) = sk_parent_id s" "sk_parent_version (set_flag f s) = sk_parent_version s"
  "sk_sock_desc (set_flag f s) = sk_sock_desc s" "sk_pipe_read (set_flag f s) = sk_pipe_read s"
  "sk_pipe_write (set_flag f s) = sk_pipe_write s"
  by (simp_all add: set_flag_def)

lemma kill_ext_refl [simp]: "kill_ext c c"
  unfolding kill_ext_def by (intro exI [of _ "heap c"]) simp

lemma kill_ext_trans:
  assumes "kill_ext a b" "kill_ext b c"
  shows "kill_ext a c"
proof -
  obtain h1 h2 where h: "b = a\<lparr>heap := h1\<rparr>" "c = b\<lparr>heap := h2\<rparr>"
      "\<And>x. h1 x = heap a x \<or> h1 x = map_option (set_flag SVZ_SOFLG_KILLED) (heap a x)"
      "\<And>x. h2 x = heap b x \<or> h2 x = map_option (set_flag SVZ_SOFLG_KILLED) (heap b x)"
    using assms by (auto simp: kill_ext_def)
  have "h2 x = heap a x \<or> h2 x = map_option (set_flag SVZ_SOFLG_KILLED) (heap a x)" for x
    using h(3) [of x] h(4) [of x] h(1) by (auto simp: option.map_comp comp_def)
  then show ?thesis using h(1,2) unfolding kill_ext_def by (intro exI [of _ h2]) simp
qed

lemma kill_ext_heap:
  assumes "kill_ext c c'" "heap c a = Some s"
  shows "heap c' a = Some s \<or> heap c' a = Some (set_flag SVZ_SOFLG_KILLED s)"
proof -
  obtain h where h: "c' = c\<lparr>heap := h\<rparr>" "h a = heap c a \<or> h a = map_option (set_flag SVZ_SOFLG_KILLED) (heap c a)"
    using assms(1) by (auto simp: kill_ext_def)
  then show ?thesis using assms(2) by (elim disjE) simp_all
qed

lemma kill_ext_None:
  assumes "kill_ext c c'" "heap c a = None"
  shows "heap c' a = None"
proof -
  obtain h where h: "c' = c\<lparr>heap := h\<rparr>" "h a = heap c a \<or> h a = map_option (set_flag SVZ_SOFLG_KILLED) (heap c a)"
    using assms(1) by (auto simp: kill_ext_def)
  then show ?thesis using assms(2) by (elim disjE) simp_all
qed

lemma kill_ext_core:
  assumes "kill_ext c c'"
  shows "svz_sock_root c' = svz_sock_root c" "last_socket c' = last_socket c" "socktab c' = socktab c"
    "sock_limit c' = sock_limit c" "sock_id c' = sock_id c" "sock_version c' = sock_version c"
    "svz_sock_connections c' = svz_sock_connections c" "tab_get c' = tab_get c"
  using assms by (auto simp: kill_ext_def)

lemma enq_killed_disjoint: "SVZ_SOFLG_ENQUEUED AND SVZ_SOFLG_KILLED = 0" "SVZ_SOFLG_LISTENING AND SVZ_SOFLG_KILLED = 0"
  by (simp_all add: soflg_defs)

lemma kill_ext_inv:
  assumes "core_inv c xs" "kill_ext c c'"
  shows "core_inv c' xs"
proof -
  have ch: "chain c xs" and tab: "tab_ok c xs" using assms(1) by (simp_all add: core_inv_def)
  note eqs = kill_ext_core [OF assms(2)]
  have fields: "\<exists>s'. heap c' a = Some s' \<and> sk_next s' = sk_next s \<and> sk_prev s' = sk_prev s \<and> sk_id s' = sk_id s
      \<and> has_flag s' SVZ_SOFLG_ENQUEUED = has_flag s SVZ_SOFLG_ENQUEUED" if "heap c a = Some s" for a s
    using kill_ext_heap [OF assms(2) that] by (auto simp: set_killed_other enq_killed_disjoint)
  have "same_links (heap c) (heap c') (set xs)" using fields unfolding same_links_def by blast
  then have "chain c' xs" using ch lseg_same_links by (auto simp: chain_def eqs)
  moreover have "tab_ok c' xs" unfolding tab_ok_def eqs
  proof (intro conjI ballI allI impI)
    show "\<exists>k. sock_limit c = 2 ^ k" "int (length (socktab c)) = sock_limit c" using tab by (simp_all add: tab_ok_def)
    show "\<exists>s. heap c' b = Some s \<and> has_flag s SVZ_SOFLG_ENQUEUED \<and> tab_get c (sk_id s) = Some (Some b)" if b: "b \<in> set xs" for b
      using tab_ok_member [OF tab b] fields [of b] by fastforce
    fix i b assume "tab_get c i = Some (Some b)"
    from tab_ok_entry [OF tab this] show "b \<in> set xs" "\<exists>s. heap c' b = Some s \<and> sk_id s = i" using fields [of b] by fastforce+
  qed
  ultimately show ?thesis by (simp add: core_inv_def)
qed

lemma kill_ext_find:
  assumes "core_inv c xs" "kill_ext c c'"
  shows "svz_sock_find c' i v = svz_sock_find c i v"
proof -
  have ver: "map_option sk_version (heap c' a) = map_option sk_version (heap c a)" for a
    using kill_ext_None [OF assms(2), of a] kill_ext_heap [OF assms(2), of a] by (cases "heap c a") auto
  have "(heap c' a \<bind> (\<lambda>s. Some (if sk_version s \<noteq> v then None else Some a)))
      = (heap c a \<bind> (\<lambda>s. Some (if sk_version s \<noteq> v then None else Some a)))" for a
    using ver [of a] by (cases "heap c a"; cases "heap c' a") simp_all
  then show ?thesis using kill_ext_core [OF assms(2)] by (simp add: svz_sock_find_def cong: if_cong)
qed

lemma getparent_find:
  assumes "heap c b = Some s"
  shows "svz_sock_getparent c (Some b) = svz_sock_find c (sk_parent_id s) (sk_parent_version s)"
  using assms by (simp add: svz_sock_getparent_def)

lemma kill_ext_getparent:
  assumes "core_inv c xs" "kill_ext c c'" "b \<in> set xs"
  shows "svz_sock_getparent c' (Some b) = svz_sock_getparent c (Some b)"
proof -
  obtain s where s: "heap c b = Some s" using tab_ok_member assms(1,3) unfolding core_inv_def by blast
  then obtain s' where "heap c' b = Some s'" "sk_parent_id s' = sk_parent_id s" "sk_parent_version s' = sk_parent_version s"
    using kill_ext_heap [OF assms(2) s] by auto
  then show ?thesis using s by (simp add: getparent_find kill_ext_find [OF assms(1,2)])
qed

lemma kill_ext_killed:
  assumes "kill_ext c c'" "killed c a"
  shows "killed c' a"
proof -
  obtain s where s: "heap c a = Some s" "has_flag s SVZ_SOFLG_KILLED"
    using assms(2) by (cases "heap c a") (auto simp: killed_def)
  have "has_flag (set_flag SVZ_SOFLG_KILLED s) SVZ_SOFLG_KILLED" by (simp add: SVZ_SOFLG_KILLED_def)
  then show ?thesis using kill_ext_heap [OF assms(1) s(1)] s(2) by (auto simp: killed_def)
qed

lemma kill_ext_listens:
  assumes "kill_ext c c'"
  shows "listens c' a = listens c a"
proof (cases "heap c a")
  case None
  then show ?thesis using kill_ext_None [OF assms] by (simp add: listens_def)
next
  case (Some s)
  from kill_ext_heap [OF assms Some] show ?thesis
    by (rule disjE) (simp_all add: listens_def Some set_killed_other [OF enq_killed_disjoint(2)])
qed

lemma filter_less:
  "a \<in> set xs \<Longrightarrow> Q a \<Longrightarrow> \<not> P a \<Longrightarrow> (\<And>x. P x \<Longrightarrow> Q x) \<Longrightarrow> length (filter P xs) < length (filter Q xs)"
proof (induction xs)
  case (Cons x xs)
  have "length (filter P xs) \<le> length (filter Q xs)" using Cons.prems(4) by (induction xs) auto
  then show ?case using Cons by (auto simp: less_Suc_eq_le)
qed simp

definition unkilled :: "core \<Rightarrow> addr list \<Rightarrow> nat" where
  "unkilled c xs = length (filter (\<lambda>b. \<not> killed c b) xs)"

lemma unkilled_mono:
  assumes "kill_ext c c'"
  shows "unkilled c' xs \<le> unkilled c xs"
  using kill_ext_killed [OF assms] by (induction xs) (auto simp: unkilled_def)

definition kill_claim :: "core \<Rightarrow> addr list \<Rightarrow> addr \<Rightarrow> bool" where
  "kill_claim c xs a \<longleftrightarrow> (\<exists>c'. sched c (Kill a) = Some c' \<and> kill_ext c c' \<and> killed c' a
     \<and> (listens c a \<and> \<not> killed c a \<longrightarrow> (\<forall>b \<in> set xs. svz_sock_getparent c (Some b) = Some (Some a) \<longrightarrow> killed c' b)))"

lemma sched_scan:
  assumes "core_inv c (ys @ zs)" "unkilled c (ys @ zs) \<le> m"
    "\<And>c b. core_inv c (ys @ zs) \<Longrightarrow> b \<in> set (ys @ zs) \<Longrightarrow> unkilled c (ys @ zs) \<le> m \<Longrightarrow> kill_claim c (ys @ zs) b"
  shows "\<exists>c'. sched c (Scan a (hd_or zs None)) = Some c' \<and> kill_ext c c'
           \<and> (\<forall>b \<in> set zs. svz_sock_getparent c (Some b) = Some (Some a) \<longrightarrow> killed c' b)"
  using assms
proof (induction zs arbitrary: ys c)
  case Nil
  then show ?case by (subst sched.simps) simp
next
  case (Cons z zs)
  let ?xs = "ys @ z # zs"
  have z: "z \<in> set ?xs" by simp
  obtain s where s: "heap c z = Some s" "sk_next s = hd_or zs None"
    using Cons.prems(1) by (auto simp: core_inv_def chain_def lseg_append)
  obtain par where par: "svz_sock_getparent c (Some z) = Some par"
    using find_spec [OF Cons.prems(1)] getparent_find [OF s(1)] by metis
  obtain c1 where c1: "(if par = Some a then sched c (Kill z) else Some c) = Some c1" "kill_ext c c1"
      "par = Some a \<longrightarrow> killed c1 z"
  proof (cases "par = Some a")
    case True
    then show ?thesis using Cons.prems(3) [OF Cons.prems(1) z Cons.prems(2)] that unfolding kill_claim_def by auto
  next
    case False
    then show ?thesis using that [of c] by simp
  qed
  obtain s1 where s1: "heap c1 z = Some s1" "sk_next s1 = hd_or zs None"
    using kill_ext_heap [OF c1(2) s(1)] s(2) by auto
  have step: "sched c (Scan a (hd_or (z # zs) None)) = sched c1 (Scan a (hd_or zs None))"
    using par c1(1) s1 by (cases "par = Some a") (subst sched.simps, simp)+
  have "core_inv c1 ((ys @ [z]) @ zs)" using kill_ext_inv [OF Cons.prems(1) c1(2)] by simp
  moreover have "unkilled c1 ((ys @ [z]) @ zs) \<le> m" using unkilled_mono [OF c1(2), of ?xs] Cons.prems(2) by simp
  ultimately obtain c' where c': "sched c1 (Scan a (hd_or zs None)) = Some c'" "kill_ext c1 c'"
      "\<forall>b \<in> set zs. svz_sock_getparent c1 (Some b) = Some (Some a) \<longrightarrow> killed c' b"
    using Cons.IH [of c1 "ys @ [z]"] Cons.prems(3) by auto
  have "svz_sock_getparent c1 (Some b) = svz_sock_getparent c (Some b)" if "b \<in> set zs" for b
    using kill_ext_getparent [OF Cons.prems(1) c1(2)] that by simp
  moreover have "svz_sock_getparent c (Some z) = Some (Some a) \<Longrightarrow> killed c' z"
    using par c1(3) kill_ext_killed [OF c'(2)] by simp
  ultimately show ?case using step c' kill_ext_trans [OF c1(2) c'(2)] by auto
qed

lemma sched_kill:
  assumes "core_inv c xs" "a \<in> set xs"
  shows "kill_claim c xs a"
  using assms
proof (induction "unkilled c xs" arbitrary: c a rule: less_induct)
  case less
  obtain s where s: "heap c a = Some s" using tab_ok_member less.prems unfolding core_inv_def by blast
  show ?case
  proof (cases "has_flag s SVZ_SOFLG_KILLED")
    case True
    then have "sched c (Kill a) = Some c" using s by (subst sched.simps) simp
    then show ?thesis using True s by (simp add: kill_claim_def killed_def)
  next
    case False
    let ?c = "c\<lparr>heap := (heap c)(a \<mapsto> set_flag SVZ_SOFLG_KILLED s)\<rparr>"
    have ext: "kill_ext c ?c" unfolding kill_ext_def using s by (intro exI [of _ "(heap c)(a \<mapsto> set_flag SVZ_SOFLG_KILLED s)"]) simp
    have ka: "killed ?c a" by (simp add: killed_def SVZ_SOFLG_KILLED_def)
    have step: "sched c (Kill a) = (if has_flag s SVZ_SOFLG_LISTENING then sched ?c (Scan a (svz_sock_root ?c)) else Some ?c)"
      using False s by (subst sched.simps) (simp add: upd_def)
    show ?thesis
    proof (cases "has_flag s SVZ_SOFLG_LISTENING")
      case nl: False
      then show ?thesis using step ext ka s by (simp add: kill_claim_def listens_def)
    next
      case True
      have inv: "core_inv ?c xs" by (rule kill_ext_inv [OF less.prems(1) ext])
      have "killed ?c b \<or> \<not> killed c b" if "b = a" for b using that ka by simp
      have nk: "\<not> killed c a" using False s by (simp add: killed_def)
      have "length (filter (\<lambda>b. \<not> killed ?c b) xs) < length (filter (\<lambda>b. \<not> killed c b) xs)"
        using less.prems(2) ka nk kill_ext_killed [OF ext] by (intro filter_less [of a]) auto
      then have lt: "unkilled ?c xs < unkilled c xs" by (simp add: unkilled_def)
      have "\<exists>c'. sched ?c (Scan a (hd_or xs None)) = Some c' \<and> kill_ext ?c c'
           \<and> (\<forall>b \<in> set xs. svz_sock_getparent ?c (Some b) = Some (Some a) \<longrightarrow> killed c' b)"
        using sched_scan [of ?c "[]" xs "unkilled ?c xs" a] inv less.hyps lt by simp
      moreover have "svz_sock_root ?c = hd_or xs None" using less.prems(1) by (simp add: core_inv_def chain_def)
      moreover have "svz_sock_getparent ?c (Some b) = svz_sock_getparent c (Some b)" if "b \<in> set xs" for b
        using kill_ext_getparent [OF less.prems(1) ext that] .
      ultimately show ?thesis using step True ka kill_ext_trans [OF ext] kill_ext_killed unfolding kill_claim_def by fastforce
    qed
  qed
qed

subsection \<open>Shutting down\<close>

text \<open>
  Changes that the list and its sweep cannot see: of the sockets in \<open>A\<close> the links, identity,
  validity and the enqueued and killed flags stay, and so do the static variables (the number of
  connections apart).
\<close>

definition vitals :: "svz_socket \<Rightarrow> addr option \<times> addr option \<times> int \<times> int \<times> bool \<times> bool \<times> bool" where
  "vitals s = (sk_next s, sk_prev s, sk_id s, sk_version s, invalid_desc s, has_flag s SVZ_SOFLG_ENQUEUED, has_flag s SVZ_SOFLG_KILLED)"

definition ident :: "svz_socket \<Rightarrow> int \<times> int \<times> bool" where
  "ident s = (sk_id s, sk_version s, has_flag s SVZ_SOFLG_ENQUEUED)"

lemma vitals_ident: "vitals s = vitals t \<Longrightarrow> ident s = ident t"
  by (simp add: vitals_def ident_def)

lemma ident_None: "map_option ident x = map_option ident y \<Longrightarrow> x = None \<longleftrightarrow> y = None"
  by (cases x; cases y) simp_all

definition quiet :: "addr set \<Rightarrow> core \<Rightarrow> core \<Rightarrow> bool" where
  "quiet A c c' \<longleftrightarrow> svz_sock_root c' = svz_sock_root c \<and> last_socket c' = last_socket c \<and> socktab c' = socktab c
     \<and> sock_limit c' = sock_limit c \<and> sock_version c' = sock_version c \<and> sock_id c' = sock_id c
     \<and> (\<forall>b \<in> A. map_option vitals (heap c' b) = map_option vitals (heap c b))"

lemma quiet_refl [simp]: "quiet A c c"
  by (simp add: quiet_def)

lemma quiet_trans: "quiet A a b \<Longrightarrow> quiet A b c \<Longrightarrow> quiet A a c"
  by (simp add: quiet_def)

lemma quiet_heap:
  assumes "quiet A c c'" "b \<in> A" "heap c b = Some s"
  shows "\<exists>s'. heap c' b = Some s' \<and> vitals s' = vitals s"
  using assms unfolding quiet_def by (metis (no_types, lifting) map_option_eq_Some option.simps(9))

lemma quiet_upd:
  assumes "upd c a f = Some c'" "a \<notin> A \<or> (\<forall>s. heap c a = Some s \<longrightarrow> vitals (f s) = vitals s)"
  shows "quiet A c c'"
  using assms by (auto simp: upd_def quiet_def)

lemma quiet_inv:
  assumes "core_inv c xs" "quiet (set xs) c c'"
  shows "core_inv c' xs"
proof -
  have ch: "chain c xs" and tab: "tab_ok c xs" using assms(1) by (simp_all add: core_inv_def)
  have eqs: "svz_sock_root c' = svz_sock_root c" "last_socket c' = last_socket c" "sock_limit c' = sock_limit c"
    "socktab c' = socktab c" "tab_get c' = tab_get c"
    using assms(2) by (simp_all add: quiet_def tab_get_def fun_eq_iff)
  have vit: "\<exists>s'. heap c' b = Some s' \<and> vitals s' = vitals s" if "b \<in> set xs" "heap c b = Some s" for b s
    using quiet_heap [OF assms(2) that] .
  have "same_links (heap c) (heap c') (set xs)" unfolding same_links_def using vit by (fastforce simp: vitals_def)
  then have "chain c' xs" using ch lseg_same_links by (auto simp: chain_def eqs)
  moreover have "tab_ok c' xs" unfolding tab_ok_def eqs
  proof (intro conjI ballI allI impI)
    show "\<exists>k. sock_limit c = 2 ^ k" "int (length (socktab c)) = sock_limit c" using tab by (simp_all add: tab_ok_def)
    show "\<exists>s. heap c' b = Some s \<and> has_flag s SVZ_SOFLG_ENQUEUED \<and> tab_get c (sk_id s) = Some (Some b)" if b: "b \<in> set xs" for b
      using tab_ok_member [OF tab b] vit [OF b] by (fastforce simp: vitals_def)
    fix i b assume "tab_get c i = Some (Some b)"
    from tab_ok_entry [OF tab this] show "b \<in> set xs" "\<exists>s. heap c' b = Some s \<and> sk_id s = i"
      using vit [of b] by (fastforce simp: vitals_def)+
  qed
  ultimately show ?thesis by (simp add: core_inv_def)
qed

lemma vitals_cong:
  "sk_next s = sk_next t \<Longrightarrow> sk_prev s = sk_prev t \<Longrightarrow> sk_id s = sk_id t \<Longrightarrow> sk_version s = sk_version t \<Longrightarrow>
   sk_flags s = sk_flags t \<Longrightarrow> sk_sock_desc s = sk_sock_desc t \<Longrightarrow> sk_pipe_read s = sk_pipe_read t \<Longrightarrow>
   sk_pipe_write s = sk_pipe_write t \<Longrightarrow> vitals s = vitals t"
  by (simp only: vitals_def invalid_desc_def svz_pipe_valid_def validate_sock_def has_flag_def)

lemma vitals_referrer [simp]:
  "vitals (s\<lparr>sk_referrer_version := v\<rparr>) = vitals s" "vitals (s\<lparr>sk_referrer_id := i\<rparr>) = vitals s"
  by (rule vitals_cong; simp)+

lemma inited_disjoint: "SVZ_SOFLG_INITED AND SVZ_SOFLG_ENQUEUED = 0" "SVZ_SOFLG_INITED AND SVZ_SOFLG_KILLED = 0"
    "SVZ_SOFLG_INITED AND SVZ_SOFLG_PIPE = 0" "SVZ_SOFLG_INITED AND SVZ_SOFLG_SOCK = 0"
    "SVZ_SOFLG_INITED AND SVZ_SOFLG_LISTENING = 0" "SVZ_SOFLG_INITED AND SVZ_SOFLG_CONNECTED = 0"
    "SVZ_SOFLG_INITED AND SVZ_SOFLG_RECV_PIPE = 0" "SVZ_SOFLG_INITED AND SVZ_SOFLG_SEND_PIPE = 0"
    "SVZ_SOFLG_INITED AND (SVZ_SOFLG_LISTENING OR SVZ_SOFLG_CONNECTED OR SVZ_SOFLG_CONNECTING) = 0"
  by (simp_all add: soflg_defs)

lemma clear_flag_other: "g AND f = 0 \<Longrightarrow> has_flag (clear_flag g s) f = has_flag s f"
  by (simp add: has_flag_def clear_flag_def and_not_disjoint)

lemma clear_flag_fields [simp]:
  "sk_next (clear_flag f s) = sk_next s" "sk_prev (clear_flag f s) = sk_prev s" "sk_version (clear_flag f s) = sk_version s"
  "sk_sock_desc (clear_flag f s) = sk_sock_desc s" "sk_pipe_read (clear_flag f s) = sk_pipe_read s"
  "sk_pipe_write (clear_flag f s) = sk_pipe_write s"
  by (simp_all add: clear_flag_def)

lemma clear_inited_vitals: "vitals (clear_flag SVZ_SOFLG_INITED s) = vitals s"
proof -
  note other = clear_flag_other [OF inited_disjoint(1)] clear_flag_other [OF inited_disjoint(2)]
    clear_flag_other [OF inited_disjoint(3)] clear_flag_other [OF inited_disjoint(4)]
    clear_flag_other [OF inited_disjoint(5)] clear_flag_other [OF inited_disjoint(6)]
    clear_flag_other [OF inited_disjoint(7)] clear_flag_other [OF inited_disjoint(8)]
    clear_flag_other [OF inited_disjoint(9)]
  have "svz_pipe_valid (clear_flag SVZ_SOFLG_INITED s) = svz_pipe_valid s" by (simp only: svz_pipe_valid_def other clear_flag_fields)
  moreover have "validate_sock (clear_flag SVZ_SOFLG_INITED s) = validate_sock s" by (simp only: validate_sock_def other clear_flag_fields)
  ultimately have "invalid_desc (clear_flag SVZ_SOFLG_INITED s) = invalid_desc s" by (simp only: invalid_desc_def other)
  then show ?thesis by (simp only: vitals_def other clear_flag_fields set_flag_id)
qed

lemma referrer_reset:
  assumes "core_inv c xs" "heap c a = Some s" "a \<notin> set xs" "\<And>s. vitals (g s) = vitals s"
  shows "\<exists>c'. do { rsock \<leftarrow> svz_sock_getreferrer c (Some a);
                  c \<leftarrow> (case rsock of Some r \<Rightarrow> do { c \<leftarrow> upd c r g; svz_sock_setreferrer c r None } | None \<Rightarrow> Some c);
                  upd c a p } = Some c'
           \<and> quiet (set xs) c c' \<and> heap c' a = Some (p s) \<and> svz_sock_connections c' = svz_sock_connections c
           \<and> (\<forall>b. b \<noteq> a \<longrightarrow> map_option ident (heap c' b) = map_option ident (heap c b))"
proof -
  obtain r where r: "svz_sock_getreferrer c (Some a) = Some r" "\<And>b. r = Some b \<Longrightarrow> b \<in> set xs"
    using find_spec [OF assms(1), of "sk_referrer_id s" "sk_referrer_version s"] assms(2)
    by (auto simp: svz_sock_getreferrer_def)
  show ?thesis
  proof (cases r)
    case None
    then show ?thesis using r assms(2,3) by (auto simp: upd_def quiet_def)
  next
    case (Some b)
    then obtain t where t: "heap c b = Some t" "b \<noteq> a"
      using r(2) tab_ok_member assms(1,3) unfolding core_inv_def by blast
    let ?f = "\<lambda>s. (g s)\<lparr>sk_referrer_version := -1, sk_referrer_id := -1\<rparr>"
    have vit: "vitals (?f t) = vitals t" using assms(4) [of t] by simp
    show ?thesis using Some r(1) t assms(2,3) vit vitals_ident [OF vit]
      by (auto simp: upd_def svz_sock_setreferrer_def quiet_def)
  qed
qed

lemma pipe_disconnect_quiet:
  assumes "core_inv c xs" "heap c a = Some s" "a \<notin> set xs"
  shows "\<exists>c'. svz_pipe_disconnect c a = Some c' \<and> quiet (set xs) c c' \<and> svz_sock_connections c' = svz_sock_connections c
           \<and> (\<forall>b. b \<noteq> a \<longrightarrow> map_option ident (heap c' b) = map_option ident (heap c b))"
proof -
  let ?p = "\<lambda>s. s\<lparr>sk_pipe_read := -1, sk_pipe_write := -1\<rparr>"
  obtain c1 s1 where c1: "(if has_flag s SVZ_SOFLG_CONNECTED
           then do {
             rsock \<leftarrow> svz_sock_getreferrer c (Some a);
             c \<leftarrow> (case rsock of
                     Some r \<Rightarrow> do { c \<leftarrow> upd c r (clear_flag SVZ_SOFLG_INITED); svz_sock_setreferrer c r None }
                   | None \<Rightarrow> Some c);
             upd c a ?p
           }
           else Some c) = Some c1" "quiet (set xs) c c1" "heap c1 a = Some s1" "svz_sock_connections c1 = svz_sock_connections c"
      "\<forall>b. b \<noteq> a \<longrightarrow> map_option ident (heap c1 b) = map_option ident (heap c b)"
    using referrer_reset [OF assms clear_inited_vitals, of ?p] assms(2) by (cases "has_flag s SVZ_SOFLG_CONNECTED") auto
  have inv1: "core_inv c1 xs" by (rule quiet_inv [OF assms(1) c1(2)])
  have rset: "(do { c \<leftarrow> upd c1 r (\<lambda>s. s); svz_sock_setreferrer c r None }) = svz_sock_setreferrer c1 r None" for r
    by (cases "heap c1 r") (auto simp: upd_def svz_sock_setreferrer_def fun_upd_idem)
  obtain c2 where c2: "(if has_flag s SVZ_SOFLG_LISTENING
     then do {
       rsock \<leftarrow> svz_sock_getreferrer c1 (Some a);
       c \<leftarrow> (case rsock of Some r \<Rightarrow> svz_sock_setreferrer c1 r None | None \<Rightarrow> Some c1);
       upd c a ?p
     }
     else Some c1) = Some c2" "quiet (set xs) c1 c2" "svz_sock_connections c2 = svz_sock_connections c1"
     "\<forall>b. b \<noteq> a \<longrightarrow> map_option ident (heap c2 b) = map_option ident (heap c1 b)"
    using referrer_reset [OF inv1 c1(3) assms(3), of "\<lambda>s. s" ?p] unfolding rset
    by (cases "has_flag s SVZ_SOFLG_LISTENING") auto
  have "svz_pipe_disconnect c a = Some c2"
    using c1(1) c2(1) assms(2) unfolding svz_pipe_disconnect_def by simp
  then show ?thesis using quiet_trans [OF c1(2) c2(2)] c1(4,5) c2(3,4) by auto
qed

lemma disconnect_quiet:
  assumes "heap c a = Some s" "a \<notin> A"
  shows "\<exists>c'. svz_sock_disconnect c a = Some c' \<and> quiet A c c' \<and> (\<exists>s'. heap c' a = Some s')
           \<and> svz_sock_connections c' = svz_sock_connections c - (if has_flag s SVZ_SOFLG_CONNECTED then 1 else 0)
           \<and> (\<forall>b. b \<noteq> a \<longrightarrow> heap c' b = heap c b)"
  using assms by (auto simp: svz_sock_disconnect_def upd_def quiet_def Let_def)

text \<open>
  The contract of the \<^verbatim>\<open>disconnected_socket\<close> callbacks: they may schedule sockets for shutdown and
  leave the rest of the list alone.
\<close>

definition disc_ok :: "(addr \<Rightarrow> core \<Rightarrow> core option) \<Rightarrow> bool" where
  "disc_ok disc \<longleftrightarrow> (\<forall>a c xs. core_inv c xs \<longrightarrow> (\<exists>c'. disc a c = Some c' \<and> kill_ext c c'))"

lemma disc_ok_default: "disc_ok (\<lambda>a c. Some c)"
  by (simp add: disc_ok_def)

definition valid :: "core \<Rightarrow> addr \<Rightarrow> bool" where
  "valid c b \<longleftrightarrow> (case heap c b of Some s \<Rightarrow> \<not> invalid_desc s | None \<Rightarrow> False)"

lemma invalid_desc_cong:
  "sk_flags s = sk_flags t \<Longrightarrow> sk_sock_desc s = sk_sock_desc t \<Longrightarrow> sk_pipe_read s = sk_pipe_read t \<Longrightarrow>
   sk_pipe_write s = sk_pipe_write t \<Longrightarrow> invalid_desc s = invalid_desc t"
  by (simp only: invalid_desc_def svz_pipe_valid_def validate_sock_def has_flag_def)

lemma invalid_desc_payload: "invalid_desc (payload s) = invalid_desc s"
  by (rule invalid_desc_cong) (simp_all add: payload_def)

lemma killed_disjoint: "SVZ_SOFLG_PIPE AND SVZ_SOFLG_KILLED = 0" "SVZ_SOFLG_SOCK AND SVZ_SOFLG_KILLED = 0"
    "SVZ_SOFLG_LISTENING AND SVZ_SOFLG_KILLED = 0" "SVZ_SOFLG_CONNECTED AND SVZ_SOFLG_KILLED = 0"
    "SVZ_SOFLG_RECV_PIPE AND SVZ_SOFLG_KILLED = 0" "SVZ_SOFLG_SEND_PIPE AND SVZ_SOFLG_KILLED = 0"
    "(SVZ_SOFLG_LISTENING OR SVZ_SOFLG_CONNECTED OR SVZ_SOFLG_CONNECTING) AND SVZ_SOFLG_KILLED = 0"
  by (simp_all add: soflg_defs)

lemma invalid_desc_killed: "invalid_desc (set_flag SVZ_SOFLG_KILLED s) = invalid_desc s"
  by (simp only: invalid_desc_def svz_pipe_valid_def validate_sock_def set_flag_fields
      set_killed_other [OF killed_disjoint(1)] set_killed_other [OF killed_disjoint(2)] set_killed_other [OF killed_disjoint(3)]
      set_killed_other [OF killed_disjoint(4)] set_killed_other [OF killed_disjoint(5)] set_killed_other [OF killed_disjoint(6)]
      set_killed_other [OF killed_disjoint(7)])

lemma kill_ext_valid:
  assumes "kill_ext c c'"
  shows "valid c' b = valid c b"
proof (cases "heap c b")
  case None
  then show ?thesis using kill_ext_None [OF assms] by (simp add: valid_def)
next
  case (Some s)
  from kill_ext_heap [OF assms Some] show ?thesis by (rule disjE) (simp_all add: valid_def Some invalid_desc_killed)
qed

lemma same_payload_views:
  assumes "same_payload c c' A" "b \<in> A"
  shows "valid c' b = valid c b \<and> killed c' b = killed c b"
proof -
  have eq: "map_option payload (heap c' b) = map_option payload (heap c b)" using assms by (simp add: same_payload_def)
  show ?thesis
  proof (cases "heap c b")
    case None
    then show ?thesis using eq by (simp add: valid_def killed_def)
  next
    case (Some s)
    then obtain s' where s': "heap c' b = Some s'" "payload s' = payload s" using eq by auto
    then have "invalid_desc s' = invalid_desc s" by (metis invalid_desc_payload)
    moreover have "sk_flags s' = sk_flags s" using s'(2) payload_simps(3) by metis
    ultimately show ?thesis using Some s'(1) by (simp add: valid_def killed_def has_flag_def)
  qed
qed

lemma quiet_views:
  assumes "quiet A c c'" "b \<in> A"
  shows "valid c' b = valid c b \<and> killed c' b = killed c b"
proof -
  have eq: "map_option vitals (heap c' b) = map_option vitals (heap c b)" using assms by (simp add: quiet_def)
  then show ?thesis by (cases "heap c b"; cases "heap c' b") (auto simp: valid_def killed_def vitals_def)
qed

lemma quiet_free: "a \<notin> A \<Longrightarrow> quiet A c (c\<lparr>heap := (heap c)(a := None)\<rparr>)"
  by (auto simp: quiet_def)

lemma same_payload_ident:
  assumes "same_payload c c' A" "b \<in> A"
  shows "map_option ident (heap c' b) = map_option ident (heap c b)"
proof -
  have "ident (payload s) = ident s" for s by (simp add: ident_def has_flag_def)
  then have "map_option ident (map_option payload x) = map_option ident x" for x by (cases x) simp_all
  then show ?thesis using assms unfolding same_payload_def by metis
qed

lemma kill_ext_ident: "kill_ext c c' \<Longrightarrow> map_option ident (heap c' b) = map_option ident (heap c b)"
proof -
  assume k: "kill_ext c c'"
  have "ident (set_flag SVZ_SOFLG_KILLED s) = ident s" for s
    by (simp add: ident_def set_killed_other [OF enq_killed_disjoint(1)])
  then show ?thesis using kill_ext_None [OF k, of b] kill_ext_heap [OF k, of b] by (cases "heap c b") auto
qed

lemma shutdown_inv:
  assumes "core_inv c xs" "a \<in> set xs" "valid c a" "disc_ok disc"
  shows "\<exists>c1 c'. disc a c = Some c1 \<and> kill_ext c c1 \<and> svz_sock_shutdown disc c a = Some c' \<and> core_inv c' (remove1 a xs)
           \<and> heap c' a = None \<and> (\<forall>b. b \<noteq> a \<longrightarrow> map_option ident (heap c' b) = map_option ident (heap c b))
           \<and> sock_version c' = sock_version c \<and> sock_limit c' = sock_limit c
           \<and> (\<forall>b \<in> set (remove1 a xs). valid c' b = valid c b \<and> killed c' b = killed c1 b)"
proof -
  obtain c1 where c1: "disc a c = Some c1" "kill_ext c c1" using assms(1,4) unfolding disc_ok_def by blast
  have inv1: "core_inv c1 xs" by (rule kill_ext_inv [OF assms(1) c1(2)])
  obtain s1 where s1: "heap c1 a = Some s1" "\<not> invalid_desc s1"
    using kill_ext_valid [OF c1(2), of a] assms(3) by (cases "heap c1 a") (auto simp: valid_def)
  let ?xs = "remove1 a xs"
  have a: "a \<notin> set ?xs" using assms(1) by (simp add: core_inv_def chain_def)
  obtain c2 s2 where c2: "dequeue c1 a = Some (0, c2)" "core_inv c2 ?xs" "same_payload c1 c2 (- {a})" "heap c2 a = Some s2"
      "sock_version c2 = sock_version c1" "sock_limit c2 = sock_limit c1"
    using dequeue_inv [OF inv1 assms(2) s1] by blast
  obtain c3 s3 where c3: "(if has_flag s2 SVZ_SOFLG_SOCK then svz_sock_disconnect c2 a else Some c2) = Some c3"
      "quiet (set ?xs) c2 c3" "heap c3 a = Some s3" "\<forall>b. b \<noteq> a \<longrightarrow> heap c3 b = heap c2 b"
    using disconnect_quiet [OF c2(4) a] c2(4) by (cases "has_flag s2 SVZ_SOFLG_SOCK") auto
  have inv3: "core_inv c3 ?xs" by (rule quiet_inv [OF c2(2) c3(2)])
  obtain c4 where c4: "(if has_flag s2 SVZ_SOFLG_PIPE then svz_pipe_disconnect c3 a else Some c3) = Some c4"
      "quiet (set ?xs) c3 c4" "\<forall>b. b \<noteq> a \<longrightarrow> map_option ident (heap c4 b) = map_option ident (heap c3 b)"
    using pipe_disconnect_quiet [OF inv3 c3(3) a] by (cases "has_flag s2 SVZ_SOFLG_PIPE") auto
  let ?c = "c4\<lparr>heap := (heap c4)(a := None)\<rparr>"
  have "svz_sock_shutdown disc c a = Some ?c"
    using c1(1) c2(1,4) c3(1) c4(1) by (simp add: svz_sock_shutdown_def)
  moreover have q: "quiet (set ?xs) c2 ?c"
    using quiet_trans [OF quiet_trans [OF c3(2) c4(2)] quiet_free [OF a]] .
  moreover have "core_inv ?c ?xs" by (rule quiet_inv [OF c2(2) q])
  moreover have "map_option ident (heap ?c b) = map_option ident (heap c b)" if "b \<noteq> a" for b
  proof -
    have "map_option ident (heap c2 b) = map_option ident (heap c1 b)" using c2(3) that by (intro same_payload_ident) auto
    then show ?thesis using that c3(4) c4(3) kill_ext_ident [OF c1(2), of b] by simp
  qed
  moreover have "valid ?c b = valid c b \<and> killed ?c b = killed c1 b" if "b \<in> set ?xs" for b
  proof -
    have "b \<in> - {a}" using that a by auto
    from same_payload_views [OF c2(3) this] quiet_views [OF q that] kill_ext_valid [OF c1(2), of b] show ?thesis by simp
  qed
  moreover have "sock_version ?c = sock_version c" "sock_limit ?c = sock_limit c"
    using c2(5,6) q kill_ext_core [OF c1(2)] by (simp_all add: quiet_def)
  ultimately show ?thesis using c1 by (intro exI [of _ c1] exI [of _ ?c]) simp
qed

lemma sweep_spec:
  assumes "core_inv c (ys @ zs)" "\<forall>b \<in> set (ys @ zs). valid c b" "disc_ok disc"
  shows "\<exists>c' K. sweep disc c (hd_or zs None) = Some c' \<and> core_inv c' (ys @ filter (\<lambda>b. b \<notin> K) zs)
           \<and> (\<forall>b \<in> set zs. killed c b \<longrightarrow> b \<in> K) \<and> (\<forall>b \<in> set zs. b \<in> K \<longrightarrow> heap c' b = None)
           \<and> (\<forall>b. b \<notin> set zs \<longrightarrow> (heap c' b = None \<longleftrightarrow> heap c b = None))
           \<and> ((\<forall>a c. disc a c = Some c) \<longrightarrow> (\<forall>b \<in> set zs. b \<in> K \<longrightarrow> killed c b))
           \<and> (\<forall>b \<in> set (ys @ filter (\<lambda>b. b \<notin> K) zs). valid c' b)"
  using assms
proof (induction zs arbitrary: ys c)
  case Nil
  then show ?case by (subst sweep.simps) auto
next
  case (Cons z zs)
  obtain s where s: "heap c z = Some s" "sk_next s = hd_or zs None"
    using Cons.prems(1) by (auto simp: core_inv_def chain_def lseg_append)
  have z: "z \<notin> set ys" "z \<notin> set zs" using Cons.prems(1) by (auto simp: core_inv_def chain_def)
  show ?case
  proof (cases "killed c z")
    case False
    then have step: "sweep disc c (hd_or (z # zs) None) = sweep disc c (hd_or zs None)"
      using s by (subst sweep.simps) (simp add: killed_def)
    have pre: "core_inv c ((ys @ [z]) @ zs)" "\<forall>b \<in> set ((ys @ [z]) @ zs). valid c b" using Cons.prems by simp_all
    obtain c' K where ih: "sweep disc c (hd_or zs None) = Some c'" "core_inv c' ((ys @ [z]) @ filter (\<lambda>b. b \<notin> K) zs)"
        "\<forall>b \<in> set zs. killed c b \<longrightarrow> b \<in> K" "\<forall>b \<in> set zs. b \<in> K \<longrightarrow> heap c' b = None"
        "\<forall>b. b \<notin> set zs \<longrightarrow> (heap c' b = None \<longleftrightarrow> heap c b = None)"
        "(\<forall>a c. disc a c = Some c) \<longrightarrow> (\<forall>b \<in> set zs. b \<in> K \<longrightarrow> killed c b)"
        "\<forall>b \<in> set ((ys @ [z]) @ filter (\<lambda>b. b \<notin> K) zs). valid c' b"
      using Cons.IH [OF pre Cons.prems(3)] by (elim exE conjE) (rule that)
    have "filter (\<lambda>b. b \<notin> K - {z}) (z # zs) = z # filter (\<lambda>b. b \<notin> K) zs" using z(2) by (auto intro: filter_cong)
    then show ?thesis using step ih False z(2) by (intro exI [of _ c'] exI [of _ "K - {z}"]) auto
  next
    case True
    have mem: "z \<in> set (ys @ z # zs)" by simp
    obtain c1 c2 where sh: "disc z c = Some c1" "kill_ext c c1" "svz_sock_shutdown disc c z = Some c2"
        "core_inv c2 (remove1 z (ys @ z # zs))" "heap c2 z = None"
        "\<forall>b. b \<noteq> z \<longrightarrow> map_option ident (heap c2 b) = map_option ident (heap c b)"
        "\<forall>b \<in> set (remove1 z (ys @ z # zs)). valid c2 b = valid c b \<and> killed c2 b = killed c1 b"
      using shutdown_inv [OF Cons.prems(1) mem _ Cons.prems(3)] Cons.prems(2) by auto
    have rem: "remove1 z (ys @ z # zs) = ys @ zs" using z(1) by (simp add: remove1_append)
    have step: "sweep disc c (hd_or (z # zs) None) = sweep disc c2 (hd_or zs None)"
      using s True sh(3) by (subst sweep.simps) (simp add: killed_def)
    have pre: "core_inv c2 (ys @ zs)" "\<forall>b \<in> set (ys @ zs). valid c2 b" using sh(4,7) rem Cons.prems(2) by simp_all
    obtain c' K where ih: "sweep disc c2 (hd_or zs None) = Some c'" "core_inv c' (ys @ filter (\<lambda>b. b \<notin> K) zs)"
        "\<forall>b \<in> set zs. killed c2 b \<longrightarrow> b \<in> K" "\<forall>b \<in> set zs. b \<in> K \<longrightarrow> heap c' b = None"
        "\<forall>b. b \<notin> set zs \<longrightarrow> (heap c' b = None \<longleftrightarrow> heap c2 b = None)"
        "(\<forall>a c. disc a c = Some c) \<longrightarrow> (\<forall>b \<in> set zs. b \<in> K \<longrightarrow> killed c2 b)"
        "\<forall>b \<in> set (ys @ filter (\<lambda>b. b \<notin> K) zs). valid c' b"
      using Cons.IH [OF pre Cons.prems(3)] by (elim exE conjE) (rule that)
    have fl: "filter (\<lambda>b. b \<notin> insert z K) (z # zs) = filter (\<lambda>b. b \<notin> K) zs" using z(2) by (auto intro: filter_cong)
    have "\<forall>b \<in> set zs. killed c b \<longrightarrow> b \<in> K"
      using ih(3) sh(7) rem kill_ext_killed [OF sh(2)] by simp
    moreover have "b \<in> K \<longrightarrow> killed c b" if "b \<in> set zs" "\<forall>a c. disc a c = Some c" for b
      using that ih(6) sh(1,7) rem by auto
    moreover have "\<forall>b. b \<noteq> z \<longrightarrow> (heap c2 b = None \<longleftrightarrow> heap c b = None)" using sh(6) ident_None by blast
    ultimately show ?thesis using step ih(1,2,4,5,7) fl True z(2) sh(5)
      by (intro exI [of _ c'] exI [of _ "insert z K"]) auto
  qed
qed

lemma loop_post_spec:
  assumes "core_inv c xs" "\<forall>b \<in> set xs. valid c b" "disc_ok disc"
  shows "\<exists>c'. loop_post disc c = Some c' \<and> core_inv c' [] \<and> (\<forall>b \<in> set xs. heap c' b = None)
           \<and> (\<forall>b. heap c b = None \<longrightarrow> heap c' b = None)"
  using assms
proof (induction xs arbitrary: c)
  case Nil
  then show ?case by (subst loop_post.simps) (simp add: core_inv_def chain_def)
next
  case (Cons x xs)
  have mem: "x \<in> set (x # xs)" by simp
  obtain c1 c2 where sh: "svz_sock_shutdown disc c x = Some c2" "core_inv c2 xs" "heap c2 x = None"
      "\<forall>b. b \<noteq> x \<longrightarrow> map_option ident (heap c2 b) = map_option ident (heap c b)" "\<forall>b \<in> set xs. valid c2 b = valid c b"
    using shutdown_inv [OF Cons.prems(1) mem _ Cons.prems(3)] Cons.prems(2) by auto
  obtain c' where c': "loop_post disc c2 = Some c'" "core_inv c' []" "\<forall>b \<in> set xs. heap c' b = None"
      "\<forall>b. heap c2 b = None \<longrightarrow> heap c' b = None"
    using Cons.IH [OF sh(2)] sh(5) Cons.prems by auto
  have "svz_sock_root c = Some x" using Cons.prems(1) by (simp add: core_inv_def chain_def)
  then have "loop_post disc c = Some c'" using sh(1) c'(1) by (subst loop_post.simps) simp
  moreover have "heap c' b = None" if "heap c b = None" for b 
  proof (cases "b = x")
    case True
    then show ?thesis using sh(3) c'(4) by simp
  next
    case False
    then have "heap c2 b = None" using ident_None [of "heap c2 b" "heap c b"] sh(4) that by simp
    then show ?thesis using c'(4) by simp
  qed
  ultimately show ?case using c'(2,3,4) sh(3) by auto
qed

end
