(* ===== verification/Svz_Reach.thy ===== *)
theory Svz_Reach
  imports Svz_Core
begin

text \<open>
  The socket list as a state machine: what the operations of \<open>Svz_Core\<close> guarantee in every state
  the server can reach. The locale \<open>list_walker\<close> is the contract of the body of a
  \<^verbatim>\<open>svz_sock_foreach\<close> loop; \<open>core_step\<close> are the steps a server takes on the list, and its
  reachable states keep \<open>core_inv\<close> and the uniqueness of versions, so that an id and a version
  never name another socket than the one they were taken from.
\<close>

subsection \<open>Walking the list\<close>

definition grows :: "core \<Rightarrow> core \<Rightarrow> bool" where
  "grows c c' \<longleftrightarrow> (\<forall>a. killed c a \<longrightarrow> killed c' a)"

lemma grows_refl [simp]: "grows c c"
  by (simp add: grows_def)

lemma grows_trans: "grows c d \<Longrightarrow> grows d e \<Longrightarrow> grows c e"
  by (simp add: grows_def)

lemma kill_ext_grows: "kill_ext c c' \<Longrightarrow> grows c c'"
  using kill_ext_killed by (simp add: grows_def)

text \<open>A consistent list of sockets that all have valid descriptors.\<close>

definition live_inv :: "core \<Rightarrow> addr list \<Rightarrow> bool" where
  "live_inv c xs \<longleftrightarrow> core_inv c xs \<and> (\<forall>b \<in> set xs. valid c b)"

text \<open>
  The contract of a loop body: on a listed socket it returns, it may append sockets to the list, each
  at the cost of the budget (descriptors, pending connections), and it neither unlinks nor
  revives one. \<open>good\<close> is what it keeps of the rest of the state.
\<close>

definition step_ok :: "('s \<Rightarrow> core) \<Rightarrow> ('s \<Rightarrow> nat) \<Rightarrow> ('s \<Rightarrow> bool) \<Rightarrow> addr list \<Rightarrow> 's \<Rightarrow> 's \<Rightarrow> addr list \<Rightarrow> bool" where
  "step_ok get budget good xs st st' ys \<longleftrightarrow> live_inv (get st') (xs @ ys) \<and> good st'
     \<and> length ys + budget st' \<le> budget st \<and> grows (get st) (get st')"

lemma step_ok_trans:
  "step_ok get budget good xs s s' ys \<Longrightarrow> step_ok get budget good (xs @ ys) s' s'' zs \<Longrightarrow> step_ok get budget good xs s s'' (ys @ zs)"
  by (auto simp: step_ok_def dest: grows_trans)

lemma step_ok_refl: "live_inv (get s) xs \<Longrightarrow> good s \<Longrightarrow> step_ok get budget good xs s s []"
  by (simp add: step_ok_def)

locale list_walker =
  fixes get :: "'s \<Rightarrow> core" and body :: "addr \<Rightarrow> 's \<Rightarrow> 's option" and budget :: "'s \<Rightarrow> nat" and good :: "'s \<Rightarrow> bool"
  assumes keeps: "live_inv (get st) xs \<Longrightarrow> good st \<Longrightarrow> a \<in> set xs \<Longrightarrow>
     \<exists>st' ys. body a st = Some st' \<and> step_ok get budget good xs st st' ys"
begin

lemma foreach_ok:
  assumes "live_inv (get st) (ps @ zs)" "good st"
  shows "\<exists>st' ys. svz_sock_foreach get body st (hd_or zs None) = Some st' \<and> step_ok get budget good (ps @ zs) st st' ys"
  using assms
proof (induction "length zs + budget st" arbitrary: ps zs st rule: less_induct)
  case less
  show ?case
  proof (cases zs)
    case Nil
    then show ?thesis using less.prems step_ok_refl [of get st ps] by (subst svz_sock_foreach.simps) auto
  next
    case (Cons z zs')
    obtain s1 ys where s1: "body z st = Some s1" "step_ok get budget good (ps @ zs) st s1 ys"
      using keeps [OF less.prems, of z] Cons by auto
    then have inv: "live_inv (get s1) ((ps @ [z]) @ (zs' @ ys))" and len: "length (zs' @ ys) + budget s1 < length zs + budget st"
      using Cons by (simp_all add: step_ok_def)
    then obtain t where t: "heap (get s1) z = Some t" "sk_next t = hd_or (zs' @ ys) None"
      by (auto simp: live_inv_def core_inv_def chain_def lseg_append)
    have unf: "svz_sock_foreach get body st (hd_or zs None) = svz_sock_foreach get body s1 (hd_or (zs' @ ys) None)"
      using Cons s1(1) t by (subst svz_sock_foreach.simps) simp
    have "good s1" using s1(2) by (simp add: step_ok_def)
    from less.hyps [OF len inv this] obtain s2 ys2
      where s2: "svz_sock_foreach get body s1 (hd_or (zs' @ ys) None) = Some s2"
        "step_ok get budget good ((ps @ zs) @ ys) s1 s2 ys2" using Cons by auto
    then show ?thesis using unf step_ok_trans [OF s1(2)] by auto
  qed
qed

lemma foreach_all:
  assumes "live_inv (get st) xs" "good st"
  shows "\<exists>st' ys. svz_sock_foreach get body st (svz_sock_root (get st)) = Some st' \<and> step_ok get budget good xs st st' ys"
  using foreach_ok [of st "[]" xs] assms by (simp add: live_inv_def core_inv_def chain_def)

end

lemma validate_loop_spec:
  assumes "core_inv c (ys @ zs)" "\<forall>b \<in> set zs. valid c b"
  shows "validate_loop c (last_or None ys) (hd_or zs None) = Some True"
  using assms
proof (induction zs arbitrary: ys)
  case Nil
  then show ?case by (subst validate_loop.simps) (simp add: core_inv_def chain_def)
next
  case (Cons z zs)
  obtain s where s: "heap c z = Some s" "sk_next s = hd_or zs None" "sk_prev s = last_or None ys"
    using Cons.prems(1) by (auto simp: core_inv_def chain_def lseg_append)
  have t: "tab_get c (sk_id s) = Some (Some z)"
    using tab_ok_member [of c "ys @ z # zs" z] Cons.prems(1) s(1) by (auto simp: core_inv_def)
  have "\<not> invalid_desc s" using Cons.prems(2) s(1) by (simp add: valid_def)
  then have "validate_loop c (last_or None ys) (Some z) = validate_loop c (Some z) (hd_or zs None)"
    using s t by (subst validate_loop.simps) simp
  moreover have "last_or None (ys @ [z]) = Some z" by simp
  ultimately show ?case using Cons.IH [of "ys @ [z]"] Cons.prems by simp
qed

lemma validate_live: "live_inv c xs \<Longrightarrow> validate_list_of_socks c = Some True"
  using validate_loop_spec [of c "[]" xs] by (auto simp: validate_list_of_socks_def live_inv_def core_inv_def chain_def)

subsection \<open>Steps\<close>

text \<open>Code outside the list may change a socket except for its links, identity and enqueued flag.\<close>

definition tweaks :: "svz_socket \<Rightarrow> svz_socket \<Rightarrow> bool" where
  "tweaks s s' \<longleftrightarrow> sk_next s' = sk_next s \<and> sk_prev s' = sk_prev s \<and> ident s' = ident s"

inductive core_step :: "core \<Rightarrow> core \<Rightarrow> bool" where
  create: "heap c a = None \<Longrightarrow> \<not> has_flag s SVZ_SOFLG_ENQUEUED \<Longrightarrow>
     svz_sock_unique_id (c\<lparr>heap := (heap c)(a \<mapsto> s)\<rparr>) a = Some (i, c') \<Longrightarrow> core_step c c'"
| tweak: "heap c a = Some s \<Longrightarrow> tweaks s s' \<Longrightarrow> core_step c (c\<lparr>heap := (heap c)(a \<mapsto> s')\<rparr>)"
| enqueue: "svz_sock_enqueue c a = Some (r, c') \<Longrightarrow> core_step c c'"
| rechain: "rechain_list_of_socks c = Some c' \<Longrightarrow> core_step c c'"
| schedule: "heap c a = Some s \<Longrightarrow> has_flag s SVZ_SOFLG_ENQUEUED \<Longrightarrow>
     svz_sock_schedule_for_shutdown c a = Some c' \<Longrightarrow> core_step c c'"
| shutdown: "heap c a = Some s \<Longrightarrow> has_flag s SVZ_SOFLG_ENQUEUED \<Longrightarrow> valid c a \<Longrightarrow> disc_ok disc \<Longrightarrow>
     svz_sock_shutdown disc c a = Some c' \<Longrightarrow> core_step c c'"

inductive core_reach :: "core \<Rightarrow> bool" where
  reach_init: "core_reach core_init"
| reach_step: "core_reach c \<Longrightarrow> core_step c c' \<Longrightarrow> core_reach c'"

text \<open>The invariant of the reachable states.\<close>

definition world_inv :: "core \<Rightarrow> addr list \<Rightarrow> bool" where
  "world_inv c xs \<longleftrightarrow> core_inv c xs
     \<and> (\<forall>a s. heap c a = Some s \<longrightarrow> 0 \<le> sk_version s \<and> sk_version s < sock_version c
                \<and> (has_flag s SVZ_SOFLG_ENQUEUED \<longrightarrow> a \<in> set xs))
     \<and> (\<forall>a b s t. heap c a = Some s \<longrightarrow> heap c b = Some t \<longrightarrow> sk_version s = sk_version t \<longrightarrow> a = b)
     \<and> 0 \<le> sock_version c"

text \<open>No step gives an old version to a socket that did not have it.\<close>

definition ages :: "core \<Rightarrow> core \<Rightarrow> bool" where
  "ages c c' \<longleftrightarrow> sock_version c \<le> sock_version c' \<and> (\<forall>b t. heap c' b = Some t \<longrightarrow>
     sock_version c \<le> sk_version t \<or> (\<exists>s. heap c b = Some s \<and> sk_version s = sk_version t))"

lemma ages_refl [simp]: "ages c c"
  by (simp add: ages_def)

lemma ages_trans:
  assumes "ages c d" "ages d e"
  shows "ages c e"
proof -
  have "sock_version c \<le> sk_version t \<or> (\<exists>s. heap c b = Some s \<and> sk_version s = sk_version t)" if h: "heap e b = Some t" for b t
  proof (cases "sock_version d \<le> sk_version t")
    case True
    then show ?thesis using assms(1) by (simp add: ages_def)
  next
    case False
    then obtain u where u: "heap d b = Some u" "sk_version u = sk_version t" using assms(2) h unfolding ages_def by blast
    from assms(1) u(1) have "sock_version c \<le> sk_version u \<or> (\<exists>s. heap c b = Some s \<and> sk_version s = sk_version u)"
      unfolding ages_def by blast
    then show ?thesis unfolding u(2) .
  qed
  then show ?thesis using assms by (auto simp: ages_def)
qed

lemma world_inv_ident:
  assumes "world_inv c xs" "core_inv c' xs'" "\<And>b. b \<noteq> a \<Longrightarrow> map_option ident (heap c' b) = map_option ident (heap c b)"
    "sock_version c' = sock_version c" "set xs - {a} \<subseteq> set xs'"
    "\<And>s'. heap c' a = Some s' \<Longrightarrow> \<exists>s. heap c a = Some s \<and> sk_version s' = sk_version s
             \<and> (has_flag s' SVZ_SOFLG_ENQUEUED \<longrightarrow> a \<in> set xs')"
  shows "world_inv c' xs' \<and> ages c c'"
proof
  have old: "\<exists>t. heap c b = Some t \<and> sk_version s = sk_version t \<and> (has_flag s SVZ_SOFLG_ENQUEUED \<longrightarrow> b \<in> set xs')"
    if h: "heap c' b = Some s" for b s
  proof (cases "b = a")
    case True
    then show ?thesis using assms(6) h by blast
  next
    case False
    then obtain t where t: "heap c b = Some t" "ident s = ident t"
      using assms(3) [OF False] h by (cases "heap c b") auto
    then have "has_flag s SVZ_SOFLG_ENQUEUED \<longrightarrow> b \<in> set xs'"
      using assms(1,5) False unfolding world_inv_def ident_def by (metis DiffI empty_iff insert_iff prod.inject subsetD)
    then show ?thesis using t by (auto simp: ident_def)
  qed
  show "world_inv c' xs'" unfolding world_inv_def
  proof (intro conjI allI impI)
    show "core_inv c' xs'" by (rule assms(2))
    show "0 \<le> sock_version c'" using assms(1,4) by (simp add: world_inv_def)
    fix b s assume "heap c' b = Some s"
    from old [OF this] show "0 \<le> sk_version s" "sk_version s < sock_version c'"
      "has_flag s SVZ_SOFLG_ENQUEUED \<Longrightarrow> b \<in> set xs'"
      using assms(1,4) unfolding world_inv_def by auto
  next
    fix b d s t assume "heap c' b = Some s" "heap c' d = Some t" "sk_version s = sk_version t"
    then show "b = d" using old [of b s] old [of d t] assms(1) unfolding world_inv_def by metis
  qed
  have "\<exists>t. heap c b = Some t \<and> sk_version t = sk_version s" if "heap c' b = Some s" for b s
    using old [OF that] by (elim exE conjE) (rule exI, rule conjI, assumption, erule sym)
  then show "ages c c'" using assms(4) by (simp add: ages_def)
qed

lemma world_member: "world_inv c xs \<Longrightarrow> heap c a = Some s \<Longrightarrow> has_flag s SVZ_SOFLG_ENQUEUED \<Longrightarrow> a \<in> set xs"
  by (simp add: world_inv_def)

lemma world_step_create:
  assumes "world_inv c xs" "heap c a = None" "\<not> has_flag s SVZ_SOFLG_ENQUEUED"
    "svz_sock_unique_id (c\<lparr>heap := (heap c)(a \<mapsto> s)\<rparr>) a = Some (i, c')"
  shows "world_inv c' xs \<and> ages c c'"
proof
  have inv: "core_inv c xs" using assms(1) by (simp add: world_inv_def)
  then have a: "a \<notin> set xs" using tab_ok_member [of c xs a] assms(2) by (auto simp: core_inv_def)
  let ?c = "c\<lparr>heap := (heap c)(a \<mapsto> s)\<rparr>"
  have "quiet (set xs) c ?c" using a by (auto simp: quiet_def)
  then have "core_inv ?c xs" by (rule quiet_inv [OF inv])
  from unique_id_inv [OF this, of a s] a assms(4)
  have c': "core_inv c' xs" "heap c' = (heap c)(a \<mapsto> s\<lparr>sk_id := i, sk_version := sock_version c\<rparr>)"
      "sock_version c' = sock_version c + 1" by auto
  have hs: "has_flag (s\<lparr>sk_id := i, sk_version := sock_version c\<rparr>) SVZ_SOFLG_ENQUEUED = has_flag s SVZ_SOFLG_ENQUEUED"
    by (simp add: has_flag_def)
  have bd: "0 \<le> sk_version t \<and> sk_version t < sock_version c \<and> (has_flag t SVZ_SOFLG_ENQUEUED \<longrightarrow> b \<in> set xs)"
    if "heap c b = Some t" for b t using assms(1) that by (simp add: world_inv_def)
  have uniq: "b = d" if "heap c b = Some t" "heap c d = Some u" "sk_version t = sk_version u" for b d t u
    using assms(1) that unfolding world_inv_def by blast
  have sv: "0 \<le> sock_version c" using assms(1) by (simp add: world_inv_def)
  have cell: "b = a \<and> sk_version t = sock_version c \<and> \<not> has_flag t SVZ_SOFLG_ENQUEUED \<or> b \<noteq> a \<and> heap c b = Some t"
    if h: "heap c' b = Some t" for b t
  proof (cases "b = a")
    case True
    then have "t = s\<lparr>sk_id := i, sk_version := sock_version c\<rparr>" using h c'(2) by simp
    then show ?thesis using hs assms(3) True by simp
  next
    case False
    then show ?thesis using h c'(2) by simp
  qed
  have "sock_version c \<le> sk_version t \<or> (\<exists>s. heap c b = Some s \<and> sk_version s = sk_version t)" if "heap c' b = Some t" for b t
    using cell [OF that] by (elim disjE) simp_all
  then show "ages c c'" using c'(3) by (simp add: ages_def)
  show "world_inv c' xs" unfolding world_inv_def
  proof (intro conjI allI impI)
    show "core_inv c' xs" "0 \<le> sock_version c'" using c' sv by simp_all
    fix b t assume "heap c' b = Some t"
    from cell [OF this] bd [of b t]
    have "0 \<le> sk_version t \<and> sk_version t < sock_version c' \<and> (has_flag t SVZ_SOFLG_ENQUEUED \<longrightarrow> b \<in> set xs)"
      using sv c'(3) by (elim disjE) simp_all
    then show "0 \<le> sk_version t" "sk_version t < sock_version c'" "has_flag t SVZ_SOFLG_ENQUEUED \<Longrightarrow> b \<in> set xs" by simp_all
  next
    fix b d t u assume h: "heap c' b = Some t" "heap c' d = Some u" "sk_version t = sk_version u"
    show "b = d"
      using cell [OF h(1)] cell [OF h(2)] bd [of b t] bd [of d u] uniq [of b t d u] h(3) by (metis order_less_irrefl)
  qed
qed

lemma world_step_tweak:
  assumes "world_inv c xs" "heap c a = Some s" "tweaks s s'"
  shows "world_inv (c\<lparr>heap := (heap c)(a \<mapsto> s')\<rparr>) xs \<and> ages c (c\<lparr>heap := (heap c)(a \<mapsto> s')\<rparr>)"
proof -
  let ?c = "c\<lparr>heap := (heap c)(a \<mapsto> s')\<rparr>"
  have ch: "chain c xs" and tab: "tab_ok c xs" using assms(1) by (simp_all add: world_inv_def core_inv_def)
  have id: "sk_id s' = sk_id s" "sk_version s' = sk_version s" "has_flag s' SVZ_SOFLG_ENQUEUED = has_flag s SVZ_SOFLG_ENQUEUED"
    using assms(3) by (simp_all add: tweaks_def ident_def)
  have "same_links (heap c) (heap ?c) (set xs)" using assms(2,3) by (auto simp: same_links_def tweaks_def)
  then have "chain ?c xs" using ch lseg_same_links by (auto simp: chain_def)
  moreover have "tab_ok ?c xs" unfolding tab_ok_def tab_get_other
  proof (intro conjI ballI allI impI)
    show "\<exists>k. sock_limit ?c = 2 ^ k" "int (length (socktab ?c)) = sock_limit ?c" using tab by (simp_all add: tab_ok_def)
    show "\<exists>s. heap ?c b = Some s \<and> has_flag s SVZ_SOFLG_ENQUEUED \<and> tab_get c (sk_id s) = Some (Some b)" if "b \<in> set xs" for b
      using tab_ok_member [OF tab that] assms(2) id by (cases "b = a") auto
    fix i b assume "tab_get c i = Some (Some b)"
    from tab_ok_entry [OF tab this] show "b \<in> set xs" "\<exists>s. heap ?c b = Some s \<and> sk_id s = i"
      using assms(2) id by (cases "b = a", auto)+
  qed
  ultimately have "core_inv ?c xs" by (simp add: core_inv_def)
  then show ?thesis
    using assms(1,2) id by (intro world_inv_ident [where a = a, OF assms(1)]) (auto dest: world_member)
qed

lemma world_step_enqueue:
  assumes "world_inv c xs" "svz_sock_enqueue c a = Some (r, c')"
  shows "\<exists>xs'. world_inv c' xs' \<and> ages c c'"
proof -
  have inv: "core_inv c xs" using assms(1) by (simp add: world_inv_def)
  obtain s where s: "heap c a = Some s" using assms(2) by (auto simp: svz_sock_enqueue_def)
  show ?thesis
  proof (cases "r = 0 \<and> \<not> invalid_desc s \<and> tab_get c (sk_id s) = Some None \<and> \<not> has_flag s SVZ_SOFLG_ENQUEUED")
    case True
    obtain n p where "core_inv c' (xs @ [a])" "same_payload c c' (- {a})"
        "heap c' a = Some (set_flag SVZ_SOFLG_ENQUEUED (s\<lparr>sk_next := n, sk_prev := p\<rparr>))" "sock_version c' = sock_version c"
      using enqueue_inv [OF inv s] True assms(2) by auto
    then have "world_inv c' (xs @ [a]) \<and> ages c c'" using s
      by (intro world_inv_ident [where a = a, OF assms(1)]) (auto intro: same_payload_ident)
    then show ?thesis by blast
  next
    case False
    then have "c' = c" using assms(2) s
      by (auto simp: svz_sock_enqueue_def split: if_splits elim!: bind_SomeE)
    then show ?thesis using assms(1) ages_refl by blast
  qed
qed

lemma rechained_set: "set (rechained c xs) = set xs"
proof (cases xs rule: rev_cases)
  case (snoc ys y)
  let ?P = "\<lambda>b. prefers c b \<and> \<not> listens c y"
  have "set (takeWhile ?P ys) \<union> set (drop (length (takeWhile ?P ys)) ys) = set ys"
    by (metis set_append takeWhile_dropWhile_id takeWhile_drop)
  then show ?thesis unfolding snoc rechained_def Let_def by auto
qed (simp add: rechained_def)

lemma world_step_rechain:
  assumes "world_inv c xs" "rechain_list_of_socks c = Some c'"
  shows "world_inv c' (rechained c xs) \<and> ages c c'"
proof -
  have c': "core_inv c' (rechained c xs)" "same_payload c c' UNIV" "sock_version c' = sock_version c"
    using rechain_inv [of c xs] assms by (auto simp: world_inv_def)
  have id: "map_option ident (heap c' b) = map_option ident (heap c b)" for b
    using same_payload_ident [OF c'(2)] by simp
  have "\<exists>s. heap c b = Some s \<and> sk_version t = sk_version s \<and> (has_flag t SVZ_SOFLG_ENQUEUED \<longrightarrow> b \<in> set (rechained c xs))"
    if "heap c' b = Some t" for b t
    using id [of b] that assms(1) by (cases "heap c b") (auto simp: ident_def rechained_set dest: world_member)
  then show ?thesis using id by (intro world_inv_ident [OF assms(1) c'(1) _ c'(3)]) (auto simp: rechained_set)
qed

lemma world_kill_ext:
  assumes "world_inv c xs" "kill_ext c c'"
  shows "world_inv c' xs \<and> ages c c'"
proof -
  have inv: "core_inv c' xs" using kill_ext_inv [OF _ assms(2)] assms(1) by (simp add: world_inv_def)
  have id: "map_option ident (heap c' b) = map_option ident (heap c b)" for b by (rule kill_ext_ident [OF assms(2)])
  have "\<exists>s. heap c b = Some s \<and> sk_version t = sk_version s \<and> (has_flag t SVZ_SOFLG_ENQUEUED \<longrightarrow> b \<in> set xs)"
    if "heap c' b = Some t" for b t
    using id [of b] that assms(1) by (cases "heap c b") (auto simp: ident_def dest: world_member)
  then show ?thesis using id by (intro world_inv_ident [OF assms(1) inv _ kill_ext_core(6) [OF assms(2)]]) auto
qed

lemma world_step_shutdown:
  assumes "world_inv c xs" "a \<in> set xs" "valid c a" "disc_ok disc" "svz_sock_shutdown disc c a = Some c'"
  shows "world_inv c' (remove1 a xs) \<and> ages c c'"
proof -
  have inv: "core_inv c xs" using assms(1) by (simp add: world_inv_def)
  have c': "core_inv c' (remove1 a xs)" "heap c' a = None" "sock_version c' = sock_version c"
      "\<And>b. b \<noteq> a \<Longrightarrow> map_option ident (heap c' b) = map_option ident (heap c b)"
    using shutdown_inv [OF inv assms(2-4)] assms(5) by auto
  have "set xs - {a} \<subseteq> set (remove1 a xs)" using inv by (simp add: core_inv_def chain_def)
  then show ?thesis using c'(2) by (intro world_inv_ident [OF assms(1) c'(1) c'(4) c'(3)]) auto
qed

lemma world_step:
  assumes "core_step c c'" "world_inv c xs"
  shows "\<exists>xs'. world_inv c' xs' \<and> ages c c'"
  using assms
proof cases
  case (create a s i)
  then show ?thesis using world_step_create [OF assms(2)] by blast
next
  case (tweak a s s')
  then show ?thesis using world_step_tweak [OF assms(2)] by blast
next
  case (enqueue a r)
  then show ?thesis by (rule world_step_enqueue [OF assms(2)])
next
  case rechain
  then show ?thesis using world_step_rechain [OF assms(2)] by blast
next
  case (schedule a s)
  have "core_inv c xs" "a \<in> set xs" using assms(2) schedule(1,2) by (auto simp: world_inv_def)
  then have "kill_ext c c'" using sched_kill [of c xs a] schedule(3)
    by (auto simp: kill_claim_def svz_sock_schedule_for_shutdown_def)
  then show ?thesis using world_kill_ext [OF assms(2)] by blast
next
  case (shutdown a s disc)
  then show ?thesis using world_step_shutdown [OF assms(2) world_member [OF assms(2)]] by blast
qed

lemma world_steps:
  assumes "core_step\<^sup>*\<^sup>* c c'" "world_inv c xs"
  shows "\<exists>xs'. world_inv c' xs' \<and> ages c c'"
  using assms
proof (induction rule: rtranclp_induct)
  case (step d e)
  then obtain ys where "world_inv d ys" "ages c d" by blast
  then show ?case using world_step [OF step(2)] ages_trans by blast
qed auto

lemma reach_world: "core_reach c \<Longrightarrow> \<exists>xs. world_inv c xs"
proof (induction rule: core_reach.induct)
  case reach_init
  have "world_inv core_init []" using core_init_inv by (simp add: world_inv_def core_init_def)
  then show ?case by blast
next
  case (reach_step c c')
  then show ?case using world_step by blast
qed

lemma world_find:
  assumes "world_inv c xs"
  shows "svz_sock_find c i v = Some None \<or> (\<exists>a s. svz_sock_find c i v = Some (Some a) \<and> heap c a = Some s
           \<and> has_flag s SVZ_SOFLG_ENQUEUED \<and> sk_id s = i \<and> (v = -1 \<or> sk_version s = v))"
proof -
  have inv: "core_inv c xs" using assms by (simp add: world_inv_def)
  obtain r where r: "svz_sock_find c i v = Some r"
      "\<forall>a. r = Some a \<longleftrightarrow> a \<in> set xs \<and> (\<exists>s. heap c a = Some s \<and> sk_id s = i \<and> (v = -1 \<or> sk_version s = v))"
    using find_spec [OF inv] by blast
  show ?thesis
  proof (cases r)
    case (Some a)
    then obtain s where "heap c a = Some s" "sk_id s = i" "v = -1 \<or> sk_version s = v" "a \<in> set xs" using r(2) by blast
    moreover from this have "has_flag s SVZ_SOFLG_ENQUEUED"
      using tab_ok_member [of c xs a] inv by (auto simp: core_inv_def)
    ultimately show ?thesis using r(1) Some by blast
  qed (use r(1) in simp)
qed

subsection \<open>An example\<close>

text \<open>A listener at address 5 and a connection at address 6 that it accepted.\<close>

definition ex_listener :: svz_socket where
  "ex_listener = (svz_sock_alloc 0)\<lparr>sk_flags := SVZ_SOFLG_SOCK OR SVZ_SOFLG_LISTENING, sk_sock_desc := 3\<rparr>"

definition ex_child :: svz_socket where
  "ex_child = (svz_sock_alloc 0)\<lparr>sk_flags := SVZ_SOFLG_SOCK OR SVZ_SOFLG_CONNECTED, sk_sock_desc := 4,
     sk_parent_id := 1, sk_parent_version := 0\<rparr>"

definition ex_core1 :: core where
  "ex_core1 = core_init\<lparr>heap := [5 \<mapsto> ex_listener\<lparr>sk_id := 1, sk_version := 0\<rparr>], sock_id := 1, sock_version := 1\<rparr>"

definition ex_core2 :: core where
  "ex_core2 = ex_core1\<lparr>heap := [5 \<mapsto> set_flag SVZ_SOFLG_ENQUEUED (ex_listener\<lparr>sk_id := 1, sk_version := 0\<rparr>)],
     svz_sock_root := Some 5, last_socket := Some 5, socktab := (replicate 1024 None)[1 := Some 5]\<rparr>"

definition ex_core3 :: core where
  "ex_core3 = ex_core2\<lparr>heap := (heap ex_core2)(6 \<mapsto> ex_child\<lparr>sk_id := 2, sk_version := 1\<rparr>), sock_id := 2, sock_version := 2\<rparr>"

definition ex_core :: core where
  "ex_core = ex_core3\<lparr>
     heap := [5 \<mapsto> set_flag SVZ_SOFLG_ENQUEUED (ex_listener\<lparr>sk_id := 1, sk_version := 0, sk_next := Some 6\<rparr>),
              6 \<mapsto> set_flag SVZ_SOFLG_ENQUEUED (ex_child\<lparr>sk_id := 2, sk_version := 1, sk_prev := Some 5\<rparr>)],
     last_socket := Some 6, socktab := (replicate 1024 None)[1 := Some 5, 2 := Some 6]\<rparr>"

lemmas ex_defs = ex_core_def ex_core3_def ex_core2_def ex_core1_def core_init_def ex_child_def ex_listener_def svz_sock_alloc_def
lemmas ex_eval = upd_def tab_get_def tab_set_def invalid_desc_def svz_pipe_valid_def validate_sock_def
  has_flag_def set_flag_def clear_flag_def soflg_defs

lemma unique_id_first:
  assumes "tab_get c ((sock_id c + 1) AND (sock_limit c - 1)) = Some None" "0 < sock_limit c"
  shows "svz_sock_unique_id c a = do {
     let c = c\<lparr>sock_id := (sock_id c + 1) AND (sock_limit c - 1)\<rparr>;
     c \<leftarrow> upd c a (\<lambda>s. s\<lparr>sk_id := sock_id c, sk_version := sock_version c\<rparr>);
     Some (sock_id c, c\<lparr>sock_version := sock_version c + 1\<rparr>) }"
proof -
  obtain n where "nat (sock_limit c) = Suc n" using assms(2) by (cases "nat (sock_limit c)") auto
  then show ?thesis using assms(1) by (simp add: svz_sock_unique_id_def)
qed

lemma ex_steps:
  "svz_sock_unique_id (core_init\<lparr>heap := (heap core_init)(5 \<mapsto> ex_listener)\<rparr>) 5 = Some (1, ex_core1)"
  "svz_sock_enqueue ex_core1 5 = Some (0, ex_core2)"
  "svz_sock_unique_id (ex_core2\<lparr>heap := (heap ex_core2)(6 \<mapsto> ex_child)\<rparr>) 6 = Some (2, ex_core3)"
  "svz_sock_enqueue ex_core3 6 = Some (0, ex_core)"
     apply (subst unique_id_first)
       apply (simp_all add: ex_defs ex_eval)
    apply (simp_all add: svz_sock_enqueue_def ex_eval)
  apply (subst unique_id_first)
    apply (simp_all add: ex_eval fun_upd_twist)
  done

lemma ex_fields:
  "heap core_init 5 = None" "heap ex_core2 6 = None" "\<not> has_flag ex_listener SVZ_SOFLG_ENQUEUED" "\<not> has_flag ex_child SVZ_SOFLG_ENQUEUED"
  by (simp_all add: ex_defs ex_eval)

lemma ex_reach3: "core_reach ex_core3"
proof -
  have "core_reach ex_core1" by (rule reach_step [OF reach_init create [OF ex_fields(1,3) ex_steps(1)]])
  then have "core_reach ex_core2" by (rule reach_step [OF _ enqueue [OF ex_steps(2)]])
  then show ?thesis by (rule reach_step [OF _ create [OF ex_fields(2,4) ex_steps(3)]])
qed

lemma ex_reach: "core_reach ex_core"
  by (rule reach_step [OF ex_reach3 enqueue [OF ex_steps(4)]])

lemma ex_inv: "core_inv ex_core [5, 6]"
proof -
  have "core_inv (core_init\<lparr>heap := (heap core_init)(5 \<mapsto> ex_listener)\<rparr>) []"
    by (rule quiet_inv [OF core_init_inv]) (simp add: quiet_def)
  from unique_id_inv [OF this, of 5 ex_listener] have "core_inv ex_core1 []" using ex_steps(1) by auto
  moreover have "heap ex_core1 5 = Some (ex_listener\<lparr>sk_id := 1, sk_version := 0\<rparr>)" by (simp add: ex_core1_def)
  ultimately have "core_inv ex_core2 [5]"
    using enqueue_inv [of ex_core1 "[]" 5] ex_steps(2) by (auto simp: ex_defs ex_eval)
  then have "core_inv (ex_core2\<lparr>heap := (heap ex_core2)(6 \<mapsto> ex_child)\<rparr>) [5]"
    by (rule quiet_inv) (simp add: quiet_def)
  from unique_id_inv [OF this, of 6 ex_child] have "core_inv ex_core3 [5]" using ex_steps(3) by auto
  moreover have "heap ex_core3 6 = Some (ex_child\<lparr>sk_id := 2, sk_version := 1\<rparr>)" by (simp add: ex_core3_def)
  ultimately show ?thesis using enqueue_inv [of ex_core3 "[5]" 6] ex_steps(4) by (auto simp: ex_defs ex_eval)
qed

lemma ex_world: "world_inv ex_core [5, 6]"
proof -
  have "(a = 5 \<and> sk_version s = 0) \<or> (a = 6 \<and> sk_version s = 1)" if "heap ex_core a = Some s" for a s
    using that by (auto simp: ex_defs ex_eval split: if_splits)
  moreover have "sock_version ex_core = 2" by (simp add: ex_defs)
  ultimately have ver: "0 \<le> sk_version s \<and> sk_version s < sock_version ex_core \<and> a \<in> {5, 6} \<and> sk_version s = int a - 5"
    if "heap ex_core a = Some s" for a s using that by fastforce
  have "a = b" if h: "heap ex_core a = Some s" "heap ex_core b = Some t" "sk_version s = sk_version t" for a b s t
    using ver [OF h(1)] ver [OF h(2)] h(3) by auto
  then show ?thesis using ver ex_inv by (simp add: world_inv_def ex_defs)
qed

lemma ex_valid: "valid ex_core 5" "valid ex_core 6"
  by (simp_all add: valid_def ex_defs ex_eval)

subsection \<open>Properties of the socket list\<close>





text \<open>
  C4. The pointer operations implement operations on the list of sockets they represent: enqueueing
  appends, dequeueing removes, and rechaining moves the last socket in front of the first one
  that is neither a listener nor prioritised (to the very front when it listens). When a
  socket has a bad descriptor, or is already (or not) in the list, the operation returns -1
  and changes nothing.
\<close>

theorem list_operations_refine:
  assumes "world_inv c xs" and "heap c a = Some s" and "tab_get c (sk_id s) = Some t"
  shows "(if invalid_desc s \<or> t \<noteq> None \<or> a \<in> set xs then svz_sock_enqueue c a = Some (-1, c)
         else \<exists>c'. svz_sock_enqueue c a = Some (0, c') \<and> core_inv c' (xs @ [a]) \<and> same_payload c c' (- {a}))
    \<and> (if invalid_desc s \<or> a \<notin> set xs then dequeue c a = Some (-1, c)
         else \<exists>c'. dequeue c a = Some (0, c') \<and> core_inv c' (remove1 a xs) \<and> same_payload c c' (- {a}))
    \<and> (\<exists>c'. rechain_list_of_socks c = Some c' \<and> core_inv c' (rechained c xs) \<and> same_payload c c' UNIV)"
proof (intro conjI)
  have inv: "core_inv c xs" using assms(1) by (simp add: world_inv_def)
  have mem: "has_flag s SVZ_SOFLG_ENQUEUED \<longleftrightarrow> a \<in> set xs"
    using world_member [OF assms(1,2)] tab_ok_member [of c xs a] inv assms(2) by (auto simp: core_inv_def)
  show "if invalid_desc s \<or> t \<noteq> None \<or> a \<in> set xs then svz_sock_enqueue c a = Some (-1, c)
         else \<exists>c'. svz_sock_enqueue c a = Some (0, c') \<and> core_inv c' (xs @ [a]) \<and> same_payload c c' (- {a})"
  proof (cases "invalid_desc s \<or> t \<noteq> None \<or> a \<in> set xs")
    case True
    then show ?thesis using assms(2,3) mem by (auto simp: svz_sock_enqueue_def)
  next
    case False
    then show ?thesis using enqueue_inv [OF inv assms(2)] assms(3) mem by auto
  qed
  show "if invalid_desc s \<or> a \<notin> set xs then dequeue c a = Some (-1, c)
         else \<exists>c'. dequeue c a = Some (0, c') \<and> core_inv c' (remove1 a xs) \<and> same_payload c c' (- {a})"
  proof (cases "invalid_desc s \<or> a \<notin> set xs")
    case True
    then show ?thesis using assms(2,3) mem by (auto simp: dequeue_def)
  next
    case False
    then show ?thesis using dequeue_inv [OF inv _ assms(2)] by auto
  qed
  show "\<exists>c'. rechain_list_of_socks c = Some c' \<and> core_inv c' (rechained c xs) \<and> same_payload c c' UNIV"
    using rechain_inv [OF inv] by blast
qed

theorem list_operations_refine_witness:
  "\<exists>c'. dequeue ex_core 6 = Some (0, c') \<and> core_inv c' [5] \<and> same_payload ex_core c' (- {6})"
proof -
  obtain s where s: "heap ex_core 6 = Some s" "tab_get ex_core (sk_id s) = Some (Some 6)" by (auto simp: ex_defs ex_eval)
  moreover have "\<not> invalid_desc s" using s(1) ex_valid(2) by (simp add: valid_def)
  ultimately show ?thesis using list_operations_refine [OF ex_world s] by simp
qed

text \<open>
  \<^verbatim>\<open>svz_sock_unique_id\<close> always returns: the new socket gets an id in the bounds of the lookup
  table whose entry is free and a version no allocated socket has, the table grows only when
  it is full, by doubling, and nothing else changes.
\<close>

theorem unique_id_fresh:
  assumes "world_inv c xs" and "heap c a = Some s" and "a \<notin> set xs"
  shows "\<exists>i c'. svz_sock_unique_id c a = Some (i, c') \<and> tab_get c' i = Some None \<and> core_inv c' xs
           \<and> heap c' = (heap c)(a \<mapsto> s\<lparr>sk_id := i, sk_version := sock_version c\<rparr>)
           \<and> (\<forall>b t. b \<noteq> a \<longrightarrow> heap c' b = Some t \<longrightarrow> sk_version t \<noteq> sock_version c)
           \<and> (sock_limit c' = sock_limit c
              \<or> sock_limit c' = sock_limit c * 2 \<and> i = sock_limit c \<and> None \<notin> set (socktab c))"
proof -
  have inv: "core_inv c xs" using assms(1) by (simp add: world_inv_def)
  obtain i c' where c': "svz_sock_unique_id c a = Some (i, c')" "core_inv c' xs" "tab_get c' i = Some None"
      "heap c' = (heap c)(a \<mapsto> s\<lparr>sk_id := i, sk_version := sock_version c\<rparr>)"
      "sock_limit c' = sock_limit c \<or> sock_limit c' = sock_limit c * 2 \<and> i = sock_limit c \<and> None \<notin> set (socktab c)"
    using unique_id_inv [OF inv assms(2,3)] by blast
  have "sk_version t \<noteq> sock_version c" if h: "b \<noteq> a" "heap c' b = Some t" for b t
  proof -
    have "heap c b = Some t" using h c'(4) by simp
    then show ?thesis using assms(1) unfolding world_inv_def by (metis order_less_irrefl)
  qed
  then show ?thesis using c' by blast
qed

theorem unique_id_fresh_witness:
  "\<exists>i c'. svz_sock_unique_id ex_core3 6 = Some (i, c') \<and> tab_get c' i = Some None"
proof -
  obtain xs where xs: "world_inv ex_core3 xs" using reach_world [OF ex_reach3] by blast
  have h: "heap ex_core3 6 = Some (ex_child\<lparr>sk_id := 2, sk_version := 1\<rparr>)" by (simp add: ex_core3_def)
  have "6 \<notin> set xs" using tab_ok_member [of ex_core3 xs 6] xs h
    by (auto simp: world_inv_def core_inv_def ex_child_def svz_sock_alloc_def has_flag_def soflg_defs)
  then show ?thesis using unique_id_fresh [OF xs h] by blast
qed



lemma sweep_all:
  assumes "core_inv c xs" and "\<forall>b \<in> set xs. valid c b" and "disc_ok disc"
  shows "\<exists>c' K. sweep disc c (svz_sock_root c) = Some c' \<and> core_inv c' (filter (\<lambda>b. b \<notin> K) xs)
           \<and> (\<forall>b \<in> set xs. killed c b \<longrightarrow> b \<in> K) \<and> (\<forall>b \<in> set xs. b \<in> K \<longrightarrow> heap c' b = None)
           \<and> ((\<forall>a c. disc a c = Some c) \<longrightarrow> (\<forall>b \<in> set xs. b \<in> K \<longrightarrow> killed c b))
           \<and> (\<forall>b \<in> set xs. b \<notin> K \<longrightarrow> valid c' b)"
proof -
  have "svz_sock_root c = hd_or xs None" using assms(1) by (simp add: core_inv_def chain_def)
  moreover have "core_inv c ([] @ xs)" "\<forall>b \<in> set ([] @ xs). valid c b" using assms by simp_all
  from sweep_spec [OF this assms(3)] obtain c' K where "sweep disc c (hd_or xs None) = Some c'"
      "core_inv c' (filter (\<lambda>b. b \<notin> K) xs)" "\<forall>b \<in> set xs. killed c b \<longrightarrow> b \<in> K" "\<forall>b \<in> set xs. b \<in> K \<longrightarrow> heap c' b = None"
      "(\<forall>a c. disc a c = Some c) \<longrightarrow> (\<forall>b \<in> set xs. b \<in> K \<longrightarrow> killed c b)"
      "\<forall>b \<in> set ([] @ filter (\<lambda>b. b \<notin> K) xs). valid c' b"
    by (elim exE conjE) (rule that, simp_all)
  ultimately show ?thesis by (intro exI [of _ c'] exI [of _ K]) simp
qed



lemma loop_post_all:
  assumes "core_inv c xs" and "\<forall>b \<in> set xs. valid c b" and "disc_ok disc"
  shows "\<exists>c'. svz_loop_post disc c = Some c' \<and> core_inv c' [] \<and> (\<forall>b \<in> set xs. heap c' b = None)
           \<and> (\<forall>b. heap c b = None \<longrightarrow> heap c' b = None)"
proof -
  obtain c' where c': "loop_post disc c = Some c'" "core_inv c' []" "\<forall>b \<in> set xs. heap c' b = None"
      "\<forall>b. heap c b = None \<longrightarrow> heap c' b = None" using loop_post_spec [OF assms] by blast
  moreover from c'(2) have "c'\<lparr>last_socket := None\<rparr> = c'" by (simp add: core_inv_def chain_def)
  ultimately show ?thesis by (simp add: svz_loop_post_def)
qed

text \<open>
  \<^verbatim>\<open>svz_loop_post\<close> terminates and shuts down everything: the list is empty afterwards, every socket
  that was in it is freed, and nothing that was free has been allocated.
\<close>

theorem loop_post_frees_all:
  assumes "core_inv c xs" and "\<forall>b \<in> set xs. valid c b" and "disc_ok disc"
  shows "\<exists>c'. svz_loop_post disc c = Some c' \<and> core_inv c' [] \<and> (\<forall>b \<in> set xs. heap c' b = None)
           \<and> (\<forall>b. heap c b = None \<longrightarrow> heap c' b = None)"
  by (rule loop_post_all [OF assms])

theorem loop_post_frees_all_witness:
  "\<exists>c'. svz_loop_post (\<lambda>a c. Some c) ex_core = Some c' \<and> heap c' 5 = None \<and> heap c' 6 = None \<and> svz_sock_root c' = None"
proof -
  obtain c' where "svz_loop_post (\<lambda>a c. Some c) ex_core = Some c'" "core_inv c' []" "heap c' 5 = None" "heap c' 6 = None"
    using loop_post_frees_all [OF ex_inv _ disc_ok_default] ex_valid by auto
  then show ?thesis by (auto simp: core_inv_def chain_def)
qed

text \<open>
  The debugging check \<^verbatim>\<open>validate_list_of_socks\<close> terminates and never aborts a server whose sockets
  have valid descriptors.
\<close>

theorem validate_never_aborts:
  assumes "core_reach c" and "\<forall>a s. heap c a = Some s \<longrightarrow> \<not> invalid_desc s"
  shows "validate_list_of_socks c = Some True"
proof -
  obtain xs where inv: "core_inv c xs" using reach_world [OF assms(1)] by (auto simp: world_inv_def)
  have "valid c b" if "b \<in> set xs" for b
    using tab_ok_member [of c xs b] inv that assms(2) by (auto simp: core_inv_def valid_def)
  then have "live_inv c xs" using inv by (simp add: live_inv_def)
  then show ?thesis by (rule validate_live)
qed

theorem validate_never_aborts_witness: "validate_list_of_socks ex_core = Some True"
proof (rule validate_never_aborts [OF ex_reach])
  show "\<forall>a s. heap ex_core a = Some s \<longrightarrow> \<not> invalid_desc s" by (simp add: ex_defs ex_eval)
qed

text \<open>
  \<^verbatim>\<open>svz_sock_shutdown\<close> ignores the result of \<^verbatim>\<open>dequeue\<close>: a listed socket whose descriptor has become
  invalid is freed while the list and the lookup table still point to it, so that the next
  \<^verbatim>\<open>svz_sock_find\<close> for its id and version reads freed memory.
\<close>

theorem shutdown_invalid_dangles:
  assumes "core_inv c xs" and "a \<in> set xs" and "heap c a = Some s" and "invalid_desc s"
    and "\<not> has_flag s SVZ_SOFLG_PIPE" and "v \<noteq> -1"
  shows "\<exists>c'. svz_sock_shutdown (\<lambda>a c. Some c) c a = Some c' \<and> heap c' a = None
           \<and> tab_get c' (sk_id s) = Some (Some a) \<and> svz_sock_root c' = svz_sock_root c
           \<and> svz_sock_find c' (sk_id s) v = None"
proof -
  have tab: "tab_ok c xs" using assms(1) by (simp add: core_inv_def)
  have t: "tab_get c (sk_id s) = Some (Some a)" using tab_ok_member [OF tab assms(2)] assms(3) by auto
  obtain k where k: "sock_limit c = 2 ^ k" "int (length (socktab c)) = sock_limit c" using tab by (auto simp: tab_ok_def)
  have "dequeue c a = Some (-1, c)" using assms(3,4) by (simp add: dequeue_def)
  moreover obtain c1 where c1: "(if has_flag s SVZ_SOFLG_SOCK then svz_sock_disconnect c a else Some c) = Some c1"
      "tab_get c1 = tab_get c" "svz_sock_root c1 = svz_sock_root c" "sock_limit c1 = sock_limit c"
    using assms(3) by (cases "has_flag s SVZ_SOFLG_SOCK"; cases "has_flag s SVZ_SOFLG_CONNECTED")
      (auto simp: svz_sock_disconnect_def upd_def Let_def tab_get_def fun_eq_iff)
  ultimately have sh: "svz_sock_shutdown (\<lambda>a c. Some c) c a = Some (c1\<lparr>heap := (heap c1)(a := None)\<rparr>)"
    using assms(3,5) by (simp add: svz_sock_shutdown_def)
  have "sk_id s AND NOT (sock_limit c - 1) = 0"
    using tab_get_bounds [OF t] k by (simp add: and_not_mask_zero_iff)
  then have "svz_sock_find (c1\<lparr>heap := (heap c1)(a := None)\<rparr>) (sk_id s) v = None"
    using t c1(2,4) assms(6) by (simp add: svz_sock_find_def)
  then show ?thesis using sh t c1(2,3) by simp
qed

theorem shutdown_invalid_dangles_witness:
  "\<exists>c c'. core_reach c \<and> svz_sock_shutdown (\<lambda>a c. Some c) c 5 = Some c' \<and> heap c' 5 = None \<and> svz_sock_find c' 1 0 = None"
proof -
  let ?s = "the (heap ex_core 5)"
  let ?c = "ex_core\<lparr>heap := (heap ex_core)(5 \<mapsto> ?s\<lparr>sk_sock_desc := -1\<rparr>)\<rparr>"
  have s: "heap ex_core 5 = Some ?s" by (simp add: ex_defs)
  have tw: "tweaks ?s (?s\<lparr>sk_sock_desc := -1\<rparr>)" by (simp add: tweaks_def ident_def has_flag_def)
  have "world_inv ?c [5, 6]" using world_step_tweak [OF ex_world s tw] by blast
  then have "core_inv ?c [5, 6]" by (simp add: world_inv_def)
  from shutdown_invalid_dangles [OF this, of 5 "?s\<lparr>sk_sock_desc := -1\<rparr>" 0]
  have "\<exists>c'. svz_sock_shutdown (\<lambda>a c. Some c) ?c 5 = Some c' \<and> heap c' 5 = None \<and> svz_sock_find c' 1 0 = None"
    by (auto simp: ex_defs ex_eval)
  then show ?thesis using reach_step [OF ex_reach tweak [OF s tw]] by blast
qed

end
