(* ===== verification/Svz_Loop.thy ===== *)
theory Svz_Loop
  imports Svz_Reach
begin

text \<open>
  The server loop: signals, periodic tasks, bogus and child checks and \<^verbatim>\<open>svz_loop\<close> of
  \<^verbatim>\<open>src/libserveez/server-core.c\<close>, and the two socket polling routines of \<^verbatim>\<open>server-loop.c\<close>.

  The static variables of both files are members of the record \<open>srv\<close>, beside the core and the
  world, the state of everything outside. The callbacks of the sockets (a callback is
  \<^term>\<open>None\<close> when the pointer is NULL) and the system calls are the members of an environment
  \<open>env\<close>; what the loop relies on is \<open>env_ok\<close>. The program is built with \<^verbatim>\<open>ENABLE_DEBUG\<close> and
  \<^verbatim>\<open>ENABLE_FLOOD_PROTECTION\<close>; logging is left out.
\<close>

type_synonym u16w = "16 word"

definition SVZ_SOFLG_NOOVERFLOW :: u32 where "SVZ_SOFLG_NOOVERFLOW = 0x200000"

record pollfd =
  pf_fd :: int
  pf_events :: u16w

definition POLLIN :: u16w where "POLLIN = 1"
definition POLLPRI :: u16w where "POLLPRI = 2"
definition POLLOUT :: u16w where "POLLOUT = 4"
definition POLLERR :: u16w where "POLLERR = 8"
definition POLLHUP :: u16w where "POLLHUP = 16"
definition POLLNVAL :: u16w where "POLLNVAL = 32"

text \<open>The static arrays of \<^verbatim>\<open>check_sockets_poll\<close> (\<^verbatim>\<open>max_nfds\<close> is their length) and its counter.\<close>

record polls =
  ufds :: "pollfd list"
  sfds :: "addr option list"
  nfds :: nat

record 'w srv =
  sv_core :: core
  sv_world :: 'w
  svz_nuke_happened :: int
  reset_happened :: int
  pipe_broke :: int
  svz_child_died :: int
  uncaught_signal :: int
  signo :: int
  svz_notify :: int
  rechain :: int

type_synonym 'w hook = "addr \<Rightarrow> 'w srv \<Rightarrow> (int \<times> 'w srv) option option"
type_synonym 'w task = "'w srv \<Rightarrow> 'w srv option"

record 'w env =
  read_socket :: "'w hook"
  write_socket :: "'w hook"
  read_socket_oob :: "'w hook"
  connected_socket :: "'w hook"
  idle_func :: "'w hook"
  child_died :: "'w hook"
  trigger_cond :: "'w hook"
  trigger_func :: "'w hook"
  disconnected_socket :: "addr \<Rightarrow> core \<Rightarrow> core option"
  svz_coserver_check :: "'w task"
  svz_interface_check :: "'w task"
  server_notify :: "'w task option list"
  server_reset :: "'w task option list"
  en_time :: "'w \<Rightarrow> int"
  en_fcntl :: "int \<Rightarrow> 'w \<Rightarrow> int"
  en_poll :: "pollfd list \<Rightarrow> int \<Rightarrow> 'w \<Rightarrow> int \<times> bool \<times> u16w list \<times> 'w"
  en_select :: "int set \<Rightarrow> int set \<Rightarrow> int set \<Rightarrow> int \<Rightarrow> int \<Rightarrow> 'w \<Rightarrow> int \<times> bool \<times> (int set \<times> int set \<times> int set) \<times> 'w"
  en_waitpid :: "int \<Rightarrow> 'w \<Rightarrow> int \<times> bool \<times> 'w"
  en_signals :: "'w \<Rightarrow> int list \<times> 'w"

definition with_core :: "(core \<Rightarrow> core option) \<Rightarrow> 'w task" where
  "with_core f sv = do { c \<leftarrow> f (sv_core sv); Some (sv\<lparr>sv_core := c\<rparr>) }"

definition run_hook :: "'w hook \<Rightarrow> addr \<Rightarrow> 'w srv \<Rightarrow> (int \<times> 'w srv) option" where
  "run_hook h a sv = (case h a sv of None \<Rightarrow> Some (0, sv) | Some r \<Rightarrow> r)"

text \<open>
  The idiom \<^verbatim>\<open>if (sock->f) if (sock->f (sock)) { svz_sock_schedule_for_shutdown (sock); ... }\<close>; the first
  component of the result says that the callback failed.
\<close>

definition fire :: "'w hook \<Rightarrow> addr \<Rightarrow> 'w srv \<Rightarrow> (bool \<times> 'w srv) option" where
  "fire h a sv = do {
     (r, sv) \<leftarrow> run_hook h a sv;
     if r \<noteq> 0
     then do { sv \<leftarrow> with_core (\<lambda>c. svz_sock_schedule_for_shutdown c a) sv; Some (True, sv) }
     else Some (False, sv)
   }"

definition fire_if :: "bool \<Rightarrow> 'w hook \<Rightarrow> addr \<Rightarrow> 'w srv \<Rightarrow> (bool \<times> 'w srv) option" where
  "fire_if b h a sv = (if b then fire h a sv else Some (False, sv))"

definition schedule_if :: "bool \<Rightarrow> addr \<Rightarrow> 'w task" where
  "schedule_if b a sv = (if b then with_core (\<lambda>c. svz_sock_schedule_for_shutdown c a) sv else Some sv)"

fun run_servers :: "'w task option list \<Rightarrow> 'w task" where
  "run_servers [] sv = Some sv"
| "run_servers (f # fs) sv = do { sv \<leftarrow> (case f of None \<Rightarrow> Some sv | Some g \<Rightarrow> g sv); run_servers fs sv }"

subsection \<open>Signals\<close>

definition SIGHUP :: int where "SIGHUP = 1"
definition SIGINT :: int where "SIGINT = 2"
definition SIGQUIT :: int where "SIGQUIT = 3"
definition SIGPIPE :: int where "SIGPIPE = 13"
definition SIGTERM :: int where "SIGTERM = 15"
definition SIGCHLD :: int where "SIGCHLD = 17"

text \<open>For \<^verbatim>\<open>waitpid (-1, ...)\<close> in the signal handler the flag of the result is \<^verbatim>\<open>WIFSTOPPED\<close>.\<close>

definition handle_signal :: "'w env \<Rightarrow> int \<Rightarrow> 'w srv \<Rightarrow> 'w srv" where
  "handle_signal en sig sv =
     (let sv = (if sig = SIGHUP then sv\<lparr>reset_happened := 1\<rparr>
                else if sig = SIGPIPE then sv\<lparr>pipe_broke := 1\<rparr>
                else if sig = SIGCHLD
                then (let (pid, stopped, w) = en_waitpid en (-1) (sv_world sv) in
                      if pid \<noteq> -1 \<and> \<not> stopped then sv\<lparr>sv_world := w, svz_child_died := pid\<rparr> else sv\<lparr>sv_world := w\<rparr>)
                else if sig = SIGTERM \<or> sig = SIGINT \<or> sig = SIGQUIT then sv\<lparr>svz_nuke_happened := 1\<rparr>
                else sv\<lparr>uncaught_signal := sig\<rparr>)
      in sv\<lparr>signo := sig\<rparr>)"

definition deliver :: "'w env \<Rightarrow> 'w srv \<Rightarrow> 'w srv" where
  "deliver en sv = (let (sigs, w) = en_signals en (sv_world sv) in fold (handle_signal en) sigs (sv\<lparr>sv_world := w\<rparr>))"

subsection \<open>Periodic tasks\<close>

definition periodic_body :: "'w env \<Rightarrow> addr \<Rightarrow> 'w task" where
  "periodic_body en a sv = do {
     s \<leftarrow> heap (sv_core sv) a;
     sv \<leftarrow> (if sk_flood_points s > 0
           then with_core (\<lambda>c. upd c a (\<lambda>s. s\<lparr>sk_flood_points := sk_flood_points s - 1\<rparr>)) sv else Some sv);
     if idle_func en a sv \<noteq> None \<and> sk_idle_counter s > 0
     then do {
       sv \<leftarrow> with_core (\<lambda>c. upd c a (\<lambda>s. s\<lparr>sk_idle_counter := sk_idle_counter s - 1\<rparr>)) sv;
       (_, sv) \<leftarrow> fire_if (sk_idle_counter s - 1 \<le> 0) (idle_func en) a sv;
       Some sv
     }
     else Some sv
   }"

definition svz_periodic_tasks :: "'w env \<Rightarrow> 'w task" where
  "svz_periodic_tasks en sv = do {
     let sv = sv\<lparr>svz_notify := svz_notify sv + 1\<rparr>;
     sv \<leftarrow> svz_sock_foreach sv_core (periodic_body en) sv (svz_sock_root (sv_core sv));
     sv \<leftarrow> svz_coserver_check en sv;
     run_servers (server_notify en) sv
   }"

definition reset :: "'w env \<Rightarrow> 'w task" where
  "reset en sv = do { sv \<leftarrow> run_servers (server_reset en) sv; svz_interface_check en sv }"

definition bogus_body :: "'w env \<Rightarrow> addr \<Rightarrow> 'w task" where
  "bogus_body en a sv = do {
     s \<leftarrow> heap (sv_core sv) a;
     sv \<leftarrow> schedule_if (has_flag s SVZ_SOFLG_SOCK \<and> en_fcntl en (sk_sock_desc s) (sv_world sv) < 0) a sv;
     sv \<leftarrow> schedule_if (has_flag s SVZ_SOFLG_RECV_PIPE \<and> en_fcntl en (sk_pipe_read s) (sv_world sv) < 0) a sv;
     schedule_if (has_flag s SVZ_SOFLG_SEND_PIPE \<and> en_fcntl en (sk_pipe_write s) (sv_world sv) < 0) a sv
   }"

definition svz_sock_check_bogus :: "'w env \<Rightarrow> 'w task" where
  "svz_sock_check_bogus en sv = svz_sock_foreach sv_core (bogus_body en) sv (svz_sock_root (sv_core sv))"

text \<open>For \<^verbatim>\<open>waitpid (pid, ...)\<close> the flag of the result says that \<^verbatim>\<open>errno\<close> is \<^verbatim>\<open>ECHILD\<close>.\<close>

definition check_child_died :: "'w env \<Rightarrow> svz_socket \<Rightarrow> 'w srv \<Rightarrow> int \<times> 'w srv" where
  "check_child_died en s sv =
     (if svz_child_died sv = sk_pid s then (-1, sv)
      else (let (r, echild, w) = en_waitpid en (sk_pid s) (sv_world sv); sv = sv\<lparr>sv_world := w\<rparr> in
            if r = -1 \<and> echild then (-1, sv) else (0, sv)))"

definition children_body :: "'w env \<Rightarrow> addr \<Rightarrow> 'w task" where
  "children_body en a sv = do {
     s \<leftarrow> heap (sv_core sv) a;
     if sk_pid s \<noteq> -1
     then do {
       let (r, sv) = check_child_died en s sv;
       if r \<noteq> 0
       then do {
         sv \<leftarrow> with_core (\<lambda>c. upd c a (\<lambda>s. s\<lparr>sk_pid := -1\<rparr>)) sv;
         (_, sv) \<leftarrow> fire (child_died en) a sv;
         Some sv
       }
       else Some sv
     }
     else Some sv
   }"

definition check_children :: "'w env \<Rightarrow> 'w task" where
  "check_children en sv = svz_sock_foreach sv_core (children_body en) sv (svz_sock_root (sv_core sv))"

subsection \<open>Polling\<close>

definition SOCK_READABLE :: "svz_socket \<Rightarrow> bool" where
  "SOCK_READABLE s \<longleftrightarrow> \<not> has_flag s SVZ_SOFLG_NOOVERFLOW
     \<or> sk_recv_buffer_fill s < sk_recv_buffer_size s \<and> sk_recv_buffer_size s > 0"

definition SOCK_FILE_FUNCTIONALITY :: "'w env \<Rightarrow> addr \<Rightarrow> 'w task" where
  "SOCK_FILE_FUNCTIONALITY en a sv = do {
     s \<leftarrow> heap (sv_core sv) a;
     (_, sv) \<leftarrow> fire_if (has_flag s SVZ_SOFLG_FILE) (read_socket en) a sv;
     Some sv
   }"

definition SOCK_TRIGGER_FUNCTIONALITY :: "'w env \<Rightarrow> addr \<Rightarrow> 'w task" where
  "SOCK_TRIGGER_FUNCTIONALITY en a sv = do {
     (r, sv) \<leftarrow> run_hook (trigger_cond en) a sv;
     (_, sv) \<leftarrow> fire_if (r \<noteq> 0) (trigger_func en) a sv;
     Some sv
   }"

definition FD_EXPAND :: "polls \<Rightarrow> polls" where
  "FD_EXPAND ps =
     (if nfds ps \<ge> length (ufds ps)
      then ps\<lparr>ufds := ufds ps @ [\<lparr>pf_fd = 0, pf_events = 0\<rparr>], sfds := sfds ps @ [None]\<rparr> else ps)"

definition FD_POLL :: "u16w \<Rightarrow> int \<Rightarrow> addr \<Rightarrow> polls \<Rightarrow> polls option" where
  "FD_POLL ev fd a ps =
     (let ps = FD_EXPAND ps; n = nfds ps in
      if n < length (ufds ps) \<and> n < length (sfds ps)
      then Some (ps\<lparr>ufds := (ufds ps)[n := \<lparr>pf_fd = fd, pf_events = pf_events (ufds ps ! n) OR ev\<rparr>],
                    sfds := (sfds ps)[n := Some a]\<rparr>)
      else None)"

definition FD_POLL_IN :: "int \<Rightarrow> addr \<Rightarrow> polls \<Rightarrow> polls option" where
  "FD_POLL_IN = FD_POLL (POLLIN OR POLLPRI)"

definition FD_POLL_OUT :: "int \<Rightarrow> addr \<Rightarrow> polls \<Rightarrow> polls option" where
  "FD_POLL_OUT = FD_POLL POLLOUT"

definition FD_POLL_CLR :: "polls \<Rightarrow> polls" where
  "FD_POLL_CLR ps = ps\<lparr>ufds := map (\<lambda>_. \<lparr>pf_fd = 0, pf_events = 0\<rparr>) (ufds ps), sfds := map (\<lambda>_. None) (sfds ps)\<rparr>"

definition poll_next :: "nat \<Rightarrow> polls \<Rightarrow> polls" where
  "poll_next n ps = ps\<lparr>nfds := nfds ps + n\<rparr>"

definition poll_pipe :: "svz_socket \<Rightarrow> addr \<Rightarrow> polls \<Rightarrow> polls option" where
  "poll_pipe s a ps = do {
     ps \<leftarrow> (if has_flag s SVZ_SOFLG_SEND_PIPE \<and> sk_send_buffer_fill s > 0
           then do { ps \<leftarrow> FD_POLL_OUT (sk_pipe_write s) a ps; Some (poll_next 1 ps) } else Some ps);
     if has_flag s SVZ_SOFLG_RECV_PIPE \<and> SOCK_READABLE s
     then do { ps \<leftarrow> FD_POLL_IN (sk_pipe_read s) a ps; Some (poll_next 1 ps) } else Some ps
   }"

definition poll_sock :: "svz_socket \<Rightarrow> addr \<Rightarrow> polls \<Rightarrow> polls option" where
  "poll_sock s a ps = do {
     let rd = \<not> has_flag s SVZ_SOFLG_CONNECTING \<and> SOCK_READABLE s;
     let wr = sk_unavailable s = 0 \<and> (sk_send_buffer_fill s > 0 \<or> has_flag s SVZ_SOFLG_CONNECTING);
     ps \<leftarrow> (if rd then FD_POLL_IN (sk_sock_desc s) a ps else Some ps);
     ps \<leftarrow> (if wr then FD_POLL_OUT (sk_sock_desc s) a ps else Some ps);
     Some (poll_next (if rd \<or> wr then 1 else 0) ps)
   }"

definition renew_available :: "'w env \<Rightarrow> addr \<Rightarrow> 'w task" where
  "renew_available en a sv = do {
     s \<leftarrow> heap (sv_core sv) a;
     if sk_unavailable s \<noteq> 0 \<and> en_time en (sv_world sv) \<ge> sk_unavailable s
     then with_core (\<lambda>c. upd c a (\<lambda>s. s\<lparr>sk_unavailable := 0\<rparr>)) sv else Some sv
   }"

text \<open>The start of both passes: killed sockets are skipped, files read and triggers run.\<close>

definition prologue :: "'w env \<Rightarrow> addr \<Rightarrow> 'w srv \<Rightarrow> (bool \<times> 'w srv) option" where
  "prologue en a sv = do {
     s \<leftarrow> heap (sv_core sv) a;
     if has_flag s SVZ_SOFLG_KILLED then Some (True, sv)
     else do {
       sv \<leftarrow> SOCK_FILE_FUNCTIONALITY en a sv;
       sv \<leftarrow> SOCK_TRIGGER_FUNCTIONALITY en a sv;
       Some (False, sv)
     }
   }"

definition poll_request_sock :: "'w env \<Rightarrow> addr \<Rightarrow> 'w srv \<Rightarrow> polls \<Rightarrow> ('w srv \<times> polls) option" where
  "poll_request_sock en a sv ps = do {
     sv \<leftarrow> renew_available en a sv;
     s \<leftarrow> heap (sv_core sv) a;
     ps \<leftarrow> poll_sock s a ps;
     Some (sv, ps)
   }"

definition poll_request :: "'w env \<Rightarrow> addr \<Rightarrow> 'w srv \<Rightarrow> polls \<Rightarrow> ('w srv \<times> polls) option" where
  "poll_request en a sv ps = do {
     s \<leftarrow> heap (sv_core sv) a;
     if has_flag s SVZ_SOFLG_PIPE \<and> has_flag s SVZ_SOFLG_LISTENING
     then do { (_, sv) \<leftarrow> fire_if (\<not> has_flag s SVZ_SOFLG_INITED) (read_socket en) a sv; Some (sv, ps) }
     else do {
       ps \<leftarrow> (if has_flag s SVZ_SOFLG_PIPE then poll_pipe s a ps else Some ps);
       if has_flag s SVZ_SOFLG_SOCK then poll_request_sock en a sv ps else Some (sv, ps)
     }
   }"

definition poll_prepare :: "'w env \<Rightarrow> addr \<Rightarrow> 'w srv \<times> polls \<Rightarrow> ('w srv \<times> polls) option" where
  "poll_prepare en a st = do {
     (skip, sv) \<leftarrow> prologue en a (fst st);
     if skip then Some (sv, snd st) else poll_request en a sv (snd st)
   }"

text \<open>\<^verbatim>\<open>error_info\<close> only reads and logs the pending error of the descriptor.\<close>

definition poll_error :: "addr \<Rightarrow> 'w task" where
  "poll_error a sv = do {
     s \<leftarrow> heap (sv_core sv) a;
     sv \<leftarrow> schedule_if (has_flag s SVZ_SOFLG_SOCK) a sv;
     sv \<leftarrow> schedule_if (has_flag s SVZ_SOFLG_RECV_PIPE) a sv;
     schedule_if (has_flag s SVZ_SOFLG_SEND_PIPE) a sv
   }"

definition poll_writable :: "'w env \<Rightarrow> addr \<Rightarrow> 'w srv \<Rightarrow> (bool \<times> 'w srv) option" where
  "poll_writable en a sv = do {
     s \<leftarrow> heap (sv_core sv) a;
     fire (if has_flag s SVZ_SOFLG_CONNECTING then connected_socket en else write_socket en) a sv
   }"

definition poll_dispatch :: "'w env \<Rightarrow> u16w \<Rightarrow> addr \<Rightarrow> 'w task" where
  "poll_dispatch en revents a sv = do {
     s \<leftarrow> heap (sv_core sv) a;
     if has_flag s SVZ_SOFLG_KILLED then Some sv
     else do {
       (failed, sv) \<leftarrow> fire_if (revents AND POLLPRI \<noteq> 0) (read_socket_oob en) a sv;
       if failed then Some sv
       else do {
         (failed, sv) \<leftarrow> fire_if (revents AND POLLIN \<noteq> 0) (read_socket en) a sv;
         if failed then Some sv
         else do {
           (failed, sv) \<leftarrow> (if revents AND POLLOUT \<noteq> 0 then poll_writable en a sv else Some (False, sv));
           if failed then Some sv
           else if revents AND (POLLERR OR POLLHUP OR POLLNVAL) \<noteq> 0 then poll_error a sv
           else Some sv
         }
       }
     }
   }"

fun poll_loop :: "'w env \<Rightarrow> (u16w \<times> addr option) list \<Rightarrow> int \<Rightarrow> 'w task" where
  "poll_loop en [] polled sv = Some sv"
| "poll_loop en ((revents, sock) # rest) polled sv =
     (if polled = 0 then Some sv
      else do {
        let polled = (if revents \<noteq> 0 then polled - 1 else polled);
        a \<leftarrow> sock;
        sv \<leftarrow> poll_dispatch en revents a sv;
        poll_loop en rest polled sv
      })"

definition overdue :: "'w env \<Rightarrow> 'w task" where
  "overdue en sv = (if en_time en (sv_world sv) > svz_notify sv then svz_periodic_tasks en sv else Some sv)"

definition check_sockets_poll :: "'w env \<Rightarrow> polls \<Rightarrow> 'w srv \<Rightarrow> (int \<times> polls \<times> 'w srv) option" where
  "check_sockets_poll en ps sv = do {
     (sv, ps) \<leftarrow> svz_sock_foreach (sv_core \<circ> fst) (poll_prepare en)
                   (sv, (FD_POLL_CLR ps)\<lparr>nfds := 0\<rparr>) (svz_sock_root (sv_core sv));
     let timeout = max 0 ((svz_notify sv - en_time en (sv_world sv)) * 1000);
     let (polled, ebadf, revents, w) = en_poll en (take (nfds ps) (ufds ps)) timeout (sv_world sv);
     let sv = sv\<lparr>sv_world := w\<rparr>;
     if polled < 0
     then do {
       sv \<leftarrow> (if ebadf then svz_sock_check_bogus en sv else Some sv);
       Some (-1, ps, sv)
     }
     else do {
       sv \<leftarrow> (if polled = 0 then svz_periodic_tasks en sv else Some sv);
       sv \<leftarrow> poll_loop en (zip revents (take (nfds ps) (sfds ps))) polled sv;
       sv \<leftarrow> overdue en sv;
       Some (0, ps, sv)
     }
   }"

subsection \<open>Selecting\<close>

text \<open>
  \<^verbatim>\<open>check_sockets_select\<close>, built when \<^verbatim>\<open>poll\<close> is not available. A descriptor outside the bounds of an
  \<^verbatim>\<open>fd_set\<close> makes \<^verbatim>\<open>FD_SET\<close> and \<^verbatim>\<open>FD_ISSET\<close> access memory beyond it.
\<close>

definition FD_SETSIZE :: int where "FD_SETSIZE = 1024"

definition FD_SET :: "int \<Rightarrow> int set \<Rightarrow> int set option" where
  "FD_SET fd fds = (if 0 \<le> fd \<and> fd < FD_SETSIZE then Some (insert fd fds) else None)"

definition FD_ISSET :: "int \<Rightarrow> int set \<Rightarrow> bool option" where
  "FD_ISSET fd fds = (if 0 \<le> fd \<and> fd < FD_SETSIZE then Some (fd \<in> fds) else None)"

record fdsets =
  read_fds :: "int set"
  write_fds :: "int set"
  except_fds :: "int set"
  max_fd :: int

definition set_except :: "int \<Rightarrow> fdsets \<Rightarrow> fdsets option" where
  "set_except fd fs = do {
     e \<leftarrow> FD_SET fd (except_fds fs);
     Some (fs\<lparr>except_fds := e, max_fd := max (max_fd fs) fd\<rparr>)
   }"

definition set_read :: "bool \<Rightarrow> int \<Rightarrow> fdsets \<Rightarrow> fdsets option" where
  "set_read b fd fs = (if b then do { r \<leftarrow> FD_SET fd (read_fds fs); Some (fs\<lparr>read_fds := r\<rparr>) } else Some fs)"

definition set_write :: "bool \<Rightarrow> int \<Rightarrow> fdsets \<Rightarrow> fdsets option" where
  "set_write b fd fs = (if b then do { r \<leftarrow> FD_SET fd (write_fds fs); Some (fs\<lparr>write_fds := r\<rparr>) } else Some fs)"

definition select_pipe_fds :: "svz_socket \<Rightarrow> fdsets \<Rightarrow> fdsets option" where
  "select_pipe_fds s fs = do {
     fs \<leftarrow> (if has_flag s SVZ_SOFLG_SEND_PIPE
           then do { fs \<leftarrow> set_except (sk_pipe_write s) fs; set_write (sk_send_buffer_fill s > 0) (sk_pipe_write s) fs }
           else Some fs);
     if has_flag s SVZ_SOFLG_RECV_PIPE
     then do { fs \<leftarrow> set_except (sk_pipe_read s) fs; set_read (SOCK_READABLE s) (sk_pipe_read s) fs }
     else Some fs
   }"

definition select_sock_fds :: "svz_socket \<Rightarrow> fdsets \<Rightarrow> fdsets option" where
  "select_sock_fds s fs = do {
     fs \<leftarrow> set_except (sk_sock_desc s) fs;
     fs \<leftarrow> set_read (\<not> has_flag s SVZ_SOFLG_CONNECTING \<and> SOCK_READABLE s) (sk_sock_desc s) fs;
     set_write (sk_unavailable s = 0 \<and> (sk_send_buffer_fill s > 0 \<or> has_flag s SVZ_SOFLG_CONNECTING)) (sk_sock_desc s) fs
   }"

definition select_request :: "'w env \<Rightarrow> addr \<Rightarrow> 'w srv \<Rightarrow> fdsets \<Rightarrow> ('w srv \<times> fdsets) option" where
  "select_request en a sv fs = do {
     s \<leftarrow> heap (sv_core sv) a;
     if has_flag s SVZ_SOFLG_PIPE \<and> has_flag s SVZ_SOFLG_LISTENING then Some (sv, fs)
     else do {
       fs \<leftarrow> (if has_flag s SVZ_SOFLG_PIPE then select_pipe_fds s fs else Some fs);
       if has_flag s SVZ_SOFLG_SOCK
       then do {
         sv \<leftarrow> renew_available en a sv;
         s \<leftarrow> heap (sv_core sv) a;
         fs \<leftarrow> select_sock_fds s fs;
         Some (sv, fs)
       }
       else Some (sv, fs)
     }
   }"

definition select_prepare :: "'w env \<Rightarrow> addr \<Rightarrow> 'w srv \<times> fdsets \<Rightarrow> ('w srv \<times> fdsets) option" where
  "select_prepare en a st = do {
     (skip, sv) \<leftarrow> prologue en a (fst st);
     if skip then Some (sv, snd st) else select_request en a sv (snd st)
   }"

definition select_pipe :: "'w env \<Rightarrow> fdsets \<Rightarrow> addr \<Rightarrow> 'w task" where
  "select_pipe en fs a sv = do {
     s \<leftarrow> heap (sv_core sv) a;
     sv \<leftarrow> (if has_flag s SVZ_SOFLG_RECV_PIPE
           then do {
             e \<leftarrow> FD_ISSET (sk_pipe_read s) (except_fds fs);
             sv \<leftarrow> schedule_if e a sv;
             r \<leftarrow> FD_ISSET (sk_pipe_read s) (read_fds fs);
             (_, sv) \<leftarrow> fire_if r (read_socket en) a sv;
             Some sv
           }
           else Some sv);
     s \<leftarrow> heap (sv_core sv) a;
     if has_flag s SVZ_SOFLG_SEND_PIPE
     then do {
       e \<leftarrow> FD_ISSET (sk_pipe_write s) (except_fds fs);
       sv \<leftarrow> schedule_if e a sv;
       r \<leftarrow> FD_ISSET (sk_pipe_write s) (write_fds fs);
       (_, sv) \<leftarrow> fire_if r (write_socket en) a sv;
       Some sv
     }
     else Some sv
   }"

definition select_except :: "'w env \<Rightarrow> fdsets \<Rightarrow> addr \<Rightarrow> 'w srv \<Rightarrow> (bool \<times> 'w srv) option" where
  "select_except en fs a sv = do {
     s \<leftarrow> heap (sv_core sv) a;
     e \<leftarrow> FD_ISSET (sk_sock_desc s) (except_fds fs);
     if \<not> e then Some (False, sv)
     else if has_flag s SVZ_SOFLG_CONNECTING
     then do { sv \<leftarrow> schedule_if True a sv; Some (True, sv) }
     else fire (read_socket_oob en) a sv
   }"

definition select_sock :: "'w env \<Rightarrow> fdsets \<Rightarrow> addr \<Rightarrow> 'w task" where
  "select_sock en fs a sv = do {
     (failed, sv) \<leftarrow> select_except en fs a sv;
     if failed then Some sv
     else do {
       s \<leftarrow> heap (sv_core sv) a;
       r \<leftarrow> FD_ISSET (sk_sock_desc s) (read_fds fs);
       (failed, sv) \<leftarrow> fire_if r (read_socket en) a sv;
       if failed then Some sv
       else do {
         s \<leftarrow> heap (sv_core sv) a;
         r \<leftarrow> FD_ISSET (sk_sock_desc s) (write_fds fs);
         (_, sv) \<leftarrow> (if r then poll_writable en a sv else Some (False, sv));
         Some sv
       }
     }
   }"

definition select_dispatch :: "'w env \<Rightarrow> fdsets \<Rightarrow> addr \<Rightarrow> 'w task" where
  "select_dispatch en fs a sv = do {
     s \<leftarrow> heap (sv_core sv) a;
     if has_flag s SVZ_SOFLG_KILLED then Some sv
     else if has_flag s SVZ_SOFLG_PIPE \<and> has_flag s SVZ_SOFLG_LISTENING
     then do { (_, sv) \<leftarrow> fire_if (\<not> has_flag s SVZ_SOFLG_INITED) (read_socket en) a sv; Some sv }
     else do {
       sv \<leftarrow> (if has_flag s SVZ_SOFLG_PIPE then select_pipe en fs a sv else Some sv);
       s \<leftarrow> heap (sv_core sv) a;
       if has_flag s SVZ_SOFLG_SOCK then select_sock en fs a sv else Some sv
     }
   }"

definition check_sockets_select :: "'w env \<Rightarrow> 'w srv \<Rightarrow> (int \<times> 'w srv) option" where
  "check_sockets_select en sv = do {
     (sv, fs) \<leftarrow> svz_sock_foreach (sv_core \<circ> fst) (select_prepare en)
                   (sv, \<lparr>read_fds = {}, write_fds = {}, except_fds = {}, max_fd = 0\<rparr>) (svz_sock_root (sv_core sv));
     let wait = max 0 (svz_notify sv - en_time en (sv_world sv));
     let (n, ebadf, (r, w, e), world) =
       en_select en (read_fds fs) (write_fds fs) (except_fds fs) (max_fd fs + 1) wait (sv_world sv);
     let sv = sv\<lparr>sv_world := world\<rparr>;
     let fs = fs\<lparr>read_fds := r, write_fds := w, except_fds := e\<rparr>;
     if n < 0
     then do {
       sv \<leftarrow> (if ebadf then svz_sock_check_bogus en sv else Some sv);
       Some (-1, sv)
     }
     else do {
       sv \<leftarrow> (if n = 0 then svz_periodic_tasks en sv else Some sv);
       sv \<leftarrow> svz_sock_foreach sv_core (select_dispatch en fs) sv (svz_sock_root (sv_core sv));
       sv \<leftarrow> overdue en sv;
       Some (0, sv)
     }
   }"

subsection \<open>The loop\<close>

definition svz_loop_one :: "'w env \<Rightarrow> polls \<times> 'w srv \<Rightarrow> (polls \<times> 'w srv) option" where
  "svz_loop_one en st = do {
     let (ps, sv) = st;
     ok \<leftarrow> validate_list_of_socks (sv_core sv);
     if \<not> ok then None
     else do {
       sv \<leftarrow> (if reset_happened sv \<noteq> 0
             then do { sv \<leftarrow> reset en sv; Some (sv\<lparr>reset_happened := 0\<rparr>) } else Some sv);
       let sv = (if pipe_broke sv \<noteq> 0 then sv\<lparr>pipe_broke := 0\<rparr> else sv);
       (_, ps, sv) \<leftarrow> check_sockets_poll en ps sv;
       sv \<leftarrow> check_children en sv;
       let sv = sv\<lparr>svz_child_died := 0, signo := -1, uncaught_signal := -1\<rparr>;
       let r = rechain sv;
       let sv = sv\<lparr>rechain := r + 1\<rparr>;
       sv \<leftarrow> (if r AND 16 \<noteq> 0 then with_core rechain_list_of_socks sv else Some sv);
       sv \<leftarrow> with_core (\<lambda>c. sweep (disconnected_socket en) c (svz_sock_root c)) sv;
       Some (ps, sv)
     }
   }"

definition svz_loop_pre :: "'w env \<Rightarrow> 'w srv \<Rightarrow> 'w srv" where
  "svz_loop_pre en sv = sv\<lparr>reset_happened := 0, svz_child_died := 0, pipe_broke := 0, svz_notify := en_time en (sv_world sv)\<rparr>"

partial_function (option) loop_while :: "'w env \<Rightarrow> polls \<times> 'w srv \<Rightarrow> (polls \<times> 'w srv) option" where
  "loop_while en st =
     (if svz_nuke_happened (snd st) \<noteq> 0 then Some st
      else do { st \<leftarrow> svz_loop_one en st; loop_while en (apsnd (deliver en) st) })"

definition svz_loop :: "'w env \<Rightarrow> polls \<times> 'w srv \<Rightarrow> (polls \<times> 'w srv) option" where
  "svz_loop en st = do {
     (ps, sv) \<leftarrow> loop_while en (apsnd (svz_loop_pre en) st);
     sv \<leftarrow> with_core (svz_loop_post (disconnected_socket en)) sv;
     Some (ps, sv)
   }"

subsection \<open>Steps of the loop\<close>

text \<open>What the loop itself never changes of a socket: its descriptors and buffers.\<close>

definition ioview where
  "ioview s = (has_flag s SVZ_SOFLG_SOCK, has_flag s SVZ_SOFLG_RECV_PIPE, has_flag s SVZ_SOFLG_SEND_PIPE,
     sk_sock_desc s, sk_pipe_read s, sk_pipe_write s,
     (sk_send_buffer s, sk_send_buffer_size s, sk_send_buffer_fill s),
     (sk_recv_buffer s, sk_recv_buffer_size s, sk_recv_buffer_fill s))"

definition calm :: "core \<Rightarrow> core \<Rightarrow> bool" where
  "calm c c' \<longleftrightarrow> (\<forall>xs. live_inv c xs \<longrightarrow> live_inv c' xs) \<and> grows c c'
     \<and> (\<forall>a. map_option ioview (heap c' a) = map_option ioview (heap c a))"

lemma calm_upd:
  assumes "upd c a f = Some c'" "\<And>s. vitals (f s) = vitals s" "\<And>s. ioview (f s) = ioview s"
  shows "calm c c'"
proof -
  have q: "quiet A c c'" for A using quiet_upd [OF assms(1)] assms(2) by blast
  have "grows c c'" using quiet_views [OF q UNIV_I] by (simp add: grows_def)
  moreover have "live_inv c' xs" if "live_inv c xs" for xs
    using that quiet_inv [OF _ q] quiet_views [OF q UNIV_I] by (simp add: live_inv_def)
  moreover have "map_option ioview (heap c' b) = map_option ioview (heap c b)" for b
    using assms(1,3) by (auto simp: upd_def)
  ultimately show ?thesis by (simp add: calm_def)
qed

lemma ioview_killed: "ioview (set_flag SVZ_SOFLG_KILLED s) = ioview s"
  unfolding ioview_def by (simp add: has_flag_def set_flag_def or_disjoint soflg_defs bit.conj_disj_distrib2)

lemma calm_kill:
  assumes "kill_ext c c'"
  shows "calm c c'"
proof -
  have "map_option ioview (heap c' a) = map_option ioview (heap c a)" for a
    using assms unfolding kill_ext_def
    by (elim exE conjE) (drule spec [of _ a], auto simp: option.map_comp comp_def ioview_killed)
  moreover have "live_inv c' xs" if "live_inv c xs" for xs
    using that kill_ext_inv [OF _ assms] kill_ext_valid [OF assms] by (simp add: live_inv_def)
  ultimately show ?thesis using kill_ext_grows [OF assms] by (simp add: calm_def)
qed

lemma vitals_counters [simp]:
  "vitals (s\<lparr>sk_flood_points := n\<rparr>) = vitals s" "vitals (s\<lparr>sk_idle_counter := n\<rparr>) = vitals s"
  "vitals (s\<lparr>sk_pid := n\<rparr>) = vitals s" "vitals (s\<lparr>sk_unavailable := n\<rparr>) = vitals s"
  by (rule vitals_cong; simp)+

lemma ioview_counters [simp]:
  "ioview (s\<lparr>sk_flood_points := n\<rparr>) = ioview s" "ioview (s\<lparr>sk_idle_counter := n\<rparr>) = ioview s"
  "ioview (s\<lparr>sk_pid := n\<rparr>) = ioview s" "ioview (s\<lparr>sk_unavailable := n\<rparr>) = ioview s"
  by (simp_all add: ioview_def has_flag_def)

lemma live_heap: "live_inv c xs \<Longrightarrow> a \<in> set xs \<Longrightarrow> \<exists>s. heap c a = Some s"
  using tab_ok_member [of c xs a] by (auto simp: live_inv_def core_inv_def)

text \<open>Sockets are freed, but the descriptors and buffers of the others stay.\<close>

definition sub_io :: "addr set \<Rightarrow> core \<Rightarrow> core \<Rightarrow> bool" where
  "sub_io A c c' \<longleftrightarrow> (\<forall>b s'. b \<notin> A \<longrightarrow> heap c' b = Some s' \<longrightarrow> (\<exists>s. heap c b = Some s \<and> ioview s' = ioview s))"

lemma sub_io_refl [simp]: "sub_io A c c"
  by (simp add: sub_io_def)

lemma sub_io_trans: "sub_io A c d \<Longrightarrow> sub_io A d e \<Longrightarrow> sub_io A c e"
  unfolding sub_io_def by metis

lemma sub_io_heap: "heap c' = heap c \<Longrightarrow> sub_io A c c'"
  by (simp add: sub_io_def)

lemma sub_io_upd: "upd c a f = Some c' \<Longrightarrow> (\<forall>s. ioview (f s) = ioview s) \<or> a \<in> A \<Longrightarrow> sub_io A c c'"
  by (auto simp: upd_def sub_io_def Option.bind_eq_Some_conv split: if_splits)

lemma sub_io_calm: "\<forall>a. map_option ioview (heap c' a) = map_option ioview (heap c a) \<Longrightarrow> sub_io A c c'"
  unfolding sub_io_def by (metis map_option_eq_Some)

lemma ioview_links [simp]:
  "ioview (s\<lparr>sk_next := n\<rparr>) = ioview s" "ioview (s\<lparr>sk_prev := n\<rparr>) = ioview s"
  "ioview (s\<lparr>sk_referrer_version := v\<rparr>) = ioview s" "ioview (s\<lparr>sk_referrer_id := i\<rparr>) = ioview s"
  by (simp_all add: ioview_def has_flag_def)

lemma ioview_inited: "ioview (clear_flag SVZ_SOFLG_INITED s) = ioview s"
  using clear_flag_other [OF inited_disjoint(4)] clear_flag_other [OF inited_disjoint(7)] clear_flag_other [OF inited_disjoint(8)]
  by (simp add: ioview_def clear_flag_def [of _ s, symmetric]) (simp add: clear_flag_def)

lemma ioview_payload: "payload s = payload t \<Longrightarrow> ioview s = ioview t"
proof -
  have "ioview (payload s) = ioview s" for s by (simp add: payload_def)
  then show "payload s = payload t \<Longrightarrow> ioview s = ioview t" by metis
qed

lemma sub_io_payload:
  assumes "same_payload c c' (- A)"
  shows "sub_io A c c'"
  unfolding sub_io_def
proof (intro allI impI)
  fix b s' assume b: "b \<notin> A" "heap c' b = Some s'"
  then have "map_option payload (heap c b) = Some (payload s')"
    using assms unfolding same_payload_def by (metis ComplI option.simps(9))
  then obtain s where "heap c b = Some s" "payload s = payload s'" by auto
  then show "\<exists>s. heap c b = Some s \<and> ioview s' = ioview s" using ioview_payload [of s s'] by simp
qed

lemma sub_io_disconnect: "svz_sock_disconnect c a = Some c' \<Longrightarrow> sub_io {a} c c'"
  by (auto simp: svz_sock_disconnect_def upd_def sub_io_def Let_def split: bind_splits if_splits)

lemma sub_io_setreferrer: "svz_sock_setreferrer c r None = Some c' \<Longrightarrow> sub_io A c c'"
  by (auto simp: svz_sock_setreferrer_def intro: sub_io_upd)

lemma sub_io_pipe_disconnect:
  assumes "svz_pipe_disconnect c a = Some c'"
  shows "sub_io {a} c c'"
proof -
  have u1: "sub_io {a} c d" if "upd c r (clear_flag SVZ_SOFLG_INITED) = Some d" for c d r
    using sub_io_upd [OF that] ioview_inited by blast
  have u3: "sub_io {a} c d" if "upd c a f = Some d" for c d f using sub_io_upd [OF that] by blast
  note u2 = sub_io_setreferrer [of _ _ _ "{a}"]
  obtain s c1 where c1: "(if has_flag s SVZ_SOFLG_CONNECTED then do {
             rsock \<leftarrow> svz_sock_getreferrer c (Some a);
             c \<leftarrow> (case rsock of Some r \<Rightarrow> do { c \<leftarrow> upd c r (clear_flag SVZ_SOFLG_INITED); svz_sock_setreferrer c r None } | None \<Rightarrow> Some c);
             upd c a (\<lambda>s. s\<lparr>sk_pipe_read := -1, sk_pipe_write := -1\<rparr>) } else Some c) = Some c1"
      "(if has_flag s SVZ_SOFLG_LISTENING then do {
         rsock \<leftarrow> svz_sock_getreferrer c1 (Some a);
         c \<leftarrow> (case rsock of Some r \<Rightarrow> svz_sock_setreferrer c1 r None | None \<Rightarrow> Some c1);
         upd c a (\<lambda>s. s\<lparr>sk_pipe_read := -1, sk_pipe_write := -1\<rparr>) } else Some c1) = Some c'"
    using assms unfolding svz_pipe_disconnect_def by (auto simp: Option.bind_eq_Some_conv)
  have "sub_io {a} c c1" using c1(1)
    by (auto simp: Option.bind_eq_Some_conv split: if_splits option.splits) (meson u1 u2 u3 sub_io_trans)+
  moreover have "sub_io {a} c1 c'" using c1(2)
    by (auto simp: Option.bind_eq_Some_conv split: if_splits option.splits) (meson u2 u3 sub_io_trans)+
  ultimately show ?thesis by (rule sub_io_trans)
qed

lemma shutdown_io:
  assumes "core_inv c xs" "a \<in> set xs" "valid c a" "disc_ok disc" "svz_sock_shutdown disc c a = Some c'"
  shows "sub_io {} c c'"
proof -
  obtain c1 where c1: "disc a c = Some c1" "kill_ext c c1" using assms(1,4) unfolding disc_ok_def by blast
  have inv1: "core_inv c1 xs" by (rule kill_ext_inv [OF assms(1) c1(2)])
  obtain s1 where s1: "heap c1 a = Some s1" "\<not> invalid_desc s1"
    using kill_ext_valid [OF c1(2), of a] assms(3) by (cases "heap c1 a") (auto simp: valid_def)
  obtain c2 where c2: "dequeue c1 a = Some (0, c2)" "same_payload c1 c2 (- {a})"
    using dequeue_inv [OF inv1 assms(2) s1] by blast
  obtain s c3 c4 where c3: "(if has_flag s SVZ_SOFLG_SOCK then svz_sock_disconnect c2 a else Some c2) = Some c3"
      "(if has_flag s SVZ_SOFLG_PIPE then svz_pipe_disconnect c3 a else Some c3) = Some c4" "c' = c4\<lparr>heap := (heap c4)(a := None)\<rparr>"
    using assms(5) c1(1) c2(1) by (auto simp: svz_sock_shutdown_def Option.bind_eq_Some_conv)
  have "sub_io {a} c c1" using calm_kill [OF c1(2)] by (intro sub_io_calm) (simp add: calm_def)
  moreover have "sub_io {a} c1 c2" by (rule sub_io_payload [OF c2(2)])
  moreover have "sub_io {a} c2 c3" using c3(1) by (auto split: if_splits intro: sub_io_disconnect)
  moreover have "sub_io {a} c3 c4" using c3(2) by (auto split: if_splits intro: sub_io_pipe_disconnect)
  ultimately have "sub_io {a} c c4" using sub_io_trans by blast
  then show ?thesis using c3(3) by (auto simp: sub_io_def split: if_splits)
qed

lemma sweep_io:
  assumes "core_inv c (ys @ zs)" "\<forall>b \<in> set (ys @ zs). valid c b" "disc_ok disc" "sweep disc c (hd_or zs None) = Some c'"
  shows "sub_io {} c c'"
  using assms
proof (induction zs arbitrary: ys c)
  case Nil
  then have "c' = c" by (subst (asm) sweep.simps) simp
  then show ?case by simp
next
  case (Cons z zs)
  obtain s where s: "heap c z = Some s" "sk_next s = hd_or zs None"
    using Cons.prems(1) by (auto simp: core_inv_def chain_def lseg_append)
  have z: "z \<notin> set ys" using Cons.prems(1) by (auto simp: core_inv_def chain_def)
  have mem: "z \<in> set (ys @ z # zs)" "valid c z" using Cons.prems(2) by simp_all
  show ?case
  proof (cases "killed c z")
    case False
    then have "sweep disc c (hd_or (z # zs) None) = sweep disc c (hd_or zs None)"
      using s by (subst sweep.simps) (simp add: killed_def)
    then show ?thesis using Cons.IH [of c "ys @ [z]"] Cons.prems by simp
  next
    case True
    obtain c2 where sh: "svz_sock_shutdown disc c z = Some c2" "core_inv c2 (remove1 z (ys @ z # zs))"
        "\<forall>b \<in> set (remove1 z (ys @ z # zs)). valid c2 b = valid c b"
      using shutdown_inv [OF Cons.prems(1) mem Cons.prems(3)] by blast
    have rem: "remove1 z (ys @ z # zs) = ys @ zs" using z by (simp add: remove1_append)
    have "sweep disc c (hd_or (z # zs) None) = sweep disc c2 (hd_or zs None)"
      using s True sh(1) by (subst sweep.simps) (simp add: killed_def)
    then have "sub_io {} c2 c'" using Cons.IH [of c2 ys] sh(2,3) rem Cons.prems by simp
    then show ?thesis using shutdown_io [OF Cons.prems(1) mem Cons.prems(3) sh(1)] sub_io_trans by blast
  qed
qed

lemma bind3_map: "do { x \<leftarrow> m; y \<leftarrow> f x; z \<leftarrow> g y; Some (h z) } = map_option h (do { x \<leftarrow> m; y \<leftarrow> f x; g y })"
  by (simp add: map_conv_bind_option comp_def)

text \<open>A monadic step that keeps the invariant: \<open>f\<close> picks the state out of its result.\<close>

definition yields :: "('s \<Rightarrow> core) \<Rightarrow> ('s \<Rightarrow> nat) \<Rightarrow> ('s \<Rightarrow> bool) \<Rightarrow> addr list \<Rightarrow> 's \<Rightarrow> ('x \<Rightarrow> 's) \<Rightarrow> 'x option \<Rightarrow> bool" where
  "yields get budget good xs st f m \<longleftrightarrow> (\<exists>x ys. m = Some x \<and> step_ok get budget good xs st (f x) ys)"

lemma yields_bind:
  assumes "yields get budget good xs st f m"
    "\<And>x ys. m = Some x \<Longrightarrow> live_inv (get (f x)) (xs @ ys) \<Longrightarrow> good (f x) \<Longrightarrow> yields get budget good (xs @ ys) (f x) g (k x)"
  shows "yields get budget good xs st g (Option.bind m k)"
proof -
  obtain x ys where x: "m = Some x" "step_ok get budget good xs st (f x) ys" using assms(1) by (auto simp: yields_def)
  then obtain y zs where "k x = Some y" "step_ok get budget good (xs @ ys) (f x) (g y) zs"
    using assms(2) [OF x(1), of ys] by (auto simp: yields_def step_ok_def)
  then show ?thesis using x step_ok_trans [OF x(2)] unfolding yields_def by auto
qed

lemma yields_ret: "live_inv (get st) xs \<Longrightarrow> good st \<Longrightarrow> f x = st \<Longrightarrow> yields get budget good xs st f (Some x)"
  using step_ok_refl [of get st xs] by (auto simp: yields_def)

subsection \<open>The poll array\<close>

text \<open>
  The arrays hold the requests made so far, followed by cleared entries. \<open>pipe_wants\<close> and
  \<open>sock_wants\<close> say what is requested for a socket.
\<close>

abbreviation no_fd :: pollfd where
  "no_fd \<equiv> \<lparr>pf_fd = 0, pf_events = 0\<rparr>"

definition polls_rep :: "polls \<Rightarrow> (pollfd \<times> addr) list \<Rightarrow> nat \<Rightarrow> bool" where
  "polls_rep ps rs k \<longleftrightarrow> ps = \<lparr>ufds = map fst rs @ replicate k no_fd, sfds = map (Some \<circ> snd) rs @ replicate k None, nfds = length rs\<rparr>"

definition pipe_wants :: "svz_socket \<Rightarrow> addr \<Rightarrow> (pollfd \<times> addr) list" where
  "pipe_wants s a =
     (if has_flag s SVZ_SOFLG_SEND_PIPE \<and> sk_send_buffer_fill s > 0
      then [(\<lparr>pf_fd = sk_pipe_write s, pf_events = POLLOUT\<rparr>, a)] else [])
     @ (if has_flag s SVZ_SOFLG_RECV_PIPE \<and> SOCK_READABLE s
        then [(\<lparr>pf_fd = sk_pipe_read s, pf_events = POLLIN OR POLLPRI\<rparr>, a)] else [])"

definition sock_wants :: "svz_socket \<Rightarrow> addr \<Rightarrow> (pollfd \<times> addr) list" where
  "sock_wants s a =
     (let ev = (if \<not> has_flag s SVZ_SOFLG_CONNECTING \<and> SOCK_READABLE s then POLLIN OR POLLPRI else 0)
             OR (if sk_unavailable s = 0 \<and> (sk_send_buffer_fill s > 0 \<or> has_flag s SVZ_SOFLG_CONNECTING) then POLLOUT else 0)
      in if ev = 0 then [] else [(\<lparr>pf_fd = sk_sock_desc s, pf_events = ev\<rparr>, a)])"

definition slot :: "polls \<Rightarrow> (pollfd \<times> addr) list \<Rightarrow> pollfd \<Rightarrow> addr \<Rightarrow> nat \<Rightarrow> bool" where
  "slot ps rs p a k \<longleftrightarrow> ps = \<lparr>ufds = map fst rs @ p # replicate k no_fd, sfds = map (Some \<circ> snd) rs @ Some a # replicate k None,
     nfds = length rs\<rparr>"

lemma FD_POLL_new:
  assumes "polls_rep ps rs k"
  shows "\<exists>ps'. FD_POLL ev fd a ps = Some ps' \<and> slot ps' rs \<lparr>pf_fd = fd, pf_events = ev\<rparr> a (k - 1)"
  using assms by (cases k) (auto simp: polls_rep_def slot_def FD_POLL_def FD_EXPAND_def Let_def list_update_append nth_append)

lemma FD_POLL_again:
  assumes "slot ps rs p a k"
  shows "\<exists>ps'. FD_POLL ev fd a ps = Some ps' \<and> slot ps' rs \<lparr>pf_fd = fd, pf_events = pf_events p OR ev\<rparr> a k"
  using assms by (auto simp: slot_def FD_POLL_def FD_EXPAND_def Let_def list_update_append nth_append)

lemma slot_next: "slot ps rs p a k \<Longrightarrow> polls_rep (poll_next 1 ps) (rs @ [(p, a)]) k"
  by (simp add: slot_def polls_rep_def poll_next_def)

lemma FD_POLL_next:
  assumes "polls_rep ps rs k"
  shows "\<exists>ps' k'. do { ps \<leftarrow> FD_POLL ev fd a ps; Some (poll_next 1 ps) } = Some ps'
           \<and> polls_rep ps' (rs @ [(\<lparr>pf_fd = fd, pf_events = ev\<rparr>, a)]) k'"
  using FD_POLL_new [OF assms, of ev fd a] slot_next by fastforce

lemma poll_pipe_rep:
  assumes "polls_rep ps rs k"
  shows "\<exists>ps' k'. poll_pipe s a ps = Some ps' \<and> polls_rep ps' (rs @ pipe_wants s a) k'"
proof -
  let ?o = "if has_flag s SVZ_SOFLG_SEND_PIPE \<and> sk_send_buffer_fill s > 0
      then [(\<lparr>pf_fd = sk_pipe_write s, pf_events = POLLOUT\<rparr>, a)] else []"
  have "\<exists>ps1 k1. (if has_flag s SVZ_SOFLG_SEND_PIPE \<and> sk_send_buffer_fill s > 0
      then do { ps \<leftarrow> FD_POLL_OUT (sk_pipe_write s) a ps; Some (poll_next 1 ps) } else Some ps) = Some ps1 \<and> polls_rep ps1 (rs @ ?o) k1"
    using FD_POLL_next [OF assms, of POLLOUT "sk_pipe_write s" a] assms by (auto simp: FD_POLL_OUT_def simp del: One_nat_def)
  then obtain ps1 k1 where 1: "(if has_flag s SVZ_SOFLG_SEND_PIPE \<and> sk_send_buffer_fill s > 0
      then do { ps \<leftarrow> FD_POLL_OUT (sk_pipe_write s) a ps; Some (poll_next 1 ps) } else Some ps) = Some ps1" "polls_rep ps1 (rs @ ?o) k1"
    by blast
  have "\<exists>ps' k'. (if has_flag s SVZ_SOFLG_RECV_PIPE \<and> SOCK_READABLE s
      then do { ps \<leftarrow> FD_POLL_IN (sk_pipe_read s) a ps1; Some (poll_next 1 ps) } else Some ps1) = Some ps'
      \<and> polls_rep ps' (rs @ pipe_wants s a) k'"
    using FD_POLL_next [OF 1(2), of "POLLIN OR POLLPRI" "sk_pipe_read s" a] 1(2)
    by (auto simp: pipe_wants_def FD_POLL_IN_def simp del: One_nat_def)
  then show ?thesis unfolding poll_pipe_def 1(1) by simp
qed

lemma poll_bits: "POLLIN OR POLLPRI \<noteq> 0" "POLLOUT \<noteq> 0" "POLLIN OR POLLPRI OR POLLOUT \<noteq> 0" "(POLLIN OR POLLPRI) OR POLLOUT \<noteq> 0"
  by (simp_all add: POLLIN_def POLLPRI_def POLLOUT_def)

lemma poll_sock_rep:
  assumes "polls_rep ps rs k"
  shows "\<exists>ps' k'. poll_sock s a ps = Some ps' \<and> polls_rep ps' (rs @ sock_wants s a) k'"
proof -
  let ?rd = "\<not> has_flag s SVZ_SOFLG_CONNECTING \<and> SOCK_READABLE s"
  let ?wr = "sk_unavailable s = 0 \<and> (sk_send_buffer_fill s > 0 \<or> has_flag s SVZ_SOFLG_CONNECTING)"
  obtain ps1 where ps1: "FD_POLL_IN (sk_sock_desc s) a ps = Some ps1"
      "slot ps1 rs \<lparr>pf_fd = sk_sock_desc s, pf_events = POLLIN OR POLLPRI\<rparr> a (k - 1)"
    using FD_POLL_new [OF assms] unfolding FD_POLL_IN_def by blast
  obtain ps2 where ps2: "FD_POLL_OUT (sk_sock_desc s) a ps = Some ps2"
      "slot ps2 rs \<lparr>pf_fd = sk_sock_desc s, pf_events = POLLOUT\<rparr> a (k - 1)"
    using FD_POLL_new [OF assms] unfolding FD_POLL_OUT_def by blast
  obtain ps3 where ps3: "FD_POLL_OUT (sk_sock_desc s) a ps1 = Some ps3"
      "slot ps3 rs \<lparr>pf_fd = sk_sock_desc s, pf_events = (POLLIN OR POLLPRI) OR POLLOUT\<rparr> a (k - 1)"
    using FD_POLL_again [OF ps1(2)] unfolding FD_POLL_OUT_def by fastforce
  have nx: "poll_next 0 ps = ps" by (simp add: poll_next_def)
  show ?thesis
  proof (cases ?rd; cases ?wr)
    assume "?rd" "?wr"
    then show ?thesis using ps1(1) ps3 slot_next poll_bits by (fastforce simp: poll_sock_def sock_wants_def)
  next
    assume "?rd" "\<not> ?wr"
    then show ?thesis using ps1 slot_next poll_bits by (fastforce simp: poll_sock_def sock_wants_def)
  next
    assume "\<not> ?rd" "?wr"
    then show ?thesis using ps2 slot_next poll_bits by (fastforce simp: poll_sock_def sock_wants_def)
  next
    assume "\<not> ?rd" "\<not> ?wr"
    then show ?thesis using assms nx by (fastforce simp: poll_sock_def sock_wants_def)
  qed
qed

lemma poll_clear_rep:
  assumes "length (sfds ps) = length (ufds ps)"
  shows "polls_rep ((FD_POLL_CLR ps)\<lparr>nfds := 0\<rparr>) [] (length (ufds ps))"
proof -
  have "map (\<lambda>_. c) xs = replicate (length xs) c" for c :: 'b and xs :: "'a list" by (rule map_replicate_const)
  then show ?thesis using assms by (simp add: polls_rep_def FD_POLL_CLR_def map_replicate_const)
qed

text \<open>A socket is in the list exactly when it is the table's entry of its id.\<close>

definition listed :: "core \<Rightarrow> addr \<Rightarrow> bool" where
  "listed c a \<longleftrightarrow> (\<exists>s. heap c a = Some s \<and> tab_get c (sk_id s) = Some (Some a))"

lemma listed_iff: "live_inv c xs \<Longrightarrow> listed c a \<longleftrightarrow> a \<in> set xs"
  unfolding listed_def live_inv_def core_inv_def using tab_ok_member tab_ok_entry by blast

lemma live_listed: "live_inv c xs \<Longrightarrow> a \<in> set xs \<Longrightarrow> listed c a"
  by (simp add: listed_iff)

definition polls_good :: "core \<Rightarrow> polls \<Rightarrow> bool" where
  "polls_good c ps \<longleftrightarrow> (\<exists>rs k. polls_rep ps rs k \<and> (\<forall>r \<in> set rs. listed c (snd r)))"

lemma polls_good_mono: "live_inv c xs \<Longrightarrow> live_inv c' (xs @ ys) \<Longrightarrow> polls_good c ps \<Longrightarrow> polls_good c' ps"
  unfolding polls_good_def by (metis (no_types) listed_iff set_append Un_iff)

lemma wants_addr: "r \<in> set (pipe_wants s a) \<Longrightarrow> snd r = a" "r \<in> set (sock_wants s a) \<Longrightarrow> snd r = a"
  by (auto simp: pipe_wants_def sock_wants_def Let_def split: if_splits)

lemma poll_pipe_good: "polls_good c ps \<Longrightarrow> listed c a \<Longrightarrow> \<exists>ps'. poll_pipe s a ps = Some ps' \<and> polls_good c ps'"
  unfolding polls_good_def using poll_pipe_rep [of ps _ _ s a] wants_addr(1) [of _ s a] by (metis Un_iff set_append)

lemma poll_sock_good: "polls_good c ps \<Longrightarrow> listed c a \<Longrightarrow> \<exists>ps'. poll_sock s a ps = Some ps' \<and> polls_good c ps'"
  unfolding polls_good_def using poll_sock_rep [of ps _ _ s a] wants_addr(2) [of _ s a] by (metis Un_iff set_append)

subsection \<open>The environment\<close>

text \<open>
  What the loop relies on: callbacks and tasks return, may append sockets to the list within the
  budget, kill sockets and change everything but links, identities and the validity of
  descriptors; \<open>good\<close> is a further property of the descriptors that they keep.
\<close>

locale server_env =
  fixes en :: "'w env" and bud :: "'w \<Rightarrow> nat" and good :: "'w srv \<Rightarrow> bool"
  assumes hooks: "h \<in> {read_socket en, write_socket en, read_socket_oob en, connected_socket en, idle_func en,
        child_died en, trigger_cond en, trigger_func en} \<Longrightarrow> h a sv = Some m \<Longrightarrow>
      live_inv (sv_core sv) xs \<Longrightarrow> good sv \<Longrightarrow> a \<in> set xs \<Longrightarrow>
      yields sv_core (\<lambda>sv. bud (sv_world sv)) good xs sv snd m"
    and tasks: "f \<in> {svz_coserver_check en, svz_interface_check en}
        \<or> Some f \<in> set (server_notify en) \<or> Some f \<in> set (server_reset en) \<Longrightarrow>
      live_inv (sv_core sv) xs \<Longrightarrow> good sv \<Longrightarrow> yields sv_core (\<lambda>sv. bud (sv_world sv)) good xs sv (\<lambda>x. x) (f sv)"
    and disc: "disc_ok (disconnected_socket en)"
    and wait: "bud (snd (snd (en_waitpid en p w))) \<le> bud w"
    and stable: "good sv \<Longrightarrow> sub_io {} (sv_core sv) (sv_core sv') \<Longrightarrow> good sv'"
begin

abbreviation "ok xs sv f m \<equiv> yields sv_core (\<lambda>sv. bud (sv_world sv)) good xs sv f m"

lemma core_yields:
  assumes "live_inv (sv_core sv) xs" "good sv" "f (sv_core sv) = Some c" "calm (sv_core sv) c"
  shows "ok xs sv (\<lambda>x. x) (with_core f sv)"
proof -
  have "good (sv\<lparr>sv_core := c\<rparr>)" using assms(4) by (intro stable [OF assms(2)] sub_io_calm) (simp add: calm_def)
  then show ?thesis using assms unfolding yields_def step_ok_def
    by (intro exI [of _ "sv\<lparr>sv_core := c\<rparr>"] exI [of _ "[]"]) (simp add: with_core_def calm_def)
qed

lemma upd_yields:
  assumes "live_inv (sv_core sv) xs" "good sv" "a \<in> set xs" "\<And>s. vitals (f s) = vitals s" "\<And>s. ioview (f s) = ioview s"
  shows "ok xs sv (\<lambda>x. x) (with_core (\<lambda>c. upd c a f) sv)"
proof -
  obtain s where "heap (sv_core sv) a = Some s" using live_heap [OF assms(1,3)] by blast
  then obtain c where "upd (sv_core sv) a f = Some c" by (simp add: upd_def)
  then show ?thesis using calm_upd [OF _ assms(4,5)] by (intro core_yields [OF assms(1,2)])
qed

lemma schedule_yields:
  assumes "live_inv (sv_core sv) xs" "good sv" "a \<in> set xs"
  shows "ok xs sv (\<lambda>x. x) (with_core (\<lambda>c. svz_sock_schedule_for_shutdown c a) sv)"
proof -
  have "core_inv (sv_core sv) xs" using assms(1) by (simp add: live_inv_def)
  from sched_kill [OF this assms(3)] obtain c where "svz_sock_schedule_for_shutdown (sv_core sv) a = Some c" "kill_ext (sv_core sv) c"
    by (auto simp: kill_claim_def svz_sock_schedule_for_shutdown_def)
  then show ?thesis using calm_kill by (intro core_yields [OF assms(1,2)])
qed

lemma schedule_if_yields:
  assumes "live_inv (sv_core sv) xs" "good sv" "a \<in> set xs"
  shows "ok xs sv (\<lambda>x. x) (schedule_if b a sv)"
  using schedule_yields [OF assms] assms by (auto simp: schedule_if_def intro: yields_ret)

lemma run_hook_yields:
  assumes "h \<in> {read_socket en, write_socket en, read_socket_oob en, connected_socket en, idle_func en,
        child_died en, trigger_cond en, trigger_func en}" "live_inv (sv_core sv) xs" "good sv" "a \<in> set xs"
  shows "ok xs sv snd (run_hook h a sv)"
  using hooks [OF assms(1) _ assms(2-4)] assms(2,3) by (cases "h a sv") (auto simp: run_hook_def intro: yields_ret)

lemma fire_yields:
  assumes "h \<in> {read_socket en, write_socket en, read_socket_oob en, connected_socket en, idle_func en,
        child_died en, trigger_cond en, trigger_func en}" "live_inv (sv_core sv) xs" "good sv" "a \<in> set xs"
  shows "ok xs sv snd (fire h a sv)"
  unfolding fire_def
proof (rule yields_bind [OF run_hook_yields [OF assms]])
  fix x :: "int \<times> 'w srv" and ys assume x: "live_inv (sv_core (snd x)) (xs @ ys)" "good (snd x)"
  obtain r sv' where rs: "x = (r, sv')" by (cases x)
  have "ok (xs @ ys) sv' snd (do { sv \<leftarrow> with_core (\<lambda>c. svz_sock_schedule_for_shutdown c a) sv'; Some (True, sv) })"
    using x rs assms(4) by (intro yields_bind [OF schedule_yields]) (auto intro: yields_ret)
  then show "ok (xs @ ys) (snd x) snd (case x of (r, sv) \<Rightarrow> if r \<noteq> 0
      then do { sv \<leftarrow> with_core (\<lambda>c. svz_sock_schedule_for_shutdown c a) sv; Some (True, sv) } else Some (False, sv))"
    using x rs by (auto intro: yields_ret)
qed

lemma fire_if_yields:
  assumes "h \<in> {read_socket en, write_socket en, read_socket_oob en, connected_socket en, idle_func en,
        child_died en, trigger_cond en, trigger_func en}" "live_inv (sv_core sv) xs" "good sv" "a \<in> set xs"
  shows "ok xs sv snd (fire_if b h a sv)"
  using fire_yields [OF assms] assms(2,3) by (auto simp: fire_if_def intro: yields_ret)

lemma heap_yields:
  assumes "live_inv (sv_core sv) xs" "a \<in> set xs" "\<And>s. heap (sv_core sv) a = Some s \<Longrightarrow> ok xs sv f (k s)"
  shows "ok xs sv f (Option.bind (heap (sv_core sv) a) k)"
  using live_heap [OF assms(1,2)] assms(3) by auto

lemma drop_yields:
  assumes "ok xs sv snd m"
  shows "ok xs sv (\<lambda>x. x) (do { (_, sv) \<leftarrow> m; Some sv })"
  by (rule yields_bind [OF assms]) (auto intro: yields_ret split: prod.splits)

lemma file_yields:
  assumes "live_inv (sv_core sv) xs" "good sv" "a \<in> set xs"
  shows "ok xs sv (\<lambda>x. x) (SOCK_FILE_FUNCTIONALITY en a sv)"
  unfolding SOCK_FILE_FUNCTIONALITY_def
  using assms by (intro heap_yields [OF assms(1,3)] drop_yields fire_if_yields) simp_all

lemma trigger_yields:
  assumes "live_inv (sv_core sv) xs" "good sv" "a \<in> set xs"
  shows "ok xs sv (\<lambda>x. x) (SOCK_TRIGGER_FUNCTIONALITY en a sv)"
  unfolding SOCK_TRIGGER_FUNCTIONALITY_def
proof (rule yields_bind)
  show "ok xs sv snd (run_hook (trigger_cond en) a sv)" using assms by (intro run_hook_yields) simp_all
  fix x :: "int \<times> 'w srv" and ys assume x: "live_inv (sv_core (snd x)) (xs @ ys)" "good (snd x)"
  show "ok (xs @ ys) (snd x) (\<lambda>x. x) (case x of (r, sv) \<Rightarrow> do { (_, sv) \<leftarrow> fire_if (r \<noteq> 0) (trigger_func en) a sv; Some sv })"
    using x assms(3) by (cases x) (auto intro!: drop_yields fire_if_yields)
qed

lemma renew_yields:
  assumes "live_inv (sv_core sv) xs" "good sv" "a \<in> set xs"
  shows "ok xs sv (\<lambda>x. x) (renew_available en a sv)"
  unfolding renew_available_def
  by (rule heap_yields [OF assms(1,3)]) (use assms in \<open>auto intro!: upd_yields yields_ret\<close>)

lemma periodic_body_yields:
  assumes "live_inv (sv_core sv) xs" "good sv" "a \<in> set xs"
  shows "ok xs sv (\<lambda>x. x) (periodic_body en a sv)"
  unfolding periodic_body_def
proof (rule heap_yields [OF assms(1,3)], rule yields_bind [where f = "\<lambda>x. x"])
  fix s
  show "ok xs sv (\<lambda>x. x) (if sk_flood_points s > 0
      then with_core (\<lambda>c. upd c a (\<lambda>s. s\<lparr>sk_flood_points := sk_flood_points s - 1\<rparr>)) sv else Some sv)"
    using assms by (auto intro!: upd_yields yields_ret)
  fix sv' ys assume inv: "live_inv (sv_core sv') (xs @ ys)" "good sv'"
  have "ok (xs @ ys) sv' (\<lambda>x. x) (do {
       sv \<leftarrow> with_core (\<lambda>c. upd c a (\<lambda>s. s\<lparr>sk_idle_counter := sk_idle_counter s - 1\<rparr>)) sv';
       (_, sv) \<leftarrow> fire_if (sk_idle_counter s - 1 \<le> 0) (idle_func en) a sv;
       Some sv })"
    using inv assms(3) by (intro yields_bind [OF upd_yields] drop_yields fire_if_yields) simp_all
  then show "ok (xs @ ys) sv' (\<lambda>x. x) (if idle_func en a sv' \<noteq> None \<and> sk_idle_counter s > 0
     then do {
       sv \<leftarrow> with_core (\<lambda>c. upd c a (\<lambda>s. s\<lparr>sk_idle_counter := sk_idle_counter s - 1\<rparr>)) sv';
       (_, sv) \<leftarrow> fire_if (sk_idle_counter s - 1 \<le> 0) (idle_func en) a sv;
       Some sv }
     else Some sv')" using inv by (auto intro: yields_ret)
qed

lemma bogus_body_yields:
  assumes "live_inv (sv_core sv) xs" "good sv" "a \<in> set xs"
  shows "ok xs sv (\<lambda>x. x) (bogus_body en a sv)"
  unfolding bogus_body_def using assms
  by (intro heap_yields [OF assms(1,3)] yields_bind [where f = "\<lambda>x. x"] schedule_if_yields) simp_all

lemma poll_error_yields:
  assumes "live_inv (sv_core sv) xs" "good sv" "a \<in> set xs"
  shows "ok xs sv (\<lambda>x. x) (poll_error a sv)"
  unfolding poll_error_def using assms
  by (intro heap_yields [OF assms(1,3)] yields_bind [where f = "\<lambda>x. x"] schedule_if_yields) simp_all

lemma writable_yields:
  assumes "live_inv (sv_core sv) xs" "good sv" "a \<in> set xs"
  shows "ok xs sv snd (poll_writable en a sv)"
  unfolding poll_writable_def using assms by (intro heap_yields [OF assms(1,3)] fire_yields) simp_all

lemma failed_yields:
  assumes "ok xs sv snd m"
    "\<And>sv' ys. live_inv (sv_core sv') (xs @ ys) \<Longrightarrow> good sv' \<Longrightarrow> ok (xs @ ys) sv' (\<lambda>x. x) (k sv')"
  shows "ok xs sv (\<lambda>x. x) (do { (failed, sv) \<leftarrow> m; if failed then Some sv else k sv })"
  by (rule yields_bind [OF assms(1)]) (use assms(2) in \<open>auto intro: yields_ret split: prod.splits\<close>)

lemma dispatch_yields:
  assumes "live_inv (sv_core sv) xs" "good sv" "a \<in> set xs"
  shows "ok xs sv (\<lambda>x. x) (poll_dispatch en r a sv)"
  unfolding poll_dispatch_def
proof (rule heap_yields [OF assms(1,3)])
  fix s
  have "ok xs sv (\<lambda>x. x) (do {
       (failed, sv) \<leftarrow> fire_if (r AND POLLPRI \<noteq> 0) (read_socket_oob en) a sv;
       if failed then Some sv
       else do {
         (failed, sv) \<leftarrow> fire_if (r AND POLLIN \<noteq> 0) (read_socket en) a sv;
         if failed then Some sv
         else do {
           (failed, sv) \<leftarrow> (if r AND POLLOUT \<noteq> 0 then poll_writable en a sv else Some (False, sv));
           if failed then Some sv
           else if r AND (POLLERR OR POLLHUP OR POLLNVAL) \<noteq> 0 then poll_error a sv
           else Some sv
         }
       }
     })"
    using assms by (intro failed_yields fire_if_yields) (auto intro!: writable_yields poll_error_yields yields_ret)
  then show "ok xs sv (\<lambda>x. x) (if has_flag s SVZ_SOFLG_KILLED then Some sv else do {
       (failed, sv) \<leftarrow> fire_if (r AND POLLPRI \<noteq> 0) (read_socket_oob en) a sv;
       if failed then Some sv
       else do {
         (failed, sv) \<leftarrow> fire_if (r AND POLLIN \<noteq> 0) (read_socket en) a sv;
         if failed then Some sv
         else do {
           (failed, sv) \<leftarrow> (if r AND POLLOUT \<noteq> 0 then poll_writable en a sv else Some (False, sv));
           if failed then Some sv
           else if r AND (POLLERR OR POLLHUP OR POLLNVAL) \<noteq> 0 then poll_error a sv
           else Some sv
         }
       }
     })" using assms by (auto intro: yields_ret)
qed

lemma walker:
  assumes "\<And>sv xs a. live_inv (sv_core sv) xs \<Longrightarrow> good sv \<Longrightarrow> a \<in> set xs \<Longrightarrow> ok xs sv (\<lambda>x. x) (body a sv)"
    "live_inv (sv_core sv) xs" "good sv"
  shows "ok xs sv (\<lambda>x. x) (svz_sock_foreach sv_core body sv (svz_sock_root (sv_core sv)))"
proof -
  have "list_walker sv_core body (\<lambda>sv. bud (sv_world sv)) good"
    using assms(1) by unfold_locales (simp add: yields_def)
  from list_walker.foreach_all [OF this assms(2,3)] show ?thesis by (simp add: yields_def)
qed

lemma shift_yields:
  assumes "ok xs sv' f m" "sv_core sv' = sv_core sv" "bud (sv_world sv') \<le> bud (sv_world sv)"
  shows "ok xs sv f m"
  using assms unfolding yields_def step_ok_def by (metis order_trans)

lemma good_same: "good sv \<Longrightarrow> sv_core sv' = sv_core sv \<Longrightarrow> good sv'"
  by (erule stable) simp

lemma run_servers_yields:
  assumes "\<And>f sv xs. Some f \<in> set fs \<Longrightarrow> live_inv (sv_core sv) xs \<Longrightarrow> good sv \<Longrightarrow> ok xs sv (\<lambda>x. x) (f sv)"
    "live_inv (sv_core sv) xs" "good sv"
  shows "ok xs sv (\<lambda>x. x) (run_servers fs sv)"
  using assms
proof (induction fs arbitrary: sv xs)
  case Nil
  then show ?case by (simp add: yields_ret)
next
  case (Cons f fs)
  have "ok xs sv (\<lambda>x. x) (case f of None \<Rightarrow> Some sv | Some g \<Rightarrow> g sv)"
    using Cons.prems by (cases f) (auto intro: yields_ret)
  then show ?case unfolding run_servers.simps
    by (rule yields_bind) (rule Cons.IH, use Cons.prems(1) in auto)
qed

lemma periodic_yields:
  assumes "live_inv (sv_core sv) xs" "good sv"
  shows "ok xs sv (\<lambda>x. x) (svz_periodic_tasks en sv)"
proof -
  let ?sv = "sv\<lparr>svz_notify := svz_notify sv + 1\<rparr>"
  have good: "good ?sv" by (rule good_same [OF assms(2)]) simp
  have "ok xs ?sv (\<lambda>x. x) (do {
     sv \<leftarrow> svz_sock_foreach sv_core (periodic_body en) ?sv (svz_sock_root (sv_core ?sv));
     sv \<leftarrow> svz_coserver_check en sv;
     run_servers (server_notify en) sv })"
    using assms good
    by (intro yields_bind [where f = "\<lambda>x. x"] walker periodic_body_yields tasks run_servers_yields) simp_all
  then show ?thesis unfolding svz_periodic_tasks_def Let_def by (rule shift_yields) simp_all
qed

lemma reset_yields:
  assumes "live_inv (sv_core sv) xs" "good sv"
  shows "ok xs sv (\<lambda>x. x) (reset en sv)"
  unfolding reset_def using assms
  by (intro yields_bind [where f = "\<lambda>x. x"] tasks run_servers_yields) simp_all

lemma bogus_yields:
  assumes "live_inv (sv_core sv) xs" "good sv"
  shows "ok xs sv (\<lambda>x. x) (svz_sock_check_bogus en sv)"
  unfolding svz_sock_check_bogus_def using assms by (intro walker bogus_body_yields)

lemma overdue_yields:
  assumes "live_inv (sv_core sv) xs" "good sv"
  shows "ok xs sv (\<lambda>x. x) (overdue en sv)"
  unfolding overdue_def using assms by (auto intro: periodic_yields yields_ret)

lemma children_body_yields:
  assumes "live_inv (sv_core sv) xs" "good sv" "a \<in> set xs"
  shows "ok xs sv (\<lambda>x. x) (children_body en a sv)"
  unfolding children_body_def
proof (rule heap_yields [OF assms(1,3)])
  fix s
  obtain r sv' where r: "check_child_died en s sv = (r, sv')" by (cases "check_child_died en s sv")
  have sv': "sv_core sv' = sv_core sv" "bud (sv_world sv') \<le> bud (sv_world sv)"
    using r wait [of "sk_pid s" "sv_world sv"]
    by (auto simp: check_child_died_def Let_def split: if_splits prod.splits)
  have inv: "live_inv (sv_core sv') xs" "good sv'" using assms sv'(1) good_same by auto
  have "ok xs sv' (\<lambda>x. x) (do {
         sv \<leftarrow> with_core (\<lambda>c. upd c a (\<lambda>s. s\<lparr>sk_pid := -1\<rparr>)) sv';
         (_, sv) \<leftarrow> fire (child_died en) a sv;
         Some sv })"
    using inv assms(3) by (intro yields_bind [OF upd_yields] drop_yields fire_yields) simp_all
  then have "ok xs sv' (\<lambda>x. x) (if r \<noteq> 0 then do {
         sv \<leftarrow> with_core (\<lambda>c. upd c a (\<lambda>s. s\<lparr>sk_pid := -1\<rparr>)) sv';
         (_, sv) \<leftarrow> fire (child_died en) a sv;
         Some sv } else Some sv')" using inv by (auto intro: yields_ret)
  from shift_yields [OF this sv'] show "ok xs sv (\<lambda>x. x) (if sk_pid s \<noteq> -1
     then do {
       let (r, sv) = check_child_died en s sv;
       if r \<noteq> 0
       then do {
         sv \<leftarrow> with_core (\<lambda>c. upd c a (\<lambda>s. s\<lparr>sk_pid := -1\<rparr>)) sv;
         (_, sv) \<leftarrow> fire (child_died en) a sv;
         Some sv
       }
       else Some sv
     }
     else Some sv)" using assms r by (auto intro: yields_ret)
qed

lemma children_yields:
  assumes "live_inv (sv_core sv) xs" "good sv"
  shows "ok xs sv (\<lambda>x. x) (check_children en sv)"
  unfolding check_children_def using assms by (intro walker children_body_yields)

text \<open>The first pass of the polling routines carries the array of requests along.\<close>

abbreviation "both Q \<equiv> (\<lambda>(sv, ps). good sv \<and> Q (sv_core sv) ps)"

abbreviation "ok2 Q xs st f m \<equiv> yields (sv_core \<circ> fst) (\<lambda>st. bud (sv_world (fst st))) (both Q) xs st f m"

lemma lift_yields:
  assumes "ok xs sv f m" "live_inv (sv_core sv) xs" "Q (sv_core sv) ps"
    "\<And>c xs c' ys. live_inv c xs \<Longrightarrow> live_inv c' (xs @ ys) \<Longrightarrow> Q c ps \<Longrightarrow> Q c' ps"
    "\<And>x ys. live_inv (sv_core (f x)) (xs @ ys) \<Longrightarrow> good (f x) \<Longrightarrow> Q (sv_core (f x)) ps \<Longrightarrow> ok2 Q (xs @ ys) (f x, ps) g (k x)"
  shows "ok2 Q xs (sv, ps) g (Option.bind m k)"
proof -
  obtain x ys where x: "m = Some x" "step_ok sv_core (\<lambda>sv. bud (sv_world sv)) good xs sv (f x) ys"
    using assms(1) by (auto simp: yields_def)
  then have inv: "live_inv (sv_core (f x)) (xs @ ys)" "good (f x)" by (simp_all add: step_ok_def)
  have "Q (sv_core (f x)) ps" using assms(4) [OF assms(2) inv(1) assms(3)] .
  then have "step_ok (sv_core \<circ> fst) (\<lambda>st. bud (sv_world (fst st))) (both Q) xs (sv, ps) (f x, ps) ys"
    using x(2) by (simp add: step_ok_def)
  moreover from assms(5) [OF inv \<open>Q (sv_core (f x)) ps\<close>] obtain y zs where "k x = Some y"
      "step_ok (sv_core \<circ> fst) (\<lambda>st. bud (sv_world (fst st))) (both Q) (xs @ ys) (f x, ps) (g y) zs"
    by (auto simp: yields_def)
  ultimately show ?thesis using x(1) step_ok_trans unfolding yields_def by fastforce
qed

lemma prologue_yields:
  assumes "live_inv (sv_core sv) xs" "good sv" "a \<in> set xs"
  shows "ok xs sv snd (prologue en a sv)"
proof -
  have "ok xs sv snd (do { sv \<leftarrow> SOCK_FILE_FUNCTIONALITY en a sv; sv \<leftarrow> SOCK_TRIGGER_FUNCTIONALITY en a sv; Some (False, sv) })"
    using assms by (intro yields_bind [where f = "\<lambda>x. x"] file_yields trigger_yields yields_ret) simp_all
  then show ?thesis unfolding prologue_def
    using assms by (intro heap_yields [OF assms(1,3)]) (auto intro: yields_ret)
qed

lemma update_yields:
  assumes "live_inv (sv_core sv) xs" "good sv" "Q (sv_core sv) ps'" "ok2 Q xs (sv, ps') f m"
  shows "ok2 Q xs (sv, ps) f m"
  using assms by (auto simp: yields_def step_ok_def)

lemma poll_request_sock_yields:
  assumes "live_inv (sv_core sv) xs" "good sv" "polls_good (sv_core sv) ps" "a \<in> set xs"
  shows "ok2 polls_good xs (sv, ps) (\<lambda>x. x) (poll_request_sock en a sv ps)"
  unfolding poll_request_sock_def
proof (rule lift_yields [where f = "\<lambda>x. x" and Q = polls_good, OF renew_yields [OF assms(1,2,4)] assms(1,3)])
  fix sv1 ys assume h: "live_inv (sv_core sv1) (xs @ ys)" "good sv1" "polls_good (sv_core sv1) ps"
  have a: "a \<in> set (xs @ ys)" using assms(4) by simp
  obtain u where u: "heap (sv_core sv1) a = Some u" using live_heap [OF h(1) a] by blast
  obtain ps2 where ps2: "poll_sock u a ps = Some ps2" "polls_good (sv_core sv1) ps2"
    using poll_sock_good [OF h(3) live_listed [OF h(1) a]] by blast
  have "ok2 polls_good (xs @ ys) (sv1, ps) (\<lambda>x. x) (Some (sv1, ps2))"
    by (rule update_yields [where Q = polls_good, OF h(1,2) ps2(2)], rule yields_ret) (use h(1,2) ps2(2) in simp_all)
  then show "ok2 polls_good (xs @ ys) (sv1, ps) (\<lambda>x. x) (do { s \<leftarrow> heap (sv_core sv1) a; ps \<leftarrow> poll_sock s a ps; Some (sv1, ps) })"
    using u ps2(1) by simp
qed (rule polls_good_mono)

lemma poll_request_yields:
  assumes "live_inv (sv_core sv) xs" "good sv" "polls_good (sv_core sv) ps" "a \<in> set xs"
  shows "ok2 polls_good xs (sv, ps) (\<lambda>x. x) (poll_request en a sv ps)"
proof -
  obtain t where t: "heap (sv_core sv) a = Some t" using live_heap [OF assms(1,4)] by blast
  have fire: "ok2 polls_good xs (sv, ps) (\<lambda>x. x)
      (do { (_, sv) \<leftarrow> fire_if (\<not> has_flag t SVZ_SOFLG_INITED) (read_socket en) a sv; Some (sv, ps) })"
    by (rule lift_yields [where f = snd and Q = polls_good, OF fire_if_yields [OF _ assms(1,2,4)] assms(1,3) polls_good_mono])
      (auto intro: yields_ret split: prod.splits)
  obtain ps1 where ps1: "(if has_flag t SVZ_SOFLG_PIPE then poll_pipe t a ps else Some ps) = Some ps1" "polls_good (sv_core sv) ps1"
    using poll_pipe_good [OF assms(3) live_listed [OF assms(1,4)]] assms(3) by (cases "has_flag t SVZ_SOFLG_PIPE") auto
  have "ok2 polls_good xs (sv, ps1) (\<lambda>x. x) (if has_flag t SVZ_SOFLG_SOCK then poll_request_sock en a sv ps1 else Some (sv, ps1))"
    using poll_request_sock_yields [OF assms(1,2) ps1(2) assms(4)] assms(1,2) ps1(2) by (auto intro: yields_ret)
  from update_yields [where Q = polls_good, OF assms(1,2) ps1(2) this] fire show ?thesis
    unfolding poll_request_def t by (simp add: ps1(1) cong: if_cong)
qed

lemma poll_prepare_yields:
  assumes "live_inv (sv_core sv) xs" "both polls_good (sv, ps)" "a \<in> set xs"
  shows "ok2 polls_good xs (sv, ps) (\<lambda>x. x) (poll_prepare en a (sv, ps))"
proof -
  have good: "good sv" "polls_good (sv_core sv) ps" using assms(2) by simp_all
  show ?thesis unfolding poll_prepare_def fst_conv snd_conv
    by (rule lift_yields [where f = snd and Q = polls_good, OF prologue_yields [OF assms(1) good(1) assms(3)] assms(1) good(2) polls_good_mono])
      (use assms(3) in \<open>auto intro!: poll_request_yields yields_ret split: prod.splits\<close>)
qed

lemma poll_loop_yields:
  assumes "\<And>r x. (r, x) \<in> set fds \<Longrightarrow> \<exists>a. x = Some a \<and> a \<in> set xs" "live_inv (sv_core sv) xs" "good sv"
  shows "ok xs sv (\<lambda>x. x) (poll_loop en fds polled sv)"
  using assms
proof (induction fds arbitrary: polled xs sv)
  case Nil
  then show ?case by (simp add: yields_ret)
next
  case (Cons f fds)
  obtain r a where f: "f = (r, Some a)" "a \<in> set xs" using Cons.prems(1) by (cases f) auto
  have "ok xs sv (\<lambda>x. x) (do { sv \<leftarrow> poll_dispatch en r a sv; poll_loop en fds p sv })" for p
  proof (rule yields_bind [OF dispatch_yields [OF Cons.prems(2,3) f(2)]])
    fix sv' ys assume h: "live_inv (sv_core sv') (xs @ ys)" "good sv'"
    show "ok (xs @ ys) sv' (\<lambda>x. x) (poll_loop en fds p sv')"
      by (rule Cons.IH [OF _ h]) (use Cons.prems(1) in fastforce)
  qed
  then show ?case using f(1) Cons.prems(2,3) by (auto simp: Let_def intro: yields_ret)
qed

lemma yields_keeps:
  assumes "ok xs sv (\<lambda>x. x) m"
  shows "\<exists>sv' ys. m = Some sv' \<and> live_inv (sv_core sv') (xs @ ys) \<and> good sv' \<and> grows (sv_core sv) (sv_core sv')"
  using assms by (auto simp: yields_def step_ok_def)

lemma poll_pass:
  assumes "live_inv (sv_core sv) xs" "good sv" "length (sfds ps) = length (ufds ps)"
  shows "\<exists>sv' ps' ys. svz_sock_foreach (sv_core \<circ> fst) (poll_prepare en)
           (sv, (FD_POLL_CLR ps)\<lparr>nfds := 0\<rparr>) (svz_sock_root (sv_core sv)) = Some (sv', ps')
           \<and> live_inv (sv_core sv') (xs @ ys) \<and> good sv' \<and> polls_good (sv_core sv') ps' \<and> grows (sv_core sv) (sv_core sv')"
proof -
  let ?ps = "(FD_POLL_CLR ps)\<lparr>nfds := 0\<rparr>"
  have w: "list_walker (sv_core \<circ> fst) (poll_prepare en) (\<lambda>st. bud (sv_world (fst st))) (both polls_good)"
  proof
    fix st :: "'w srv \<times> polls" and xs a
    assume h: "live_inv ((sv_core \<circ> fst) st) xs" "both polls_good st" "a \<in> set xs"
    obtain sv ps where "st = (sv, ps)" by (cases st)
    then show "\<exists>st' ys. poll_prepare en a st = Some st'
        \<and> step_ok (sv_core \<circ> fst) (\<lambda>st. bud (sv_world (fst st))) (both polls_good) xs st st' ys"
      using poll_prepare_yields [of sv xs ps a] h by (simp add: yields_def)
  qed
  have "both polls_good (sv, ?ps)" using poll_clear_rep [OF assms(3)] assms(2) by (auto simp: polls_good_def)
  from list_walker.foreach_all [OF w _ this, of xs] assms(1) show ?thesis by (auto simp: step_ok_def)
qed

lemma polls_goodD:
  assumes "polls_good c ps" "live_inv c xs" "(r, x) \<in> set (zip rv (take (nfds ps) (sfds ps)))"
  shows "\<exists>a. x = Some a \<and> a \<in> set xs"
proof -
  obtain rs k where rs: "polls_rep ps rs k" "\<forall>r \<in> set rs. listed c (snd r)" using assms(1) by (auto simp: polls_good_def)
  have "x \<in> set (take (nfds ps) (sfds ps))" using assms(3) by (rule set_zip_rightD)
  then have "x \<in> Some ` snd ` set rs" using rs(1) by (auto simp: polls_rep_def)
  then show ?thesis using rs(2) listed_iff [OF assms(2)] by auto
qed

lemma polls_good_length: "polls_good c ps \<Longrightarrow> length (sfds ps) = length (ufds ps)"
  by (auto simp: polls_good_def polls_rep_def)

lemma check_sockets_poll_ok:
  assumes "live_inv (sv_core sv) xs" "good sv" "length (sfds ps) = length (ufds ps)"
  shows "\<exists>r ps' sv' ys. check_sockets_poll en ps sv = Some (r, ps', sv') \<and> live_inv (sv_core sv') (xs @ ys)
           \<and> good sv' \<and> grows (sv_core sv) (sv_core sv') \<and> length (sfds ps') = length (ufds ps')"
proof -
  obtain sv1 ps1 ys1 where 1: "svz_sock_foreach (sv_core \<circ> fst) (poll_prepare en)
      (sv, (FD_POLL_CLR ps)\<lparr>nfds := 0\<rparr>) (svz_sock_root (sv_core sv)) = Some (sv1, ps1)"
      "live_inv (sv_core sv1) (xs @ ys1)" "good sv1" "polls_good (sv_core sv1) ps1" "grows (sv_core sv) (sv_core sv1)"
    using poll_pass [OF assms] by blast
  let ?t = "max 0 ((svz_notify sv1 - en_time en (sv_world sv1)) * 1000)"
  obtain polled ebadf rv w where p: "en_poll en (take (nfds ps1) (ufds ps1)) ?t (sv_world sv1) = (polled, ebadf, rv, w)"
    by (metis prod_cases4)
  let ?sv = "sv1\<lparr>sv_world := w\<rparr>"
  have inv: "live_inv (sv_core ?sv) (xs @ ys1)" "good ?sv" using 1(2) good_same [OF 1(3)] by simp_all
  have unf: "check_sockets_poll en ps sv = (if polled < 0
     then do { sv \<leftarrow> (if ebadf then svz_sock_check_bogus en ?sv else Some ?sv); Some (-1, ps1, sv) }
     else do {
       sv \<leftarrow> (if polled = 0 then svz_periodic_tasks en ?sv else Some ?sv);
       sv \<leftarrow> poll_loop en (zip rv (take (nfds ps1) (sfds ps1))) polled sv;
       sv \<leftarrow> overdue en sv;
       Some (0, ps1, sv) })"
    unfolding check_sockets_poll_def 1(1) by (simp only: bind.bind_lunit prod.case Let_def p)
  have len: "length (sfds ps1) = length (ufds ps1)" by (rule polls_good_length [OF 1(4)])
  show ?thesis
  proof (cases "polled < 0")
    case True
    have "ok (xs @ ys1) ?sv (\<lambda>x. x) (if ebadf then svz_sock_check_bogus en ?sv else Some ?sv)"
      using bogus_yields [OF inv] inv by (auto intro: yields_ret)
    from yields_keeps [OF this] obtain sv' zs where "(if ebadf then svz_sock_check_bogus en ?sv else Some ?sv) = Some sv'"
        "live_inv (sv_core sv') ((xs @ ys1) @ zs)" "good sv'" "grows (sv_core ?sv) (sv_core sv')" by blast
    then show ?thesis unfolding unf using True grows_trans [OF 1(5)] len
      by (intro exI [of _ "-1"] exI [of _ ps1] exI [of _ sv'] exI [of _ "ys1 @ zs"]) simp
  next
    case False
    have "ok (xs @ ys1) ?sv (\<lambda>x. x) (do {
       sv \<leftarrow> (if polled = 0 then svz_periodic_tasks en ?sv else Some ?sv);
       sv \<leftarrow> poll_loop en (zip rv (take (nfds ps1) (sfds ps1))) polled sv;
       overdue en sv })"
    proof (intro yields_bind [where f = "\<lambda>x. x"] overdue_yields poll_loop_yields)
      show "ok (xs @ ys1) ?sv (\<lambda>x. x) (if polled = 0 then svz_periodic_tasks en ?sv else Some ?sv)"
        using periodic_yields [OF inv] inv by (auto intro: yields_ret)
      fix ys r x assume "(r, x) \<in> set (zip rv (take (nfds ps1) (sfds ps1)))"
      from polls_goodD [OF 1(4,2) this] show "\<exists>a. x = Some a \<and> a \<in> set ((xs @ ys1) @ ys)" by auto
    qed
    from yields_keeps [OF this] obtain sv' zs where sv': "do {
       sv \<leftarrow> (if polled = 0 then svz_periodic_tasks en ?sv else Some ?sv);
       sv \<leftarrow> poll_loop en (zip rv (take (nfds ps1) (sfds ps1))) polled sv;
       overdue en sv } = Some sv'"
        "live_inv (sv_core sv') ((xs @ ys1) @ zs)" "good sv'" "grows (sv_core ?sv) (sv_core sv')" by blast
    have "check_sockets_poll en ps sv = Some (0, ps1, sv')"
      unfolding unf bind3_map using False sv'(1) by simp
    then show ?thesis using sv'(2-4) grows_trans [OF 1(5)] len
      by (intro exI [of _ 0] exI [of _ ps1] exI [of _ sv'] exI [of _ "ys1 @ zs"]) simp
  qed
qed

lemma rechain_live:
  assumes "live_inv c xs"
  shows "\<exists>c'. rechain_list_of_socks c = Some c' \<and> live_inv c' (rechained c xs) \<and> grows c c' \<and> sub_io {} c c'"
proof -
  have "core_inv c xs" using assms by (simp add: live_inv_def)
  then obtain c' where c': "rechain_list_of_socks c = Some c'" "core_inv c' (rechained c xs)" "same_payload c c' UNIV"
    using rechain_inv by blast
  have "sub_io {} c c'" using c'(3) by (intro sub_io_payload) simp
  then show ?thesis using c' same_payload_views [OF c'(3) UNIV_I] assms by (auto simp: live_inv_def grows_def rechained_set)
qed

lemma sweep_live:
  assumes "live_inv c xs"
  shows "\<exists>c' zs. sweep (disconnected_socket en) c (svz_sock_root c) = Some c' \<and> live_inv c' zs \<and> set zs \<subseteq> set xs
           \<and> (\<forall>b \<in> set xs. killed c b \<longrightarrow> heap c' b = None) \<and> sub_io {} c c'"
proof -
  obtain c' K where c': "sweep (disconnected_socket en) c (svz_sock_root c) = Some c'" "core_inv c' (filter (\<lambda>b. b \<notin> K) xs)"
      "\<forall>b \<in> set xs. killed c b \<longrightarrow> b \<in> K" "\<forall>b \<in> set xs. b \<in> K \<longrightarrow> heap c' b = None" "\<forall>b \<in> set xs. b \<notin> K \<longrightarrow> valid c' b"
    using sweep_all [of c xs, OF _ _ disc] assms unfolding live_inv_def by blast
  moreover have "svz_sock_root c = hd_or xs None" using assms by (simp add: live_inv_def core_inv_def chain_def)
  then have "sub_io {} c c'" using sweep_io [of c "[]" xs _ c', OF _ _ disc] assms c'(1) by (simp add: live_inv_def)
  ultimately show ?thesis
    by (intro exI [of _ c'] exI [of _ "filter (\<lambda>b. b \<notin> K) xs"]) (simp add: live_inv_def)
qed

lemma loop_one_ok:
  assumes "live_inv (sv_core sv) xs" "good sv" "length (sfds ps) = length (ufds ps)"
  shows "\<exists>ps' sv' zs. svz_loop_one en (ps, sv) = Some (ps', sv') \<and> live_inv (sv_core sv') zs \<and> good sv'
           \<and> length (sfds ps') = length (ufds ps') \<and> (\<forall>b \<in> set xs. killed (sv_core sv) b \<longrightarrow> heap (sv_core sv') b = None)"
proof -
  have "ok xs sv (\<lambda>x. x) (if reset_happened sv \<noteq> 0 then reset en sv else Some sv)"
    using reset_yields [OF assms(1,2)] assms(1,2) by (auto intro: yields_ret)
  from yields_keeps [OF this] obtain sv0 ys0 where 0: "(if reset_happened sv \<noteq> 0 then reset en sv else Some sv) = Some sv0"
      "live_inv (sv_core sv0) (xs @ ys0)" "good sv0" "grows (sv_core sv) (sv_core sv0)" by blast
  define sv1 where "sv1 = (if reset_happened sv \<noteq> 0 then sv0\<lparr>reset_happened := 0\<rparr> else sv0)"
  define sv2 where "sv2 = (if pipe_broke sv1 \<noteq> 0 then sv1\<lparr>pipe_broke := 0\<rparr> else sv1)"
  have e1: "(if reset_happened sv \<noteq> 0 then do { sv \<leftarrow> reset en sv; Some (sv\<lparr>reset_happened := 0\<rparr>) } else Some sv) = Some sv1"
    using 0(1) by (auto simp: sv1_def)
  have c2: "sv_core sv2 = sv_core sv0" by (simp add: sv2_def sv1_def)
  have i2: "live_inv (sv_core sv2) (xs @ ys0)" "good sv2" using 0(2) c2 good_same [OF 0(3)] by simp_all
  obtain r ps3 sv3 ys3 where 3: "check_sockets_poll en ps sv2 = Some (r, ps3, sv3)" "live_inv (sv_core sv3) ((xs @ ys0) @ ys3)"
      "good sv3" "grows (sv_core sv2) (sv_core sv3)" "length (sfds ps3) = length (ufds ps3)"
    using check_sockets_poll_ok [OF i2 assms(3)] by blast
  obtain sv4 ys4 where 4: "check_children en sv3 = Some sv4" "live_inv (sv_core sv4) (((xs @ ys0) @ ys3) @ ys4)"
      "grows (sv_core sv3) (sv_core sv4)" "good sv4" using yields_keeps [OF children_yields [OF 3(2,3)]] by blast
  let ?sv = "sv4\<lparr>svz_child_died := 0, signo := -1, uncaught_signal := -1, rechain := rechain sv4 + 1\<rparr>"
  obtain c5 xs5 where 5: "(if rechain sv4 AND 16 \<noteq> 0 then rechain_list_of_socks (sv_core sv4) else Some (sv_core sv4)) = Some c5"
      "live_inv c5 xs5" "set xs5 = set (((xs @ ys0) @ ys3) @ ys4)" "grows (sv_core sv4) c5" "sub_io {} (sv_core sv4) c5"
  proof (cases "rechain sv4 AND 16 \<noteq> 0")
    case True
    obtain c5 where "rechain_list_of_socks (sv_core sv4) = Some c5" "live_inv c5 (rechained (sv_core sv4) (((xs @ ys0) @ ys3) @ ys4))"
        "grows (sv_core sv4) c5" "sub_io {} (sv_core sv4) c5" using rechain_live [OF 4(2)] by blast
    then show thesis using True that rechained_set by simp
  next
    case False
    then show thesis using that 4(2) by simp
  qed
  obtain c6 zs where 6: "sweep (disconnected_socket en) c5 (svz_sock_root c5) = Some c6" "live_inv c6 zs"
      "\<forall>b \<in> set xs5. killed c5 b \<longrightarrow> heap c6 b = None" "sub_io {} c5 c6" using sweep_live [OF 5(2)] by blast
  have "good (?sv\<lparr>sv_core := c6\<rparr>)" using sub_io_trans [OF 5(5) 6(4)] by (intro stable [OF 4(4)]) simp
  moreover have "svz_loop_one en (ps, sv) = Some (ps3, ?sv\<lparr>sv_core := c6\<rparr>)"
    using validate_live [OF assms(1)] 3(1) 4(1) 5(1) 6(1)
    by (simp add: svz_loop_one_def e1 sv2_def [symmetric] with_core_def split: if_splits)
  moreover have "heap c6 b = None" if h: "b \<in> set xs" "killed (sv_core sv) b" for b
  proof -
    have "grows (sv_core sv) c5" using grows_trans [OF 0(4)] 3(4) c2 4(3) 5(4) grows_trans by metis
    then show ?thesis using 6(3) 5(3) h by (simp add: grows_def)
  qed
  ultimately show ?thesis using 6(2) 3(5) by (intro exI [of _ ps3] exI [of _ "?sv\<lparr>sv_core := c6\<rparr>"] exI [of _ zs]) simp
qed

end

text \<open>The first \<open>n\<close> iterations of the loop.\<close>

fun rounds :: "'w env \<Rightarrow> nat \<Rightarrow> polls \<times> 'w srv \<Rightarrow> (polls \<times> 'w srv) option" where
  "rounds en 0 st = Some st"
| "rounds en (Suc n) st =
     (if svz_nuke_happened (snd st) \<noteq> 0 then Some st
      else do { st \<leftarrow> svz_loop_one en st; rounds en n (apsnd (deliver en) st) })"

lemma rounds_loop: "rounds en n st = Some st' \<Longrightarrow> svz_nuke_happened (snd st') \<noteq> 0 \<Longrightarrow> loop_while en st = Some st'"
proof (induction n arbitrary: st)
  case 0
  then show ?case by (subst loop_while.simps) simp
next
  case (Suc n)
  then show ?case by (subst loop_while.simps) (auto split: if_splits bind_splits)
qed

text \<open>The signal handler changes flags and the world, not the sockets.\<close>

lemma handle_signal_core: "sv_core (handle_signal en sig sv) = sv_core sv"
  by (simp add: handle_signal_def Let_def split: prod.splits)

lemma deliver_core: "sv_core (deliver en sv) = sv_core sv"
proof -
  have "sv_core (fold (handle_signal en) sigs sv) = sv_core sv" for sigs sv
    by (induction sigs arbitrary: sv) (simp_all add: handle_signal_core)
  then show ?thesis by (simp add: deliver_def split: prod.splits)
qed

context server_env
begin

lemma rounds_ok:
  assumes "live_inv (sv_core sv) xs" "good sv" "length (sfds ps) = length (ufds ps)"
  shows "\<exists>ps' sv' zs. rounds en n (ps, sv) = Some (ps', sv') \<and> live_inv (sv_core sv') zs \<and> length (sfds ps') = length (ufds ps')"
  using assms
proof (induction n arbitrary: ps sv xs)
  case (Suc n)
  obtain ps1 sv1 zs where 1: "svz_loop_one en (ps, sv) = Some (ps1, sv1)" "live_inv (sv_core sv1) zs"
      "length (sfds ps1) = length (ufds ps1)" "good sv1" using loop_one_ok [OF Suc.prems] by blast
  have "live_inv (sv_core (deliver en sv1)) zs" "good (deliver en sv1)"
    using 1(2) good_same [OF 1(4)] by (simp_all add: deliver_core)
  from Suc.IH [OF this 1(3)] 1(1) Suc.prems show ?case by (cases "svz_nuke_happened sv = 0") auto
qed auto

lemma loop_ok:
  assumes "live_inv (sv_core sv) xs" "good sv" "length (sfds ps) = length (ufds ps)"
    "rounds en n (ps, svz_loop_pre en sv) = Some (ps1, sv1)" "svz_nuke_happened sv1 \<noteq> 0"
  shows "\<exists>ps' sv' zs. svz_loop en (ps, sv) = Some (ps', sv') \<and> live_inv (sv_core sv1) zs
           \<and> svz_sock_root (sv_core sv') = None \<and> (\<forall>a \<in> set zs. heap (sv_core sv') a = None)"
proof -
  have pre: "live_inv (sv_core (svz_loop_pre en sv)) xs" "good (svz_loop_pre en sv)"
    using assms(1) good_same [OF assms(2)] by (simp_all add: svz_loop_pre_def)
  obtain zs where zs: "live_inv (sv_core sv1) zs" using rounds_ok [OF pre assms(3), of n] assms(4) by auto
  have lw: "loop_while en (ps, svz_loop_pre en sv) = Some (ps1, sv1)" using rounds_loop [OF assms(4)] assms(5) by simp
  obtain c' where c': "svz_loop_post (disconnected_socket en) (sv_core sv1) = Some c'" "core_inv c' []"
      "\<forall>b \<in> set zs. heap c' b = None"
    using loop_post_all [of "sv_core sv1" zs, OF _ _ disc] zs unfolding live_inv_def by blast
  have "svz_loop en (ps, sv) = Some (ps1, sv1\<lparr>sv_core := c'\<rparr>)"
    using lw c'(1) by (simp add: svz_loop_def with_core_def)
  moreover have "svz_sock_root c' = None" using c'(2) by (simp add: core_inv_def chain_def)
  ultimately show ?thesis using zs c'(3) by auto
qed

end

text \<open>With \<^verbatim>\<open>select\<close> the descriptors have to be in the bounds of the sets.\<close>

definition in_fd_set :: "int \<Rightarrow> bool" where
  "in_fd_set fd \<longleftrightarrow> 0 \<le> fd \<and> fd < FD_SETSIZE"

definition small_fds :: "'w srv \<Rightarrow> bool" where
  "small_fds sv \<longleftrightarrow> (\<forall>a s. heap (sv_core sv) a = Some s \<longrightarrow>
     (has_flag s SVZ_SOFLG_SOCK \<longrightarrow> in_fd_set (sk_sock_desc s))
     \<and> (has_flag s SVZ_SOFLG_RECV_PIPE \<longrightarrow> in_fd_set (sk_pipe_read s))
     \<and> (has_flag s SVZ_SOFLG_SEND_PIPE \<longrightarrow> in_fd_set (sk_pipe_write s)))"

lemma fd_sets [simp]: "in_fd_set fd \<Longrightarrow> FD_SET fd fds = Some (insert fd fds)" "in_fd_set fd \<Longrightarrow> FD_ISSET fd fds = Some (fd \<in> fds)"
  by (simp_all add: in_fd_set_def FD_SET_def FD_ISSET_def)

lemma select_sock_fds_ok: "in_fd_set (sk_sock_desc s) \<Longrightarrow> \<exists>fs'. select_sock_fds s fs = Some fs'"
  by (simp add: select_sock_fds_def set_except_def set_read_def set_write_def)

lemma select_pipe_fds_ok:
  "(has_flag s SVZ_SOFLG_RECV_PIPE \<longrightarrow> in_fd_set (sk_pipe_read s)) \<Longrightarrow>
   (has_flag s SVZ_SOFLG_SEND_PIPE \<longrightarrow> in_fd_set (sk_pipe_write s)) \<Longrightarrow> \<exists>fs'. select_pipe_fds s fs = Some fs'"
  by (simp add: select_pipe_fds_def set_except_def set_read_def set_write_def)

text \<open>
  A callback may turn a socket into something else; as \<^verbatim>\<open>check_sockets_select\<close> goes on testing its
  descriptor, the reading callbacks have to leave a plain socket one.
\<close>

locale select_env = server_env en bud good for en :: "'w env" and bud :: "'w \<Rightarrow> nat" and good :: "'w srv \<Rightarrow> bool" +
  assumes small_good: "good sv \<Longrightarrow> small_fds sv"
    and stays_sock: "good sv \<Longrightarrow> h \<in> {read_socket en, read_socket_oob en} \<Longrightarrow> h a sv = Some (Some (r, sv')) \<Longrightarrow>
    heap (sv_core sv) a = Some s \<Longrightarrow> heap (sv_core sv') a = Some s' \<Longrightarrow>
    has_flag s SVZ_SOFLG_SOCK \<Longrightarrow> has_flag s' SVZ_SOFLG_SOCK"
begin

lemma small:
  assumes "good sv" "heap (sv_core sv) a = Some s"
  shows "has_flag s SVZ_SOFLG_SOCK \<Longrightarrow> in_fd_set (sk_sock_desc s)"
    "has_flag s SVZ_SOFLG_RECV_PIPE \<Longrightarrow> in_fd_set (sk_pipe_read s)" "has_flag s SVZ_SOFLG_SEND_PIPE \<Longrightarrow> in_fd_set (sk_pipe_write s)"
  using small_good [OF assms(1)] assms(2) unfolding small_fds_def by blast+

lemma renew_flags:
  assumes "renew_available en a sv = Some sv'" "heap (sv_core sv) a = Some s"
  shows "\<exists>s'. heap (sv_core sv') a = Some s' \<and> has_flag s' SVZ_SOFLG_SOCK = has_flag s SVZ_SOFLG_SOCK"
  using assms by (auto simp: renew_available_def with_core_def upd_def has_flag_def split: if_splits)

lemma select_request_yields:
  assumes "live_inv (sv_core sv) xs" "good sv" "a \<in> set xs"
  shows "ok2 (\<lambda>_ _. True) xs (sv, fs) (\<lambda>x. x) (select_request en a sv fs)"
proof -
  let ?Q = "\<lambda>_ _. True :: bool"
  obtain s where s: "heap (sv_core sv) a = Some s" using live_heap [OF assms(1,3)] by blast
  obtain fs1 where fs1: "(if has_flag s SVZ_SOFLG_PIPE then select_pipe_fds s fs else Some fs) = Some fs1"
    using select_pipe_fds_ok [of s fs] small(2,3) [OF assms(2) s] by (cases "has_flag s SVZ_SOFLG_PIPE") auto
  have "ok2 ?Q xs (sv, fs1) (\<lambda>x. x) (do {
         sv \<leftarrow> renew_available en a sv;
         s \<leftarrow> heap (sv_core sv) a;
         fs \<leftarrow> select_sock_fds s fs1;
         Some (sv, fs) })" if sk: "has_flag s SVZ_SOFLG_SOCK"
  proof -
    obtain sv1 ys where sv1: "renew_available en a sv = Some sv1" "step_ok sv_core (\<lambda>sv. bud (sv_world sv)) good xs sv sv1 ys"
      using renew_yields [OF assms] by (auto simp: yields_def)
    obtain s1 where s1: "heap (sv_core sv1) a = Some s1" "has_flag s1 SVZ_SOFLG_SOCK" using renew_flags [OF sv1(1) s] sk by auto
    have "good sv1" using sv1(2) by (simp add: step_ok_def)
    from small(1) [OF this s1] obtain fs2 where "select_sock_fds s1 fs1 = Some fs2" using select_sock_fds_ok by blast
    then show ?thesis using sv1 s1(1) by (auto simp: yields_def step_ok_def)
  qed
  then have "ok2 ?Q xs (sv, fs1) (\<lambda>x. x) (if has_flag s SVZ_SOFLG_SOCK then do {
         sv \<leftarrow> renew_available en a sv;
         s \<leftarrow> heap (sv_core sv) a;
         fs \<leftarrow> select_sock_fds s fs1;
         Some (sv, fs) } else Some (sv, fs1))" using assms by (auto intro: yields_ret)
  from update_yields [where Q = ?Q, OF assms(1,2) TrueI this, of fs] show ?thesis
    using s fs1 assms by (auto simp: select_request_def intro: yields_ret)
qed

lemma select_prepare_yields:
  assumes "live_inv (sv_core sv) xs" "good sv" "a \<in> set xs"
  shows "ok2 (\<lambda>_ _. True) xs (sv, fs) (\<lambda>x. x) (select_prepare en a (sv, fs))"
  unfolding select_prepare_def fst_conv snd_conv
  by (rule lift_yields [where f = snd and Q = "\<lambda>_ _. True", OF prologue_yields [OF assms] assms(1) TrueI TrueI])
    (use assms(3) in \<open>auto intro!: select_request_yields [simplified] yields_ret split: prod.splits\<close>)

lemma isset_yields:
  assumes "in_fd_set fd" "\<And>b. ok xs sv f (k b)"
  shows "ok xs sv f (Option.bind (FD_ISSET fd fds) k)"
  using assms by simp

lemma half_pipe_yields:
  assumes "live_inv (sv_core sv) xs" "good sv" "a \<in> set xs" "in_fd_set fd" "h \<in> {read_socket en, write_socket en}"
  shows "ok xs sv (\<lambda>x. x) (do {
     e \<leftarrow> FD_ISSET fd es;
     sv \<leftarrow> schedule_if e a sv;
     r \<leftarrow> FD_ISSET fd rs;
     (_, sv) \<leftarrow> fire_if r h a sv;
     Some sv })"
  using assms
  by (intro isset_yields yields_bind [where f = "\<lambda>x. x"] schedule_if_yields drop_yields fire_if_yields) auto

lemma select_pipe_yields:
  assumes "live_inv (sv_core sv) xs" "good sv" "a \<in> set xs"
  shows "ok xs sv (\<lambda>x. x) (select_pipe en fs a sv)"
  unfolding select_pipe_def
proof (rule heap_yields [OF assms(1,3)], rule yields_bind [where f = "\<lambda>x. x"])
  fix s assume s: "heap (sv_core sv) a = Some s"
  show "ok xs sv (\<lambda>x. x) (if has_flag s SVZ_SOFLG_RECV_PIPE then do {
     e \<leftarrow> FD_ISSET (sk_pipe_read s) (except_fds fs);
     sv \<leftarrow> schedule_if e a sv;
     r \<leftarrow> FD_ISSET (sk_pipe_read s) (read_fds fs);
     (_, sv) \<leftarrow> fire_if r (read_socket en) a sv;
     Some sv } else Some sv)"
    using half_pipe_yields [OF assms small(2) [OF assms(2) s]] assms by (auto intro: yields_ret)
  fix sv' :: "'w srv" and ys assume h: "live_inv (sv_core sv') (xs @ ys)" "good sv'"
  have a: "a \<in> set (xs @ ys)" using assms(3) by simp
  show "ok (xs @ ys) sv' (\<lambda>x. x) (do {
     s \<leftarrow> heap (sv_core sv') a;
     if has_flag s SVZ_SOFLG_SEND_PIPE then do {
       e \<leftarrow> FD_ISSET (sk_pipe_write s) (except_fds fs);
       sv \<leftarrow> schedule_if e a sv';
       r \<leftarrow> FD_ISSET (sk_pipe_write s) (write_fds fs);
       (_, sv) \<leftarrow> fire_if r (write_socket en) a sv;
       Some sv } else Some sv' })"
  proof (rule heap_yields [OF h(1) a])
    fix t assume "heap (sv_core sv') a = Some t"
    from half_pipe_yields [OF h a small(3) [OF h(2) this]] h
    show "ok (xs @ ys) sv' (\<lambda>x. x) (if has_flag t SVZ_SOFLG_SEND_PIPE then do {
       e \<leftarrow> FD_ISSET (sk_pipe_write t) (except_fds fs);
       sv \<leftarrow> schedule_if e a sv';
       r \<leftarrow> FD_ISSET (sk_pipe_write t) (write_fds fs);
       (_, sv) \<leftarrow> fire_if r (write_socket en) a sv;
       Some sv } else Some sv')" by (auto intro: yields_ret)
  qed
qed

lemma select_except_yields:
  assumes "live_inv (sv_core sv) xs" "good sv" "a \<in> set xs" "in_fd_set (sk_sock_desc s)" "heap (sv_core sv) a = Some s"
  shows "ok xs sv snd (select_except en fs a sv)"
proof -
  have "ok xs sv snd (do { sv \<leftarrow> schedule_if True a sv; Some (True, sv) })"
    using assms by (intro yields_bind [where f = "\<lambda>x. x"] schedule_if_yields) (auto intro: yields_ret)
  moreover have "ok xs sv snd (fire (read_socket_oob en) a sv)" using assms by (intro fire_yields) simp_all
  ultimately show ?thesis using assms by (auto simp: select_except_def intro: yields_ret)
qed

lemma fire_stays:
  assumes "good sv" "h \<in> {read_socket en, read_socket_oob en}" "fire_if b h a sv = Some (False, sv')"
    "heap (sv_core sv) a = Some s" "heap (sv_core sv') a = Some s'" "has_flag s SVZ_SOFLG_SOCK"
  shows "has_flag s' SVZ_SOFLG_SOCK"
proof (cases "b \<and> h a sv \<noteq> None")
  case True
  then obtain m where m: "h a sv = Some m" by blast
  then have "h a sv = Some (Some (0, sv'))"
    using assms(3) True by (auto simp: fire_if_def fire_def run_hook_def split: bind_splits if_splits)
  then show ?thesis using stays_sock [OF assms(1,2) _ assms(4-6)] by blast
next
  case False
  then have "sv' = sv" using assms(3) by (auto simp: fire_if_def fire_def run_hook_def split: if_splits)
  then show ?thesis using assms(4-6) by simp
qed

lemma except_stays:
  assumes "good sv" "select_except en fs a sv = Some (False, sv')" "heap (sv_core sv) a = Some s" "heap (sv_core sv') a = Some s'"
    "has_flag s SVZ_SOFLG_SOCK"
  shows "has_flag s' SVZ_SOFLG_SOCK"
proof -
  have "fire_if b (read_socket_oob en) a sv = Some (False, sv')" if "b = (sk_sock_desc s \<in> except_fds fs)" for b
    using assms(2,3) that by (auto simp: select_except_def fire_if_def FD_ISSET_def split: if_splits bind_splits)
  then show ?thesis using fire_stays [of sv "read_socket_oob en" _ a sv' s s'] assms(1,3-5) by blast
qed

lemma select_sock_yields:
  assumes "live_inv (sv_core sv) xs" "good sv" "a \<in> set xs" "heap (sv_core sv) a = Some s" "has_flag s SVZ_SOFLG_SOCK"
  shows "ok xs sv (\<lambda>x. x) (select_sock en fs a sv)"
  unfolding select_sock_def
proof (rule yields_bind [OF select_except_yields [OF assms(1-3) small(1) [OF assms(2,4,5)] assms(4)]])
  fix x :: "bool \<times> 'w srv" and ys
  assume x: "select_except en fs a sv = Some x" "live_inv (sv_core (snd x)) (xs @ ys)" "good (snd x)"
  obtain failed sv1 where fx: "x = (failed, sv1)" by (cases x)
  have a: "a \<in> set (xs @ ys)" using assms(3) by simp
  obtain s1 where s1: "heap (sv_core sv1) a = Some s1" using live_heap [OF x(2) a] fx by auto
  have "ok (xs @ ys) sv1 (\<lambda>x. x) (do {
       s \<leftarrow> heap (sv_core sv1) a;
       r \<leftarrow> FD_ISSET (sk_sock_desc s) (read_fds fs);
       (failed, sv) \<leftarrow> fire_if r (read_socket en) a sv1;
       if failed then Some sv
       else do {
         s \<leftarrow> heap (sv_core sv) a;
         r \<leftarrow> FD_ISSET (sk_sock_desc s) (write_fds fs);
         (_, sv) \<leftarrow> (if r then poll_writable en a sv else Some (False, sv));
         Some sv
       } })" if nf: "\<not> failed"
  proof -
    have sk1: "has_flag s1 SVZ_SOFLG_SOCK" using except_stays [OF assms(2) _ assms(4) s1 assms(5)] x(1) fx nf by simp
    have inv1: "live_inv (sv_core sv1) (xs @ ys)" "good sv1" using x fx by simp_all
    have fy: "ok (xs @ ys) sv1 snd (fire_if b (read_socket en) a sv1)" for b
      using inv1 a by (intro fire_if_yields) simp_all
    have "ok (xs @ ys) sv1 (\<lambda>x. x) (do {
       (failed, sv) \<leftarrow> fire_if b (read_socket en) a sv1;
       if failed then Some sv
       else do {
         s \<leftarrow> heap (sv_core sv) a;
         r \<leftarrow> FD_ISSET (sk_sock_desc s) (write_fds fs);
         (_, sv) \<leftarrow> (if r then poll_writable en a sv else Some (False, sv));
         Some sv } })" for b
    proof (rule yields_bind [OF fy])
      fix y :: "bool \<times> 'w srv" and zs
      assume y: "fire_if b (read_socket en) a sv1 = Some y" "live_inv (sv_core (snd y)) ((xs @ ys) @ zs)" "good (snd y)"
      obtain failed2 sv2 where f2: "y = (failed2, sv2)" by (cases y)
      have a2: "a \<in> set ((xs @ ys) @ zs)" using assms(3) by simp
      obtain s2 where s2: "heap (sv_core sv2) a = Some s2" using live_heap [OF y(2) a2] f2 by auto
      have inv2: "live_inv (sv_core sv2) ((xs @ ys) @ zs)" "good sv2" using y f2 by simp_all
      have "in_fd_set (sk_sock_desc s2)" if "\<not> failed2"
        using small(1) [OF inv2(2) s2] fire_stays [of sv1 "read_socket en" b, OF inv1(2) _ _ s1 s2 sk1] y(1) f2 that by simp
      moreover have "ok ((xs @ ys) @ zs) sv2 (\<lambda>x. x) (do { (_, sv) \<leftarrow> (if r then poll_writable en a sv2 else Some (False, sv2)); Some sv })" for r
        using writable_yields [OF inv2 a2] inv2 by (intro drop_yields) (auto intro: yields_ret)
      ultimately show "ok ((xs @ ys) @ zs) (snd y) (\<lambda>x. x) (case y of (failed, sv) \<Rightarrow> if failed then Some sv
         else do {
           s \<leftarrow> heap (sv_core sv) a;
           r \<leftarrow> FD_ISSET (sk_sock_desc s) (write_fds fs);
           (_, sv) \<leftarrow> (if r then poll_writable en a sv else Some (False, sv));
           Some sv })" using f2 s2 inv2 by (auto intro: yields_ret)
    qed
    then show ?thesis using s1 small(1) [OF inv1(2) s1 sk1] by simp
  qed
  then show "ok (xs @ ys) (snd x) (\<lambda>x. x) (case x of (failed, sv) \<Rightarrow> if failed then Some sv
     else do {
       s \<leftarrow> heap (sv_core sv) a;
       r \<leftarrow> FD_ISSET (sk_sock_desc s) (read_fds fs);
       (failed, sv) \<leftarrow> fire_if r (read_socket en) a sv;
       if failed then Some sv
       else do {
         s \<leftarrow> heap (sv_core sv) a;
         r \<leftarrow> FD_ISSET (sk_sock_desc s) (write_fds fs);
         (_, sv) \<leftarrow> (if r then poll_writable en a sv else Some (False, sv));
         Some sv
       } })" using fx x by (cases failed) (auto intro: yields_ret)
qed

lemma select_dispatch_yields:
  assumes "live_inv (sv_core sv) xs" "good sv" "a \<in> set xs"
  shows "ok xs sv (\<lambda>x. x) (select_dispatch en fs a sv)"
proof -
  obtain s where s: "heap (sv_core sv) a = Some s" using live_heap [OF assms(1,3)] by blast
  have fire: "ok xs sv (\<lambda>x. x) (do { (_, sv) \<leftarrow> fire_if b (read_socket en) a sv; Some sv })" for b
    using assms by (intro drop_yields fire_if_yields) simp_all
  have "ok xs sv (\<lambda>x. x) (do {
       sv \<leftarrow> (if has_flag s SVZ_SOFLG_PIPE then select_pipe en fs a sv else Some sv);
       s \<leftarrow> heap (sv_core sv) a;
       if has_flag s SVZ_SOFLG_SOCK then select_sock en fs a sv else Some sv })"
  proof (rule yields_bind [where f = "\<lambda>x. x"])
    show "ok xs sv (\<lambda>x. x) (if has_flag s SVZ_SOFLG_PIPE then select_pipe en fs a sv else Some sv)"
      using select_pipe_yields [OF assms] assms by (auto intro: yields_ret)
    fix sv' :: "'w srv" and ys assume h: "live_inv (sv_core sv') (xs @ ys)" "good sv'"
    have a: "a \<in> set (xs @ ys)" using assms(3) by simp
    show "ok (xs @ ys) sv' (\<lambda>x. x) (do { s \<leftarrow> heap (sv_core sv') a;
        if has_flag s SVZ_SOFLG_SOCK then select_sock en fs a sv' else Some sv' })"
      by (rule heap_yields [OF h(1) a]) (use select_sock_yields [OF h a] h in \<open>auto intro: yields_ret\<close>)
  qed
  then show ?thesis using s fire assms by (auto simp: select_dispatch_def intro: yields_ret)
qed

lemma check_sockets_select_ok:
  assumes "live_inv (sv_core sv) xs" "good sv"
  shows "\<exists>r sv' ys. check_sockets_select en sv = Some (r, sv') \<and> live_inv (sv_core sv') (xs @ ys)
           \<and> good sv' \<and> grows (sv_core sv) (sv_core sv')"
proof -
  let ?fs = "\<lparr>read_fds = {}, write_fds = {}, except_fds = {}, max_fd = 0\<rparr>"
  have w: "list_walker (sv_core \<circ> fst) (select_prepare en) (\<lambda>st. bud (sv_world (fst st))) (both (\<lambda>_ _. True))"
  proof
    fix st :: "'w srv \<times> fdsets" and xs a
    assume h: "live_inv ((sv_core \<circ> fst) st) xs" "both (\<lambda>_ _. True) st" "a \<in> set xs"
    obtain sv fs where "st = (sv, fs)" by (cases st)
    then show "\<exists>st' ys. select_prepare en a st = Some st'
        \<and> step_ok (sv_core \<circ> fst) (\<lambda>st. bud (sv_world (fst st))) (both (\<lambda>_ _. True)) xs st st' ys"
      using select_prepare_yields [of sv xs a fs] h by (simp add: yields_def)
  qed
  obtain sv1 fs1 ys1 where 1: "svz_sock_foreach (sv_core \<circ> fst) (select_prepare en) (sv, ?fs) (svz_sock_root (sv_core sv)) = Some (sv1, fs1)"
      "live_inv (sv_core sv1) (xs @ ys1)" "good sv1" "grows (sv_core sv) (sv_core sv1)"
    using list_walker.foreach_all [OF w, of "(sv, ?fs)" xs] assms by (auto simp: step_ok_def)
  let ?t = "max 0 (svz_notify sv1 - en_time en (sv_world sv1))"
  obtain n ebadf r wr e wd where p: "en_select en (read_fds fs1) (write_fds fs1) (except_fds fs1) (max_fd fs1 + 1) ?t (sv_world sv1)
      = (n, ebadf, (r, wr, e), wd)" by (metis prod.exhaust)
  let ?sv = "sv1\<lparr>sv_world := wd\<rparr>"
  let ?f = "fs1\<lparr>read_fds := r, write_fds := wr, except_fds := e\<rparr>"
  have inv: "live_inv (sv_core ?sv) (xs @ ys1)" "good ?sv" using 1(2) good_same [OF 1(3)] by simp_all
  have unf: "check_sockets_select en sv = (if n < 0
     then do { sv \<leftarrow> (if ebadf then svz_sock_check_bogus en ?sv else Some ?sv); Some (-1, sv) }
     else do {
       sv \<leftarrow> (if n = 0 then svz_periodic_tasks en ?sv else Some ?sv);
       sv \<leftarrow> svz_sock_foreach sv_core (select_dispatch en ?f) sv (svz_sock_root (sv_core sv));
       sv \<leftarrow> overdue en sv;
       Some (0, sv) })"
    unfolding check_sockets_select_def 1(1) by (simp only: bind.bind_lunit prod.case Let_def p)
  show ?thesis
  proof (cases "n < 0")
    case True
    have "ok (xs @ ys1) ?sv (\<lambda>x. x) (if ebadf then svz_sock_check_bogus en ?sv else Some ?sv)"
      using bogus_yields [OF inv] inv by (auto intro: yields_ret)
    from yields_keeps [OF this] obtain sv' zs where "(if ebadf then svz_sock_check_bogus en ?sv else Some ?sv) = Some sv'"
        "live_inv (sv_core sv') ((xs @ ys1) @ zs)" "good sv'" "grows (sv_core ?sv) (sv_core sv')" by blast
    then show ?thesis unfolding unf using True grows_trans [OF 1(4)]
      by (intro exI [of _ "-1"] exI [of _ sv'] exI [of _ "ys1 @ zs"]) simp
  next
    case False
    have "ok (xs @ ys1) ?sv (\<lambda>x. x) (do {
       sv \<leftarrow> (if n = 0 then svz_periodic_tasks en ?sv else Some ?sv);
       sv \<leftarrow> svz_sock_foreach sv_core (select_dispatch en ?f) sv (svz_sock_root (sv_core sv));
       overdue en sv })"
    proof (intro yields_bind [where f = "\<lambda>x. x"] overdue_yields walker select_dispatch_yields)
      show "ok (xs @ ys1) ?sv (\<lambda>x. x) (if n = 0 then svz_periodic_tasks en ?sv else Some ?sv)"
        using periodic_yields [OF inv] inv by (auto intro: yields_ret)
    qed
    from yields_keeps [OF this] obtain sv' zs where sv': "do {
       sv \<leftarrow> (if n = 0 then svz_periodic_tasks en ?sv else Some ?sv);
       sv \<leftarrow> svz_sock_foreach sv_core (select_dispatch en ?f) sv (svz_sock_root (sv_core sv));
       overdue en sv } = Some sv'"
        "live_inv (sv_core sv') ((xs @ ys1) @ zs)" "good sv'" "grows (sv_core ?sv) (sv_core sv')" by blast
    have "check_sockets_select en sv = Some (0, sv')"
      unfolding unf bind3_map using False sv'(1) by simp
    then show ?thesis using sv'(2-4) grows_trans [OF 1(4)]
      by (intro exI [of _ 0] exI [of _ sv'] exI [of _ "ys1 @ zs"]) simp
  qed
qed

end

subsection \<open>TCP servers\<close>

text \<open>
  The environment of a server whose sockets use the TCP callbacks: \<open>sock_hook\<close> runs a callback of
  \<open>Svz_Socket\<close> on the socket in the heap. What the callbacks need is that the buffers are
  well-formed, which is kept by everything the loop does.
\<close>

definition sock_hook :: "'w sock_cb \<Rightarrow> 'w hook" where
  "sock_hook f a sv = Some (do {
     s \<leftarrow> heap (sv_core sv) a;
     (r, s, w) \<leftarrow> f s (sv_world sv);
     Some (r, sv\<lparr>sv_core := (sv_core sv)\<lparr>heap := (heap (sv_core sv))(a \<mapsto> s)\<rparr>, sv_world := w\<rparr>)
   })"

definition bufs_ok :: "svz_socket \<Rightarrow> bool" where
  "bufs_ok s \<longleftrightarrow> (\<exists>p. send_rep s p) \<and> (\<exists>g. recv_rep s g)"

definition all_bufs :: "'w srv \<Rightarrow> bool" where
  "all_bufs sv \<longleftrightarrow> (\<forall>a s. heap (sv_core sv) a = Some s \<longrightarrow> bufs_ok s)"

definition tcp_good :: "'w srv \<Rightarrow> bool" where
  "tcp_good sv \<longleftrightarrow> all_bufs sv \<and> small_fds sv"

text \<open>The contract of such a callback: it works on the buffers of its socket.\<close>

definition same_sock :: "svz_socket \<Rightarrow> svz_socket \<Rightarrow> bool" where
  "same_sock s s' \<longleftrightarrow> vitals s' = vitals s \<and> sk_flags s' = sk_flags s
     \<and> sk_sock_desc s' = sk_sock_desc s \<and> sk_pipe_read s' = sk_pipe_read s \<and> sk_pipe_write s' = sk_pipe_write s"

definition local_cb :: "'w sock_cb \<Rightarrow> bool" where
  "local_cb f \<longleftrightarrow> (\<forall>s w. bufs_ok s \<longrightarrow> (\<exists>r s' w'. f s w = Some (r, s', w') \<and> same_sock s s' \<and> bufs_ok s'))"

lemma same_sock_cong:
  "sk_next t = sk_next s \<Longrightarrow> sk_prev t = sk_prev s \<Longrightarrow> sk_id t = sk_id s \<Longrightarrow> sk_version t = sk_version s \<Longrightarrow>
   sk_flags t = sk_flags s \<Longrightarrow> sk_sock_desc t = sk_sock_desc s \<Longrightarrow> sk_pipe_read t = sk_pipe_read s \<Longrightarrow>
   sk_pipe_write t = sk_pipe_write s \<Longrightarrow> same_sock s t"
  by (simp add: same_sock_def vitals_cong [of t s])

lemma same_sock_trans: "same_sock s t \<Longrightarrow> same_sock t u \<Longrightarrow> same_sock s u"
  by (simp add: same_sock_def)

lemma sock_hook_yields:
  assumes "local_cb f" "sock_hook f a sv = Some m" "live_inv (sv_core sv) xs" "tcp_good sv" "a \<in> set xs"
  shows "yields sv_core (\<lambda>sv. 0) tcp_good xs sv snd m"
proof -
  obtain s where s: "heap (sv_core sv) a = Some s" using live_heap [OF assms(3,5)] by blast
  have "bufs_ok s" using assms(4) s by (simp add: tcp_good_def all_bufs_def)
  then obtain r s' w' where f: "f s (sv_world sv) = Some (r, s', w')" "same_sock s s'" "bufs_ok s'"
    using assms(1) unfolding local_cb_def by blast
  let ?c = "(sv_core sv)\<lparr>heap := (heap (sv_core sv))(a \<mapsto> s')\<rparr>"
  let ?sv = "sv\<lparr>sv_core := ?c, sv_world := w'\<rparr>"
  have m: "m = Some (r, ?sv)" using assms(2) s f(1) by (simp add: sock_hook_def)
  have q: "quiet A (sv_core sv) ?c" for A using s f(2) by (simp add: quiet_def same_sock_def)
  have "live_inv ?c xs" using assms(3) quiet_inv [OF _ q] quiet_views [OF q UNIV_I] by (simp add: live_inv_def)
  moreover have "grows (sv_core sv) ?c" using quiet_views [OF q UNIV_I] by (simp add: grows_def)
  moreover have "all_bufs ?sv" using assms(4) f(3) by (simp add: tcp_good_def all_bufs_def)
  moreover have "small_fds ?sv" using assms(4) f(2) s unfolding small_fds_def tcp_good_def
    by (auto simp: same_sock_def has_flag_def)
  ultimately show ?thesis unfolding m yields_def step_ok_def by (auto simp: tcp_good_def)
qed

lemma tcp_write_frame:
  assumes "svz_tcp_write_socket os s w = Some (r, s', w')"
  shows "same_sock s s'" "recv_rep s' g = recv_rep s g"
  using assms
  by (auto simp: svz_tcp_write_socket_def svz_sock_reduce_send_def svz_wait_if_unavailable_def Let_def recv_rep_def
      intro!: same_sock_cong split: prod.splits if_splits bind_splits)

lemma tcp_write_local:
  assumes "posix_send os wire"
  shows "local_cb (svz_tcp_write_socket os)"
  unfolding local_cb_def
proof (intro allI impI)
  fix s w assume "bufs_ok s"
  then obtain p g where p: "send_rep s p" "recv_rep s g" by (auto simp: bufs_ok_def)
  obtain r s' w' k where s': "svz_tcp_write_socket os s w = Some (r, s', w')" "send_rep s' (drop k p)"
    using svz_tcp_write_socket_eq [OF assms p(1)] by blast
  then show "\<exists>r s' w'. svz_tcp_write_socket os s w = Some (r, s', w') \<and> same_sock s s' \<and> bufs_ok s'"
    using tcp_write_frame [OF s'(1)] p(2) by (auto simp: bufs_ok_def)
qed

lemma flood_shape: "\<exists>k fl. svz_sock_flood_protect None s n w = (k, s\<lparr>sk_flood_points := fl\<rparr>, w)"
proof (cases "has_flag s SVZ_SOFLG_NOFLOOD")
  case True
  then show ?thesis by (intro exI [of _ 0] exI [of _ "sk_flood_points s"]) (simp add: svz_sock_flood_protect_def)
next
  case False
  let ?p = "sk_flood_points s + (1 + sgn n * (\<bar>n\<bar> div 50))"
  show ?thesis using False
    by (intro exI [of _ "if ?p > sk_flood_limit s then -1 else 0"] exI [of _ ?p])
      (simp add: svz_sock_flood_protect_def kick_def Let_def)
qed

lemma tcp_read_local:
  assumes "posix_recv os" "local_cb cr"
  shows "local_cb (svz_tcp_read_socket os cr None)"
  unfolding local_cb_def
proof (intro allI impI)
  fix s w assume "bufs_ok s"
  then obtain p g where p: "send_rep s p" "recv_rep s g" by (auto simp: bufs_ok_def)
  have b: "buf_rep (sk_recv_buffer s) (sk_recv_buffer_size s) (sk_recv_buffer_fill s) g" using p(2) by (simp add: recv_rep_def)
  let ?d = "sk_recv_buffer_size s - sk_recv_buffer_fill s"
  obtain n bytes w1 where rcv: "os_recv os (sk_sock_desc s) (nat ?d) w = ((n, bytes), w1)" by (metis prod.exhaust)
  have n: "n \<le> int (nat ?d)" "0 < n \<Longrightarrow> length bytes = nat n"
    using assms(1) rcv unfolding posix_recv_def by (metis fst_conv, metis fst_conv snd_conv)
  show "\<exists>r s' w'. svz_tcp_read_socket os cr None s w = Some (r, s', w') \<and> same_sock s s' \<and> bufs_ok s'"
  proof (cases "?d \<le> 0 \<or> n \<le> 0")
    case True
    then show ?thesis using rcv \<open>bufs_ok s\<close> by (auto simp: svz_tcp_read_socket_def kick_def Let_def same_sock_def)
  next
    case False
    then obtain xs where xs: "buf_write (sk_recv_buffer s) (sk_recv_buffer_fill s) bytes = Some xs"
        "buf_rep (Some xs) (sk_recv_buffer_size s) (sk_recv_buffer_fill s + n) (g @ bytes)"
      using buf_write_rep [OF b, of bytes] n buf_rep_length [OF b] by auto
    have keep: "buf_rep (Some xs) (sk_recv_buffer_size s) (sk_recv_buffer_fill s) g"
      using xs(2) holds_take [of xs "g @ bytes" "length g"] buf_rep_length [OF b] by (auto simp: buf_rep_def)
    let ?s = "s\<lparr>sk_recv_buffer := Some xs, sk_last_recv := os_time os w1\<rparr>"
    obtain k fl where fl: "svz_sock_flood_protect None ?s n w1 = (k, ?s\<lparr>sk_flood_points := fl\<rparr>, w1)"
      using flood_shape [of ?s n w1] by (elim exE) (rule that)
    let ?t = "?s\<lparr>sk_flood_points := fl, sk_recv_buffer_fill := sk_recv_buffer_fill s + n\<rparr>"
    have vt: "same_sock s ?t" "same_sock s (?s\<lparr>sk_flood_points := fl\<rparr>)" by (rule same_sock_cong; simp)+
    have bt: "bufs_ok ?t" "bufs_ok (?s\<lparr>sk_flood_points := fl\<rparr>)"
      using p(1) xs(2) keep by (auto simp: bufs_ok_def send_rep_def recv_rep_def)
    have run: "svz_tcp_read_socket os cr None s w = (if k \<noteq> 0 then Some (-1, ?s\<lparr>sk_flood_points := fl\<rparr>, w1)
        else if sk_check_request s \<noteq> CR_NULL then cr ?t w1 else Some (0, ?t, w1))"
      using False rcv xs(1) fl by (simp add: svz_tcp_read_socket_def Let_def)
    obtain r s' w' where "cr ?t w1 = Some (r, s', w')" "same_sock ?t s'" "bufs_ok s'"
      using assms(2) bt(1) unfolding local_cb_def by blast
    then show ?thesis using run vt bt same_sock_trans [OF vt(1)] by auto
  qed
qed

text \<open>A request checker that discards what has been received.\<close>

definition discard :: "'w sock_cb" where
  "discard s w = do { s \<leftarrow> svz_sock_reduce_recv s (sk_recv_buffer_fill s); Some (0, s, w) }"

lemma discard_local: "local_cb discard"
  unfolding local_cb_def
proof (intro allI impI)
  fix s w assume "bufs_ok s"
  then obtain p g where p: "send_rep s p" "recv_rep s g" by (auto simp: bufs_ok_def)
  have b: "buf_rep (sk_recv_buffer s) (sk_recv_buffer_size s) (sk_recv_buffer_fill s) g" using p(2) by (simp add: recv_rep_def)
  obtain xs where xs: "sk_recv_buffer s = Some xs" using b by (auto simp: buf_rep_def)
  let ?t = "s\<lparr>sk_recv_buffer_fill := 0\<rparr>"
  have "discard s w = Some (0, ?t, w)" by (simp add: discard_def svz_sock_reduce_recv_def)
  moreover have "same_sock s ?t" by (rule same_sock_cong) simp_all
  moreover have "bufs_ok ?t" using p(1) b by (auto simp: bufs_ok_def send_rep_def recv_rep_def buf_rep_def intro: exI [of _ "[]"])
  ultimately show "\<exists>r s' w'. discard s w = Some (r, s', w') \<and> same_sock s s' \<and> bufs_ok s'" by auto
qed

definition tcp_env :: "'w os \<Rightarrow> 'w sock_cb \<Rightarrow> ('w \<Rightarrow> int list \<times> 'w) \<Rightarrow>
    (pollfd list \<Rightarrow> int \<Rightarrow> 'w \<Rightarrow> int \<times> bool \<times> u16w list \<times> 'w) \<Rightarrow> 'w env" where
  "tcp_env os cr sigs poll = \<lparr>
     read_socket = sock_hook (svz_tcp_read_socket os cr None), write_socket = sock_hook (svz_tcp_write_socket os),
     read_socket_oob = (\<lambda>_ _. None), connected_socket = (\<lambda>_ _. None), idle_func = (\<lambda>_ _. None), child_died = (\<lambda>_ _. None),
     trigger_cond = (\<lambda>_ _. None), trigger_func = (\<lambda>_ _. None), disconnected_socket = (\<lambda>_. Some),
     svz_coserver_check = Some, svz_interface_check = Some, server_notify = [], server_reset = [],
     en_time = os_time os, en_fcntl = (\<lambda>_ _. 0), en_poll = poll,
     en_select = (\<lambda>_ _ _ _ _ w. (0, False, ({}, {}, {}), w)), en_waitpid = (\<lambda>_ w. (-1, False, w)), en_signals = sigs\<rparr>"

lemma tcp_good_sub:
  assumes "tcp_good sv" "sub_io {} (sv_core sv) (sv_core sv')"
  shows "tcp_good sv'"
proof -
  have "\<exists>s. heap (sv_core sv) a = Some s \<and> ioview s' = ioview s" if "heap (sv_core sv') a = Some s'" for a s'
    using assms(2) that by (simp add: sub_io_def)
  then show ?thesis using assms(1) unfolding tcp_good_def all_bufs_def small_fds_def
    by (fastforce simp: bufs_ok_def send_rep_def recv_rep_def ioview_def)
qed

lemma tcp_server_env:
  assumes "posix_send os wire" "posix_recv os" "local_cb cr"
  shows "server_env (tcp_env os cr sigs poll) (\<lambda>_. 0) tcp_good"
proof (unfold_locales, goal_cases)
  case (1 h a sv m xs)
  then show ?case using sock_hook_yields [OF tcp_write_local [OF assms(1)]] sock_hook_yields [OF tcp_read_local [OF assms(2,3)]]
    by (auto simp: tcp_env_def)
next
  case (5 sv sv')
  then show ?case by (rule tcp_good_sub)
qed (auto simp: tcp_env_def disc_ok_def intro: yields_ret)

lemma tcp_select_env:
  assumes "posix_send os wire" "posix_recv os" "local_cb cr"
  shows "select_env (tcp_env os cr sigs poll) (\<lambda>_. 0) tcp_good"
proof (rule select_env.intro [OF tcp_server_env [OF assms]], rule select_env_axioms.intro)
  fix sv :: "'a srv" assume "tcp_good sv"
  then show "small_fds sv" by (simp add: tcp_good_def)
next
  fix sv :: "'a srv" and h a r sv' s s'
  assume g: "tcp_good sv" and h: "h \<in> {read_socket (tcp_env os cr sigs poll), read_socket_oob (tcp_env os cr sigs poll)}"
    "h a sv = Some (Some (r, sv'))" and s: "heap (sv_core sv) a = Some s" "heap (sv_core sv') a = Some s'" "has_flag s SVZ_SOFLG_SOCK"
  have hk: "sock_hook (svz_tcp_read_socket os cr None) a sv = Some (Some (r, sv'))" using h by (auto simp: tcp_env_def)
  have "bufs_ok s" using g s(1) by (simp add: tcp_good_def all_bufs_def)
  then obtain v t w where "svz_tcp_read_socket os cr None s (sv_world sv) = Some (v, t, w)" "same_sock s t"
    using tcp_read_local [OF assms(2,3)] unfolding local_cb_def by blast
  then have "same_sock s s'" using hk s(1,2) by (auto simp: sock_hook_def)
  then show "has_flag s' SVZ_SOFLG_SOCK" using s(3) by (simp add: same_sock_def has_flag_def)
qed

text \<open>A system that delivers SIGTERM at once.\<close>

definition term_env :: "mem env" where
  "term_env = tcp_env slow_os discard (\<lambda>w. ([SIGTERM], w)) (\<lambda>fds t w. (0, False, map (\<lambda>_. 0) fds, w))"

lemmas slow_callbacks = posix_send_slow_os posix_recv_slow_os discard_local

interpretation tcp: select_env term_env "\<lambda>_. 0" tcp_good
  unfolding term_env_def by (rule tcp_select_env [OF slow_callbacks])

subsection \<open>Properties of the server loop\<close>

lemma rounds_Suc_right:
  "rounds en (Suc n) st = Option.bind (rounds en n st)
     (\<lambda>st. if svz_nuke_happened (snd st) \<noteq> 0 then Some st else do { st \<leftarrow> svz_loop_one en st; Some (apsnd (deliver en) st) })"
proof (induction n arbitrary: st)
  case 0
  then show ?case by (auto split: bind_splits)
next
  case (Suc n)
  show ?case
  proof (cases "svz_nuke_happened (snd st) \<noteq> 0")
    case False
    have "rounds en (Suc (Suc n)) st = do { st \<leftarrow> svz_loop_one en st; rounds en (Suc n) (apsnd (deliver en) st) }"
      by (subst rounds.simps(2)) (use False in simp)
    also have "\<dots> = Option.bind (svz_loop_one en st) (\<lambda>st. Option.bind (rounds en n (apsnd (deliver en) st))
        (\<lambda>st. if svz_nuke_happened (snd st) \<noteq> 0 then Some st else do { st \<leftarrow> svz_loop_one en st; Some (apsnd (deliver en) st) }))"
      unfolding Suc.IH ..
    also have "\<dots> = Option.bind (rounds en (Suc n) st)
        (\<lambda>st. if svz_nuke_happened (snd st) \<noteq> 0 then Some st else do { st \<leftarrow> svz_loop_one en st; Some (apsnd (deliver en) st) })"
      using False by (simp add: Option.bind_assoc)
    finally show ?thesis .
  qed simp
qed

lemma deliver_nuke:
  assumes "set (fst (en_signals en (sv_world sv))) \<inter> {SIGTERM, SIGINT, SIGQUIT} \<noteq> {}"
  shows "svz_nuke_happened (deliver en sv) \<noteq> 0"
proof -
  have stay: "svz_nuke_happened (handle_signal en sig sv) \<noteq> 0" if "svz_nuke_happened sv \<noteq> 0" for sig sv
    using that by (simp add: handle_signal_def Let_def split: prod.splits)
  have set: "svz_nuke_happened (handle_signal en sig sv) \<noteq> 0" if "sig \<in> {SIGTERM, SIGINT, SIGQUIT}" for sig sv
    using that by (auto simp: handle_signal_def Let_def SIGTERM_def SIGINT_def SIGQUIT_def SIGHUP_def SIGPIPE_def SIGCHLD_def)
  have "svz_nuke_happened (fold (handle_signal en) sigs sv) \<noteq> 0"
    if "svz_nuke_happened sv \<noteq> 0 \<or> set sigs \<inter> {SIGTERM, SIGINT, SIGQUIT} \<noteq> {}" for sigs sv
    using that
  proof (induction sigs arbitrary: sv)
    case (Cons sig sigs)
    then have "svz_nuke_happened (handle_signal en sig sv) \<noteq> 0 \<or> set sigs \<inter> {SIGTERM, SIGINT, SIGQUIT} \<noteq> {}"
      using stay [of sv sig] set [of sig sv] by auto
    then show ?case using Cons.IH by simp
  qed simp
  then show ?thesis using assms by (auto simp: deliver_def split: prod.splits)
qed

text \<open>
  C9. One pass over the sockets with \<^verbatim>\<open>poll\<close> is memory safe and returns: whatever the callbacks do within
  their contract and whatever \<^verbatim>\<open>poll\<close> reports, no freed socket and no array element out of bounds is
  touched, the list stays consistent (sockets are only appended) and no killed socket is revived.
\<close>

theorem poll_pass_safe:
  assumes "server_env en bud good" and "live_inv (sv_core sv) xs" and "good sv" and "length (sfds ps) = length (ufds ps)"
  shows "\<exists>r ps' sv' ys. check_sockets_poll en ps sv = Some (r, ps', sv') \<and> live_inv (sv_core sv') (xs @ ys)
           \<and> good sv' \<and> grows (sv_core sv) (sv_core sv') \<and> length (sfds ps') = length (ufds ps')"
  by (rule server_env.check_sockets_poll_ok [OF assms])

text \<open>
  C10. The same for \<^verbatim>\<open>select\<close>, provided that all descriptors are below \<^verbatim>\<open>FD_SETSIZE\<close>.
\<close>

theorem select_pass_safe:
  assumes "select_env en bud good" and "live_inv (sv_core sv) xs" and "good sv"
  shows "\<exists>r sv' ys. check_sockets_select en sv = Some (r, sv') \<and> live_inv (sv_core sv') (xs @ ys)
           \<and> good sv' \<and> grows (sv_core sv) (sv_core sv')"
  by (rule select_env.check_sockets_select_ok [OF assms])

text \<open>
  What \<^verbatim>\<open>check_sockets_poll\<close> asks for: a pipe is polled for writing when output is queued and for
  reading when there is room, each with an entry of its own; a socket gets one entry with both
  requests, none for reading while it connects and none for writing while it is unavailable; the
  static arrays grow by what is needed and hold nothing of earlier calls.
\<close>

theorem poll_requests_exact:
  assumes "length (sfds ps) = length (ufds ps)" and "(FD_POLL_CLR ps)\<lparr>nfds := 0\<rparr> = ps0"
  shows "\<exists>ps1 ps2 k. poll_pipe s a ps0 = Some ps1 \<and> poll_sock t b ps1 = Some ps2 \<and> polls_rep ps2 (pipe_wants s a @ sock_wants t b) k"
proof -
  have "polls_rep ps0 [] (length (ufds ps))" using poll_clear_rep [OF assms(1)] assms(2) by simp
  then show ?thesis using poll_pipe_rep [of ps0 "[]" _ s a] poll_sock_rep [of _ "pipe_wants s a" _ t b] by fastforce
qed

theorem poll_requests_exact_witness:
  "\<exists>ps1 ps2 k. poll_pipe ex_child 6 \<lparr>ufds = [], sfds = [], nfds = 0\<rparr> = Some ps1 \<and> poll_sock ex_child 6 ps1 = Some ps2
     \<and> polls_rep ps2 [(\<lparr>pf_fd = 4, pf_events = POLLIN OR POLLPRI\<rparr>, 6)] k"
proof -
  have "pipe_wants ex_child 6 @ sock_wants ex_child 6 = [(\<lparr>pf_fd = 4, pf_events = POLLIN OR POLLPRI\<rparr>, 6)]"
    by (simp add: pipe_wants_def sock_wants_def ex_child_def svz_sock_alloc_def has_flag_def soflg_defs SOCK_READABLE_def
        SVZ_SOFLG_NOOVERFLOW_def POLLIN_def POLLPRI_def)
  then show ?thesis
    using poll_requests_exact [of "\<lparr>ufds = [], sfds = [], nfds = 3\<rparr>" "\<lparr>ufds = [], sfds = [], nfds = 0\<rparr>" ex_child 6 ex_child 6]
    by (simp add: FD_POLL_CLR_def)
qed

text \<open>
  When a socket is reported ready: a killed socket gets no callback at all; when its read callback
  fails it is scheduled for shutdown and neither the write callback nor the error handling runs;
  and an error condition alone schedules it.
\<close>

theorem poll_dispatch_order:
  assumes "heap (sv_core sv) a = Some s"
  shows "(has_flag s SVZ_SOFLG_KILLED \<longrightarrow> poll_dispatch en r a sv = Some sv)
    \<and> (\<not> has_flag s SVZ_SOFLG_KILLED \<longrightarrow> r AND POLLPRI = 0 \<longrightarrow> r AND POLLIN \<noteq> 0 \<longrightarrow> v \<noteq> 0 \<longrightarrow>
         read_socket en a sv = Some (Some (v, sv1)) \<longrightarrow>
         poll_dispatch en r a sv = with_core (\<lambda>c. svz_sock_schedule_for_shutdown c a) sv1)
    \<and> (\<not> has_flag s SVZ_SOFLG_KILLED \<longrightarrow> r = POLLHUP \<longrightarrow> has_flag s SVZ_SOFLG_SOCK \<longrightarrow> \<not> has_flag s SVZ_SOFLG_PIPE \<longrightarrow>
         poll_dispatch en r a sv = with_core (\<lambda>c. svz_sock_schedule_for_shutdown c a) sv)"
proof (intro conjI impI)
  assume "has_flag s SVZ_SOFLG_KILLED"
  then show "poll_dispatch en r a sv = Some sv" using assms by (simp add: poll_dispatch_def)
next
  assume h: "\<not> has_flag s SVZ_SOFLG_KILLED" "r AND POLLPRI = 0" "r AND POLLIN \<noteq> 0" "v \<noteq> 0" "read_socket en a sv = Some (Some (v, sv1))"
  have "fire (read_socket en) a sv = do { sv \<leftarrow> with_core (\<lambda>c. svz_sock_schedule_for_shutdown c a) sv1; Some (True, sv) }"
    using h(4,5) by (simp add: fire_def run_hook_def)
  then show "poll_dispatch en r a sv = with_core (\<lambda>c. svz_sock_schedule_for_shutdown c a) sv1"
    using h(1-3) assms by (cases "with_core (\<lambda>c. svz_sock_schedule_for_shutdown c a) sv1") (simp_all add: poll_dispatch_def fire_if_def)
next
  assume h: "\<not> has_flag s SVZ_SOFLG_KILLED" "r = POLLHUP" "has_flag s SVZ_SOFLG_SOCK" "\<not> has_flag s SVZ_SOFLG_PIPE"
  have "sk_flags s AND SVZ_SOFLG_RECV_PIPE = 0" "sk_flags s AND SVZ_SOFLG_SEND_PIPE = 0"
    using h(4) by (simp_all add: has_flag_def SVZ_SOFLG_PIPE_def bit.conj_disj_distrib or_eq_0_iff)
  then have "poll_error a sv = with_core (\<lambda>c. svz_sock_schedule_for_shutdown c a) sv"
    using assms h(3) by (cases "with_core (\<lambda>c. svz_sock_schedule_for_shutdown c a) sv") (simp_all add: poll_error_def schedule_if_def has_flag_def)
  then show "poll_dispatch en r a sv = with_core (\<lambda>c. svz_sock_schedule_for_shutdown c a) sv"
    using h(1,2) assms by (simp add: poll_dispatch_def fire_if_def POLLHUP_def POLLPRI_def POLLIN_def POLLOUT_def POLLERR_def POLLNVAL_def)
qed

text \<open>
  C5. The server loop never gets stuck: after any number of iterations of \<^verbatim>\<open>svz_loop_one\<close>, each with its
  consistency check, polling, child check, reordering and sweep, the list is consistent; and what is
  killed when an iteration starts is freed when it ends.
\<close>

theorem loop_iterations_safe:
  assumes "server_env en bud good" and "live_inv (sv_core sv) xs" and "good sv" and "length (sfds ps) = length (ufds ps)"
  shows "(\<exists>ps' sv' zs. rounds en n (ps, sv) = Some (ps', sv') \<and> live_inv (sv_core sv') zs)
    \<and> (\<exists>ps' sv' zs. svz_loop_one en (ps, sv) = Some (ps', sv') \<and> live_inv (sv_core sv') zs
         \<and> (\<forall>b \<in> set xs. killed (sv_core sv) b \<longrightarrow> heap (sv_core sv') b = None))"
  using server_env.rounds_ok [OF assms, of n] server_env.loop_one_ok [OF assms] by blast


text \<open>The example server of \<open>Svz_Reach\<close> with TCP callbacks.\<close>

definition ex_srv :: "mem srv" where
  "ex_srv = \<lparr>sv_core = ex_core, sv_world = [], svz_nuke_happened = 0, reset_happened = 0, pipe_broke = 0, svz_child_died = 0,
     uncaught_signal = -1, signo = -1, svz_notify = 0, rechain = 0\<rparr>"

definition ex_polls :: polls where
  "ex_polls = \<lparr>ufds = [], sfds = [], nfds = 0\<rparr>"

lemma ex_srv_ok: "live_inv (sv_core ex_srv) [5, 6]" "tcp_good ex_srv" "length (sfds ex_polls) = length (ufds ex_polls)"
proof -
  show "live_inv (sv_core ex_srv) [5, 6]" using ex_inv ex_valid by (simp add: ex_srv_def live_inv_def)
  have "bufs_ok s" if "sk_send_buffer s = sk_send_buffer (svz_sock_alloc 0)" "sk_recv_buffer s = sk_recv_buffer (svz_sock_alloc 0)"
      "sk_send_buffer_size s = SEND_BUF_SIZE" "sk_recv_buffer_size s = RECV_BUF_SIZE" "sk_send_buffer_fill s = 0" "sk_recv_buffer_fill s = 0" for s
    using that svz_sock_alloc_rep [of 0] unfolding bufs_ok_def send_rep_def recv_rep_def
    by (intro conjI exI [of _ "[]"]) (simp_all add: svz_sock_alloc_def)
  then have "all_bufs ex_srv" unfolding all_bufs_def ex_srv_def by (simp add: ex_defs ex_eval)
  moreover have "small_fds ex_srv" unfolding small_fds_def ex_srv_def by (simp add: ex_defs ex_eval in_fd_set_def FD_SETSIZE_def)
  ultimately show "tcp_good ex_srv" by (simp add: tcp_good_def)
  show "length (sfds ex_polls) = length (ufds ex_polls)" by (simp add: ex_polls_def)
qed

theorem poll_pass_safe_witness:
  "\<exists>r ps' sv' ys. check_sockets_poll term_env ex_polls ex_srv = Some (r, ps', sv') \<and> live_inv (sv_core sv') ([5, 6] @ ys)"
  using poll_pass_safe [OF tcp.server_env_axioms ex_srv_ok] by blast

theorem select_pass_safe_witness:
  "\<exists>r sv' ys. check_sockets_select term_env ex_srv = Some (r, sv') \<and> live_inv (sv_core sv') ([5, 6] @ ys)"
  using select_pass_safe [OF tcp.select_env_axioms ex_srv_ok(1,2)] by blast

theorem loop_iterations_safe_witness:
  "\<exists>ps' sv' zs. rounds term_env 7 (ex_polls, ex_srv) = Some (ps', sv') \<and> live_inv (sv_core sv') zs"
  using loop_iterations_safe [OF tcp.server_env_axioms ex_srv_ok] by blast


theorem poll_dispatch_order_witness:
  "poll_dispatch term_env POLLHUP 6 ex_srv = with_core (\<lambda>c. svz_sock_schedule_for_shutdown c 6) ex_srv"
proof -
  obtain s where "heap (sv_core ex_srv) 6 = Some s" "\<not> has_flag s SVZ_SOFLG_KILLED" "has_flag s SVZ_SOFLG_SOCK" "\<not> has_flag s SVZ_SOFLG_PIPE"
    by (auto simp: ex_srv_def ex_defs ex_eval)
  then show ?thesis using poll_dispatch_order [of ex_srv 6 s term_env POLLHUP] by blast
qed

end
