(* ===== verification/Svz_Datagram.thy ===== *)
theory Svz_Datagram
  imports Svz_Socket
begin

text \<open>
  Packet sockets: \<^verbatim>\<open>src/libserveez/udp-socket.c\<close>, \<^verbatim>\<open>icmp-socket.c\<close> and \<^verbatim>\<open>raw-socket.c\<close>.

  The send queue of a packet socket is a sequence of frames, each a length, a destination address and
  port, and the packet; \<open>frame_bytes\<close> is that encoding, and the writing callbacks are specified
  on the queue of frames. The byte order of the machine is little-endian. Addresses and ports are
  kept in network byte order, as the code does. The ICMP routines share one static buffer of
  \<open>ICMP_BUFFER_SIZE\<close> bytes, a byte list that the functions take and return. \<^verbatim>\<open>sendto\<close>,
  \<^verbatim>\<open>recvfrom\<close>, \<^verbatim>\<open>getpid\<close>, the clock and the access lists are parameters.
\<close>

subsection \<open>The checksum\<close>

text \<open>The sum of the 16-bit words, in an \<^verbatim>\<open>unsigned\<close>.\<close>

fun checksum_loop :: "mem \<Rightarrow> u32 \<Rightarrow> u32" where
  "checksum_loop (a # b # rest) c = checksum_loop rest (c + (ucast a OR push_bit 8 (ucast b)))"
| "checksum_loop [a] c = c + ucast a"
| "checksum_loop [] c = c"

lemma unat_low16: "unat (c AND 0xffff :: u32) = unat c mod 65536"
proof -
  have "unat (c AND 0xffff) = unat c AND unat (0xffff :: u32)" by (rule unsigned_and_eq)
  also have "\<dots> = take_bit 16 (unat c)" by (simp add: take_bit_eq_mask mask_eq_exp_minus_1)
  finally show ?thesis by (simp add: take_bit_eq_mod)
qed

lemma unat_high16: "unat (drop_bit 16 c :: u32) = unat c div 65536"
  by (simp add: drop_bit_eq_div unat_div_distrib)

lemma fold_value: "unat ((c AND 0xffff) + drop_bit 16 c :: u32) = unat c mod 65536 + unat c div 65536"
proof -
  have "unat c < 2 ^ 32" using unat_bound [of c] by simp
  then have "unat (c AND 0xffff) + unat (drop_bit 16 c) < 2 ^ LENGTH(32)" unfolding unat_low16 unat_high16 by simp
  then show ?thesis using unat_add_lem [of "c AND 0xffff" "drop_bit 16 c"] by (simp only: unat_low16 unat_high16)
qed

lemma shift_pos: "(drop_bit 16 c :: u32) \<noteq> 0 \<longleftrightarrow> 65536 \<le> unat c"
  using unat_high16 [of c] unat_eq_0 [of "drop_bit 16 c"] by auto

lemma fold_less: "65536 \<le> (n :: nat) \<Longrightarrow> n mod 65536 + n div 65536 < n"
proof -
  assume n: "65536 \<le> n"
  then have "0 < n div 65536" by (simp add: div_greater_zero_iff)
  then have "n div 65536 < n div 65536 * 65536" by linarith
  then show ?thesis using div_mult_mod_eq [of n 65536] by linarith
qed

function fold_loop :: "u32 \<Rightarrow> u32" where
  "fold_loop c = (if drop_bit 16 c \<noteq> 0 then fold_loop ((c AND 0xffff) + drop_bit 16 c) else c)"
  by pat_completeness auto
termination
proof (relation "measure unat")
  fix c :: u32 assume "drop_bit 16 c \<noteq> 0"
  then have "65536 \<le> unat c" by (simp only: shift_pos)
  from fold_less [OF this] show "((c AND 0xffff) + drop_bit 16 c, c) \<in> measure unat" by (simp only: in_measure fold_value)
qed simp

declare fold_loop.simps [simp del]

definition svz_raw_ip_checksum :: "mem \<Rightarrow> u16" where
  "svz_raw_ip_checksum data = htons (ucast (NOT (fold_loop (checksum_loop data 0))))"

text \<open>The sum as a number.\<close>

fun words_sum :: "mem \<Rightarrow> nat" where
  "words_sum (a # b # rest) = unat a + 256 * unat b + words_sum rest"
| "words_sum [a] = unat a"
| "words_sum [] = 0"

lemma fold_loop_spec: "unat (fold_loop c) < 65536 \<and> unat (fold_loop c) mod 65535 = unat c mod 65535"
proof (induction c rule: fold_loop.induct)
  case (1 c)
  show ?case
  proof (cases "drop_bit 16 c \<noteq> 0")
    case True
    have "(unat c mod 65536 + unat c div 65536) mod 65535 = unat c mod 65535"
    proof -
      have "unat c = unat c mod 65536 + unat c div 65536 + 65535 * (unat c div 65536)"
        using div_mult_mod_eq [of "unat c" 65536] by linarith
      then show ?thesis by (metis mod_mult_self2)
    qed
    then show ?thesis using 1 [OF True] True by (subst (1 2) fold_loop.simps) (simp only: fold_value if_True simp_thms)
  next
    case False
    then have "fold_loop c = c" by (subst fold_loop.simps) (simp only: if_False)
    moreover have "unat c < 65536" using False shift_pos [of c] by (meson not_le)
    ultimately show ?thesis by simp
  qed
qed

lemma unat_byte_u32: "unat (ucast a :: u32) = unat (a :: byte)"
proof -
  have "unat a < 2 ^ 32" using unat_bound [of a] by simp
  then show ?thesis by (simp add: unsigned_ucast_eq take_bit_nat_eq_self)
qed

lemma word_pair: "unat (ucast a OR push_bit 8 (ucast b) :: u32) = unat (a :: byte) + 256 * unat (b :: byte)"
proof -
  have "(ucast a :: u32) AND push_bit 8 (ucast b) = 0"
    by (rule bit_word_eqI) (auto simp: bit_simps dest: bit_imp_le_length)
  then have or: "(ucast a :: u32) OR push_bit 8 (ucast b) = ucast a + push_bit 8 (ucast b)"
    by (simp add: disjunctive_add_eq_or)
  note a = unat_byte_u32 [of a]
  have ub: "unat a < 256" "unat b < 256" using unat_bound [of a] unat_bound [of b] by simp_all
  have b: "unat (push_bit 8 (ucast b) :: u32) = 256 * unat b"
    using ub(2) by (simp add: push_bit_eq_mult unat_word_ariths(2) unat_byte_u32)
  have "unat (ucast a :: u32) + unat (push_bit 8 (ucast b) :: u32) < 2 ^ LENGTH(32)" using a b ub by simp
  then show ?thesis unfolding or using unat_add_lem [of "ucast a :: u32" "push_bit 8 (ucast b)"] a b by (simp only:)
qed

lemma words_sum_bound: "words_sum bs \<le> 65535 * length bs"
proof (induction bs rule: words_sum.induct)
  case (1 a b rest)
  have "unat a < 256" "unat b < 256" using unat_bound [of a] unat_bound [of b] by simp_all
  then show ?case using 1 by simp
next
  case (2 a)
  have "unat a < 256" using unat_bound [of a] by simp
  then show ?case by simp
qed simp

lemma checksum_loop_sum:
  assumes "unat c + words_sum bs < 2 ^ 32"
  shows "unat (checksum_loop bs c) = unat c + words_sum bs"
  using assms
proof (induction bs c rule: checksum_loop.induct)
  case (1 a b rest c)
  have "unat (c + (ucast a OR push_bit 8 (ucast b))) = unat c + (unat a + 256 * unat b)"
    using unat_add_lem [of c "ucast a OR push_bit 8 (ucast b)"] 1(2) word_pair [of a b] by simp
  then show ?case using 1 by simp
next
  case (2 a c)
  then show ?case using unat_add_lem [of c "ucast a"] by (simp add: unat_byte_u32)
qed simp

lemma checksum_sum:
  assumes "length bs \<le> 65536"
  shows "unat (fold_loop (checksum_loop bs 0)) < 65536"
    "unat (fold_loop (checksum_loop bs 0)) mod 65535 = words_sum bs mod 65535"
proof -
  have "words_sum bs \<le> 65535 * 65536" using words_sum_bound [of bs] mult_le_mono2 [OF assms, of 65535] by linarith
  then have "unat (checksum_loop bs 0) = words_sum bs" using checksum_loop_sum [of 0 bs] by simp
  then show "unat (fold_loop (checksum_loop bs 0)) < 65536"
    "unat (fold_loop (checksum_loop bs 0)) mod 65535 = words_sum bs mod 65535"
    using fold_loop_spec [of "checksum_loop bs 0"] by simp_all
qed

subsection \<open>Packets in the send queue\<close>

record 'w net =
  nt_sendto :: "int \<Rightarrow> (u32 \<times> u16) option \<Rightarrow> mem \<Rightarrow> 'w \<Rightarrow> int \<times> 'w"
  nt_recvfrom :: "int \<Rightarrow> bool \<Rightarrow> nat \<Rightarrow> 'w \<Rightarrow> (int \<times> mem \<times> u32 \<times> u16) \<times> 'w"
  nt_time :: "'w \<Rightarrow> int"
  nt_unavailable :: "'w \<Rightarrow> bool"

text \<open>
  The destination of \<^verbatim>\<open>sendto\<close> is \<^term>\<open>None\<close> for \<^verbatim>\<open>send\<close> on a connected socket; the flag of
  \<^verbatim>\<open>recvfrom\<close> says that \<^verbatim>\<open>recv\<close> is used, which does not fill in the sender.
\<close>

definition SVZ_UDP_MSG_SIZE :: nat where "SVZ_UDP_MSG_SIZE = 64 * 1024"

definition svz_udp_write_socket :: "'w net \<Rightarrow> 'w sock_cb" where
  "svz_udp_write_socket nt sock w =
     (if sk_send_buffer_fill sock \<le> 0 then Some (0, sock, w)
      else do {
        b \<leftarrow> buf_read (sk_send_buffer sock) 0 4;
        let do_write = le32 b;
        addr \<leftarrow> buf_read (sk_send_buffer sock) 4 4;
        port \<leftarrow> buf_read (sk_send_buffer sock) 8 2;
        data \<leftarrow> buf_read (sk_send_buffer sock) 10 (int (unat (do_write - 10)));
        let dest = (if has_flag sock SVZ_SOFLG_CONNECTED then None else Some (le32 addr, dec16 port));
        let (num_written, w) = nt_sendto nt (sk_sock_desc sock) dest data w;
        if num_written < 0
        then Some (if nt_unavailable nt w then 0 else -1, sock, w)
        else do {
          sock \<leftarrow> svz_sock_reduce_send (sock\<lparr>sk_last_send := nt_time nt w\<rparr>) (sint do_write);
          Some (0, sock, w)
        }
      })"

text \<open>The frame for a packet to the current destination of the socket, which has to be known.\<close>

definition udp_frame :: "svz_socket \<Rightarrow> mem \<Rightarrow> mem option" where
  "udp_frame sock data = do {
     a \<leftarrow> sk_remote_addr sock;
     Some (enc32 (of_nat (10 + length data)) @ enc32 a @ enc16 (sk_remote_port sock) @ data)
   }"

function udp_write_loop :: "'w sock_cb \<Rightarrow> 'w kick_cb \<Rightarrow> svz_socket \<Rightarrow> mem \<Rightarrow> int \<Rightarrow> 'w \<Rightarrow> (int \<times> svz_socket \<times> 'w) option" where
  "udp_write_loop ws kicked sock buf ret w =
     (if buf = [] then Some (ret, sock, w)
      else case udp_frame sock (take SVZ_UDP_MSG_SIZE buf) of
             None \<Rightarrow> None
           | Some frame \<Rightarrow>
               (case svz_sock_write ws kicked sock frame w of
                  None \<Rightarrow> None
                | Some (ret, sock, w) \<Rightarrow>
                    if ret = -1 then Some (ret, set_flag SVZ_SOFLG_KILLED sock, w)
                    else udp_write_loop ws kicked sock (drop SVZ_UDP_MSG_SIZE buf) ret w))"
  by pat_completeness auto
termination
  by (relation "measure (\<lambda>(_, _, _, buf, _, _). length buf)") (auto simp: SVZ_UDP_MSG_SIZE_def)

declare udp_write_loop.simps [simp del]

definition svz_udp_write :: "'w sock_cb \<Rightarrow> 'w kick_cb \<Rightarrow> svz_socket \<Rightarrow> mem \<Rightarrow> 'w \<Rightarrow> (int \<times> svz_socket \<times> 'w) option" where
  "svz_udp_write ws kicked sock buf w =
     (if has_flag sock SVZ_SOFLG_KILLED then Some (0, sock, w) else udp_write_loop ws kicked sock buf 0 w)"

subsection \<open>Receiving UDP packets\<close>

text \<open>
  \<open>access\<close> is \<^verbatim>\<open>svz_sock_check_access (sock, sock)\<close>. A socket that is connected but not
  \<^verbatim>\<open>FIXED\<close> would take over the uninitialised \<open>sender\<close>.
\<close>

definition udp_read_socket :: "'w net \<Rightarrow> (svz_socket \<Rightarrow> int) \<Rightarrow> 'w sock_cb option \<Rightarrow> 'w sock_cb" where
  "udp_read_socket nt access check_request sock w =
     (let do_read = sk_recv_buffer_size sock - sk_recv_buffer_fill sock; conn = has_flag sock SVZ_SOFLG_CONNECTED
      in if do_read \<le> 0 then Some (-1, sock, w)
         else
           let ((num_read, bytes, sin_addr, sin_port), w) = nt_recvfrom nt (sk_sock_desc sock) conn (nat do_read) w
           in if num_read > 0
              then do {
                xs \<leftarrow> buf_write (sk_recv_buffer sock) (sk_recv_buffer_fill sock) bytes;
                let sock = sock\<lparr>sk_recv_buffer := Some xs, sk_last_recv := nt_time nt w,
                                sk_recv_buffer_fill := sk_recv_buffer_fill sock + num_read\<rparr>;
                sock \<leftarrow> (if has_flag sock SVZ_SOFLG_FIXED then Some sock
                         else if conn then None
                         else Some (sock\<lparr>sk_remote_port := sin_port, sk_remote_addr := Some sin_addr\<rparr>));
                if access sock < 0 then Some (0, sock, w)
                else case check_request of
                       None \<Rightarrow> Some (0, sock, w)
                     | Some f \<Rightarrow> do { (r, sock, w) \<leftarrow> f sock w; Some (if r \<noteq> 0 then -1 else 0, sock, w) }
              }
              else Some (if nt_unavailable nt w then 0 else -1, sock, w))"

definition svz_udp_lazy_read_socket ::
    "'w net \<Rightarrow> (svz_socket \<Rightarrow> int) \<Rightarrow> 'w sock_cb option \<Rightarrow> int \<Rightarrow> int \<Rightarrow> 'w sock_cb" where
  "svz_udp_lazy_read_socket nt access check_request send_size recv_size sock w = do {
     sock \<leftarrow> svz_sock_resize_buffers sock send_size recv_size;
     udp_read_socket nt access check_request sock w
   }"

text \<open>
  \<open>bindings\<close> is \<^verbatim>\<open>svz_sock_bindings\<close> and \<open>filtered\<close> the handlers of the servers that
  \<^verbatim>\<open>svz_binding_filter\<close> returns, in order, \<^term>\<open>None\<close> for a server without one.
\<close>

fun packet_servers :: "'w handler option list \<Rightarrow> svz_socket \<Rightarrow> 'w \<Rightarrow> (svz_socket \<times> 'w) option" where
  "packet_servers [] sock w = Some (sock, w)"
| "packet_servers (None # hs) sock w = packet_servers hs sock w"
| "packet_servers (Some h # hs) sock w = do {
     data \<leftarrow> buf_read (sk_recv_buffer sock) 0 (sk_recv_buffer_fill sock);
     (r, sock, w) \<leftarrow> h sock data w;
     if r = 0 then Some (sock\<lparr>sk_recv_buffer_fill := 0\<rparr>, w) else packet_servers hs sock w
   }"

definition svz_udp_check_request :: "bool \<Rightarrow> 'w handler option list \<Rightarrow> 'w handler option \<Rightarrow> 'w sock_cb" where
  "svz_udp_check_request bindings filtered handle_request sock w =
     (if \<not> bindings \<and> handle_request = None then Some (-1, sock, w)
      else case handle_request of
             Some h \<Rightarrow> do {
               data \<leftarrow> buf_read (sk_recv_buffer sock) 0 (sk_recv_buffer_fill sock);
               (r, sock, w) \<leftarrow> h sock data w;
               if r \<noteq> 0 then Some (-1, sock, w) else Some (0, sock\<lparr>sk_recv_buffer_fill := 0\<rparr>, w)
             }
           | None \<Rightarrow> do {
               (sock, w) \<leftarrow> packet_servers filtered sock w;
               let sock = (if sk_recv_buffer_fill sock \<noteq> 0 then sock\<lparr>sk_recv_buffer_fill := 0\<rparr> else sock);
               Some (0, sock, w)
             })"

subsection \<open>IP and ICMP headers\<close>

definition peek :: "mem \<Rightarrow> int \<Rightarrow> nat \<Rightarrow> mem option" where
  "peek buf off n = (if 0 \<le> off \<and> nat off + n \<le> length buf then Some (take n (drop (nat off) buf)) else None)"

definition poke :: "mem \<Rightarrow> nat \<Rightarrow> mem \<Rightarrow> mem option" where
  "poke buf off bs = (if off + length bs \<le> length buf then Some (take off buf @ bs @ drop (off + length bs) buf) else None)"

record svz_ip_header =
  ip_version_length :: byte
  ip_tos :: byte
  ip_length :: u16
  ip_ident :: u16
  ip_frag_offset :: u16
  ip_ttl :: byte
  ip_protocol :: byte
  ip_checksum :: u16
  ip_src :: u32
  ip_dst :: u32

definition raw_unpack_header :: "mem \<Rightarrow> svz_ip_header option" where
  "raw_unpack_header data = do {
     d \<leftarrow> peek data 0 20;
     Some \<lparr>ip_version_length = d ! 0, ip_tos = d ! 1, ip_length = htons (dec16 (drop 2 d)), ip_ident = htons (dec16 (drop 4 d)),
       ip_frag_offset = htons (dec16 (drop 6 d)), ip_ttl = d ! 8, ip_protocol = d ! 9, ip_checksum = htons (dec16 (drop 10 d)),
       ip_src = le32 (drop 12 d), ip_dst = le32 (drop 16 d)\<rparr>
   }"

definition IP_HDR_VERSION :: "svz_ip_header \<Rightarrow> byte" where
  "IP_HDR_VERSION hdr = drop_bit 4 (ip_version_length hdr) AND 0x0f"

definition IP_HDR_LENGTH :: "svz_ip_header \<Rightarrow> int" where
  "IP_HDR_LENGTH hdr = push_bit 2 (uint (ip_version_length hdr AND 0x0f))"

text \<open>A wrong header checksum is only logged.\<close>

definition svz_raw_check_ip_header :: "mem \<Rightarrow> int \<Rightarrow> (int \<times> mem) option" where
  "svz_raw_check_ip_header data len = do {
     hdr \<leftarrow> raw_unpack_header data;
     data \<leftarrow> poke data 10 [0, 0];
     Some (if IP_HDR_VERSION hdr \<noteq> 4 then -1
           else if IP_HDR_LENGTH hdr > len then -1
           else if uint (ip_length hdr) < len then -1
           else if ip_protocol hdr \<noteq> 1 then -1
           else IP_HDR_LENGTH hdr, data)
   }"

record svz_icmp_header =
  ih_type :: byte
  ih_code :: byte
  ih_checksum :: u16
  ih_ident :: u16
  ih_sequence :: u16
  ih_port :: u16

definition ICMP_HEADER_SIZE :: nat where "ICMP_HEADER_SIZE = 10"
definition ICMP_MSG_SIZE :: nat where "ICMP_MSG_SIZE = 64 * 1024"
definition ICMP_BUFFER_SIZE :: nat where "ICMP_BUFFER_SIZE = 20 + ICMP_HEADER_SIZE + ICMP_MSG_SIZE"
definition ICMP_ERROR :: int where "ICMP_ERROR = -1"
definition ICMP_DISCONNECT :: int where "ICMP_DISCONNECT = -2"
definition SVZ_ICMP_SERVEEZ_DATA :: byte where "SVZ_ICMP_SERVEEZ_DATA = 0"
definition SVZ_ICMP_SERVEEZ_CLOSE :: byte where "SVZ_ICMP_SERVEEZ_CLOSE = 3"

definition icmp_unpack_header :: "mem \<Rightarrow> svz_icmp_header" where
  "icmp_unpack_header d = \<lparr>ih_type = d ! 0, ih_code = d ! 1, ih_checksum = htons (dec16 (drop 2 d)),
     ih_ident = htons (dec16 (drop 4 d)), ih_sequence = htons (dec16 (drop 6 d)), ih_port = dec16 (drop 8 d)\<rparr>"

definition icmp_pack_header :: "svz_icmp_header \<Rightarrow> mem" where
  "icmp_pack_header hdr = [ih_type hdr, ih_code hdr] @ enc16 (htons (ih_checksum hdr)) @ enc16 (htons (ih_ident hdr))
     @ enc16 (htons (ih_sequence hdr)) @ enc16 (ih_port hdr)"

text \<open>\<open>pid\<close> is \<^verbatim>\<open>getpid ()\<close>; the sum with the id of the socket is an \<^verbatim>\<open>int\<close>.\<close>

definition check_packet :: "int \<Rightarrow> svz_socket \<Rightarrow> mem \<Rightarrow> int \<Rightarrow> (int \<times> svz_socket \<times> mem) option" where
  "check_packet pid sock data len = do {
     (length, data) \<leftarrow> svz_raw_check_ip_header data len;
     if length = -1 then Some (ICMP_ERROR, sock, data)
     else do {
       h \<leftarrow> peek data length ICMP_HEADER_SIZE;
       let header = icmp_unpack_header h;
       let off = length + int ICMP_HEADER_SIZE;
       if ih_type header = sk_itype sock
       then do {
         payload \<leftarrow> (if len - off > 0 then peek data off (nat (len - off)) else Some []);
         if ih_checksum header \<noteq> svz_raw_ip_checksum payload then Some (ICMP_ERROR, sock, data)
         else if uint (ih_ident header) = pid + sk_id sock then Some (ICMP_ERROR, sock, data)
         else if ih_port header \<noteq> sk_remote_port sock \<and> \<not> has_flag sock SVZ_SOFLG_LISTENING then Some (ICMP_ERROR, sock, data)
         else Some (if ih_code header = SVZ_ICMP_SERVEEZ_CLOSE then ICMP_DISCONNECT else off,
                    sock\<lparr>sk_remote_port := ih_port header\<rparr>, data)
       }
       else Some (ICMP_ERROR, sock, data)
     }
   }"

text \<open>
  \<^verbatim>\<open>memcpy\<close> with a negative length, converted to \<^verbatim>\<open>size_t\<close>, overruns every buffer. The result of the
  \<^verbatim>\<open>check_request\<close> callback is ignored.
\<close>

definition icmp_read_socket ::
    "'w net \<Rightarrow> int \<Rightarrow> (svz_socket \<Rightarrow> int) \<Rightarrow> 'w sock_cb option \<Rightarrow> mem \<Rightarrow> svz_socket \<Rightarrow> 'w \<Rightarrow> (int \<times> svz_socket \<times> mem \<times> 'w) option" where
  "icmp_read_socket nt pid access check_request icmp_buffer sock w = do {
     let conn = has_flag sock SVZ_SOFLG_CONNECTED;
     let ((num_read, bytes, sin_addr, _), w) = nt_recvfrom nt (sk_sock_desc sock) conn ICMP_BUFFER_SIZE w;
     if num_read > 0
     then do {
       buf \<leftarrow> poke icmp_buffer 0 bytes;
       let sock = sock\<lparr>sk_last_recv := nt_time nt w\<rparr>;
       sock \<leftarrow> (if has_flag sock SVZ_SOFLG_FIXED then Some sock
               else if conn then None else Some (sock\<lparr>sk_remote_addr := Some sin_addr\<rparr>));
       (trunc, sock, buf) \<leftarrow> check_packet pid sock buf num_read;
       if trunc \<ge> 0
       then do {
         let num_read = num_read - trunc;
         if num_read > sk_recv_buffer_size sock - sk_recv_buffer_fill sock then Some (-1, sock, buf, w)
         else if num_read < 0 then None
         else do {
           data \<leftarrow> peek buf trunc (nat num_read);
           xs \<leftarrow> buf_write (sk_recv_buffer sock) (sk_recv_buffer_fill sock) data;
           let sock = sock\<lparr>sk_recv_buffer := Some xs, sk_recv_buffer_fill := sk_recv_buffer_fill sock + num_read\<rparr>;
           if access sock < 0 then Some (0, sock, buf, w)
           else case check_request of
                  None \<Rightarrow> Some (0, sock, buf, w)
                | Some f \<Rightarrow> do { (_, sock, w) \<leftarrow> f sock w; Some (0, sock, buf, w) }
         }
       }
       else Some (if trunc = ICMP_DISCONNECT then -1 else 0, sock, buf, w)
     }
     else Some (if nt_unavailable nt w then 0 else -1, sock, icmp_buffer, w)
   }"

definition svz_icmp_lazy_read_socket ::
    "'w net \<Rightarrow> int \<Rightarrow> (svz_socket \<Rightarrow> int) \<Rightarrow> 'w sock_cb option \<Rightarrow> int \<Rightarrow> int \<Rightarrow> mem \<Rightarrow> svz_socket \<Rightarrow> 'w
       \<Rightarrow> (int \<times> svz_socket \<times> mem \<times> 'w) option" where
  "svz_icmp_lazy_read_socket nt pid access check_request send_size recv_size icmp_buffer sock w = do {
     sock \<leftarrow> svz_sock_resize_buffers sock send_size recv_size;
     icmp_read_socket nt pid access check_request icmp_buffer sock w
   }"

text \<open>The \<^verbatim>\<open>assert\<close> of \<^verbatim>\<open>svz_icmp_write_socket\<close> ends the program.\<close>

definition svz_icmp_write_socket :: "'w net \<Rightarrow> 'w sock_cb" where
  "svz_icmp_write_socket nt sock w =
     (if sk_send_buffer_fill sock \<le> 0 then Some (0, sock, w)
      else do {
        b \<leftarrow> buf_read (sk_send_buffer sock) 0 4;
        let do_write = le32 b;
        addr \<leftarrow> buf_read (sk_send_buffer sock) 4 4;
        port \<leftarrow> buf_read (sk_send_buffer sock) 8 2;
        if sint do_write > sk_send_buffer_fill sock then None
        else do {
          data \<leftarrow> buf_read (sk_send_buffer sock) 10 (int (unat (do_write - 10)));
          let dest = (if has_flag sock SVZ_SOFLG_CONNECTED then None else Some (le32 addr, dec16 port));
          let (num_written, w) = nt_sendto nt (sk_sock_desc sock) dest data w;
          if num_written < 0
          then Some (if nt_unavailable nt w then 0 else -1, sock, w)
          else do {
            let fill = sk_send_buffer_fill sock;
            let n = int (unat do_write);
            let sock = sock\<lparr>sk_last_send := nt_time nt w\<rparr>;
            sock \<leftarrow> (if fill > n then do { xs \<leftarrow> buf_move (sk_send_buffer sock) 0 n (fill - n); Some (sock\<lparr>sk_send_buffer := Some xs\<rparr>) }
                     else Some sock);
            Some (0, sock\<lparr>sk_send_buffer_fill := fill - n\<rparr>, w)
          }
        }
      })"

definition icmp_header :: "int \<Rightarrow> svz_socket \<Rightarrow> byte \<Rightarrow> mem \<Rightarrow> svz_icmp_header" where
  "icmp_header pid sock code data = \<lparr>ih_type = sk_itype sock, ih_code = code, ih_checksum = svz_raw_ip_checksum data,
     ih_ident = word_of_int (pid + sk_id sock), ih_sequence = sk_send_seq sock, ih_port = sk_remote_port sock\<rparr>"

text \<open>The frame is built in the static buffer, which also receives the packets.\<close>

definition icmp_frame :: "int \<Rightarrow> svz_socket \<Rightarrow> byte \<Rightarrow> mem \<Rightarrow> mem option" where
  "icmp_frame pid sock code data = udp_frame sock (icmp_pack_header (icmp_header pid sock code data) @ data)"

definition svz_icmp_send_control ::
    "int \<Rightarrow> 'w sock_cb \<Rightarrow> 'w kick_cb \<Rightarrow> mem \<Rightarrow> svz_socket \<Rightarrow> byte \<Rightarrow> 'w \<Rightarrow> (int \<times> svz_socket \<times> mem \<times> 'w) option" where
  "svz_icmp_send_control pid ws kicked icmp_buffer sock code w = do {
     frame \<leftarrow> icmp_frame pid sock code [];
     buf \<leftarrow> poke icmp_buffer 0 frame;
     (ret, sock, w) \<leftarrow> svz_sock_write ws kicked sock frame w;
     Some (ret, if ret = -1 then set_flag SVZ_SOFLG_KILLED sock else sock, buf, w)
   }"

function icmp_write_loop ::
    "int \<Rightarrow> 'w sock_cb \<Rightarrow> 'w kick_cb \<Rightarrow> mem \<Rightarrow> svz_socket \<Rightarrow> mem \<Rightarrow> int \<Rightarrow> 'w \<Rightarrow> (int \<times> svz_socket \<times> mem \<times> 'w) option" where
  "icmp_write_loop pid ws kicked icmp_buffer sock buf ret w =
     (if buf = [] then Some (ret, sock, icmp_buffer, w)
      else case icmp_frame pid sock SVZ_ICMP_SERVEEZ_DATA (take ICMP_MSG_SIZE buf) of
             None \<Rightarrow> None
           | Some frame \<Rightarrow>
               (case poke icmp_buffer 0 frame of
                  None \<Rightarrow> None
                | Some icmp_buffer \<Rightarrow>
                    (case svz_sock_write ws kicked (sock\<lparr>sk_send_seq := sk_send_seq sock + 1\<rparr>) frame w of
                       None \<Rightarrow> None
                     | Some (ret, sock, w) \<Rightarrow>
                         if ret = -1 then Some (ret, set_flag SVZ_SOFLG_KILLED sock, icmp_buffer, w)
                         else icmp_write_loop pid ws kicked icmp_buffer sock (drop ICMP_MSG_SIZE buf) ret w)))"
  by pat_completeness auto
termination
  by (relation "measure (\<lambda>(_, _, _, _, _, buf, _, _). length buf)") (auto simp: ICMP_MSG_SIZE_def)

declare icmp_write_loop.simps [simp del]

definition svz_icmp_write ::
    "int \<Rightarrow> 'w sock_cb \<Rightarrow> 'w kick_cb \<Rightarrow> mem \<Rightarrow> svz_socket \<Rightarrow> mem \<Rightarrow> 'w \<Rightarrow> (int \<times> svz_socket \<times> mem \<times> 'w) option" where
  "svz_icmp_write pid ws kicked icmp_buffer sock buf w =
     (if has_flag sock SVZ_SOFLG_KILLED then Some (0, sock, icmp_buffer, w)
      else icmp_write_loop pid ws kicked icmp_buffer sock buf 0 w)"

definition svz_icmp_check_request :: "bool \<Rightarrow> 'w handler option list \<Rightarrow> 'w handler option \<Rightarrow> 'w sock_cb" where
  "svz_icmp_check_request bindings filtered handle_request sock w =
     (if \<not> bindings \<and> handle_request = None then Some (-1, sock, w)
      else case handle_request of
             Some h \<Rightarrow> do {
               data \<leftarrow> buf_read (sk_recv_buffer sock) 0 (sk_recv_buffer_fill sock);
               (r, sock, w) \<leftarrow> h sock data w;
               if r \<noteq> 0 then Some (-1, sock, w) else Some (0, sock\<lparr>sk_recv_buffer_fill := 0\<rparr>, w)
             }
           | None \<Rightarrow> do {
               (sock, w) \<leftarrow> packet_servers filtered sock w;
               let sock = (if sk_recv_buffer_fill sock \<noteq> 0 then sock\<lparr>sk_recv_buffer_fill := 0\<rparr> else sock);
               Some (0, sock, w)
             })"

subsection \<open>The queue of packets\<close>

type_synonym dgram = "u32 \<times> u16 \<times> mem"

fun frame_bytes :: "dgram \<Rightarrow> mem" where
  "frame_bytes (a, p, data) = enc32 (of_nat (10 + length data)) @ enc32 a @ enc16 p @ data"

text \<open>A packet of a size that the writers produce, with a lot of room to what an \<^verbatim>\<open>int\<close> holds.\<close>

fun dgram_ok :: "dgram \<Rightarrow> bool" where
  "dgram_ok (a, p, data) \<longleftrightarrow> length data < 2 ^ 30"

text \<open>The send buffer of a packet socket: whole frames, and the beginning of one that is being added.\<close>

definition packet_queue :: "svz_socket \<Rightarrow> dgram list \<Rightarrow> mem \<Rightarrow> bool" where
  "packet_queue sock ds part \<longleftrightarrow> send_rep sock (concat (map frame_bytes ds) @ part)
     \<and> (\<forall>d \<in> set ds. dgram_ok d) \<and> sk_write_socket sock \<noteq> WS_tcp"

definition dest_of :: "bool \<Rightarrow> dgram \<Rightarrow> (u32 \<times> u16) option \<times> mem" where
  "dest_of connected d = (if connected then None else Some (fst d, fst (snd d)), snd (snd d))"

abbreviation routed :: "svz_socket \<Rightarrow> dgram \<Rightarrow> (u32 \<times> u16) option \<times> mem" where
  "routed sock \<equiv> dest_of (has_flag sock SVZ_SOFLG_CONNECTED)"

text \<open>Two states of a socket that differ in the send queue only.\<close>

definition queue_only :: "svz_socket \<Rightarrow> svz_socket \<Rightarrow> bool" where
  "queue_only sock sock' \<longleftrightarrow> (\<exists>b n t. sock' = sock\<lparr>sk_send_buffer := b, sk_send_buffer_fill := n, sk_last_send := t\<rparr>)"

lemma queue_only_refl [simp]: "queue_only sock sock"
proof -
  have "sock = sock\<lparr>sk_send_buffer := sk_send_buffer sock, sk_send_buffer_fill := sk_send_buffer_fill sock, sk_last_send := sk_last_send sock\<rparr>"
    by simp
  then show ?thesis unfolding queue_only_def by blast
qed

lemma queue_only_trans: "queue_only a b \<Longrightarrow> queue_only b c \<Longrightarrow> queue_only a c"
proof -
  assume "queue_only a b" "queue_only b c"
  then obtain x n t y m s where "b = a\<lparr>sk_send_buffer := x, sk_send_buffer_fill := n, sk_last_send := t\<rparr>"
    "c = b\<lparr>sk_send_buffer := y, sk_send_buffer_fill := m, sk_last_send := s\<rparr>" unfolding queue_only_def by blast
  then have "c = a\<lparr>sk_send_buffer := y, sk_send_buffer_fill := m, sk_last_send := s\<rparr>" by simp
  then show ?thesis unfolding queue_only_def by blast
qed

lemma queue_only_write [simp]:
  "queue_only sock (sock\<lparr>sk_send_buffer := b, sk_send_buffer_fill := n\<rparr>)"
  "queue_only sock (sock\<lparr>sk_last_send := t, sk_send_buffer := b, sk_send_buffer_fill := n\<rparr>)"
proof -
  have "sock\<lparr>sk_send_buffer := b, sk_send_buffer_fill := n\<rparr>
      = sock\<lparr>sk_send_buffer := b, sk_send_buffer_fill := n, sk_last_send := sk_last_send sock\<rparr>" by simp
  then show "queue_only sock (sock\<lparr>sk_send_buffer := b, sk_send_buffer_fill := n\<rparr>)" unfolding queue_only_def by blast
  show "queue_only sock (sock\<lparr>sk_last_send := t, sk_send_buffer := b, sk_send_buffer_fill := n\<rparr>)"
    unfolding queue_only_def by (intro exI [of _ b] exI [of _ n] exI [of _ t]) simp
qed

lemma queue_only_fields:
  assumes "queue_only sock sock'"
  shows "has_flag sock' f = has_flag sock f" "sk_write_socket sock' = sk_write_socket sock"
    "sk_send_buffer_size sock' = sk_send_buffer_size sock" "sk_remote_addr sock' = sk_remote_addr sock"
    "sk_remote_port sock' = sk_remote_port sock" "udp_frame sock' = udp_frame sock" "sk_send_seq sock' = sk_send_seq sock"
    "sk_id sock' = sk_id sock" "sk_itype sock' = sk_itype sock"
  using assms by (auto simp: queue_only_def has_flag_def udp_frame_def fun_eq_iff)

lemma frame_length [simp]: "length (frame_bytes d) = 10 + length (snd (snd d))"
  by (cases d) simp

text \<open>What a writer reads from the front of the queue.\<close>

lemma front_frame:
  assumes "packet_queue sock ((a, p, data) # ds) part"
  shows "sk_send_buffer_fill sock > 0"
    "buf_read (sk_send_buffer sock) 0 4 = Some (enc32 (of_nat (10 + length data)))"
    "buf_read (sk_send_buffer sock) 4 4 = Some (enc32 a)"
    "buf_read (sk_send_buffer sock) 8 2 = Some (enc16 p)"
    "buf_read (sk_send_buffer sock) 10 (int (length data)) = Some data"
    "10 + int (length data) \<le> sk_send_buffer_fill sock"
proof -
  let ?vs = "concat (map frame_bytes ((a, p, data) # ds)) @ part"
  have rep: "buf_rep (sk_send_buffer sock) (sk_send_buffer_size sock) (sk_send_buffer_fill sock) ?vs"
    using assms by (simp add: packet_queue_def send_rep_def)
  then have fill: "sk_send_buffer_fill sock = int (length ?vs)" using buf_rep_length by blast
  then show "sk_send_buffer_fill sock > 0" "10 + int (length data) \<le> sk_send_buffer_fill sock" by simp_all
  show "buf_read (sk_send_buffer sock) 0 4 = Some (enc32 (of_nat (10 + length data)))"
    using buf_read_rep [OF rep, of 0 4] by simp
  show "buf_read (sk_send_buffer sock) 4 4 = Some (enc32 a)"
    using buf_read_rep [OF rep, of 4 4] by simp
  show "buf_read (sk_send_buffer sock) 8 2 = Some (enc16 p)"
    using buf_read_rep [OF rep, of 8 2] by simp
  show "buf_read (sk_send_buffer sock) 10 (int (length data)) = Some data"
    using buf_read_rep [OF rep, of 10 "int (length data)"] by simp
qed

lemma frame_size:
  assumes "length data < 2 ^ 30"
  shows "unat (of_nat (10 + length data) :: u32) = 10 + length data"
    "sint (of_nat (10 + length data) :: u32) = 10 + int (length data)"
    "unat (of_nat (10 + length data) - 10 :: u32) = length data"
proof -
  have "10 + length data < 2 ^ 31" using assms by simp
  then show u: "unat (of_nat (10 + length data) :: u32) = 10 + length data"
    by (simp add: unat_of_nat del: of_nat_add)
  have "signed_take_bit 31 (int (10 + length data)) = int (10 + length data)"
    using assms by (intro signed_take_bit_int_eq_self) simp_all
  then show "sint (of_nat (10 + length data) :: u32) = 10 + int (length data)"
    by (simp add: signed_of_nat del: of_nat_add)
  have "(of_nat (10 + length data) - 10 :: u32) = of_nat (length data)" by simp
  then show "unat (of_nat (10 + length data) - 10 :: u32) = length data"
    using assms by (simp only: unat_of_nat) simp
qed

text \<open>
  The contract of the packet writers: with an empty queue nothing happens, otherwise the first packet
  is sent and leaves the queue, or the call fails and nothing has changed.
\<close>

locale packet_writer =
  fixes ws :: "'w sock_cb" and sent :: "'w \<Rightarrow> ((u32 \<times> u16) option \<times> mem) list"
  assumes write_empty: "packet_queue sock [] [] \<Longrightarrow> ws sock w = Some (0, sock, w)"
    and write_front: "packet_queue sock (d # ds) part \<Longrightarrow>
      (\<exists>sock' w'. ws sock w = Some (0, sock', w') \<and> queue_only sock sock' \<and> packet_queue sock' ds part
         \<and> sent w' = sent w @ [routed sock d])
      \<or> (\<exists>ret w'. ws sock w = Some (ret, sock, w') \<and> ret \<in> {0, -1} \<and> sent w' = sent w)"

text \<open>
  What the code relies on of \<^verbatim>\<open>sendto (2)\<close> and \<^verbatim>\<open>send (2)\<close> on a packet socket: a packet is sent as a whole
  or, with a negative result, not at all. \<open>sent w\<close> lists the packets sent so far.
\<close>

locale posix_net =
  fixes nt :: "'w net" and sent :: "'w \<Rightarrow> ((u32 \<times> u16) option \<times> mem) list"
  assumes sendto_ok: "0 \<le> fst (nt_sendto nt fd dest data w) \<Longrightarrow> sent (snd (nt_sendto nt fd dest data w)) = sent w @ [(dest, data)]"
    and sendto_fail: "fst (nt_sendto nt fd dest data w) < 0 \<Longrightarrow> sent (snd (nt_sendto nt fd dest data w)) = sent w"

lemma packet_queue_empty: "packet_queue sock [] [] \<Longrightarrow> sk_send_buffer_fill sock = 0"
  by (auto simp: packet_queue_def send_rep_def dest: buf_rep_length)

text \<open>The two writers take the first frame off the queue in their own ways.\<close>

lemma reduce_front:
  assumes "packet_queue sock ((a, p, data) # ds) part"
  obtains xs where
    "svz_sock_reduce_send (sock\<lparr>sk_last_send := t\<rparr>) (10 + int (length data))
       = Some (sock\<lparr>sk_last_send := t, sk_send_buffer := Some xs, sk_send_buffer_fill := sk_send_buffer_fill sock - (10 + int (length data))\<rparr>)"
    "packet_queue (sock\<lparr>sk_last_send := t, sk_send_buffer := Some xs, sk_send_buffer_fill := sk_send_buffer_fill sock - (10 + int (length data))\<rparr>) ds part"
proof -
  let ?vs = "concat (map frame_bytes ((a, p, data) # ds)) @ part" and ?s = "sock\<lparr>sk_last_send := t\<rparr>"
  have rep: "send_rep ?s ?vs" using assms by (simp add: packet_queue_def send_rep_def)
  have n: "nat (10 + int (length data)) = 10 + length data" by simp
  obtain xs where xs: "svz_sock_reduce_send ?s (10 + int (length data)) = Some (?s\<lparr>sk_send_buffer := Some xs,
          sk_send_buffer_fill := sk_send_buffer_fill sock - (10 + int (length data))\<rparr>)"
      "buf_rep (Some xs) (sk_send_buffer_size sock) (sk_send_buffer_fill sock - (10 + int (length data))) (drop (nat (10 + int (length data))) ?vs)"
    using svz_sock_reduce_send_rep [OF rep, of "10 + int (length data)"] by auto
  have "drop (10 + length data) ?vs = concat (map frame_bytes ds) @ part" by simp
  then have "packet_queue (?s\<lparr>sk_send_buffer := Some xs, sk_send_buffer_fill := sk_send_buffer_fill sock - (10 + int (length data))\<rparr>) ds part"
    using xs(2) assms unfolding n by (simp add: packet_queue_def send_rep_def)
  then show ?thesis using xs(1) that by simp
qed

lemma udp_write_front:
  assumes q: "packet_queue sock ((a, p, data) # ds) part"
    and snd: "nt_sendto nt (sk_sock_desc sock) (if has_flag sock SVZ_SOFLG_CONNECTED then None else Some (a, p)) data w = (n, w')"
  shows "svz_udp_write_socket nt sock w =
    (if n < 0 then Some (if nt_unavailable nt w' then 0 else -1, sock, w')
     else Option.bind (svz_sock_reduce_send (sock\<lparr>sk_last_send := nt_time nt w'\<rparr>) (10 + int (length data))) (\<lambda>s. Some (0, s, w')))"
proof -
  have ok: "length data < 2 ^ 30" using q by (simp add: packet_queue_def)
  note f = front_frame [OF q] frame_size [OF ok]
  from f(1) have "\<not> sk_send_buffer_fill sock \<le> 0" by simp
  then show ?thesis using snd unfolding svz_udp_write_socket_def
    by (simp only: if_False f Option.bind.bind_lunit Let_def dec_enc32 dec_enc16 prod.case)
qed

lemma icmp_write_front:
  assumes q: "packet_queue sock ((a, p, data) # ds) part"
    and snd: "nt_sendto nt (sk_sock_desc sock) (if has_flag sock SVZ_SOFLG_CONNECTED then None else Some (a, p)) data w = (n, w')"
  shows "svz_icmp_write_socket nt sock w =
    (if n < 0 then Some (if nt_unavailable nt w' then 0 else -1, sock, w')
     else Option.bind (svz_sock_reduce_send (sock\<lparr>sk_last_send := nt_time nt w'\<rparr>) (10 + int (length data))) (\<lambda>s. Some (0, s, w')))"
proof -
  have ok: "length data < 2 ^ 30" using q by (simp add: packet_queue_def)
  note f = front_frame [OF q] frame_size [OF ok]
  have g: "\<not> sk_send_buffer_fill sock \<le> 0" "\<not> 10 + int (length data) > sk_send_buffer_fill sock" using f(1,6) by simp_all
  have i: "int (10 + length data) = 10 + int (length data)" by simp
  show ?thesis using snd unfolding svz_icmp_write_socket_def
    by (simp only: if_False f(2-5,7-9) g Option.bind.bind_lunit Let_def dec_enc32 dec_enc16 prod.case i)
       (simp add: svz_sock_reduce_send_def bind_eq_Some_conv)
qed

lemma front_writer:
  assumes "posix_net nt sent"
    and ws: "\<And>a p data n w'. packet_queue sock ((a, p, data) # ds) part \<Longrightarrow>
      nt_sendto nt (sk_sock_desc sock) (if has_flag sock SVZ_SOFLG_CONNECTED then None else Some (a, p)) data w = (n, w') \<Longrightarrow>
      ws sock w =
       (if n < 0 then Some (if nt_unavailable nt w' then 0 else -1, sock, w')
        else Option.bind (svz_sock_reduce_send (sock\<lparr>sk_last_send := nt_time nt w'\<rparr>) (10 + int (length data))) (\<lambda>s. Some (0, s, w')))"
    and q: "packet_queue sock (d # ds) part"
  shows "(\<exists>sock' w'. ws sock w = Some (0 :: int, sock', w') \<and> queue_only sock sock' \<and> packet_queue sock' ds part
         \<and> sent w' = sent w @ [routed sock d])
      \<or> (\<exists>ret w'. ws sock w = Some (ret, sock, w') \<and> ret \<in> {0, -1} \<and> sent w' = sent w)"
proof -
  obtain a p data where d: "d = (a, p, data)" by (cases d)
  let ?dest = "if has_flag sock SVZ_SOFLG_CONNECTED then None else Some (a, p)"
  obtain n w' where s: "nt_sendto nt (sk_sock_desc sock) ?dest data w = (n, w')" by fastforce
  note q' = q [unfolded d]
  note eq = ws [OF q' s]
  show ?thesis
  proof (cases "n < 0")
    case True
    then have "sent w' = sent w" using posix_net.sendto_fail [OF assms(1), of "sk_sock_desc sock" ?dest data w] s by simp
    then show ?thesis using eq True by simp
  next
    case False
    obtain xs where xs: "svz_sock_reduce_send (sock\<lparr>sk_last_send := nt_time nt w'\<rparr>) (10 + int (length data))
       = Some (sock\<lparr>sk_last_send := nt_time nt w', sk_send_buffer := Some xs, sk_send_buffer_fill := sk_send_buffer_fill sock - (10 + int (length data))\<rparr>)"
    "packet_queue (sock\<lparr>sk_last_send := nt_time nt w', sk_send_buffer := Some xs, sk_send_buffer_fill := sk_send_buffer_fill sock - (10 + int (length data))\<rparr>) ds part"
      by (rule reduce_front [OF q'])
    have "sent w' = sent w @ [routed sock d]"
      using posix_net.sendto_ok [OF assms(1), of "sk_sock_desc sock" ?dest data w] s False by (simp add: dest_of_def d)
    then show ?thesis using eq False xs by (intro disjI1 exI conjI) (simp, simp_all)
  qed
qed

sublocale posix_net \<subseteq> udp: packet_writer "svz_udp_write_socket nt" sent
proof unfold_locales
  fix sock w assume "packet_queue sock [] []"
  then show "svz_udp_write_socket nt sock w = Some (0, sock, w)" by (simp add: svz_udp_write_socket_def packet_queue_empty)
next
  fix sock d ds part w assume q: "packet_queue sock (d # ds) part"
  show "(\<exists>sock' w'. svz_udp_write_socket nt sock w = Some (0, sock', w') \<and> queue_only sock sock' \<and> packet_queue sock' ds part
         \<and> sent w' = sent w @ [routed sock d])
      \<or> (\<exists>ret w'. svz_udp_write_socket nt sock w = Some (ret, sock, w') \<and> ret \<in> {0, -1} \<and> sent w' = sent w)"
    by (rule front_writer [where ws = "svz_udp_write_socket nt", OF posix_net_axioms _ q]) (erule (1) udp_write_front)
qed

sublocale posix_net \<subseteq> icmp: packet_writer "svz_icmp_write_socket nt" sent
proof unfold_locales
  fix sock w assume "packet_queue sock [] []"
  then show "svz_icmp_write_socket nt sock w = Some (0, sock, w)" by (simp add: svz_icmp_write_socket_def packet_queue_empty)
next
  fix sock d ds part w assume q: "packet_queue sock (d # ds) part"
  show "(\<exists>sock' w'. svz_icmp_write_socket nt sock w = Some (0, sock', w') \<and> queue_only sock sock' \<and> packet_queue sock' ds part
         \<and> sent w' = sent w @ [routed sock d])
      \<or> (\<exists>ret w'. svz_icmp_write_socket nt sock w = Some (ret, sock, w') \<and> ret \<in> {0, -1} \<and> sent w' = sent w)"
    by (rule front_writer [where ws = "svz_icmp_write_socket nt", OF posix_net_axioms _ q]) (erule (1) icmp_write_front)
qed

subsection \<open>Adding a packet to the queue\<close>

text \<open>
  A frame goes into the queue as a whole, even when \<^verbatim>\<open>svz_sock_write\<close> has to copy it piece by piece
  and to send packets from the front in between. \<open>added\<close> relates the situation before with a
  successful end, \<open>refused\<close> with a failure; in both the first \<open>k\<close> packets have been sent.
\<close>

definition added :: "('w \<Rightarrow> ((u32 \<times> u16) option \<times> mem) list) \<Rightarrow> svz_socket \<Rightarrow> dgram list \<Rightarrow> dgram list \<Rightarrow> 'w \<Rightarrow> svz_socket \<Rightarrow> 'w \<Rightarrow> bool" where
  "added sent sock ds new w sock' w' \<longleftrightarrow>
     (\<exists>k \<le> length ds + length new. packet_queue sock' (drop k (ds @ new)) []
        \<and> sent w' = sent w @ map (routed sock) (take k (ds @ new)))"

definition refused :: "('w \<Rightarrow> ((u32 \<times> u16) option \<times> mem) list) \<Rightarrow> svz_socket \<Rightarrow> dgram list \<Rightarrow> 'w \<Rightarrow> 'w \<Rightarrow> bool" where
  "refused sent sock ds w w' \<longleftrightarrow> (\<exists>k \<le> length ds. sent w' = sent w @ map (routed sock) (take k ds))"

definition kick_quiet :: "'w kick_cb \<Rightarrow> ('w \<Rightarrow> 'a) \<Rightarrow> bool" where
  "kick_quiet kicked sent \<longleftrightarrow> (\<forall>sock reason w. sent (snd (kick kicked sock reason w)) = sent w)"

lemma packet_queue_fill:
  "packet_queue sock ds part \<Longrightarrow> sk_send_buffer_fill sock = int (length (concat (map frame_bytes ds) @ part))
     \<and> sk_send_buffer_fill sock \<le> sk_send_buffer_size sock"
  by (auto simp: packet_queue_def send_rep_def dest: buf_rep_length)

lemma packet_queue_nonempty:
  assumes "packet_queue sock ds part" "length part < n" "part = [] \<or> sk_send_buffer_fill sock = int n"
    "sk_send_buffer_fill sock \<noteq> 0"
  obtains d ds' where "ds = d # ds'"
  using assms packet_queue_fill [OF assms(1)] by (cases ds) auto

text \<open>Copying bytes behind the queue.\<close>

lemma packet_queue_write:
  assumes "packet_queue sock ds part" "sk_send_buffer_fill sock + int (length bs) \<le> sk_send_buffer_size sock"
  obtains xs where "buf_write (sk_send_buffer sock) (sk_send_buffer_fill sock) bs = Some xs"
    "packet_queue (sock\<lparr>sk_send_buffer := Some xs, sk_send_buffer_fill := sk_send_buffer_fill sock + int (length bs)\<rparr>) ds (part @ bs)"
proof -
  have b: "buf_rep (sk_send_buffer sock) (sk_send_buffer_size sock) (sk_send_buffer_fill sock) (concat (map frame_bytes ds) @ part)"
    using assms(1) by (simp add: packet_queue_def send_rep_def)
  have f: "sk_send_buffer_fill sock = int (length (concat (map frame_bytes ds) @ part))" using packet_queue_fill [OF assms(1)] by simp
  obtain xs where "buf_write (sk_send_buffer sock) (sk_send_buffer_fill sock) bs = Some xs"
      "buf_rep (Some xs) (sk_send_buffer_size sock) (sk_send_buffer_fill sock + int (length bs)) ((concat (map frame_bytes ds) @ part) @ bs)"
    using buf_write_rep [OF b, of bs] assms(2) f by auto
  then show ?thesis using assms(1) that by (simp add: packet_queue_def send_rep_def)
qed

lemma whole_frame: "packet_queue sock ds (frame_bytes d) \<Longrightarrow> dgram_ok d \<Longrightarrow> packet_queue sock (ds @ [d]) []"
  by (auto simp: packet_queue_def)

context packet_writer
begin

lemma flush:
  assumes "packet_queue sock ds part" "length part < n" "part = [] \<or> sk_send_buffer_fill sock = int n"
  shows "(\<exists>k sock' w'. k \<le> length ds \<and> write_flush ws sock w u = Some (0, sock', w') \<and> queue_only sock sock'
            \<and> packet_queue sock' (drop k ds) part \<and> sent w' = sent w @ map (routed sock) (take k ds))
       \<or> (\<exists>w'. write_flush ws sock w u = Some (-1, sock, w') \<and> sent w' = sent w)"
proof (cases "sk_write_socket sock \<noteq> WS_NULL \<and> sk_unavailable sock = 0 \<and> has_flag sock SVZ_SOFLG_CONNECTED
                \<and> sk_send_buffer_fill sock \<noteq> 0")
  case False
  then have "write_flush ws sock w u = Some (0, sock, w)" by (auto simp: write_flush_def)
  then show ?thesis using assms(1) by (intro disjI1 exI [of _ 0] exI [of _ sock] exI [of _ w]) simp
next
  case True
  then obtain d ds' where ds: "ds = d # ds'" using packet_queue_nonempty [OF assms] by blast
  have tcp: "sk_write_socket sock \<noteq> WS_tcp" using assms(1) by (simp add: packet_queue_def)
  have eq: "write_flush ws sock w u = Option.bind (ws sock w) (\<lambda>(ret, sock, w). if ret \<noteq> 0 then Some (ret, sock, w) else Some (0, sock, w))"
    using True tcp by (cases "ws sock w") (auto simp: write_flush_def Let_def)
  from write_front [OF assms(1) [unfolded ds], of w] show ?thesis
  proof (elim disjE exE conjE)
    fix sock' w' assume "ws sock w = Some (0, sock', w')" "queue_only sock sock'" "packet_queue sock' ds' part"
      "sent w' = sent w @ [routed sock d]"
    then show ?thesis unfolding eq ds by (intro disjI1 exI [of _ "Suc 0"] exI [of _ sock'] exI [of _ w']) simp
  next
    fix ret w' assume r: "ws sock w = Some (ret, sock, w')" "ret \<in> {0, -1}" "sent w' = sent w"
    show ?thesis
    proof (cases "ret = 0")
      case True
      then show ?thesis using r assms(1) unfolding eq by (intro disjI1 exI [of _ 0] exI [of _ sock] exI [of _ w']) simp
    next
      case False
      then show ?thesis using r unfolding eq by simp
    qed
  qed
qed

end

lemma added_more:
  assumes "added sent s2 (drop k ds) new w1 sock' w'" "k \<le> length ds" "has_flag s2 SVZ_SOFLG_CONNECTED = has_flag sock SVZ_SOFLG_CONNECTED"
    "sent w1 = sent w @ map (routed sock) (take k ds)"
  shows "added sent sock ds new w sock' w'"
proof -
  obtain j where j: "j \<le> length (drop k ds) + length new" "packet_queue sock' (drop j (drop k ds @ new)) []"
      "sent w' = sent w1 @ map (routed s2) (take j (drop k ds @ new))" using assms(1) unfolding added_def by blast
  have "take (k + j) (ds @ new) = take k ds @ take j (drop k ds @ new)" "drop (k + j) (ds @ new) = drop j (drop k ds @ new)"
    using assms(2) by (simp_all add: take_add) (simp_all only: add.commute [of j k])
  then show ?thesis unfolding added_def using assms(2-4) j
    by (intro exI [of _ "k + j"]) simp
qed

lemma refused_more:
  assumes "refused sent s2 (drop k ds) w1 w'" "k \<le> length ds" "has_flag s2 SVZ_SOFLG_CONNECTED = has_flag sock SVZ_SOFLG_CONNECTED"
    "sent w1 = sent w @ map (routed sock) (take k ds)"
  shows "refused sent sock ds w w'"
proof -
  obtain j where j: "j \<le> length (drop k ds)" "sent w' = sent w1 @ map (routed s2) (take j (drop k ds))"
    using assms(1) unfolding refused_def by blast
  then show ?thesis unfolding refused_def using assms(2-4) by (intro exI [of _ "k + j"]) (simp add: take_add)
qed

context packet_writer
begin

lemma write_frame:
  assumes kq: "kick_quiet kicked sent"
    and q: "packet_queue sock ds part" and f: "frame_bytes d = part @ buf" "dgram_ok d" "buf \<noteq> []"
    and room: "int (length (part @ buf)) < sk_send_buffer_size sock"
    and full: "part = [] \<or> sk_send_buffer_fill sock = sk_send_buffer_size sock"
  shows "\<exists>ret sock' w'. svz_sock_write_loop ws kicked n sock buf w = Some (ret, sock', w')
    \<and> (ret = 0 \<and> queue_only sock sock' \<and> added sent sock ds [d] w sock' w' \<or> ret = -1 \<and> refused sent sock ds w w')"
  using q f room full
proof (induction "length buf" arbitrary: sock ds part buf w rule: less_induct)
  case less
  have sz: "0 \<le> sk_send_buffer_size sock" "length part < nat (sk_send_buffer_size sock)" using less.prems(5) by auto
  have full: "part = [] \<or> sk_send_buffer_fill sock = int (nat (sk_send_buffer_size sock))" using less.prems(6) sz by simp
  note step = svz_sock_write_loop.simps [of ws kicked n sock buf w]
  from flush [OF less.prems(1) sz(2) full, of w "n = length buf"] show ?case
  proof (elim disjE exE conjE)
    fix w' assume "write_flush ws sock w (n = length buf) = Some (-1, sock, w')" "sent w' = sent w"
    then show ?thesis using less.prems(4) unfolding step refused_def
      by (intro exI [of _ "-1"] exI [of _ sock] exI [of _ w'] conjI disjI2 exI [of _ 0]) simp_all
  next
    fix k s1 w1 assume k: "k \<le> length ds" and fl: "write_flush ws sock w (n = length buf) = Some (0, s1, w1)"
      and qo: "queue_only sock s1" and q1: "packet_queue s1 (drop k ds) part"
      and s1: "sent w1 = sent w @ map (routed sock) (take k ds)"
    note qf = queue_only_fields [OF qo]
    let ?fill = "sk_send_buffer_fill s1" and ?size = "sk_send_buffer_size s1"
    consider "?fill \<ge> ?size" | "?fill < ?size" "?fill + int (length buf) < ?size"
      | "?fill < ?size" "\<not> ?fill + int (length buf) < ?size" by linarith
    then show ?thesis
    proof cases
      case 1
      have "svz_sock_write_loop ws kicked n sock buf w = Some (-1, kick kicked s1 1 w1)"
        using 1 less.prems(4) by (simp add: step fl case_prod_beta)
      moreover have "sent (snd (kick kicked s1 1 w1)) = sent w1" using kq by (simp add: kick_quiet_def)
      ultimately show ?thesis using k s1 unfolding refused_def
        by (intro exI [of _ "-1"] exI [of _ "fst (kick kicked s1 1 w1)"] exI [of _ "snd (kick kicked s1 1 w1)"] conjI disjI2 exI [of _ k]) simp_all
    next
      case 2
      then obtain xs where xs: "buf_write (sk_send_buffer s1) ?fill buf = Some xs"
          "packet_queue (s1\<lparr>sk_send_buffer := Some xs, sk_send_buffer_fill := ?fill + int (length buf)\<rparr>) (drop k ds) (part @ buf)"
        using packet_queue_write [OF q1, of buf] by auto
      let ?s2 = "s1\<lparr>sk_send_buffer := Some xs, sk_send_buffer_fill := ?fill + int (length buf)\<rparr>"
      have "svz_sock_write_loop ws kicked n sock buf w = Some (0, ?s2, w1)"
        using 2 less.prems(4) xs(1) by (simp add: step fl)
      moreover have "packet_queue ?s2 (drop k (ds @ [d])) []"
        using whole_frame [OF xs(2) [folded less.prems(2)] less.prems(3)] k by simp
      ultimately have "added sent sock ds [d] w ?s2 w1" unfolding added_def using k s1 by (intro exI [of _ k]) simp
      then show ?thesis using \<open>svz_sock_write_loop ws kicked n sock buf w = Some (0, ?s2, w1)\<close> queue_only_trans [OF qo queue_only_write(1)] by blast
    next
      case 3
      let ?sp = "?size - ?fill"
      have len: "int (length (take (nat ?sp) buf)) = ?sp" using 3 by auto
      then obtain xs where xs: "buf_write (sk_send_buffer s1) ?fill (take (nat ?sp) buf) = Some xs"
          "packet_queue (s1\<lparr>sk_send_buffer := Some xs, sk_send_buffer_fill := ?fill + ?sp\<rparr>) (drop k ds) (part @ take (nat ?sp) buf)"
        using packet_queue_write [OF q1, of "take (nat ?sp) buf"] by auto
      let ?s2 = "s1\<lparr>sk_send_buffer := Some xs, sk_send_buffer_fill := ?fill + ?sp\<rparr>"
      have eq: "svz_sock_write_loop ws kicked n sock buf w = svz_sock_write_loop ws kicked n ?s2 (drop (nat ?sp) buf) w1"
        using 3 less.prems(4) xs(1) by (simp add: step fl Let_def)
      have qo2: "queue_only sock ?s2" using queue_only_trans [OF qo] by simp
      have size2: "sk_send_buffer_size ?s2 = sk_send_buffer_size sock" using qf(3) by simp
      show ?thesis
      proof (cases "drop (nat ?sp) buf = []")
        case True
        then have "int (length buf) = ?sp" using 3 by simp
        then have "packet_queue ?s2 (drop k ds) (frame_bytes d)" using xs(2) less.prems(2) by simp
        then have "packet_queue ?s2 (drop k (ds @ [d])) []" using whole_frame [OF _ less.prems(3)] k by simp
        then have "added sent sock ds [d] w ?s2 w1" unfolding added_def using k s1 by (intro exI [of _ k]) simp
        moreover have "svz_sock_write_loop ws kicked n sock buf w = Some (0, ?s2, w1)"
          unfolding eq True by (subst svz_sock_write_loop.simps) simp
        ultimately show ?thesis using qo2 by blast
      next
        case False
        have conn: "has_flag ?s2 SVZ_SOFLG_CONNECTED = has_flag sock SVZ_SOFLG_CONNECTED" using queue_only_fields(1) [OF qo2] .
        have "\<exists>ret sock' w'. svz_sock_write_loop ws kicked n ?s2 (drop (nat ?sp) buf) w1 = Some (ret, sock', w')
            \<and> (ret = 0 \<and> queue_only ?s2 sock' \<and> added sent ?s2 (drop k ds) [d] w1 sock' w' \<or> ret = -1 \<and> refused sent ?s2 (drop k ds) w1 w')"
        proof (rule less.hyps [OF _ xs(2)])
          show "length (drop (nat ?sp) buf) < length buf" using less.prems(4) 3(1) by simp
          show "frame_bytes d = (part @ take (nat ?sp) buf) @ drop (nat ?sp) buf" using less.prems(2) by simp
          show "int (length ((part @ take (nat ?sp) buf) @ drop (nat ?sp) buf)) < sk_send_buffer_size ?s2"
            unfolding size2 using less.prems(5) by simp
        qed (use less.prems(3) False in simp_all)
        then show ?thesis unfolding eq using added_more [where sent = sent, OF _ k conn s1] refused_more [where sent = sent, OF _ k conn s1] queue_only_trans [OF qo2] by blast
      qed
    qed
  qed
qed

end

subsection \<open>Writing data in packets\<close>

text \<open>The pieces of a message.\<close>

function chunks :: "nat \<Rightarrow> 'a list \<Rightarrow> 'a list list" where
  "chunks n xs = (if xs = [] \<or> n = 0 then [] else take n xs # chunks n (drop n xs))"
  by pat_completeness auto
termination
  by (relation "measure (\<lambda>(n, xs). length xs)") auto

declare chunks.simps [simp del]

lemma concat_chunks: "0 < n \<Longrightarrow> concat (chunks n xs) = xs"
  by (induction n xs rule: chunks.induct) (subst chunks.simps, simp)

lemma added_step:
  assumes "added sent sock ds [d] w s1 w1" "has_flag s1 SVZ_SOFLG_CONNECTED = has_flag sock SVZ_SOFLG_CONNECTED"
  obtains k where "packet_queue s1 (drop k (ds @ [d])) []"
    "\<And>s2 sock' new w'. added sent s2 (drop k (ds @ [d])) new w1 sock' w' \<Longrightarrow>
       has_flag s2 SVZ_SOFLG_CONNECTED = has_flag sock SVZ_SOFLG_CONNECTED \<Longrightarrow> added sent sock ds (d # new) w sock' w'"
    "\<And>s2 new w'. refused sent s2 (drop k (ds @ [d]) @ new) w1 w' \<Longrightarrow>
       has_flag s2 SVZ_SOFLG_CONNECTED = has_flag sock SVZ_SOFLG_CONNECTED \<Longrightarrow> refused sent sock (ds @ d # new) w w'"
proof -
  obtain k where k: "k \<le> length (ds @ [d])" "packet_queue s1 (drop k (ds @ [d])) []"
      "sent w1 = sent w @ map (routed sock) (take k (ds @ [d]))" using assms(1) by (auto simp: added_def)
  show ?thesis
  proof (rule that [OF k(2)])
    fix s2 sock' new w' assume "added sent s2 (drop k (ds @ [d])) new w1 sock' w'"
      "has_flag s2 SVZ_SOFLG_CONNECTED = has_flag sock SVZ_SOFLG_CONNECTED"
    from added_more [OF this(1) k(1) this(2) k(3)] show "added sent sock ds (d # new) w sock' w'" by (simp add: added_def)
  next
    fix s2 new w' assume r: "refused sent s2 (drop k (ds @ [d]) @ new) w1 w'"
      and c: "has_flag s2 SVZ_SOFLG_CONNECTED = has_flag sock SVZ_SOFLG_CONNECTED"
    have rest: "refused sent sock (ds @ d # new) w w'" if "refused sent s2 (drop k (ds @ d # new)) w1 w'" "k \<le> length (ds @ d # new)" "sent w1 = sent w @ map (routed sock) (take k (ds @ d # new))"
      using refused_more [OF that(1,2) c that(3)] .
    show "refused sent sock (ds @ d # new) w w'"
    proof (rule rest)
      show "refused sent s2 (drop k (ds @ d # new)) w1 w'" using r k(1) by (auto simp: le_Suc_eq)
      show "k \<le> length (ds @ d # new)" using k(1) by simp
      show "sent w1 = sent w @ map (routed sock) (take k (ds @ d # new))" using k(1,3) by (auto simp: le_Suc_eq)
    qed
  qed
qed

lemma killed_flag [simp]: "has_flag (set_flag SVZ_SOFLG_KILLED s) SVZ_SOFLG_KILLED"
  by (simp add: has_flag_def set_flag_def SVZ_SOFLG_KILLED_def and.commute [of "_ OR _"] bit.conj_disj_distrib or_eq_0_iff)

lemma refused_prefix: "refused sent sock ds w w' \<Longrightarrow> refused sent sock (ds @ new) w w'"
proof -
  assume "refused sent sock ds w w'"
  then obtain k where "k \<le> length ds" "sent w' = sent w @ map (routed sock) (take k ds)" unfolding refused_def by blast
  then show ?thesis unfolding refused_def by (intro exI [of _ k]) simp
qed

context packet_writer
begin

lemma sock_write_frame:
  assumes "kick_quiet kicked sent" "packet_queue sock ds []" "dgram_ok d"
    "int (length (frame_bytes d)) < sk_send_buffer_size sock" "\<not> has_flag sock SVZ_SOFLG_KILLED"
  shows "\<exists>ret sock' w'. svz_sock_write ws kicked sock (frame_bytes d) w = Some (ret, sock', w')
    \<and> (ret = 0 \<and> queue_only sock sock' \<and> added sent sock ds [d] w sock' w' \<or> ret = -1 \<and> refused sent sock ds w w')"
proof -
  have "frame_bytes d \<noteq> []" by (cases d) (simp add: enc32_def)
  then show ?thesis using write_frame [OF assms(1,2) _ assms(3), of "frame_bytes d" "length (frame_bytes d)" w] assms(4,5)
    by (simp add: svz_sock_write_def)
qed

lemma udp_loop:
  assumes "kick_quiet kicked sent" "packet_queue sock ds []" "sk_remote_addr sock = Some a"
    "10 + int SVZ_UDP_MSG_SIZE < sk_send_buffer_size sock" "\<not> has_flag sock SVZ_SOFLG_KILLED"
  shows "\<exists>ret sock' w'. udp_write_loop ws kicked sock buf 0 w = Some (ret, sock', w')
    \<and> (ret = 0 \<and> queue_only sock sock' \<and> added sent sock ds (map (\<lambda>c. (a, sk_remote_port sock, c)) (chunks SVZ_UDP_MSG_SIZE buf)) w sock' w'
       \<or> ret = -1 \<and> has_flag sock' SVZ_SOFLG_KILLED
         \<and> refused sent sock (ds @ map (\<lambda>c. (a, sk_remote_port sock, c)) (chunks SVZ_UDP_MSG_SIZE buf)) w w')"
  using assms
proof (induction "length buf" arbitrary: sock ds buf w rule: less_induct)
  case less
  show ?case
  proof (cases "buf = []")
    case True
    then have "udp_write_loop ws kicked sock buf 0 w = Some (0, sock, w)" by (simp add: udp_write_loop.simps)
    moreover have "added sent sock ds [] w sock w" unfolding added_def using less.prems(2) by (intro exI [of _ 0]) simp
    ultimately show ?thesis using True by (simp add: chunks.simps)
  next
    case False
    let ?d = "(a, sk_remote_port sock, take SVZ_UDP_MSG_SIZE buf)" and ?rest = "drop SVZ_UDP_MSG_SIZE buf"
    let ?dgs = "\<lambda>buf. map (\<lambda>c. (a, sk_remote_port sock, c)) (chunks SVZ_UDP_MSG_SIZE buf)"
    have M: "SVZ_UDP_MSG_SIZE = 65536" by (simp add: SVZ_UDP_MSG_SIZE_def)
    have ch: "?dgs buf = ?d # ?dgs ?rest" using False by (subst chunks.simps) (simp add: M)
    have fr: "udp_frame sock (take SVZ_UDP_MSG_SIZE buf) = Some (frame_bytes ?d)" using less.prems(3) by (simp add: udp_frame_def)
    have ok: "dgram_ok ?d" "int (length (frame_bytes ?d)) < sk_send_buffer_size sock" using less.prems(4) by (auto simp: M)
    obtain ret s1 w1 where wr: "svz_sock_write ws kicked sock (frame_bytes ?d) w = Some (ret, s1, w1)"
      and res: "ret = 0 \<and> queue_only sock s1 \<and> added sent sock ds [?d] w s1 w1 \<or> ret = -1 \<and> refused sent sock ds w w1"
      using sock_write_frame [OF less.prems(1,2) ok less.prems(5), of w] by blast
    note step = udp_write_loop.simps [of ws kicked sock buf 0 w]
    from res show ?thesis
    proof (elim disjE conjE)
      assume "ret = -1" and rf: "refused sent sock ds w w1"
      then have "udp_write_loop ws kicked sock buf 0 w = Some (-1, set_flag SVZ_SOFLG_KILLED s1, w1)"
        using False by (simp add: step fr wr del: frame_bytes.simps)
      then show ?thesis using refused_prefix [OF rf] by simp
    next
      assume r: "ret = 0" and qo: "queue_only sock s1" and ad: "added sent sock ds [?d] w s1 w1"
      note qf = queue_only_fields [OF qo]
      obtain k where k: "packet_queue s1 (drop k (ds @ [?d])) []"
        "\<And>s2 sock' new w'. added sent s2 (drop k (ds @ [?d])) new w1 sock' w' \<Longrightarrow>
           has_flag s2 SVZ_SOFLG_CONNECTED = has_flag sock SVZ_SOFLG_CONNECTED \<Longrightarrow> added sent sock ds (?d # new) w sock' w'"
        "\<And>s2 new w'. refused sent s2 (drop k (ds @ [?d]) @ new) w1 w' \<Longrightarrow>
           has_flag s2 SVZ_SOFLG_CONNECTED = has_flag sock SVZ_SOFLG_CONNECTED \<Longrightarrow> refused sent sock (ds @ ?d # new) w w'"
        using added_step [OF ad qf(1)] by blast
      have eq: "udp_write_loop ws kicked sock buf 0 w = udp_write_loop ws kicked s1 ?rest 0 w1"
        using False r by (simp add: step fr wr del: frame_bytes.simps)
      have "\<exists>ret sock' w'. udp_write_loop ws kicked s1 ?rest 0 w1 = Some (ret, sock', w')
        \<and> (ret = 0 \<and> queue_only s1 sock' \<and> added sent s1 (drop k (ds @ [?d])) (?dgs ?rest) w1 sock' w'
           \<or> ret = -1 \<and> has_flag sock' SVZ_SOFLG_KILLED \<and> refused sent s1 (drop k (ds @ [?d]) @ ?dgs ?rest) w1 w')"
        using less.hyps [OF _ less.prems(1) k(1), of ?rest w1] less.prems(3-5) False unfolding qf by (simp add: M)
      then show ?thesis unfolding eq ch using k(2,3) [OF _ qf(1)] queue_only_trans [OF qo] by blast
    qed
  qed
qed

end

text \<open>The packets that \<^verbatim>\<open>svz_icmp_write\<close> makes of the pieces of a message, with their sequence numbers.\<close>

fun icmp_dgrams :: "int \<Rightarrow> svz_socket \<Rightarrow> u32 \<Rightarrow> mem list \<Rightarrow> dgram list" where
  "icmp_dgrams pid sock a [] = []"
| "icmp_dgrams pid sock a (c # cs) =
     (a, sk_remote_port sock, icmp_pack_header (icmp_header pid sock SVZ_ICMP_SERVEEZ_DATA c) @ c)
     # icmp_dgrams pid (sock\<lparr>sk_send_seq := sk_send_seq sock + 1\<rparr>) a cs"

lemma queue_only_seq: "queue_only s s' \<Longrightarrow> queue_only (s\<lparr>sk_send_seq := x\<rparr>) (s'\<lparr>sk_send_seq := x\<rparr>)"
proof -
  assume "queue_only s s'"
  then obtain b n t where "s' = s\<lparr>sk_send_buffer := b, sk_send_buffer_fill := n, sk_last_send := t\<rparr>" unfolding queue_only_def by blast
  then show ?thesis unfolding queue_only_def by (intro exI [of _ b] exI [of _ n] exI [of _ t]) simp
qed

lemma icmp_dgrams_queue_only: "queue_only s s' \<Longrightarrow> icmp_dgrams pid s' a cs = icmp_dgrams pid s a cs"
proof (induction cs arbitrary: s s')
  case (Cons c cs)
  note f = queue_only_fields [OF Cons.prems]
  show ?case using Cons.IH [OF queue_only_seq [OF Cons.prems, of "sk_send_seq s + 1"]] by (simp add: icmp_header_def f)
qed simp

lemma icmp_pack_length [simp]: "length (icmp_pack_header h) = 10"
  by (simp add: icmp_pack_header_def)

lemma icmp_frame_dgram:
  "sk_remote_addr sock = Some a \<Longrightarrow>
   icmp_frame pid sock code c = Some (frame_bytes (a, sk_remote_port sock, icmp_pack_header (icmp_header pid sock code c) @ c))"
  by (simp add: icmp_frame_def udp_frame_def)

lemma unat_not16: "unat (NOT x :: u16) = 65535 - unat x"
proof -
  have "NOT x = -1 - x" by (simp add: not_eq_complement)
  moreover have "unat (-1 :: u16) = 65535" by (simp add: unsigned_minus_1_eq_mask mask_eq_exp_minus_1)
  ultimately show ?thesis using unat_sub [of x "-1"] by simp
qed

lemma poke_fits: "off + length bs \<le> length buf \<Longrightarrow> \<exists>buf'. poke buf off bs = Some buf' \<and> length buf' = length buf"
  by (simp add: poke_def)

lemma packet_queue_seq [simp]: "packet_queue (sock\<lparr>sk_send_seq := x\<rparr>) ds part = packet_queue sock ds part"
  by (simp add: packet_queue_def send_rep_def)

lemma added_seq [simp]: "added sent (sock\<lparr>sk_send_seq := x\<rparr>) = added sent sock" "refused sent (sock\<lparr>sk_send_seq := x\<rparr>) = refused sent sock"
  by (simp_all add: added_def refused_def has_flag_def fun_eq_iff)

context packet_writer
begin

lemma icmp_loop:
  assumes "kick_quiet kicked sent" "packet_queue sock ds []" "sk_remote_addr sock = Some a"
    "20 + int ICMP_MSG_SIZE < sk_send_buffer_size sock" "\<not> has_flag sock SVZ_SOFLG_KILLED" "length ib = ICMP_BUFFER_SIZE"
  shows "\<exists>ret sock' ib' w'. icmp_write_loop pid ws kicked ib sock buf 0 w = Some (ret, sock', ib', w') \<and> length ib' = ICMP_BUFFER_SIZE
    \<and> (ret = 0 \<and> queue_only (sock\<lparr>sk_send_seq := sk_send_seq sock + of_nat (length (chunks ICMP_MSG_SIZE buf))\<rparr>) sock'
         \<and> added sent sock ds (icmp_dgrams pid sock a (chunks ICMP_MSG_SIZE buf)) w sock' w'
       \<or> ret = -1 \<and> has_flag sock' SVZ_SOFLG_KILLED
         \<and> refused sent sock (ds @ icmp_dgrams pid sock a (chunks ICMP_MSG_SIZE buf)) w w')"
  using assms
proof (induction "length buf" arbitrary: sock ds buf ib w rule: less_induct)
  case less
  show ?case
  proof (cases "buf = []")
    case True
    then have "icmp_write_loop pid ws kicked ib sock buf 0 w = Some (0, sock, ib, w)" by (simp add: icmp_write_loop.simps)
    moreover have "added sent sock ds [] w sock w" unfolding added_def using less.prems(2) by (intro exI [of _ 0]) simp
    moreover have "sock\<lparr>sk_send_seq := sk_send_seq sock\<rparr> = sock" by simp
    ultimately show ?thesis using True less.prems(6) by (simp add: chunks.simps)
  next
    case False
    let ?s0 = "sock\<lparr>sk_send_seq := sk_send_seq sock + 1\<rparr>"
    let ?c = "take ICMP_MSG_SIZE buf" and ?rest = "drop ICMP_MSG_SIZE buf"
    let ?d = "(a, sk_remote_port sock, icmp_pack_header (icmp_header pid sock SVZ_ICMP_SERVEEZ_DATA ?c) @ ?c)"
    have M: "ICMP_MSG_SIZE = 65536" by (simp add: ICMP_MSG_SIZE_def)
    have ch: "chunks ICMP_MSG_SIZE buf = ?c # chunks ICMP_MSG_SIZE ?rest" using False by (subst chunks.simps) (simp add: M)
    note fr = icmp_frame_dgram [OF less.prems(3), of pid SVZ_ICMP_SERVEEZ_DATA ?c]
    have ok: "dgram_ok ?d" "int (length (frame_bytes ?d)) < sk_send_buffer_size ?s0" using less.prems(4) by (auto simp: M)
    have "0 + length (frame_bytes ?d) \<le> length ib"
      using less.prems(6) by (simp add: M ICMP_BUFFER_SIZE_def ICMP_HEADER_SIZE_def min_def)
    then obtain ib1 where ib: "poke ib 0 (frame_bytes ?d) = Some ib1" "length ib1 = ICMP_BUFFER_SIZE"
      using poke_fits [of 0 "frame_bytes ?d" ib] less.prems(6) by metis
    have q0: "packet_queue ?s0 ds []" "\<not> has_flag ?s0 SVZ_SOFLG_KILLED" using less.prems(2,5) by (simp_all add: has_flag_def)
    obtain ret s1 w1 where wr: "svz_sock_write ws kicked ?s0 (frame_bytes ?d) w = Some (ret, s1, w1)"
      and res: "ret = 0 \<and> queue_only ?s0 s1 \<and> added sent sock ds [?d] w s1 w1 \<or> ret = -1 \<and> refused sent sock ds w w1"
      using sock_write_frame [OF less.prems(1) q0(1) ok q0(2), of w] unfolding added_seq by blast
    note step = icmp_write_loop.simps [of pid ws kicked ib sock buf 0 w]
    from res show ?thesis
    proof (elim disjE conjE)
      assume "ret = -1" and rf: "refused sent sock ds w w1"
      then have "icmp_write_loop pid ws kicked ib sock buf 0 w = Some (-1, set_flag SVZ_SOFLG_KILLED s1, ib1, w1)"
        using False by (simp add: step fr wr ib(1) del: frame_bytes.simps)
      then show ?thesis using refused_prefix [OF rf] ib(2) by simp
    next
      assume r: "ret = 0" and qo: "queue_only ?s0 s1" and ad: "added sent sock ds [?d] w s1 w1"
      note qf = queue_only_fields [OF qo]
      have conn: "has_flag s1 SVZ_SOFLG_CONNECTED = has_flag sock SVZ_SOFLG_CONNECTED" unfolding qf by (simp add: has_flag_def)
      obtain k where k: "packet_queue s1 (drop k (ds @ [?d])) []"
        "\<And>s2 sock' new w'. added sent s2 (drop k (ds @ [?d])) new w1 sock' w' \<Longrightarrow>
           has_flag s2 SVZ_SOFLG_CONNECTED = has_flag sock SVZ_SOFLG_CONNECTED \<Longrightarrow> added sent sock ds (?d # new) w sock' w'"
        "\<And>s2 new w'. refused sent s2 (drop k (ds @ [?d]) @ new) w1 w' \<Longrightarrow>
           has_flag s2 SVZ_SOFLG_CONNECTED = has_flag sock SVZ_SOFLG_CONNECTED \<Longrightarrow> refused sent sock (ds @ ?d # new) w w'"
        using added_step [OF ad conn] by blast
      have eq: "icmp_write_loop pid ws kicked ib sock buf 0 w = icmp_write_loop pid ws kicked ib1 s1 ?rest 0 w1"
        using False r by (simp add: step fr wr ib(1) del: frame_bytes.simps)
      let ?new = "icmp_dgrams pid ?s0 a (chunks ICMP_MSG_SIZE ?rest)"
      have hyp: "sk_remote_addr s1 = Some a" "20 + int ICMP_MSG_SIZE < sk_send_buffer_size s1" "\<not> has_flag s1 SVZ_SOFLG_KILLED"
        "length ?rest < length buf"
        unfolding qf using less.prems(3-5) False by (simp_all add: has_flag_def M)
      have seq: "queue_only (sock\<lparr>sk_send_seq := sk_send_seq sock + of_nat (length (chunks ICMP_MSG_SIZE buf))\<rparr>) sock'"
        if "queue_only (s1\<lparr>sk_send_seq := sk_send_seq s1 + of_nat (length (chunks ICMP_MSG_SIZE ?rest))\<rparr>) sock'" for sock'
        using queue_only_trans [OF queue_only_seq [OF qo] that] by (simp add: qf ch add.assoc)
      have "\<exists>ret sock' ib' w'. icmp_write_loop pid ws kicked ib1 s1 ?rest 0 w1 = Some (ret, sock', ib', w') \<and> length ib' = ICMP_BUFFER_SIZE
        \<and> (ret = 0 \<and> queue_only (s1\<lparr>sk_send_seq := sk_send_seq s1 + of_nat (length (chunks ICMP_MSG_SIZE ?rest))\<rparr>) sock'
             \<and> added sent s1 (drop k (ds @ [?d])) ?new w1 sock' w'
           \<or> ret = -1 \<and> has_flag sock' SVZ_SOFLG_KILLED \<and> refused sent s1 (drop k (ds @ [?d]) @ ?new) w1 w')"
        using less.hyps [OF hyp(4) less.prems(1) k(1) hyp(1-3) ib(2)] unfolding icmp_dgrams_queue_only [OF qo] .
      moreover have "icmp_dgrams pid sock a (chunks ICMP_MSG_SIZE buf) = ?d # ?new" unfolding ch by simp
      ultimately show ?thesis unfolding eq using k(2,3) [OF _ conn] seq by metis
    qed
  qed
qed

end

context posix_net
begin

lemmas udp_packets = udp.udp_loop
lemmas icmp_packets = icmp.icmp_loop

end

subsection \<open>Properties\<close>

text \<open>A network whose answers are given in advance, and a socket on it.\<close>

type_synonym log_world = "bool list \<times> ((u32 \<times> u16) option \<times> mem) list"

definition log_net :: "log_world net" where
  "log_net = \<lparr>nt_sendto = (\<lambda>fd dest data (answers, log).
       if answers \<noteq> [] \<and> hd answers then (int (length data), tl answers, log @ [(dest, data)]) else (-1, tl answers, log)),
     nt_recvfrom = (\<lambda>fd conn n w. ((-1, [], 0, 0), w)), nt_time = (\<lambda>w. 0), nt_unavailable = (\<lambda>w. True)\<rparr>"

interpretation log: posix_net log_net snd
  by unfold_locales (auto simp: log_net_def split: if_splits)

definition ex_sock :: svz_socket where
  "ex_sock = (svz_sock_alloc 0)\<lparr>sk_send_buffer := Some (replicate 200000 Uninit), sk_send_buffer_size := 200000,
     sk_write_socket := WS_other ''svz_udp_write_socket'', sk_remote_addr := Some 0x0100007f, sk_remote_port := 0x3500, sk_flags := SVZ_SOFLG_SOCK\<rparr>"

lemma ex_sock_facts:
  "packet_queue ex_sock [] []" "sk_remote_addr ex_sock = Some 0x0100007f" "sk_send_buffer_size ex_sock = 200000"
  "\<not> has_flag ex_sock SVZ_SOFLG_KILLED" "kick_quiet None (snd :: log_world \<Rightarrow> _)"
  by (simp_all add: ex_sock_def svz_sock_alloc_def packet_queue_def send_rep_def buf_rep_def kick_quiet_def kick_def has_flag_def soflg_defs)

text \<open>
  C15. \<^verbatim>\<open>svz_udp_write\<close> on a socket with room for more than one frame never faults. On success the message has
  been cut into packets of 64 KiB to the current destination, and the packets that have been sent
  followed by those in the queue are the ones queued before followed by the new ones, in order and
  each exactly once; packets leave from the front only. On failure the socket is marked as killed,
  and still only a prefix of that sequence has been sent. A killed socket is left alone.
\<close>

theorem udp_write_packets:
  assumes "posix_net nt sent" and "kick_quiet kicked sent" and "packet_queue sock ds []"
    and "sk_remote_addr sock = Some a" and "10 + int SVZ_UDP_MSG_SIZE < sk_send_buffer_size sock"
  shows "\<exists>ret sock' w'. svz_udp_write (svz_udp_write_socket nt) kicked sock buf w = Some (ret, sock', w') \<and>
    (let new = map (\<lambda>c. (a, sk_remote_port sock, c)) (chunks SVZ_UDP_MSG_SIZE buf)
     in concat (map (snd \<circ> snd) new) = buf \<and>
        (if has_flag sock SVZ_SOFLG_KILLED then (ret, sock', w') = (0, sock, w)
         else ret = 0 \<and> (\<exists>k \<le> length ds + length new. packet_queue sock' (drop k (ds @ new)) []
                              \<and> sent w' = sent w @ map (routed sock) (take k (ds @ new)))
              \<or> ret = -1 \<and> has_flag sock' SVZ_SOFLG_KILLED
                 \<and> (\<exists>k \<le> length (ds @ new). sent w' = sent w @ map (routed sock) (take k (ds @ new)))))"
proof (cases "has_flag sock SVZ_SOFLG_KILLED")
  case True
  then show ?thesis by (simp add: svz_udp_write_def concat_chunks SVZ_UDP_MSG_SIZE_def o_def Let_def)
next
  case False
  have "concat (map (snd \<circ> snd) (map (\<lambda>c. (a, sk_remote_port sock, c)) (chunks SVZ_UDP_MSG_SIZE buf))) = buf"
    by (simp add: o_def concat_chunks SVZ_UDP_MSG_SIZE_def)
  then show ?thesis
    using posix_net.udp_packets [OF assms False, of buf w] False
    unfolding svz_udp_write_def added_def refused_def Let_def by (simp only: if_False simp_thms) blast
qed

definition ex_udp_write :: "bool list \<Rightarrow> mem \<Rightarrow> (int \<times> svz_socket \<times> log_world) option" where
  "ex_udp_write answers buf = svz_udp_write (svz_udp_write_socket log_net) None ex_sock buf (answers, [])"

theorem udp_write_packets_witness:
  "\<exists>ret sock' w'. ex_udp_write [True, True] [1, 2, 3] = Some (ret, sock', w') \<and>
     (ret = 0 \<and> (\<exists>k \<le> 1. packet_queue sock' (drop k [(0x0100007f, 0x3500, [1, 2, 3])]) []
                      \<and> snd w' = take k [(Some (0x0100007f, 0x3500), [1, 2, 3])]) \<or> ret = -1 \<and> has_flag sock' SVZ_SOFLG_KILLED)"
proof -
  have c: "chunks SVZ_UDP_MSG_SIZE [1, 2, 3 :: byte] = [[1, 2, 3]]" by (simp add: chunks.simps SVZ_UDP_MSG_SIZE_def)
  have p: "sk_remote_port ex_sock = 0x3500" by (simp add: ex_sock_def)
  have nc: "\<not> has_flag ex_sock SVZ_SOFLG_CONNECTED" by (simp add: ex_sock_def has_flag_def soflg_defs)
  have sz: "10 + int SVZ_UDP_MSG_SIZE < sk_send_buffer_size ex_sock" by (simp add: ex_sock_facts(3) SVZ_UDP_MSG_SIZE_def)
  let ?d = "(0x0100007f, 0x3500, [1, 2, 3]) :: dgram"
  obtain ret sock' w' where run: "ex_udp_write [True, True] [1, 2, 3] = Some (ret, sock', w')"
      "ret = 0 \<and> (\<exists>k \<le> length ([] :: dgram list) + length [?d]. packet_queue sock' (drop k ([] @ [?d])) []
                              \<and> snd w' = [] @ map (routed ex_sock) (take k ([] @ [?d])))
              \<or> ret = -1 \<and> has_flag sock' SVZ_SOFLG_KILLED
                 \<and> (\<exists>k \<le> length ([] @ [?d]). snd w' = [] @ map (routed ex_sock) (take k ([] @ [?d])))"
    using udp_write_packets [OF log.posix_net_axioms ex_sock_facts(5,1,2) sz, of "[1, 2, 3]" "([True, True], [])"] ex_sock_facts(4)
    unfolding c p ex_udp_write_def Let_def by (simp only: if_False list.map snd_conv simp_thms) blast
  have "map (routed ex_sock) (take k ([] @ [?d])) = take k [(Some (0x0100007f, 0x3500), [1, 2, 3])]" for k
    using nc by (simp add: dest_of_def take_map [symmetric])
  then show ?thesis using run by (intro exI [of _ ret] exI [of _ sock'] exI [of _ w'] conjI) (simp, simp, blast)
qed

text \<open>
  C16. \<^verbatim>\<open>svz_icmp_write\<close> does the same for ICMP sockets: the packets carry an ICMP header with the checksum of
  their piece of the message and consecutive sequence numbers, the frames fit into the static
  buffer, and the queue behaves as that of a UDP socket although the two writers take packets off
  it with different code.
\<close>

theorem icmp_write_packets:
  assumes "posix_net nt sent" and "kick_quiet kicked sent" and "packet_queue sock ds []"
    and "sk_remote_addr sock = Some a" and "20 + int ICMP_MSG_SIZE < sk_send_buffer_size sock"
    and "\<not> has_flag sock SVZ_SOFLG_KILLED" and "length ib = ICMP_BUFFER_SIZE"
  shows "\<exists>ret sock' ib' w'. svz_icmp_write pid (svz_icmp_write_socket nt) kicked ib sock buf w = Some (ret, sock', ib', w') \<and>
    (let cs = chunks ICMP_MSG_SIZE buf; new = icmp_dgrams pid sock a cs
     in concat cs = buf \<and> length ib' = ICMP_BUFFER_SIZE \<and>
        (ret = 0 \<and> sk_send_seq sock' = sk_send_seq sock + of_nat (length cs)
           \<and> (\<exists>k \<le> length ds + length new. packet_queue sock' (drop k (ds @ new)) []
                              \<and> sent w' = sent w @ map (routed sock) (take k (ds @ new)))
         \<or> ret = -1 \<and> has_flag sock' SVZ_SOFLG_KILLED
           \<and> (\<exists>k \<le> length (ds @ new). sent w' = sent w @ map (routed sock) (take k (ds @ new)))))"
proof -
  obtain ret sock' ib' w' where run: "icmp_write_loop pid (svz_icmp_write_socket nt) kicked ib sock buf 0 w = Some (ret, sock', ib', w')"
    "length ib' = ICMP_BUFFER_SIZE"
    "ret = 0 \<and> queue_only (sock\<lparr>sk_send_seq := sk_send_seq sock + of_nat (length (chunks ICMP_MSG_SIZE buf))\<rparr>) sock'
         \<and> added sent sock ds (icmp_dgrams pid sock a (chunks ICMP_MSG_SIZE buf)) w sock' w'
       \<or> ret = -1 \<and> has_flag sock' SVZ_SOFLG_KILLED
         \<and> refused sent sock (ds @ icmp_dgrams pid sock a (chunks ICMP_MSG_SIZE buf)) w w'"
    using posix_net.icmp_packets [OF assms, of pid buf w] by blast
  have seq: "queue_only (sock\<lparr>sk_send_seq := x\<rparr>) sock' \<Longrightarrow> sk_send_seq sock' = x" for x using queue_only_fields(7) by fastforce
  have c: "concat (chunks ICMP_MSG_SIZE buf) = buf" by (simp add: concat_chunks ICMP_MSG_SIZE_def)
  have eq: "svz_icmp_write pid (svz_icmp_write_socket nt) kicked ib sock buf w = Some (ret, sock', ib', w')"
    using run(1) assms(6) by (simp add: svz_icmp_write_def)
  show ?thesis unfolding Let_def eq
    by (intro exI [of _ ret] exI [of _ sock'] exI [of _ ib'] exI [of _ w'] conjI refl c run(2))
       (use run(3) [unfolded added_def refused_def] seq in blast)
qed

definition ex_icmp_write :: "bool list \<Rightarrow> mem \<Rightarrow> (int \<times> svz_socket \<times> mem \<times> log_world) option" where
  "ex_icmp_write answers buf = svz_icmp_write 77 (svz_icmp_write_socket log_net) None (replicate ICMP_BUFFER_SIZE 0) ex_sock buf (answers, [])"

theorem icmp_write_packets_witness:
  "\<exists>ret sock' ib' w'. ex_icmp_write [True, True] [1, 2, 3] = Some (ret, sock', ib', w') \<and> (ret = 0 \<and> sk_send_seq sock' = 1 \<or> ret = -1)"
proof -
  have c: "chunks ICMP_MSG_SIZE [1, 2, 3 :: byte] = [[1, 2, 3]]" by (simp add: chunks.simps ICMP_MSG_SIZE_def)
  have s: "sk_send_seq ex_sock = 0" by (simp add: ex_sock_def svz_sock_alloc_def)
  have sz: "20 + int ICMP_MSG_SIZE < sk_send_buffer_size ex_sock" by (simp add: ex_sock_facts(3) ICMP_MSG_SIZE_def)
  have l: "length (replicate ICMP_BUFFER_SIZE (0 :: byte)) = ICMP_BUFFER_SIZE" by simp
  have o: "0 + of_nat (length [[1, 2, 3 :: byte]]) = (1 :: u16)" by simp
  show ?thesis
    using icmp_write_packets [OF log.posix_net_axioms ex_sock_facts(5,1,2) sz ex_sock_facts(4) l, of 77 "[1, 2, 3]" "([True, True], [])"]
    unfolding c s o ex_icmp_write_def Let_def by blast
qed

text \<open>
  The checksum of \<^verbatim>\<open>raw-socket.c\<close> is the one's complement of the one's complement sum of the 16-bit words
  (an odd last byte counting as the low byte of a word), swapped to network order: the sum folds
  to 16 bits without losing a carry for every packet of up to 64 KiB, so that the checksum and the
  sum of the words cancel out modulo 65535, and it is zero only if all bits of the sum are set.
\<close>

theorem raw_ip_checksum_complement:
  assumes "length data \<le> 65536"
  shows "unat (htons (svz_raw_ip_checksum data)) + unat (fold_loop (checksum_loop data 0)) = 65535
    \<and> (unat (htons (svz_raw_ip_checksum data)) + words_sum data) mod 65535 = 0"
proof -
  let ?f = "fold_loop (checksum_loop data 0)"
  note c = checksum_sum [OF assms]
  have "unat (ucast (NOT ?f) :: u16) = 65535 - unat ?f"
  proof -
    have "(ucast (NOT ?f) :: u16) = NOT (ucast ?f)" by (rule bit_word_eqI) (simp add: bit_simps)
    moreover have "unat (ucast ?f :: u16) = unat ?f" using c(1) by (simp add: unsigned_ucast_eq take_bit_nat_eq_self)
    ultimately show ?thesis by (simp only: unat_not16)
  qed
  then have s: "unat (htons (svz_raw_ip_checksum data)) = 65535 - unat ?f" by (simp add: svz_raw_ip_checksum_def)
  have "(65535 - unat ?f + words_sum data) mod 65535 = (65535 - unat ?f + unat ?f) mod 65535"
    using c(2) by (metis mod_add_right_eq)
  then show ?thesis unfolding s using c(1) by simp
qed

theorem raw_ip_checksum_complement_witness:
  "svz_raw_ip_checksum [0x45, 0, 0xff] = htons 65211
     \<and> unat (htons (svz_raw_ip_checksum [0x45, 0, 0xff])) + words_sum [0x45, 0, 0xff] = 65535"
proof -
  have "words_sum [0x45, 0, 0xff] = 324" by simp
  moreover have "unat (htons (svz_raw_ip_checksum [0x45, 0, 0xff])) + unat (fold_loop (checksum_loop [0x45, 0, 0xff] 0)) = 65535"
    using raw_ip_checksum_complement [of "[0x45, 0, 0xff]"] by simp
  moreover have "fold_loop (checksum_loop [0x45, 0, 0xff] 0) = 324" by code_simp
  moreover have "svz_raw_ip_checksum [0x45, 0, 0xff] = htons 65211" by code_simp
  ultimately show ?thesis by simp
qed

subsection \<open>Packets between two sockets\<close>

text \<open>
  An IP packet as the peer's kernel delivers it: 20 bytes of IP header without options, the ICMP
  header, the payload, and behind it whatever the static buffer held before.
\<close>

definition plain_ip :: "mem \<Rightarrow> nat \<Rightarrow> bool" where
  "plain_ip ip len \<longleftrightarrow> length ip = 20 \<and> ip ! 0 = 0x45 \<and> ip ! 9 = 1 \<and> len \<le> unat (htons (dec16 (drop 2 ip)))"

lemma icmp_unpack_pack: "icmp_unpack_header (icmp_pack_header h) = h"
proof -
  have "drop 2 (icmp_pack_header h) = enc16 (htons (ih_checksum h)) @ enc16 (htons (ih_ident h)) @ enc16 (htons (ih_sequence h)) @ enc16 (ih_port h)"
    "drop 4 (icmp_pack_header h) = enc16 (htons (ih_ident h)) @ enc16 (htons (ih_sequence h)) @ enc16 (ih_port h)"
    "drop 6 (icmp_pack_header h) = enc16 (htons (ih_sequence h)) @ enc16 (ih_port h)"
    "drop 8 (icmp_pack_header h) = enc16 (ih_port h)"
    "icmp_pack_header h ! 0 = ih_type h" "icmp_pack_header h ! 1 = ih_code h"
    by (simp_all add: icmp_pack_header_def enc16_def)
  then show ?thesis by (simp add: icmp_unpack_header_def)
qed

lemma dec16_take: "2 \<le> n \<Longrightarrow> dec16 (take n xs) = dec16 xs"
  by (simp add: dec16_def)

lemma ip_header_ok:
  assumes "plain_ip ip len" "20 \<le> len"
  shows "svz_raw_check_ip_header (ip @ rest) (int len) = Some (20, ip[10 := 0, 11 := 0] @ rest)"
proof -
  have l: "length ip = 20" and v: "ip ! 0 = 0x45" "ip ! 9 = 1" and t: "len \<le> unat (htons (dec16 (drop 2 ip)))"
    using assms(1) by (simp_all add: plain_ip_def)
  have "poke (ip @ rest) 10 [0, 0] = Some (ip[10 := 0, 11 := 0] @ rest)"
  proof -
    have "ip[10 := 0, 11 := 0] = take 10 ip @ [0, 0] @ drop 12 ip"
      by (rule nth_equalityI) (auto simp: l nth_append nth_Cons' nth_list_update)
    then show ?thesis by (simp add: poke_def l)
  qed
  moreover obtain h where h: "raw_unpack_header (ip @ rest) = Some h" "ip_version_length h = 0x45" "ip_protocol h = 1"
      "ip_length h = htons (dec16 (drop 2 ip))"
    using l v by (simp add: raw_unpack_header_def peek_def)
  moreover have "IP_HDR_VERSION h = 4" "IP_HDR_LENGTH h = 20" unfolding IP_HDR_VERSION_def IP_HDR_LENGTH_def h(2) by code_simp+
  moreover have "\<not> uint (ip_length h) < int len" unfolding h(4) uint_nat using t by (simp only: not_less of_nat_le_iff)
  ultimately show ?thesis using assms(2) by (simp add: svz_raw_check_ip_header_def)
qed

text \<open>The verdict of \<^verbatim>\<open>check_packet\<close> on a packet in the format of \<^verbatim>\<open>svz_icmp_write\<close> and \<^verbatim>\<open>svz_icmp_send_control\<close>.\<close>

lemma check_packet_format:
  assumes ip: "plain_ip ip (30 + length payload)" and ty: "sk_itype from = sk_itype sock"
  shows "check_packet pid sock (ip @ icmp_pack_header (icmp_header pid' from code payload) @ payload @ junk) (30 + int (length payload))
    = (let buf = ip[10 := 0, 11 := 0] @ icmp_pack_header (icmp_header pid' from code payload) @ payload @ junk
       in if uint (word_of_int (pid' + sk_id from) :: u16) = pid + sk_id sock then Some (ICMP_ERROR, sock, buf)
          else if sk_remote_port from \<noteq> sk_remote_port sock \<and> \<not> has_flag sock SVZ_SOFLG_LISTENING then Some (ICMP_ERROR, sock, buf)
          else Some (if code = SVZ_ICMP_SERVEEZ_CLOSE then ICMP_DISCONNECT else 30, sock\<lparr>sk_remote_port := sk_remote_port from\<rparr>, buf))"
proof -
  let ?h = "icmp_header pid' from code payload" and ?ip = "ip[10 := 0, 11 := 0]"
  let ?buf = "?ip @ icmp_pack_header ?h @ payload @ junk"
  have l: "length ip = 20" using ip by (simp add: plain_ip_def)
  note hd = ip_header_ok [OF ip, of "icmp_pack_header ?h @ payload @ junk"]
  have i: "int (30 + length payload) = 30 + int (length payload)" by simp
  have p1: "peek ?buf 20 ICMP_HEADER_SIZE = Some (icmp_pack_header ?h)" by (simp add: peek_def l ICMP_HEADER_SIZE_def)
  have p2: "(if 30 + int (length payload) - (20 + int ICMP_HEADER_SIZE) > 0
             then peek ?buf (20 + int ICMP_HEADER_SIZE) (nat (30 + int (length payload) - (20 + int ICMP_HEADER_SIZE))) else Some []) = Some payload"
    by (cases "payload = []") (simp_all add: peek_def l ICMP_HEADER_SIZE_def)
  have f: "ih_type ?h = sk_itype sock" "ih_code ?h = code" "ih_checksum ?h = svz_raw_ip_checksum payload"
    "ih_ident ?h = word_of_int (pid' + sk_id from)" "ih_port ?h = sk_remote_port from" using ty by (simp_all add: icmp_header_def)
  have n: "((20 :: int) = -1) = False" "20 + int ICMP_HEADER_SIZE = 30" by (simp_all add: ICMP_HEADER_SIZE_def)
  have hd: "svz_raw_check_ip_header (ip @ icmp_pack_header ?h @ payload @ junk) (30 + int (length payload)) = Some (20, ?buf)"
    using hd unfolding i by simp
  show ?thesis unfolding check_packet_def hd
    by (simp only: Let_def Option.bind.bind_lunit prod.case n(1) if_False p1 p2 [unfolded n(2)] icmp_unpack_pack f n(2) if_True simp_thms)
qed

text \<open>
  C17. A packet in the format that \<^verbatim>\<open>svz_icmp_write\<close> and \<^verbatim>\<open>svz_icmp_send_control\<close> give it is accepted by
  \<^verbatim>\<open>check_packet\<close> of a socket with the same ICMP type on the same port (or listening) and with another
  identifier, with any payload: the receiver learns the port, a closing packet is recognised, and
  for every other one the reported offset is where the payload lies, unchanged.
\<close>

theorem icmp_packet_roundtrip:
  assumes "plain_ip ip (30 + length payload)" and "sk_itype from = sk_itype sock"
    and "uint (word_of_int (pid' + sk_id from) :: u16) \<noteq> pid + sk_id sock"
    and "sk_remote_port from = sk_remote_port sock \<or> has_flag sock SVZ_SOFLG_LISTENING"
  shows "\<exists>buf. check_packet pid sock (ip @ icmp_pack_header (icmp_header pid' from code payload) @ payload @ junk) (30 + int (length payload))
        = Some (if code = SVZ_ICMP_SERVEEZ_CLOSE then ICMP_DISCONNECT else 30, sock\<lparr>sk_remote_port := sk_remote_port from\<rparr>, buf)
      \<and> peek buf 30 (length payload) = Some payload"
proof -
  let ?buf = "ip[10 := 0, 11 := 0] @ icmp_pack_header (icmp_header pid' from code payload) @ payload @ junk"
  have "peek ?buf 30 (length payload) = Some payload" using assms(1) by (simp add: peek_def plain_ip_def)
  moreover have "\<not> (sk_remote_port from \<noteq> sk_remote_port sock \<and> \<not> has_flag sock SVZ_SOFLG_LISTENING)" using assms(4) by blast
  ultimately show ?thesis using check_packet_format [OF assms(1,2), of pid pid' code junk] assms(3)
    by (intro exI [of _ ?buf] conjI) (simp_all only: Let_def if_False)
qed

definition ex_ip :: "mem" where
  "ex_ip = [0x45, 0, 0, 33, 0, 0, 0, 0, 64, 1, 0xAB, 0xCD, 127, 0, 0, 1, 127, 0, 0, 1]"

lemma ex_ip: "plain_ip ex_ip 33"
proof -
  have "drop 2 ex_ip = enc16 (htons 33) @ drop 4 ex_ip" unfolding ex_ip_def by code_simp
  then have "htons (dec16 (drop 2 ex_ip)) = 33" by simp
  then show ?thesis by (simp add: plain_ip_def ex_ip_def)
qed

theorem icmp_packet_roundtrip_witness:
  "\<exists>buf. check_packet 100 ex_sock (ex_ip @ icmp_pack_header (icmp_header 77 ex_sock SVZ_ICMP_SERVEEZ_DATA [1, 2, 3]) @ [1, 2, 3] @ [9]) 33
     = Some (30, ex_sock, buf) \<and> peek buf 30 3 = Some [1, 2, 3]"
proof -
  have i: "sk_id ex_sock = 0" by (simp add: ex_sock_def svz_sock_alloc_def)
  have p: "plain_ip ex_ip (30 + length [1, 2, 3 :: byte])" using ex_ip by simp
  have n: "uint (word_of_int (77 + sk_id ex_sock) :: u16) \<noteq> 100 + sk_id ex_sock" unfolding i by simp
  have s: "ex_sock\<lparr>sk_remote_port := sk_remote_port ex_sock\<rparr> = ex_sock" by simp
  have c: "SVZ_ICMP_SERVEEZ_DATA \<noteq> SVZ_ICMP_SERVEEZ_CLOSE" by (simp add: SVZ_ICMP_SERVEEZ_DATA_def SVZ_ICMP_SERVEEZ_CLOSE_def)
  show ?thesis using icmp_packet_roundtrip [OF p refl n, of SVZ_ICMP_SERVEEZ_DATA "[9]"] c unfolding s by (simp add: numeral_3_eq_3)
qed

text \<open>
  A socket recognises its own packets, which a raw socket receives as well, only while the process id
  plus its own id is below 65536: the header carries the lower 16 bits of that sum, while
  \<^verbatim>\<open>check_packet\<close> compares with the whole sum. With a larger process id every packet that the socket
  has sent comes back as data from a peer.
\<close>

theorem own_icmp_packets:
  assumes "plain_ip ip (30 + length payload)" and "0 \<le> pid + sk_id sock" and "code \<noteq> SVZ_ICMP_SERVEEZ_CLOSE"
  shows "map_option fst (check_packet pid sock (ip @ icmp_pack_header (icmp_header pid sock code payload) @ payload @ junk) (30 + int (length payload)))
    = Some (if pid + sk_id sock < 65536 then ICMP_ERROR else 30)"
proof -
  have "uint (word_of_int (pid + sk_id sock) :: u16) = (pid + sk_id sock) mod 65536"
    by (simp only: uint_word_of_int) simp
  then have "uint (word_of_int (pid + sk_id sock) :: u16) = pid + sk_id sock \<longleftrightarrow> pid + sk_id sock < 65536"
    using assms(2) by (metis mod_pos_pos_trivial pos_mod_bound zero_less_numeral)
  then show ?thesis using check_packet_format [OF assms(1) refl, of pid sock pid code junk] assms(3) by (simp add: Let_def)
qed

theorem own_icmp_packets_witness:
  "map_option fst (check_packet 70000 ex_sock (ex_ip @ icmp_pack_header (icmp_header 70000 ex_sock 0 [1, 2, 3]) @ [1, 2, 3] @ []) 33) = Some 30"
proof -
  have i: "sk_id ex_sock = 0" by (simp add: ex_sock_def svz_sock_alloc_def)
  have p: "plain_ip ex_ip (30 + length [1, 2, 3 :: byte])" using ex_ip by simp
  show ?thesis using own_icmp_packets [OF p, of 70000 ex_sock 0 "[]"] by (simp add: i SVZ_ICMP_SERVEEZ_CLOSE_def)
qed

text \<open>
  A packet that ends before its ICMP header does is not rejected. \<^verbatim>\<open>unpack_header\<close> reads the header from what
  earlier packets left in the static buffer, the negative length passes as an empty payload, and
  when those bytes look like the header of an empty packet the result is an offset behind the end
  of the packet: the caller goes on with a negative number of bytes.
\<close>

theorem short_icmp_packet:
  assumes "plain_ip ip (20 + n)" and "n < 10" and "ih_type h = sk_itype sock" and "ih_checksum h = svz_raw_ip_checksum []"
    and "uint (ih_ident h) \<noteq> pid + sk_id sock" and "ih_port h = sk_remote_port sock" and "ih_code h \<noteq> SVZ_ICMP_SERVEEZ_CLOSE"
  shows "\<exists>off sock' buf. check_packet pid sock (ip @ icmp_pack_header h @ junk) (20 + int n) = Some (off, sock', buf) \<and> off > 20 + int n"
proof -
  let ?buf = "ip[10 := 0, 11 := 0] @ icmp_pack_header h @ junk"
  have l: "length ip = 20" using assms(1) by (simp add: plain_ip_def)
  have hd: "svz_raw_check_ip_header (ip @ icmp_pack_header h @ junk) (20 + int n) = Some (20, ?buf)"
    using ip_header_ok [OF assms(1), of "icmp_pack_header h @ junk"] by simp
  have p1: "peek ?buf 20 ICMP_HEADER_SIZE = Some (icmp_pack_header h)" by (simp add: peek_def l ICMP_HEADER_SIZE_def)
  have n: "((20 :: int) = -1) = False" "20 + int ICMP_HEADER_SIZE = 30" "(0 < 20 + int n - 30) = False"
    using assms(2) by (simp_all add: ICMP_HEADER_SIZE_def)
  have "check_packet pid sock (ip @ icmp_pack_header h @ junk) (20 + int n) = Some (30, sock\<lparr>sk_remote_port := ih_port h\<rparr>, ?buf)"
    unfolding check_packet_def hd using assms(3-7)
    by (simp only: Let_def Option.bind.bind_lunit prod.case n if_False p1 icmp_unpack_pack if_True simp_thms)
  then show ?thesis using assms(2) by simp
qed

theorem short_icmp_packet_witness:
  "\<exists>off sock' buf. check_packet 5 ex_sock (ex_ip @ icmp_pack_header (icmp_header 77 ex_sock 0 []) @ []) 25 = Some (off, sock', buf) \<and> off > 25"
proof -
  have p: "plain_ip ex_ip (20 + 5)" using ex_ip by (simp add: plain_ip_def)
  have i: "sk_id ex_sock = 0" by (simp add: ex_sock_def svz_sock_alloc_def)
  show ?thesis using short_icmp_packet [OF p, of "icmp_header 77 ex_sock 0 []" ex_sock 5 "[]"]
    by (simp add: icmp_header_def i SVZ_ICMP_SERVEEZ_CLOSE_def)
qed

text \<open>
  A UDP packet that the access lists refuse is not processed, but it stays in the receive buffer: after the
  next packet that is let through the servers get both, one after the other, as one packet. (\<^verbatim>\<open>access\<close>
  decides by the sender, which the socket has stored.)
\<close>

theorem udp_denied_packet_kept:
  assumes "recv_rep sock vs" and "\<not> has_flag sock SVZ_SOFLG_CONNECTED" and "\<not> has_flag sock SVZ_SOFLG_FIXED"
    and "nt_recvfrom nt (sk_sock_desc sock) False (nat (sk_recv_buffer_size sock - int (length vs))) w = ((int (length bytes), bytes, addr, port), w')"
    and "bytes \<noteq> []" and "int (length vs + length bytes) \<le> sk_recv_buffer_size sock"
  shows "\<exists>sock'. recv_rep sock' (vs @ bytes) \<and> sk_remote_addr sock' = Some addr \<and> sk_remote_port sock' = port
    \<and> udp_read_socket nt access (Some check_request) sock w =
        (if access sock' < 0 then Some (0, sock', w')
         else map_option (\<lambda>(r, s, w). (if r \<noteq> 0 then -1 else 0, s, w)) (check_request sock' w'))"
proof -
  have b: "buf_rep (sk_recv_buffer sock) (sk_recv_buffer_size sock) (sk_recv_buffer_fill sock) vs"
    using assms(1) by (simp add: recv_rep_def)
  have fill: "sk_recv_buffer_fill sock = int (length vs)" using buf_rep_length [OF b] by simp
  have pos: "int (length vs) < sk_recv_buffer_size sock" using assms(5,6) by (cases bytes) auto
  obtain xs where xs: "buf_write (sk_recv_buffer sock) (sk_recv_buffer_fill sock) bytes = Some xs"
      "buf_rep (Some xs) (sk_recv_buffer_size sock) (sk_recv_buffer_fill sock + int (length bytes)) (vs @ bytes)"
    using buf_write_rep [OF b, of bytes] assms(6) fill by auto
  let ?s = "sock\<lparr>sk_recv_buffer := Some xs, sk_last_recv := nt_time nt w',
                 sk_recv_buffer_fill := sk_recv_buffer_fill sock + int (length bytes), sk_remote_port := port, sk_remote_addr := Some addr\<rparr>"
  have "udp_read_socket nt access (Some check_request) sock w =
        (if access ?s < 0 then Some (0, ?s, w')
         else map_option (\<lambda>(r, s, w). (if r \<noteq> 0 then -1 else 0, s, w)) (check_request ?s w'))"
    using pos assms(2-5) xs(1) fill unfolding udp_read_socket_def
    by (cases "check_request ?s w'") (auto simp: Let_def has_flag_def)
  moreover have "recv_rep ?s (vs @ bytes)" using xs(2) by (simp add: recv_rep_def)
  ultimately show ?thesis by (intro exI [of _ ?s] conjI) simp_all
qed

definition ex_deny_net :: "mem \<Rightarrow> unit net" where
  "ex_deny_net bytes = \<lparr>nt_sendto = (\<lambda>_ _ data w. (0, w)), nt_recvfrom = (\<lambda>_ _ n w. ((int (length bytes), bytes, 1, 2), w)),
     nt_time = (\<lambda>w. 0), nt_unavailable = (\<lambda>w. False)\<rparr>"

theorem udp_denied_packet_kept_witness:
  "\<exists>sock'. recv_rep sock' [1, 2] \<and> udp_read_socket (ex_deny_net [1, 2]) (\<lambda>_. -1) (Some (\<lambda>s w. None)) ex_sock () = Some (0, sock', ())"
proof -
  have r: "recv_rep ex_sock []" "sk_recv_buffer_size ex_sock = RECV_BUF_SIZE" "\<not> has_flag ex_sock SVZ_SOFLG_CONNECTED"
    "\<not> has_flag ex_sock SVZ_SOFLG_FIXED"
    by (simp_all add: ex_sock_def svz_sock_alloc_def recv_rep_def buf_rep_def RECV_BUF_SIZE_def has_flag_def soflg_defs)
  have n: "nt_recvfrom (ex_deny_net [1, 2]) (sk_sock_desc ex_sock) False (nat (sk_recv_buffer_size ex_sock - int (length ([] :: mem)))) ()
     = ((int (length [1, 2 :: byte]), [1, 2], 1, 2), ())" by (simp add: ex_deny_net_def)
  have s: "int (length ([] :: mem) + length [1, 2 :: byte]) \<le> sk_recv_buffer_size ex_sock" by (simp add: r(2) RECV_BUF_SIZE_def)
  show ?thesis using udp_denied_packet_kept [OF r(1,3,4) n _ s, of "\<lambda>_. -1" "\<lambda>s w. None"] by auto
qed

end
