(* ===== verification/Svz_Address.thy ===== *)
theory Svz_Address
  imports Svz_Array Svz_Util
begin

text \<open>
  Network addresses and interfaces: \<^verbatim>\<open>address.c\<close>, \<^verbatim>\<open>interface.c\<close> and the conversions \<^verbatim>\<open>svz_inet_ntoa\<close>,
  \<^verbatim>\<open>svz_inet_aton\<close> (\<^verbatim>\<open>core.c\<close>) and \<^verbatim>\<open>svz_pton\<close> (\<^verbatim>\<open>util.c\<close>) between IPv4 addresses and their texts. An IPv4
  address is the 32-bit word whose bytes in memory are the address in network byte order. Strings are the
  lists of their bytes, without the NUL. The text \<^verbatim>\<open>inet_ntop\<close> makes of an IPv6 address is a parameter.
  The list of interfaces is a dynamic array of structures; the interfaces the operating system
  reports to \<^verbatim>\<open>collect\<close> are a parameter.
\<close>

subsection \<open>Texts of IPv4 addresses\<close>

text \<open>\<^verbatim>\<open>inet_ntoa\<close>: the four bytes in memory order.\<close>

definition svz_inet_ntoa :: "u32 \<Rightarrow> mem" where
  "svz_inet_ntoa ip = dec_digits (unat (enc32 ip ! 0)) @ 46 # dec_digits (unat (enc32 ip ! 1)) @ 46
     # dec_digits (unat (enc32 ip ! 2)) @ 46 # dec_digits (unat (enc32 ip ! 3))"

text \<open>
  \<^verbatim>\<open>inet_pton\<close> for \<^verbatim>\<open>AF_INET\<close>: four decimal numbers from 0 to 255, of one to three digits and without leading
  zeros, separated by dots.
\<close>

fun split_dots :: "mem \<Rightarrow> mem list" where
  "split_dots [] = [[]]"
| "split_dots (c # cs) =
     (if c = 46 then [] # split_dots cs
      else case split_dots cs of [] \<Rightarrow> [[c]] | p # ps \<Rightarrow> (c # p) # ps)"

definition octet :: "mem \<Rightarrow> byte option" where
  "octet p =
     (let v = foldl (\<lambda>n c. n * 10 + (unat c - 48)) 0 p
      in if p = [] \<or> 3 < length p \<or> \<not> list_all is_digit p \<or> (1 < length p \<and> hd p = 48) \<or> 255 < v
         then None else Some (word_of_nat v))"

definition inet_pton :: "mem \<Rightarrow> u32 option" where
  "inet_pton str =
     (case split_dots str of
        [a, b, c, d] \<Rightarrow> do { a \<leftarrow> octet a; b \<leftarrow> octet b; c \<leftarrow> octet c; d \<leftarrow> octet d; Some (le32 [a, b, c, d]) }
      | _ \<Rightarrow> None)"

text \<open>\<^verbatim>\<open>svz_pton\<close> and \<^verbatim>\<open>svz_inet_aton\<close>: the result and the address afterwards, \<open>dst\<close> before.\<close>

definition svz_pton :: "mem \<Rightarrow> u32 \<Rightarrow> int \<times> u32" where
  "svz_pton str dst = (case inet_pton str of Some a \<Rightarrow> (0, a) | None \<Rightarrow> (-1, dst))"

definition INADDR_ANY :: u32 where "INADDR_ANY = 0"

definition svz_inet_aton :: "mem \<Rightarrow> u32 \<Rightarrow> int \<times> u32" where
  "svz_inet_aton str addr = (if str = lit ''*'' then (0, INADDR_ANY) else svz_pton str addr)"

subsection \<open>Address objects\<close>

definition AF_UNSPEC :: int where "AF_UNSPEC = 0"
definition AF_INET :: int where "AF_INET = 2"
definition AF_INET6 :: int where "AF_INET6 = 10"

record svz_address =
  ad_family :: int
  ad_u :: "byte cell list"

text \<open>
  The outer option is undefined behaviour (a read outside of the object, or of bytes nobody has written), the
  inner one \<^verbatim>\<open>NULL\<close>. The union has the 16 bytes of its IPv6 member; the IPv6 branch copies as many bytes as
  a pointer has.
\<close>

definition svz_address_make :: "int \<Rightarrow> byte cell list option \<Rightarrow> svz_address option option" where
  "svz_address_make family bits =
     (case bits of
        None \<Rightarrow> Some None
      | Some bits \<Rightarrow>
          let u = replicate 16 Uninit
          in if family = AF_INET then do {
               b \<leftarrow> rd_range bits 0 4;
               u \<leftarrow> wr_range u 0 b;
               Some (Some \<lparr>ad_family = family, ad_u = u\<rparr>) }
             else if family = AF_INET6 then do {
               b \<leftarrow> rd_range bits 0 8;
               u \<leftarrow> wr_range u 0 b;
               Some (Some \<lparr>ad_family = family, ad_u = u\<rparr>) }
             else Some (Some \<lparr>ad_family = AF_UNSPEC, ad_u = u\<rparr>))"

definition svz_address_family :: "svz_address \<Rightarrow> int" where
  "svz_address_family addr = ad_family addr"

text \<open>The result and the bytes put into \<^verbatim>\<open>dest\<close> (\<open>dest\<close>: not \<^verbatim>\<open>NULL\<close>).\<close>

definition svz_address_to :: "bool \<Rightarrow> svz_address option \<Rightarrow> (int \<times> mem) option" where
  "svz_address_to dest addr =
     (case addr of
        None \<Rightarrow> Some (-1, [])
      | Some a \<Rightarrow>
          if \<not> dest \<or> AF_UNSPEC = ad_family a then Some (-1, [])
          else if ad_family a = AF_INET then do { b \<leftarrow> rd_range (ad_u a) 0 4; Some (0, b) }
          else if ad_family a = AF_INET6 then do { b \<leftarrow> rd_range (ad_u a) 0 16; Some (0, b) }
          else Some (-1, []))"

definition svz_address_same :: "svz_address \<Rightarrow> svz_address \<Rightarrow> bool option" where
  "svz_address_same a b =
     (if ad_family a \<noteq> ad_family b then Some False
      else do {
        let n = (if AF_INET = ad_family a then 4 else 16);
        x \<leftarrow> rd_range (ad_u a) 0 n;
        y \<leftarrow> rd_range (ad_u b) 0 n;
        Some (memcmp x y n = 0)
      })"

definition svz_address_copy :: "svz_address \<Rightarrow> svz_address option option" where
  "svz_address_copy addr = svz_address_make (ad_family addr) (Some (ad_u addr))"

text \<open>
  \<^verbatim>\<open>inet_ntop\<close> refuses an unknown family and a buffer that is too small. The results of the printers are the
  string put into the buffer of \<open>sz\<close> bytes, or \<^verbatim>\<open>NULL\<close>.
\<close>

definition inet_ntop :: "(mem \<Rightarrow> mem) \<Rightarrow> int \<Rightarrow> byte cell list \<Rightarrow> nat \<Rightarrow> mem option option" where
  "inet_ntop ntop6 family u sz =
     (if family = AF_INET then do {
        b \<leftarrow> rd_range u 0 4;
        let s = svz_inet_ntoa (le32 b);
        Some (if length s < sz then Some s else None) }
      else if family = AF_INET6 then do {
        b \<leftarrow> rd_range u 0 16;
        let s = ntop6 b;
        Some (if length s < sz then Some s else None) }
      else Some None)"

definition svz_pp_address :: "(mem \<Rightarrow> mem) \<Rightarrow> nat \<Rightarrow> svz_address option \<Rightarrow> mem option option" where
  "svz_pp_address ntop6 sz addr =
     (case addr of
        None \<Rightarrow> Some None
      | Some a \<Rightarrow> if sz = 0 then Some None else inet_ntop ntop6 (ad_family a) (ad_u a) sz)"

text \<open>
  \<^verbatim>\<open>snprintf\<close> into a buffer of \<open>sz > 0\<close> bytes keeps the first \<open>sz - 1\<close> bytes of the text. An address of
  another family leaves the buffer as it was; the result here is then the old string \<open>old\<close>.
\<close>

definition svz_pp_addr_port :: "(mem \<Rightarrow> mem) \<Rightarrow> mem \<Rightarrow> nat \<Rightarrow> svz_address option \<Rightarrow> u16 \<Rightarrow> mem option option" where
  "svz_pp_addr_port ntop6 old sz addr port =
     (case addr of
        None \<Rightarrow> Some None
      | Some a \<Rightarrow>
          if sz = 0 then Some None
          else do {
            let pbuf = take 9 (58 # printf_d (uint (htons port)));
            if ad_family a = AF_INET then do {
              s \<leftarrow> svz_pp_address ntop6 64 addr;
              s \<leftarrow> s;
              Some (Some (take (sz - 1) (s @ pbuf))) }
            else if ad_family a = AF_INET6 then do {
              s \<leftarrow> svz_pp_address ntop6 64 addr;
              s \<leftarrow> s;
              Some (Some (take (sz - 1) (91 # s @ 93 # pbuf))) }
            else Some (Some old)
          })"

subsection \<open>Interfaces\<close>

record svz_interface =
  if_index :: nat
  if_description :: "mem option"
  if_addr :: svz_address
  if_detected :: bool

type_synonym ifc_list = "svz_interface svz_array option"

text \<open>The structures a loop over the list visits; a \<^verbatim>\<open>NULL\<close> pointer in the list would be dereferenced.\<close>

definition ifc_elems :: "ifc_list \<Rightarrow> svz_interface list option" where
  "ifc_elems interfaces = do { vs \<leftarrow> svz_array_foreach interfaces 0; those vs }"

text \<open>The callback of \<^verbatim>\<open>svz_foreach_interface\<close> works on a state.\<close>

fun foreach_ifc :: "(svz_interface \<Rightarrow> 's \<Rightarrow> (int \<times> 's) option) \<Rightarrow> svz_interface list \<Rightarrow> 's \<Rightarrow> (int \<times> 's) option" where
  "foreach_ifc func [] s = Some (0, s)"
| "foreach_ifc func (ifc # ifcs) s = do {
     (rv, s) \<leftarrow> func ifc s;
     if 0 > rv then Some (rv, s) else foreach_ifc func ifcs s
   }"

definition svz_foreach_interface ::
    "ifc_list \<Rightarrow> (svz_interface \<Rightarrow> 's \<Rightarrow> (int \<times> 's) option) \<Rightarrow> 's \<Rightarrow> (int \<times> 's) option" where
  "svz_foreach_interface interfaces func s = do { ifcs \<leftarrow> ifc_elems interfaces; foreach_ifc func ifcs s }"

fun find_address :: "svz_address \<Rightarrow> svz_interface list \<Rightarrow> svz_interface option option" where
  "find_address addr [] = Some None"
| "find_address addr (ifc # ifcs) = do {
     e \<leftarrow> svz_address_same (if_addr ifc) addr;
     if e then Some (Some ifc) else find_address addr ifcs
   }"

definition white :: "byte \<Rightarrow> bool" where
  "white c \<longleftrightarrow> c = 10 \<or> c = 13 \<or> c = 9 \<or> c = 32"

fun trim_desc :: "mem \<Rightarrow> nat \<Rightarrow> mem" where
  "trim_desc d 0 = take 1 d"
| "trim_desc d (Suc p) = (if white (d ! Suc p) then trim_desc d p else take (Suc (Suc p)) d)"

text \<open>
  \<^verbatim>\<open>svz_interface_add\<close>. An address that is not of family \<^verbatim>\<open>AF_INET\<close> aborts the program, and \<^verbatim>\<open>strlen\<close> of a missing
  description crashes it (\<^verbatim>\<open>svz_strdup\<close> gives \<^verbatim>\<open>NULL\<close> for \<^verbatim>\<open>NULL\<close> and for the empty string).
\<close>

definition svz_interface_add ::
    "nat \<Rightarrow> mem option \<Rightarrow> int \<Rightarrow> byte cell list option \<Rightarrow> bool \<Rightarrow> ifc_list \<Rightarrow> (int \<times> ifc_list) option" where
  "svz_interface_add index desc family bits detected interfaces = do {
     addr \<leftarrow> svz_address_make family bits;
     addr \<leftarrow> addr;
     if AF_INET \<noteq> svz_address_family addr then None
     else do {
       ifcs \<leftarrow> ifc_elems interfaces;
       dup \<leftarrow> find_address addr ifcs;
       let interfaces = (case interfaces of None \<Rightarrow> Some (svz_array_create 1 True) | Some a \<Rightarrow> Some a);
       if dup \<noteq> None then Some (-1, interfaces)
       else do {
         d \<leftarrow> svz_strdup desc;
         let d = trim_desc d (length d - 1);
         interfaces \<leftarrow> svz_array_add interfaces
           (Some \<lparr>if_index = index, if_description = Some d, if_addr = addr, if_detected = detected\<rparr>);
         Some (0, interfaces)
       }
     }
   }"

definition by_address :: "svz_address \<Rightarrow> ifc_list \<Rightarrow> svz_interface option option" where
  "by_address addr interfaces = do { ifcs \<leftarrow> ifc_elems interfaces; find_address addr ifcs }"

fun find_desc :: "mem \<Rightarrow> svz_interface list \<Rightarrow> svz_interface option option" where
  "find_desc desc [] = Some None"
| "find_desc desc (ifc # ifcs) = do {
     d \<leftarrow> if_description ifc;
     if d = desc then Some (Some ifc) else find_desc desc ifcs
   }"

definition svz_interface_search :: "mem \<Rightarrow> ifc_list \<Rightarrow> svz_interface option option" where
  "svz_interface_search desc interfaces = do { ifcs \<leftarrow> ifc_elems interfaces; find_desc desc ifcs }"

text \<open>\<^verbatim>\<open>collect\<close>: \<open>os\<close> are the indices, names and addresses that the \<^verbatim>\<open>ioctl\<close>s report.\<close>

fun collect :: "(nat \<times> mem \<times> u32) list \<Rightarrow> ifc_list \<Rightarrow> ifc_list option" where
  "collect [] interfaces = Some interfaces"
| "collect ((index, name, ip) # os) interfaces = do {
     (rv, interfaces) \<leftarrow> svz_interface_add index (Some name) AF_INET (Some (map Cell (enc32 ip))) True interfaces;
     collect os interfaces
   }"

definition discard_ifcs :: "ifc_list \<Rightarrow> ifc_list option" where
  "discard_ifcs interfaces =
     (case interfaces of None \<Rightarrow> Some None | Some a \<Rightarrow> do { ds \<leftarrow> svz_array_destroy (Some a); Some None })"

text \<open>
  The two loops of \<^verbatim>\<open>svz_interface_check\<close>. The state of the first is the new list and the number of changes.
  The results of \<^verbatim>\<open>svz_interface_check\<close> are the new list and that number.
\<close>

fun removed_loop :: "svz_interface list \<Rightarrow> ifc_list \<Rightarrow> nat \<Rightarrow> (ifc_list \<times> nat) option" where
  "removed_loop [] interfaces changes = Some (interfaces, changes)"
| "removed_loop (ifc # was) interfaces changes = do {
     f \<leftarrow> by_address (if_addr ifc) interfaces;
     if f = None then do {
       (rv, v4addr) \<leftarrow> svz_address_to True (Some (if_addr ifc));
       if \<not> if_detected ifc then do {
         (rv, interfaces) \<leftarrow> svz_interface_add (if_index ifc) (if_description ifc) AF_INET
           (Some (map Cell v4addr)) (if_detected ifc) interfaces;
         removed_loop was interfaces changes }
       else removed_loop was interfaces (Suc changes) }
     else removed_loop was interfaces changes
   }"

fun count_same :: "svz_address \<Rightarrow> svz_interface list \<Rightarrow> nat option" where
  "count_same addr [] = Some 0"
| "count_same addr (ofc # was) = do {
     e \<leftarrow> svz_address_same (if_addr ofc) addr;
     n \<leftarrow> count_same addr was;
     Some (if e then Suc n else n)
   }"

fun added_loop :: "svz_interface list \<Rightarrow> svz_interface list \<Rightarrow> nat \<Rightarrow> nat option" where
  "added_loop was [] changes = Some changes"
| "added_loop was (ifc # ifcs) changes = do {
     found \<leftarrow> count_same (if_addr ifc) was;
     added_loop was ifcs (if found = 0 then Suc changes else changes)
   }"

definition svz_interface_check :: "(nat \<times> mem \<times> u32) list \<Rightarrow> ifc_list \<Rightarrow> (ifc_list \<times> nat) option" where
  "svz_interface_check os interfaces =
     (case interfaces of
        None \<Rightarrow> Some (None, 0)
      | Some a \<Rightarrow> do {
          was \<leftarrow> ifc_elems interfaces;
          new \<leftarrow> collect os None;
          (new, changes) \<leftarrow> removed_loop was new 0;
          ifcs \<leftarrow> ifc_elems new;
          changes \<leftarrow> added_loop was ifcs changes;
          Some (new, changes)
        })"

subsection \<open>Texts and addresses\<close>

lemma split_dots_part: "46 \<notin> set p \<Longrightarrow> split_dots (p @ 46 # q) = p # split_dots q"
  by (induction p) auto

lemma split_dots_last: "46 \<notin> set p \<Longrightarrow> split_dots p = [p]"
  by (induction p) auto

lemma dec_digits_no_dot: "46 \<notin> set (dec_digits n)"
  using dec_digits_is_digit [of 46 n] by (auto simp: is_digit_def)

lemma foldl_dec_digits: "foldl (\<lambda>n c. n * 10 + (unat c - 48)) 0 (dec_digits n) = n"
proof (induction n rule: dec_digits.induct)
  case (1 n)
  have u: "unat (word_of_nat d + 48 :: byte) - 48 = d" if "d < 10" for d :: nat
  proof -
    from that have "d \<in> set [0, 1, 2, 3, 4, 5, 6, 7, 8, 9]" by (auto simp: eval_nat_numeral less_Suc_eq)
    then show ?thesis by auto
  qed
  show ?case
  proof (cases "n < 10")
    case True
    then show ?thesis using u by (simp add: dec_digits_small)
  next
    case False
    then show ?thesis using 1 u [of "n mod 10"] by (simp add: dec_digits_step)
  qed
qed

lemma dec_digits_head: "10 \<le> n \<Longrightarrow> hd (dec_digits n) \<noteq> 48"
proof (induction n rule: dec_digits.induct)
  case (1 n)
  then have step: "dec_digits n = dec_digits (n div 10) @ [word_of_nat (n mod 10) + 48]" by (simp add: dec_digits_step)
  have ne: "dec_digits (n div 10) \<noteq> []" using length_dec_digits_pos [of "n div 10"] by blast
  show ?case
  proof (cases "n div 10 < 10")
    case True
    from 1(2) have "0 < n div 10" by simp
    with True have "n div 10 \<in> {1, 2, 3, 4, 5, 6, 7, 8, 9}" by auto
    then show ?thesis unfolding step using True by (auto simp: dec_digits_small)
  next
    case False
    then show ?thesis using 1 ne by (simp add: step hd_append)
  qed
qed

lemma octet_digits: "length (dec_digits (unat (b :: byte))) \<le> 3"
proof -
  have "unat b < 10 ^ Suc 2" using unat_bound [of b] by simp
  then show ?thesis using length_dec_digits [of "unat b" 2] by simp
qed

lemma octet_dec_digits: "octet (dec_digits (unat (b :: byte))) = Some b"
proof -
  have "unat b < 256" using unat_bound [of b] by simp
  note octet_digits [of b]
  moreover have "dec_digits (unat b) \<noteq> []" using length_dec_digits_pos [of "unat b"] by blast
  moreover have "\<not> (1 < length (dec_digits (unat b)) \<and> hd (dec_digits (unat b)) = 48)"
    using dec_digits_head [of "unat b"] by (cases "unat b < 10") (auto simp: dec_digits_small)
  moreover have "list_all is_digit (dec_digits (unat b))" using dec_digits_is_digit by (auto simp: list_all_iff)
  ultimately show ?thesis using \<open>unat b < 256\<close> by (simp add: octet_def Let_def foldl_dec_digits)
qed

text \<open>\<^verbatim>\<open>inet_pton\<close> reads the text \<^verbatim>\<open>inet_ntoa\<close> makes of an address back.\<close>

lemma inet_pton_ntoa [simp]: "inet_pton (svz_inet_ntoa ip) = Some ip"
proof -
  have "[enc32 ip ! 0, enc32 ip ! 1, enc32 ip ! 2, enc32 ip ! 3] = enc32 ip" by (simp add: enc32_def)
  then have "le32 [enc32 ip ! 0, enc32 ip ! 1, enc32 ip ! 2, enc32 ip ! 3] = ip" by simp
  then show ?thesis
    unfolding inet_pton_def svz_inet_ntoa_def
    by (simp add: split_dots_part split_dots_last dec_digits_no_dot octet_dec_digits)
qed

lemma svz_inet_ntoa_inj: "svz_inet_ntoa ip = svz_inet_ntoa ip' \<longleftrightarrow> ip = ip'"
  by (metis inet_pton_ntoa option.inject)

lemma inet_ntoa_chars: "c \<in> set (svz_inet_ntoa ip) \<Longrightarrow> is_digit c \<or> c = 46"
  by (auto simp: svz_inet_ntoa_def dest: dec_digits_is_digit)

lemma length_inet_ntoa: "7 \<le> length (svz_inet_ntoa ip) \<and> length (svz_inet_ntoa ip) \<le> 15"
proof -
  have "1 \<le> length (dec_digits (unat (b :: byte))) \<and> length (dec_digits (unat b)) \<le> 3" for b
    using octet_digits [of b] length_dec_digits_pos [of "unat b"] by linarith
  from this [of "enc32 ip ! 0"] this [of "enc32 ip ! 1"] this [of "enc32 ip ! 2"] this [of "enc32 ip ! 3"]
  show ?thesis by (simp add: svz_inet_ntoa_def)
qed

lemma svz_inet_aton_ntoa: "svz_inet_aton (svz_inet_ntoa ip) old = (0, ip)"
  using length_inet_ntoa [of ip] by (auto simp: svz_inet_aton_def svz_pton_def lit_def)

text \<open>An IPv4 address object.\<close>

definition inet_address :: "u32 \<Rightarrow> svz_address" where
  "inet_address ip = \<lparr>ad_family = AF_INET, ad_u = map Cell (enc32 ip) @ replicate 12 Uninit\<rparr>"

lemmas af_defs = AF_UNSPEC_def AF_INET_def AF_INET6_def

lemma length_enc32 [simp]: "length (enc32 x) = 4"
  by (simp add: enc32_def)

lemma rd_range_inet [simp]:
  "rd_range (map Cell (enc32 ip) @ ys) 0 4 = Some (enc32 ip)" "rd_range (map Cell (enc32 ip)) 0 4 = Some (enc32 ip)"
  by (auto simp: rd_range_def Let_def)

lemma wr_range_blank: "length b \<le> 16 \<Longrightarrow> wr_range (replicate 16 Uninit) 0 b = Some (map Cell b @ replicate (16 - length b) Uninit)"
  by (simp add: wr_range_def)

lemma address_make_inet [simp]: "svz_address_make AF_INET (Some (map Cell (enc32 ip))) = Some (Some (inet_address ip))"
  by (simp add: svz_address_make_def wr_range_blank inet_address_def)

lemma address_to_inet [simp]: "svz_address_to True (Some (inet_address ip)) = Some (0, enc32 ip)"
  by (simp add: svz_address_to_def inet_address_def af_defs)

lemma address_copy_inet: "svz_address_copy (inet_address ip) = Some (Some (inet_address ip))"
  by (simp add: svz_address_copy_def svz_address_make_def inet_address_def wr_range_blank)

lemma address_same_inet [simp]: "svz_address_same (inet_address ip) (inet_address ip') = Some (ip = ip')"
proof -
  have "memcmp (enc32 ip) (enc32 ip') 4 = 0 \<longleftrightarrow> enc32 ip = enc32 ip'" by (simp add: memcmp_eq_0)
  also have "\<dots> \<longleftrightarrow> ip = ip'" by (metis dec_enc32)
  finally show ?thesis by (simp add: svz_address_same_def inet_address_def)
qed

text \<open>
  The copy of an IPv6 address loses its second half: \<^verbatim>\<open>svz_address_make\<close> copies 8 of the 16 bytes, so that
  \<^verbatim>\<open>svz_address_to\<close>, \<^verbatim>\<open>svz_address_same\<close> and the printers read bytes nobody has written.
\<close>

lemma address_ipv6_incomplete:
  assumes "length bs = 16"
  shows "\<exists>a. svz_address_make AF_INET6 (Some (map Cell bs)) = Some (Some a)
    \<and> svz_address_to True (Some a) = None \<and> svz_address_same a a = None \<and> svz_pp_address ntop6 64 (Some a) = None"
proof -
  have r: "rd_range (map Cell bs) 0 8 = Some (take 8 bs)"
    using assms by (auto simp: rd_range_def Let_def take_map)
  have n: "rd_range (map Cell (take 8 bs) @ replicate 8 Uninit) 0 16 = None"
    using assms by (simp add: rd_range_def Let_def)
  show ?thesis
    using assms n by (auto simp: svz_address_make_def r wr_range_blank svz_address_to_def svz_address_same_def
        svz_pp_address_def inet_ntop_def af_defs)
qed

subsection \<open>The interface list\<close>

text \<open>The abstraction: the interfaces in order, all of them IPv4, with pairwise different addresses and a
  name without white space at its end.\<close>

definition ifc_ip :: "svz_interface \<Rightarrow> u32" where
  "ifc_ip ifc = le32 (map the_cell (ad_u (if_addr ifc)))"

definition ifc_ok :: "svz_interface \<Rightarrow> bool" where
  "ifc_ok ifc \<longleftrightarrow> if_addr ifc = inet_address (ifc_ip ifc) \<and> (\<exists>d. if_description ifc = Some d \<and> d \<noteq> [] \<and> trim_desc d (length d - 1) = d)"

definition ifcs_rep :: "ifc_list \<Rightarrow> svz_interface list \<Rightarrow> bool" where
  "ifcs_rep interfaces l \<longleftrightarrow> (interfaces = None \<and> l = [] \<or> handle_inv interfaces \<and> handle_vals interfaces = map Some l)
     \<and> (\<forall>ifc\<in>set l. ifc_ok ifc) \<and> distinct (map ifc_ip l)"

lemma those_map_Some [simp]: "those (map Some xs) = Some xs"
  by (induction xs) auto

lemma ifc_elems_rep: "ifcs_rep interfaces l \<Longrightarrow> ifc_elems interfaces = Some l"
  by (cases interfaces) (auto simp: ifcs_rep_def ifc_elems_def svz_array_foreach_from svz_array_foreach.simps [of None])

lemma le32_enc_cells: "le32 (map the_cell (map Cell (enc32 ip) @ ys)) = ip"
  by (simp add: comp_def)

lemma ifc_ip_inet: "if_addr ifc = inet_address ip \<Longrightarrow> ifc_ip ifc = ip"
  unfolding ifc_ip_def inet_address_def by (simp only: svz_address.simps le32_enc_cells)

lemma ifc_ok_addr: "ifc_ok ifc \<Longrightarrow> if_addr ifc = inet_address (ifc_ip ifc)"
  by (simp only: ifc_ok_def)

lemma ifc_ok_same [simp]: "ifc_ok ifc \<Longrightarrow> svz_address_same (if_addr ifc) (inet_address ip) = Some (ifc_ip ifc = ip)"
  using address_same_inet [of "ifc_ip ifc" ip] by (simp only: ifc_ok_addr)

lemma find_address_ok:
  "\<forall>ifc\<in>set l. ifc_ok ifc \<Longrightarrow> find_address (inet_address ip) l = Some (find (\<lambda>ifc. ifc_ip ifc = ip) l)"
  by (induction l) auto

lemma find_ip: "find (\<lambda>ifc. ifc_ip ifc = ip) l = None \<longleftrightarrow> ip \<notin> ifc_ip ` set l"
  by (induction l) auto

lemma count_same_ok:
  "\<forall>ifc\<in>set l. ifc_ok ifc \<Longrightarrow> count_same (inet_address ip) l = Some (length [ifc\<leftarrow>l. ifc_ip ifc = ip])"
  by (induction l) auto

lemma trim_desc_nonempty: "d \<noteq> [] \<Longrightarrow> trim_desc d p \<noteq> []"
  by (induction d p rule: trim_desc.induct) auto

lemma trim_desc_idem: "p < length d \<Longrightarrow> trim_desc (trim_desc d p) (length (trim_desc d p) - 1) = trim_desc d p"
proof (induction d p rule: trim_desc.induct)
  case (1 d)
  then show ?case by (cases d) auto
next
  case (2 d p)
  have "take (Suc (Suc p)) d = d" if "length d \<le> Suc (Suc p)" using that by simp
  moreover have "length d - 1 = Suc p" if "length d \<le> Suc (Suc p)" using that 2(2) by simp
  ultimately show ?case using 2 by (cases "white (d ! Suc p)") (auto simp: min_def)
qed

definition new_ifc :: "nat \<Rightarrow> mem \<Rightarrow> u32 \<Rightarrow> bool \<Rightarrow> svz_interface" where
  "new_ifc index d ip detected = \<lparr>if_index = index, if_description = Some (trim_desc d (length d - 1)),
     if_addr = inet_address ip, if_detected = detected\<rparr>"

lemma new_ifc_simps [simp]:
  "ifc_ip (new_ifc index d ip detected) = ip" "if_detected (new_ifc index d ip detected) = detected"
  "if_addr (new_ifc index d ip detected) = inet_address ip"
  by (simp_all add: new_ifc_def ifc_ip_inet)

lemma interface_add_rep:
  assumes rep: "ifcs_rep interfaces l" and d: "d \<noteq> []"
  shows "\<exists>i'. svz_interface_add index (Some d) AF_INET (Some (map Cell (enc32 ip))) detected interfaces
       = Some (if ip \<in> ifc_ip ` set l then -1 else 0, i')
     \<and> ifcs_rep i' (if ip \<in> ifc_ip ` set l then l else l @ [new_ifc index d ip detected])"
proof -
  note el = ifc_elems_rep [OF rep]
  have ok: "\<forall>ifc\<in>set l. ifc_ok ifc" and dist: "distinct (map ifc_ip l)" using rep by (auto simp: ifcs_rep_def)
  let ?i = "case interfaces of None \<Rightarrow> Some (svz_array_create 1 True) | Some a \<Rightarrow> Some a"
  have i: "handle_inv ?i" "handle_vals ?i = map Some l"
    using rep by (auto simp: ifcs_rep_def array_inv_create split: option.splits)
  then obtain i' where add: "svz_array_add ?i (Some (new_ifc index d ip detected)) = Some i'"
      "handle_inv i'" "handle_vals i' = map Some (l @ [new_ifc index d ip detected])"
    using arr.vadd [OF i(1), of "Some (new_ifc index d ip detected)"] by auto
  have fam: "svz_address_family (inet_address ip) = AF_INET" by (simp add: svz_address_family_def inet_address_def)
  have dd: "svz_strdup (Some d) = Some d" using d by (simp add: svz_strdup_def)
  have nok: "ifc_ok (new_ifc index d ip detected)"
    using trim_desc_nonempty [OF d, of "length d - 1"] trim_desc_idem [of "length d - 1" d] d unfolding ifc_ok_def new_ifc_simps by (simp add: new_ifc_def)
  show ?thesis
  proof (cases "ip \<in> ifc_ip ` set l")
    case True
    then have "find (\<lambda>ifc. ifc_ip ifc = ip) l \<noteq> None" by (simp add: find_ip)
    then show ?thesis using True i ok dist
      by (auto simp: svz_interface_add_def el find_address_ok fam Let_def ifcs_rep_def)
  next
    case False
    then have "find (\<lambda>ifc. ifc_ip ifc = ip) l = None" by (simp add: find_ip)
    then show ?thesis using False add ok dist nok
      by (auto simp: svz_interface_add_def el find_address_ok fam Let_def ifcs_rep_def dd new_ifc_def [of index d ip detected, simplified, symmetric])
  qed
qed

lemma new_ifc_same:
  assumes "ifc_ok ifc"
  shows "\<exists>d. if_description ifc = Some d \<and> d \<noteq> [] \<and> new_ifc (if_index ifc) d (ifc_ip ifc) (if_detected ifc) = ifc"
proof -
  from assms obtain d where d: "if_description ifc = Some d" "d \<noteq> []" "trim_desc d (length d - 1) = d"
    unfolding ifc_ok_def by blast
  then have "new_ifc (if_index ifc) d (ifc_ip ifc) (if_detected ifc) = ifc"
    unfolding new_ifc_def d(3) ifc_ok_addr [OF assms, symmetric] by (cases ifc) simp
  with d show ?thesis by blast
qed

text \<open>What \<^verbatim>\<open>collect\<close> adds to a list: each address it has not got yet.\<close>

fun collected :: "(nat \<times> mem \<times> u32) list \<Rightarrow> svz_interface list \<Rightarrow> svz_interface list" where
  "collected [] l = l"
| "collected ((index, name, ip) # os) l =
     collected os (if ip \<in> ifc_ip ` set l then l else l @ [new_ifc index name ip True])"

definition os_ips :: "(nat \<times> mem \<times> u32) list \<Rightarrow> u32 set" where
  "os_ips os = (\<lambda>(index, name, ip). ip) ` set os"

lemma collected_ips: "ifc_ip ` set (collected os l) = ifc_ip ` set l \<union> os_ips os"
  by (induction os l rule: collected.induct) (auto simp: os_ips_def)

lemma collect_rep:
  "ifcs_rep i l \<Longrightarrow> \<forall>(index, name, ip)\<in>set os. name \<noteq> [] \<Longrightarrow>
     \<exists>i'. collect os i = Some i' \<and> ifcs_rep i' (collected os l)"
proof (induction os arbitrary: i l)
  case Nil
  then show ?case by simp
next
  case (Cons x os)
  obtain index name ip where x: "x = (index, name, ip)" by (cases x)
  with Cons.prems obtain i' where
    "svz_interface_add index (Some name) AF_INET (Some (map Cell (enc32 ip))) True i = Some (if ip \<in> ifc_ip ` set l then -1 else 0, i')"
    "ifcs_rep i' (if ip \<in> ifc_ip ` set l then l else l @ [new_ifc index name ip True])"
    using interface_add_rep [OF Cons.prems(1), of name index ip True] by auto
  moreover have "\<forall>(index, name, ip)\<in>set os. name \<noteq> []" using Cons.prems(2) by simp
  ultimately show ?case using Cons.IH by (simp add: x)
qed

definition gone :: "svz_interface list \<Rightarrow> svz_interface \<Rightarrow> bool" where
  "gone l w \<longleftrightarrow> ifc_ip w \<notin> ifc_ip ` set l"

lemma removed_loop_rep:
  "ifcs_rep i l \<Longrightarrow> \<forall>w\<in>set was. ifc_ok w \<Longrightarrow> distinct (map ifc_ip was) \<Longrightarrow>
     \<exists>i'. removed_loop was i c = Some (i', c + length [w\<leftarrow>was. if_detected w \<and> gone l w])
        \<and> ifcs_rep i' (l @ [w\<leftarrow>was. \<not> if_detected w \<and> gone l w])"
proof (induction was arbitrary: i l c)
  case Nil
  then show ?case by simp
next
  case (Cons w was)
  have ok: "ifc_ok w" using Cons.prems by simp
  have okl: "\<forall>ifc\<in>set l. ifc_ok ifc" using Cons.prems(1) by (simp add: ifcs_rep_def)
  have ba: "by_address (if_addr w) i = Some (find (\<lambda>ifc. ifc_ip ifc = ifc_ip w) l)"
    using find_address_ok [OF okl, of "ifc_ip w"] by (simp add: by_address_def ifc_elems_rep [OF Cons.prems(1)] ifc_ok_addr [OF ok])
  have to: "svz_address_to True (Some (if_addr w)) = Some (0, enc32 (ifc_ip w))"
    by (simp add: ifc_ok_addr [OF ok])
  obtain d where d: "if_description w = Some d" "d \<noteq> []" "new_ifc (if_index w) d (ifc_ip w) (if_detected w) = w"
    using new_ifc_same [OF ok] by blast
  have rest: "[v\<leftarrow>was. P v \<and> gone (l @ [w]) v] = [v\<leftarrow>was. P v \<and> gone l v]" for P
    using Cons.prems(3) by (intro filter_cong) (auto simp: gone_def image_iff)
  show ?case
  proof (cases "gone l w \<and> \<not> if_detected w")
    case True
    then obtain i' where i': "svz_interface_add (if_index w) (Some d) AF_INET (Some (map Cell (enc32 (ifc_ip w)))) False i = Some (0, i')"
        "ifcs_rep i' (l @ [w])"
      using interface_add_rep [OF Cons.prems(1) d(2), of "if_index w" "ifc_ip w" False] d(3) by (auto simp: gone_def)
    have f: "find (\<lambda>ifc. ifc_ip ifc = ifc_ip w) l = None" using True by (simp add: find_ip gone_def)
    show ?thesis using True Cons.IH [OF i'(2), of c] Cons.prems by (simp add: ba to d i' f rest)
  next
    case False
    then show ?thesis using Cons.IH [OF Cons.prems(1), of c] Cons.IH [OF Cons.prems(1), of "Suc c"] Cons.prems(2,3) by (auto simp: ba to find_ip gone_def)
  qed
qed

lemma added_loop_ok:
  assumes "\<forall>w\<in>set was. ifc_ok w"
  shows "\<forall>i\<in>set l. ifc_ok i \<Longrightarrow> added_loop was l c = Some (c + length [i\<leftarrow>l. gone was i])"
proof (induction l arbitrary: c)
  case Nil
  then show ?case by simp
next
  case (Cons i l)
  have "count_same (if_addr i) was = Some (length [w\<leftarrow>was. ifc_ip w = ifc_ip i])"
    using Cons.prems by (simp add: ifc_ok_addr [of i] count_same_ok [OF assms])
  moreover have "[w\<leftarrow>was. ifc_ip w = ifc_ip i] = [] \<longleftrightarrow> gone was i" by (auto simp: gone_def filter_empty_conv image_iff)
  ultimately show ?case using Cons by auto
qed

text \<open>
  \<^verbatim>\<open>svz_interface_check\<close> brings the list of interfaces up to date: afterwards it has the interfaces the system
  reports, each address once, followed by those of the old list that were added by hand and whose address is not
  reported, unchanged and in their order; detected interfaces that are no longer reported are gone. The number of
  changes is that of the removed and of the new addresses.
\<close>

theorem interface_check_tracks:
  assumes "ifcs_rep (Some a) was" "\<forall>(index, name, ip)\<in>set os. name \<noteq> []"
  shows "\<exists>new now. svz_interface_check os (Some a) = Some (new,
        length [w\<leftarrow>was. if_detected w \<and> ifc_ip w \<notin> os_ips os] + length [i\<leftarrow>now. gone was i])
     \<and> ifcs_rep new now \<and> now = collected os [] @ [w\<leftarrow>was. \<not> if_detected w \<and> ifc_ip w \<notin> os_ips os]
     \<and> ifc_ip ` set (collected os []) = os_ips os"
proof -
  have was: "\<forall>w\<in>set was. ifc_ok w" "distinct (map ifc_ip was)" using assms(1) by (auto simp: ifcs_rep_def)
  have "ifcs_rep None []" by (simp add: ifcs_rep_def)
  from collect_rep [OF this assms(2)] obtain i where i: "collect os None = Some i" "ifcs_rep i (collected os [])" by blast
  have g: "gone (collected os []) w \<longleftrightarrow> ifc_ip w \<notin> os_ips os" for w by (simp add: gone_def collected_ips)
  let ?now = "collected os [] @ [w\<leftarrow>was. \<not> if_detected w \<and> ifc_ip w \<notin> os_ips os]"
  obtain i' where i': "removed_loop was i 0 = Some (i', length [w\<leftarrow>was. if_detected w \<and> ifc_ip w \<notin> os_ips os])" "ifcs_rep i' ?now"
    using removed_loop_rep [OF i(2) was, of 0] by (auto simp: g)
  have "\<forall>ifc\<in>set ?now. ifc_ok ifc" using i'(2) unfolding ifcs_rep_def by blast
  then have "added_loop was ?now c = Some (c + length [i\<leftarrow>?now. gone was i])" for c
    by (rule added_loop_ok [OF was(1)])
  then have "svz_interface_check os (Some a) = Some (i',
        length [w\<leftarrow>was. if_detected w \<and> ifc_ip w \<notin> os_ips os] + length [i\<leftarrow>?now. gone was i])"
    unfolding svz_interface_check_def
    by (simp add: ifc_elems_rep [OF assms(1)] i i'(1) ifc_elems_rep [OF i'(2)] del: filter_append)
  then show ?thesis using i'(2) by (auto simp: collected_ips)
qed

text \<open>
  An example: the loopback interface and an interface added by hand; the system then reports a new ethernet
  interface and no loopback interface.
\<close>

definition ex_ifcs :: ifc_list where
  "ex_ifcs = the (do { i \<leftarrow> collect [(1, lit ''lo'', 0x0100007f)] None;
     (rv, i) \<leftarrow> svz_interface_add 7 (Some (lit ''tun '')) AF_INET (Some (map Cell (enc32 0x0100000a))) False i; Some i })"

definition ex_was :: "svz_interface list" where
  "ex_was = [new_ifc 1 (lit ''lo'') 0x0100007f True, new_ifc 7 (lit ''tun '') 0x0100000a False]"

lemma ex_ifcs_rep: "ifcs_rep ex_ifcs ex_was \<and> ex_ifcs \<noteq> None"
proof -
  have "ifcs_rep None []" by (simp add: ifcs_rep_def)
  from collect_rep [OF this, of "[(1, lit ''lo'', 0x0100007f)]"]
  obtain i where i: "collect [(1, lit ''lo'', 0x0100007f)] None = Some i"
      "ifcs_rep i [new_ifc 1 (lit ''lo'') 0x0100007f True]" by (auto simp: lit_def)
  have "lit ''tun '' \<noteq> []" by (simp add: lit_def)
  from interface_add_rep [OF i(2) this, of 7 "0x0100000a" False] i(1)
  have "ifcs_rep ex_ifcs ex_was" by (auto simp: ex_ifcs_def ex_was_def)
  moreover from this have "ex_ifcs \<noteq> None" unfolding ifcs_rep_def ex_was_def by (metis handle_simps(2) list.distinct(1))
  ultimately show ?thesis by blast
qed

theorem interface_check_tracks_witness:
  "\<exists>new. svz_interface_check [(2, lit ''eth0'', 0x0200000a)] ex_ifcs = Some (new, 2)
     \<and> ifcs_rep new [new_ifc 2 (lit ''eth0'') 0x0200000a True, new_ifc 7 (lit ''tun '') 0x0100000a False]"
proof -
  obtain a where a: "ex_ifcs = Some a" using ex_ifcs_rep by blast
  have "ifcs_rep (Some a) ex_was" using ex_ifcs_rep a by simp
  moreover have "\<forall>(index, name, ip)\<in>set [(2::nat, lit ''eth0'', 0x0200000a::u32)]. name \<noteq> []" by (simp add: lit_def)
  ultimately show ?thesis
    using interface_check_tracks [of a ex_was "[(2, lit ''eth0'', 0x0200000a)]"]
    by (auto simp: a ex_was_def os_ips_def gone_def)
qed

end
