(* ===== verification/Nut_Core.thy ===== *)
theory Nut_Core
  imports Svz_Hash Svz_Address
begin

text \<open>
  The packets and texts of the gnutella server, \<^verbatim>\<open>src/nut-server/nut-core.c\<close>: conversion of packet
  headers to bytes and back, GUIDs, addresses, keys of the host catcher, properties of HTTP-like
  headers. The machine is little-endian, so that \<^verbatim>\<open>ltohl\<close> and its relatives are the identity and
  \<^verbatim>\<open>ltons\<close> swaps. Integers in packets take their bytes in memory order. \<^verbatim>\<open>inet_addr\<close> of the C library is
  a parameter.
\<close>

definition NUT_PORT :: u16 where "NUT_PORT = 6346"
definition NUT_PING_REQ :: byte where "NUT_PING_REQ = 0x00"
definition NUT_PING_ACK :: byte where "NUT_PING_ACK = 0x01"
definition NUT_PUSH_REQ :: byte where "NUT_PUSH_REQ = 0x40"
definition NUT_SEARCH_REQ :: byte where "NUT_SEARCH_REQ = 0x80"
definition NUT_SEARCH_ACK :: byte where "NUT_SEARCH_ACK = 0x81"

lemmas nut_functions = NUT_PING_REQ_def NUT_PING_ACK_def NUT_PUSH_REQ_def NUT_SEARCH_REQ_def NUT_SEARCH_ACK_def

subsection \<open>Addresses\<close>

text \<open>\<^verbatim>\<open>svz_strdup\<close> of the bytes of a string: \<^verbatim>\<open>NULL\<close> for \<^verbatim>\<open>NULL\<close> and for the empty string.\<close>

definition strdup_mem :: "mem option \<Rightarrow> mem option" where
  "strdup_mem src = (case src of None \<Rightarrow> None | Some s \<Rightarrow> if s \<noteq> [] \<and> hd s = 0 then None else Some s)"

text \<open>
  Both parsers work on a copy of the string, in which they put a NUL in place of the colon. The
  results are the part before it and the port in network byte order.
\<close>

definition nut_parse_host :: "mem option \<Rightarrow> (mem \<times> u16) option option" where
  "nut_parse_host addr =
     (case strdup_mem addr of
        None \<Rightarrow> Some None
      | Some str \<Rightarrow>
          let host = takeWhile (\<lambda>c. c \<noteq> 58 \<and> c \<noteq> 0) str; p = dropWhile (\<lambda>c. c \<noteq> 58 \<and> c \<noteq> 0) str
          in case p of
               [] \<Rightarrow> None
             | c # p \<Rightarrow>
                 if c \<noteq> 0 then do { n \<leftarrow> svz_atoi p; Some (Some (host @ [0], htons (ucast n))) }
                 else Some (Some (host @ [0], htons NUT_PORT)))"

definition nut_parse_addr :: "(mem \<Rightarrow> u32) \<Rightarrow> mem option \<Rightarrow> (u32 \<times> u16) option option" where
  "nut_parse_addr inet_addr addr =
     (case strdup_mem addr of
        None \<Rightarrow> Some None
      | Some str \<Rightarrow>
          let host = takeWhile (\<lambda>c. is_digit c \<or> c = 46) str; p = dropWhile (\<lambda>c. is_digit c \<or> c = 46) str
          in case p of
               [] \<Rightarrow> None
             | c # p \<Rightarrow>
                 if c \<noteq> 0 \<and> c \<noteq> 58 then Some None
                 else if c \<noteq> 0 then do { n \<leftarrow> svz_atoi p; Some (Some (inet_addr (host @ [0]), htons (ucast n))) }
                 else Some (Some (inet_addr (host @ [0]), htons NUT_PORT)))"

definition nut_client_key :: "u32 \<Rightarrow> u16 \<Rightarrow> mem" where
  "nut_client_key ip port = svz_inet_ntoa ip @ 58 # dec_digits (unat (htons port)) @ [0]"

subsection \<open>GUIDs\<close>

text \<open>\<open>rs\<close> are the results of \<^verbatim>\<open>rand ()\<close>.\<close>

definition nut_calc_guid :: "int list \<Rightarrow> mem" where
  "nut_calc_guid rs = map (\<lambda>r. word_of_int (drop_bit 1 r AND 0xff)) (take NUT_GUID_SIZE rs)"

definition hex_digit :: "byte \<Rightarrow> byte" where
  "hex_digit n = (if n < 10 then n + 48 else n + 55)"

text \<open>\<^verbatim>\<open>%02X\<close>\<close>

definition hex2 :: "byte \<Rightarrow> mem" where
  "hex2 b = [hex_digit (drop_bit 4 b), hex_digit (b AND 0x0f)]"

definition nut_print_guid :: "mem \<Rightarrow> mem" where
  "nut_print_guid guid = concat (map hex2 (take 4 guid)) @ [45] @ concat (map hex2 (take 2 (drop 4 guid))) @ [45]
     @ concat (map hex2 (take 2 (drop 6 guid))) @ [45] @ concat (map hex2 (take 8 (drop 8 guid))) @ [0]"

definition nut_text_guid :: "mem \<Rightarrow> mem" where
  "nut_text_guid guid = concat (map hex2 (take NUT_GUID_SIZE guid)) @ [0]"

subsection \<open>Packets\<close>

record nut_header =
  nh_id :: mem
  nh_function :: byte
  nh_ttl :: byte
  nh_hop :: byte
  nh_length :: u32

record nut_pong =
  np_port :: u16
  np_ip :: u32
  np_files :: u32
  np_size :: u32

record nut_query =
  nq_speed :: u16

record nut_record =
  nr_index :: u32
  nr_size :: u32

record nut_reply =
  ny_records :: byte
  ny_port :: u16
  ny_ip :: u32
  ny_speed :: u16

record nut_push =
  nu_id :: mem
  nu_index :: u32
  nu_ip :: u32
  nu_port :: u16

definition SIZEOF_NUT_HEADER :: nat where "SIZEOF_NUT_HEADER = NUT_GUID_SIZE + 7"
definition SIZEOF_NUT_PONG :: nat where "SIZEOF_NUT_PONG = 14"
definition SIZEOF_NUT_QUERY :: nat where "SIZEOF_NUT_QUERY = 2"
definition SIZEOF_NUT_RECORD :: nat where "SIZEOF_NUT_RECORD = 8"
definition SIZEOF_NUT_REPLY :: nat where "SIZEOF_NUT_REPLY = 11"
definition SIZEOF_NUT_PUSH :: nat where "SIZEOF_NUT_PUSH = 26"

lemmas nut_sizes = SIZEOF_NUT_HEADER_def SIZEOF_NUT_PONG_def SIZEOF_NUT_QUERY_def SIZEOF_NUT_RECORD_def
  SIZEOF_NUT_REPLY_def SIZEOF_NUT_PUSH_def NUT_GUID_SIZE_def

text \<open>The readers take the memory from the pointer on; too short a block is an access behind its end.\<close>

definition nut_get_header :: "mem \<Rightarrow> nut_header option" where
  "nut_get_header d =
     (if SIZEOF_NUT_HEADER \<le> length d
      then Some \<lparr>nh_id = take NUT_GUID_SIZE d, nh_function = d ! 16, nh_ttl = d ! 17, nh_hop = d ! 18, nh_length = le32 (drop 19 d)\<rparr>
      else None)"

definition nut_put_header :: "nut_header \<Rightarrow> mem" where
  "nut_put_header hdr = take NUT_GUID_SIZE (nh_id hdr) @ [nh_function hdr, nh_ttl hdr, nh_hop hdr] @ enc32 (nh_length hdr)"

definition nut_get_pong :: "mem \<Rightarrow> nut_pong option" where
  "nut_get_pong d =
     (if SIZEOF_NUT_PONG \<le> length d
      then Some \<lparr>np_port = htons (dec16 d), np_ip = le32 (drop 2 d), np_files = le32 (drop 6 d), np_size = le32 (drop 10 d)\<rparr>
      else None)"

definition nut_put_pong :: "nut_pong \<Rightarrow> mem" where
  "nut_put_pong r = enc16 (htons (np_port r)) @ enc32 (np_ip r) @ enc32 (np_files r) @ enc32 (np_size r)"

definition nut_get_query :: "mem \<Rightarrow> nut_query option" where
  "nut_get_query d = (if SIZEOF_NUT_QUERY \<le> length d then Some \<lparr>nq_speed = dec16 d\<rparr> else None)"

definition nut_put_query :: "nut_query \<Rightarrow> mem" where
  "nut_put_query q = enc16 (nq_speed q)"

definition nut_get_record :: "mem \<Rightarrow> nut_record option" where
  "nut_get_record d =
     (if SIZEOF_NUT_RECORD \<le> length d then Some \<lparr>nr_index = le32 d, nr_size = le32 (drop 4 d)\<rparr> else None)"

definition nut_put_record :: "nut_record \<Rightarrow> mem" where
  "nut_put_record r = enc32 (nr_index r) @ enc32 (nr_size r)"

text \<open>The reply record has more members, which these functions leave alone.\<close>

definition nut_get_reply :: "mem \<Rightarrow> nut_reply option" where
  "nut_get_reply d =
     (if 9 \<le> length d
      then Some \<lparr>ny_records = d ! 0, ny_port = htons (dec16 (drop 1 d)), ny_ip = le32 (drop 3 d), ny_speed = dec16 (drop 7 d)\<rparr>
      else None)"

text \<open>The last two bytes of the static buffer are never written.\<close>

definition nut_put_reply :: "nut_reply \<Rightarrow> mem" where
  "nut_put_reply r = [ny_records r] @ enc16 (htons (ny_port r)) @ enc32 (ny_ip r) @ enc16 (ny_speed r) @ [0, 0]"

definition nut_get_push :: "mem \<Rightarrow> nut_push option" where
  "nut_get_push d =
     (if SIZEOF_NUT_PUSH \<le> length d
      then Some \<lparr>nu_id = take NUT_GUID_SIZE d, nu_index = le32 (drop 16 d), nu_ip = le32 (drop 20 d), nu_port = htons (dec16 (drop 24 d))\<rparr>
      else None)"

definition nut_put_push :: "nut_push \<Rightarrow> mem" where
  "nut_put_push p = take NUT_GUID_SIZE (nu_id p) @ enc32 (nu_index p) @ enc32 (nu_ip p) @ enc16 (htons (nu_port p))"

subsection \<open>Texts\<close>

text \<open>\<^verbatim>\<open>isalnum\<close> and \<^verbatim>\<open>isprint\<close> in the C locale.\<close>

definition is_alnum :: "byte \<Rightarrow> bool" where
  "is_alnum c \<longleftrightarrow> is_digit c \<or> is_upper c \<or> 97 \<le> c \<and> c \<le> 122"

definition is_print :: "byte \<Rightarrow> bool" where
  "is_print c \<longleftrightarrow> 32 \<le> c \<and> c \<le> 126"

fun nut_canonize_file :: "mem \<Rightarrow> mem option" where
  "nut_canonize_file [] = None"
| "nut_canonize_file (c # file) =
     (if c = 0 then Some (c # file)
      else do { r \<leftarrow> nut_canonize_file file; Some ((if \<not> is_alnum c \<and> \<not> is_print c then 95 else c) # r) })"

text \<open>
  The loops of \<^verbatim>\<open>nut_parse_property\<close>; \<open>h\<close> and \<open>p\<close> are positions in the header and in the name of
  the property. The comparison moves both positions before it looks at its result.
\<close>

function scan :: "(byte \<Rightarrow> bool) \<Rightarrow> mem \<Rightarrow> nat \<Rightarrow> nat \<Rightarrow> nat" where
  "scan P hdr e h = (if h < e \<and> P (hdr ! h) then scan P hdr e (h + 1) else h)"
  by pat_completeness auto
termination
  by (relation "measure (\<lambda>(_, _, e, h). e - h)") auto

function compare_name :: "mem \<Rightarrow> nat \<Rightarrow> mem \<Rightarrow> nat \<Rightarrow> nat \<Rightarrow> nat \<times> nat" where
  "compare_name hdr e name h p =
     (if h < e \<and> name ! p \<noteq> 0
      then if to_lower (hdr ! h) = to_lower (name ! p) then compare_name hdr e name (h + 1) (p + 1) else (h + 1, p + 1)
      else (h, p))"
  by pat_completeness auto
termination
  by (relation "measure (\<lambda>(_, e, _, h, _). e - h)") auto

declare scan.simps [simp del] compare_name.simps [simp del]

abbreviation skip_blanks :: "mem \<Rightarrow> nat \<Rightarrow> nat \<Rightarrow> nat" where
  "skip_blanks \<equiv> scan (\<lambda>c. c = 32)"

abbreviation line_end :: "mem \<Rightarrow> nat \<Rightarrow> nat \<Rightarrow> nat" where
  "line_end \<equiv> scan (\<lambda>c. c \<noteq> 13 \<and> c \<noteq> 10)"

text \<open>\<^verbatim>\<open>while (h < end && *h++ == ' ');\<close> stops behind the first byte that is not a blank.\<close>

definition parse_value :: "mem \<Rightarrow> nat \<Rightarrow> nat \<Rightarrow> mem option" where
  "parse_value hdr e h =
     (let h = (let h = skip_blanks hdr e h in if h < e then h + 1 else h)
      in if h \<ge> e \<or> hdr ! (h - 1) \<noteq> 58 then None
         else let h = skip_blanks hdr e h; header = h; h = line_end hdr e h
              in if h \<ge> e \<or> h = header then None else Some (take (h - header) (drop header hdr) @ [0]))"

lemma scan_ge: "h \<le> scan P hdr e h"
proof (induction P hdr e h rule: scan.induct)
  case (1 P hdr e h)
  then show ?case using scan.simps [of P hdr e h] by (cases "h < e \<and> P (hdr ! h)") simp_all
qed

function property_loop :: "mem \<Rightarrow> nat \<Rightarrow> mem \<Rightarrow> nat \<Rightarrow> mem option" where
  "property_loop hdr e name h =
     (if h < e
      then let h = scan (\<lambda>c. to_lower c \<noteq> to_lower (name ! 0)) hdr e h
           in if h \<ge> e then None
              else let (h', p) = compare_name hdr e name h 0
                   in if h' \<ge> e then None
                      else if name ! p \<noteq> 0 then property_loop hdr e name (h + 1)
                      else parse_value hdr e h'
      else None)"
  by pat_completeness auto
termination
proof (relation "measure (\<lambda>(_, e, _, h). e - h)", simp)
  fix hdr :: mem and e name h x xa
  assume "h < e" "x = scan (\<lambda>c. to_lower c \<noteq> to_lower (name ! 0)) hdr e h" "\<not> e \<le> x"
  then show "((hdr, e, name, x + 1), hdr, e, name, h) \<in> measure (\<lambda>(_, e, _, h). e - h)"
    using scan_ge [of h "\<lambda>c. to_lower c \<noteq> to_lower (name ! 0)" hdr e] by simp
qed

declare property_loop.simps [simp del]

definition nut_parse_property :: "mem \<Rightarrow> nat \<Rightarrow> mem \<Rightarrow> mem option option" where
  "nut_parse_property header len property =
     (if len \<le> length header \<and> 0 \<in> set property then Some (property_loop header len property 0) else None)"

subsection \<open>Properties\<close>

lemma packet_lengths [simp]:
  "length (nh_id h) = NUT_GUID_SIZE \<Longrightarrow> length (nut_put_header h) = SIZEOF_NUT_HEADER"
  "length (nut_put_pong p) = SIZEOF_NUT_PONG" "length (nut_put_query q) = SIZEOF_NUT_QUERY"
  "length (nut_put_record r) = SIZEOF_NUT_RECORD" "length (nut_put_reply y) = SIZEOF_NUT_REPLY"
  "length (nu_id u) = NUT_GUID_SIZE \<Longrightarrow> length (nut_put_push u) = SIZEOF_NUT_PUSH"
  by (simp_all add: nut_put_header_def nut_put_pong_def nut_put_query_def nut_put_record_def nut_put_reply_def nut_put_push_def nut_sizes)

lemma get_put_header:
  assumes "length (nh_id h) = NUT_GUID_SIZE"
  shows "nut_get_header (nut_put_header h @ rest) = Some h"
  using assms by (simp add: nut_get_header_def nut_put_header_def nut_sizes nth_append)

text \<open>
  C24. The writers and readers of gnutella packets agree: what \<^verbatim>\<open>nut_put_header\<close>, \<^verbatim>\<open>nut_put_pong\<close>,
  \<^verbatim>\<open>nut_put_query\<close>, \<^verbatim>\<open>nut_put_record\<close>, \<^verbatim>\<open>nut_put_reply\<close> and \<^verbatim>\<open>nut_put_push\<close> produce has the size that the
  protocol gives it, and the corresponding reader gets the same members back, whatever follows in
  memory.
\<close>

theorem nut_packets_roundtrip:
  assumes "length (nh_id h) = NUT_GUID_SIZE" and "length (nu_id u) = NUT_GUID_SIZE"
  shows "(length (nut_put_header h) = SIZEOF_NUT_HEADER \<and> nut_get_header (nut_put_header h @ rest) = Some h)
    \<and> (length (nut_put_pong p) = SIZEOF_NUT_PONG \<and> nut_get_pong (nut_put_pong p @ rest) = Some p)
    \<and> (length (nut_put_query q) = SIZEOF_NUT_QUERY \<and> nut_get_query (nut_put_query q @ rest) = Some q)
    \<and> (length (nut_put_record r) = SIZEOF_NUT_RECORD \<and> nut_get_record (nut_put_record r @ rest) = Some r)
    \<and> (length (nut_put_reply y) = SIZEOF_NUT_REPLY \<and> nut_get_reply (nut_put_reply y @ rest) = Some y)
    \<and> (length (nut_put_push u) = SIZEOF_NUT_PUSH \<and> nut_get_push (nut_put_push u @ rest) = Some u)"
proof (intro conjI)
  show "nut_get_header (nut_put_header h @ rest) = Some h" using get_put_header assms(1) by blast
  show "nut_get_pong (nut_put_pong p @ rest) = Some p"
    by (simp add: nut_get_pong_def nut_put_pong_def nut_sizes)
  show "nut_get_query (nut_put_query q @ rest) = Some q"
    by (simp add: nut_get_query_def nut_put_query_def nut_sizes)
  show "nut_get_record (nut_put_record r @ rest) = Some r"
    by (simp add: nut_get_record_def nut_put_record_def nut_sizes)
  show "nut_get_reply (nut_put_reply y @ rest) = Some y"
    by (simp add: nut_get_reply_def nut_put_reply_def nut_sizes)
  show "nut_get_push (nut_put_push u @ rest) = Some u"
    using assms(2) by (simp add: nut_get_push_def nut_put_push_def nut_sizes)
qed (use assms in simp_all)

theorem nut_packets_roundtrip_witness:
  "nut_get_header (nut_put_header \<lparr>nh_id = replicate 16 7, nh_function = NUT_SEARCH_REQ, nh_ttl = 5, nh_hop = 0, nh_length = 0x01020304\<rparr> @ [9])
     = Some \<lparr>nh_id = replicate 16 7, nh_function = NUT_SEARCH_REQ, nh_ttl = 5, nh_hop = 0, nh_length = 0x01020304\<rparr>"
proof -
  have l: "length (nh_id \<lparr>nh_id = replicate 16 7, nh_function = NUT_SEARCH_REQ, nh_ttl = 5, nh_hop = 0, nh_length = 0x01020304\<rparr>) = NUT_GUID_SIZE"
    "length (nu_id \<lparr>nu_id = replicate 16 1, nu_index = 0, nu_ip = 0, nu_port = 0\<rparr>) = NUT_GUID_SIZE" by (simp_all add: NUT_GUID_SIZE_def)
  show ?thesis by (rule nut_packets_roundtrip [OF l, THEN conjunct1, THEN conjunct2])
qed

lemma dec_digits_nonzero: "c \<in> set (dec_digits n) \<Longrightarrow> c \<noteq> 0 \<and> c \<noteq> 58 \<and> c \<noteq> 46"
  using dec_digits_is_digit [of c n] by (auto simp: is_digit_def)

lemma inet_ntoa_head: "svz_inet_ntoa ip \<noteq> [] \<and> hd (svz_inet_ntoa ip) \<noteq> 0"
proof -
  have "dec_digits (unat (enc32 ip ! 0)) \<noteq> []" using length_dec_digits_pos by (metis length_greater_0_conv)
  moreover from this have "hd (dec_digits (unat (enc32 ip ! 0))) \<noteq> 0" using dec_digits_nonzero [OF hd_in_set] by blast
  ultimately show ?thesis unfolding svz_inet_ntoa_def by (simp add: hd_append)
qed

lemma port_digits: "length (dec_digits (unat (p :: u16))) \<le> 5"
proof -
  have "unat p < 10 ^ Suc 4" using unat_bound [of p] by simp
  then show ?thesis using length_dec_digits [of "unat p" 4] by simp
qed

lemma key_atoi: "svz_atoi (dec_digits (unat (p :: u16)) @ [0]) = Some (ucast p)"
  using atoi_loop_dec_digits [of "unat p" "[0]" 0] by (simp add: svz_atoi_def is_digit_def)

lemma key_parse:
  assumes "inet_addr (svz_inet_ntoa ip @ [0]) = ip"
  shows "nut_parse_addr inet_addr (Some (nut_client_key ip port)) = Some (Some (ip, port))"
proof -
  let ?ip = "svz_inet_ntoa ip" and ?rest = "58 # dec_digits (unat (htons port)) @ [0]"
  have tw: "takeWhile (\<lambda>c. is_digit c \<or> c = 46) (?ip @ ?rest) = ?ip" "dropWhile (\<lambda>c. is_digit c \<or> c = 46) (?ip @ ?rest) = ?rest"
    using inet_ntoa_chars [of _ ip] by (auto simp: takeWhile_append2 dropWhile_append2 is_digit_def)
  have sd: "strdup_mem (Some (?ip @ ?rest)) = Some (?ip @ ?rest)"
    using inet_ntoa_head [of ip] by (simp add: strdup_mem_def hd_append)
  have u: "(ucast (ucast (htons port) :: u32) :: u16) = htons port" by (rule bit_word_eqI) (simp add: bit_simps)
  show ?thesis unfolding nut_parse_addr_def nut_client_key_def sd by (simp add: tw Let_def key_atoi assms u)
qed

lemma key_c_string: "c_string (nut_client_key ip port)"
  by (simp add: nut_client_key_def c_string_def)

text \<open>
  The keys of the host catcher and of the connection table fit into the static buffer of
  \<^verbatim>\<open>nut_client_key\<close>, are NUL-terminated strings, and \<^verbatim>\<open>nut_parse_addr\<close>, through which the server connects to the
  hosts it has caught, gets the address and the port back from them (where \<^verbatim>\<open>inet_addr\<close> inverts
  \<^verbatim>\<open>inet_ntoa\<close>); so different hosts have different keys.
\<close>

theorem client_key_roundtrip:
  assumes "\<And>ip. inet_addr (svz_inet_ntoa ip @ [0]) = ip"
  shows "nut_parse_addr inet_addr (Some (nut_client_key ip port)) = Some (Some (ip, port))
    \<and> length (nut_client_key ip port) \<le> 32 \<and> c_string (nut_client_key ip port)
    \<and> (nut_client_key ip port = nut_client_key ip' port' \<longleftrightarrow> ip = ip' \<and> port = port')"
proof -
  have rt: "nut_parse_addr inet_addr (Some (nut_client_key ip port)) = Some (Some (ip, port))" for ip port
    by (rule key_parse) (rule assms)
  moreover have "nut_client_key ip port = nut_client_key ip' port' \<longleftrightarrow> ip = ip' \<and> port = port'"
  proof
    assume "nut_client_key ip port = nut_client_key ip' port'"
    then have "Some (Some (ip, port)) = Some (Some (ip', port'))" using rt [of ip port] rt [of ip' port'] by metis
    then show "ip = ip' \<and> port = port'" by blast
  qed blast
  moreover have "length (nut_client_key ip port) \<le> 32"
    using octet_digits [of "enc32 ip ! 0"] octet_digits [of "enc32 ip ! 1"] octet_digits [of "enc32 ip ! 2"]
      octet_digits [of "enc32 ip ! 3"] port_digits [of "htons port"]
    by (simp add: nut_client_key_def svz_inet_ntoa_def)
  ultimately show ?thesis using key_c_string by blast
qed

text \<open>An \<^verbatim>\<open>inet_addr\<close> for dotted quads.\<close>

definition next_part :: "mem \<Rightarrow> mem" where
  "next_part s = tl (dropWhile is_digit s)"

definition quad_addr :: "mem \<Rightarrow> u32" where
  "quad_addr s = le32 (map (\<lambda>t. ucast (the (svz_atoi t))) [s, next_part s, next_part (next_part s), next_part (next_part (next_part s))])"

lemma quad_part:
  assumes "\<not> is_digit c"
  shows "ucast (the (svz_atoi (dec_digits (unat (b :: byte)) @ c # rest))) = b" "next_part (dec_digits n @ c # rest) = rest"
proof -
  have "svz_atoi (dec_digits (unat b) @ c # rest) = Some (ucast b)"
    using atoi_loop_dec_digits [of "unat b" "c # rest" 0] assms by (simp add: svz_atoi_def)
  moreover have "ucast (ucast b :: u32) = b" by (rule bit_word_eqI) (simp add: bit_simps)
  ultimately show "ucast (the (svz_atoi (dec_digits (unat b) @ c # rest))) = b" by simp
  show "next_part (dec_digits n @ c # rest) = rest"
    using assms dec_digits_is_digit [of _ n] by (simp add: next_part_def dropWhile_append2)
qed

lemma quad_addr_inverts: "quad_addr (svz_inet_ntoa ip @ [0]) = ip"
proof -
  have n: "\<not> is_digit 46" "\<not> is_digit 0" by (simp_all add: is_digit_def)
  have "quad_addr (svz_inet_ntoa ip @ [0]) = le32 [enc32 ip ! 0, enc32 ip ! 1, enc32 ip ! 2, enc32 ip ! 3]"
    unfolding quad_addr_def svz_inet_ntoa_def by (simp add: quad_part n)
  also have "[enc32 ip ! 0, enc32 ip ! 1, enc32 ip ! 2, enc32 ip ! 3] = enc32 ip" by (simp add: enc32_def)
  finally show ?thesis by simp
qed

theorem client_key_roundtrip_witness:
  "nut_parse_addr quad_addr (Some (nut_client_key 0x0100007f (htons 6346))) = Some (Some (0x0100007f, htons 6346))"
  by (rule client_key_roundtrip [where inet_addr = quad_addr, OF quad_addr_inverts, THEN conjunct1])

lemma scan_run:
  "(\<And>i. h \<le> i \<Longrightarrow> i < k \<Longrightarrow> P (hdr ! i)) \<Longrightarrow> \<not> P (hdr ! k) \<Longrightarrow> h \<le> k \<Longrightarrow> k < e \<Longrightarrow> scan P hdr e h = k"
proof (induction "k - h" arbitrary: h)
  case 0
  then have "h = k" by simp
  then show ?case using 0 by (simp add: scan.simps)
next
  case (Suc n)
  then have "h < k" by simp
  then have "P (hdr ! h)" using Suc.prems(1) [of h] by simp
  moreover have "scan P hdr e (h + 1) = k" using Suc.hyps(2) Suc.prems \<open>h < k\<close> by (intro Suc.hyps(1)) auto
  ultimately show ?case using \<open>h < k\<close> Suc.prems(4) by (subst scan.simps) simp
qed

lemma compare_name_run:
  assumes "\<And>j. j < n \<Longrightarrow> to_lower (hdr ! (b + j)) = to_lower (name ! j) \<and> name ! j \<noteq> 0" "name ! n = 0" "b + n \<le> e" "i \<le> n"
  shows "compare_name hdr e name (b + i) i = (b + n, n)"
  using assms(4)
proof (induction "n - i" arbitrary: i)
  case 0
  then have "i = n" by simp
  then show ?case using assms(2) by (simp add: compare_name.simps)
next
  case (Suc k)
  then have "i < n" by simp
  moreover have "compare_name hdr e name (b + Suc i) (Suc i) = (b + n, n)" using Suc \<open>i < n\<close> by (intro Suc.hyps(1)) auto
  ultimately show ?case using assms(1) [of i] assms(3) by (subst compare_name.simps) simp
qed

text \<open>
  \<^verbatim>\<open>nut_parse_property\<close> finds a property in a header in any case of letters, with blanks around the colon, and
  returns the rest of its line, when no byte before it equals the first letter of the name.
\<close>

theorem parse_property_line:
  assumes "name \<noteq> []" and "0 \<notin> set name" and "length name' = length name" and "map to_lower name' = map to_lower name"
    and "\<And>c. c \<in> set pre \<Longrightarrow> to_lower c \<noteq> to_lower (hd name)"
    and "value \<noteq> []" and "hd value \<noteq> 32" and "13 \<notin> set value" and "10 \<notin> set value"
  shows "nut_parse_property (pre @ name' @ replicate m 32 @ 58 # replicate n 32 @ value @ 13 # rest)
      (length pre + length name' + m + n + length value + 2 + length rest) (name @ [0]) = Some (Some (value @ [0]))"
proof -
  let ?hdr = "pre @ name' @ replicate m 32 @ 58 # replicate n 32 @ value @ 13 # rest"
  let ?e = "length pre + length name' + m + n + length value + 2 + length rest" and ?b = "length pre" and ?l = "length name"
  have nm: "to_lower (name' ! j) = to_lower (name ! j)" if "j < ?l" for j
    using arg_cong [OF assms(4), of "\<lambda>xs. xs ! j"] that assms(3) by simp
  have h: "?hdr ! (?b + j) = name' ! j" if "j < ?l" for j using that assms(3) by (simp add: nth_append)
  have n0: "(name @ [0]) ! 0 = hd name" using assms(1) by (cases name) auto
  have s1: "scan (\<lambda>c. to_lower c \<noteq> to_lower ((name @ [0]) ! 0)) ?hdr ?e 0 = ?b"
  proof (rule scan_run)
    show "to_lower (?hdr ! i) \<noteq> to_lower ((name @ [0]) ! 0)" if "i < ?b" for i
      unfolding n0 using assms(5) [of "pre ! i"] that by (simp add: nth_append)
    show "\<not> to_lower (?hdr ! ?b) \<noteq> to_lower ((name @ [0]) ! 0)"
      unfolding n0 using h [of 0] nm [of 0] assms(1) by (cases name) simp_all
  qed simp_all
  have s2: "compare_name ?hdr ?e (name @ [0]) ?b 0 = (?b + ?l, ?l)"
  proof -
    have "to_lower (?hdr ! (?b + j)) = to_lower ((name @ [0]) ! j) \<and> (name @ [0]) ! j \<noteq> 0" if "j < ?l" for j
      unfolding h [OF that] using nm [OF that] that assms(2) by (auto simp: nth_append) (metis nth_mem)
    then show ?thesis using compare_name_run [of ?l ?hdr ?b "name @ [0]" ?e 0] assms(3) by simp
  qed
  have s3: "skip_blanks ?hdr ?e (?b + ?l) = ?b + ?l + m"
    by (rule scan_run) (use assms(3) in \<open>auto simp: nth_append\<close>)
  have s4: "skip_blanks ?hdr ?e (?b + ?l + m + 1) = ?b + ?l + m + 1 + n"
  proof (rule scan_run)
    show "?hdr ! (?b + ?l + m + 1 + n) \<noteq> 32" using assms(3,6,7) by (cases "value") (simp_all add: nth_append)
  qed (use assms(3) in \<open>auto simp: nth_append nth_Cons'\<close>)
  have s5: "line_end ?hdr ?e (?b + ?l + m + 1 + n) = ?b + ?l + m + 1 + n + length value"
  proof (rule scan_run)
    fix i assume i: "?b + ?l + m + 1 + n \<le> i" "i < ?b + ?l + m + 1 + n + length value"
    obtain j where j: "i = ?b + ?l + m + 1 + n + j" "j < length value" using i le_Suc_ex by (metis nat_add_left_cancel_less)
    have "?hdr ! i = value ! j" unfolding j(1) using assms(3) j(2) by (simp add: nth_append)
    moreover have "value ! j \<in> set value" using j(2) by simp
    ultimately show "?hdr ! i \<noteq> 13 \<and> ?hdr ! i \<noteq> 10" using assms(8,9) by metis
  next
    show "\<not> (?hdr ! (?b + ?l + m + 1 + n + length value) \<noteq> 13 \<and> ?hdr ! (?b + ?l + m + 1 + n + length value) \<noteq> 10)"
      using assms(3) by (simp add: nth_append)
  qed (use assms(3) in simp_all)
  have c: "?hdr ! (?b + ?l + m) = 58" using assms(3) by (simp add: nth_append)
  have "parse_value ?hdr ?e (?b + ?l) = Some (value @ [0])"
    unfolding parse_value_def s3 using s4 s5 c assms(3,6) by (simp add: Let_def)
  then have "property_loop ?hdr ?e (name @ [0]) 0 = Some (value @ [0])"
    using s1 s2 assms(3) by (subst property_loop.simps) (simp add: Let_def)
  moreover have "?e \<le> length ?hdr" by simp
  ultimately show ?thesis unfolding nut_parse_property_def by simp
qed

theorem parse_property_line_witness:
  "nut_parse_property (lit ''HTTP'' @ lit ''RANGE'' @ 58 # replicate 1 32 @ lit ''5-'' @ 13 # [10]) 15 (lit ''Range'' @ [0])
     = Some (Some (lit ''5-'' @ [0]))"
proof -
  have "nut_parse_property (lit ''HTTP'' @ lit ''RANGE'' @ replicate 0 32 @ 58 # replicate 1 32 @ lit ''5-'' @ 13 # [10])
      (length (lit ''HTTP'') + length (lit ''RANGE'') + 0 + 1 + length (lit ''5-'') + 2 + length [10 :: byte]) (lit ''Range'' @ [0])
        = Some (Some (lit ''5-'' @ [0]))"
    by (rule parse_property_line) (auto simp: lit_def to_lower_def is_upper_def)
  then show ?thesis by (simp add: lit_def eval_nat_numeral)
qed

text \<open>
  A name that differs in its last letter only passes for the property: the comparison has already
  moved past that letter when it finds the difference.
\<close>

lemma property_last_letter:
  "nut_parse_property (lit ''Rangx: 5-'' @ [13, 10]) 11 (lit ''Range'' @ [0]) = Some (Some (lit ''5-'' @ [0]))"
  by code_simp

end
