(* ===== verification/Nut_Server.thy ===== *)
theory Nut_Server
  imports Nut_Core Svz_Core
begin

text \<open>
  The gnutella server: validation and routing of packets (\<^verbatim>\<open>src/nut-server/nut-route.c\<close>), the requests
  (\<^verbatim>\<open>nut-request.c\<close>), the host catcher (\<^verbatim>\<open>nut-hostlist.c\<close>) and the connection callbacks of
  \<^verbatim>\<open>gnutella.c\<close>.

  The sockets are those of the record \<open>core\<close>; their \<^verbatim>\<open>data\<close> members, the client records, are a map of
  the state, and one instance of the server is modelled, so that \<^verbatim>\<open>sock->cfg\<close> is the \<open>ns_cfg\<close> of the
  state. Routing, reply, packet, connection, query and host tables are the hash tables of
  \<^verbatim>\<open>hash.c\<close>. A packet is the defined part of the receive buffer from the packet on, so that reading
  behind the received bytes gives \<^term>\<open>None\<close>. What belongs to the transfer of files (connecting to a
  host that offers or wants a file, matching file names) is a parameter.
\<close>

record nut_client =
  cl_dropped :: u32
  cl_packets :: u32
  cl_invalid :: u32
  cl_queries :: u32
  cl_files :: u32
  cl_size :: u32
  cl_nodes :: u32

definition nut_create_client :: nut_client where
  "nut_create_client = \<lparr>cl_dropped = 0, cl_packets = 0, cl_invalid = 0, cl_queries = 0, cl_files = 0, cl_size = 0, cl_nodes = 0\<rparr>"

record nut_host =
  ho_id :: mem
  ho_ip :: u32
  ho_port :: u16
  ho_last_reply :: int

record nut_packet =
  pk_sent :: int
  pk_sock :: addr

record nut_file =
  fi_index :: u32
  fi_size :: u32
  fi_file :: mem

record nut_config =
  nf_max_ttl :: int
  nf_ttl :: int
  nf_guid :: mem
  nf_route :: "addr svz_hash"
  nf_conn :: "addr svz_hash"
  nf_search :: "mem list"
  nf_search_index :: nat
  nf_search_limit :: int
  nf_packet :: "nut_packet svz_hash"
  nf_errors :: u32
  nf_files :: u32
  nf_size :: u32
  nf_nodes :: u32
  nf_dnloads :: int
  nf_max_dnloads :: int
  nf_speed :: int
  nf_min_speed :: int
  nf_net :: "nut_host svz_hash"
  nf_connections :: nat
  nf_ip :: u32
  nf_port :: u16
  nf_query :: "int svz_hash"
  nf_reply :: "addr svz_hash"
  nf_database :: "nut_file list"
  nf_db_files :: u32
  nf_db_size :: u32
  nf_uploads :: int
  nf_max_uploads :: int
  nf_disable :: bool
  nf_net_detect :: mem

record 'w nut =
  ns_core :: core
  ns_clients :: "addr \<Rightarrow> nut_client option"
  ns_cfg :: nut_config
  ns_world :: 'w

text \<open>
  The surroundings: the system, \<^verbatim>\<open>svz_portcfg_addr (svz_sock_portcfg (sock))\<close>, \<^verbatim>\<open>nut_string_regex\<close>,
  \<^verbatim>\<open>nut_init_transfer\<close>, and what \<^verbatim>\<open>nut_push_request\<close> does for a file of its own.
\<close>

record 'w nut_env =
  ne_os :: "'w os"
  ne_port_addr :: "addr \<Rightarrow> 'w nut \<Rightarrow> (u32 \<times> u16) option"
  ne_regex :: "mem \<Rightarrow> mem \<Rightarrow> bool"
  ne_init_transfer :: "addr \<Rightarrow> nut_reply \<Rightarrow> nut_record \<Rightarrow> mem \<Rightarrow> 'w nut \<Rightarrow> 'w nut option"
  ne_give :: "addr \<Rightarrow> nut_push \<Rightarrow> 'w nut \<Rightarrow> (int \<times> 'w nut) option"

definition NUT_QUERY_TOO_RECENT :: int where "NUT_QUERY_TOO_RECENT = 10"
definition NUT_INVALID_PACKETS :: u32 where "NUT_INVALID_PACKETS = 20"
definition NUT_ENTRY_AGE :: int where "NUT_ENTRY_AGE = 180"

subsection \<open>Access to the state\<close>

abbreviation now :: "'w nut_env \<Rightarrow> 'w nut \<Rightarrow> int" where
  "now en st \<equiv> os_time (ne_os en) (ns_world st)"

text \<open>\<^verbatim>\<open>svz_sock_write\<close> on a TCP connection without \<^verbatim>\<open>kicked_socket\<close> callback.\<close>

definition nut_write :: "'w nut_env \<Rightarrow> addr \<Rightarrow> mem \<Rightarrow> 'w nut \<Rightarrow> (int \<times> 'w nut) option" where
  "nut_write en a buf st = do {
     s \<leftarrow> heap (ns_core st) a;
     (r, s, w) \<leftarrow> svz_sock_write (svz_tcp_write_socket (ne_os en)) None s buf (ns_world st);
     c \<leftarrow> upd (ns_core st) a (\<lambda>_. s);
     Some (r, st\<lparr>ns_core := c, ns_world := w\<rparr>)
   }"

definition nut_schedule :: "addr \<Rightarrow> 'w nut \<Rightarrow> 'w nut option" where
  "nut_schedule a st = do { c \<leftarrow> svz_sock_schedule_for_shutdown (ns_core st) a; Some (st\<lparr>ns_core := c\<rparr>) }"

definition upd_client :: "addr \<Rightarrow> (nut_client \<Rightarrow> nut_client) \<Rightarrow> 'w nut \<Rightarrow> 'w nut option" where
  "upd_client a f st = do { cl \<leftarrow> ns_clients st a; Some (st\<lparr>ns_clients := (ns_clients st)(a \<mapsto> f cl)\<rparr>) }"

abbreviation upd_cfg :: "(nut_config \<Rightarrow> nut_config) \<Rightarrow> 'w nut \<Rightarrow> 'w nut" where
  "upd_cfg f st \<equiv> st\<lparr>ns_cfg := f (ns_cfg st)\<rparr>"

definition drop_packet :: "addr \<Rightarrow> 'w nut \<Rightarrow> (int \<times> 'w nut) option" where
  "drop_packet a st = do { st \<leftarrow> upd_client a (\<lambda>cl. cl\<lparr>cl_dropped := cl_dropped cl + 1\<rparr>) st; Some (-1, st) }"

subsection \<open>Validation\<close>

text \<open>A stored time of zero is \<^verbatim>\<open>NULL\<close>.\<close>

definition time_value :: "int \<Rightarrow> int option" where
  "time_value t = (if t = 0 then None else Some t)"

definition nut_canonize_query :: "int \<Rightarrow> nut_config \<Rightarrow> mem \<Rightarrow> (int \<times> nut_config) option" where
  "nut_canonize_query t cfg query =
     (if query = [] then None
      else if hd query = 0 then Some (-1, cfg)
      else if 0 \<notin> set query then None
      else do {
        let key = map to_lower (filter is_alnum (cstr query)) @ [0];
        v \<leftarrow> svz_hash_get (nf_query cfg) key;
        case v of
          Some t0 \<Rightarrow> Some (if t - t0 < NUT_QUERY_TOO_RECENT then -1 else 0, cfg)
        | None \<Rightarrow> do {
            (_, h) \<leftarrow> svz_hash_put (nf_query cfg) key (time_value t);
            Some (0, cfg\<lparr>nf_query := h\<rparr>)
          }
      })"

text \<open>The second part of \<^verbatim>\<open>nut_validate_packet\<close>: hops and TTL, which are bytes.\<close>

definition check_ttl :: "int \<Rightarrow> nut_header \<Rightarrow> int \<times> nut_header" where
  "check_ttl max_ttl hdr =
     (if nh_ttl hdr \<le> 1 then (0, hdr)
      else let hdr = hdr\<lparr>nh_hop := nh_hop hdr + 1, nh_ttl := nh_ttl hdr - 1\<rparr>
           in if uint (nh_hop hdr) > max_ttl then (0, hdr)
              else if nh_ttl hdr > 50 then (0, hdr)
              else let hdr = (if uint (nh_ttl hdr) > max_ttl then hdr\<lparr>nh_ttl := word_of_int max_ttl\<rparr> else hdr);
                       hdr = (if uint (nh_ttl hdr) + uint (nh_hop hdr) > max_ttl
                              then hdr\<lparr>nh_ttl := word_of_int (max_ttl - uint (nh_hop hdr))\<rparr> else hdr)
                   in (1, hdr))"

definition nut_validate_packet ::
    "'w nut_env \<Rightarrow> addr \<Rightarrow> nut_header \<Rightarrow> mem \<Rightarrow> 'w nut \<Rightarrow> (int \<times> nut_header \<times> 'w nut) option" where
  "nut_validate_packet en a hdr packet st =
     (let ok = (let (r, hdr) = check_ttl (nf_max_ttl (ns_cfg st)) hdr in Some (r, hdr, st))
      in if nh_function hdr = NUT_PING_REQ
         then (if nh_length hdr \<noteq> 0 then Some (-1, hdr, st) else ok)
         else if nh_function hdr = NUT_PING_ACK
         then (if nh_length hdr \<noteq> of_nat SIZEOF_NUT_PONG then Some (-1, hdr, st) else ok)
         else if nh_function hdr = NUT_PUSH_REQ
         then (if nh_length hdr \<noteq> of_nat SIZEOF_NUT_PUSH then Some (-1, hdr, st) else ok)
         else if nh_function hdr = NUT_SEARCH_REQ
         then (if nh_length hdr > 257 then Some (-1, hdr, st)
               else do {
                 (r, cfg) \<leftarrow> nut_canonize_query (now en st) (ns_cfg st) (drop SIZEOF_NUT_QUERY packet);
                 let st = st\<lparr>ns_cfg := cfg\<rparr>;
                 if r = -1 then Some (-1, hdr, st)
                 else let (r, hdr) = check_ttl (nf_max_ttl (ns_cfg st)) hdr in Some (r, hdr, st)
               })
         else if nh_function hdr = NUT_SEARCH_ACK
         then (if nh_length hdr > of_nat ((SIZEOF_NUT_RECORD + 256) * 256) then Some (-1, hdr, st) else ok)
         else do {
           cl \<leftarrow> ns_clients st a;
           st \<leftarrow> upd_client a (\<lambda>cl. cl\<lparr>cl_invalid := cl_invalid cl + 1\<rparr>) st;
           st \<leftarrow> (if cl_invalid cl > NUT_INVALID_PACKETS then nut_schedule a st else Some st);
           Some (-1, hdr, st)
         })"

subsection \<open>Routing\<close>

text \<open>Header and packet body to one connection; \<open>send_packet\<close> gives 0, or -1 after the first failing write.\<close>

definition send_packet :: "'w nut_env \<Rightarrow> addr \<Rightarrow> mem \<Rightarrow> nut_header \<Rightarrow> mem \<Rightarrow> 'w nut \<Rightarrow> (int \<times> 'w nut) option" where
  "send_packet en a header hdr packet st = do {
     (r, st) \<leftarrow> nut_write en a header st;
     if r < 0 then do { st \<leftarrow> nut_schedule a st; Some (-1, st) }
     else if nh_length hdr \<noteq> 0
     then if unat (nh_length hdr) \<le> length packet
          then do {
            (r, st) \<leftarrow> nut_write en a (take (unat (nh_length hdr)) packet) st;
            if r < 0 then do { st \<leftarrow> nut_schedule a st; Some (-1, st) } else Some (0, st)
          }
          else None
     else Some (0, st)
   }"

text \<open>\<^verbatim>\<open>route_internal\<close> over the pairs of the connection table; \<open>problemp\<close> is set by the first failure.\<close>

fun route_internal :: "'w nut_env \<Rightarrow> mem \<Rightarrow> nut_header \<Rightarrow> mem \<Rightarrow> addr \<Rightarrow> (mem \<times> addr option) list \<Rightarrow> bool \<Rightarrow> 'w nut \<Rightarrow> 'w nut option" where
  "route_internal en header hdr packet avoid [] problemp st = Some st"
| "route_internal en header hdr packet avoid ((k, v) # kvs) problemp st =
     (if problemp \<or> v = Some avoid then route_internal en header hdr packet avoid kvs problemp st
      else do {
        a \<leftarrow> v;
        (r, st) \<leftarrow> send_packet en a header hdr packet st;
        route_internal en header hdr packet avoid kvs (r < 0) st
      })"

definition nut_route :: "'w nut_env \<Rightarrow> addr \<Rightarrow> nut_header \<Rightarrow> mem \<Rightarrow> 'w nut \<Rightarrow> (int \<times> nut_header \<times> 'w nut) option" where
  "nut_route en a hdr packet st = do {
     (n, hdr, st) \<leftarrow> nut_validate_packet en a hdr packet st;
     if n = -1 then Some (-1, hdr, st)
     else if n = 0 then Some (0, hdr, st)
     else if nh_function hdr AND 0x01 \<noteq> 0
     then do {
       xsock \<leftarrow> svz_hash_get (nf_route (ns_cfg st)) (nh_id hdr);
       case xsock of
         None \<Rightarrow> do {
           pkt \<leftarrow> svz_hash_get (nf_packet (ns_cfg st)) (nh_id hdr);
           if pkt = None then Some (-1, hdr, upd_cfg (\<lambda>cfg. cfg\<lparr>nf_errors := nf_errors cfg + 1\<rparr>) st)
           else Some (0, hdr, st)
         }
       | Some x \<Rightarrow> do {
           (_, st) \<leftarrow> send_packet en x (nut_put_header hdr) hdr packet st;
           Some (0, hdr, st)
         }
     }
     else if nh_function hdr \<noteq> NUT_PUSH_REQ
     then do {
       xsock \<leftarrow> svz_hash_get (nf_route (ns_cfg st)) (nh_id hdr);
       if xsock \<noteq> None then Some (-1, hdr, st)
       else do {
         pkt \<leftarrow> svz_hash_get (nf_packet (ns_cfg st)) (nh_id hdr);
         if pkt \<noteq> None then Some (-1, hdr, st)
         else do {
           (_, h) \<leftarrow> svz_hash_put (nf_route (ns_cfg st)) (nh_id hdr) (Some a);
           let st = upd_cfg (\<lambda>cfg. cfg\<lparr>nf_route := h\<rparr>) st;
           st \<leftarrow> (if svz_hash_size (Some (nf_conn (ns_cfg st))) \<noteq> 0
                  then route_internal en (nut_put_header hdr) hdr packet a (svz_hash_foreach (nf_conn (ns_cfg st))) False st
                  else Some st);
           Some (0, hdr, st)
         }
       }
     }
     else Some (0, hdr, st)
   }"

subsection \<open>The host catcher\<close>

definition bad_ip :: "u32 \<Rightarrow> bool" where
  "bad_ip ip \<longleftrightarrow> ip AND 0xff000000 = 0 \<or> ip AND 0x00ff0000 = 0 \<or> ip AND 0x0000ff00 = 0 \<or> ip AND 0x000000ff = 0
     \<or> ip AND 0xff000000 = 0xff000000 \<or> ip AND 0x00ff0000 = 0x00ff0000 \<or> ip AND 0x0000ff00 = 0x0000ff00 \<or> ip AND 0x000000ff = 0x000000ff"

definition nut_host_catcher :: "'w nut_env \<Rightarrow> addr \<Rightarrow> u32 \<Rightarrow> u16 \<Rightarrow> 'w nut \<Rightarrow> (int \<times> 'w nut) option" where
  "nut_host_catcher en a ip port st = do {
     let key = nut_client_key ip port;
     client \<leftarrow> svz_hash_get (nf_net (ns_cfg st)) key;
     case client of
       None \<Rightarrow> do {
         s \<leftarrow> heap (ns_core st) a;
         local \<leftarrow> sk_local_addr s;
         if bad_ip ip \<or> local = ip \<or> port = 0 then Some (-1, st)
         else do {
           (_, h) \<leftarrow> svz_hash_put (nf_net (ns_cfg st)) key
              (Some \<lparr>ho_id = replicate NUT_GUID_SIZE 0, ho_ip = ip, ho_port = port, ho_last_reply = now en st\<rparr>);
           Some (0, upd_cfg (\<lambda>cfg. cfg\<lparr>nf_net := h\<rparr>) st)
         }
       }
     | Some ho \<Rightarrow> do {
         (_, h) \<leftarrow> svz_hash_put (nf_net (ns_cfg st)) key (Some (ho\<lparr>ho_last_reply := now en st\<rparr>));
         Some (0, upd_cfg (\<lambda>cfg. cfg\<lparr>nf_net := h\<rparr>) st)
       }
   }"

subsection \<open>Requests\<close>

definition nut_v4addr_from :: "nut_config \<Rightarrow> (u32 \<times> u16) option \<Rightarrow> svz_socket \<Rightarrow> u32 option" where
  "nut_v4addr_from cfg addr sock =
     (if nf_ip cfg \<noteq> 0 then Some (nf_ip cfg) else case addr of Some (ip, _) \<Rightarrow> Some ip | None \<Rightarrow> sk_local_addr sock)"

text \<open>The port the server announces, in \<^verbatim>\<open>nut_ping\<close> and \<^verbatim>\<open>nut_query\<close>.\<close>

definition own_port :: "nut_config \<Rightarrow> (u32 \<times> u16) option \<Rightarrow> svz_socket \<Rightarrow> u16" where
  "own_port cfg addr sock =
     (if nf_port cfg \<noteq> 0 then nf_port cfg else case addr of Some (_, p) \<Rightarrow> p | None \<Rightarrow> sk_local_port sock)"

fun write_all :: "'w nut_env \<Rightarrow> addr \<Rightarrow> mem list \<Rightarrow> 'w nut \<Rightarrow> (int \<times> 'w nut) option" where
  "write_all en a [] st = Some (0, st)"
| "write_all en a (b # bs) st = do { (r, st) \<leftarrow> nut_write en a b st; if r = -1 then Some (-1, st) else write_all en a bs st }"

definition nut_ping :: "'w nut_env \<Rightarrow> addr \<Rightarrow> nut_header \<Rightarrow> 'w nut \<Rightarrow> (int \<times> 'w nut) option" where
  "nut_ping en a hdr st = do {
     let hdr = hdr\<lparr>nh_function := NUT_PING_ACK, nh_length := of_nat SIZEOF_NUT_PONG, nh_ttl := nh_hop hdr, nh_hop := 0\<rparr>;
     s \<leftarrow> heap (ns_core st) a;
     let cfg = ns_cfg st;
     let addr = ne_port_addr en a st;
     ip \<leftarrow> nut_v4addr_from cfg addr s;
     let reply = \<lparr>np_port = own_port cfg addr s, np_ip = ip, np_files = nf_db_files cfg, np_size = nf_db_size cfg div 1024\<rparr>;
     (r, st) \<leftarrow> write_all en a [nut_put_header hdr, nut_put_pong reply] st;
     if r = -1 then do { st \<leftarrow> nut_schedule a st; Some (-1, st) } else Some (0, st)
   }"

definition nut_pong :: "'w nut_env \<Rightarrow> addr \<Rightarrow> nut_header \<Rightarrow> mem \<Rightarrow> 'w nut \<Rightarrow> (int \<times> 'w nut) option" where
  "nut_pong en a hdr packet st = do {
     reply \<leftarrow> nut_get_pong packet;
     (_, st) \<leftarrow> nut_host_catcher en a (np_ip reply) (np_port reply) st;
     pkt \<leftarrow> svz_hash_get (nf_packet (ns_cfg st)) (nh_id hdr);
     if pkt = None then Some (0, st)
     else do {
       let data = np_files reply \<noteq> 0 \<and> np_size reply \<noteq> 0;
       let f = (if data then np_files reply else 0);
       let z = (if data then np_size reply else 0);
       st \<leftarrow> upd_client a (\<lambda>cl. cl\<lparr>cl_nodes := cl_nodes cl + 1, cl_files := cl_files cl + f, cl_size := cl_size cl + z\<rparr>) st;
       Some (0, upd_cfg (\<lambda>cfg. cfg\<lparr>nf_nodes := nf_nodes cfg + 1, nf_files := nf_files cfg + f, nf_size := nf_size cfg + z\<rparr>) st)
     }
   }"

text \<open>
  The records of a query hit, from position \<open>p\<close> on; \<open>e\<close> is where the GUID at the end of the packet
  begins. The file name is canonized in place. The byte behind its NUL is read even if it is the
  first of the GUID.
\<close>

primrec reply_records :: "'w nut_env \<Rightarrow> addr \<Rightarrow> nut_reply \<Rightarrow> nat \<Rightarrow> mem \<Rightarrow> nat \<Rightarrow> nat \<Rightarrow> 'w nut \<Rightarrow> (int \<times> 'w nut) option" where
  "reply_records en a reply 0 packet p e st = Some (0, st)"
| "reply_records en a reply (Suc n) packet p e st =
     (if p < e
      then do {
        rec \<leftarrow> nut_get_record (drop p packet);
        let file = p + SIZEOF_NUT_RECORD;
        let q = (let name = takeWhile (\<lambda>c. c \<noteq> 0) (drop file (take e packet)) in file + length name);
        if q = e then drop_packet a st
        else if length packet \<le> q + 1 then None
        else if packet ! (q + 1) \<noteq> 0 then drop_packet a st
        else do {
          name \<leftarrow> nut_canonize_file (drop file packet);
          st \<leftarrow> (if nf_dnloads (ns_cfg st) < nf_max_dnloads (ns_cfg st) then ne_init_transfer en a reply rec (cstr name @ [0]) st else Some st);
          reply_records en a reply n packet (q + 2) e st
        }
      }
      else Some (0, st))"

definition nut_reply :: "'w nut_env \<Rightarrow> addr \<Rightarrow> nut_header \<Rightarrow> mem \<Rightarrow> 'w nut \<Rightarrow> (int \<times> 'w nut) option" where
  "nut_reply en a hdr packet st = do {
     reply \<leftarrow> nut_get_reply packet;
     (_, st) \<leftarrow> nut_host_catcher en a (ny_ip reply) (ny_port reply) st;
     pkt \<leftarrow> svz_hash_get (nf_packet (ns_cfg st)) (nh_id hdr);
     let len = unat (nh_length hdr);
     if len < SIZEOF_NUT_REPLY + NUT_GUID_SIZE then drop_packet a st
     else if length packet < len then None
     else if pkt \<noteq> None
     then if uint (ny_speed reply) < nf_min_speed (ns_cfg st) then Some (0, st)
          else reply_records en a reply (unat (ny_records reply)) packet SIZEOF_NUT_REPLY (len - NUT_GUID_SIZE) st
     else do {
       (_, h) \<leftarrow> svz_hash_put (nf_reply (ns_cfg st)) (drop (len - NUT_GUID_SIZE) packet) (Some a);
       Some (0, upd_cfg (\<lambda>cfg. cfg\<lparr>nf_reply := h\<rparr>) st)
     }
   }"

definition nut_push_request :: "'w nut_env \<Rightarrow> addr \<Rightarrow> nut_header \<Rightarrow> mem \<Rightarrow> 'w nut \<Rightarrow> (int \<times> 'w nut) option" where
  "nut_push_request en a hdr packet st = do {
     push \<leftarrow> nut_get_push packet;
     xsock \<leftarrow> svz_hash_get (nf_reply (ns_cfg st)) (nu_id push);
     case xsock of
       Some x \<Rightarrow> do {
         (r, st) \<leftarrow> write_all en x [nut_put_header hdr, take SIZEOF_NUT_PUSH packet] st;
         if r = -1 then do { st \<leftarrow> nut_schedule x st; Some (-1, st) } else Some (0, st)
       }
     | None \<Rightarrow>
         if memcmp (nf_guid (ns_cfg st)) (nu_id push) NUT_GUID_SIZE = 0 then ne_give en a push st
         else drop_packet a st
   }"

text \<open>The search for the end of the search string; \<open>len\<close> counts from the length of the query header.\<close>

fun query_len :: "mem \<Rightarrow> u32 \<Rightarrow> u32 \<Rightarrow> u32 option" where
  "query_len [] len limit = None"
| "query_len (c # cs) len limit = (if c \<noteq> 0 \<and> len < limit then query_len cs (len + 1) limit else Some len)"

definition hit_record :: "nut_file \<Rightarrow> mem" where
  "hit_record f = nut_put_record \<lparr>nr_index = fi_index f, nr_size = fi_size f\<rparr> @ cstr (fi_file f) @ [0, 0]"

text \<open>\<^verbatim>\<open>nut_find_database\<close> returns the matching files one after the other.\<close>

definition nut_query :: "'w nut_env \<Rightarrow> addr \<Rightarrow> nut_header \<Rightarrow> mem \<Rightarrow> 'w nut \<Rightarrow> (int \<times> 'w nut) option" where
  "nut_query en a hdr packet st = do {
     query \<leftarrow> nut_get_query packet;
     let cfg = ns_cfg st;
     if uint (nq_speed query) > nf_speed cfg then Some (-1, st)
     else do {
       let file = drop SIZEOF_NUT_QUERY packet;
       len \<leftarrow> query_len file (of_nat SIZEOF_NUT_QUERY) (nh_length hdr);
       if len \<ge> nh_length hdr \<and> hd file \<noteq> 0 then Some (-1, st)
       else do {
         let hdr = hdr\<lparr>nh_function := NUT_SEARCH_ACK, nh_ttl := nh_hop hdr, nh_hop := 0\<rparr>;
         let limit = min 256 (nat (nf_search_limit cfg));
         let hits = take limit (filter (\<lambda>f. ne_regex en (fi_file f) file) (nf_database cfg));
         let buffer = concat (map hit_record hits);
         if hits = [] then Some (0, st)
         else do {
           s \<leftarrow> heap (ns_core st) a;
           let addr = ne_port_addr en a st;
           ip \<leftarrow> nut_v4addr_from cfg addr s;
           let reply = \<lparr>ny_records = of_nat (length hits), ny_port = own_port cfg addr s, ny_ip = ip, ny_speed = word_of_int (nf_speed cfg)\<rparr>;
           let hdr = hdr\<lparr>nh_length := of_nat (SIZEOF_NUT_REPLY + length buffer + NUT_GUID_SIZE)\<rparr>;
           write_all en a [nut_put_header hdr, nut_put_reply reply, buffer, nf_guid cfg] st
         }
       }
     }
   }"

subsection \<open>Received data\<close>

definition nut_dispatch :: "'w nut_env \<Rightarrow> addr \<Rightarrow> nut_header \<Rightarrow> mem \<Rightarrow> 'w nut \<Rightarrow> 'w nut option" where
  "nut_dispatch en a hdr packet st =
     map_option snd
      (if nh_function hdr = NUT_PING_REQ then nut_ping en a hdr st
       else if nh_function hdr = NUT_PING_ACK then nut_pong en a hdr packet st
       else if nh_function hdr = NUT_PUSH_REQ then nut_push_request en a hdr packet st
       else if nh_function hdr = NUT_SEARCH_REQ then nut_query en a hdr packet st
       else if nh_function hdr = NUT_SEARCH_ACK then nut_reply en a hdr packet st
       else Some (0, st))"

text \<open>What happens to one complete packet.\<close>

definition nut_handle :: "'w nut_env \<Rightarrow> addr \<Rightarrow> nut_header \<Rightarrow> mem \<Rightarrow> 'w nut \<Rightarrow> 'w nut option" where
  "nut_handle en a hdr packet st = do {
     (r, hdr, st) \<leftarrow> nut_route en a hdr packet st;
     if r = 0 then nut_dispatch en a hdr packet st
     else do {
       s \<leftarrow> heap (ns_core st) a;
       if has_flag s SVZ_SOFLG_KILLED then Some st
       else upd_client a (\<lambda>cl. cl\<lparr>cl_dropped := cl_dropped cl + 1\<rparr>) st
     }
   }"

text \<open>
  One iteration of the loop of \<^verbatim>\<open>nut_check_request\<close>; \<^term>\<open>None\<close> in the first component means that the
  loop goes on. The additions are those of \<^verbatim>\<open>unsigned int\<close>.
\<close>

definition nut_check_step :: "(addr \<Rightarrow> nut_header \<Rightarrow> mem \<Rightarrow> 'w nut \<Rightarrow> 'w nut option) \<Rightarrow> addr \<Rightarrow> 'w nut \<Rightarrow> (int option \<times> 'w nut) option" where
  "nut_check_step handle a st = do {
     s \<leftarrow> heap (ns_core st) a;
     let fill = (word_of_int (sk_recv_buffer_fill s) :: u32);
     if fill \<ge> of_nat SIZEOF_NUT_HEADER
     then do {
       buf \<leftarrow> buf_read (sk_recv_buffer s) 0 (sk_recv_buffer_fill s);
       hdr \<leftarrow> nut_get_header buf;
       if fill \<ge> of_nat SIZEOF_NUT_HEADER + nh_length hdr
       then do {
         let len = sint (of_nat SIZEOF_NUT_HEADER + nh_length hdr);
         st \<leftarrow> upd_client a (\<lambda>cl. cl\<lparr>cl_packets := cl_packets cl + 1\<rparr>) st;
         st \<leftarrow> handle a hdr (drop SIZEOF_NUT_HEADER buf) st;
         s \<leftarrow> heap (ns_core st) a;
         if has_flag s SVZ_SOFLG_KILLED then Some (Some (-1), st)
         else do {
           s \<leftarrow> svz_sock_reduce_recv s len;
           c \<leftarrow> upd (ns_core st) a (\<lambda>_. s);
           Some (None, st\<lparr>ns_core := c\<rparr>)
         }
       }
       else Some (Some 0, st)
     }
     else Some (Some 0, st)
   }"

partial_function (option) nut_check_loop :: "(addr \<Rightarrow> nut_header \<Rightarrow> mem \<Rightarrow> 'w nut \<Rightarrow> 'w nut option) \<Rightarrow> addr \<Rightarrow> 'w nut \<Rightarrow> (int \<times> 'w nut) option" where
  "nut_check_loop handle a st = do {
     (r, st) \<leftarrow> nut_check_step handle a st;
     if r = None then nut_check_loop handle a st else Some (the r, st)
   }"

definition nut_check_request :: "'w nut_env \<Rightarrow> addr \<Rightarrow> 'w nut \<Rightarrow> (int \<times> 'w nut) option" where
  "nut_check_request en a st = nut_check_loop (nut_handle en) a st"

subsection \<open>Connections\<close>

definition NUT_FLAG_HOSTS :: u32 where "NUT_FLAG_HOSTS = 0x0004"
definition NUT_FLAG_CLIENT :: u32 where "NUT_FLAG_CLIENT = 0x0008"
definition NUT_FLAG_UPLOAD :: u32 where "NUT_FLAG_UPLOAD = 0x0010"
definition NUT_FLAG_SELF :: u32 where "NUT_FLAG_SELF = 0x0020"
definition NUT_FLAG_GIVEN :: u32 where "NUT_FLAG_GIVEN = 0x0040"

definition NUT_SEND_BUFSIZE :: int where "NUT_SEND_BUFSIZE = 1024 * 100"
definition NUT_SEARCH_INTERVAL :: int where "NUT_SEARCH_INTERVAL = 10"

definition NUT_CONNECT :: mem where "NUT_CONNECT = lit ''GNUTELLA CONNECT/0.4'' @ [10, 10]"
definition NUT_OK :: mem where "NUT_OK = lit ''GNUTELLA OK'' @ [10, 10]"
definition NUT_GET :: mem where "NUT_GET = lit ''GET /get/''"
definition NUT_GIVE :: mem where "NUT_GIVE = lit ''GIV ''"

text \<open>The received data begin with \<open>str\<close>.\<close>

definition received :: "svz_socket \<Rightarrow> mem \<Rightarrow> bool option" where
  "received s str =
     (if sk_recv_buffer_fill s \<ge> int (length str)
      then do { b \<leftarrow> buf_read (sk_recv_buffer s) 0 (int (length str)); Some (b = str) }
      else Some False)"

definition set_userflag :: "u32 \<Rightarrow> svz_socket \<Rightarrow> svz_socket" where
  "set_userflag f s = s\<lparr>sk_userflags := sk_userflags s OR f\<rparr>"

definition has_userflag :: "svz_socket \<Rightarrow> u32 \<Rightarrow> bool" where
  "has_userflag s f \<longleftrightarrow> sk_userflags s AND f \<noteq> 0"

definition nut_detect_proto :: "nut_config \<Rightarrow> svz_socket \<Rightarrow> (int \<times> svz_socket) option" where
  "nut_detect_proto cfg s = do {
     c \<leftarrow> (if nf_disable cfg then Some False else received s NUT_CONNECT);
     if c then do { s \<leftarrow> svz_sock_reduce_recv (set_userflag NUT_FLAG_CLIENT s) (int (length NUT_CONNECT)); Some (-1, s) }
     else do {
       g \<leftarrow> received s NUT_GET;
       if g then Some (-1, set_userflag NUT_FLAG_UPLOAD s)
       else do {
         n \<leftarrow> received s (nf_net_detect cfg);
         if n then do { s \<leftarrow> svz_sock_reduce_recv (set_userflag NUT_FLAG_HOSTS s) (int (length (nf_net_detect cfg))); Some (-1, s) }
         else do {
           v \<leftarrow> received s NUT_GIVE;
           if v then Some (-1, set_userflag NUT_FLAG_GIVEN s) else Some (0, s)
         }
       }
     }
   }"

definition nut_sock_client_key :: "svz_socket \<Rightarrow> mem option" where
  "nut_sock_client_key s = do { v4addr \<leftarrow> sk_remote_addr s; Some (nut_client_key v4addr (sk_remote_port s)) }"

text \<open>\<open>rs\<close> are the results of \<^verbatim>\<open>rand ()\<close> for the new GUID.\<close>

definition nut_init_ping :: "'w nut_env \<Rightarrow> int list \<Rightarrow> addr \<Rightarrow> 'w nut \<Rightarrow> (int \<times> 'w nut) option" where
  "nut_init_ping en rs a st = do {
     let hdr = \<lparr>nh_id = nut_calc_guid rs, nh_function = NUT_PING_REQ, nh_ttl = word_of_int (nf_ttl (ns_cfg st)), nh_hop = 0, nh_length = 0\<rparr>;
     (_, h) \<leftarrow> svz_hash_put (nf_packet (ns_cfg st)) (nh_id hdr) (Some \<lparr>pk_sent = now en st, pk_sock = a\<rparr>);
     cl \<leftarrow> ns_clients st a;
     let st = upd_cfg (\<lambda>cfg. cfg\<lparr>nf_packet := h, nf_nodes := nf_nodes cfg - cl_nodes cl, nf_files := nf_files cfg - cl_files cl,
                                nf_size := nf_size cfg - cl_size cl\<rparr>) st;
     st \<leftarrow> upd_client a (\<lambda>cl. cl\<lparr>cl_nodes := 0, cl_files := 0, cl_size := 0\<rparr>) st;
     nut_write en a (nut_put_header hdr) st
   }"

definition nut_connect_socket :: "'w nut_env \<Rightarrow> int list \<Rightarrow> addr \<Rightarrow> 'w nut \<Rightarrow> (int \<times> 'w nut) option" where
  "nut_connect_socket en rs a st = do {
     s \<leftarrow> heap (ns_core st) a;
     if has_userflag s NUT_FLAG_GIVEN
     then do { c \<leftarrow> upd (ns_core st) a (\<lambda>s. s\<lparr>sk_check_request := CR_other ''nut_check_given''\<rparr>); Some (0, st\<lparr>ns_core := c\<rparr>) }
     else if has_userflag s NUT_FLAG_HOSTS
     then do {
       s \<leftarrow> svz_sock_resize_buffers (s\<lparr>sk_check_request := CR_other ''nut_hosts_check'', sk_write_socket := WS_other ''nut_hosts_write''\<rparr>) NUT_SEND_BUFSIZE (sk_recv_buffer_size s);
       c \<leftarrow> upd (ns_core st) a (\<lambda>_. s);
       Some (0, st\<lparr>ns_core := c\<rparr>)
     }
     else if has_userflag s NUT_FLAG_UPLOAD
     then if nf_uploads (ns_cfg st) \<le> nf_max_uploads (ns_cfg st)
          then do { c \<leftarrow> upd (ns_core st) a (\<lambda>s. s\<lparr>sk_check_request := CR_other ''nut_check_upload''\<rparr>); Some (0, st\<lparr>ns_core := c\<rparr>) }
          else Some (-1, st)
     else if has_userflag s NUT_FLAG_CLIENT
     then if svz_hash_size (Some (nf_conn (ns_cfg st))) > nf_connections (ns_cfg st) then Some (-1, st)
          else do {
            (r, st) \<leftarrow> (if has_userflag s NUT_FLAG_SELF then Some (0, st) else nut_write en a NUT_OK st);
            if r = -1 then Some (-1, st)
            else do {
              c \<leftarrow> upd (ns_core st) a (\<lambda>s. set_flag SVZ_SOFLG_NOFLOOD (s\<lparr>sk_disconnected_socket := Some ''nut_disconnect'', sk_check_request := CR_other ''nut_check_request'',
                      sk_idle_func := Some ''nut_idle_searching'', sk_idle_counter := NUT_SEARCH_INTERVAL\<rparr>));
              let st = st\<lparr>ns_core := c, ns_clients := (ns_clients st)(a \<mapsto> nut_create_client)\<rparr>;
              (r, st) \<leftarrow> nut_init_ping en rs a st;
              if r = -1 then Some (-1, st)
              else do {
                s \<leftarrow> heap (ns_core st) a;
                key \<leftarrow> nut_sock_client_key s;
                (_, h) \<leftarrow> svz_hash_put (nf_conn (ns_cfg st)) key (Some a);
                Some (0, upd_cfg (\<lambda>cfg. cfg\<lparr>nf_conn := h\<rparr>) st)
              }
            }
          }
     else Some (-1, st)
   }"

definition nut_idle_searching :: "'w nut_env \<Rightarrow> int list \<Rightarrow> addr \<Rightarrow> 'w nut \<Rightarrow> (int \<times> 'w nut) option" where
  "nut_idle_searching en rs a st = do {
     let cfg = ns_cfg st;
     (r, st) \<leftarrow>
       (if nf_search cfg \<noteq> []
        then do {
          let (text, i) = (if nf_search_index cfg < length (nf_search cfg) then (nf_search cfg ! nf_search_index cfg, nf_search_index cfg + 1)
                           else (nf_search cfg ! 0, 0));
          let st = upd_cfg (\<lambda>cfg. cfg\<lparr>nf_search_index := i\<rparr>) st;
          let hdr = \<lparr>nh_id = nut_calc_guid rs, nh_function = NUT_SEARCH_REQ, nh_ttl = word_of_int (nf_ttl cfg), nh_hop = 0,
                     nh_length = of_nat (SIZEOF_NUT_QUERY + length text + 1)\<rparr>;
          (r, st) \<leftarrow> write_all en a [nut_put_header hdr, nut_put_query \<lparr>nq_speed = word_of_int (nf_min_speed cfg)\<rparr>, text @ [0]] st;
          if r = -1 then Some (-1, st)
          else do {
            (_, h) \<leftarrow> svz_hash_put (nf_packet (ns_cfg st)) (nh_id hdr) (Some \<lparr>pk_sent = now en st, pk_sock = a\<rparr>);
            Some (0, upd_cfg (\<lambda>cfg. cfg\<lparr>nf_packet := h\<rparr>) st)
          }
        }
        else Some (0, st));
     if r = -1 then Some (-1, st)
     else do { c \<leftarrow> upd (ns_core st) a (\<lambda>s. s\<lparr>sk_idle_counter := NUT_SEARCH_INTERVAL\<rparr>); Some (0, st\<lparr>ns_core := c\<rparr>) }
   }"

text \<open>\<^verbatim>\<open>while ((id = svz_hash_contains (hash, sock)) != NULL) svz_hash_delete (hash, id);\<close>\<close>

partial_function (option) purge :: "addr \<Rightarrow> addr svz_hash \<Rightarrow> addr svz_hash option" where
  "purge a h =
     (let i = svz_hash_contains h (Some a)
      in if i = None then Some h else do { (_, h) \<leftarrow> svz_hash_delete h (the i); purge a h })"

text \<open>The first sent packet of the connection, as \<^verbatim>\<open>disconnect_internal\<close> finds it.\<close>

definition sent_packet :: "addr \<Rightarrow> nut_packet svz_hash \<Rightarrow> mem option" where
  "sent_packet a h = map_option fst (find (\<lambda>(k, v). case v of None \<Rightarrow> False | Some pkt \<Rightarrow> pk_sock pkt = a) (svz_hash_foreach h))"

definition nut_disconnect :: "addr \<Rightarrow> 'w nut \<Rightarrow> (int \<times> 'w nut) option" where
  "nut_disconnect a st = do {
     let cfg = ns_cfg st;
     reply \<leftarrow> purge a (nf_reply cfg);
     route \<leftarrow> purge a (nf_route cfg);
     packet \<leftarrow> (case (if svz_hash_size (Some (nf_packet cfg)) \<noteq> 0 then sent_packet a (nf_packet cfg) else None) of
                  None \<Rightarrow> Some (nf_packet cfg)
                | Some k \<Rightarrow> map_option snd (svz_hash_delete (nf_packet cfg) k));
     s \<leftarrow> heap (ns_core st) a;
     key \<leftarrow> nut_sock_client_key s;
     (_, conn) \<leftarrow> svz_hash_delete (nf_conn cfg) key;
     (_, net) \<leftarrow> svz_hash_delete (nf_net cfg) key;
     let cfg = cfg\<lparr>nf_reply := reply, nf_route := route, nf_packet := packet, nf_conn := conn, nf_net := net\<rparr>;
     case ns_clients st a of
       None \<Rightarrow> Some (0, st\<lparr>ns_cfg := cfg\<rparr>)
     | Some cl \<Rightarrow> Some (0, st\<lparr>ns_cfg := cfg\<lparr>nf_nodes := nf_nodes cfg - cl_nodes cl, nf_files := nf_files cfg - cl_files cl,
                                       nf_size := nf_size cfg - cl_size cl\<rparr>,
                           ns_clients := (ns_clients st)(a := None)\<rparr>)
   }"

end
