(* ===== verification/Nut_Route.thy ===== *)
theory Nut_Route
  imports Nut_Server
begin

text \<open>
  Correctness of the gnutella server: which packets are accepted and with what TTL, where packets are
  routed to, that the tables stay well-formed and forget a connection that ends, and how the receive
  buffer is cut into packets.
\<close>

subsection \<open>Validation keeps packets from living forever\<close>

lemma uint_byte_less: "uint (x :: byte) < 256" "0 \<le> uint x"
  using uint_range_size [of x] by (simp_all add: word_size)

lemma check_ttl_accepts:
  assumes "check_ttl m hdr = (1, hdr')"
  shows "uint (nh_ttl hdr') < uint (nh_ttl hdr)" "uint (nh_ttl hdr') + uint (nh_hop hdr') \<le> m" "uint (nh_ttl hdr') \<le> 50"
    "nh_hop hdr' = nh_hop hdr + 1" "nh_id hdr' = nh_id hdr" "nh_function hdr' = nh_function hdr" "nh_length hdr' = nh_length hdr"
proof -
  let ?h = "hdr\<lparr>nh_hop := nh_hop hdr + 1, nh_ttl := nh_ttl hdr - 1\<rparr>"
  have t: "\<not> nh_ttl hdr \<le> 1" using assms by (auto simp: check_ttl_def)
  then have "uint (nh_ttl hdr) > 1" by (simp add: word_le_def)
  then have dec: "uint (nh_ttl hdr - 1) = uint (nh_ttl hdr) - 1"
    using uint_byte_less [of "nh_ttl hdr"] by (simp add: uint_word_ariths)
  have hop: "\<not> uint (nh_hop hdr + 1) > m" and ttl: "\<not> nh_ttl hdr - 1 > 50"
    using assms t by (auto simp: check_ttl_def Let_def split: if_splits)
  have t50: "uint (nh_ttl hdr - 1) \<le> 50" using ttl by (simp add: word_le_def not_less)
  define t1 where "t1 = (if uint (nh_ttl hdr - 1) > m then word_of_int m else nh_ttl hdr - 1 :: byte)"
  define t2 where "t2 = (if uint t1 + uint (nh_hop hdr + 1) > m then word_of_int (m - uint (nh_hop hdr + 1)) else t1 :: byte)"
  have m: "0 \<le> m" using hop uint_byte_less(2) [of "nh_hop hdr + 1"] by linarith
  have small: "uint (word_of_int k :: byte) = k" if "0 \<le> k" "k \<le> 50" for k using that by (simp add: uint_word_of_int)
  have u1: "uint t1 \<le> uint (nh_ttl hdr - 1)" "uint t1 \<le> m"
    using small [of m] m t50 by (auto simp: t1_def)
  have u2: "uint t2 \<le> uint t1" "uint t2 + uint (nh_hop hdr + 1) \<le> m"
  proof -
    have "uint (word_of_int (m - uint (nh_hop hdr + 1)) :: byte) = m - uint (nh_hop hdr + 1)" if "uint t1 + uint (nh_hop hdr + 1) > m"
      using small [of "m - uint (nh_hop hdr + 1)"] hop that u1 t50 by linarith
    then show "uint t2 \<le> uint t1" "uint t2 + uint (nh_hop hdr + 1) \<le> m" by (auto simp: t2_def)
  qed
  have e: "hdr' = ?h\<lparr>nh_ttl := t2\<rparr>"
    using assms t hop ttl unfolding check_ttl_def t1_def t2_def by (auto simp: Let_def split: if_splits)
  show "uint (nh_ttl hdr') < uint (nh_ttl hdr)" "uint (nh_ttl hdr') + uint (nh_hop hdr') \<le> m" "uint (nh_ttl hdr') \<le> 50"
    "nh_hop hdr' = nh_hop hdr + 1" "nh_id hdr' = nh_id hdr" "nh_function hdr' = nh_function hdr" "nh_length hdr' = nh_length hdr"
    unfolding e using u1 u2 dec t50 by auto
qed

lemma check_ttl_result: "check_ttl m hdr = (r, hdr') \<Longrightarrow> r = 0 \<or> r = 1"
  by (auto simp: check_ttl_def Let_def split: if_splits)

lemma check_ttl_keeps:
  "check_ttl m hdr = (r, hdr') \<Longrightarrow> nh_id hdr' = nh_id hdr \<and> nh_function hdr' = nh_function hdr \<and> nh_length hdr' = nh_length hdr"
  by (auto simp: check_ttl_def Let_def split: if_splits)

lemma query_same: "\<exists>h. cfg = cfg\<lparr>nf_query := h\<rparr>" "\<exists>h. st = upd_cfg (\<lambda>cfg. cfg\<lparr>nf_query := h\<rparr>) st"
  by (rule exI [of _ "nf_query cfg"], simp) (rule exI [of _ "nf_query (ns_cfg st)"], simp)

lemma canonize_query_cfg: "nut_canonize_query t cfg q = Some (r, cfg') \<Longrightarrow> \<exists>h. cfg' = cfg\<lparr>nf_query := h\<rparr>"
  using query_same(1) [of cfg] unfolding nut_canonize_query_def
  by (auto split: if_splits option.splits simp: Let_def elim!: bind_SomeE)

text \<open>A packet that is not refused has a known function and a plausible length, and only the query table has changed.\<close>

lemma validate_passes:
  assumes "nut_validate_packet en a hdr packet st = Some (n, hdr', st')" "n \<noteq> -1"
  shows "check_ttl (nf_max_ttl (ns_cfg st)) hdr = (n, hdr')" "\<exists>h. st' = upd_cfg (\<lambda>cfg. cfg\<lparr>nf_query := h\<rparr>) st"
    "nh_function hdr \<in> {NUT_PING_REQ, NUT_PING_ACK, NUT_PUSH_REQ, NUT_SEARCH_REQ, NUT_SEARCH_ACK}"
    "unat (nh_length hdr) \<le> (SIZEOF_NUT_RECORD + 256) * 256"
proof -
  let ?m = "nf_max_ttl (ns_cfg st)"
  obtain r h where ck: "check_ttl ?m hdr = (r, h)" by fastforce
  consider "nh_function hdr = NUT_PING_REQ" | "nh_function hdr = NUT_PING_ACK" | "nh_function hdr = NUT_PUSH_REQ"
    | "nh_function hdr = NUT_SEARCH_REQ" | "nh_function hdr = NUT_SEARCH_ACK"
    using assms by (auto simp: nut_validate_packet_def Let_def split: if_splits)
  then have "check_ttl ?m hdr = (n, hdr') \<and> (\<exists>h. st' = upd_cfg (\<lambda>cfg. cfg\<lparr>nf_query := h\<rparr>) st)
    \<and> unat (nh_length hdr) \<le> (SIZEOF_NUT_RECORD + 256) * 256"
  proof cases
    case 4
    have l: "\<not> nh_length hdr > 257" using assms 4 by (auto simp: nut_validate_packet_def nut_functions Let_def)
    obtain r1 cfg where cq: "nut_canonize_query (now en st) (ns_cfg st) (drop SIZEOF_NUT_QUERY packet) = Some (r1, cfg)" "r1 \<noteq> -1"
        "(n, hdr', st') = (r, h, st\<lparr>ns_cfg := cfg\<rparr>)" "nf_max_ttl cfg = ?m"
    proof -
      obtain r1 cfg where c: "nut_canonize_query (now en st) (ns_cfg st) (drop SIZEOF_NUT_QUERY packet) = Some (r1, cfg)"
        using assms 4 l by (auto simp: nut_validate_packet_def nut_functions Let_def)
      moreover have "nf_max_ttl cfg = ?m" using canonize_query_cfg [OF c] by auto
      ultimately show ?thesis using assms 4 l ck that [of r1 cfg]
        by (auto simp: nut_validate_packet_def nut_functions Let_def split: if_splits)
    qed
    have "unat (nh_length hdr) \<le> 257" using l by (simp add: not_less word_le_nat_alt)
    then show ?thesis using cq ck canonize_query_cfg [OF cq(1)] by (auto simp: nut_sizes)
  qed (use assms ck query_same(2) [of st] in \<open>auto simp: nut_validate_packet_def nut_functions nut_sizes Let_def not_less word_le_nat_alt split: if_splits\<close>)
  then show "check_ttl (nf_max_ttl (ns_cfg st)) hdr = (n, hdr')" "\<exists>h. st' = upd_cfg (\<lambda>cfg. cfg\<lparr>nf_query := h\<rparr>) st"
    "unat (nh_length hdr) \<le> (SIZEOF_NUT_RECORD + 256) * 256" by blast+
  show "nh_function hdr \<in> {NUT_PING_REQ, NUT_PING_ACK, NUT_PUSH_REQ, NUT_SEARCH_REQ, NUT_SEARCH_ACK}"
    using assms by (auto simp: nut_validate_packet_def Let_def split: if_splits)
qed

text \<open>
  A packet that \<^verbatim>\<open>nut_validate_packet\<close> lets through for routing (result 1) is of one of the five kinds, its body
  has at most 67584 bytes, its TTL is smaller than it was on arrival and at most 50, its hop count
  has been increased (in a byte), and TTL and hops together do not exceed the configured maximum:
  however servers are connected, a packet is forwarded at most 50 times. Nothing else has been
  changed but the table of recent queries.
\<close>

theorem validated_packet_ttl:
  assumes "nut_validate_packet en a hdr packet st = Some (1, hdr', st')"
  shows "uint (nh_ttl hdr') < uint (nh_ttl hdr) \<and> uint (nh_ttl hdr') \<le> 50 \<and> nh_hop hdr' = nh_hop hdr + 1
    \<and> uint (nh_ttl hdr') + uint (nh_hop hdr') \<le> nf_max_ttl (ns_cfg st)
    \<and> nh_id hdr' = nh_id hdr \<and> nh_function hdr' = nh_function hdr \<and> nh_length hdr' = nh_length hdr
    \<and> nh_function hdr \<in> {NUT_PING_REQ, NUT_PING_ACK, NUT_PUSH_REQ, NUT_SEARCH_REQ, NUT_SEARCH_ACK}
    \<and> unat (nh_length hdr) \<le> 67584 \<and> ns_core st' = ns_core st \<and> ns_world st' = ns_world st \<and> nf_route (ns_cfg st') = nf_route (ns_cfg st)"
proof -
  have n: "(1 :: int) \<noteq> -1" by simp
  note v = validate_passes [OF assms n]
  note t = check_ttl_accepts [OF v(1)]
  obtain h where st': "st' = upd_cfg (\<lambda>cfg. cfg\<lparr>nf_query := h\<rparr>) st" using v(2) by blast
  show ?thesis using t v(3,4) by (simp add: st' nut_sizes)
qed

subsection \<open>Routing decisions\<close>

text \<open>The tables of a configuration are well-formed; GUID tables have GUIDs, the connection table strings as keys.\<close>

definition guid_table :: "'v svz_hash \<Rightarrow> bool" where
  "guid_table h \<longleftrightarrow> hash_wf guid_key h \<and> uses nut_hash_equals nut_hash_code nut_hash_keylen h"

definition string_table :: "'v svz_hash \<Rightarrow> bool" where
  "string_table h \<longleftrightarrow> hash_wf c_string h \<and> uses hash_equal hash_code hash_key_length h"

definition tables_ok :: "nut_config \<Rightarrow> bool" where
  "tables_ok cfg \<longleftrightarrow> guid_table (nf_route cfg) \<and> guid_table (nf_packet cfg) \<and> guid_table (nf_reply cfg)
     \<and> string_table (nf_conn cfg) \<and> string_table (nf_net cfg) \<and> string_table (nf_query cfg)"

text \<open>What a table has for a key; \<^verbatim>\<open>NULL\<close> values count as missing.\<close>

definition entry_of :: "'v svz_hash \<Rightarrow> mem \<Rightarrow> 'v option" where
  "entry_of h k = Option.bind (hash_lookup h k) id"

context hash_callbacks
begin

lemma entry_get: "hash_wf valid h \<Longrightarrow> uses eq co kl h \<Longrightarrow> valid k \<Longrightarrow> svz_hash_get h k = Some (entry_of h k)"
  using get_correct(1) by (simp add: entry_of_def)

lemma entry_put:
  assumes "hash_wf valid h" "uses eq co kl h" "valid k"
  obtains h' where "svz_hash_put h k v = Some (entry_of h k, h')" "hash_wf valid h'" "uses eq co kl h'"
    "\<And>k'. valid k' \<Longrightarrow> entry_of h' k' = (if eq k k' = 0 then v else entry_of h k')"
  using put_correct [of h k v] assms by (auto simp: entry_of_def)

lemma entry_delete:
  assumes "hash_wf valid h" "uses eq co kl h" "valid k"
  obtains h' where "svz_hash_delete h k = Some (entry_of h k, h')" "hash_wf valid h'" "uses eq co kl h'"
    "\<And>k'. valid k' \<Longrightarrow> entry_of h' k' = (if eq k k' = 0 then None else entry_of h k')"
  using delete_correct [of h k] assms by (auto simp: entry_of_def)

lemma entry_iff:
  assumes "hash_wf valid h" "uses eq co kl h" "valid k"
  shows "entry_of h k = Some v \<longleftrightarrow> (\<exists>ent \<in> set (concat (table h)). eq (ent_key ent) k = 0 \<and> ent_value ent = Some v)"
proof -
  have e: "hash_ents valid h (entries h)" "equals h = eq" using assms(1,2) by (simp_all add: hash_wf_def uses_def)
  have "entry_of h k = Some v \<longleftrightarrow> hash_lookup h k = Some (Some v)"
    by (cases "hash_lookup h k") (auto simp: entry_of_def)
  then show ?thesis using hash_lookup_Some [OF e(1) assms(3)] by (simp add: entries_def matches_def e(2))
qed

lemma nulls_iff:
  assumes "hash_wf valid h" "uses eq co kl h"
  shows "(\<exists>ent \<in> set (concat (table h)). ent_value ent = None) \<longleftrightarrow> (\<exists>k. valid k \<and> hash_lookup h k = Some None)"
proof -
  have e: "hash_ents valid h (entries h)" "equals h = eq" using assms by (simp_all add: hash_wf_def uses_def)
  have "valid (ent_key ent) \<and> matches h (ent_key ent) ent" if "ent \<in> set (concat (table h))" for ent
    using e that eq_refl by (auto simp: hash_ents_def entries_def matches_def)
  then show ?thesis using hash_lookup_Some [OF e(1)] unfolding entries_def set_mset_mset by blast
qed

lemma put_no_null:
  assumes "hash_wf valid h" "uses eq co kl h" "valid k" "\<forall>ent \<in> set (concat (table h)). ent_value ent \<noteq> None"
    and "svz_hash_put h k (Some v) = Some (old, h')"
  shows "\<forall>ent \<in> set (concat (table h')). ent_value ent \<noteq> None"
proof -
  obtain h1 where h1: "svz_hash_put h k (Some v) = Some (Option.bind (hash_lookup h k) id, h1)" "hash_wf valid h1" "uses eq co kl h1"
      "\<forall>k'. valid k' \<longrightarrow> hash_lookup h1 k' = (if eq k k' = 0 then Some (Some v) else hash_lookup h k')"
    using put_correct [OF assms(1-3), of "Some v"] by blast
  have "h1 = h'" using h1(1) assms(5) by simp
  moreover have "\<not> (\<exists>k'. valid k' \<and> hash_lookup h1 k' = Some None)"
    using h1(4) assms(4) nulls_iff [OF assms(1,2)] by (metis option.distinct(1) option.inject)
  ultimately show ?thesis using nulls_iff [OF h1(2,3)] by auto
qed

lemma table_keys: "hash_wf valid h \<Longrightarrow> ent \<in> set (concat (table h)) \<Longrightarrow> valid (ent_key ent)"
  by (auto simp: hash_wf_def hash_ents_def entries_def)

end

lemma guid_get: "guid_table h \<Longrightarrow> guid_key k \<Longrightarrow> svz_hash_get h k = Some (entry_of h k)"
  by (simp add: guid_table_def guid_hash.entry_get)

lemma guid_put:
  assumes "guid_table h" "guid_key k"
  obtains h' where "svz_hash_put h k v = Some (entry_of h k, h')" "guid_table h'"
    "\<And>k'. guid_key k' \<Longrightarrow> entry_of h' k' = (if take NUT_GUID_SIZE k' = take NUT_GUID_SIZE k then v else entry_of h k')"
  using guid_hash.entry_put [of h k v] assms unfolding guid_table_def by (metis nut_hash_equals_iff)

lemma guid_delete:
  assumes "guid_table h" "guid_key k"
  obtains h' where "svz_hash_delete h k = Some (entry_of h k, h')" "guid_table h'"
    "\<And>k'. guid_key k' \<Longrightarrow> entry_of h' k' = (if take NUT_GUID_SIZE k' = take NUT_GUID_SIZE k then None else entry_of h k')"
  using guid_hash.entry_delete [of h k] assms unfolding guid_table_def by (metis nut_hash_equals_iff)

lemma string_delete:
  assumes "string_table h" "c_string k"
  obtains h' where "svz_hash_delete h k = Some (entry_of h k, h')" "string_table h'"
    "\<And>k'. c_string k' \<Longrightarrow> entry_of h' k' = (if cstr k' = cstr k then None else entry_of h k')"
  using str_hash.entry_delete [of h k] assms unfolding string_table_def by (metis hash_equal_iff)

text \<open>
  The connections a query is forwarded to, and the forwarding: one after the other, up to the first
  one that fails.
\<close>

definition targets :: "addr \<Rightarrow> addr svz_hash \<Rightarrow> addr list" where
  "targets avoid h = filter (\<lambda>a. a \<noteq> avoid) (map (\<lambda>kv. the (snd kv)) (svz_hash_foreach h))"

fun forward_to :: "'w nut_env \<Rightarrow> mem \<Rightarrow> nut_header \<Rightarrow> mem \<Rightarrow> addr list \<Rightarrow> 'w nut \<Rightarrow> 'w nut option" where
  "forward_to en header hdr packet [] st = Some st"
| "forward_to en header hdr packet (a # as) st = do {
     (r, st) \<leftarrow> send_packet en a header hdr packet st;
     if r < 0 then Some st else forward_to en header hdr packet as st
   }"

lemma route_internal_stops: "route_internal en header hdr packet avoid kvs True st = Some st"
  by (induction kvs) auto

lemma route_internal_forward:
  assumes "\<And>kv. kv \<in> set kvs \<Longrightarrow> snd kv \<noteq> None"
  shows "route_internal en header hdr packet avoid kvs False st
    = forward_to en header hdr packet (filter (\<lambda>a. a \<noteq> avoid) (map (\<lambda>kv. the (snd kv)) kvs)) st"
  using assms
proof (induction kvs arbitrary: st)
  case (Cons kv kvs)
  obtain k a where kv: "kv = (k, Some a)" using Cons.prems [of kv] by (cases kv) auto
  show ?case
  proof (cases "a = avoid")
    case True
    then show ?thesis using Cons by (simp add: kv)
  next
    case False
    have "route_internal en header hdr packet avoid kvs (r < 0) st1
        = (if r < 0 then Some st1 else forward_to en header hdr packet (filter (\<lambda>a. a \<noteq> avoid) (map (\<lambda>kv. the (snd kv)) kvs)) st1)"
      for r :: int and st1 using Cons.IH Cons.prems by (simp add: route_internal_stops)
    then show ?thesis using False by (cases "send_packet en a header hdr packet st") (auto simp: kv)
  qed
qed simp

text \<open>Every connection of the table other than the sender is a target, exactly once.\<close>

lemma targets_complete:
  assumes "string_table h"
  shows "mset (targets avoid h) = filter_mset (\<lambda>a. a \<noteq> avoid) (image_mset (\<lambda>ent. the (ent_value ent)) (entries h))"
proof -
  have "take (buckets h) (table h) = table h" "keys h = length (concat (table h))"
    using assms by (auto simp: string_table_def hash_wf_def hash_shape_def entries_def)
  then have "svz_hash_foreach h = map (\<lambda>ent. (ent_key ent, ent_value ent)) (concat (table h))"
    using foreach_loop_all [of 0 "table h"] by (simp add: svz_hash_foreach_def)
  then show ?thesis unfolding targets_def entries_def by (simp add: o_def)
qed

lemma foreach_empty: "string_table h \<Longrightarrow> svz_hash_size (Some h) = 0 \<Longrightarrow> svz_hash_foreach h = []"
proof -
  assume "string_table h" "svz_hash_size (Some h) = 0"
  then have "keys h = 0" by (simp add: svz_hash_size_def)
  moreover have "foreach_loop 0 bs i = []" for bs :: "'a svz_hash_bucket list" and i by (cases bs) simp_all
  ultimately show ?thesis by (simp add: svz_hash_foreach_def)
qed

lemma reply_kinds: "nh_function hdr AND 0x01 \<noteq> 0 \<longleftrightarrow> nh_function hdr \<in> {NUT_PING_ACK, NUT_SEARCH_ACK}"
  if "nh_function hdr \<in> {NUT_PING_REQ, NUT_PING_ACK, NUT_PUSH_REQ, NUT_SEARCH_REQ, NUT_SEARCH_ACK}"
  using that by (auto simp: nut_functions)

definition is_reply :: "nut_header \<Rightarrow> bool" where
  "is_reply hdr \<longleftrightarrow> nh_function hdr \<in> {NUT_PING_ACK, NUT_SEARCH_ACK}"

definition is_query :: "nut_header \<Rightarrow> bool" where
  "is_query hdr \<longleftrightarrow> nh_function hdr \<in> {NUT_PING_REQ, NUT_SEARCH_REQ}"

lemma route_after_validation:
  assumes v: "nut_validate_packet en a hdr packet st = Some (1, hdr', st1)"
    and t: "tables_ok (ns_cfg st)" and l: "guid_key (nh_id hdr)"
  shows "is_reply hdr \<Longrightarrow> nut_route en a hdr packet st =
      (case entry_of (nf_route (ns_cfg st)) (nh_id hdr) of
         Some x \<Rightarrow> Option.bind (send_packet en x (nut_put_header hdr') hdr' packet st1) (\<lambda>(_, st2). Some (0, hdr', st2))
       | None \<Rightarrow> if entry_of (nf_packet (ns_cfg st)) (nh_id hdr) = None
                  then Some (-1, hdr', upd_cfg (\<lambda>cfg. cfg\<lparr>nf_errors := nf_errors cfg + 1\<rparr>) st1) else Some (0, hdr', st1))"
    and "is_query hdr \<Longrightarrow> entry_of (nf_route (ns_cfg st)) (nh_id hdr) \<noteq> None \<or> entry_of (nf_packet (ns_cfg st)) (nh_id hdr) \<noteq> None \<Longrightarrow>
      nut_route en a hdr packet st = Some (-1, hdr', st1)"
    and "nh_function hdr = NUT_PUSH_REQ \<Longrightarrow> nut_route en a hdr packet st = Some (0, hdr', st1)"
proof -
  have n: "(1 :: int) \<noteq> -1" by simp
  note vp = validate_passes [OF v n]
  have k: "nh_id hdr' = nh_id hdr" "nh_function hdr' = nh_function hdr" using check_ttl_keeps [OF vp(1)] by simp_all
  obtain q where st1: "st1 = upd_cfg (\<lambda>cfg. cfg\<lparr>nf_query := q\<rparr>) st" using vp(2) by blast
  have tb: "nf_route (ns_cfg st1) = nf_route (ns_cfg st)" "nf_packet (ns_cfg st1) = nf_packet (ns_cfg st)" by (simp_all add: st1)
  have g: "svz_hash_get (nf_route (ns_cfg st1)) (nh_id hdr') = Some (entry_of (nf_route (ns_cfg st)) (nh_id hdr))"
    "svz_hash_get (nf_packet (ns_cfg st1)) (nh_id hdr') = Some (entry_of (nf_packet (ns_cfg st)) (nh_id hdr))"
    unfolding tb k using guid_get t l by (auto simp: tables_ok_def)
  show "is_reply hdr \<Longrightarrow> nut_route en a hdr packet st =
      (case entry_of (nf_route (ns_cfg st)) (nh_id hdr) of
         Some x \<Rightarrow> Option.bind (send_packet en x (nut_put_header hdr') hdr' packet st1) (\<lambda>(_, st2). Some (0, hdr', st2))
       | None \<Rightarrow> if entry_of (nf_packet (ns_cfg st)) (nh_id hdr) = None
                  then Some (-1, hdr', upd_cfg (\<lambda>cfg. cfg\<lparr>nf_errors := nf_errors cfg + 1\<rparr>) st1) else Some (0, hdr', st1))"
    unfolding nut_route_def v using g k by (auto simp: is_reply_def nut_functions split: option.splits)
  show "is_query hdr \<Longrightarrow> entry_of (nf_route (ns_cfg st)) (nh_id hdr) \<noteq> None \<or> entry_of (nf_packet (ns_cfg st)) (nh_id hdr) \<noteq> None \<Longrightarrow>
      nut_route en a hdr packet st = Some (-1, hdr', st1)"
    unfolding nut_route_def v using g k by (auto simp: is_query_def nut_functions)
  show "nh_function hdr = NUT_PUSH_REQ \<Longrightarrow> nut_route en a hdr packet st = Some (0, hdr', st1)"
    unfolding nut_route_def v using k by (simp add: nut_functions)
qed

lemma route_new_query:
  assumes v: "nut_validate_packet en a hdr packet st = Some (1, hdr', st1)"
    and t: "tables_ok (ns_cfg st)" and l: "guid_key (nh_id hdr)" and q: "is_query hdr"
    and new: "entry_of (nf_route (ns_cfg st)) (nh_id hdr) = None" "entry_of (nf_packet (ns_cfg st)) (nh_id hdr) = None"
    and conn: "\<And>kv. kv \<in> set (svz_hash_foreach (nf_conn (ns_cfg st))) \<Longrightarrow> snd kv \<noteq> None"
  obtains h where "guid_table h"
    "\<And>k. guid_key k \<Longrightarrow> entry_of h k = (if take NUT_GUID_SIZE k = take NUT_GUID_SIZE (nh_id hdr) then Some a else entry_of (nf_route (ns_cfg st)) k)"
    "nut_route en a hdr packet st =
       Option.bind (forward_to en (nut_put_header hdr') hdr' packet (targets a (nf_conn (ns_cfg st))) (upd_cfg (\<lambda>cfg. cfg\<lparr>nf_route := h\<rparr>) st1))
         (\<lambda>st2. Some (0, hdr', st2))"
proof -
  have n: "(1 :: int) \<noteq> -1" by simp
  note vp = validate_passes [OF v n]
  have k: "nh_id hdr' = nh_id hdr" "nh_function hdr' = nh_function hdr" using check_ttl_keeps [OF vp(1)] by simp_all
  obtain qt where st1: "st1 = upd_cfg (\<lambda>cfg. cfg\<lparr>nf_query := qt\<rparr>) st" using vp(2) by blast
  have tb: "nf_route (ns_cfg st1) = nf_route (ns_cfg st)" "nf_packet (ns_cfg st1) = nf_packet (ns_cfg st)"
    "nf_conn (ns_cfg st1) = nf_conn (ns_cfg st)" by (simp_all add: st1)
  have g: "svz_hash_get (nf_route (ns_cfg st1)) (nh_id hdr') = Some None" "svz_hash_get (nf_packet (ns_cfg st1)) (nh_id hdr') = Some None"
    unfolding tb k using guid_get [of "nf_route (ns_cfg st)" "nh_id hdr"] guid_get [of "nf_packet (ns_cfg st)" "nh_id hdr"] t l new
    by (simp_all add: tables_ok_def)
  have gt: "guid_table (nf_route (ns_cfg st))" "string_table (nf_conn (ns_cfg st))" using t by (simp_all add: tables_ok_def)
  obtain h where h: "svz_hash_put (nf_route (ns_cfg st)) (nh_id hdr) (Some a) = Some (entry_of (nf_route (ns_cfg st)) (nh_id hdr), h)" "guid_table h"
    "\<And>k. guid_key k \<Longrightarrow> entry_of h k = (if take NUT_GUID_SIZE k = take NUT_GUID_SIZE (nh_id hdr) then Some a else entry_of (nf_route (ns_cfg st)) k)"
    using guid_put [OF gt(1) l, of "Some a"] by blast
  let ?st = "upd_cfg (\<lambda>cfg. cfg\<lparr>nf_route := h\<rparr>) st1"
  have fw: "(if svz_hash_size (Some (nf_conn (ns_cfg st))) \<noteq> 0
       then route_internal en (nut_put_header hdr') hdr' packet a (svz_hash_foreach (nf_conn (ns_cfg st))) False ?st else Some ?st)
     = forward_to en (nut_put_header hdr') hdr' packet (targets a (nf_conn (ns_cfg st))) ?st"
    using foreach_empty [OF gt(2)] by (simp add: targets_def route_internal_forward [of "svz_hash_foreach (nf_conn (ns_cfg st))", OF conn])
  have f: "nh_function hdr' AND 1 = 0" "nh_function hdr' \<noteq> NUT_PUSH_REQ" unfolding k using q by (auto simp: is_query_def nut_functions)
  have c: "nf_conn (ns_cfg ?st) = nf_conn (ns_cfg st)" by (simp add: tb)
  have "nut_route en a hdr packet st =
       Option.bind (forward_to en (nut_put_header hdr') hdr' packet (targets a (nf_conn (ns_cfg st))) ?st) (\<lambda>st2. Some (0, hdr', st2))"
    unfolding fw [symmetric] nut_route_def v using f g h(1) by (simp add: k tb c Let_def)
  with h(2,3) show ?thesis using that by blast
qed

subsection \<open>Tables forget a connection\<close>

lemma guid_table_keys: "guid_table h \<Longrightarrow> ent \<in> set (concat (table h)) \<Longrightarrow> guid_key (ent_key ent)"
  unfolding guid_table_def using guid_hash.table_keys by blast

lemma guid_entry:
  assumes "guid_table h" "guid_key k"
  shows "entry_of h k = Some v \<longleftrightarrow> (\<exists>ent \<in> set (concat (table h)). take NUT_GUID_SIZE (ent_key ent) = take NUT_GUID_SIZE k \<and> ent_value ent = Some v)"
proof -
  have "entry_of h k = Some v \<longleftrightarrow> (\<exists>ent \<in> set (concat (table h)). nut_hash_equals (ent_key ent) k = 0 \<and> ent_value ent = Some v)"
    using guid_hash.entry_iff [of h k v] assms unfolding guid_table_def by simp
  also have "\<dots> \<longleftrightarrow> (\<exists>ent \<in> set (concat (table h)). take NUT_GUID_SIZE (ent_key ent) = take NUT_GUID_SIZE k \<and> ent_value ent = Some v)"
    by (rule bex_cong [OF refl]) (simp only: nut_hash_equals_iff guid_table_keys [OF assms(1)] assms(2))
  finally show ?thesis .
qed

text \<open>The GUIDs of a table that stand for the connection \<open>a\<close>.\<close>

definition held :: "addr svz_hash \<Rightarrow> addr \<Rightarrow> mem set" where
  "held h a = {g. length g = NUT_GUID_SIZE \<and> entry_of h g = Some a}"

lemma guid_key_length: "length g = NUT_GUID_SIZE \<Longrightarrow> guid_key g \<and> take NUT_GUID_SIZE g = g"
  by (simp add: guid_key_def)

lemma held_finite: "guid_table h \<Longrightarrow> finite (held h a)"
proof (rule finite_subset)
  assume h: "guid_table h"
  show "held h a \<subseteq> (\<lambda>ent. take NUT_GUID_SIZE (ent_key ent)) ` set (concat (table h))"
  proof
    fix g assume "g \<in> held h a"
    then have "guid_key g" "take NUT_GUID_SIZE g = g" "entry_of h g = Some a" by (simp_all add: held_def guid_key_length)
    then show "g \<in> (\<lambda>ent. take NUT_GUID_SIZE (ent_key ent)) ` set (concat (table h))" using guid_entry [OF h] by fastforce
  qed
qed simp

lemma find_SomeD: "find P xs = Some x \<Longrightarrow> x \<in> set xs \<and> P x"
  by (induction xs) (auto split: if_splits)

lemma contains_held:
  assumes h: "guid_table h"
  shows "svz_hash_contains h (Some a) = None \<Longrightarrow> guid_key k \<Longrightarrow> entry_of h k \<noteq> Some a"
    and "svz_hash_contains h (Some a) = Some i \<Longrightarrow> guid_key i \<and> entry_of h i = Some a"
proof -
  show "svz_hash_contains h (Some a) = None \<Longrightarrow> guid_key k \<Longrightarrow> entry_of h k \<noteq> Some a"
    using guid_entry [OF h, of k a] by (auto simp: svz_hash_contains_def find_None_iff)
  assume "svz_hash_contains h (Some a) = Some i"
  then obtain ent where f: "find (\<lambda>ent. ent_value ent = Some a) (concat (table h)) = Some ent" "i = ent_key ent"
    by (auto simp: svz_hash_contains_def)
  then have ent: "ent \<in> set (concat (table h))" "ent_value ent = Some a" using find_SomeD [OF f(1)] by simp_all
  then have g: "guid_key i" using guid_table_keys [OF h ent(1)] f(2) by simp
  have "entry_of h i = Some a" unfolding guid_entry [OF h g] by (rule bexI [OF _ ent(1)]) (simp add: ent(2) f(2))
  with g show "guid_key i \<and> entry_of h i = Some a" ..
qed

text \<open>
  The deletion loop ends: each iteration removes a GUID that stands for the connection. Afterwards
  none does, and the entries of other connections are as before.
\<close>

lemma purge_correct:
  assumes "guid_table h"
  shows "\<exists>h'. purge a h = Some h' \<and> guid_table h' \<and>
    (\<forall>k. guid_key k \<longrightarrow> entry_of h' k = (if entry_of h k = Some a then None else entry_of h k))"
  using assms
proof (induction "card (held h a)" arbitrary: h rule: less_induct)
  case less
  show ?case
  proof (cases "svz_hash_contains h (Some a)")
    case None
    then have "purge a h = Some h" by (subst purge.simps) simp
    with contains_held(1) [OF less.prems None] less.prems show ?thesis by (intro exI [of _ h]) auto
  next
    case (Some i)
    then have i: "guid_key i" "entry_of h i = Some a" using contains_held(2) [OF less.prems] by auto
    obtain h1 where h1: "svz_hash_delete h i = Some (entry_of h i, h1)" "guid_table h1"
        "\<And>k. guid_key k \<Longrightarrow> entry_of h1 k = (if take NUT_GUID_SIZE k = take NUT_GUID_SIZE i then None else entry_of h k)"
      using guid_delete [OF less.prems i(1)] by blast
    have same: "entry_of h k = Some a" if "guid_key k" "take NUT_GUID_SIZE k = take NUT_GUID_SIZE i" for k
      using guid_entry [OF less.prems that(1)] guid_entry [OF less.prems i(1)] i(2) that(2) by metis
    have t: "length (take NUT_GUID_SIZE i) = NUT_GUID_SIZE" "guid_key (take NUT_GUID_SIZE i)" using i(1) guid_key_take by (auto simp: guid_key_def)
    have "held h1 a = held h a - {take NUT_GUID_SIZE i}" using h1(3) by (auto simp: held_def guid_key_length split: if_splits)
    moreover have "take NUT_GUID_SIZE i \<in> held h a" using same [OF t(2)] t(1) by (simp add: held_def)
    ultimately have "card (held h1 a) < card (held h a)" using held_finite [OF less.prems] by (metis card_Diff1_less)
    then obtain h' where h': "purge a h1 = Some h'" "guid_table h'"
        "\<forall>k. guid_key k \<longrightarrow> entry_of h' k = (if entry_of h1 k = Some a then None else entry_of h1 k)"
      using less.hyps [of h1] h1(2) by blast
    have "purge a h = Some h'" using Some h1(1) h'(1) by (subst purge.simps) simp
    moreover have "entry_of h' k = (if entry_of h k = Some a then None else entry_of h k)" if "guid_key k" for k
      using h'(3) h1(3) [OF that] same [OF that] that by auto
    ultimately show ?thesis using h'(2) by blast
  qed
qed

lemma foreach_entries:
  assumes "kv \<in> set (svz_hash_foreach h)"
  shows "\<exists>ent \<in> set (concat (table h)). kv = (ent_key ent, ent_value ent)"
proof -
  have "set (foreach_loop ks bs i) \<subseteq> (\<lambda>ent. (ent_key ent, ent_value ent)) ` set (concat bs)" for ks i and bs :: "'a svz_hash_bucket list"
    by (induction bs arbitrary: i) (simp, simp, blast)
  then obtain ent where ent: "ent \<in> set (concat (take (buckets h) (table h)))" "kv = (ent_key ent, ent_value ent)"
    using assms unfolding svz_hash_foreach_def by blast
  have "ent \<in> set (concat (table h))" using ent(1) by (auto dest: in_set_takeD)
  with ent(2) show ?thesis by blast
qed

text \<open>At most one entry of the packet table goes away.\<close>

lemma sent_packet_held:
  assumes h: "guid_table h" and s: "sent_packet a h = Some k"
  shows "guid_key k"
proof -
  from s obtain v where "find (\<lambda>(k, v). case v of None \<Rightarrow> False | Some pkt \<Rightarrow> pk_sock pkt = a) (svz_hash_foreach h) = Some (k, v)"
    by (auto simp: sent_packet_def)
  then have "(k, v) \<in> set (svz_hash_foreach h)" using find_SomeD by metis
  then obtain ent where "ent \<in> set (concat (table h))" "(k, v) = (ent_key ent, ent_value ent)" using foreach_entries by blast
  then show ?thesis using guid_table_keys [OF h] by simp
qed

lemma drop_sent_packet:
  assumes "guid_table h"
  obtains h' where "(case (if svz_hash_size (Some h) \<noteq> 0 then sent_packet a h else None) of
      None \<Rightarrow> Some h | Some k \<Rightarrow> map_option snd (svz_hash_delete h k)) = Some h'" "guid_table h'"
proof (cases "if svz_hash_size (Some h) \<noteq> 0 then sent_packet a h else None")
  case None
  then show ?thesis using that [of h] assms by simp
next
  case (Some k)
  then have "guid_key k" using sent_packet_held [OF assms, of a k] by (simp split: if_splits)
  then obtain h' where "svz_hash_delete h k = Some (entry_of h k, h')" "guid_table h'" using guid_delete [OF assms] by blast
  then show ?thesis using that [of h'] Some by simp
qed

text \<open>
  C22. When a connection ends, \<^verbatim>\<open>nut_disconnect\<close> returns (its deletion loops end), all tables stay well-formed, no
  GUID of the routing table or of the push table stands for the freed connection any more and those
  of other connections are as before, the connection table has no entry for its address, and the
  client record is gone: neither replies nor push requests are sent to the freed socket structure.
\<close>

theorem disconnect_forgets:
  assumes "tables_ok (ns_cfg st)" and "heap (ns_core st) a = Some s" and "sk_remote_addr s = Some ip"
  shows "\<exists>st'. nut_disconnect a st = Some (0, st') \<and> tables_ok (ns_cfg st') \<and> ns_clients st' a = None
    \<and> (\<forall>k. guid_key k \<longrightarrow> entry_of (nf_route (ns_cfg st')) k = (if entry_of (nf_route (ns_cfg st)) k = Some a then None else entry_of (nf_route (ns_cfg st)) k)
          \<and> entry_of (nf_reply (ns_cfg st')) k = (if entry_of (nf_reply (ns_cfg st)) k = Some a then None else entry_of (nf_reply (ns_cfg st)) k))
    \<and> (\<forall>k. c_string k \<longrightarrow> entry_of (nf_conn (ns_cfg st')) k
          = (if cstr k = cstr (nut_client_key ip (sk_remote_port s)) then None else entry_of (nf_conn (ns_cfg st)) k))"
proof -
  let ?cfg = "ns_cfg st" and ?key = "nut_client_key ip (sk_remote_port s)"
  have t: "guid_table (nf_route ?cfg)" "guid_table (nf_packet ?cfg)" "guid_table (nf_reply ?cfg)"
    "string_table (nf_conn ?cfg)" "string_table (nf_net ?cfg)" "string_table (nf_query ?cfg)"
    using assms(1) by (simp_all add: tables_ok_def)
  obtain reply where reply: "purge a (nf_reply ?cfg) = Some reply" "guid_table reply"
      "\<forall>k. guid_key k \<longrightarrow> entry_of reply k = (if entry_of (nf_reply ?cfg) k = Some a then None else entry_of (nf_reply ?cfg) k)"
    using purge_correct [OF t(3), of a] by blast
  obtain route where route: "purge a (nf_route ?cfg) = Some route" "guid_table route"
      "\<forall>k. guid_key k \<longrightarrow> entry_of route k = (if entry_of (nf_route ?cfg) k = Some a then None else entry_of (nf_route ?cfg) k)"
    using purge_correct [OF t(1), of a] by blast
  obtain packet where packet: "(case (if svz_hash_size (Some (nf_packet ?cfg)) \<noteq> 0 then sent_packet a (nf_packet ?cfg) else None) of
      None \<Rightarrow> Some (nf_packet ?cfg) | Some k \<Rightarrow> map_option snd (svz_hash_delete (nf_packet ?cfg) k)) = Some packet" "guid_table packet"
    using drop_sent_packet [OF t(2), of a] by blast
  obtain conn where conn: "svz_hash_delete (nf_conn ?cfg) ?key = Some (entry_of (nf_conn ?cfg) ?key, conn)" "string_table conn"
      "\<And>k. c_string k \<Longrightarrow> entry_of conn k = (if cstr k = cstr ?key then None else entry_of (nf_conn ?cfg) k)"
    using string_delete [OF t(4) key_c_string] by blast
  obtain net where net: "svz_hash_delete (nf_net ?cfg) ?key = Some (entry_of (nf_net ?cfg) ?key, net)" "string_table net"
    using string_delete [OF t(5) key_c_string] by blast
  have key: "nut_sock_client_key s = Some ?key" using assms(3) by (simp add: nut_sock_client_key_def)
  show ?thesis
    unfolding nut_disconnect_def Let_def reply(1) route(1) packet(1) assms(2) key conn(1) net(1) Option.bind.bind_lunit prod.case
    using reply(2,3) route(2,3) packet(2) conn(2,3) net(2) t(6) by (simp add: tables_ok_def split: option.splits)
qed

subsection \<open>The decision about a packet\<close>

datatype route_decision = Forward_reply addr | Own_reply | Lost_reply | Duplicate | Flood | Push_later

text \<open>What the protocol wants: \<open>route\<close> says where a query came from, \<open>own\<close> which GUIDs are the server's own.\<close>

definition decide :: "(mem \<Rightarrow> addr option) \<Rightarrow> (mem \<Rightarrow> bool) \<Rightarrow> nut_header \<Rightarrow> route_decision" where
  "decide route own hdr =
     (if is_reply hdr
      then case route (nh_id hdr) of Some x \<Rightarrow> Forward_reply x | None \<Rightarrow> if own (nh_id hdr) then Own_reply else Lost_reply
      else if is_query hdr then if route (nh_id hdr) \<noteq> None \<or> own (nh_id hdr) then Duplicate else Flood
      else Push_later)"

definition decision :: "'w nut \<Rightarrow> nut_header \<Rightarrow> route_decision" where
  "decision st = decide (entry_of (nf_route (ns_cfg st))) (\<lambda>g. entry_of (nf_packet (ns_cfg st)) g \<noteq> None)"

text \<open>The connection table has no \<^verbatim>\<open>NULL\<close> values.\<close>

definition conn_values :: "nut_config \<Rightarrow> bool" where
  "conn_values cfg \<longleftrightarrow> (\<forall>kv \<in> set (svz_hash_foreach (nf_conn cfg)). snd kv \<noteq> None)"

lemma decide_kinds:
  "decide r w hdr = Forward_reply x \<longleftrightarrow> is_reply hdr \<and> r (nh_id hdr) = Some x"
  "decide r w hdr = Own_reply \<longleftrightarrow> is_reply hdr \<and> r (nh_id hdr) = None \<and> w (nh_id hdr)"
  "decide r w hdr = Lost_reply \<longleftrightarrow> is_reply hdr \<and> r (nh_id hdr) = None \<and> \<not> w (nh_id hdr)"
  "decide r w hdr = Duplicate \<longleftrightarrow> is_query hdr \<and> (r (nh_id hdr) \<noteq> None \<or> w (nh_id hdr))"
  "decide r w hdr = Flood \<longleftrightarrow> is_query hdr \<and> r (nh_id hdr) = None \<and> \<not> w (nh_id hdr)"
  "decide r w hdr = Push_later \<longleftrightarrow> \<not> is_reply hdr \<and> \<not> is_query hdr"
  by (auto simp: decide_def is_reply_def is_query_def nut_functions split: option.splits)

lemma push_kind:
  assumes "nut_validate_packet en a hdr packet st = Some (1, hdr', st1)"
  shows "\<not> is_reply hdr \<and> \<not> is_query hdr \<longleftrightarrow> nh_function hdr = NUT_PUSH_REQ"
proof -
  have n: "(1 :: int) \<noteq> -1" by simp
  show ?thesis using validate_passes(3) [OF assms n] by (auto simp: is_reply_def is_query_def nut_functions)
qed


subsection \<open>Well-formedness of the tables is kept\<close>

lemma string_put:
  assumes "string_table h" "c_string k"
  obtains h' where "svz_hash_put h k v = Some (entry_of h k, h')" "string_table h'"
    "\<And>k'. c_string k' \<Longrightarrow> entry_of h' k' = (if cstr k' = cstr k then v else entry_of h k')"
  using str_hash.entry_put [of h k v] assms unfolding string_table_def by (metis hash_equal_iff)

lemma string_put_keeps: "svz_hash_put h k v = Some (old, h') \<Longrightarrow> string_table h \<Longrightarrow> c_string k \<Longrightarrow> string_table h'"
  by (metis option.inject prod.inject string_put)

lemma c_string_snoc: "c_string (xs @ [0])"
  by (simp add: c_string_def)

lemma guid_put_keeps: "svz_hash_put h k v = Some (old, h') \<Longrightarrow> guid_table h \<Longrightarrow> guid_key k \<Longrightarrow> guid_table h'"
  by (metis option.inject prod.inject guid_put)

text \<open>Writing, scheduling for shutdown and counting leave the configuration alone.\<close>

lemma nut_write_cfg: "nut_write en a buf st = Some (r, st') \<Longrightarrow> ns_cfg st' = ns_cfg st"
  by (auto simp: nut_write_def elim!: bind_SomeE)

lemma nut_schedule_cfg: "nut_schedule a st = Some st' \<Longrightarrow> ns_cfg st' = ns_cfg st"
  by (auto simp: nut_schedule_def elim!: bind_SomeE)

lemma upd_client_cfg: "upd_client a f st = Some st' \<Longrightarrow> ns_cfg st' = ns_cfg st"
  by (auto simp: upd_client_def elim!: bind_SomeE)

lemma drop_packet_cfg: "drop_packet a st = Some (r, st') \<Longrightarrow> ns_cfg st' = ns_cfg st"
  by (auto simp: drop_packet_def elim!: bind_SomeE dest!: upd_client_cfg)

lemma write_all_cfg: "write_all en a bs st = Some (r, st') \<Longrightarrow> ns_cfg st' = ns_cfg st"
  by (induction bs arbitrary: st) (auto elim!: bind_SomeE dest: nut_write_cfg split: if_splits)

lemmas cfg_frame = nut_write_cfg nut_schedule_cfg upd_client_cfg drop_packet_cfg write_all_cfg

lemma send_packet_cfg: "send_packet en a header hdr packet st = Some (r, st') \<Longrightarrow> ns_cfg st' = ns_cfg st"
  unfolding send_packet_def by (auto elim!: bind_SomeE dest!: nut_write_cfg nut_schedule_cfg split: if_splits)

lemma forward_to_cfg: "forward_to en header hdr packet as st = Some st' \<Longrightarrow> ns_cfg st' = ns_cfg st"
  by (induction as arbitrary: st) (auto elim!: bind_SomeE dest: send_packet_cfg split: if_splits)

lemma route_internal_cfg: "route_internal en header hdr packet b kvs p st = Some st' \<Longrightarrow> ns_cfg st' = ns_cfg st"
proof (induction kvs arbitrary: p st)
  case (Cons kv kvs)
  then show ?case by (cases kv) (auto elim!: bind_SomeE dest: send_packet_cfg split: if_splits)
qed simp

lemma canonize_query_tables:
  assumes "nut_canonize_query t cfg q = Some (r, cfg')" "tables_ok cfg"
  shows "tables_ok cfg'"
  using assms unfolding nut_canonize_query_def tables_ok_def
  by (auto simp: Let_def elim!: bind_SomeE split: if_splits option.splits) (erule (1) string_put_keeps, rule c_string_snoc)

lemma validate_tables:
  assumes "nut_validate_packet en a hdr packet st = Some (r, hdr', st')" "tables_ok (ns_cfg st)"
  shows "tables_ok (ns_cfg st')"
  using assms unfolding nut_validate_packet_def
  by (auto simp: Let_def elim!: bind_SomeE split: if_splits prod.splits dest!: upd_client_cfg nut_schedule_cfg)
    (erule (1) canonize_query_tables)+

lemma route_tables:
  assumes r: "nut_route en a hdr packet st = Some (r, hdr', st')" and t: "tables_ok (ns_cfg st)" "guid_key (nh_id hdr)"
  shows "tables_ok (ns_cfg st')"
proof -
  obtain n h s where v: "nut_validate_packet en a hdr packet st = Some (n, h, s)" using r by (auto simp: nut_route_def elim!: bind_SomeE)
  have s: "tables_ok (ns_cfg s)" by (rule validate_tables [OF v t(1)])
  have id: "n \<noteq> -1 \<Longrightarrow> guid_key (nh_id h)" using validate_passes(1) [OF v] check_ttl_keeps t(2) by metis
  show ?thesis using r s id unfolding nut_route_def v tables_ok_def
    by (auto simp: Let_def elim!: bind_SomeE split: if_splits option.splits dest!: send_packet_cfg route_internal_cfg)
      (erule (2) guid_put_keeps)+
qed

lemma host_catcher_tables:
  assumes "nut_host_catcher en a ip port st = Some (r, st')" "tables_ok (ns_cfg st)"
  shows "tables_ok (ns_cfg st')"
  using assms unfolding nut_host_catcher_def tables_ok_def
  by (auto simp: Let_def elim!: bind_SomeE split: if_splits option.splits) (erule (1) string_put_keeps, rule key_c_string)+

text \<open>What the parts that transfer files must not do: spoil the tables.\<close>

definition transfer_ok :: "'w nut_env \<Rightarrow> bool" where
  "transfer_ok en \<longleftrightarrow>
     (\<forall>a reply rec file st st'. ne_init_transfer en a reply rec file st = Some st' \<longrightarrow> tables_ok (ns_cfg st) \<longrightarrow> tables_ok (ns_cfg st'))
   \<and> (\<forall>a push st r st'. ne_give en a push st = Some (r, st') \<longrightarrow> tables_ok (ns_cfg st) \<longrightarrow> tables_ok (ns_cfg st'))"

lemma ping_cfg: "nut_ping en a hdr st = Some (r, st') \<Longrightarrow> ns_cfg st' = ns_cfg st"
  unfolding nut_ping_def Let_def by (auto elim!: bind_SomeE split: if_splits dest!: write_all_cfg nut_schedule_cfg simp del: write_all.simps)

lemma query_cfg: "nut_query en a hdr packet st = Some (r, st') \<Longrightarrow> ns_cfg st' = ns_cfg st"
  unfolding nut_query_def Let_def by (auto elim!: bind_SomeE split: if_splits dest!: write_all_cfg simp del: write_all.simps)

lemma pong_tables:
  assumes "nut_pong en a hdr packet st = Some (r, st')" "tables_ok (ns_cfg st)"
  shows "tables_ok (ns_cfg st')"
proof -
  obtain reply r1 st1 where h: "nut_get_pong packet = Some reply" "nut_host_catcher en a (np_ip reply) (np_port reply) st = Some (r1, st1)"
    using assms(1) by (auto simp: nut_pong_def elim!: bind_SomeE)
  have "tables_ok (ns_cfg st1)" by (rule host_catcher_tables [OF h(2) assms(2)])
  then show ?thesis using assms(1) h
    by (auto simp: nut_pong_def Let_def tables_ok_def elim!: bind_SomeE split: if_splits dest!: upd_client_cfg)
qed

lemma init_transfer_tables:
  assumes "transfer_ok en" "(if d then ne_init_transfer en a reply rec file st else Some st) = Some st1" "tables_ok (ns_cfg st)"
  shows "tables_ok (ns_cfg st1)"
  using assms unfolding transfer_ok_def by (cases d) auto

lemma reply_records_tables:
  assumes en: "transfer_ok en"
  shows "reply_records en a reply n packet p e st = Some (r, st') \<Longrightarrow> tables_ok (ns_cfg st) \<Longrightarrow> tables_ok (ns_cfg st')"
proof (induction n arbitrary: p st)
  case (Suc n)
  show ?case
  proof (cases "p < e")
    case True
    let ?q = "p + SIZEOF_NUT_RECORD + length (takeWhile (\<lambda>c. c \<noteq> 0) (drop (p + SIZEOF_NUT_RECORD) (take e packet)))"
    have step: "tables_ok (ns_cfg st')"
      if "(if d then ne_init_transfer en a reply rec f st else Some st) = Some st1" "reply_records en a reply n packet (?q + 2) e st1 = Some (r, st')" for d rec f st1
      by (rule Suc.IH [OF that(2) init_transfer_tables [OF en that(1) Suc.prems(2)]])
    have drp: "tables_ok (ns_cfg st')" if "drop_packet a st = Some (r, st')" using drop_packet_cfg [OF that] Suc.prems(2) by simp
    obtain rec where rec: "nut_get_record (drop p packet) = Some rec" using Suc.prems(1) True by (auto elim!: bind_SomeE)
    show ?thesis
    proof (cases "?q = e \<or> length packet \<le> ?q + 1 \<or> packet ! (?q + 1) \<noteq> 0")
      case True
      then show ?thesis using Suc.prems(1) rec \<open>p < e\<close> drp by (auto simp: Let_def split: if_splits)
    next
      case False
      obtain name where nm: "nut_canonize_file (drop (p + SIZEOF_NUT_RECORD) packet) = Some name"
        using Suc.prems(1) rec \<open>p < e\<close> False by (auto simp: Let_def elim!: bind_SomeE)
      show ?thesis using Suc.prems(1) rec nm \<open>p < e\<close> False step [where f = "cstr name @ [0]" and rec = rec and d = "nf_dnloads (ns_cfg st) < nf_max_dnloads (ns_cfg st)"]
        by (auto simp: Let_def simp del: reply_records.simps(1) elim!: bind_SomeE)
    qed
  qed (use Suc.prems in simp)
qed simp

lemma reply_tables:
  assumes "transfer_ok en" "nut_reply en a hdr packet st = Some (r, st')" "tables_ok (ns_cfg st)"
  shows "tables_ok (ns_cfg st')"
proof -
  obtain reply r1 st1 where h: "nut_get_reply packet = Some reply" "nut_host_catcher en a (ny_ip reply) (ny_port reply) st = Some (r1, st1)"
    using assms(2) by (auto simp: nut_reply_def elim!: bind_SomeE)
  have t: "tables_ok (ns_cfg st1)" by (rule host_catcher_tables [OF h(2) assms(3)])
  have g: "guid_key (drop (unat (nh_length hdr) - NUT_GUID_SIZE) packet)"
    if "\<not> unat (nh_length hdr) < SIZEOF_NUT_REPLY + NUT_GUID_SIZE" "\<not> length packet < unat (nh_length hdr)"
    using that by (auto simp: guid_key_def)
  have p: "tables_ok ((ns_cfg st1)\<lparr>nf_reply := k\<rparr>)"
    if "svz_hash_put (nf_reply (ns_cfg st1)) g v = Some (old, k)" "guid_key g" for g v old k
    using guid_put_keeps [OF that(1) _ that(2)] t by (simp add: tables_ok_def)
  show ?thesis using assms(2) h t p g reply_records_tables [OF assms(1)] unfolding nut_reply_def Let_def
    by (auto elim!: bind_SomeE split: if_splits dest!: drop_packet_cfg simp del: reply_records.simps)
qed

lemma push_tables:
  assumes "transfer_ok en" "nut_push_request en a hdr packet st = Some (r, st')" "tables_ok (ns_cfg st)"
  shows "tables_ok (ns_cfg st')"
  using assms unfolding nut_push_request_def transfer_ok_def
  by (auto elim!: bind_SomeE split: if_splits option.splits dest!: write_all_cfg nut_schedule_cfg drop_packet_cfg simp del: write_all.simps)

lemma dispatch_tables:
  assumes "transfer_ok en" "nut_dispatch en a hdr packet st = Some st'" "tables_ok (ns_cfg st)"
  shows "tables_ok (ns_cfg st')"
  using assms(2,3) unfolding nut_dispatch_def
  by (auto split: if_splits simp: ping_cfg query_cfg pong_tables push_tables [OF assms(1)] reply_tables [OF assms(1)])

lemma handle_tables:
  assumes "transfer_ok en" "nut_handle en a hdr packet st = Some st'" "tables_ok (ns_cfg st)" "guid_key (nh_id hdr)"
  shows "tables_ok (ns_cfg st')"
proof -
  obtain r hdr1 st1 where r: "nut_route en a hdr packet st = Some (r, hdr1, st1)" using assms(2) by (auto simp: nut_handle_def elim!: bind_SomeE)
  have t: "tables_ok (ns_cfg st1)" by (rule route_tables [OF r assms(3,4)])
  show ?thesis using assms(2) r t dispatch_tables [OF assms(1) _ t, of a hdr1 packet st']
    by (auto simp: nut_handle_def elim!: bind_SomeE split: if_splits dest!: upd_client_cfg)
qed

lemma header_guid: "nut_get_header d = Some hdr \<Longrightarrow> guid_key (nh_id hdr)"
  by (auto simp: nut_get_header_def guid_key_def nut_sizes split: if_splits)

lemma check_step_tables:
  assumes "\<And>hdr packet st st'. handle a hdr packet st = Some st' \<Longrightarrow> tables_ok (ns_cfg st) \<Longrightarrow> guid_key (nh_id hdr) \<Longrightarrow> tables_ok (ns_cfg st')"
    and "nut_check_step handle a st = Some (r, st')" "tables_ok (ns_cfg st)"
  shows "tables_ok (ns_cfg st')"
  using assms(2,3) unfolding nut_check_step_def Let_def
  by (auto elim!: bind_SomeE split: if_splits dest!: upd_client_cfg)
    (erule assms(1), simp, erule header_guid)+

lemma check_loop_keeps:
  assumes step: "\<And>st r st'. nut_check_step handle a st = Some (r, st') \<Longrightarrow> P st \<Longrightarrow> P st'"
  shows "nut_check_loop handle a st = Some (r, st') \<Longrightarrow> P st \<Longrightarrow> P st'"
proof -
  have "case y of (r, st') \<Rightarrow> h = handle \<longrightarrow> b = a \<longrightarrow> P st \<longrightarrow> P st'" if "nut_check_loop h b st = Some y" for h b st y
  proof (rule nut_check_loop.raw_induct [where P = "\<lambda>h b st y. case y of (r, st') \<Rightarrow> h = handle \<longrightarrow> b = a \<longrightarrow> P st \<longrightarrow> P st'", OF _ that])
    fix loop h b st y
    assume ih: "\<And>h b st y. loop h b st = Some y \<Longrightarrow> case y of (r, st') \<Rightarrow> h = handle \<longrightarrow> b = a \<longrightarrow> P st \<longrightarrow> P st'"
      and body: "Option.bind (nut_check_step h b st) (\<lambda>(r, st). if r = None then loop h b st else Some (the r, st)) = Some y"
    obtain r0 st0 where s: "nut_check_step h b st = Some (r0, st0)" using body by (auto elim!: bind_SomeE)
    show "case y of (r, st') \<Rightarrow> h = handle \<longrightarrow> b = a \<longrightarrow> P st \<longrightarrow> P st'"
      using ih [of h b st0 y] body s step [of st r0 st0] by (cases r0) (auto split: prod.splits)
  qed
  then show "nut_check_loop handle a st = Some (r, st') \<Longrightarrow> P st \<Longrightarrow> P st'" by fastforce
qed



subsection \<open>Two connections\<close>

text \<open>A server with the connections 1 and 2; both are in the connection table, the other tables are empty.\<close>

definition empty_guids :: "'v svz_hash" where
  "empty_guids = \<lparr>buckets = 4, fill = 0, keys = 0, equals = nut_hash_equals, code = nut_hash_code, keylen = nut_hash_keylen, destroy = False, table = replicate 4 []\<rparr>"

definition empty_strings :: "'v svz_hash" where
  "empty_strings = \<lparr>buckets = 4, fill = 0, keys = 0, equals = hash_equal, code = hash_code, keylen = hash_key_length, destroy = False, table = replicate 4 []\<rparr>"

definition ex_peer :: "u32 \<Rightarrow> svz_socket" where
  "ex_peer ip = (svz_sock_alloc 0)\<lparr>sk_remote_addr := Some ip, sk_remote_port := htons 6346, sk_local_addr := Some 0x01020304\<rparr>"

definition ex_conn :: "addr svz_hash" where
  "ex_conn = (let h = snd (the (svz_hash_put empty_strings (nut_client_key 0x01010101 (htons 6346)) (Some 1)))
     in snd (the (svz_hash_put h (nut_client_key 0x02020202 (htons 6346)) (Some 2))))"

definition ex_cfg :: nut_config where
  "ex_cfg = \<lparr>nf_max_ttl = 7, nf_ttl = 5, nf_guid = replicate 16 9, nf_route = empty_guids, nf_conn = ex_conn, nf_search = [], nf_search_index = 0,
     nf_search_limit = 30, nf_packet = empty_guids, nf_errors = 0, nf_files = 0, nf_size = 0, nf_nodes = 0, nf_dnloads = 0, nf_max_dnloads = 4,
     nf_speed = 28, nf_min_speed = 28, nf_net = empty_strings, nf_connections = 4, nf_ip = 0, nf_port = 0, nf_query = empty_strings,
     nf_reply = empty_guids, nf_database = [], nf_db_files = 0, nf_db_size = 0, nf_uploads = 0, nf_max_uploads = 4, nf_disable = False,
     nf_net_detect = lit ''/gnutella-net''\<rparr>"

definition ex_nut :: "mem nut" where
  "ex_nut = \<lparr>ns_core = core_init\<lparr>heap := [1 \<mapsto> ex_peer 0x01010101, 2 \<mapsto> ex_peer 0x02020202]\<rparr>,
     ns_clients = [1 \<mapsto> nut_create_client, 2 \<mapsto> nut_create_client], ns_cfg = ex_cfg, ns_world = []\<rparr>"

definition ex_env :: "mem nut_env" where
  "ex_env = \<lparr>ne_os = slow_os, ne_port_addr = (\<lambda>_ _. None), ne_regex = (\<lambda>_ _. False),
     ne_init_transfer = (\<lambda>_ _ _ _ st. Some st), ne_give = (\<lambda>_ _ st. Some (-1, st))\<rparr>"

definition ex_ping :: nut_header where
  "ex_ping = \<lparr>nh_id = replicate 16 7, nh_function = NUT_PING_REQ, nh_ttl = 5, nh_hop = 2, nh_length = 0\<rparr>"

lemma empty_tables: "guid_table empty_guids" "string_table empty_strings"
proof -
  have "hash_shape empty_guids" "hash_shape empty_strings"
    by (auto simp: hash_shape_def empty_guids_def empty_strings_def SVZ_HASH_MIN_SIZE_def nth_replicate intro: exI [of _ 2])
  then show "guid_table empty_guids" "string_table empty_strings"
    by (auto simp: guid_table_def string_table_def hash_wf_def hash_ents_def uses_def entries_def empty_guids_def empty_strings_def)
qed

lemma string_put_the: "string_table h \<Longrightarrow> c_string k \<Longrightarrow> string_table (snd (the (svz_hash_put h k v)))"
  by (metis option.sel snd_conv string_put)

lemma string_put_no_null:
  assumes "string_table h" "c_string k" "\<forall>ent \<in> set (concat (table h)). ent_value ent \<noteq> None"
  shows "\<forall>ent \<in> set (concat (table (snd (the (svz_hash_put h k (Some v)))))). ent_value ent \<noteq> None"
proof -
  obtain h' where "svz_hash_put h k (Some v) = Some (entry_of h k, h')" using string_put [OF assms(1,2)] by blast
  then show ?thesis using str_hash.put_no_null [of h k v _ h'] assms by (simp add: string_table_def)
qed

lemma conn_values_table:
  assumes "string_table (nf_conn cfg)" "\<forall>ent \<in> set (concat (table (nf_conn cfg))). ent_value ent \<noteq> None"
  shows "conn_values cfg"
proof -
  have "snd kv \<noteq> None" if kv: "kv \<in> set (svz_hash_foreach (nf_conn cfg))" for kv
  proof -
    obtain ent where "ent \<in> set (concat (table (nf_conn cfg)))" "kv = (ent_key ent, ent_value ent)" using foreach_entries [OF kv] by blast
    then show ?thesis using assms(2) by auto
  qed
  then show ?thesis by (simp add: conn_values_def)
qed

lemma ex_tables: "tables_ok (ns_cfg ex_nut)" "conn_values (ns_cfg ex_nut)"
proof -
  have c: "string_table ex_conn" unfolding ex_conn_def Let_def by (intro string_put_the empty_tables key_c_string)
  then show "tables_ok (ns_cfg ex_nut)" by (simp add: tables_ok_def ex_nut_def ex_cfg_def empty_tables)
  have "\<forall>ent \<in> set (concat (table ex_conn)). ent_value ent \<noteq> None" unfolding ex_conn_def Let_def
    by (intro string_put_no_null string_put_the empty_tables key_c_string) (simp add: empty_strings_def)
  then show "conn_values (ns_cfg ex_nut)" using c by (intro conn_values_table) (simp_all add: ex_nut_def ex_cfg_def)
qed

lemma ex_validate: "nut_validate_packet ex_env 1 ex_ping [] ex_nut = Some (1, ex_ping\<lparr>nh_ttl := 4, nh_hop := 3\<rparr>, ex_nut)"
  by (simp add: nut_validate_packet_def ex_ping_def nut_functions check_ttl_def ex_nut_def ex_cfg_def word_le_nat_alt)

lemma ex_guid: "guid_key (nh_id ex_ping)" "is_query ex_ping"
  by (simp_all add: guid_key_def ex_ping_def NUT_GUID_SIZE_def is_query_def)

theorem validated_packet_ttl_witness:
  "nut_validate_packet ex_env 1 ex_ping [] ex_nut = Some (1, ex_ping\<lparr>nh_ttl := 4, nh_hop := 3\<rparr>, ex_nut) \<and> uint (4 :: byte) < uint (nh_ttl ex_ping)"
  using validated_packet_ttl [OF ex_validate] ex_validate by simp

lemma ex_entry: "entry_of (nf_route (ns_cfg ex_nut)) k = None" "entry_of (nf_packet (ns_cfg ex_nut)) k = None"
  by (simp_all add: ex_nut_def ex_cfg_def entry_of_def hash_lookup_def empty_guids_def)


theorem disconnect_forgets_witness:
  "\<exists>st'. nut_disconnect 1 ex_nut = Some (0, st') \<and> tables_ok (ns_cfg st') \<and> ns_clients st' 1 = None"
proof -
  have "heap (ns_core ex_nut) 1 = Some (ex_peer 0x01010101)" "sk_remote_addr (ex_peer 0x01010101) = Some 0x01010101"
    by (simp_all add: ex_nut_def ex_peer_def)
  from disconnect_forgets [OF ex_tables(1) this] show ?thesis by blast
qed

lemma ex_check_request: "nut_check_request ex_env 1 ex_nut = Some (0, ex_nut)"
  unfolding nut_check_request_def
  by (subst nut_check_loop.simps) (simp add: nut_check_step_def ex_nut_def ex_peer_def svz_sock_alloc_def nut_sizes word_le_nat_alt)


text \<open>The server without connections in its table: a new query is recorded and goes nowhere.\<close>

definition ex_alone :: "mem nut" where
  "ex_alone = upd_cfg (\<lambda>cfg. cfg\<lparr>nf_conn := empty_strings\<rparr>) ex_nut"


end
