(* ===== verification/Nut_Stream.thy ===== *)
theory Nut_Stream
  imports Nut_Route
begin

text \<open>
  How \<^verbatim>\<open>nut_check_request\<close> cuts the receive buffer into packets: the handlers leave the receive
  buffers alone, so the loop handles the packets the buffer began with; and the one case in
  which it does not return.
\<close>

subsection \<open>Handlers leave the receive buffers alone\<close>

definition inbuf :: "svz_socket \<Rightarrow> byte cell list option \<times> int \<times> int" where
  "inbuf s = (sk_recv_buffer s, sk_recv_buffer_size s, sk_recv_buffer_fill s)"

definition same_recv :: "core \<Rightarrow> core \<Rightarrow> bool" where
  "same_recv c c' \<longleftrightarrow> (\<forall>b. map_option inbuf (heap c' b) = map_option inbuf (heap c b))"

lemma same_recv_refl [simp]: "same_recv c c"
  by (simp add: same_recv_def)

lemma same_recv_trans: "same_recv a b \<Longrightarrow> same_recv b c \<Longrightarrow> same_recv a c"
  by (simp add: same_recv_def)

lemma inbuf_rep: "inbuf s = inbuf t \<Longrightarrow> recv_rep s got \<longleftrightarrow> recv_rep t got"
  by (simp add: inbuf_def recv_rep_def)

lemma same_recv_upd: "upd c a f = Some c' \<Longrightarrow> (\<And>s. heap c a = Some s \<Longrightarrow> inbuf (f s) = inbuf s) \<Longrightarrow> same_recv c c'"
  by (auto simp: upd_def same_recv_def)

lemma same_recv_rep:
  assumes "same_recv c c'" "heap c a = Some s" "recv_rep s got"
  obtains s' where "heap c' a = Some s'" "recv_rep s' got"
proof -
  obtain s' where "heap c' a = Some s'" "inbuf s' = inbuf s" using assms(1,2) unfolding same_recv_def by (metis (no_types, lifting) map_option_eq_Some option.simps(9))
  then show ?thesis using that assms(3) inbuf_rep by blast
qed

lemma inbuf_flag [simp]: "inbuf (set_flag f s) = inbuf s" "inbuf (clear_flag f s) = inbuf s"
  by (simp_all add: inbuf_def set_flag_def clear_flag_def)

lemma sched_same_recv: "sched c task = Some c' \<Longrightarrow> same_recv c c'"
proof (rule sched.raw_induct [where P = "\<lambda>c task c'. same_recv c c'"])
  fix f c task c'
  assume ih: "\<And>c task c'. f c task = Some c' \<Longrightarrow> same_recv c c'"
    and body: "(case task of
        Kill a \<Rightarrow> Option.bind (heap c a) (\<lambda>s. if has_flag s SVZ_SOFLG_KILLED then Some c
          else Option.bind (upd c a (set_flag SVZ_SOFLG_KILLED))
            (\<lambda>c. if has_flag s SVZ_SOFLG_LISTENING then f c (Scan a (svz_sock_root c)) else Some c))
      | Scan a cur \<Rightarrow> if cur = None then Some c
          else Option.bind (svz_sock_getparent c cur) (\<lambda>parent.
            Option.bind (if parent = Some a then f c (Kill (the cur)) else Some c)
              (\<lambda>c. Option.bind (heap c (the cur)) (\<lambda>s. f c (Scan a (sk_next s)))))) = Some c'"
  show "same_recv c c'"
  proof (cases task)
    case (Kill a)
    then show ?thesis using body same_recv_upd [of c a "set_flag SVZ_SOFLG_KILLED"]
      by (auto elim!: bind_SomeE split: if_splits dest!: ih) (erule (1) same_recv_trans)+
  next
    case (Scan a cur)
    then show ?thesis using body
      by (auto elim!: bind_SomeE split: if_splits dest!: ih) (erule (1) same_recv_trans)+
  qed
qed

lemma tcp_write_recv: "svz_tcp_write_socket os s w = Some (r, s', w') \<Longrightarrow> inbuf s' = inbuf s"
  unfolding svz_tcp_write_socket_def Let_def
  by (auto simp: inbuf_def svz_sock_reduce_send_def svz_wait_if_unavailable_def Let_def elim!: bind_SomeE split: if_splits prod.splits)

lemma write_loop_recv:
  "svz_sock_write_loop (svz_tcp_write_socket os) None n s buf w = Some (r, s', w') \<Longrightarrow> inbuf s' = inbuf s"
proof (induction "svz_tcp_write_socket os" "None :: 'a kick_cb" n s buf w rule: svz_sock_write_loop.induct)
  case (1 n s buf w)
  show ?case
  proof (cases "0 < length buf")
    case True
    have "svz_sock_write_loop (svz_tcp_write_socket os) None n s buf w = Some (r, s', w')" by (rule 1(2))
    then obtain ret s1 w1 where f: "write_flush (svz_tcp_write_socket os) s w (n = length buf) = Some (ret, s1, w1)"
      using True by (subst (asm) svz_sock_write_loop.simps) (auto split: option.splits)
    have v: "inbuf s1 = inbuf s" using f by (auto simp: write_flush_def Let_def elim!: bind_SomeE split: if_splits dest!: tcp_write_recv)
    show ?thesis using 1(2) True f v 1(1) [OF True f]
      by (subst (asm) svz_sock_write_loop.simps) (auto simp: kick_def Let_def inbuf_def split: if_splits option.splits)
  qed (use 1 in \<open>simp add: svz_sock_write_loop.simps\<close>)
qed

lemma nut_write_recv: "nut_write en a buf st = Some (r, st') \<Longrightarrow> same_recv (ns_core st) (ns_core st')"
  by (auto simp: nut_write_def svz_sock_write_def elim!: bind_SomeE split: if_splits intro!: same_recv_upd dest: write_loop_recv)

lemma nut_schedule_recv: "nut_schedule a st = Some st' \<Longrightarrow> same_recv (ns_core st) (ns_core st')"
  by (auto simp: nut_schedule_def svz_sock_schedule_for_shutdown_def elim!: bind_SomeE dest: sched_same_recv)

lemma upd_client_core: "upd_client a f st = Some st' \<Longrightarrow> ns_core st' = ns_core st"
  by (auto simp: upd_client_def elim!: bind_SomeE)

lemma drop_packet_core: "drop_packet a st = Some (r, st') \<Longrightarrow> ns_core st' = ns_core st"
  by (auto simp: drop_packet_def elim!: bind_SomeE dest!: upd_client_core)

lemma write_all_recv: "write_all en a bs st = Some (r, st') \<Longrightarrow> same_recv (ns_core st) (ns_core st')"
  by (induction bs arbitrary: st) (auto elim!: bind_SomeE split: if_splits dest!: nut_write_recv, metis same_recv_trans)

lemma send_packet_recv: "send_packet en a header hdr packet st = Some (r, st') \<Longrightarrow> same_recv (ns_core st) (ns_core st')"
  unfolding send_packet_def
  by (auto elim!: bind_SomeE split: if_splits dest!: nut_write_recv nut_schedule_recv) (metis same_recv_trans)+

lemma route_internal_recv: "route_internal en header hdr packet b kvs p st = Some st' \<Longrightarrow> same_recv (ns_core st) (ns_core st')"
proof (induction kvs arbitrary: p st)
  case (Cons kv kvs)
  obtain k v where kv: "kv = (k, v)" by fastforce
  show ?case using Cons.prems unfolding kv
    by (auto elim!: bind_SomeE split: if_splits dest!: Cons.IH send_packet_recv) (metis same_recv_trans)
qed simp

lemma validate_recv: "nut_validate_packet en a hdr packet st = Some (r, hdr', st') \<Longrightarrow> same_recv (ns_core st) (ns_core st')"
  unfolding nut_validate_packet_def Let_def
  by (auto elim!: bind_SomeE split: if_splits prod.splits dest!: upd_client_core nut_schedule_recv)

lemma route_recv: "nut_route en a hdr packet st = Some (r, hdr', st') \<Longrightarrow> same_recv (ns_core st) (ns_core st')"
  unfolding nut_route_def Let_def
  by (auto elim!: bind_SomeE split: if_splits option.splits dest!: validate_recv send_packet_recv route_internal_recv) (metis same_recv_trans)+

lemma host_catcher_core: "nut_host_catcher en a ip port st = Some (r, st') \<Longrightarrow> ns_core st' = ns_core st"
  unfolding nut_host_catcher_def Let_def by (auto elim!: bind_SomeE split: if_splits option.splits)

text \<open>What the transfer of files must not do to connections that exist.\<close>

definition transfer_quiet :: "'w nut_env \<Rightarrow> bool" where
  "transfer_quiet en \<longleftrightarrow>
     (\<forall>a reply rec file st st'. ne_init_transfer en a reply rec file st = Some st' \<longrightarrow> same_recv (ns_core st) (ns_core st'))
   \<and> (\<forall>a push st r st'. ne_give en a push st = Some (r, st') \<longrightarrow> same_recv (ns_core st) (ns_core st'))"

lemma ping_recv: "nut_ping en a hdr st = Some (r, st') \<Longrightarrow> same_recv (ns_core st) (ns_core st')"
  unfolding nut_ping_def Let_def
  by (auto elim!: bind_SomeE split: if_splits dest!: write_all_recv nut_schedule_recv simp del: write_all.simps) (erule (1) same_recv_trans)

lemma query_recv: "nut_query en a hdr packet st = Some (r, st') \<Longrightarrow> same_recv (ns_core st) (ns_core st')"
  unfolding nut_query_def Let_def by (auto elim!: bind_SomeE split: if_splits dest!: write_all_recv simp del: write_all.simps)

lemma pong_core: "nut_pong en a hdr packet st = Some (r, st') \<Longrightarrow> ns_core st' = ns_core st"
  unfolding nut_pong_def Let_def by (auto elim!: bind_SomeE split: if_splits dest!: host_catcher_core upd_client_core)

lemma push_recv:
  assumes "transfer_quiet en" "nut_push_request en a hdr packet st = Some (r, st')"
  shows "same_recv (ns_core st) (ns_core st')"
  using assms unfolding nut_push_request_def transfer_quiet_def
  by (auto elim!: bind_SomeE split: if_splits option.splits dest!: write_all_recv nut_schedule_recv drop_packet_core simp del: write_all.simps)
    (erule (1) same_recv_trans)+

lemma reply_records_recv:
  assumes en: "transfer_quiet en"
  shows "reply_records en a reply n packet p e st = Some (r, st') \<Longrightarrow> same_recv (ns_core st) (ns_core st')"
proof (induction n arbitrary: p st)
  case (Suc n)
  have drp: "same_recv (ns_core st) (ns_core st')" if "drop_packet a st = Some (r, st')" using drop_packet_core [OF that] by simp
  have step: "same_recv (ns_core st) (ns_core st')"
    if "ne_init_transfer en a reply rec f st = Some st1" "reply_records en a reply n packet q e st1 = Some (r, st')" for rec f st1 q
    using en same_recv_trans [OF _ Suc.IH [OF that(2)]] that(1) unfolding transfer_quiet_def by blast
  show ?case using Suc.prems drp unfolding reply_records.simps Let_def
    by (auto simp del: reply_records.simps elim!: bind_SomeE split: if_splits) (erule (1) step | erule Suc.IH)+
qed simp

lemma reply_recv:
  assumes "transfer_quiet en" "nut_reply en a hdr packet st = Some (r, st')"
  shows "same_recv (ns_core st) (ns_core st')"
  using assms(2) unfolding nut_reply_def Let_def
  by (auto elim!: bind_SomeE split: if_splits dest!: host_catcher_core drop_packet_core reply_records_recv [OF assms(1)] simp del: reply_records.simps)

lemma handle_recv:
  assumes "transfer_quiet en" "nut_handle en a hdr packet st = Some st'"
  shows "same_recv (ns_core st) (ns_core st')"
proof -
  obtain r hdr1 st1 where r: "nut_route en a hdr packet st = Some (r, hdr1, st1)" using assms(2) by (auto simp: nut_handle_def elim!: bind_SomeE)
  have d: "same_recv (ns_core st1) (ns_core st')" if "nut_dispatch en a hdr1 packet st1 = Some st'"
    using that unfolding nut_dispatch_def
    by (auto split: if_splits simp: ping_recv query_recv pong_core push_recv [OF assms(1)] reply_recv [OF assms(1)])
  have "same_recv (ns_core st1) (ns_core st')"
    using assms(2) r d by (auto simp: nut_handle_def elim!: bind_SomeE split: if_splits dest!: upd_client_core)
  then show ?thesis using route_recv [OF r] same_recv_trans by blast
qed

subsection \<open>The packets of a byte string\<close>

text \<open>The packets a byte string begins with, each with the bytes from its body on, and the incomplete rest.\<close>

function packets :: "mem \<Rightarrow> (nut_header \<times> mem) list \<times> mem" where
  "packets got =
     (case nut_get_header got of
        None \<Rightarrow> ([], got)
      | Some hdr \<Rightarrow>
          let n = SIZEOF_NUT_HEADER + unat (nh_length hdr)
          in if length got < n then ([], got)
             else let (ps, rest) = packets (drop n got) in ((hdr, drop SIZEOF_NUT_HEADER got) # ps, rest))"
  by pat_completeness auto
termination by (relation "measure length") (auto simp: nut_get_header_def nut_sizes split: if_splits)

declare packets.simps [simp del]

text \<open>Count a packet, handle it, and cut it off unless the connection is to be shut down.\<close>

primrec handle_all :: "(addr \<Rightarrow> nut_header \<Rightarrow> mem \<Rightarrow> 'w nut \<Rightarrow> 'w nut option) \<Rightarrow> addr \<Rightarrow> (nut_header \<times> mem) list \<Rightarrow> 'w nut \<Rightarrow> (int \<times> 'w nut) option" where
  "handle_all handle a [] st = Some (0, st)"
| "handle_all handle a (p # ps) st = do {
     st \<leftarrow> upd_client a (\<lambda>cl. cl\<lparr>cl_packets := cl_packets cl + 1\<rparr>) st;
     st \<leftarrow> handle a (fst p) (snd p) st;
     s \<leftarrow> heap (ns_core st) a;
     if has_flag s SVZ_SOFLG_KILLED then Some (-1, st)
     else do {
       s \<leftarrow> svz_sock_reduce_recv s (int (SIZEOF_NUT_HEADER + unat (nh_length (fst p))));
       c \<leftarrow> upd (ns_core st) a (\<lambda>_. s);
       handle_all handle a ps (st\<lparr>ns_core := c\<rparr>)
     }
   }"

text \<open>No length field is so large that adding the size of the header overflows; buffers are below 2 GB.\<close>

definition plain :: "mem \<Rightarrow> bool" where
  "plain got \<longleftrightarrow> length got < 2 ^ 31 \<and>
     (\<forall>n hdr. nut_get_header (drop n got) = Some hdr \<longrightarrow> unat (nh_length hdr) < 2 ^ 32 - SIZEOF_NUT_HEADER)"

lemma plain_drop: "plain got \<Longrightarrow> plain (drop n got)"
  by (auto simp: plain_def)

lemma header_length: "nut_get_header d = Some hdr \<Longrightarrow> SIZEOF_NUT_HEADER \<le> length d"
  by (auto simp: nut_get_header_def split: if_splits)

text \<open>The test of the loop, in the arithmetic of \<^verbatim>\<open>unsigned int\<close>, for a buffer without overflowing lengths.\<close>

lemma fill_words:
  assumes "length got < 2 ^ 31" "f0 = (word_of_int (int (length got)) :: u32)"
  shows "unat f0 = length got" "f0 \<ge> of_nat SIZEOF_NUT_HEADER \<longleftrightarrow> SIZEOF_NUT_HEADER \<le> length got"
    "unat n < 2 ^ 32 - SIZEOF_NUT_HEADER \<Longrightarrow> unat (of_nat SIZEOF_NUT_HEADER + n :: u32) = SIZEOF_NUT_HEADER + unat n"
proof -
  show f: "unat f0 = length got" using assms by (simp add: unat_of_nat)
  show "f0 \<ge> of_nat SIZEOF_NUT_HEADER \<longleftrightarrow> SIZEOF_NUT_HEADER \<le> length got"
    using f by (simp add: word_le_nat_alt nut_sizes)
  show "unat n < 2 ^ 32 - SIZEOF_NUT_HEADER \<Longrightarrow> unat (of_nat SIZEOF_NUT_HEADER + n :: u32) = SIZEOF_NUT_HEADER + unat n"
    by (simp add: unat_word_ariths nut_sizes)
qed

lemma sint_small: "unat (x :: u32) < 2 ^ 31 \<Longrightarrow> sint x = int (unat x)"
proof -
  assume "unat x < 2 ^ 31"
  then have "int (unat x) < 2 ^ 31" by (simp only: of_nat_less_numeral_power_cancel_iff)
  then show ?thesis unfolding sint_uint uint_nat by (intro signed_take_bit_int_eq_self) (simp_all, use uint_ge_0 [of x] in linarith)
qed

lemma check_step_packets:
  assumes s: "heap (ns_core st) a = Some s" "recv_rep s got" and p: "plain got"
  shows "nut_check_step handle a st =
    (case nut_get_header got of
       None \<Rightarrow> Some (Some 0, st)
     | Some hdr \<Rightarrow>
         if length got < SIZEOF_NUT_HEADER + unat (nh_length hdr) then Some (Some 0, st)
         else do {
           st \<leftarrow> upd_client a (\<lambda>cl. cl\<lparr>cl_packets := cl_packets cl + 1\<rparr>) st;
           st \<leftarrow> handle a hdr (drop SIZEOF_NUT_HEADER got) st;
           s \<leftarrow> heap (ns_core st) a;
           if has_flag s SVZ_SOFLG_KILLED then Some (Some (-1), st)
           else do {
             s \<leftarrow> svz_sock_reduce_recv s (int (SIZEOF_NUT_HEADER + unat (nh_length hdr)));
             c \<leftarrow> upd (ns_core st) a (\<lambda>_. s);
             Some (None, st\<lparr>ns_core := c\<rparr>)
           }
         })"
proof -
  have b: "buf_rep (sk_recv_buffer s) (sk_recv_buffer_size s) (sk_recv_buffer_fill s) got" using s(2) by (simp add: recv_rep_def)
  have f: "sk_recv_buffer_fill s = int (length got)" using buf_rep_length [OF b] by simp
  have r: "buf_read (sk_recv_buffer s) 0 (sk_recv_buffer_fill s) = Some got" using buf_read_rep [OF b, of 0 "sk_recv_buffer_fill s"] f by simp
  have l: "length got < 2 ^ 31" using p by (simp add: plain_def)
  note w = fill_words [OF l refl]
  show ?thesis
  proof (cases "nut_get_header got")
    case None
    then have "\<not> SIZEOF_NUT_HEADER \<le> length got" by (auto simp: nut_get_header_def split: if_splits)
    then show ?thesis using s(1) w(2) f None by (simp add: nut_check_step_def)
  next
    case (Some hdr)
    have h: "SIZEOF_NUT_HEADER \<le> length got" by (rule header_length [OF Some])
    have n: "unat (nh_length hdr) < 2 ^ 32 - SIZEOF_NUT_HEADER" using p Some unfolding plain_def by (metis drop0)
    let ?n = "of_nat SIZEOF_NUT_HEADER + nh_length hdr :: u32"
    have le: "?n \<le> word_of_int (int (length got)) \<longleftrightarrow> SIZEOF_NUT_HEADER + unat (nh_length hdr) \<le> length got"
      using w(1) w(3) [OF n] by (simp add: word_le_nat_alt)
    have sn: "sint ?n = int (SIZEOF_NUT_HEADER + unat (nh_length hdr))" if "SIZEOF_NUT_HEADER + unat (nh_length hdr) \<le> length got"
    proof -
      have "unat ?n < 2 ^ 31" using w(3) [OF n] that l by linarith
      then show ?thesis using sint_small [of ?n] by (simp only: w(3) [OF n])
    qed
    show ?thesis using s(1) w(2) f r Some h le sn
      by (auto simp: nut_check_step_def Let_def not_le simp del: of_nat_add)
  qed
qed

text \<open>Handling keeps the receive buffer of the connection.\<close>

definition keeps_recv :: "(addr \<Rightarrow> nut_header \<Rightarrow> mem \<Rightarrow> 'w nut \<Rightarrow> 'w nut option) \<Rightarrow> bool" where
  "keeps_recv handle \<longleftrightarrow> (\<forall>a hdr packet st st'. handle a hdr packet st = Some st' \<longrightarrow> same_recv (ns_core st) (ns_core st'))"

lemma check_loop_packets:
  assumes "keeps_recv handle"
  shows "heap (ns_core st) a = Some s \<Longrightarrow> recv_rep s got \<Longrightarrow> plain got \<Longrightarrow> nut_check_loop handle a st = handle_all handle a (fst (packets got)) st"
proof (induction "length got" arbitrary: got st s rule: less_induct)
  case less
  note step = check_step_packets [OF less.prems]
  consider "nut_get_header got = None" | hdr where "nut_get_header got = Some hdr" "length got < SIZEOF_NUT_HEADER + unat (nh_length hdr)"
    | hdr where "nut_get_header got = Some hdr" "SIZEOF_NUT_HEADER + unat (nh_length hdr) \<le> length got" by fastforce
  then show ?case
  proof cases
    case 1
    then show ?thesis using step [of handle] by (subst nut_check_loop.simps, subst packets.simps) simp
  next
    case 2
    then show ?thesis using step [of handle] by (subst nut_check_loop.simps, subst packets.simps) (simp add: Let_def)
  next
    case 3
    let ?n = "SIZEOF_NUT_HEADER + unat (nh_length hdr)"
    have ih: "nut_check_loop handle a (st2\<lparr>ns_core := c\<rparr>) = handle_all handle a (fst (packets (drop ?n got))) (st2\<lparr>ns_core := c\<rparr>)"
      if c: "upd_client a f st = Some st1" "handle a hdr (drop SIZEOF_NUT_HEADER got) st1 = Some st2" "heap (ns_core st2) a = Some s2"
        "svz_sock_reduce_recv s2 (int ?n) = Some s3" "upd (ns_core st2) a (\<lambda>_. s3) = Some c" for f st1 st2 s2 s3 c
    proof -
      have "same_recv (ns_core st) (ns_core st2)" using assms c(2) upd_client_core [OF c(1)] unfolding keeps_recv_def by metis
      then have r2: "recv_rep s2 got" using same_recv_rep [OF _ less.prems(1,2)] c(3) by (metis option.inject)
      have "recv_rep s3 (drop ?n got)" using svz_sock_reduce_recv_rep [OF r2, of "int ?n"] 3(2) c(4) by (auto simp: recv_rep_def simp del: of_nat_add)
      moreover have "heap c a = Some s3" using c(5) by (auto simp: upd_def split: option.splits)
      moreover have "length (drop ?n got) < length got" using 3(2) by (simp add: nut_sizes)
      ultimately show ?thesis using less.hyps [of "drop ?n got" "st2\<lparr>ns_core := c\<rparr>" s3] plain_drop [OF less.prems(3)] by simp
    qed
    have pk: "fst (packets got) = (hdr, drop SIZEOF_NUT_HEADER got) # fst (packets (drop ?n got))"
      using 3 by (subst packets.simps) (simp add: Let_def split: prod.splits)
    show ?thesis unfolding pk
      by (subst nut_check_loop.simps, unfold step 3(1) option.case handle_all.simps fst_conv snd_conv)
        (use 3(2) in \<open>auto simp: not_less ih simp del: of_nat_add handle_all.simps split: Option.bind_splits\<close>)
  qed
qed

lemma put_get_header:
  assumes "nut_get_header d = Some hdr"
  shows "nut_put_header hdr = take SIZEOF_NUT_HEADER d"
proof -
  have l: "23 \<le> length d" using header_length [OF assms] by (simp add: nut_sizes)
  have h: "hdr = \<lparr>nh_id = take 16 d, nh_function = d ! 16, nh_ttl = d ! 17, nh_hop = d ! 18, nh_length = le32 (drop 19 d)\<rparr>"
    using assms l by (auto simp: nut_get_header_def nut_sizes NUT_GUID_SIZE_def)
  have e: "enc32 (le32 (drop 19 d)) = [d ! 19, d ! 20, d ! 21, d ! 22]" using enc_dec32 [of "drop 19 d"] l by simp
  have "take 23 d = take 16 d @ [d ! 16, d ! 17, d ! 18, d ! 19, d ! 20, d ! 21, d ! 22]"
  proof -
    have "take (Suc n) d = take n d @ [d ! n]" if "n < 23" for n using l that by (intro take_Suc_conv_app_nth) simp
    from this [of 16] this [of 17] this [of 18] this [of 19] this [of 20] this [of 21] this [of 22] show ?thesis by (simp add: eval_nat_numeral)
  qed
  then show ?thesis unfolding h nut_put_header_def by (simp add: e nut_sizes NUT_GUID_SIZE_def)
qed

lemma packets_join:
  "case packets got of (ps, rest) \<Rightarrow> got = concat (map (\<lambda>(hdr, body). nut_put_header hdr @ take (unat (nh_length hdr)) body) ps) @ rest
     \<and> (\<forall>hdr. nut_get_header rest = Some hdr \<longrightarrow> length rest < SIZEOF_NUT_HEADER + unat (nh_length hdr))"
proof (induction got rule: packets.induct)
  case (1 got)
  show ?case
  proof (cases "nut_get_header got")
    case None
    then show ?thesis by (subst packets.simps) simp
  next
    case (Some hdr)
    let ?n = "SIZEOF_NUT_HEADER + unat (nh_length hdr)"
    show ?thesis
    proof (cases "length got < ?n")
      case True
      then show ?thesis using Some by (subst packets.simps) (simp add: Let_def)
    next
      case False
      obtain ps rest where r: "packets (drop ?n got) = (ps, rest)" by fastforce
      have p: "packets got = ((hdr, drop SIZEOF_NUT_HEADER got) # ps, rest)" using Some False r by (subst packets.simps) (simp add: Let_def)
      have "got = (nut_put_header hdr @ take (unat (nh_length hdr)) (drop SIZEOF_NUT_HEADER got)) @ drop ?n got"
        unfolding put_get_header [OF Some] take_add [symmetric] by simp
      then show ?thesis using 1 [OF Some refl False] r p by auto
    qed
  qed
qed


text \<open>A connection that has sent \<open>got\<close>.\<close>

definition ex_sent :: "mem \<Rightarrow> mem nut" where
  "ex_sent got = ex_nut\<lparr>ns_core := core_init\<lparr>heap := [1 \<mapsto> (ex_peer 0x01010101)\<lparr>sk_recv_buffer := Some (map Cell got),
     sk_recv_buffer_size := int (length got), sk_recv_buffer_fill := int (length got)\<rparr>]\<rparr>\<rparr>"

lemma ex_sent_rep: "\<exists>s. heap (ns_core (ex_sent got)) 1 = Some s \<and> recv_rep s got \<and> \<not> has_flag s SVZ_SOFLG_KILLED"
  by (auto simp: ex_sent_def recv_rep_def buf_rep_def holds_def ex_peer_def svz_sock_alloc_def has_flag_def soflg_defs)


subsection \<open>A length field that keeps the server busy forever\<close>

lemma check_loop_diverges:
  assumes inv: "\<And>st. P st \<Longrightarrow> \<exists>st'. nut_check_step handle a st = Some (None, st') \<and> P st'" and "P st"
  shows "nut_check_loop handle a st = None"
proof (rule ccontr)
  assume "nut_check_loop handle a st \<noteq> None"
  then obtain y where y: "nut_check_loop handle a st = Some y" by blast
  have "\<not> (h = handle \<and> b = a \<and> P st)" if "nut_check_loop h b st = Some y" for h b st y
  proof (rule nut_check_loop.raw_induct [where P = "\<lambda>h b st y. \<not> (h = handle \<and> b = a \<and> P st)", OF _ that])
    fix loop h b st y
    assume ih: "\<And>h b st y. loop h b st = Some y \<Longrightarrow> \<not> (h = handle \<and> b = a \<and> P st)"
      and body: "Option.bind (nut_check_step h b st) (\<lambda>(r, st). if r = None then loop h b st else Some (the r, st)) = Some y"
    show "\<not> (h = handle \<and> b = a \<and> P st)"
    proof
      assume p: "h = handle \<and> b = a \<and> P st"
      then obtain st' where s: "nut_check_step handle a st = Some (None, st')" "P st'" using inv by blast
      then show False using body ih [of h b st' y] p by simp
    qed
  qed
  with y assms(2) show False by blast
qed



end
