(* ===== verification/Svz_Portcfg.thy ===== *)
theory Svz_Portcfg
  imports Svz_Socket Svz_Hash Svz_Address
begin

text \<open>
  Port configurations, \<^verbatim>\<open>portcfg.c\<close>, and the checks of users and groups of named pipes in \<^verbatim>\<open>pipe-socket.c\<close>.
  The union of the five protocols is a datatype, so that the member \<^verbatim>\<open>proto\<close>, which says which of its
  members is used, is a function of it. Strings are the lists of their bytes without the NUL, \<^verbatim>\<open>NULL\<close> is
  \<^term>\<open>None\<close>. The results are in the option monad; \<^term>\<open>None\<close> is undefined behaviour (a
  string function applied to \<^verbatim>\<open>NULL\<close>). The user database is a parameter. The table of
  named configurations maps the names to the addresses of the structures.
\<close>

subsection \<open>The structure\<close>

definition SVZ_PROTO_TCP :: u32 where "SVZ_PROTO_TCP = 0x00000001"
definition SVZ_PROTO_UDP :: u32 where "SVZ_PROTO_UDP = 0x00000002"
definition SVZ_PROTO_PIPE :: u32 where "SVZ_PROTO_PIPE = 0x00000004"
definition SVZ_PROTO_ICMP :: u32 where "SVZ_PROTO_ICMP = 0x00000008"
definition SVZ_PROTO_RAW :: u32 where "SVZ_PROTO_RAW = 0x00000010"

lemmas proto_defs = SVZ_PROTO_TCP_def SVZ_PROTO_UDP_def SVZ_PROTO_PIPE_def SVZ_PROTO_ICMP_def SVZ_PROTO_RAW_def

definition PORTCFG_FLAG_ANY :: u32 where "PORTCFG_FLAG_ANY = 0x0001"
definition PORTCFG_FLAG_ALL :: u32 where "PORTCFG_FLAG_ALL = 0x0002"
definition PORTCFG_FLAG_DEVICE :: u32 where "PORTCFG_FLAG_DEVICE = 0x0004"

definition SVZ_PORTCFG_NOMATCH :: u32 where "SVZ_PORTCFG_NOMATCH = 0x0001"
definition SVZ_PORTCFG_EQUAL :: u32 where "SVZ_PORTCFG_EQUAL = 0x0002"
definition SVZ_PORTCFG_MATCH :: u32 where "SVZ_PORTCFG_MATCH = 0x0004"
definition SVZ_PORTCFG_CONFLICT :: u32 where "SVZ_PORTCFG_CONFLICT = 0x0008"

lemmas portcfg_results = SVZ_PORTCFG_NOMATCH_def SVZ_PORTCFG_EQUAL_def SVZ_PORTCFG_MATCH_def SVZ_PORTCFG_CONFLICT_def

definition SVZ_PORTCFG_ANY :: mem where "SVZ_PORTCFG_ANY = lit ''any''"
definition SVZ_PORTCFG_NOIP :: mem where "SVZ_PORTCFG_NOIP = lit ''*''"

definition SOCK_MAX_DETECTION_FILL :: int where "SOCK_MAX_DETECTION_FILL = 16"
definition SOCK_MAX_DETECTION_WAIT :: int where "SOCK_MAX_DETECTION_WAIT = 30"
definition SOMAXCONN :: int where "SOMAXCONN = 4096"
definition MAX_BUF_SIZE :: int where "MAX_BUF_SIZE = 1024 * 1024 * 16"
definition SVZ_UDP_BUF_SIZE :: int where "SVZ_UDP_BUF_SIZE = 4 * (64 * 1024 + 24)"
definition ICMP_BUF_SIZE :: int where "ICMP_BUF_SIZE = 4 * (64 * 1024 + 10 + 24)"

lemmas limit_defs = SOCK_MAX_DETECTION_FILL_def SOCK_MAX_DETECTION_WAIT_def SOMAXCONN_def MAX_BUF_SIZE_def
  SVZ_UDP_BUF_SIZE_def ICMP_BUF_SIZE_def RECV_BUF_SIZE_def SEND_BUF_SIZE_def

record sockaddr_in =
  sin_family :: int
  sin_port :: u16
  sin_addr :: u32

record svz_pipe =
  pi_name :: "mem option"
  pi_perm :: u32
  pi_user :: "mem option"
  pi_uid :: u32
  pi_pgid :: u32
  pi_group :: "mem option"
  pi_gid :: u32

text \<open>The members all network protocols have.\<close>

record net_cfg =
  nc_ipaddr :: "mem option"
  nc_addr :: sockaddr_in
  nc_device :: "mem option"

datatype protocol_t =
    NoProto
  | Tcp (tcp_port: u16) (tcp_net: net_cfg) (tcp_backlog: int)
  | Udp (udp_port: u16) (udp_net: net_cfg)
  | Icmp (icmp_net: net_cfg) (icmp_type: byte)
  | Raw (raw_net: net_cfg)
  | Pipe (pipe_recv: svz_pipe) (pipe_send: svz_pipe)

record svz_portcfg =
  pc_name :: "mem option"
  pc_flags :: u32
  pc_protocol :: protocol_t
  pc_detection_fill :: int
  pc_detection_wait :: int
  pc_send_buffer_size :: int
  pc_recv_buffer_size :: int
  pc_connect_freq :: int
  pc_accepted :: "int svz_array svz_hash option"
  pc_deny :: "mem svz_array option"
  pc_allow :: "mem svz_array option"

definition pc_proto :: "svz_portcfg \<Rightarrow> u32" where
  "pc_proto port = (case pc_protocol port of NoProto \<Rightarrow> 0 | Tcp _ _ _ \<Rightarrow> SVZ_PROTO_TCP | Udp _ _ \<Rightarrow> SVZ_PROTO_UDP
     | Icmp _ _ \<Rightarrow> SVZ_PROTO_ICMP | Raw _ \<Rightarrow> SVZ_PROTO_RAW | Pipe _ _ \<Rightarrow> SVZ_PROTO_PIPE)"

definition pc_flag :: "svz_portcfg \<Rightarrow> u32 \<Rightarrow> bool" where
  "pc_flag port f \<longleftrightarrow> pc_flags port AND f \<noteq> 0"

definition any_p :: "mem \<Rightarrow> bool" where
  "any_p addr \<longleftrightarrow> addr = SVZ_PORTCFG_ANY"

definition no_ip_p :: "mem \<Rightarrow> bool" where
  "no_ip_p addr \<longleftrightarrow> addr = SVZ_PORTCFG_NOIP"

text \<open>The network members of the configuration, and their update.\<close>

definition pc_net :: "svz_portcfg \<Rightarrow> net_cfg option" where
  "pc_net port = (case pc_protocol port of Tcp _ n _ \<Rightarrow> Some n | Udp _ n \<Rightarrow> Some n | Icmp n _ \<Rightarrow> Some n | Raw n \<Rightarrow> Some n
     | _ \<Rightarrow> None)"

definition upd_net :: "(net_cfg \<Rightarrow> net_cfg) \<Rightarrow> svz_portcfg \<Rightarrow> svz_portcfg" where
  "upd_net f port = port\<lparr>pc_protocol := (case pc_protocol port of Tcp p n b \<Rightarrow> Tcp p (f n) b | Udp p n \<Rightarrow> Udp p (f n)
     | Icmp n t \<Rightarrow> Icmp (f n) t | Raw n \<Rightarrow> Raw (f n) | x \<Rightarrow> x)\<rparr>"

definition svz_portcfg_addr :: "svz_portcfg \<Rightarrow> sockaddr_in option" where
  "svz_portcfg_addr port = (case pc_protocol port of Tcp _ n _ \<Rightarrow> Some (nc_addr n) | Udp _ n \<Rightarrow> Some (nc_addr n)
     | Icmp n _ \<Rightarrow> Some (nc_addr n) | Raw n \<Rightarrow> Some (nc_addr n) | _ \<Rightarrow> None)"

definition svz_portcfg_ipaddr :: "svz_portcfg \<Rightarrow> mem option" where
  "svz_portcfg_ipaddr port = (case pc_protocol port of Tcp _ n _ \<Rightarrow> nc_ipaddr n | Udp _ n \<Rightarrow> nc_ipaddr n
     | Icmp n _ \<Rightarrow> nc_ipaddr n | Raw n \<Rightarrow> nc_ipaddr n | _ \<Rightarrow> None)"

definition svz_portcfg_device :: "svz_portcfg \<Rightarrow> mem option" where
  "svz_portcfg_device port = (case pc_protocol port of Tcp _ n _ \<Rightarrow> nc_device n | Udp _ n \<Rightarrow> nc_device n
     | Icmp n _ \<Rightarrow> nc_device n | Raw n \<Rightarrow> nc_device n | _ \<Rightarrow> None)"

definition svz_portcfg_port :: "svz_portcfg \<Rightarrow> u16" where
  "svz_portcfg_port port = (case pc_protocol port of Tcp p _ _ \<Rightarrow> p | Udp p _ \<Rightarrow> p | _ \<Rightarrow> 0)"

definition svz_portcfg_create :: svz_portcfg where
  "svz_portcfg_create = \<lparr>pc_name = None, pc_flags = 0, pc_protocol = NoProto, pc_detection_fill = 0,
     pc_detection_wait = 0, pc_send_buffer_size = 0, pc_recv_buffer_size = 0, pc_connect_freq = 0,
     pc_accepted = None, pc_deny = None, pc_allow = None\<rparr>"

subsection \<open>Comparison\<close>

definition same_devices :: "svz_portcfg \<Rightarrow> svz_portcfg \<Rightarrow> bool" where
  "same_devices a b \<longleftrightarrow>
     (case svz_portcfg_device a of Some s \<Rightarrow> s | None \<Rightarrow> []) = (case svz_portcfg_device b of Some s \<Rightarrow> s | None \<Rightarrow> [])"

text \<open>The comparison of the addresses, the same for all network protocols.\<close>

definition cmp_addr :: "svz_portcfg \<Rightarrow> svz_portcfg \<Rightarrow> sockaddr_in \<Rightarrow> sockaddr_in \<Rightarrow> u32" where
  "cmp_addr a b a_addr b_addr =
     (if sin_addr a_addr = sin_addr b_addr then SVZ_PORTCFG_EQUAL
      else if pc_flag a PORTCFG_FLAG_ANY \<or> pc_flag b PORTCFG_FLAG_ANY then SVZ_PORTCFG_MATCH
      else SVZ_PORTCFG_NOMATCH)"

definition svz_portcfg_equal :: "svz_portcfg \<Rightarrow> svz_portcfg \<Rightarrow> u32 option" where
  "svz_portcfg_equal a b =
     (case (pc_protocol a, pc_protocol b) of
        (Tcp _ x _, Tcp _ y _) \<Rightarrow> Some (
          if sin_port (nc_addr x) = sin_port (nc_addr y) then
            if pc_flag a PORTCFG_FLAG_DEVICE \<or> pc_flag b PORTCFG_FLAG_DEVICE then
              if pc_flag a PORTCFG_FLAG_DEVICE \<and> pc_flag b PORTCFG_FLAG_DEVICE then
                if same_devices a b then SVZ_PORTCFG_EQUAL else SVZ_PORTCFG_NOMATCH
              else SVZ_PORTCFG_CONFLICT
            else cmp_addr a b (nc_addr x) (nc_addr y)
          else SVZ_PORTCFG_NOMATCH)
      | (Udp _ x, Udp _ y) \<Rightarrow> Some (
          if sin_port (nc_addr x) = sin_port (nc_addr y) then
            if pc_flag a PORTCFG_FLAG_DEVICE \<or> pc_flag b PORTCFG_FLAG_DEVICE then
              if pc_flag a PORTCFG_FLAG_DEVICE \<and> pc_flag b PORTCFG_FLAG_DEVICE then
                if same_devices a b then SVZ_PORTCFG_EQUAL else SVZ_PORTCFG_NOMATCH
              else SVZ_PORTCFG_CONFLICT
            else cmp_addr a b (nc_addr x) (nc_addr y)
          else SVZ_PORTCFG_NOMATCH)
      | (Icmp x s, Icmp y t) \<Rightarrow> Some (
          if s = t then
            if pc_flag a PORTCFG_FLAG_DEVICE \<or> pc_flag b PORTCFG_FLAG_DEVICE then
              if pc_flag a PORTCFG_FLAG_DEVICE \<and> pc_flag b PORTCFG_FLAG_DEVICE \<and> same_devices a b
              then SVZ_PORTCFG_EQUAL else SVZ_PORTCFG_CONFLICT
            else cmp_addr a b (nc_addr x) (nc_addr y)
          else SVZ_PORTCFG_NOMATCH)
      | (Raw x, Raw y) \<Rightarrow> Some (
          if pc_flag a PORTCFG_FLAG_DEVICE \<or> pc_flag b PORTCFG_FLAG_DEVICE then
            if pc_flag a PORTCFG_FLAG_DEVICE \<and> pc_flag b PORTCFG_FLAG_DEVICE \<and> same_devices a b
            then SVZ_PORTCFG_EQUAL else SVZ_PORTCFG_CONFLICT
          else cmp_addr a b (nc_addr x) (nc_addr y))
      | (Pipe r s, Pipe r' s') \<Rightarrow> do {
          x \<leftarrow> pi_name r;
          y \<leftarrow> pi_name r';
          if x = y then do {
            x \<leftarrow> pi_name s;
            y \<leftarrow> pi_name s';
            Some (if x = y then SVZ_PORTCFG_EQUAL else SVZ_PORTCFG_NOMATCH) }
          else Some SVZ_PORTCFG_NOMATCH }
      | _ \<Rightarrow> Some SVZ_PORTCFG_NOMATCH)"

subsection \<open>Copies\<close>

definition dup_net :: "net_cfg \<Rightarrow> net_cfg" where
  "dup_net n = n\<lparr>nc_ipaddr := svz_strdup (nc_ipaddr n), nc_device := svz_strdup (nc_device n)\<rparr>"

definition dup_pipe :: "svz_pipe \<Rightarrow> svz_pipe" where
  "dup_pipe p = p\<lparr>pi_name := svz_strdup (pi_name p), pi_user := svz_strdup (pi_user p), pi_group := svz_strdup (pi_group p)\<rparr>"

definition dup_protocol :: "protocol_t \<Rightarrow> protocol_t" where
  "dup_protocol pr = (case pr of NoProto \<Rightarrow> NoProto | Tcp p n b \<Rightarrow> Tcp p (dup_net n) b | Udp p n \<Rightarrow> Udp p (dup_net n)
     | Icmp n t \<Rightarrow> Icmp (dup_net n) t | Raw n \<Rightarrow> Raw (dup_net n) | Pipe r s \<Rightarrow> Pipe (dup_pipe r) (dup_pipe s))"

text \<open>\<^verbatim>\<open>svz_portcfg_dup\<close> of a configuration that is not \<^verbatim>\<open>NULL\<close>.\<close>

definition svz_portcfg_dup :: "svz_portcfg \<Rightarrow> svz_portcfg option" where
  "svz_portcfg_dup port = do {
     let copy = port\<lparr>pc_name := svz_strdup (pc_name port), pc_protocol := dup_protocol (pc_protocol port), pc_accepted := None\<rparr>;
     allow \<leftarrow> svz_array_strdup (pc_allow port);
     deny \<leftarrow> svz_array_strdup (pc_deny port);
     Some (copy\<lparr>pc_allow := allow, pc_deny := deny\<rparr>)
   }"

definition set_ipaddr :: "svz_portcfg \<Rightarrow> mem option \<Rightarrow> int \<times> svz_portcfg" where
  "set_ipaddr this ipaddr =
     (if ipaddr = None \<or> pc_net this = None then (-1, this)
      else (0, upd_net (\<lambda>n. n\<lparr>nc_ipaddr := ipaddr\<rparr>) this))"

definition expand_internal ::
    "svz_portcfg \<Rightarrow> svz_interface \<Rightarrow> svz_portcfg svz_array option \<Rightarrow> (int \<times> svz_portcfg svz_array option) option" where
  "expand_internal this ifc ports = do {
     port \<leftarrow> svz_portcfg_dup this;
     (rv, ipaddr) \<leftarrow> svz_address_to True (Some (if_addr ifc));
     let port = upd_net (\<lambda>n. n\<lparr>nc_addr := (nc_addr n)\<lparr>sin_addr := le32 ipaddr\<rparr>\<rparr>) port;
     let port = snd (set_ipaddr port (svz_strdup (Some (svz_inet_ntoa (le32 ipaddr)))));
     ports \<leftarrow> svz_array_add ports (Some port);
     Some (0, ports)
   }"

definition svz_portcfg_expand :: "ifc_list \<Rightarrow> svz_portcfg \<Rightarrow> svz_portcfg svz_array option option" where
  "svz_portcfg_expand interfaces this = do {
     let ports = Some (svz_array_create 1 False);
     if svz_portcfg_addr this \<noteq> None \<and> pc_flag this PORTCFG_FLAG_ALL \<and> \<not> pc_flag this PORTCFG_FLAG_DEVICE
     then do { (rv, ports) \<leftarrow> svz_foreach_interface interfaces (expand_internal this) ports; Some ports }
     else do { port \<leftarrow> svz_portcfg_dup this; svz_array_add ports (Some port) }
   }"

subsection \<open>Addresses from texts\<close>

definition convert_addr :: "ifc_list \<Rightarrow> mem \<Rightarrow> u32 \<Rightarrow> (int \<times> u32) option" where
  "convert_addr interfaces str addr = do {
     ifc \<leftarrow> svz_interface_search str interfaces;
     case ifc of
       Some ifc \<Rightarrow> do { (rv, b) \<leftarrow> svz_address_to True (Some (if_addr ifc)); Some (0, le32 b) }
     | None \<Rightarrow> Some (svz_inet_aton str addr)
   }"

record userdb =
  getpwnam :: "mem \<Rightarrow> (u32 \<times> u32) option"
  getpwuid :: "u32 \<Rightarrow> (mem \<times> u32) option"
  getgrnam :: "mem \<Rightarrow> (u32 \<times> mem list) option"
  getgrgid :: "u32 \<Rightarrow> (mem \<times> mem list) option"

text \<open>
  The records of the user database: user and group id of a user name, name and group id of a user id,
  id and members of a group. The checks log what is wrong; their result is 0 on every path.
\<close>

definition svz_pipe_check_user :: "userdb \<Rightarrow> svz_pipe \<Rightarrow> int \<times> svz_pipe" where
  "svz_pipe_check_user db pipe =
     (case pi_user pipe of
        Some user \<Rightarrow> (case getpwnam db user of None \<Rightarrow> (0, pipe) | Some (uid, gid) \<Rightarrow> (0, pipe\<lparr>pi_uid := uid, pi_pgid := gid\<rparr>))
      | None \<Rightarrow>
          if pi_uid pipe \<noteq> -1 then
            (case getpwuid db (pi_uid pipe) of None \<Rightarrow> (0, pipe)
             | Some (name, gid) \<Rightarrow> (0, pipe\<lparr>pi_user := svz_strdup (Some name), pi_pgid := gid\<rparr>))
          else (0, pipe))"

definition svz_pipe_check_group :: "userdb \<Rightarrow> svz_pipe \<Rightarrow> int \<times> svz_pipe" where
  "svz_pipe_check_group db pipe =
     (case pi_group pipe of
        Some grp \<Rightarrow> (case getgrnam db grp of None \<Rightarrow> (0, pipe) | Some (gid, members) \<Rightarrow> (0, pipe\<lparr>pi_gid := gid\<rparr>))
      | None \<Rightarrow>
          if pi_gid pipe \<noteq> -1 then
            (case getgrgid db (pi_gid pipe) of None \<Rightarrow> (0, pipe)
             | Some (name, members) \<Rightarrow> (0, pipe\<lparr>pi_group := svz_strdup (Some name)\<rparr>))
          else (0, pipe))"

text \<open>
  \<^verbatim>\<open>svz_portcfg_mkaddr\<close>. The network part: \<open>wild\<close> is set for TCP and UDP, where the texts \<open>any\<close> and \<open>*\<close> set a
  flag. The results are the error, the flags and the members; the address before the call is kept
  where the code does not set it.
\<close>

definition mkaddr_net :: "ifc_list \<Rightarrow> bool \<Rightarrow> u32 \<Rightarrow> net_cfg \<Rightarrow> (int \<times> u32 \<times> net_cfg) option" where
  "mkaddr_net interfaces wild flags n = do {
     let sa = (nc_addr n)\<lparr>sin_family := AF_INET\<rparr>;
     case nc_device n of
       Some d \<Rightarrow> Some (0, flags OR PORTCFG_FLAG_DEVICE, n\<lparr>nc_addr := sa\<lparr>sin_addr := INADDR_ANY\<rparr>\<rparr>)
     | None \<Rightarrow>
         (case nc_ipaddr n of
            None \<Rightarrow> Some (-1, flags, n\<lparr>nc_addr := sa\<rparr>)
          | Some ip \<Rightarrow>
              if wild \<and> any_p ip then Some (0, flags OR PORTCFG_FLAG_ANY, n\<lparr>nc_addr := sa\<lparr>sin_addr := INADDR_ANY\<rparr>\<rparr>)
              else if wild \<and> no_ip_p ip then Some (0, flags OR PORTCFG_FLAG_ALL, n\<lparr>nc_addr := sa\<lparr>sin_addr := INADDR_ANY\<rparr>\<rparr>)
              else do {
                (err, a) \<leftarrow> convert_addr interfaces ip (sin_addr sa);
                Some (err, flags, n\<lparr>nc_addr := sa\<lparr>sin_addr := a\<rparr>\<rparr>)
              })
   }"

definition check_pipe :: "userdb \<Rightarrow> svz_pipe \<Rightarrow> int \<times> svz_pipe" where
  "check_pipe db p =
     (if pi_name p = None then (-1, p)
      else let (e, p) = svz_pipe_check_user db p; (e', p) = svz_pipe_check_group db p in (e OR e', p))"

definition with_port :: "u16 \<Rightarrow> net_cfg \<Rightarrow> net_cfg" where
  "with_port p n = n\<lparr>nc_addr := (nc_addr n)\<lparr>sin_port := htons p\<rparr>\<rparr>"

definition svz_portcfg_mkaddr :: "ifc_list \<Rightarrow> userdb \<Rightarrow> svz_portcfg \<Rightarrow> (int \<times> svz_portcfg) option" where
  "svz_portcfg_mkaddr interfaces db this =
     (case pc_protocol this of
        Tcp p n b \<Rightarrow> do {
          (err, flags, n) \<leftarrow> mkaddr_net interfaces True (pc_flags this) n;
          Some (if b > SOMAXCONN then -1 else err, this\<lparr>pc_flags := flags, pc_protocol := Tcp p (with_port p n) b\<rparr>) }
      | Udp p n \<Rightarrow> do {
          (err, flags, n) \<leftarrow> mkaddr_net interfaces True (pc_flags this) n;
          Some (err, this\<lparr>pc_flags := flags, pc_protocol := Udp p (with_port p n)\<rparr>) }
      | Icmp n t \<Rightarrow> do {
          (err, flags, n) \<leftarrow> mkaddr_net interfaces False (pc_flags this) n;
          Some (err, this\<lparr>pc_flags := flags, pc_protocol := Icmp n t\<rparr>) }
      | Raw n \<Rightarrow> do {
          (err, flags, n) \<leftarrow> mkaddr_net interfaces False (pc_flags this) n;
          Some (err, this\<lparr>pc_flags := flags, pc_protocol := Raw n\<rparr>) }
      | Pipe r s \<Rightarrow>
          let (e, r) = check_pipe db r; (e', s) = check_pipe db s
          in Some (if pi_name s = None then -1 else e OR e', this\<lparr>pc_protocol := Pipe r s\<rparr>)
      | NoProto \<Rightarrow> Some (0, this))"

subsection \<open>Default values\<close>

definition prepare_size :: "svz_portcfg \<Rightarrow> int \<Rightarrow> int \<Rightarrow> int" where
  "prepare_size port sz tcp_size =
     (if sz \<le> 0 \<or> sz \<ge> MAX_BUF_SIZE
      then case pc_protocol port of Tcp _ _ _ \<Rightarrow> tcp_size | Pipe _ _ \<Rightarrow> tcp_size | Udp _ _ \<Rightarrow> SVZ_UDP_BUF_SIZE
           | Icmp _ _ \<Rightarrow> ICMP_BUF_SIZE | Raw _ \<Rightarrow> ICMP_BUF_SIZE | NoProto \<Rightarrow> sz
      else sz)"

definition prepare_range :: "int \<Rightarrow> int \<Rightarrow> int" where
  "prepare_range v m = (if v \<le> 0 \<or> v > m then m else v)"

definition svz_portcfg_prepare :: "svz_portcfg \<Rightarrow> svz_portcfg" where
  "svz_portcfg_prepare port =
     (let port = (case pc_protocol port of Tcp p n b \<Rightarrow> port\<lparr>pc_protocol := Tcp p n (prepare_range b SOMAXCONN)\<rparr> | _ \<Rightarrow> port);
          det = (case pc_protocol port of Tcp _ _ _ \<Rightarrow> True | Pipe _ _ \<Rightarrow> True | _ \<Rightarrow> False);
          port = (if det then port\<lparr>pc_detection_fill := prepare_range (pc_detection_fill port) SOCK_MAX_DETECTION_FILL,
                    pc_detection_wait := prepare_range (pc_detection_wait port) SOCK_MAX_DETECTION_WAIT\<rparr> else port);
          port = port\<lparr>pc_send_buffer_size := prepare_size port (pc_send_buffer_size port) SEND_BUF_SIZE\<rparr>;
          port = port\<lparr>pc_recv_buffer_size := prepare_size port (pc_recv_buffer_size port) RECV_BUF_SIZE\<rparr>
      in if pc_connect_freq port \<le> 0 then port\<lparr>pc_connect_freq := 100\<rparr> else port)"

subsection \<open>Texts\<close>

text \<open>\<^verbatim>\<open>printf\<close> of a \<^verbatim>\<open>NULL\<close> string is undefined.\<close>

definition text_from_addr :: "svz_portcfg \<Rightarrow> sockaddr_in \<Rightarrow> mem option" where
  "text_from_addr port addr =
     (if pc_flag port PORTCFG_FLAG_DEVICE then svz_portcfg_device port
      else if pc_flag port PORTCFG_FLAG_ANY then Some (lit ''*'')
      else Some (svz_inet_ntoa (sin_addr addr)))"

text \<open>The text as \<^verbatim>\<open>snprintf\<close> would write it into a large buffer; \<^verbatim>\<open>svz_itoa\<close> gives the digits of the type.\<close>

definition portcfg_text :: "svz_portcfg \<Rightarrow> mem option" where
  "portcfg_text port =
     (case pc_protocol port of
        Tcp _ n _ \<Rightarrow> do { t \<leftarrow> text_from_addr port (nc_addr n);
          Some (lit ''TCP:['' @ t @ lit '':'' @ printf_d (uint (htons (sin_port (nc_addr n)))) @ lit '']'') }
      | Udp _ n \<Rightarrow> do { t \<leftarrow> text_from_addr port (nc_addr n);
          Some (lit ''UDP:['' @ t @ lit '':'' @ printf_d (uint (htons (sin_port (nc_addr n)))) @ lit '']'') }
      | Raw n \<Rightarrow> do { t \<leftarrow> text_from_addr port (nc_addr n); Some (lit ''RAW:['' @ t @ lit '']'') }
      | Icmp n ty \<Rightarrow> do { t \<leftarrow> text_from_addr port (nc_addr n);
          Some (lit ''ICMP:['' @ t @ lit ''/'' @ dec_digits (unat ty) @ lit '']'') }
      | Pipe r s \<Rightarrow> do { x \<leftarrow> pi_name r; y \<leftarrow> pi_name s; Some (lit ''PIPE:['' @ x @ lit '']-['' @ y @ lit '']'') }
      | NoProto \<Rightarrow> Some [])"

text \<open>\<^verbatim>\<open>svz_pp_portcfg\<close>: the length returned, which is that of the whole text, and the string in the buffer.\<close>

definition svz_pp_portcfg :: "nat \<Rightarrow> svz_portcfg \<Rightarrow> (nat \<times> mem) option" where
  "svz_pp_portcfg sz port = do { t \<leftarrow> portcfg_text port; Some (length t, take (sz - 1) t) }"

subsection \<open>The table of configurations\<close>

text \<open>The table is created with the first configuration; its values are addresses of configurations.\<close>

type_synonym portcfg_table = "addr svz_hash option"

definition svz_portcfg_add ::
    "mem option \<Rightarrow> addr option \<Rightarrow> portcfg_table \<Rightarrow> (addr option \<times> portcfg_table) option" where
  "svz_portcfg_add name port portcfgs =
     (case (name, port) of
        (Some name, Some port) \<Rightarrow> do {
          portcfgs \<leftarrow> (case portcfgs of None \<Rightarrow> svz_hash_create 4 True | Some h \<Rightarrow> Some h);
          replace \<leftarrow> svz_hash_get portcfgs (name @ [0]);
          (old, portcfgs) \<leftarrow> svz_hash_put portcfgs (name @ [0]) (Some port);
          Some (if replace \<noteq> None then replace else Some port, Some portcfgs) }
      | _ \<Rightarrow> Some (None, portcfgs))"

definition svz_portcfg_get :: "mem option \<Rightarrow> portcfg_table \<Rightarrow> addr option option" where
  "svz_portcfg_get name portcfgs =
     (case (name, portcfgs) of (Some name, Some h) \<Rightarrow> svz_hash_get h (name @ [0]) | _ \<Rightarrow> Some None)"

text \<open>The second result of \<^verbatim>\<open>svz_portcfg_destroy\<close> is the structure it frees.\<close>

definition svz_portcfg_destroy :: "addr option \<Rightarrow> portcfg_table \<Rightarrow> (portcfg_table \<times> addr option) option" where
  "svz_portcfg_destroy port portcfgs =
     (case port of
        None \<Rightarrow> Some (portcfgs, None)
      | Some p \<Rightarrow>
          (case portcfgs of
             None \<Rightarrow> Some (portcfgs, Some p)
           | Some h \<Rightarrow>
               (case svz_hash_contains h (Some p) of
                  None \<Rightarrow> Some (portcfgs, Some p)
                | Some name \<Rightarrow> do { (v, h) \<leftarrow> svz_hash_delete h name; Some (Some h, Some p) })))"

subsection \<open>Properties of the comparison\<close>

text \<open>
  What a configuration without a device listens on: the protocol, the addresses (all of them with the flag
  \<open>PORTCFG_FLAG_ANY\<close>) and the port or the message type.
\<close>

definition port_key :: "svz_portcfg \<Rightarrow> nat" where
  "port_key p = (case pc_protocol p of Tcp _ n _ \<Rightarrow> unat (sin_port (nc_addr n)) | Udp _ n \<Rightarrow> unat (sin_port (nc_addr n))
     | Icmp _ t \<Rightarrow> unat t | _ \<Rightarrow> 0)"

definition endpoints :: "svz_portcfg \<Rightarrow> (u32 \<times> u32 \<times> nat) set" where
  "endpoints p = (case svz_portcfg_addr p of None \<Rightarrow> {}
     | Some sa \<Rightarrow> {(pc_proto p, ip, port_key p) | ip. pc_flag p PORTCFG_FLAG_ANY \<or> ip = sin_addr sa})"

lemma endpoints_member:
  "svz_portcfg_addr p = Some sa \<Longrightarrow>
     (pr, ip, k) \<in> endpoints p \<longleftrightarrow> pr = pc_proto p \<and> k = port_key p \<and> (pc_flag p PORTCFG_FLAG_ANY \<or> ip = sin_addr sa)"
  by (auto simp: endpoints_def)

lemma portcfg_equal_net:
  assumes "svz_portcfg_addr a = Some x" "svz_portcfg_addr b = Some y"
    and "\<not> pc_flag a PORTCFG_FLAG_DEVICE" "\<not> pc_flag b PORTCFG_FLAG_DEVICE"
  shows "svz_portcfg_equal a b = Some (if pc_proto a = pc_proto b \<and> port_key a = port_key b then cmp_addr a b x y
     else SVZ_PORTCFG_NOMATCH)"
  using assms
  by (auto simp: svz_portcfg_equal_def svz_portcfg_addr_def port_key_def pc_proto_def proto_defs
      dest: unsigned_word_eqI split: protocol_t.splits)

lemma cmp_addr_sym: "cmp_addr a b x y = cmp_addr b a y x"
  by (auto simp: cmp_addr_def)

lemma same_devices_sym: "same_devices a b = same_devices b a"
  by (auto simp: same_devices_def)

lemma portcfg_equal_sym: "svz_portcfg_equal a b = svz_portcfg_equal b a"
proof (cases "pc_protocol a")
  case (Pipe r s)
  then show ?thesis
    by (cases "pc_protocol b"; cases "pi_name r"; cases "pi_name s"; cases "pi_name (pipe_recv (pc_protocol b))";
        cases "pi_name (pipe_send (pc_protocol b))") (auto simp: svz_portcfg_equal_def)
qed (cases "pc_protocol b"; auto simp: svz_portcfg_equal_def cmp_addr_sym [of a b] same_devices_sym [of a b])+

lemma endpoints_meet:
  assumes "svz_portcfg_addr a = Some x" "svz_portcfg_addr b = Some y"
  shows "endpoints a \<inter> endpoints b \<noteq> {} \<longleftrightarrow> pc_proto a = pc_proto b \<and> port_key a = port_key b
     \<and> (sin_addr x = sin_addr y \<or> pc_flag a PORTCFG_FLAG_ANY \<or> pc_flag b PORTCFG_FLAG_ANY)" (is "?l \<longleftrightarrow> ?r")
proof
  assume ?l
  then obtain pr ip k where "(pr, ip, k) \<in> endpoints a" "(pr, ip, k) \<in> endpoints b" by auto
  then show ?r using endpoints_member [OF assms(1)] endpoints_member [OF assms(2)] by auto
next
  assume ?r
  then have "\<exists>ip. (pc_proto a, ip, port_key a) \<in> endpoints a \<and> (pc_proto a, ip, port_key a) \<in> endpoints b"
    using endpoints_member [OF assms(1)] endpoints_member [OF assms(2)] by metis
  then show ?l by auto
qed


subsection \<open>Default values, copies and expansion\<close>

lemma prepare_protocol [simp]:
  "pc_protocol (svz_portcfg_prepare port) =
     (case pc_protocol port of Tcp p n b \<Rightarrow> Tcp p n (prepare_range b SOMAXCONN) | x \<Rightarrow> x)"
  by (cases "pc_protocol port") (simp_all add: svz_portcfg_prepare_def Let_def)

lemma prepare_fields [simp]:
  "pc_flags (svz_portcfg_prepare port) = pc_flags port"
  "pc_send_buffer_size (svz_portcfg_prepare port) = prepare_size port (pc_send_buffer_size port) SEND_BUF_SIZE"
  "pc_recv_buffer_size (svz_portcfg_prepare port) = prepare_size port (pc_recv_buffer_size port) RECV_BUF_SIZE"
  "pc_connect_freq (svz_portcfg_prepare port) = (if pc_connect_freq port \<le> 0 then 100 else pc_connect_freq port)"
  by (cases "pc_protocol port"; simp add: svz_portcfg_prepare_def Let_def prepare_size_def)+

lemma prepare_other:
  "pc_detection_fill (svz_portcfg_prepare port) = (case pc_protocol port of
     Tcp _ _ _ \<Rightarrow> prepare_range (pc_detection_fill port) SOCK_MAX_DETECTION_FILL
   | Pipe _ _ \<Rightarrow> prepare_range (pc_detection_fill port) SOCK_MAX_DETECTION_FILL | _ \<Rightarrow> pc_detection_fill port)"
  "pc_detection_wait (svz_portcfg_prepare port) = (case pc_protocol port of
     Tcp _ _ _ \<Rightarrow> prepare_range (pc_detection_wait port) SOCK_MAX_DETECTION_WAIT
   | Pipe _ _ \<Rightarrow> prepare_range (pc_detection_wait port) SOCK_MAX_DETECTION_WAIT | _ \<Rightarrow> pc_detection_wait port)"
  "pc_name (svz_portcfg_prepare port) = pc_name port" "pc_accepted (svz_portcfg_prepare port) = pc_accepted port"
  "pc_deny (svz_portcfg_prepare port) = pc_deny port" "pc_allow (svz_portcfg_prepare port) = pc_allow port"
  by (cases "pc_protocol port"; simp add: svz_portcfg_prepare_def Let_def)+

lemma prepare_detection:
  "pc_proto port AND (SVZ_PROTO_TCP OR SVZ_PROTO_PIPE) \<noteq> 0 \<Longrightarrow>
     pc_detection_fill (svz_portcfg_prepare port) = prepare_range (pc_detection_fill port) SOCK_MAX_DETECTION_FILL
     \<and> pc_detection_wait (svz_portcfg_prepare port) = prepare_range (pc_detection_wait port) SOCK_MAX_DETECTION_WAIT"
  by (cases "pc_protocol port"; simp add: prepare_other pc_proto_def proto_defs)

lemma prepare_idem: "svz_portcfg_prepare (svz_portcfg_prepare port) = svz_portcfg_prepare port"
proof (rule svz_portcfg.equality)
  have r: "prepare_range (prepare_range v m) m = prepare_range v m" for v m by (simp add: prepare_range_def)
  show "pc_protocol (svz_portcfg_prepare (svz_portcfg_prepare port)) = pc_protocol (svz_portcfg_prepare port)"
    by (cases "pc_protocol port") (simp_all add: r)
  show "pc_detection_fill (svz_portcfg_prepare (svz_portcfg_prepare port)) = pc_detection_fill (svz_portcfg_prepare port)"
    "pc_detection_wait (svz_portcfg_prepare (svz_portcfg_prepare port)) = pc_detection_wait (svz_portcfg_prepare port)"
    by (cases "pc_protocol port"; simp add: prepare_other r)+
  show "pc_send_buffer_size (svz_portcfg_prepare (svz_portcfg_prepare port)) = pc_send_buffer_size (svz_portcfg_prepare port)"
    "pc_recv_buffer_size (svz_portcfg_prepare (svz_portcfg_prepare port)) = pc_recv_buffer_size (svz_portcfg_prepare port)"
    by (cases "pc_protocol port"; simp add: prepare_size_def limit_defs)+
qed (simp_all add: prepare_other)

lemma prepare_device [simp]: "svz_portcfg_device (svz_portcfg_prepare port) = svz_portcfg_device port"
  by (cases "pc_protocol port") (simp_all add: svz_portcfg_device_def)

lemma prepare_equal: "svz_portcfg_equal (svz_portcfg_prepare a) b = svz_portcfg_equal a b"
  by (cases "pc_protocol a"; cases "pc_protocol b")
    (simp_all add: svz_portcfg_equal_def pc_flag_def same_devices_def cmp_addr_def)

text \<open>
  \<^verbatim>\<open>svz_portcfg_prepare\<close> makes a configuration usable: the buffer sizes are positive and below the maximum,
  the connect frequency is positive, the backlog of TCP is in the range of \<^verbatim>\<open>listen\<close> and the limits of
  protocol detection (TCP and pipes) are in theirs; values that already are in range stay, so a second call changes
  nothing, and the comparison with other configurations is not affected.
\<close>

theorem portcfg_prepare_ranges:
  assumes "pc_protocol port \<noteq> NoProto"
  shows "0 < pc_send_buffer_size (svz_portcfg_prepare port) \<and> pc_send_buffer_size (svz_portcfg_prepare port) < MAX_BUF_SIZE
    \<and> 0 < pc_recv_buffer_size (svz_portcfg_prepare port) \<and> pc_recv_buffer_size (svz_portcfg_prepare port) < MAX_BUF_SIZE
    \<and> 0 < pc_connect_freq (svz_portcfg_prepare port)
    \<and> (pc_proto port AND SVZ_PROTO_TCP \<noteq> 0 \<longrightarrow>
         tcp_backlog (pc_protocol (svz_portcfg_prepare port)) \<in> {1..SOMAXCONN})
    \<and> (pc_proto port AND (SVZ_PROTO_TCP OR SVZ_PROTO_PIPE) \<noteq> 0 \<longrightarrow>
         pc_detection_fill (svz_portcfg_prepare port) \<in> {1..SOCK_MAX_DETECTION_FILL}
         \<and> pc_detection_wait (svz_portcfg_prepare port) \<in> {1..SOCK_MAX_DETECTION_WAIT})
    \<and> (pc_send_buffer_size port \<in> {1..<MAX_BUF_SIZE} \<longrightarrow>
         pc_send_buffer_size (svz_portcfg_prepare port) = pc_send_buffer_size port)
    \<and> svz_portcfg_prepare (svz_portcfg_prepare port) = svz_portcfg_prepare port
    \<and> svz_portcfg_equal (svz_portcfg_prepare port) other = svz_portcfg_equal port other"
proof -
  have range: "prepare_range v m \<in> {1..m}" if "1 \<le> m" for v m using that by (auto simp: prepare_range_def)
  have sz: "0 < prepare_size port s t \<and> prepare_size port s t < MAX_BUF_SIZE" if "0 < t" "t < MAX_BUF_SIZE" for s t
    using that assms by (cases "pc_protocol port") (auto simp: prepare_size_def limit_defs)
  have tcp: "tcp_backlog (pc_protocol (svz_portcfg_prepare port)) \<in> {1..SOMAXCONN}" if "pc_proto port AND SVZ_PROTO_TCP \<noteq> 0"
    using that range [of SOMAXCONN] by (cases "pc_protocol port") (simp_all add: pc_proto_def proto_defs limit_defs)
  have det: "pc_detection_fill (svz_portcfg_prepare port) \<in> {1..SOCK_MAX_DETECTION_FILL}
         \<and> pc_detection_wait (svz_portcfg_prepare port) \<in> {1..SOCK_MAX_DETECTION_WAIT}"
    if "pc_proto port AND (SVZ_PROTO_TCP OR SVZ_PROTO_PIPE) \<noteq> 0"
    using prepare_detection [OF that] range [of SOCK_MAX_DETECTION_FILL] range [of SOCK_MAX_DETECTION_WAIT] by (simp add: limit_defs)
  have keep: "prepare_size port s t = s" if "s \<in> {1..<MAX_BUF_SIZE}" for s t using that by (simp add: prepare_size_def)
  show ?thesis
    using sz [of SEND_BUF_SIZE] sz [of RECV_BUF_SIZE] tcp det keep prepare_idem [of port] prepare_equal [of port other]
    by (simp add: limit_defs)
qed

definition lists_ok :: "svz_portcfg \<Rightarrow> bool" where
  "lists_ok p \<longleftrightarrow> (\<forall>a. pc_allow p = Some a \<longrightarrow> array_inv a) \<and> (\<forall>a. pc_deny p = Some a \<longrightarrow> array_inv a)"

lemma array_strdup_ok:
  "(\<And>a. h = Some a \<Longrightarrow> array_inv a) \<Longrightarrow>
     \<exists>d. svz_array_strdup h = Some d \<and> (\<forall>a. d = Some a \<longrightarrow> array_inv a) \<and> handle_vals d = map svz_strdup (handle_vals h)"
  using array_copies [THEN conjunct2, THEN conjunct1] by (cases h) (fastforce simp: svz_array_strdup_def [of None])+

lemma portcfg_dup_ok:
  assumes "lists_ok p"
  shows "\<exists>c. svz_portcfg_dup p = Some c \<and> lists_ok c \<and> pc_flags c = pc_flags p \<and> pc_protocol c = dup_protocol (pc_protocol p)
     \<and> pc_accepted c = None \<and> handle_vals (pc_allow c) = map svz_strdup (handle_vals (pc_allow p))
     \<and> handle_vals (pc_deny c) = map svz_strdup (handle_vals (pc_deny p))"
proof -
  obtain x y where "svz_array_strdup (pc_allow p) = Some x" "\<forall>a. x = Some a \<longrightarrow> array_inv a" "handle_vals x = map svz_strdup (handle_vals (pc_allow p))"
    "svz_array_strdup (pc_deny p) = Some y" "\<forall>a. y = Some a \<longrightarrow> array_inv a" "handle_vals y = map svz_strdup (handle_vals (pc_deny p))"
    using array_strdup_ok [of "pc_allow p"] array_strdup_ok [of "pc_deny p"] assms unfolding lists_ok_def by blast
  then show ?thesis by (simp add: svz_portcfg_dup_def lists_ok_def)
qed

text \<open>The copy \<^verbatim>\<open>expand_internal\<close> makes for one address.\<close>

definition expanded_for :: "svz_portcfg \<Rightarrow> u32 \<Rightarrow> svz_portcfg" where
  "expanded_for copy ip =
     upd_net (\<lambda>n. n\<lparr>nc_addr := (nc_addr n)\<lparr>sin_addr := ip\<rparr>, nc_ipaddr := Some (svz_inet_ntoa ip)\<rparr>) copy"

lemma upd_net_addr:
  "svz_portcfg_addr (upd_net f p) = map_option (\<lambda>n. nc_addr (f n)) (pc_net p)"
  "svz_portcfg_ipaddr (upd_net f p) = Option.bind (pc_net p) (\<lambda>n. nc_ipaddr (f n))"
  "svz_portcfg_device (upd_net f p) = Option.bind (pc_net p) (\<lambda>n. nc_device (f n))"
  "pc_net (upd_net f p) = map_option f (pc_net p)" "pc_flags (upd_net f p) = pc_flags p" "pc_proto (upd_net f p) = pc_proto p"
  by (cases "pc_protocol p"; simp add: upd_net_def svz_portcfg_addr_def svz_portcfg_ipaddr_def svz_portcfg_device_def pc_net_def pc_proto_def)+

lemma addr_pc_net: "svz_portcfg_addr p = map_option nc_addr (pc_net p)"
  by (cases "pc_protocol p") (simp_all add: svz_portcfg_addr_def pc_net_def)

lemma dup_net_addr: "pc_protocol c = dup_protocol (pc_protocol p) \<Longrightarrow> pc_net c = map_option dup_net (pc_net p) \<and> pc_proto c = pc_proto p"
  by (cases "pc_protocol p") (simp_all add: pc_net_def dup_protocol_def pc_proto_def)

lemma upd_net_twice: "upd_net f (upd_net g p) = upd_net (f \<circ> g) p"
  by (cases "pc_protocol p") (simp_all add: upd_net_def)

lemma expand_internal_ok:
  assumes "svz_portcfg_dup this = Some c" "pc_net c \<noteq> None" "ifc_ok ifc" "handle_inv h"
  shows "\<exists>h'. expand_internal this ifc h = Some (0, h') \<and> handle_inv h'
     \<and> handle_vals h' = handle_vals h @ [Some (expanded_for c (ifc_ip ifc))]"
proof -
  obtain k cs where kc: "svz_inet_ntoa (ifc_ip ifc) = k # cs" using length_inet_ntoa [of "ifc_ip ifc"] by (cases "svz_inet_ntoa (ifc_ip ifc)") auto
  let ?c = "upd_net (\<lambda>n. n\<lparr>nc_addr := (nc_addr n)\<lparr>sin_addr := ifc_ip ifc\<rparr>\<rparr>) c"
  have "snd (set_ipaddr ?c (svz_strdup (Some (svz_inet_ntoa (ifc_ip ifc))))) = expanded_for c (ifc_ip ifc)"
    using assms(2) by (auto simp: set_ipaddr_def svz_strdup_def upd_net_addr expanded_for_def upd_net_twice comp_def kc)
  moreover have "svz_address_to True (Some (if_addr ifc)) = Some (0, enc32 (ifc_ip ifc))"
    by (simp only: ifc_ok_addr [OF assms(3)] address_to_inet)
  ultimately show ?thesis
    using arr.vadd [OF assms(4), of "Some (expanded_for c (ifc_ip ifc))"]
    by (auto simp: expand_internal_def assms(1) Let_def simp del: Option.bind_eq_Some_conv)
qed

lemma foreach_expand:
  assumes "svz_portcfg_dup this = Some c" "pc_net c \<noteq> None"
  shows "\<forall>ifc\<in>set l. ifc_ok ifc \<Longrightarrow> handle_inv h \<Longrightarrow> \<exists>h'. foreach_ifc (expand_internal this) l h = Some (0, h') \<and> handle_inv h'
     \<and> handle_vals h' = handle_vals h @ map (\<lambda>ifc. Some (expanded_for c (ifc_ip ifc))) l"
proof (induction l arbitrary: h)
  case Nil
  then show ?case by simp
next
  case (Cons ifc l)
  have "ifc_ok ifc" using Cons.prems by simp
  from expand_internal_ok [OF assms this Cons.prems(2)] obtain h1 where h1: "expand_internal this ifc h = Some (0, h1)" "handle_inv h1"
      "handle_vals h1 = handle_vals h @ [Some (expanded_for c (ifc_ip ifc))]" by blast
  with Cons.IH [OF _ h1(2)] Cons.prems show ?case by (auto simp: h1)
qed

text \<open>
  Expansion of a TCP, UDP, ICMP or raw configuration for all interfaces, \<^verbatim>\<open>svz_portcfg_expand\<close>: the result has one
  configuration per known interface, in their order, each with the address of its interface in binary and as text
  (the text converts back to the address), with the same protocol and port, and without a record of accepted
  connections; no two of them listen on a common address, and \<^verbatim>\<open>svz_portcfg_equal\<close> says so.
\<close>

theorem portcfg_expand_covers:
  assumes "ifcs_rep interfaces l" "lists_ok this" "svz_portcfg_addr this = Some sa"
    and "pc_flag this PORTCFG_FLAG_ALL" "\<not> pc_flag this PORTCFG_FLAG_DEVICE" "\<not> pc_flag this PORTCFG_FLAG_ANY"
  shows "\<exists>ports ps. svz_portcfg_expand interfaces this = Some ports \<and> handle_vals ports = map Some ps
     \<and> length ps = length l
     \<and> (\<forall>i<length l. svz_portcfg_addr (ps ! i) = Some (sa\<lparr>sin_addr := ifc_ip (l ! i)\<rparr>)
          \<and> (\<exists>t. svz_portcfg_ipaddr (ps ! i) = Some t \<and> svz_inet_aton t 0 = (0, ifc_ip (l ! i)))
          \<and> pc_proto (ps ! i) = pc_proto this \<and> pc_accepted (ps ! i) = None)
     \<and> (\<forall>i<length l. \<forall>j<length l. i \<noteq> j \<longrightarrow>
          svz_portcfg_equal (ps ! i) (ps ! j) = Some SVZ_PORTCFG_NOMATCH \<and> endpoints (ps ! i) \<inter> endpoints (ps ! j) = {})"
proof -
  have l: "\<forall>ifc\<in>set l. ifc_ok ifc" "distinct (map ifc_ip l)" using assms(1) by (auto simp: ifcs_rep_def)
  obtain c where c: "svz_portcfg_dup this = Some c" "pc_flags c = pc_flags this"
      "pc_protocol c = dup_protocol (pc_protocol this)" "pc_accepted c = None"
    using portcfg_dup_ok [OF assms(2)] by blast
  obtain n where n: "pc_net this = Some n" "sa = nc_addr n" using assms(3) by (auto simp: addr_pc_net)
  have cn: "pc_net c = Some (dup_net n)" "pc_proto c = pc_proto this" using dup_net_addr [OF c(3)] n by auto
  let ?ps = "map (\<lambda>ifc. expanded_for c (ifc_ip ifc)) l"
  have "handle_inv (Some (svz_array_create 1 False :: svz_portcfg svz_array))" "handle_vals (Some (svz_array_create 1 False :: svz_portcfg svz_array)) = []"
    by (simp_all add: array_inv_create)
  with foreach_expand [OF c(1) _ l(1)] cn obtain ports where ports:
      "foreach_ifc (expand_internal this) l (Some (svz_array_create 1 False)) = Some (0, ports)" "handle_vals ports = map Some ?ps"
    by (fastforce simp: comp_def)
  then have "svz_portcfg_expand interfaces this = Some ports"
    using assms(3-5) by (simp add: svz_portcfg_expand_def svz_foreach_interface_def ifc_elems_rep [OF assms(1)])
  moreover have ex: "svz_portcfg_addr (expanded_for c ip) = Some (sa\<lparr>sin_addr := ip\<rparr>)
      \<and> svz_portcfg_ipaddr (expanded_for c ip) = Some (svz_inet_ntoa ip)
      \<and> pc_proto (expanded_for c ip) = pc_proto this \<and> pc_flags (expanded_for c ip) = pc_flags this
      \<and> pc_accepted (expanded_for c ip) = None" for ip
    using c(2,4) by (simp add: expanded_for_def upd_net_addr cn n dup_net_def) (simp add: upd_net_def)
  moreover have "svz_portcfg_equal (expanded_for c ip) (expanded_for c ip') = Some SVZ_PORTCFG_NOMATCH
      \<and> endpoints (expanded_for c ip) \<inter> endpoints (expanded_for c ip') = {}" if "ip \<noteq> ip'" for ip ip'
  proof -
    have a: "svz_portcfg_addr (expanded_for c ip) = Some (sa\<lparr>sin_addr := ip\<rparr>)" for ip using ex by blast
    have f: "\<not> pc_flag (expanded_for c ip) PORTCFG_FLAG_DEVICE" "\<not> pc_flag (expanded_for c ip) PORTCFG_FLAG_ANY" for ip
      using ex [of ip] assms(5,6) by (simp_all add: pc_flag_def)
    have "svz_portcfg_equal (expanded_for c ip) (expanded_for c ip') = Some SVZ_PORTCFG_NOMATCH"
      using that by (simp add: portcfg_equal_net [OF a a f(1) f(1)] cmp_addr_def f(2))
    moreover have "endpoints (expanded_for c ip) \<inter> endpoints (expanded_for c ip') = {}"
      using endpoints_meet [OF a [of ip] a [of ip']] f(2) that by auto
    ultimately show ?thesis by blast
  qed
  moreover have "ifc_ip (l ! i) \<noteq> ifc_ip (l ! j)" if "i < length l" "j < length l" "i \<noteq> j" for i j
    using that l(2) by (simp add: distinct_conv_nth)
  ultimately show ?thesis using ports(2) by (intro exI [of _ ports] exI [of _ ?ps]) (simp add: svz_inet_aton_ntoa)
qed

subsection \<open>Texts of users, configurations and the table of names\<close>

text \<open>
  \<^verbatim>\<open>svz_portcfg_mkaddr\<close> accepts a pipe configuration with two file names whatever the user database says: a user or
  a group that does not exist is not an error, although the checks are documented to return zero only
  if the user or the group is valid.
\<close>

lemma mkaddr_pipe_unchecked:
  assumes "pc_protocol this = Pipe r s" "pi_name r \<noteq> None" "pi_name s \<noteq> None"
  shows "\<exists>cfg. svz_portcfg_mkaddr interfaces db this = Some (0, cfg)"
proof -
  have u: "\<exists>p'. svz_pipe_check_user db p = (0, p') \<and> pi_name p' = pi_name p" for p
    by (auto simp: svz_pipe_check_user_def split: option.splits)
  have g: "\<exists>p'. svz_pipe_check_group db p = (0, p') \<and> pi_name p' = pi_name p" for p
    by (auto simp: svz_pipe_check_group_def split: option.splits)
  have "\<exists>p'. check_pipe db p = (0, p') \<and> pi_name p' = pi_name p" if n: "pi_name p \<noteq> None" for p
  proof -
    obtain p1 where "svz_pipe_check_user db p = (0, p1)" "pi_name p1 = pi_name p" using u by blast
    moreover obtain p2 where "svz_pipe_check_group db p1 = (0, p2)" "pi_name p2 = pi_name p1" using g by blast
    ultimately show ?thesis using n by (simp add: check_pipe_def)
  qed
  from this [OF assms(2)] this [OF assms(3)] show ?thesis using assms by (auto simp: svz_portcfg_mkaddr_def)
qed

text \<open>
  \<^verbatim>\<open>svz_pp_portcfg\<close> returns the length of the whole text, not that of what fits into the buffer: the result is not
  bounded by the buffer.
\<close>

lemma pp_portcfg_length:
  "svz_pp_portcfg sz port = Some (len, buf) \<Longrightarrow> 0 < sz \<Longrightarrow> length buf < sz \<and> (len = length buf \<longleftrightarrow> len < sz)"
proof -
  assume r: "svz_pp_portcfg sz port = Some (len, buf)" and "0 < sz"
  then obtain t where "len = length t" "buf = take (sz - 1) t" by (cases "portcfg_text port") (auto simp: svz_pp_portcfg_def)
  with \<open>0 < sz\<close> show ?thesis by (simp add: min_def) linarith
qed

lemma pp_portcfg_exceeds:
  assumes "pc_protocol port = Pipe r s" "pi_name r = Some x" "pi_name s = Some y" "sz \<le> length x"
  shows "\<exists>len buf. svz_pp_portcfg sz port = Some (len, buf) \<and> sz \<le> len"
  using assms by (auto simp: svz_pp_portcfg_def portcfg_text_def)

definition table_inv :: "portcfg_table \<Rightarrow> bool" where
  "table_inv t \<longleftrightarrow> (\<forall>h. t = Some h \<longrightarrow> hash_wf c_string h \<and> uses hash_equal hash_code hash_key_length h)"

lemma hash_create_4: "\<exists>h. svz_hash_create 4 d = Some h"
proof -
  have "create_size 4 1 = Some 4" by (simp add: create_size_step) (simp add: create_size.simps)
  then show ?thesis by (auto simp: svz_hash_create_def Let_def)
qed

lemma fresh_get: "svz_hash_create n d = Some h \<Longrightarrow> c_string k \<Longrightarrow> svz_hash_get h k = Some None"
  using str_hash.mget [of h k] fresh_hash_wf [of n d h] by (simp add: hash_lookup_def)

lemma contains_key:
  assumes "hash_wf c_string h" "uses hash_equal hash_code hash_key_length h" "svz_hash_contains h v = Some key"
  shows "c_string key" "hash_lookup h key = Some v"
proof -
  from assms(3) obtain ent where e: "ent \<in># entries h" "ent_value ent = v" "key = ent_key ent"
    by (auto simp: svz_hash_contains_def entries_def find_Some_iff dest: nth_mem)
  then show "c_string key" using assms(1) by (auto simp: hash_wf_def hash_ents_def)
  moreover from this e have "matches h key ent" using assms(2) by (simp add: matches_def uses_def hash_equal_iff)
  moreover have "hash_ents c_string h (entries h)" using assms(1) by (simp add: hash_wf_def)
  ultimately show "hash_lookup h key = Some v" using hash_lookup_Some [of c_string h key v] e by blast
qed

lemma contains_found:
  assumes "hash_wf c_string h" "c_string k" "hash_lookup h k = Some v"
  shows "svz_hash_contains h v \<noteq> None"
proof -
  have "hash_ents c_string h (entries h)" using assms(1) by (simp add: hash_wf_def)
  with hash_lookup_Some [OF this assms(2)] assms(3) obtain ent where "ent \<in># entries h" "ent_value ent = v" by blast
  then show ?thesis by (auto simp: svz_hash_contains_def entries_def find_None_iff)
qed

lemma lookup_cstr:
  assumes "hash_wf c_string h" "uses hash_equal hash_code hash_key_length h" "c_string k" "c_string k'" "cstr k = cstr k'"
  shows "hash_lookup h k = hash_lookup h k'"
proof -
  have "matches h k ent = matches h k' ent" if "ent \<in> set (concat (table h))" for ent
  proof -
    have "c_string (ent_key ent)" using that assms(1) unfolding hash_wf_def hash_ents_def entries_def by auto
    then show ?thesis using assms(2-5) by (simp add: matches_def uses_def hash_equal_iff)
  qed
  then show ?thesis unfolding hash_lookup_def by (metis find_cong)
qed

lemma table_add:
  assumes "table_inv t" "0 \<notin> set name"
  shows "\<exists>h. svz_portcfg_add (Some name) (Some p) t = Some (case the (svz_portcfg_get (Some name) t) of None \<Rightarrow> Some p | Some q \<Rightarrow> Some q, Some h)
     \<and> table_inv (Some h) \<and> (\<exists>r. svz_portcfg_get (Some name) t = Some r)
     \<and> (\<forall>n. 0 \<notin> set n \<longrightarrow> svz_portcfg_get (Some n) (Some h) = (if n = name then Some (Some p) else svz_portcfg_get (Some n) t))"
proof -
  let ?k = "\<lambda>n. n @ [0 :: byte]"
  define h where "h = (case t of None \<Rightarrow> the (svz_hash_create 4 True) | Some h \<Rightarrow> h)"
  obtain h0 :: "addr svz_hash" where "svz_hash_create 4 True = Some h0" using hash_create_4 [of True] by blast
  then have cre: "(case t of None \<Rightarrow> svz_hash_create 4 True | Some h \<Rightarrow> Some h) = Some h" by (simp add: h_def split: option.splits)
  have h: "hash_wf c_string h \<and> uses hash_equal hash_code hash_key_length h"
    and "svz_portcfg_get (Some n) t = svz_hash_get h (?k n)" for n
    using assms(1) cre fresh_hash_wf(1,2) [of 4 True h] fresh_get [of 4 True h "?k n"]
    by (cases t; auto simp: table_inv_def svz_portcfg_get_def name_c_string)+
  then have get: "svz_portcfg_get (Some n) t = Some (Option.bind (hash_lookup h (?k n)) id)" for n
    using str_hash.mget [OF h name_c_string] by simp
  obtain h1 where h1: "svz_hash_put h (?k name) (Some p) = Some (Option.bind (hash_lookup h (?k name)) id, h1)"
      "hash_wf c_string h1 \<and> uses hash_equal hash_code hash_key_length h1"
      "\<And>k'. c_string k' \<Longrightarrow> hash_lookup h1 k' = (if hash_equal (?k name) k' = 0 then Some (Some p) else hash_lookup h k')"
    using str_hash.mput [OF h name_c_string] by blast
  have "hash_lookup h1 (?k n) = (if n = name then Some (Some p) else hash_lookup h (?k n))" if "0 \<notin> set n" for n
    using h1(3) [OF name_c_string, of n] same_name [OF assms(2) that] by simp
  then have "svz_portcfg_get (Some n) (Some h1) = (if n = name then Some (Some p) else svz_portcfg_get (Some n) t)" if "0 \<notin> set n" for n
    using str_hash.mget [OF h1(2) name_c_string] that by (cases "n = name") (simp_all add: get, simp_all add: svz_portcfg_get_def)
  moreover have "svz_portcfg_add (Some name) (Some p) t = Some (case the (svz_portcfg_get (Some name) t) of None \<Rightarrow> Some p | Some q \<Rightarrow> Some q, Some h1)"
    using str_hash.mget [OF h name_c_string] h1(1) by (simp add: svz_portcfg_add_def cre get split: option.splits)
  ultimately show ?thesis using h1(2) get by (auto simp: table_inv_def)
qed

lemma table_destroy:
  assumes "table_inv (Some h)" "svz_portcfg_get (Some name) (Some h) = Some (Some p)" "0 \<notin> set name"
    and once: "\<And>n. 0 \<notin> set n \<Longrightarrow> svz_portcfg_get (Some n) (Some h) = Some (Some p) \<Longrightarrow> n = name"
  shows "\<exists>h'. svz_portcfg_destroy (Some p) (Some h) = Some (Some h', Some p) \<and> table_inv (Some h')
     \<and> (\<forall>n. 0 \<notin> set n \<longrightarrow> svz_portcfg_get (Some n) (Some h') = (if n = name then Some None else svz_portcfg_get (Some n) (Some h)))"
proof -
  let ?k = "\<lambda>n. n @ [0 :: byte]"
  have h: "hash_wf c_string h \<and> uses hash_equal hash_code hash_key_length h" using assms(1) by (simp add: table_inv_def)
  have get: "svz_portcfg_get (Some n) (Some h) = Some (Option.bind (hash_lookup h (?k n)) id)" for n
    using str_hash.mget [OF h name_c_string] by (simp add: svz_portcfg_get_def)
  then have "hash_lookup h (?k name) = Some (Some p)" using assms(2) by (cases "hash_lookup h (?k name)") auto
  then obtain key where key: "svz_hash_contains h (Some p) = Some key"
    using contains_found [OF conjunct1 [OF h] name_c_string, of name "Some p"] by auto
  note ck = contains_key [OF conjunct1 [OF h] conjunct2 [OF h] key]
  have z: "0 \<notin> set (cstr key)" unfolding cstr_def by (metis (lifting) set_takeWhileD)
  have "hash_lookup h (?k (cstr key)) = Some (Some p)"
    using lookup_cstr [OF conjunct1 [OF h] conjunct2 [OF h] name_c_string ck(1), of "cstr key"] ck(2) by simp
  then have kk: "cstr key = name" using once [OF z] get by simp
  obtain h' where h': "svz_hash_delete h key = Some (Option.bind (hash_lookup h key) id, h')"
      "hash_wf c_string h' \<and> uses hash_equal hash_code hash_key_length h'"
      "\<And>k'. c_string k' \<Longrightarrow> hash_lookup h' k' = (if hash_equal key k' = 0 then None else hash_lookup h k')"
    using str_hash.mdel [OF h ck(1)] by blast
  have "svz_portcfg_get (Some n) (Some h') = (if n = name then Some None else svz_portcfg_get (Some n) (Some h))" if "0 \<notin> set n" for n
  proof -
    have "hash_equal key (?k n) = 0 \<longleftrightarrow> n = name" using ck(1) kk cstr_name [OF that] by (auto simp: hash_equal_iff name_c_string)
    moreover have "svz_portcfg_get (Some n) (Some h') = Some (Option.bind (hash_lookup h' (?k n)) id)"
      using str_hash.mget [OF h'(2) name_c_string] by (simp add: svz_portcfg_get_def)
    ultimately show ?thesis using h'(3) [OF name_c_string, of n] get by (cases "n = name") simp_all
  qed
  then show ?thesis using h'(2) by (auto simp: svz_portcfg_destroy_def key h'(1) table_inv_def)
qed

text \<open>
  The table of named port configurations (\<^verbatim>\<open>svz_portcfg_add\<close>, \<^verbatim>\<open>svz_portcfg_get\<close>, \<^verbatim>\<open>svz_portcfg_destroy\<close>), created on
  demand: after adding a configuration its name gives that configuration and every other name what it gave
  before, and the result of adding is the configuration that had the name (else the new one); destroying a configuration
  that has been added under one name removes exactly that name.
\<close>

theorem portcfg_table_add_destroy:
  assumes "table_inv t" "0 \<notin> set name" "0 \<notin> set other"
    and "\<And>n. 0 \<notin> set n \<Longrightarrow> svz_portcfg_get (Some n) t \<noteq> Some (Some p)"
  shows "\<exists>r t1 t2. svz_portcfg_add (Some name) (Some p) t = Some (r, t1) \<and> table_inv t1
     \<and> svz_portcfg_get (Some other) t1 = (if other = name then Some (Some p) else svz_portcfg_get (Some other) t)
     \<and> svz_portcfg_get (Some name) t = Some (if r = Some p then None else r)
     \<and> svz_portcfg_destroy (Some p) t1 = Some (t2, Some p) \<and> table_inv t2
     \<and> svz_portcfg_get (Some other) t2 = (if other = name then Some None else svz_portcfg_get (Some other) t)"
proof -
  obtain h where h: "svz_portcfg_add (Some name) (Some p) t = Some (case the (svz_portcfg_get (Some name) t) of None \<Rightarrow> Some p | Some q \<Rightarrow> Some q, Some h)"
      "table_inv (Some h)" "\<exists>r. svz_portcfg_get (Some name) t = Some r"
      "\<And>n. 0 \<notin> set n \<Longrightarrow> svz_portcfg_get (Some n) (Some h) = (if n = name then Some (Some p) else svz_portcfg_get (Some n) t)"
    using table_add [OF assms(1,2), of p] by blast
  have "svz_portcfg_get (Some name) (Some h) = Some (Some p)" using h(4) [OF assms(2)] by simp
  moreover have "n = name" if "0 \<notin> set n" "svz_portcfg_get (Some n) (Some h) = Some (Some p)" for n
    using h(4) [OF that(1)] assms(4) [OF that(1)] that(2) by (cases "n = name") auto
  ultimately obtain h' where h': "svz_portcfg_destroy (Some p) (Some h) = Some (Some h', Some p)" "table_inv (Some h')"
      "\<And>n. 0 \<notin> set n \<Longrightarrow> svz_portcfg_get (Some n) (Some h') = (if n = name then Some None else svz_portcfg_get (Some n) (Some h))"
    using table_destroy [OF h(2) _ assms(2)] by blast
  obtain r where r: "svz_portcfg_get (Some name) t = Some r" using h(3) by blast
  then have "r \<noteq> Some p" using assms(4) [OF assms(2)] by auto
  then show ?thesis
    using h(1,2) h(4) [OF assms(3)] h'(1,2) h'(3) [OF assms(3)] r
    by (intro exI [of _ "case r of None \<Rightarrow> Some p | Some q \<Rightarrow> Some q"] exI [of _ "Some h"] exI [of _ "Some h'"])
      (auto split: option.splits)
qed

subsection \<open>Examples\<close>

definition tcp_cfg :: "mem \<Rightarrow> u16 \<Rightarrow> svz_portcfg" where
  "tcp_cfg ip port = svz_portcfg_create\<lparr>pc_name := Some (lit ''tcp''), pc_protocol := Tcp port
     \<lparr>nc_ipaddr = Some ip, nc_addr = \<lparr>sin_family = 0, sin_port = 0, sin_addr = 0\<rparr>, nc_device = None\<rparr> 0\<rparr>"

definition no_users :: userdb where
  "no_users = \<lparr>getpwnam = \<lambda>_. None, getpwuid = \<lambda>_. None, getgrnam = \<lambda>_. None, getgrgid = \<lambda>_. None\<rparr>"

definition made :: "svz_portcfg \<Rightarrow> svz_portcfg" where
  "made p = snd (the (svz_portcfg_mkaddr None no_users p))"

abbreviation "ex_any \<equiv> made (tcp_cfg (lit ''any'') 80)"
abbreviation "ex_all \<equiv> made (tcp_cfg (lit ''*'') 80)"
abbreviation "ex_one \<equiv> made (tcp_cfg (svz_inet_ntoa 0x0100007f) 80)"

lemma ntoa_not_word: "svz_inet_ntoa ip \<noteq> SVZ_PORTCFG_ANY" "svz_inet_ntoa ip \<noteq> SVZ_PORTCFG_NOIP"
  using length_inet_ntoa [of ip] by (auto simp: SVZ_PORTCFG_ANY_def SVZ_PORTCFG_NOIP_def lit_def)

lemma wild_words: "lit ''any'' = SVZ_PORTCFG_ANY" "lit ''*'' = SVZ_PORTCFG_NOIP" "SVZ_PORTCFG_NOIP \<noteq> SVZ_PORTCFG_ANY"
  by (simp_all add: SVZ_PORTCFG_ANY_def SVZ_PORTCFG_NOIP_def lit_def)

lemma ex_search: "svz_interface_search d None = Some None"
  by (simp add: svz_interface_search_def ifc_elems_def svz_array_foreach.simps)

lemmas ex_defs = made_def tcp_cfg_def svz_portcfg_create_def svz_portcfg_mkaddr_def mkaddr_net_def any_p_def no_ip_p_def
  with_port_def SOMAXCONN_def AF_INET_def INADDR_ANY_def PORTCFG_FLAG_DEVICE_def PORTCFG_FLAG_ANY_def PORTCFG_FLAG_ALL_def

lemma ex_made_eq:
  "ex_any = (tcp_cfg (lit ''any'') 80)\<lparr>pc_flags := 1, pc_protocol := Tcp 80
     \<lparr>nc_ipaddr = Some (lit ''any''), nc_addr = \<lparr>sin_family = 2, sin_port = htons 80, sin_addr = 0\<rparr>, nc_device = None\<rparr> 0\<rparr>"
  "ex_all = (tcp_cfg (lit ''*'') 80)\<lparr>pc_flags := 2, pc_protocol := Tcp 80
     \<lparr>nc_ipaddr = Some (lit ''*''), nc_addr = \<lparr>sin_family = 2, sin_port = htons 80, sin_addr = 0\<rparr>, nc_device = None\<rparr> 0\<rparr>"
  "ex_one = (tcp_cfg (svz_inet_ntoa 0x0100007f) 80)\<lparr>pc_flags := 0, pc_protocol := Tcp 80
     \<lparr>nc_ipaddr = Some (svz_inet_ntoa 0x0100007f), nc_addr = \<lparr>sin_family = 2, sin_port = htons 80, sin_addr = 0x0100007f\<rparr>,
       nc_device = None\<rparr> 0\<rparr>"
  by (simp_all add: ex_defs ntoa_not_word convert_addr_def ex_search svz_inet_aton_ntoa wild_words)

lemma ex_made:
  "svz_portcfg_addr ex_any = Some \<lparr>sin_family = 2, sin_port = htons 80, sin_addr = 0\<rparr>" "pc_flags ex_any = 1"
  "svz_portcfg_addr ex_all = Some \<lparr>sin_family = 2, sin_port = htons 80, sin_addr = 0\<rparr>" "pc_flags ex_all = 2"
  "svz_portcfg_addr ex_one = Some \<lparr>sin_family = 2, sin_port = htons 80, sin_addr = 0x0100007f\<rparr>" "pc_flags ex_one = 0"
  "pc_proto ex_any = pc_proto ex_one \<and> port_key ex_any = port_key ex_one"
  "pc_allow ex_all = None \<and> pc_deny ex_all = None" "pc_protocol ex_one \<noteq> NoProto" "pc_send_buffer_size ex_one = 0"
  unfolding ex_made_eq
  by (simp_all add: svz_portcfg_addr_def pc_proto_def port_key_def tcp_cfg_def svz_portcfg_create_def)


theorem portcfg_prepare_ranges_witness:
  "0 < pc_send_buffer_size (svz_portcfg_prepare ex_one) \<and> pc_send_buffer_size ex_one = 0"
  using portcfg_prepare_ranges [OF ex_made(9), of ex_one] ex_made(10) by blast

theorem portcfg_expand_covers_witness:
  "\<exists>ports ps. svz_portcfg_expand ex_ifcs ex_all = Some ports \<and> handle_vals ports = map Some ps \<and> length ps = 2
     \<and> svz_portcfg_addr (ps ! 1) = Some \<lparr>sin_family = 2, sin_port = htons 80, sin_addr = 0x0100000a\<rparr>"
proof -
  have f: "pc_flag ex_all PORTCFG_FLAG_ALL" "\<not> pc_flag ex_all PORTCFG_FLAG_DEVICE" "\<not> pc_flag ex_all PORTCFG_FLAG_ANY"
    by (simp_all add: pc_flag_def ex_made PORTCFG_FLAG_DEVICE_def PORTCFG_FLAG_ANY_def PORTCFG_FLAG_ALL_def)
  have ok: "lists_ok ex_all" using ex_made(8) by (simp add: lists_ok_def)
  have len: "length ex_was = 2" and ip: "ifc_ip (ex_was ! 1) = 0x0100000a" by (simp_all add: ex_was_def)
  from portcfg_expand_covers [OF conjunct1 [OF ex_ifcs_rep] ok ex_made(3) f]
  obtain ports ps where "svz_portcfg_expand ex_ifcs ex_all = Some ports" "handle_vals ports = map Some ps" "length ps = length ex_was"
    "\<forall>i<length ex_was. svz_portcfg_addr (ps ! i) = Some (\<lparr>sin_family = 2, sin_port = htons 80, sin_addr = 0\<rparr>\<lparr>sin_addr := ifc_ip (ex_was ! i)\<rparr>)"
    by blast
  moreover from this(4) have "svz_portcfg_addr (ps ! 1) = Some (\<lparr>sin_family = 2, sin_port = htons 80, sin_addr = 0\<rparr>\<lparr>sin_addr := ifc_ip (ex_was ! 1)\<rparr>)"
    by (simp only: len)
  ultimately show ?thesis using len ip by auto
qed

theorem portcfg_table_add_destroy_witness:
  "\<exists>r t1 t2. svz_portcfg_add (Some (lit ''tcp'')) (Some 5) None = Some (r, t1) \<and> svz_portcfg_get (Some (lit ''tcp'')) t1 = Some (Some 5)
     \<and> svz_portcfg_destroy (Some 5) t1 = Some (t2, Some 5) \<and> svz_portcfg_get (Some (lit ''tcp'')) t2 = Some None"
proof -
  have "table_inv None" "0 \<notin> set (lit ''tcp'')" "\<And>n. svz_portcfg_get (Some n) None \<noteq> Some (Some 5)"
    by (simp_all add: table_inv_def svz_portcfg_get_def) code_simp
  then show ?thesis using portcfg_table_add_destroy [of None "lit ''tcp''" "lit ''tcp''" 5] by auto
qed

end
