(* ===== verification/Svz_Net.thy ===== *)
theory Svz_Net
  imports Svz_Reach Svz_Portcfg
begin

text \<open>
  How sockets come into being: creation of descriptors and outgoing connections (\<^verbatim>\<open>core.c\<close>, \<^verbatim>\<open>socket.c\<close>,
  \<^verbatim>\<open>tcp-socket.c\<close>, \<^verbatim>\<open>udp-socket.c\<close>, \<^verbatim>\<open>icmp-socket.c\<close>, \<^verbatim>\<open>pipe-socket.c\<close>).

  The state is the socket list, the port configurations by address, the arrays of bindings by
  address, the map from sockets to their bindings, and the world outside of the program. A socket's entry in the map
  is found by its id and version: that the table of socket properties behaves as such a map is shown in
  \<open>Svz_Hash\<close>. The system calls are the parameter record \<open>sys\<close>; \<open>sy_fresh\<close> is the address the allocator hands out.
\<close>

subsection \<open>State and system calls\<close>

record svz_binding =
  bd_server :: nat
  bd_port :: addr

record 'w net_st =
  ns_core :: core
  ns_ports :: "addr \<Rightarrow> svz_portcfg option"
  ns_arrays :: "addr \<Rightarrow> svz_binding svz_array option"
  ns_ears :: "int \<times> int \<Rightarrow> addr option"
  ns_world :: 'w

record 'w sys =
  sy_os :: "'w os"
  sy_fresh :: "core \<Rightarrow> addr"
  sy_socket :: "int \<Rightarrow> int \<Rightarrow> 'w \<Rightarrow> int \<times> 'w"
  sy_getfl :: "int \<Rightarrow> 'w \<Rightarrow> u32"
  sy_setfl :: "int \<Rightarrow> u32 \<Rightarrow> 'w \<Rightarrow> int \<times> 'w"
  sy_getfd :: "int \<Rightarrow> 'w \<Rightarrow> u32"
  sy_setfd :: "int \<Rightarrow> u32 \<Rightarrow> 'w \<Rightarrow> int \<times> 'w"
  sy_connect :: "int \<Rightarrow> u32 \<times> u16 \<Rightarrow> 'w \<Rightarrow> int \<times> 'w"
  sy_accept :: "int \<Rightarrow> 'w \<Rightarrow> int \<times> 'w"
  sy_close :: "int \<Rightarrow> 'w \<Rightarrow> 'w"
  sy_so_error :: "int \<Rightarrow> 'w \<Rightarrow> int \<times> int"
  sy_errno :: "'w \<Rightarrow> int"
  sy_pending :: "int \<Rightarrow> bool"

text \<open>
  \<open>sy_getfl\<close> to \<open>sy_setfd\<close> are the four uses of \<^verbatim>\<open>fcntl\<close>; \<open>sy_so_error\<close> gives the result of \<^verbatim>\<open>getsockopt\<close> and the pending
  error; \<open>sy_pending\<close> says of an error number that it means \<^verbatim>\<open>SOCK_INPROGRESS\<close> or a resource that is
  unavailable for the moment.
\<close>

definition with_core :: "(core \<Rightarrow> core option) \<Rightarrow> 'w net_st \<Rightarrow> 'w net_st option" where
  "with_core f st = do { c \<leftarrow> f (ns_core st); Some (st\<lparr>ns_core := c\<rparr>) }"

definition upd_sock :: "addr \<Rightarrow> (svz_socket \<Rightarrow> svz_socket) \<Rightarrow> 'w net_st \<Rightarrow> 'w net_st option" where
  "upd_sock a f = with_core (\<lambda>c. upd c a f)"

definition the_sock :: "'w net_st \<Rightarrow> addr \<Rightarrow> svz_socket option" where
  "the_sock st a = heap (ns_core st) a"

definition O_NONBLOCK :: u32 where "O_NONBLOCK = 0x800"
definition FD_CLOEXEC :: u32 where "FD_CLOEXEC = 1"

definition svz_fd_nonblock :: "'w sys \<Rightarrow> int \<Rightarrow> 'w \<Rightarrow> int \<times> 'w" where
  "svz_fd_nonblock sy fd w =
     (let flag = sy_getfl sy fd w; (r, w) = sy_setfl sy fd (flag OR O_NONBLOCK) w in (if r < 0 then -1 else 0, w))"

definition svz_fd_cloexec :: "'w sys \<Rightarrow> int \<Rightarrow> 'w \<Rightarrow> int \<times> 'w" where
  "svz_fd_cloexec sy fd w =
     (let flag = sy_getfd sy fd w; (r, w) = sy_setfd sy fd (flag OR FD_CLOEXEC) w in (if r < 0 then -1 else 0, w))"

definition SOCK_STREAM :: int where "SOCK_STREAM = 1"
definition SOCK_DGRAM :: int where "SOCK_DGRAM = 2"
definition SOCK_RAW :: int where "SOCK_RAW = 3"
definition IPPROTO_IP :: int where "IPPROTO_IP = 0"
definition IPPROTO_ICMP :: int where "IPPROTO_ICMP = 1"
definition IPPROTO_UDP :: int where "IPPROTO_UDP = 17"
definition IPPROTO_RAW :: int where "IPPROTO_RAW = 255"

definition svz_socket_create :: "'w sys \<Rightarrow> u32 \<Rightarrow> 'w \<Rightarrow> int \<times> 'w" where
  "svz_socket_create sy proto w =
     (let (stype, ptype) =
            (if proto = SVZ_PROTO_TCP then (SOCK_STREAM, IPPROTO_IP)
             else if proto = SVZ_PROTO_UDP then (SOCK_DGRAM, IPPROTO_UDP)
             else if proto = SVZ_PROTO_ICMP then (SOCK_RAW, IPPROTO_ICMP)
             else if proto = SVZ_PROTO_RAW then (SOCK_RAW, IPPROTO_RAW)
             else (SOCK_STREAM, IPPROTO_IP));
          (sockfd, w) = sy_socket sy stype ptype w
      in if sockfd = -1 then (-1, w)
         else let (r, w) = svz_fd_nonblock sy sockfd w
              in if r \<noteq> 0 then (-1, sy_close sy sockfd w)
                 else let (r, w) = svz_fd_cloexec sy sockfd w
                      in if r \<noteq> 0 then (-1, sy_close sy sockfd w) else (sockfd, w))"

text \<open>A host that is no IPv4 address aborts the program.\<close>

definition v4_host :: "svz_address \<Rightarrow> u32 option" where
  "v4_host host =
     (if AF_INET \<noteq> svz_address_family host then None
      else do { (r, b) \<leftarrow> svz_address_to True (Some host); Some (le32 b) })"

definition svz_socket_connect :: "'w sys \<Rightarrow> int \<Rightarrow> svz_address \<Rightarrow> u16 \<Rightarrow> 'w \<Rightarrow> (int \<times> 'w) option" where
  "svz_socket_connect sy sockfd host port w = do {
     v4addr \<leftarrow> v4_host host;
     let (r, w) = sy_connect sy sockfd (v4addr, port) w;
     Some (if r = -1 then (if \<not> sy_pending sy (sy_errno sy w) then (-1, sy_close sy sockfd w) else (0, w))
           else (0, w))
   }"

subsection \<open>Socket structures\<close>

text \<open>\<^verbatim>\<open>svz_sock_alloc\<close> and \<^verbatim>\<open>svz_sock_unique_id\<close> on a new address.\<close>

definition alloc_sock :: "'w sys \<Rightarrow> 'w net_st \<Rightarrow> addr \<times> 'w net_st" where
  "alloc_sock sy st =
     (let c = ns_core st; a = sy_fresh sy c
      in (a, st\<lparr>ns_core := c\<lparr>heap := (heap c)(a \<mapsto> svz_sock_alloc (os_time (sy_os sy) (ns_world st)))\<rparr>\<rparr>))"

definition unique_id :: "addr \<Rightarrow> 'w net_st \<Rightarrow> 'w net_st option" where
  "unique_id a = with_core (\<lambda>c. do { (i, c) \<leftarrow> svz_sock_unique_id c a; Some c })"

definition enqueue :: "addr \<Rightarrow> 'w net_st \<Rightarrow> 'w net_st option" where
  "enqueue a = with_core (\<lambda>c. do { (r, c) \<leftarrow> svz_sock_enqueue c a; Some c })"

definition intern_info :: "'w sys \<Rightarrow> 'w net_st \<Rightarrow> svz_socket \<Rightarrow> svz_socket" where
  "intern_info sy st s = svz_sock_intern_connection_info (sy_os sy) s (ns_world st)"

definition resize_sock :: "addr \<Rightarrow> int \<Rightarrow> int \<Rightarrow> 'w net_st \<Rightarrow> 'w net_st option" where
  "resize_sock a s r st = do { sock \<leftarrow> the_sock st a; sock \<leftarrow> svz_sock_resize_buffers sock s r; upd_sock a (\<lambda>_. sock) st }"

definition count_connection :: "'w net_st \<Rightarrow> 'w net_st" where
  "count_connection st = st\<lparr>ns_core := (ns_core st)\<lparr>svz_sock_connections := svz_sock_connections (ns_core st) + 1\<rparr>\<rparr>"

definition svz_sock_create :: "'w sys \<Rightarrow> int \<Rightarrow> 'w net_st \<Rightarrow> (addr option \<times> 'w net_st) option" where
  "svz_sock_create sy fd st = do {
     let (r, w) = svz_fd_nonblock sy fd (ns_world st);
     let st = st\<lparr>ns_world := w\<rparr>;
     if r \<noteq> 0 then Some (None, st)
     else do {
       let (r, w) = svz_fd_cloexec sy fd (ns_world st);
       let st = st\<lparr>ns_world := w\<rparr>;
       if r \<noteq> 0 then Some (None, st)
       else do {
         let (a, st) = alloc_sock sy st;
         st \<leftarrow> unique_id a st;
         st \<leftarrow> upd_sock a (\<lambda>s. intern_info sy st
           (set_flag (SVZ_SOFLG_CONNECTED OR SVZ_SOFLG_SOCK) (s\<lparr>sk_sock_desc := fd\<rparr>))) st;
         Some (Some a, st)
       }
     }
   }"

subsection \<open>Outgoing connections\<close>

definition svz_tcp_connect :: "'w sys \<Rightarrow> svz_address \<Rightarrow> u16 \<Rightarrow> 'w net_st \<Rightarrow> (addr option \<times> 'w net_st) option" where
  "svz_tcp_connect sy host port st = do {
     v4addr \<leftarrow> v4_host host;
     let (sockfd, w) = svz_socket_create sy SVZ_PROTO_TCP (ns_world st);
     if sockfd = -1 then Some (None, st\<lparr>ns_world := w\<rparr>)
     else do {
       (r, w) \<leftarrow> svz_socket_connect sy sockfd host port w;
       let st = st\<lparr>ns_world := w\<rparr>;
       if r = -1 then Some (None, st)
       else do {
         let (a, st) = alloc_sock sy st;
         st \<leftarrow> unique_id a st;
         st \<leftarrow> upd_sock a (\<lambda>s. set_flag (SVZ_SOFLG_SOCK OR SVZ_SOFLG_CONNECTING)
           (s\<lparr>sk_sock_desc := sockfd, sk_proto := SVZ_PROTO_TCP, sk_connected_socket := Some ''tcp_default_connect'',
              sk_check_request := CR_NULL\<rparr>)) st;
         st \<leftarrow> enqueue a st;
         Some (Some a, st)
       }
     }
   }"

definition tcp_default_connect :: "'w sys \<Rightarrow> addr \<Rightarrow> 'w net_st \<Rightarrow> (int \<times> 'w net_st) option" where
  "tcp_default_connect sy a st = do {
     s \<leftarrow> the_sock st a;
     let (r, error) = sy_so_error sy (sk_sock_desc s) (ns_world st);
     if r < 0 then Some (-1, st)
     else if error \<noteq> 0 then Some (if \<not> sy_pending sy error then -1 else 0, st)
     else do {
       st \<leftarrow> upd_sock a (\<lambda>s. intern_info sy st (clear_flag SVZ_SOFLG_CONNECTING (set_flag SVZ_SOFLG_CONNECTED s))) st;
       Some (0, count_connection st)
     }
   }"

definition svz_udp_connect :: "'w sys \<Rightarrow> svz_address \<Rightarrow> u16 \<Rightarrow> 'w net_st \<Rightarrow> (addr option \<times> 'w net_st) option" where
  "svz_udp_connect sy host port st = do {
     v4addr \<leftarrow> v4_host host;
     let (sockfd, w) = svz_socket_create sy SVZ_PROTO_UDP (ns_world st);
     if sockfd = -1 then Some (None, st\<lparr>ns_world := w\<rparr>)
     else do {
       (r, w) \<leftarrow> svz_socket_connect sy sockfd host port w;
       let st = st\<lparr>ns_world := w\<rparr>;
       if r = -1 then Some (None, st)
       else do {
         let (a, st) = alloc_sock sy st;
         st \<leftarrow> resize_sock a SVZ_UDP_BUF_SIZE SVZ_UDP_BUF_SIZE st;
         st \<leftarrow> unique_id a st;
         st \<leftarrow> upd_sock a (\<lambda>s. set_flag (SVZ_SOFLG_SOCK OR SVZ_SOFLG_CONNECTED OR SVZ_SOFLG_FIXED)
           (s\<lparr>sk_sock_desc := sockfd, sk_proto := SVZ_PROTO_UDP\<rparr>)) st;
         st \<leftarrow> enqueue a st;
         st \<leftarrow> upd_sock a (\<lambda>s. (intern_info sy st s)\<lparr>sk_read_socket := Some ''udp_read_socket'',
           sk_write_socket := WS_other ''svz_udp_write_socket'', sk_check_request := CR_other ''svz_udp_check_request''\<rparr>) st;
         Some (Some a, count_connection st)
       }
     }
   }"

text \<open>
  \<^verbatim>\<open>svz_icmp_connect\<close> ends with a control message, \<open>send_control\<close>, whose result is ignored; it changes the send queue of the
  socket at most.
\<close>

definition svz_icmp_connect ::
    "'w sys \<Rightarrow> (addr \<Rightarrow> 'w net_st \<Rightarrow> 'w net_st option) \<Rightarrow> svz_address \<Rightarrow> u16 \<Rightarrow> byte \<Rightarrow> 'w net_st \<Rightarrow> (addr option \<times> 'w net_st) option" where
  "svz_icmp_connect sy send_control host port type st = do {
     v4addr \<leftarrow> v4_host host;
     let (sockfd, w) = svz_socket_create sy SVZ_PROTO_ICMP (ns_world st);
     if sockfd = -1 then Some (None, st\<lparr>ns_world := w\<rparr>)
     else do {
       (r, w) \<leftarrow> svz_socket_connect sy sockfd host port w;
       let st = st\<lparr>ns_world := w\<rparr>;
       if r = -1 then Some (None, st)
       else do {
         let (a, st) = alloc_sock sy st;
         st \<leftarrow> resize_sock a ICMP_BUF_SIZE ICMP_BUF_SIZE st;
         st \<leftarrow> unique_id a st;
         st \<leftarrow> upd_sock a (\<lambda>s. set_flag (SVZ_SOFLG_SOCK OR SVZ_SOFLG_CONNECTED OR SVZ_SOFLG_FIXED)
           (s\<lparr>sk_sock_desc := sockfd, sk_proto := SVZ_PROTO_ICMP, sk_itype := type\<rparr>)) st;
         st \<leftarrow> enqueue a st;
         st \<leftarrow> upd_sock a (\<lambda>s. (intern_info sy st s)\<lparr>sk_remote_addr := Some v4addr, sk_remote_port := word_of_int (sk_id s),
           sk_read_socket := Some ''read_socket'', sk_write_socket := WS_other ''svz_icmp_write_socket'',
           sk_check_request := CR_other ''svz_icmp_check_request''\<rparr>) st;
         st \<leftarrow> send_control a st;
         Some (Some a, count_connection st)
       }
     }
   }"

subsection \<open>Pipes\<close>

definition svz_pipe_create :: "'w sys \<Rightarrow> int \<Rightarrow> int \<Rightarrow> 'w net_st \<Rightarrow> (addr option \<times> 'w net_st) option" where
  "svz_pipe_create sy recv_fd send_fd st = do {
     let (r, w) = svz_fd_nonblock sy recv_fd (ns_world st);
     if r \<noteq> 0 then Some (None, st\<lparr>ns_world := w\<rparr>)
     else do {
       let (r, w) = svz_fd_nonblock sy send_fd w;
       if r \<noteq> 0 then Some (None, st\<lparr>ns_world := w\<rparr>)
       else do {
         let (r, w) = svz_fd_cloexec sy recv_fd w;
         if r \<noteq> 0 then Some (None, st\<lparr>ns_world := w\<rparr>)
         else do {
           let (r, w) = svz_fd_cloexec sy send_fd w;
           let st = st\<lparr>ns_world := w\<rparr>;
           if r \<noteq> 0 then Some (None, st)
           else do {
             let (a, st) = alloc_sock sy st;
             st \<leftarrow> unique_id a st;
             st \<leftarrow> upd_sock a (\<lambda>s. set_flag (SVZ_SOFLG_PIPE OR SVZ_SOFLG_CONNECTED)
               (s\<lparr>sk_pipe_read := recv_fd, sk_pipe_write := send_fd\<rparr>)) st;
             Some (Some a, st)
           }
         }
       }
     }
   }"

text \<open>The end of \<^verbatim>\<open>svz_pipe_connect\<close>, after both pipes have been opened.\<close>

definition pipe_connect_end :: "'w sys \<Rightarrow> int \<Rightarrow> int \<Rightarrow> 'w net_st \<Rightarrow> (addr \<times> 'w net_st) option" where
  "pipe_connect_end sy recv_pipe send_pipe st = do {
     let (a, st) = alloc_sock sy st;
     st \<leftarrow> unique_id a st;
     st \<leftarrow> upd_sock a (\<lambda>s. set_flag (SVZ_SOFLG_PIPE OR SVZ_SOFLG_CONNECTED)
       (s\<lparr>sk_pipe_read := recv_pipe, sk_pipe_write := send_pipe\<rparr>)) st;
     st \<leftarrow> enqueue a st;
     st \<leftarrow> upd_sock a (\<lambda>s. s\<lparr>sk_read_socket := Some ''svz_pipe_read_socket'',
       sk_write_socket := WS_other ''svz_pipe_write_socket''\<rparr>) st;
     Some (a, count_connection st)
   }"

subsection \<open>A new socket\<close>

text \<open>
  While a socket is being set up, the list and all other sockets are as they were: \<open>making\<close> relates the core before its
  allocation to the present one, where it is at \<open>a\<close> with the members \<open>s\<close>.
\<close>

definition making :: "core \<Rightarrow> addr list \<Rightarrow> core \<Rightarrow> addr \<Rightarrow> svz_socket \<Rightarrow> bool" where
  "making c0 xs c a s \<longleftrightarrow> world_inv c xs \<and> heap c a = Some s \<and> a \<notin> set xs \<and> heap c0 a = None \<and> \<not> has_flag s SVZ_SOFLG_ENQUEUED
     \<and> tab_get c (sk_id s) = Some None \<and> (\<forall>b. b \<noteq> a \<longrightarrow> heap c b = heap c0 b)
     \<and> svz_sock_connections c = svz_sock_connections c0 \<and> ages c0 c"

lemma making_start:
  assumes "world_inv c xs" "heap c a = None" "\<not> has_flag s SVZ_SOFLG_ENQUEUED"
  shows "\<exists>i c'. svz_sock_unique_id (c\<lparr>heap := (heap c)(a \<mapsto> s)\<rparr>) a = Some (i, c')
     \<and> making c xs c' a (s\<lparr>sk_id := i, sk_version := sock_version c\<rparr>)"
proof -
  have inv: "core_inv c xs" using assms(1) by (simp add: world_inv_def)
  then have a: "a \<notin> set xs" using tab_ok_member [of c xs a] assms(2) by (auto simp: core_inv_def)
  let ?c = "c\<lparr>heap := (heap c)(a \<mapsto> s)\<rparr>"
  have "quiet (set xs) c ?c" using a by (auto simp: quiet_def)
  then have "core_inv ?c xs" by (rule quiet_inv [OF inv])
  from unique_id_inv [OF this, of a s] a obtain i c' where c': "svz_sock_unique_id ?c a = Some (i, c')"
      "tab_get c' i = Some None" "heap c' = (heap c)(a \<mapsto> s\<lparr>sk_id := i, sk_version := sock_version c\<rparr>)"
      "svz_sock_connections c' = svz_sock_connections c" by auto
  moreover have "world_inv c' xs \<and> ages c c'" by (rule world_step_create [OF assms c'(1)])
  ultimately show ?thesis using a assms(2,3) by (auto simp: making_def has_flag_def)
qed

lemma making_upd:
  assumes "making c0 xs c a s" "tweaks s (f s)"
  shows "\<exists>c'. upd c a f = Some c' \<and> making c0 xs c' a (f s)"
proof -
  let ?c = "c\<lparr>heap := (heap c)(a \<mapsto> f s)\<rparr>"
  have "heap c a = Some s" "world_inv c xs" using assms(1) by (simp_all add: making_def)
  with world_step_tweak [OF this(2,1) assms(2)] have "world_inv ?c xs" "ages c ?c" by simp_all
  moreover have "sk_id (f s) = sk_id s" "has_flag (f s) SVZ_SOFLG_ENQUEUED = has_flag s SVZ_SOFLG_ENQUEUED"
    using assms(2) by (simp_all add: tweaks_def ident_def)
  ultimately have "making c0 xs ?c a (f s)" using assms(1) ages_trans [of c0 c ?c] by (simp add: making_def)
  then show ?thesis using \<open>heap c a = Some s\<close> by (simp add: upd_def)
qed

text \<open>What the enqueued socket keeps and what the list keeps.\<close>

definition inserted :: "core \<Rightarrow> addr list \<Rightarrow> core \<Rightarrow> addr \<Rightarrow> svz_socket \<Rightarrow> bool" where
  "inserted c0 xs c a s \<longleftrightarrow> world_inv c (xs @ [a]) \<and> heap c0 a = None \<and> (\<exists>t. heap c a = Some t \<and> payload t = payload (set_flag SVZ_SOFLG_ENQUEUED s))
     \<and> same_payload c0 c (- {a}) \<and> svz_sock_connections c = svz_sock_connections c0 \<and> ages c0 c"

lemma payload_set_flag: "payload (set_flag f (s\<lparr>sk_next := n, sk_prev := p\<rparr>)) = payload (set_flag f s)"
  by (simp add: payload_def set_flag_def)

lemma making_enqueue:
  assumes "making c0 xs c a s" "\<not> invalid_desc s"
  shows "\<exists>c'. svz_sock_enqueue c a = Some (0, c') \<and> inserted c0 xs c' a s"
proof -
  have s: "heap c a = Some s" "core_inv c xs" "tab_get c (sk_id s) = Some None" "\<not> has_flag s SVZ_SOFLG_ENQUEUED" "world_inv c xs"
    using assms(1) by (simp_all add: making_def world_inv_def)
  from enqueue_inv [OF s(2,1) assms(2) s(3,4)] obtain c' n p where c': "svz_sock_enqueue c a = Some (0, c')" "core_inv c' (xs @ [a])"
      "same_payload c c' (- {a})" "heap c' a = Some (set_flag SVZ_SOFLG_ENQUEUED (s\<lparr>sk_next := n, sk_prev := p\<rparr>))"
      "svz_sock_connections c' = svz_sock_connections c" "sock_version c' = sock_version c" by blast
  then have w: "world_inv c' (xs @ [a]) \<and> ages c c'" using s(1)
    by (intro world_inv_ident [where a = a, OF s(5)]) (auto intro: same_payload_ident)
  have "same_payload c0 c' (- {a})" using c'(3) assms(1) by (simp add: same_payload_def making_def)
  then show ?thesis
    using c'(1,4,5) w assms(1) ages_trans [of c0 c c'] by (auto simp: inserted_def making_def payload_set_flag)
qed

text \<open>Later changes to the new socket, which is on the list now.\<close>

lemma inserted_upd:
  assumes "inserted c0 xs c a s" "\<And>t. payload t = payload (set_flag SVZ_SOFLG_ENQUEUED s) \<Longrightarrow> tweaks t (f t)"
    "\<And>t. payload t = payload (set_flag SVZ_SOFLG_ENQUEUED s) \<Longrightarrow> payload (f t) = payload (set_flag SVZ_SOFLG_ENQUEUED s')"
  shows "\<exists>c'. upd c a f = Some c' \<and> inserted c0 xs c' a s'"
proof -
  obtain t where t: "heap c a = Some t" "payload t = payload (set_flag SVZ_SOFLG_ENQUEUED s)" using assms(1) by (auto simp: inserted_def)
  let ?c = "c\<lparr>heap := (heap c)(a \<mapsto> f t)\<rparr>"
  have "world_inv ?c (xs @ [a]) \<and> ages c ?c"
    using assms(1) by (intro world_step_tweak [OF _ t(1) assms(2) [OF t(2)]]) (simp add: inserted_def)
  moreover have "same_payload c0 ?c (- {a})" using assms(1) by (simp add: inserted_def same_payload_def)
  ultimately have "inserted c0 xs ?c a s'" using assms(1) assms(3) [OF t(2)] ages_trans [of c0 c ?c] by (simp add: inserted_def)
  then show ?thesis using t(1) by (simp add: upd_def)
qed

subsection \<open>Counting connections\<close>

text \<open>
  The server refuses connections when \<^verbatim>\<open>svz_sock_connections\<close> reaches its limit. The invariant of the network layer: the list is
  consistent, its sockets are valid, and the counter is the number of connected network sockets on the list.
\<close>

definition counted :: "core \<Rightarrow> addr \<Rightarrow> bool" where
  "counted c a \<longleftrightarrow> (case heap c a of None \<Rightarrow> False | Some s \<Rightarrow> has_flag s SVZ_SOFLG_SOCK \<and> has_flag s SVZ_SOFLG_CONNECTED)"

definition net_inv :: "core \<Rightarrow> addr list \<Rightarrow> bool" where
  "net_inv c xs \<longleftrightarrow> world_inv c xs \<and> (\<forall>b\<in>set xs. valid c b)
     \<and> svz_sock_connections c = int (length (filter (counted c) xs))"

lemma world_alloc: "world_inv c xs \<Longrightarrow> b \<in> set xs \<Longrightarrow> heap c b \<noteq> None"
  using tab_ok_member [of c xs b] by (auto simp: world_inv_def core_inv_def)

lemma world_distinct: "world_inv c xs \<Longrightarrow> distinct xs"
  by (simp add: world_inv_def core_inv_def chain_def)

lemma same_payload_counted:
  assumes "same_payload c c' A" "b \<in> A"
  shows "counted c' b = counted c b"
proof -
  have eq: "map_option payload (heap c' b) = map_option payload (heap c b)" using assms by (simp add: same_payload_def)
  show ?thesis
  proof (cases "heap c b")
    case None
    then show ?thesis using eq by (simp add: counted_def)
  next
    case (Some s)
    with eq obtain s' where s': "heap c' b = Some s'" "payload s' = payload s" by auto
    then have "sk_flags s' = sk_flags s" using payload_simps(3) by metis
    then show ?thesis using Some s'(1) by (simp add: counted_def has_flag_def)
  qed
qed

lemma inserted_net:
  assumes "inserted c0 xs c a s" "net_inv c0 xs" "\<not> invalid_desc (set_flag SVZ_SOFLG_ENQUEUED s)"
  shows "world_inv c (xs @ [a])" "\<forall>b\<in>set (xs @ [a]). valid c b"
    "filter (counted c) (xs @ [a]) = filter (counted c0) xs @ (if has_flag s SVZ_SOFLG_SOCK \<and> has_flag s SVZ_SOFLG_CONNECTED then [a] else [])"
    "svz_sock_connections c = svz_sock_connections c0"
proof -
  show "world_inv c (xs @ [a])" "svz_sock_connections c = svz_sock_connections c0" using assms(1) by (simp_all add: inserted_def)
  have pay: "same_payload c0 c (- {a})" and a0: "heap c0 a = None" using assms(1) by (simp_all add: inserted_def)
  obtain t where t: "heap c a = Some t" "payload t = payload (set_flag SVZ_SOFLG_ENQUEUED s)" using assms(1) by (auto simp: inserted_def)
  have fl: "sk_flags t = sk_flags (set_flag SVZ_SOFLG_ENQUEUED s)" using t(2) by (metis payload_simps(3))
  have ne: "b \<in> - {a}" if "b \<in> set xs" for b using world_alloc [of c0 xs b] assms(2) that a0 by (auto simp: net_inv_def)
  have "invalid_desc t = invalid_desc (set_flag SVZ_SOFLG_ENQUEUED s)" using t(2) by (metis invalid_desc_payload)
  then have "valid c a" using assms(3) t(1) by (simp add: valid_def)
  moreover have "valid c b" if "b \<in> set xs" for b
    using same_payload_views [OF pay ne [OF that]] assms(2) that by (simp add: net_inv_def)
  ultimately show "\<forall>b\<in>set (xs @ [a]). valid c b" by auto
  have "filter (counted c) xs = filter (counted c0) xs"
    by (rule filter_cong) (simp_all add: same_payload_counted [OF pay ne])
  moreover have "SVZ_SOFLG_ENQUEUED AND SVZ_SOFLG_SOCK = 0" "SVZ_SOFLG_ENQUEUED AND SVZ_SOFLG_CONNECTED = 0" by (simp_all add: soflg_defs)
  then have "counted c a = (has_flag s SVZ_SOFLG_SOCK \<and> has_flag s SVZ_SOFLG_CONNECTED)"
    using t(1) fl by (simp add: counted_def has_flag_def set_flag_def or_disjoint)
  ultimately show "filter (counted c) (xs @ [a]) = filter (counted c0) xs @ (if has_flag s SVZ_SOFLG_SOCK \<and> has_flag s SVZ_SOFLG_CONNECTED then [a] else [])"
    by simp
qed

lemma v4_host_inet [simp]: "v4_host (inet_address ip) = Some ip"
  by (simp add: v4_host_def svz_address_family_def) (simp add: inet_address_def)

lemma connect_returns: "\<exists>r w'. svz_socket_connect sy fd (inet_address ip) port w = Some (r, w')"
  by (simp add: svz_socket_connect_def split: prod.splits)

lemma alloc_sock_eq: "alloc_sock sy st = (a, st') \<Longrightarrow> a = sy_fresh sy (ns_core st) \<and>
   st' = st\<lparr>ns_core := (ns_core st)\<lparr>heap := (heap (ns_core st))(a \<mapsto> svz_sock_alloc (os_time (sy_os sy) (ns_world st)))\<rparr>\<rparr>"
  by (auto simp: alloc_sock_def Let_def)

lemma alloc_flags: "sk_flags (svz_sock_alloc now) = 3" "\<not> has_flag (svz_sock_alloc now) SVZ_SOFLG_ENQUEUED"
  by (simp_all add: svz_sock_alloc_def soflg_defs has_flag_def)

text \<open>The steps of the connecting functions on the whole state.\<close>

lemma ns_simps [simp]: "ns_core (st\<lparr>ns_world := w\<rparr>) = ns_core st" "ns_core (st\<lparr>ns_core := c\<rparr>) = c"
  by simp_all

lemma tweaks_flags:
  "f AND SVZ_SOFLG_ENQUEUED = 0 \<Longrightarrow> tweaks s (set_flag f s)" "f AND SVZ_SOFLG_ENQUEUED = 0 \<Longrightarrow> tweaks s (clear_flag f s)"
  by (simp_all add: tweaks_def ident_def set_flag_def clear_flag_def has_flag_def or_disjoint and_not_disjoint)

lemma tweaks_trans: "tweaks s t \<Longrightarrow> tweaks t u \<Longrightarrow> tweaks s u"
  by (simp add: tweaks_def)

lemma tweaks_intern: "tweaks s (intern_info sy st s)"
  by (auto simp: tweaks_def ident_def intern_info_def svz_sock_intern_connection_info_def has_flag_def split: prod.splits)

lemma socket_valid:
  assumes "sk_flags s AND SVZ_SOFLG_PIPE = 0" "sk_sock_desc s \<noteq> -1"
    "sk_flags s AND (SVZ_SOFLG_LISTENING OR SVZ_SOFLG_CONNECTED OR SVZ_SOFLG_CONNECTING) \<noteq> 0"
  shows "\<not> invalid_desc s" "\<not> invalid_desc (set_flag SVZ_SOFLG_ENQUEUED s)"
proof -
  show "\<not> invalid_desc s" using assms by (simp add: invalid_desc_def validate_sock_def has_flag_def)
  have "SVZ_SOFLG_ENQUEUED AND SVZ_SOFLG_PIPE = 0"
    "SVZ_SOFLG_ENQUEUED AND (SVZ_SOFLG_LISTENING OR SVZ_SOFLG_CONNECTED OR SVZ_SOFLG_CONNECTING) = 0" by (simp_all add: soflg_defs)
  then show "\<not> invalid_desc (set_flag SVZ_SOFLG_ENQUEUED s)"
    using assms by (simp add: invalid_desc_def validate_sock_def has_flag_def set_flag_def or_disjoint)
qed

lemma new_listed:
  assumes "net_inv c xs" "heap c a = None" "\<not> has_flag s SVZ_SOFLG_ENQUEUED" "ns_core st = c\<lparr>heap := (heap c)(a \<mapsto> s)\<rparr>"
    and "\<And>s. tweaks s (f s)"
    and "\<And>i v. \<not> invalid_desc (f (s\<lparr>sk_id := i, sk_version := v\<rparr>))"
  shows "\<exists>i st1 st2 st3. unique_id a st = Some st1 \<and> upd_sock a f st1 = Some st2 \<and> enqueue a st2 = Some st3
     \<and> st3 = st\<lparr>ns_core := ns_core st3\<rparr> \<and> inserted c xs (ns_core st3) a (f (s\<lparr>sk_id := i, sk_version := sock_version c\<rparr>))"
proof -
  from assms(1) have "world_inv c xs" by (simp add: net_inv_def)
  from making_start [OF this assms(2,3)] obtain i c1 where c1: "svz_sock_unique_id (ns_core st) a = Some (i, c1)"
      "making c xs c1 a (s\<lparr>sk_id := i, sk_version := sock_version c\<rparr>)" by (auto simp: assms(4))
  from making_upd [OF c1(2), where f = f, OF assms(5)] obtain c2 where c2: "upd c1 a f = Some c2"
      "making c xs c2 a (f (s\<lparr>sk_id := i, sk_version := sock_version c\<rparr>))" by blast
  from making_enqueue [OF c2(2) assms(6)] obtain c3 where c3: "svz_sock_enqueue c2 a = Some (0, c3)"
      "inserted c xs c3 a (f (s\<lparr>sk_id := i, sk_version := sock_version c\<rparr>))" by blast
  show ?thesis
    using c1(1) c2(1) c3 by (auto simp: unique_id_def upd_sock_def enqueue_def with_core_def)
qed

lemma payload_eq: "payload t = payload u \<Longrightarrow> t = u\<lparr>sk_next := sk_next t, sk_prev := sk_prev t\<rparr>"
  by (cases t; cases u) (simp add: payload_def)

text \<open>
  C38. Starting a TCP connection, \<^verbatim>\<open>svz_tcp_connect\<close>, in a consistent state with a free address: it returns; when one of the
  system calls fails the socket list is as before; else the new socket is the last one on the list, in state connecting with
  the new descriptor and \<^verbatim>\<open>tcp_default_connect\<close> as its callback, the other sockets are unchanged, and the state is consistent again, the
  connection not being counted yet.
\<close>

theorem tcp_connect_enqueues:
  assumes "net_inv (ns_core st) xs" "heap (ns_core st) (sy_fresh sy (ns_core st)) = None"
  shows "\<exists>r st'. svz_tcp_connect sy (inet_address ip) port st = Some (r, st')
     \<and> (case r of
          None \<Rightarrow> ns_core st' = ns_core st
        | Some a \<Rightarrow> a = sy_fresh sy (ns_core st) \<and> net_inv (ns_core st') (xs @ [a])
            \<and> same_payload (ns_core st) (ns_core st') (- {a})
            \<and> (\<exists>s. heap (ns_core st') a = Some s \<and> has_flag s SVZ_SOFLG_CONNECTING \<and> \<not> has_flag s SVZ_SOFLG_CONNECTED
                 \<and> sk_connected_socket s = Some ''tcp_default_connect''
                 \<and> sk_sock_desc s = fst (svz_socket_create sy SVZ_PROTO_TCP (ns_world st)))
            \<and> svz_sock_connections (ns_core st') = svz_sock_connections (ns_core st))"
proof -
  obtain fd w where fd: "svz_socket_create sy SVZ_PROTO_TCP (ns_world st) = (fd, w)" by fastforce
  obtain r w' where con: "svz_socket_connect sy fd (inet_address ip) port w = Some (r, w')"
    using connect_returns [of sy fd ip port w] by auto
  show ?thesis
  proof (cases "fd = -1 \<or> r = -1")
    case True
    then show ?thesis by (auto simp: svz_tcp_connect_def fd con)
  next
    case False
    let ?a = "sy_fresh sy (ns_core st)" and ?n = "svz_sock_alloc (os_time (sy_os sy) w')"
    obtain st1 where st1: "alloc_sock sy (st\<lparr>ns_world := w'\<rparr>) = (?a, st1)" "ns_core st1 = (ns_core st)\<lparr>heap := (heap (ns_core st))(?a \<mapsto> ?n)\<rparr>"
      by (auto simp: alloc_sock_def Let_def)
    let ?f = "\<lambda>s. set_flag (SVZ_SOFLG_SOCK OR SVZ_SOFLG_CONNECTING) (s\<lparr>sk_sock_desc := fd, sk_proto := SVZ_PROTO_TCP,
      sk_connected_socket := Some ''tcp_default_connect'', sk_check_request := CR_NULL\<rparr>)"
    have tw: "tweaks s (?f s)" for s
      by (rule tweaks_trans [OF _ tweaks_flags(1)]) (simp_all add: tweaks_def ident_def has_flag_def soflg_defs)
    have fl: "sk_flags (?f (?n\<lparr>sk_id := i, sk_version := v\<rparr>)) = 0x3003" for i v by (simp add: set_flag_def alloc_flags soflg_defs)
    have val: "\<not> invalid_desc (?f (?n\<lparr>sk_id := i, sk_version := v\<rparr>))"
      "\<not> invalid_desc (set_flag SVZ_SOFLG_ENQUEUED (?f (?n\<lparr>sk_id := i, sk_version := v\<rparr>)))" for i v
      using False by (intro socket_valid; simp only: fl; simp add: soflg_defs set_flag_def)+
    from new_listed [OF assms alloc_flags(2) st1(2) tw val(1)] obtain i st2 st3 st4 where
      st4: "unique_id ?a st1 = Some st2" "upd_sock ?a ?f st2 = Some st3" "enqueue ?a st3 = Some st4"
        "inserted (ns_core st) xs (ns_core st4) ?a (?f (?n\<lparr>sk_id := i, sk_version := sock_version (ns_core st)\<rparr>))" by blast
    let ?s = "?f (?n\<lparr>sk_id := i, sk_version := sock_version (ns_core st)\<rparr>)"
    have res: "svz_tcp_connect sy (inet_address ip) port st = Some (Some ?a, st4)"
      using False st4(1-3) by (simp add: svz_tcp_connect_def fd con st1)
    have "\<not> (has_flag ?s SVZ_SOFLG_SOCK \<and> has_flag ?s SVZ_SOFLG_CONNECTED)" unfolding has_flag_def fl by (simp add: soflg_defs)
    then have inv: "net_inv (ns_core st4) (xs @ [?a])" "svz_sock_connections (ns_core st4) = svz_sock_connections (ns_core st)"
      using inserted_net [OF st4(4) assms(1) val(2)] assms(1) by (simp_all add: net_inv_def)
    obtain t where t: "heap (ns_core st4) ?a = Some t" "payload t = payload (set_flag SVZ_SOFLG_ENQUEUED ?s)"
      using st4(4) by (auto simp: inserted_def)
    have "has_flag t SVZ_SOFLG_CONNECTING \<and> \<not> has_flag t SVZ_SOFLG_CONNECTED
        \<and> sk_connected_socket t = Some ''tcp_default_connect'' \<and> sk_sock_desc t = fd"
      by (subst (1 2 3 4) payload_eq [OF t(2)]) (simp add: has_flag_def set_flag_def alloc_flags soflg_defs)
    then show ?thesis using res inv t(1) st4(4) by (auto simp: fd inserted_def)
  qed
qed

text \<open>Operations that leave the counter and the sockets it counts alone.\<close>

definition same_count :: "core \<Rightarrow> core \<Rightarrow> bool" where
  "same_count c c' \<longleftrightarrow> svz_sock_connections c' = svz_sock_connections c \<and> (\<forall>b. counted c' b = counted c b)"

lemma same_count_refl [simp]: "same_count c c"
  by (simp add: same_count_def)

lemma same_count_trans: "same_count c d \<Longrightarrow> same_count d e \<Longrightarrow> same_count c e"
  by (simp add: same_count_def)

definition plain :: "(svz_socket \<Rightarrow> svz_socket) \<Rightarrow> bool" where
  "plain f \<longleftrightarrow> (\<forall>s. has_flag (f s) SVZ_SOFLG_SOCK = has_flag s SVZ_SOFLG_SOCK \<and> has_flag (f s) SVZ_SOFLG_CONNECTED = has_flag s SVZ_SOFLG_CONNECTED)"

lemma plain_flags: "(\<And>s. sk_flags (f s) = sk_flags s) \<Longrightarrow> plain f"
  by (simp add: plain_def has_flag_def)

lemma plain_set: "g AND SVZ_SOFLG_SOCK = 0 \<Longrightarrow> g AND SVZ_SOFLG_CONNECTED = 0 \<Longrightarrow> plain (set_flag g) \<and> plain (clear_flag g)"
  by (simp add: plain_def has_flag_def set_flag_def clear_flag_def or_disjoint and_not_disjoint)

lemma plain_marks: "plain (clear_flag SVZ_SOFLG_ENQUEUED)" "plain (clear_flag SVZ_SOFLG_INITED)" "plain (set_flag SVZ_SOFLG_KILLED)"
  using plain_set [of SVZ_SOFLG_ENQUEUED] plain_set [of SVZ_SOFLG_INITED] plain_set [of SVZ_SOFLG_KILLED] by (simp_all add: soflg_defs)

lemma upd_same_count:
  assumes "plain f" "upd c a f = Some c'"
  shows "same_count c c'"
proof -
  obtain s where s: "heap c a = Some s" "c' = c\<lparr>heap := (heap c)(a \<mapsto> f s)\<rparr>" using assms(2) by (auto simp: upd_def)
  have "counted c' b = counted c b" for b using s assms(1) by (cases "b = a") (simp_all add: counted_def plain_def)
  then show ?thesis using s(2) by (simp add: same_count_def)
qed

lemma upd_keep_flags: "upd c a f = Some c' \<Longrightarrow> (\<And>s. sk_flags (f s) = sk_flags s) \<Longrightarrow> same_count c c'"
  by (rule upd_same_count [OF plain_flags])

lemma same_count_links [simp]:
  "same_count c (d\<lparr>last_socket := l\<rparr>) = same_count c d" "same_count c (d\<lparr>svz_sock_root := l\<rparr>) = same_count c d"
  "same_count c (d\<lparr>socktab := t\<rparr>) = same_count c d"
  by (simp_all add: same_count_def counted_def)

lemma tab_set_same_count: "tab_set c i v = Some c' \<Longrightarrow> same_count c c'"
  by (auto simp: tab_set_def split: if_splits)

lemma dequeue_same_count:
  assumes "dequeue c a = Some (r, c')"
  shows "same_count c c'"
proof -
  obtain s where s: "heap c a = Some s" using assms by (auto simp: dequeue_def)
  show ?thesis
  proof (cases "c' = c")
    case False
    then obtain c1 c2 c3 where
      1: "(case sk_next s of Some n \<Rightarrow> upd c n (\<lambda>s'. s'\<lparr>sk_prev := sk_prev s\<rparr>) | None \<Rightarrow> Some (c\<lparr>last_socket := sk_prev s\<rparr>)) = Some c1"
      and 2: "(case sk_prev s of Some p \<Rightarrow> upd c1 p (\<lambda>s'. s'\<lparr>sk_next := sk_next s\<rparr>) | None \<Rightarrow> Some (c1\<lparr>svz_sock_root := sk_next s\<rparr>)) = Some c2"
      and 3: "upd c2 a (clear_flag SVZ_SOFLG_ENQUEUED) = Some c3" and 4: "tab_set c3 (sk_id s) None = Some c'"
      using assms by (auto simp: dequeue_def s split: if_splits elim!: bind_SomeE)
    have "same_count c c1" using 1 by (cases "sk_next s") (auto elim: upd_keep_flags)
    moreover have "same_count c1 c2" using 2 by (cases "sk_prev s") (auto elim: upd_keep_flags)
    moreover note upd_same_count [OF plain_marks(1) 3] tab_set_same_count [OF 4]
    ultimately show ?thesis using same_count_trans by blast
  qed simp
qed

lemma setreferrer_same_count: "svz_sock_setreferrer c a r = Some c' \<Longrightarrow> same_count c c'"
  by (cases r) (auto simp: svz_sock_setreferrer_def elim!: bind_SomeE upd_keep_flags)

lemma pipe_disconnect_same_count:
  assumes "svz_pipe_disconnect c a = Some c'"
  shows "same_count c c'"
proof -
  have inval: "same_count d d'" if "upd d a (\<lambda>s. s\<lparr>sk_pipe_read := -1, sk_pipe_write := -1\<rparr>) = Some d'" for d d'
    using that by (rule upd_keep_flags) simp
  have reset: "same_count d d'" if "(case r of Some r \<Rightarrow> do { c \<leftarrow> upd d r (clear_flag SVZ_SOFLG_INITED); svz_sock_setreferrer c r None } | None \<Rightarrow> Some d) = Some d'" for d d' r
    using that by (cases r) (auto elim!: bind_SomeE dest!: upd_same_count [OF plain_marks(2)] setreferrer_same_count intro: same_count_trans)
  have clear: "same_count d d'" if "(case r of Some r \<Rightarrow> svz_sock_setreferrer d r None | None \<Rightarrow> Some d) = Some d'" for d d' r
    using that by (cases r) (auto dest!: setreferrer_same_count)
  obtain s c1 where s: "heap c a = Some s" and c1: "(if has_flag s SVZ_SOFLG_CONNECTED
           then do {
             rsock \<leftarrow> svz_sock_getreferrer c (Some a);
             c \<leftarrow> (case rsock of
                     Some r \<Rightarrow> do { c \<leftarrow> upd c r (clear_flag SVZ_SOFLG_INITED); svz_sock_setreferrer c r None }
                   | None \<Rightarrow> Some c);
             upd c a (\<lambda>s. s\<lparr>sk_pipe_read := -1, sk_pipe_write := -1\<rparr>)
           }
           else Some c) = Some c1"
    and c': "(if has_flag s SVZ_SOFLG_LISTENING
     then do {
       rsock \<leftarrow> svz_sock_getreferrer c1 (Some a);
       c \<leftarrow> (case rsock of Some r \<Rightarrow> svz_sock_setreferrer c1 r None | None \<Rightarrow> Some c1);
       upd c a (\<lambda>s. s\<lparr>sk_pipe_read := -1, sk_pipe_write := -1\<rparr>)
     }
     else Some c1) = Some c'"
    using assms unfolding svz_pipe_disconnect_def by (elim bind_SomeE)
  have "same_count c c1"
    using c1 by (cases "has_flag s SVZ_SOFLG_CONNECTED") (auto elim!: bind_SomeE dest!: reset inval intro: same_count_trans)
  moreover have "same_count c1 c'"
    using c' by (cases "has_flag s SVZ_SOFLG_LISTENING") (auto elim!: bind_SomeE dest!: clear inval intro: same_count_trans)
  ultimately show ?thesis by (rule same_count_trans)
qed

lemma kill_ext_same_count:
  assumes "kill_ext c c'"
  shows "same_count c c'"
proof -
  have "counted c' b = counted c b" for b
  proof (cases "heap c b")
    case None
    then show ?thesis using kill_ext_None [OF assms] by (simp add: counted_def)
  next
    case (Some s)
    then show ?thesis using kill_ext_heap [OF assms Some] plain_marks(3) by (elim disjE) (simp_all add: counted_def plain_def)
  qed
  then show ?thesis using kill_ext_core(7) [OF assms] by (simp add: same_count_def)
qed

lemma filter_toggle:
  "distinct xs \<Longrightarrow> a \<in> set xs \<Longrightarrow> (\<And>b. b \<noteq> a \<Longrightarrow> P' b = P b) \<Longrightarrow> \<not> P a \<Longrightarrow> P' a \<Longrightarrow>
     length (filter P' xs) = Suc (length (filter P xs))"
proof (induction xs)
  case (Cons x xs)
  show ?case
  proof (cases "x = a")
    case True
    have "b \<noteq> a" if "b \<in> set xs" for b using that Cons.prems(1) True by auto
    then have "filter P' xs = filter P xs" by (intro filter_cong refl) (rule Cons.prems(3))
    with True Cons.prems show ?thesis by simp
  next
    case False
    then show ?thesis using Cons by auto
  qed
qed simp

lemma filter_remove:
  "distinct xs \<Longrightarrow> a \<in> set xs \<Longrightarrow> length (filter P xs) = length (filter P (remove1 a xs)) + (if P a then 1 else 0)"
  by (induction xs) auto

text \<open>What \<^verbatim>\<open>svz_sock_shutdown\<close> does to the counter.\<close>

lemma shutdown_count:
  assumes "core_inv c xs" "disc_ok disc" "svz_sock_shutdown disc c a = Some c'"
  shows "svz_sock_connections c' = svz_sock_connections c - (if counted c a then 1 else 0)
     \<and> (\<forall>b. b \<noteq> a \<longrightarrow> counted c' b = counted c b)"
proof -
  from assms(3) obtain c1 r c2 s c3 c4 where
    1: "disc a c = Some c1" "dequeue c1 a = Some (r, c2)" "heap c2 a = Some s"
      "(if has_flag s SVZ_SOFLG_SOCK then svz_sock_disconnect c2 a else Some c2) = Some c3"
      "(if has_flag s SVZ_SOFLG_PIPE then svz_pipe_disconnect c3 a else Some c3) = Some c4" "c' = c4\<lparr>heap := (heap c4)(a := None)\<rparr>"
    unfolding svz_sock_shutdown_def by (auto elim!: bind_SomeE)
  obtain c1' where "disc a c = Some c1'" "kill_ext c c1'" using assms(1,2) unfolding disc_ok_def by blast
  then have "same_count c c2" using 1(1) kill_ext_same_count dequeue_same_count [OF 1(2)] same_count_trans by simp blast
  moreover have "same_count c3 c4"
    using 1(5) pipe_disconnect_same_count by (cases "has_flag s SVZ_SOFLG_PIPE") auto
  moreover have "(\<forall>b. counted c3 b = counted c2 b)
      \<and> svz_sock_connections c3 = svz_sock_connections c2 - (if counted c2 a then 1 else 0)"
  proof (cases "has_flag s SVZ_SOFLG_SOCK")
    case False
    then show ?thesis using 1(3,4) by (simp add: counted_def)
  next
    case True
    let ?d = "if has_flag s SVZ_SOFLG_CONNECTED then c2\<lparr>svz_sock_connections := svz_sock_connections c2 - 1\<rparr> else c2"
    have "upd ?d a (\<lambda>s. s\<lparr>sk_sock_desc := -1\<rparr>) = Some c3" using 1(3,4) True by (simp add: svz_sock_disconnect_def)
    then have "same_count ?d c3" by (rule upd_keep_flags) simp
    moreover have "counted ?d b = counted c2 b" for b by (simp add: counted_def)
    moreover have "counted c2 a = has_flag s SVZ_SOFLG_CONNECTED" using True 1(3) by (simp add: counted_def)
    ultimately show ?thesis by (simp add: same_count_def)
  qed
  moreover have "counted c' b = counted c4 b" if "b \<noteq> a" for b using that by (simp add: 1(6) counted_def)
  ultimately show ?thesis by (simp add: same_count_def 1(6))
qed

lemma net_shutdown:
  assumes "net_inv c xs" "a \<in> set xs" "disc_ok disc"
  shows "\<exists>c'. svz_sock_shutdown disc c a = Some c' \<and> net_inv c' (remove1 a xs)"
proof -
  have w: "world_inv c xs" "valid c a" "core_inv c xs" using assms(1,2) by (auto simp: net_inv_def world_inv_def)
  from shutdown_inv [OF w(3) assms(2) w(2) assms(3)] obtain c' where c': "svz_sock_shutdown disc c a = Some c'"
      "\<forall>b \<in> set (remove1 a xs). valid c' b = valid c b" by blast
  note n = shutdown_count [OF w(3) assms(3) c'(1)]
  have d: "distinct xs" by (rule world_distinct [OF w(1)])
  have "filter (counted c') (remove1 a xs) = filter (counted c) (remove1 a xs)" using n d by (intro filter_cong) auto
  moreover have "world_inv c' (remove1 a xs)" using world_step_shutdown [OF w(1) assms(2) w(2) assms(3) c'(1)] by simp
  moreover have "\<forall>b\<in>set (remove1 a xs). valid c' b" using c'(2) assms(1) d by (auto simp: net_inv_def)
  ultimately have "net_inv c' (remove1 a xs)"
    using n filter_remove [OF d assms(2), of "counted c"] assms(1) by (simp add: net_inv_def)
  then show ?thesis using c'(1) by blast
qed

lemma net_kill:
  assumes "net_inv c xs" "kill_ext c c'"
  shows "net_inv c' xs"
  using assms world_kill_ext [of c xs c'] kill_ext_same_count [OF assms(2)] kill_ext_valid [OF assms(2)]
  by (auto simp: net_inv_def same_count_def cong: filter_cong)

lemma connected_mask: "(x :: u32) AND SVZ_SOFLG_CONNECTED \<noteq> 0 \<Longrightarrow> x AND (SVZ_SOFLG_LISTENING OR SVZ_SOFLG_CONNECTED OR SVZ_SOFLG_CONNECTING) \<noteq> 0"
  by (simp add: bit.conj_disj_distrib or_eq_0_iff)

lemma world_inv_count: "world_inv (c\<lparr>svz_sock_connections := n\<rparr>) xs = world_inv c xs"
  by (simp add: world_inv_def core_inv_def chain_def tab_ok_def tab_get_def)

lemma net_inv_count:
  "net_inv (c\<lparr>svz_sock_connections := n\<rparr>) xs \<longleftrightarrow> world_inv c xs \<and> (\<forall>b\<in>set xs. valid c b) \<and> n = int (length (filter (counted c) xs))"
proof -
  have "counted (c\<lparr>svz_sock_connections := n\<rparr>) = counted c" "valid (c\<lparr>svz_sock_connections := n\<rparr>) = valid c"
    by (simp_all add: fun_eq_iff counted_def valid_def)
  then show ?thesis by (simp add: net_inv_def world_inv_count)
qed

text \<open>\<^verbatim>\<open>tcp_default_connect\<close> on a listed socket that is connecting.\<close>

lemma net_tcp_connected:
  assumes "net_inv (ns_core st) xs" "a \<in> set xs" "heap (ns_core st) a = Some s"
    "has_flag s SVZ_SOFLG_SOCK" "\<not> has_flag s SVZ_SOFLG_CONNECTED" "sk_flags s AND SVZ_SOFLG_PIPE = 0"
  shows "\<exists>r st'. tcp_default_connect sy a st = Some (r, st') \<and> net_inv (ns_core st') xs
     \<and> (r = 0 \<and> sy_so_error sy (sk_sock_desc s) (ns_world st) = (0, 0) \<longrightarrow> counted (ns_core st') a)"
proof -
  obtain q e where q: "sy_so_error sy (sk_sock_desc s) (ns_world st) = (q, e)" by fastforce
  show ?thesis
  proof (cases "q < 0 \<or> e \<noteq> 0")
    case True
    then show ?thesis using assms(1,3) by (auto simp: tcp_default_connect_def the_sock_def q)
  next
    case False
    let ?f = "\<lambda>s. intern_info sy st (clear_flag SVZ_SOFLG_CONNECTING (set_flag SVZ_SOFLG_CONNECTED s))"
    let ?c = "(ns_core st)\<lparr>heap := (heap (ns_core st))(a \<mapsto> ?f s)\<rparr>"
    have fl: "sk_flags (?f s) = (sk_flags s OR SVZ_SOFLG_CONNECTED) AND NOT SVZ_SOFLG_CONNECTING"
      "sk_sock_desc (?f s) = sk_sock_desc s"
      by (simp_all add: intern_info_def svz_sock_intern_connection_info_def clear_flag_def set_flag_def Let_def split: prod.splits)
    have w: "world_inv (ns_core st) xs" and v: "\<not> invalid_desc s" using assms(1-3) by (auto simp: net_inv_def valid_def)
    have "tweaks s (?f s)"
      by (intro tweaks_trans [OF _ tweaks_intern] tweaks_trans [OF tweaks_flags(1) tweaks_flags(2)]) (simp_all add: soflg_defs)
    from world_step_tweak [OF w assms(3) this] have w': "world_inv ?c xs" by simp
    have flag: "has_flag (?f s) g = has_flag (set_flag SVZ_SOFLG_CONNECTED s) g" if "SVZ_SOFLG_CONNECTING AND g = 0" for g
      unfolding has_flag_def fl using that by (simp add: set_flag_def and_not_disjoint)
    have sk: "has_flag (?f s) SVZ_SOFLG_SOCK" "has_flag (?f s) SVZ_SOFLG_CONNECTED" "\<not> has_flag (?f s) SVZ_SOFLG_PIPE"
      using assms(4,6) flag [of SVZ_SOFLG_SOCK] flag [of SVZ_SOFLG_CONNECTED] flag [of SVZ_SOFLG_PIPE]
        or_disjoint [of SVZ_SOFLG_CONNECTED SVZ_SOFLG_SOCK "sk_flags s"] or_disjoint [of SVZ_SOFLG_CONNECTED SVZ_SOFLG_PIPE "sk_flags s"]
        set_flag_self [of SVZ_SOFLG_CONNECTED s]
      by (simp_all add: soflg_defs has_flag_def set_flag_def)
    have "sk_sock_desc s \<noteq> -1" using v assms(4) by (auto simp: invalid_desc_def validate_sock_def split: if_splits)
    then have "\<not> invalid_desc (?f s)"
      using sk connected_mask by (intro socket_valid(1)) (simp_all add: fl(2) has_flag_def)
    then have val: "\<forall>b\<in>set xs. valid ?c b" using assms(1) by (auto simp: net_inv_def valid_def)
    have "length (filter (counted ?c) xs) = Suc (length (filter (counted (ns_core st)) xs))"
      by (rule filter_toggle [OF world_distinct [OF w] assms(2)]) (use assms(3-5) sk in \<open>simp_all add: counted_def\<close>)
    then have "net_inv (ns_core (count_connection (st\<lparr>ns_core := ?c\<rparr>))) xs"
      using assms(1) w' val unfolding count_connection_def ns_simps net_inv_count by (simp add: net_inv_def)
    moreover have "tcp_default_connect sy a st = Some (0, count_connection (st\<lparr>ns_core := ?c\<rparr>))"
      using False assms(3) by (simp add: tcp_default_connect_def the_sock_def q upd_sock_def with_core_def upd_def)
    moreover have "counted (ns_core (count_connection (st\<lparr>ns_core := ?c\<rparr>))) a" using sk by (simp add: counted_def count_connection_def)
    ultimately show ?thesis by blast
  qed
qed

text \<open>Changes that touch neither links nor flags nor descriptors.\<close>

definition keeps :: "(svz_socket \<Rightarrow> svz_socket) \<Rightarrow> bool" where
  "keeps f \<longleftrightarrow> (\<forall>s. sk_next (f s) = sk_next s \<and> sk_prev (f s) = sk_prev s \<and> sk_id (f s) = sk_id s \<and> sk_version (f s) = sk_version s
     \<and> sk_flags (f s) = sk_flags s \<and> sk_sock_desc (f s) = sk_sock_desc s
     \<and> sk_pipe_read (f s) = sk_pipe_read s \<and> sk_pipe_write (f s) = sk_pipe_write s)"

lemma keeps_upd:
  assumes "keeps f" "world_inv c xs" "heap c a = Some s"
  shows "\<exists>c'. upd c a f = Some c' \<and> world_inv c' xs \<and> (\<forall>b. valid c' b = valid c b) \<and> same_count c c' \<and> c' = c\<lparr>heap := (heap c)(a \<mapsto> f s)\<rparr>"
proof -
  let ?c = "c\<lparr>heap := (heap c)(a \<mapsto> f s)\<rparr>"
  have u: "upd c a f = Some ?c" using assms(3) by (simp add: upd_def)
  have "tweaks s (f s)" using assms(1) by (simp add: keeps_def tweaks_def ident_def has_flag_def)
  from world_step_tweak [OF assms(2,3) this] have "world_inv ?c xs" by simp
  moreover have "invalid_desc (f s) = invalid_desc s" using assms(1) by (intro invalid_desc_cong) (simp_all add: keeps_def)
  then have "\<forall>b. valid ?c b = valid c b" using assms(3) by (simp add: valid_def)
  moreover have "same_count c ?c" using assms(1) by (intro upd_keep_flags [OF u]) (simp add: keeps_def)
  ultimately show ?thesis using u by blast
qed

lemma resize_alloc:
  assumes "0 < n"
  shows "\<exists>s. svz_sock_resize_buffers (svz_sock_alloc now) n n = Some s \<and> sk_flags s = 3"
  using assms by (auto simp: svz_sock_resize_buffers_def resize_block_def svz_sock_alloc_def soflg_defs SEND_BUF_SIZE_def RECV_BUF_SIZE_def)

lemma net_udp_connect:
  assumes "net_inv (ns_core st) xs" "heap (ns_core st) (sy_fresh sy (ns_core st)) = None"
  shows "\<exists>r st'. svz_udp_connect sy (inet_address ip) port st = Some (r, st')
     \<and> (case r of None \<Rightarrow> ns_core st' = ns_core st
        | Some a \<Rightarrow> a = sy_fresh sy (ns_core st) \<and> net_inv (ns_core st') (xs @ [a]) \<and> counted (ns_core st') a)"
proof -
  obtain fd w where fd: "svz_socket_create sy SVZ_PROTO_UDP (ns_world st) = (fd, w)" by fastforce
  obtain r w' where con: "svz_socket_connect sy fd (inet_address ip) port w = Some (r, w')"
    using connect_returns [of sy fd ip port w] by auto
  show ?thesis
  proof (cases "fd = -1 \<or> r = -1")
    case True
    then show ?thesis by (auto simp: svz_udp_connect_def fd con)
  next
    case False
    let ?c = "ns_core st" and ?a = "sy_fresh sy (ns_core st)" and ?n = "svz_sock_alloc (os_time (sy_os sy) w')"
    obtain n where n: "svz_sock_resize_buffers ?n SVZ_UDP_BUF_SIZE SVZ_UDP_BUF_SIZE = Some n" "sk_flags n = 3"
      using resize_alloc [of SVZ_UDP_BUF_SIZE] by (auto simp: SVZ_UDP_BUF_SIZE_def)
    obtain st1 where st1: "alloc_sock sy (st\<lparr>ns_world := w'\<rparr>) = (?a, st1)" "ns_core st1 = ?c\<lparr>heap := (heap ?c)(?a \<mapsto> ?n)\<rparr>"
      by (auto simp: alloc_sock_def Let_def)
    obtain st2 where st2: "resize_sock ?a SVZ_UDP_BUF_SIZE SVZ_UDP_BUF_SIZE st1 = Some st2" "ns_core st2 = ?c\<lparr>heap := (heap ?c)(?a \<mapsto> n)\<rparr>"
      by (auto simp: resize_sock_def the_sock_def upd_sock_def with_core_def upd_def st1 n)
    let ?f = "\<lambda>s. set_flag (SVZ_SOFLG_SOCK OR SVZ_SOFLG_CONNECTED OR SVZ_SOFLG_FIXED) (s\<lparr>sk_sock_desc := fd, sk_proto := SVZ_PROTO_UDP\<rparr>)"
    have tw: "tweaks s (?f s)" for s
      by (rule tweaks_trans [OF _ tweaks_flags(1)]) (simp_all add: tweaks_def ident_def has_flag_def soflg_defs)
    have fl: "sk_flags (?f (n\<lparr>sk_id := i, sk_version := v\<rparr>)) = 0x9007" for i v by (simp add: set_flag_def n(2) soflg_defs)
    have val: "\<not> invalid_desc (?f (n\<lparr>sk_id := i, sk_version := v\<rparr>))"
      "\<not> invalid_desc (set_flag SVZ_SOFLG_ENQUEUED (?f (n\<lparr>sk_id := i, sk_version := v\<rparr>)))" for i v
      using False by (intro socket_valid; simp only: fl; simp add: soflg_defs set_flag_def)+
    have "\<not> has_flag n SVZ_SOFLG_ENQUEUED" by (simp add: has_flag_def n(2) soflg_defs)
    from new_listed [OF assms this st2(2) tw val(1)] obtain i st3 st4 st5 where
      st5: "unique_id ?a st2 = Some st3" "upd_sock ?a ?f st3 = Some st4" "enqueue ?a st4 = Some st5"
        "inserted ?c xs (ns_core st5) ?a (?f (n\<lparr>sk_id := i, sk_version := sock_version ?c\<rparr>))" by blast
    let ?s = "?f (n\<lparr>sk_id := i, sk_version := sock_version ?c\<rparr>)"
    note ins = inserted_net [OF st5(4) assms(1) val(2)]
    have sk: "has_flag ?s SVZ_SOFLG_SOCK \<and> has_flag ?s SVZ_SOFLG_CONNECTED" unfolding has_flag_def fl by (simp add: soflg_defs)
    obtain t where t: "heap (ns_core st5) ?a = Some t" using st5(4) by (auto simp: inserted_def)
    let ?g = "\<lambda>s. (intern_info sy st5 s)\<lparr>sk_read_socket := Some ''udp_read_socket'',
           sk_write_socket := WS_other ''svz_udp_write_socket'', sk_check_request := CR_other ''svz_udp_check_request''\<rparr>"
    have "keeps ?g" by (auto simp: keeps_def intern_info_def svz_sock_intern_connection_info_def split: prod.splits)
    from keeps_upd [OF this ins(1) t] obtain c6 where c6: "upd (ns_core st5) ?a ?g = Some c6" "world_inv c6 (xs @ [?a])"
        "\<forall>b. valid c6 b = valid (ns_core st5) b" "same_count (ns_core st5) c6" by blast
    have g: "upd_sock ?a ?g st5 = Some (st5\<lparr>ns_core := c6\<rparr>)" using c6(1) by (simp add: upd_sock_def with_core_def)
    have "svz_udp_connect sy (inet_address ip) port st = Some (Some ?a, count_connection (st5\<lparr>ns_core := c6\<rparr>))"
      using False st5(1-3) g by (simp add: svz_udp_connect_def fd con st1 st2)
    moreover have f6: "filter (counted c6) (xs @ [?a]) = filter (counted (ns_core st5)) (xs @ [?a])"
      using c6(4) by (intro filter_cong) (simp_all add: same_count_def)
    then have "net_inv (ns_core (count_connection (st5\<lparr>ns_core := c6\<rparr>))) (xs @ [?a])"
      using ins sk c6(2,3,4) assms(1) unfolding count_connection_def ns_simps net_inv_count by (simp add: net_inv_def same_count_def)
    moreover have "?a \<in> set (filter (counted c6) (xs @ [?a]))" unfolding f6 ins(3) using sk by simp
    then have "counted c6 ?a" by (simp only: set_filter mem_Collect_eq)
    then have "counted (ns_core (count_connection (st5\<lparr>ns_core := c6\<rparr>))) ?a"
      by (simp add: counted_def count_connection_def)
    ultimately show ?thesis by auto
  qed
qed

subsection \<open>Pipe connections are never uncounted\<close>

lemma pipe_connect_counts:
  assumes "net_inv (ns_core st) xs" "heap (ns_core st) (sy_fresh sy (ns_core st)) = None" "rp \<noteq> -1" "sp \<noteq> -1"
  shows "\<exists>st'. pipe_connect_end sy rp sp st = Some (sy_fresh sy (ns_core st), st')
     \<and> world_inv (ns_core st') (xs @ [sy_fresh sy (ns_core st)]) \<and> valid (ns_core st') (sy_fresh sy (ns_core st))
     \<and> \<not> counted (ns_core st') (sy_fresh sy (ns_core st))
     \<and> svz_sock_connections (ns_core st') = svz_sock_connections (ns_core st) + 1"
proof -
  let ?c = "ns_core st" and ?a = "sy_fresh sy (ns_core st)" and ?n = "svz_sock_alloc (os_time (sy_os sy) (ns_world st))"
  obtain st1 where st1: "alloc_sock sy st = (?a, st1)" "ns_core st1 = ?c\<lparr>heap := (heap ?c)(?a \<mapsto> ?n)\<rparr>"
    by (auto simp: alloc_sock_def Let_def)
  let ?f = "\<lambda>s. set_flag (SVZ_SOFLG_PIPE OR SVZ_SOFLG_CONNECTED) (s\<lparr>sk_pipe_read := rp, sk_pipe_write := sp\<rparr>)"
  have tw: "tweaks s (?f s)" for s
    by (rule tweaks_trans [OF _ tweaks_flags(1)]) (simp_all add: tweaks_def ident_def has_flag_def soflg_defs)
  have fl: "sk_flags (?f (?n\<lparr>sk_id := i, sk_version := v\<rparr>)) = 0x307" for i v by (simp add: set_flag_def alloc_flags soflg_defs)
  have val: "\<not> invalid_desc (?f (?n\<lparr>sk_id := i, sk_version := v\<rparr>))"
    "\<not> invalid_desc (set_flag SVZ_SOFLG_ENQUEUED (?f (?n\<lparr>sk_id := i, sk_version := v\<rparr>)))" for i v
    using assms(3,4) by (simp_all add: invalid_desc_def svz_pipe_valid_def has_flag_def set_flag_def alloc_flags soflg_defs)
  from new_listed [OF assms(1,2) alloc_flags(2) st1(2) tw val(1)] obtain i st2 st3 st4 where
    st4: "unique_id ?a st1 = Some st2" "upd_sock ?a ?f st2 = Some st3" "enqueue ?a st3 = Some st4"
      "inserted ?c xs (ns_core st4) ?a (?f (?n\<lparr>sk_id := i, sk_version := sock_version ?c\<rparr>))" by blast
  let ?s = "?f (?n\<lparr>sk_id := i, sk_version := sock_version ?c\<rparr>)"
  note ins = inserted_net [OF st4(4) assms(1) val(2)]
  have sk: "\<not> has_flag ?s SVZ_SOFLG_SOCK" unfolding has_flag_def fl by (simp add: soflg_defs)
  obtain t where t: "heap (ns_core st4) ?a = Some t" using st4(4) by (auto simp: inserted_def)
  have nx: "?a \<notin> set xs" using world_distinct [OF ins(1)] by simp
  let ?g = "\<lambda>s. s\<lparr>sk_read_socket := Some ''svz_pipe_read_socket'', sk_write_socket := WS_other ''svz_pipe_write_socket''\<rparr>"
  have "keeps ?g" by (simp add: keeps_def)
  from keeps_upd [OF this ins(1) t] obtain c5 where c5: "upd (ns_core st4) ?a ?g = Some c5" "world_inv c5 (xs @ [?a])"
      "\<forall>b. valid c5 b = valid (ns_core st4) b" "same_count (ns_core st4) c5" by blast
  have "upd_sock ?a ?g st4 = Some (st4\<lparr>ns_core := c5\<rparr>)" using c5(1) by (simp add: upd_sock_def with_core_def)
  then have "pipe_connect_end sy rp sp st = Some (?a, count_connection (st4\<lparr>ns_core := c5\<rparr>))"
    using st4(1-3) by (simp add: pipe_connect_end_def st1)
  moreover have "?a \<notin> set (filter (counted (ns_core st4)) (xs @ [?a]))" unfolding ins(3) using nx sk by auto
  then have "\<not> counted c5 ?a" using c5(4) unfolding set_filter mem_Collect_eq same_count_def by simp
  ultimately show ?thesis
    using c5 ins by (auto simp: count_connection_def world_inv_count counted_def valid_def same_count_def)
qed

text \<open>
  C39. A pipe connection leaks a count: \<^verbatim>\<open>svz_pipe_connect\<close> counts the connection, but shutting the socket down (which closes
  the pipes in \<^verbatim>\<open>svz_pipe_disconnect\<close>) does not take it back. After a pipe has been connected and shut down the list is as before
  and \<^verbatim>\<open>svz_sock_connections\<close> is one larger, for ever; each such connection leaves the TCP servers one client less.
\<close>

theorem pipe_connection_leaks_count:
  assumes "net_inv (ns_core st) xs" "heap (ns_core st) (sy_fresh sy (ns_core st)) = None" "rp \<noteq> -1" "sp \<noteq> -1" "disc_ok disc"
  shows "\<exists>a st' c. pipe_connect_end sy rp sp st = Some (a, st') \<and> svz_sock_shutdown disc (ns_core st') a = Some c
     \<and> world_inv c xs \<and> (\<forall>b. b \<noteq> a \<longrightarrow> counted c b = counted (ns_core st') b)
     \<and> svz_sock_connections c = svz_sock_connections (ns_core st) + 1"
proof -
  let ?a = "sy_fresh sy (ns_core st)"
  obtain st' where st': "pipe_connect_end sy rp sp st = Some (?a, st')" "world_inv (ns_core st') (xs @ [?a])" "valid (ns_core st') ?a"
      "\<not> counted (ns_core st') ?a" "svz_sock_connections (ns_core st') = svz_sock_connections (ns_core st) + 1"
    using pipe_connect_counts [OF assms(1-4)] by blast
  have inv: "core_inv (ns_core st') (xs @ [?a])" using st'(2) by (simp add: world_inv_def)
  from shutdown_inv [OF inv _ st'(3) assms(5)] obtain c where c: "svz_sock_shutdown disc (ns_core st') ?a = Some c" by auto
  have "?a \<notin> set xs" using world_distinct [OF st'(2)] by simp
  then have "remove1 ?a (xs @ [?a]) = xs" by (simp add: remove1_append)
  then have "world_inv c xs" using world_step_shutdown [OF st'(2) _ st'(3) assms(5) c] by simp
  moreover note shutdown_count [OF inv assms(5) c]
  ultimately show ?thesis using st' c by auto
qed

subsection \<open>Examples\<close>

text \<open>A system whose world is the number of the next descriptor; connections are in progress at first.\<close>

definition ex_os :: "int os" where
  "ex_os = \<lparr>os_send = \<lambda>_ m w. (int (length m), w), os_recv = \<lambda>_ _ w. ((0, []), w), os_time = \<lambda>_. 0, os_unavailable = \<lambda>_. False,
     os_recv_oob = \<lambda>_ w. ((-1, 0), w), os_send_oob = \<lambda>_ _ w. (-1, w), os_getpeername = \<lambda>_ _. None, os_getsockname = \<lambda>_ _. None\<rparr>"

definition ex_sys :: "int sys" where
  "ex_sys = \<lparr>sy_os = ex_os, sy_fresh = \<lambda>_. 7, sy_socket = \<lambda>_ _ w. (w, w + 1), sy_getfl = \<lambda>_ _. 2, sy_setfl = \<lambda>_ _ w. (0, w),
     sy_getfd = \<lambda>_ _. 0, sy_setfd = \<lambda>_ _ w. (0, w), sy_connect = \<lambda>_ _ w. (-1, w), sy_accept = \<lambda>_ w. (w, w + 1),
     sy_close = \<lambda>_ w. w, sy_so_error = \<lambda>_ _. (0, 0), sy_errno = \<lambda>_. 115, sy_pending = \<lambda>e. e = 115\<rparr>"

definition ex_st :: "int net_st" where
  "ex_st = \<lparr>ns_core = core_init, ns_ports = \<lambda>_. None, ns_arrays = \<lambda>_. None, ns_ears = \<lambda>_. None, ns_world = 3\<rparr>"

lemma ex_st_inv: "net_inv (ns_core ex_st) []" "heap (ns_core ex_st) (sy_fresh ex_sys (ns_core ex_st)) = None"
  using core_init_inv by (simp_all add: net_inv_def world_inv_def ex_st_def core_init_def)

theorem tcp_connect_enqueues_witness:
  "\<exists>r st'. svz_tcp_connect ex_sys (inet_address 0x0100007f) (htons 80) ex_st = Some (r, st') \<and> r \<noteq> None
     \<and> net_inv (ns_core st') [7] \<and> svz_sock_connections (ns_core st') = 0"
proof -
  from tcp_connect_enqueues [OF ex_st_inv, of "0x0100007f" "htons 80"]
  obtain r st' where r: "svz_tcp_connect ex_sys (inet_address 0x0100007f) (htons 80) ex_st = Some (r, st')"
    "case r of None \<Rightarrow> ns_core st' = ns_core ex_st | Some a \<Rightarrow> a = sy_fresh ex_sys (ns_core ex_st) \<and> net_inv (ns_core st') ([] @ [a])
       \<and> svz_sock_connections (ns_core st') = svz_sock_connections (ns_core ex_st)"
    by (fastforce split: option.splits)
  have "fst (svz_socket_create ex_sys SVZ_PROTO_TCP 3) = 3 \<and> snd (svz_socket_create ex_sys SVZ_PROTO_TCP 3) = 4"
    by (simp add: svz_socket_create_def svz_fd_nonblock_def svz_fd_cloexec_def ex_sys_def)
  then have "svz_socket_create ex_sys SVZ_PROTO_TCP 3 = (3, 4)" by (simp add: prod_eq_iff)
  moreover have "svz_socket_connect ex_sys 3 (inet_address 0x0100007f) (htons 80) 4 = Some (0, 4)"
    by (simp add: svz_socket_connect_def ex_sys_def)
  ultimately have "r \<noteq> None"
    using r(1) by (auto simp: svz_tcp_connect_def ex_st_def elim!: bind_SomeE split: prod.splits)
  then show ?thesis using r by (auto simp: ex_sys_def ex_st_def core_init_def)
qed

theorem pipe_connection_leaks_count_witness:
  "\<exists>a st' c. pipe_connect_end ex_sys 3 4 ex_st = Some (a, st') \<and> svz_sock_shutdown (\<lambda>_ c. Some c) (ns_core st') a = Some c
     \<and> world_inv c [] \<and> svz_sock_connections c = 1"
proof -
  have "svz_sock_connections (ns_core ex_st) = 0" by (simp add: ex_st_def core_init_def)
  then show ?thesis using pipe_connection_leaks_count [OF ex_st_inv _ _ disc_ok_default, of 3 4] by auto
qed

end
