(* ===== verification/Svz_Access.thy ===== *)
theory Svz_Access
  imports Svz_Net
begin

text \<open>
  Who may connect: the access lists of a port configuration (\<^verbatim>\<open>svz_sock_check_access\<close> of \<^verbatim>\<open>server-core.c\<close>) and the limit of the
  connection frequency (\<^verbatim>\<open>check_frequency\<close> of \<^verbatim>\<open>server-socket.c\<close>).

  Addresses are compared as texts, without their terminating NUL here. The text of a socket without a remote address would be read from an
  uninitialised buffer.
\<close>

subsection \<open>Access lists\<close>

definition pp_remote :: "svz_socket \<Rightarrow> mem option" where
  "pp_remote s = map_option svz_inet_ntoa (sk_remote_addr s)"

fun deny_loop :: "mem \<Rightarrow> mem option list \<Rightarrow> bool option" where
  "deny_loop remote [] = Some False"
| "deny_loop remote (ip # ips) = do { ip \<leftarrow> ip; if ip = remote then Some True else deny_loop remote ips }"

fun allow_loop :: "mem \<Rightarrow> int \<Rightarrow> mem option list \<Rightarrow> int option" where
  "allow_loop remote ret [] = Some ret"
| "allow_loop remote ret (ip # ips) = do { ip \<leftarrow> ip; allow_loop remote (if ip = remote then 0 else ret) ips }"

definition access_of :: "svz_portcfg \<Rightarrow> mem \<Rightarrow> int option" where
  "access_of port remote = do {
     deny \<leftarrow> svz_array_foreach (pc_deny port) 0;
     denied \<leftarrow> deny_loop remote deny;
     if denied then Some (-1)
     else case pc_allow port of
            None \<Rightarrow> Some 0
          | Some a \<Rightarrow> do { allow \<leftarrow> svz_array_foreach (Some a) 0; allow_loop remote (-1) allow }
   }"

definition svz_sock_check_access :: "'w net_st \<Rightarrow> addr option \<Rightarrow> addr option \<Rightarrow> int option" where
  "svz_sock_check_access st parent child =
     (case (parent, child) of
        (Some p, Some c) \<Rightarrow> do {
          ps \<leftarrow> the_sock st p;
          case sk_port ps of
            None \<Rightarrow> Some 0
          | Some a \<Rightarrow> do {
              port \<leftarrow> ns_ports st a;
              cs \<leftarrow> the_sock st c;
              remote \<leftarrow> pp_remote cs;
              access_of port remote
            }
        }
      | _ \<Rightarrow> Some 0)"

subsection \<open>Connection frequency\<close>

text \<open>A time is stored in the array as a pointer.\<close>

definition SVZ_NUM2PTR :: "int \<Rightarrow> int option" where
  "SVZ_NUM2PTR n = (if n = 0 then None else Some n)"

definition SVZ_PTR2NUM :: "int option \<Rightarrow> int" where
  "SVZ_PTR2NUM p = (case p of None \<Rightarrow> 0 | Some n \<Rightarrow> n)"

lemma ptr_num [simp]: "SVZ_PTR2NUM (SVZ_NUM2PTR n) = n"
  by (simp add: SVZ_PTR2NUM_def SVZ_NUM2PTR_def)

lemma array_del_size:
  "svz_array_del array n = Some (v, array') \<Longrightarrow> n < svz_array_size array \<Longrightarrow> svz_array_size array' < svz_array_size array"
  by (auto simp: svz_array_del_def svz_array_size_def elim!: bind_SomeE split: option.splits)

function freq_loop :: "int svz_array option \<Rightarrow> nat \<Rightarrow> int \<Rightarrow> int \<Rightarrow> (int svz_array option \<times> int) option" where
  "freq_loop accepted n nr current =
     (if accepted \<noteq> None \<and> n < svz_array_size accepted
      then do {
        t \<leftarrow> svz_array_get accepted n;
        if SVZ_PTR2NUM t < current - 4
        then (case svz_array_del accepted n of
                None \<Rightarrow> None
              | Some (v, accepted') \<Rightarrow> freq_loop accepted' n nr current)
        else freq_loop accepted (Suc n) (nr + 1) current }
      else Some (accepted, nr))"
  by pat_completeness auto
termination
  by (relation "measure (\<lambda>(accepted, n, _). svz_array_size accepted - n)")
     (auto dest: array_del_size intro: diff_less_mono simp: diff_less_mono2)

declare freq_loop.simps [simp del]

definition check_frequency :: "'w os \<Rightarrow> svz_portcfg \<Rightarrow> mem \<Rightarrow> 'w \<Rightarrow> (int \<times> svz_portcfg) option" where
  "check_frequency os port ip w = do {
     tab \<leftarrow> (case pc_accepted port of None \<Rightarrow> svz_hash_create 4 True | Some h \<Rightarrow> Some h);
     accepted \<leftarrow> (case pc_accepted port of None \<Rightarrow> Some None | Some h \<Rightarrow> svz_hash_get h (ip @ [0]));
     let current = os_time os w;
     (ret, accepted) \<leftarrow>
       (case accepted of
          Some a \<Rightarrow> do {
            (accepted, nr) \<leftarrow> freq_loop (Some a) 0 0 current;
            Some (if nr div 4 > pc_connect_freq port then -1 else 0, accepted) }
        | None \<Rightarrow> Some (0, Some (svz_array_create 1 False)));
     accepted \<leftarrow> svz_array_add accepted (SVZ_NUM2PTR current);
     (old, tab) \<leftarrow> svz_hash_put tab (ip @ [0]) accepted;
     Some (ret, port\<lparr>pc_accepted := Some tab\<rparr>)
   }"

subsection \<open>The lists decide\<close>

lemma deny_loop_spec: "deny_loop remote (map Some ips) = Some (remote \<in> set ips)"
  by (induction ips) auto

lemma allow_loop_spec: "allow_loop remote ret (map Some ips) = Some (if remote \<in> set ips then 0 else ret)"
  by (induction ips arbitrary: ret) auto

text \<open>The texts on a list, which has no \<^verbatim>\<open>NULL\<close> entries.\<close>

definition on_list :: "mem svz_array option \<Rightarrow> mem list \<Rightarrow> bool" where
  "on_list l ips \<longleftrightarrow> (case l of None \<Rightarrow> ips = [] | Some a \<Rightarrow> array_inv a \<and> array_vals a = map Some ips)"

lemma on_list_foreach: "on_list l ips \<Longrightarrow> svz_array_foreach l 0 = Some (map Some ips)"
  by (cases l) (auto simp: on_list_def svz_array_foreach_from svz_array_foreach.simps [of None])

lemma access_decided:
  assumes "the_sock st p = Some ps" and "sk_port ps = Some a" and "ns_ports st a = Some port"
    and "the_sock st c = Some cs" and "sk_remote_addr cs = Some ip"
    and "on_list (pc_deny port) (map svz_inet_ntoa denied)" and "on_list (pc_allow port) (map svz_inet_ntoa allowed)"
  shows "svz_sock_check_access st (Some p) (Some c)
     = Some (if ip \<in> set denied \<or> pc_allow port \<noteq> None \<and> ip \<notin> set allowed then -1 else 0)"
proof -
  have mem: "svz_inet_ntoa ip \<in> svz_inet_ntoa ` set l \<longleftrightarrow> ip \<in> set l" for l by (auto simp: svz_inet_ntoa_inj)
  have "access_of port (svz_inet_ntoa ip) = Some (if ip \<in> set denied \<or> pc_allow port \<noteq> None \<and> ip \<notin> set allowed then -1 else 0)"
    using on_list_foreach [OF assms(6)] on_list_foreach [OF assms(7)]
    by (cases "pc_allow port") (simp_all add: access_of_def deny_loop_spec allow_loop_spec mem del: map_map)
  then show ?thesis using assms(1-5) by (simp add: svz_sock_check_access_def pp_remote_def)
qed

text \<open>
  Access to a listener, \<^verbatim>\<open>svz_sock_check_access\<close>: a client is refused (-1) exactly when its address is on the list of denied addresses or when
  there is a list of allowed ones and it is not on it; else the result is 0. Different addresses have different texts, so that
  the comparison of texts is that of the addresses. A listener without a port configuration refuses nobody.
\<close>

theorem check_access_decides:
  assumes "the_sock st p = Some ps" and "sk_port ps = Some a" and "ns_ports st a = Some port"
    and "the_sock st c = Some cs" and "sk_remote_addr cs = Some ip"
    and "on_list (pc_deny port) (map svz_inet_ntoa denied)" and "on_list (pc_allow port) (map svz_inet_ntoa allowed)"
  shows "svz_sock_check_access st (Some p) (Some c)
     = Some (if ip \<in> set denied \<or> pc_allow port \<noteq> None \<and> ip \<notin> set allowed then -1 else 0)"
  using assms by (rule access_decided)

subsection \<open>The frequency limit\<close>

lemma freq_loop_spec:
  assumes "array_inv a" "n \<le> length (array_vals a)"
  shows "\<exists>a'. freq_loop (Some a) n nr current
        = Some (Some a', nr + int (length [t\<leftarrow>drop n (array_vals a). \<not> SVZ_PTR2NUM t < current - 4]))
     \<and> array_inv a' \<and> array_vals a' = take n (array_vals a) @ [t\<leftarrow>drop n (array_vals a). \<not> SVZ_PTR2NUM t < current - 4]"
  using assms
proof (induction "length (array_vals a) - n" arbitrary: a n nr)
  case 0
  then have "n = length (array_vals a)" by simp
  then show ?case using 0(2) by (simp add: freq_loop.simps svz_array_size_def array_inv_holds)
next
  case (Suc k)
  let ?vs = "array_vals a"
  have n: "n < length ?vs" using Suc(2) by simp
  then have go: "n < svz_array_size (Some a)" "svz_array_get (Some a) n = Some (?vs ! n)" "drop n ?vs = ?vs ! n # drop (Suc n) ?vs"
    using Suc(3) by (simp_all add: svz_array_size_def array_inv_holds svz_array_get_vals Cons_nth_drop_Suc)
  show ?case
  proof (cases "SVZ_PTR2NUM (?vs ! n) < current - 4")
    case True
    obtain a1 where a1: "svz_array_del (Some a) n = Some (?vs ! n, Some a1)" "array_inv a1" "array_vals a1 = take n ?vs @ drop (Suc n) ?vs"
      using svz_array_del_vals [OF Suc(3) n] by blast
    have d: "drop n (array_vals a1) = drop (Suc n) ?vs" "take n (array_vals a1) = take n ?vs" using n by (simp_all add: a1(3))
    have k: "k = length (array_vals a1) - n" "n \<le> length (array_vals a1)" using a1(3) Suc(2) n by simp_all
    show ?thesis using Suc(1) [OF k(1) a1(2) k(2), of nr] True go a1(1) by (simp add: freq_loop.simps [of "Some a"] d)
  next
    case False
    have k: "k = length ?vs - Suc n" using Suc(2) by simp
    have "Suc n \<le> length ?vs" using n by simp
    from Suc(1) [OF k Suc(3) this, of "nr + 1"] show ?thesis using False go n
      by (simp add: freq_loop.simps [of "Some a" n] take_Suc_conv_app_nth add.assoc)
  qed
qed

text \<open>The times of the attempts that are recorded for an address, and the well-formedness of the record.\<close>

definition attempts :: "svz_portcfg \<Rightarrow> mem \<Rightarrow> int list" where
  "attempts port ip = (case pc_accepted port of None \<Rightarrow> []
     | Some h \<Rightarrow> (case hash_lookup h (ip @ [0]) of Some (Some a) \<Rightarrow> map SVZ_PTR2NUM (array_vals a) | _ \<Rightarrow> []))"

definition accepted_ok :: "svz_portcfg \<Rightarrow> bool" where
  "accepted_ok port \<longleftrightarrow> (\<forall>h. pc_accepted port = Some h \<longrightarrow> hash_wf c_string h \<and> uses hash_equal hash_code hash_key_length h
     \<and> (\<forall>k. c_string k \<longrightarrow> (case hash_lookup h k of Some (Some a) \<Rightarrow> array_inv a | _ \<Rightarrow> True)))"

lemma ntoa_no_nul: "0 \<notin> set (svz_inet_ntoa ip)"
  using inet_ntoa_chars [of 0 ip] by (auto simp: is_digit_def)

text \<open>The table and the array that \<^verbatim>\<open>check_frequency\<close> works on.\<close>

lemma frequency_start:
  assumes "accepted_ok port" "c_string (ip @ [0])"
  obtains tab acc where "(case pc_accepted port of None \<Rightarrow> svz_hash_create 4 True | Some h \<Rightarrow> Some h) = Some tab"
    and "(case pc_accepted port of None \<Rightarrow> Some None | Some h \<Rightarrow> svz_hash_get h (ip @ [0])) = Some acc"
    and "hash_wf c_string tab \<and> uses hash_equal hash_code hash_key_length tab"
    and "attempts port ip = (case acc of None \<Rightarrow> [] | Some a \<Rightarrow> map SVZ_PTR2NUM (array_vals a))"
    and "\<And>a. acc = Some a \<Longrightarrow> array_inv a"
    and "\<And>k. c_string k \<Longrightarrow> (case hash_lookup tab k of Some (Some a) \<Rightarrow> array_inv a | _ \<Rightarrow> True)"
    and "\<And>n. attempts port n = attempts (port\<lparr>pc_accepted := Some tab\<rparr>) n"
proof (cases "pc_accepted port")
  case None
  obtain tab :: "int svz_array svz_hash" where tab: "svz_hash_create 4 True = Some tab" using hash_create_4 [of True] by blast
  show ?thesis
    by (rule that [of tab None]) (use None tab fresh_hash_wf [OF tab] in \<open>simp_all add: attempts_def\<close>)
next
  case (Some h)
  then have h: "hash_wf c_string h \<and> uses hash_equal hash_code hash_key_length h"
      "\<And>k. c_string k \<Longrightarrow> (case hash_lookup h k of Some (Some a) \<Rightarrow> array_inv a | _ \<Rightarrow> True)"
    using assms(1) by (auto simp: accepted_ok_def)
  show ?thesis
    by (rule that [of h "Option.bind (hash_lookup h (ip @ [0])) id"])
       (use Some h str_hash.mget [OF h(1) assms(2)] h(2) [OF assms(2)] in \<open>auto simp: attempts_def split: option.splits\<close>)
qed

definition recent :: "int \<Rightarrow> int list \<Rightarrow> int list" where
  "recent now ts = [t\<leftarrow>ts. now - 4 \<le> t]"

lemma recent_ptrs: "map SVZ_PTR2NUM [t\<leftarrow>vs. \<not> SVZ_PTR2NUM t < now - 4] = recent now (map SVZ_PTR2NUM vs)"
  by (induction vs) (auto simp: recent_def)

text \<open>Forgetting the old attempts and comparing the number of the others with the limit.\<close>

lemma frequency_decide:
  assumes "\<And>a. acc = Some a \<Longrightarrow> array_inv a" "0 \<le> limit"
    and "ts = (case acc of None \<Rightarrow> [] | Some a \<Rightarrow> map SVZ_PTR2NUM (array_vals a))"
  shows "\<exists>a. (case acc of
          Some a \<Rightarrow> do { (accepted, nr) \<leftarrow> freq_loop (Some a) 0 0 now; Some (if nr div 4 > limit then -1 else 0, accepted) }
        | None \<Rightarrow> Some (0, Some (svz_array_create 1 False)))
        = Some (if int (length (recent now ts)) div 4 > limit then -1 else 0 :: int, Some a) \<and> array_inv a
      \<and> map SVZ_PTR2NUM (array_vals a) = recent now ts"
proof (cases acc)
  case None
  then show ?thesis using array_inv_create [of 1 False] assms(2,3) by (auto simp: recent_def)
next
  case (Some a)
  let ?vs = "[t\<leftarrow>array_vals a. \<not> SVZ_PTR2NUM t < now - 4]"
  from freq_loop_spec [OF assms(1) [OF Some], of 0 0 now] obtain a' where a': "freq_loop (Some a) 0 0 now
      = Some (Some a', int (length ?vs))" "array_inv a'" "array_vals a' = ?vs" by auto
  have ts: "map SVZ_PTR2NUM ?vs = recent now ts" using recent_ptrs Some assms(3) by simp
  then have "length ?vs = length (recent now ts)" by (metis length_map)
  then show ?thesis using a' ts Some by simp
qed

lemma frequency_window:
  assumes "accepted_ok port" and "0 \<le> pc_connect_freq port"
  shows "\<exists>ret port'. check_frequency os port (svz_inet_ntoa ip) w = Some (ret, port') \<and> accepted_ok port'
     \<and> attempts port' (svz_inet_ntoa ip) = recent (os_time os w) (attempts port (svz_inet_ntoa ip)) @ [os_time os w]
     \<and> (\<forall>ip'. ip' \<noteq> ip \<longrightarrow> attempts port' (svz_inet_ntoa ip') = attempts port (svz_inet_ntoa ip'))
     \<and> port'\<lparr>pc_accepted := pc_accepted port\<rparr> = port
     \<and> ret = (if int (length (recent (os_time os w) (attempts port (svz_inet_ntoa ip)))) < 4 * (pc_connect_freq port + 1) then 0 else -1)"
proof -
  let ?ip = "svz_inet_ntoa ip" and ?now = "os_time os w"
  let ?key = "?ip @ [0]" and ?old = "recent ?now (attempts port ?ip)"
  define ret :: int where "ret = (if int (length ?old) div 4 > pc_connect_freq port then -1 else 0)"
  have ret: "ret = (if int (length ?old) < 4 * (pc_connect_freq port + 1) then 0 else -1)"
    unfolding ret_def by auto
  have key: "c_string ?key" by (rule name_c_string)
  obtain tab acc where tab: "(case pc_accepted port of None \<Rightarrow> svz_hash_create 4 True | Some h \<Rightarrow> Some h) = Some tab"
      "(case pc_accepted port of None \<Rightarrow> Some None | Some h \<Rightarrow> svz_hash_get h ?key) = Some acc"
      "hash_wf c_string tab \<and> uses hash_equal hash_code hash_key_length tab"
      and att: "attempts port ?ip = (case acc of None \<Rightarrow> [] | Some a \<Rightarrow> map SVZ_PTR2NUM (array_vals a))"
      and acc: "\<And>a. acc = Some a \<Longrightarrow> array_inv a"
      and vals: "\<And>k. c_string k \<Longrightarrow> (case hash_lookup tab k of Some (Some a) \<Rightarrow> array_inv a | _ \<Rightarrow> True)"
      and same: "\<And>n. attempts port n = attempts (port\<lparr>pc_accepted := Some tab\<rparr>) n"
    by (rule frequency_start [OF assms(1) key]) (rule that)
  from frequency_decide [OF acc assms(2) att, of ?now] obtain a where a: "(case acc of
          Some a \<Rightarrow> do { (accepted, nr) \<leftarrow> freq_loop (Some a) 0 0 ?now; Some (if nr div 4 > pc_connect_freq port then -1 else 0, accepted) }
        | None \<Rightarrow> Some (0, Some (svz_array_create 1 False))) = Some (ret, Some a)" "array_inv a"
      "map SVZ_PTR2NUM (array_vals a) = ?old" unfolding ret_def by blast
  obtain b where b: "svz_array_add (Some a) (SVZ_NUM2PTR ?now) = Some (Some b)" "array_inv b" "array_vals b = array_vals a @ [SVZ_NUM2PTR ?now]"
    using svz_array_add_vals [OF a(2)] by blast
  obtain h where h: "svz_hash_put tab ?key (Some b) = Some (Option.bind (hash_lookup tab ?key) id, h)"
      "hash_wf c_string h \<and> uses hash_equal hash_code hash_key_length h"
      "\<And>k'. c_string k' \<Longrightarrow> hash_lookup h k' = (if hash_equal ?key k' = 0 then Some (Some b) else hash_lookup tab k')"
    using str_hash.mput [OF tab(3) key] by blast
  have run: "check_frequency os port ?ip w = Some (ret, port\<lparr>pc_accepted := Some h\<rparr>)"
    unfolding check_frequency_def tab(1,2) Let_def by (simp add: a(1) b(1) h(1))
  have "hash_equal ?key (svz_inet_ntoa ip' @ [0]) = 0 \<longleftrightarrow> ip' = ip" for ip'
    using same_name [OF ntoa_no_nul ntoa_no_nul] svz_inet_ntoa_inj by metis
  then have "attempts (port\<lparr>pc_accepted := Some h\<rparr>) (svz_inet_ntoa ip')
      = (if ip' = ip then map SVZ_PTR2NUM (array_vals b) else attempts port (svz_inet_ntoa ip'))" for ip'
    using h(3) [OF name_c_string, of "svz_inet_ntoa ip'"] same [of "svz_inet_ntoa ip'"] by (simp add: attempts_def)
  moreover have "accepted_ok (port\<lparr>pc_accepted := Some h\<rparr>)"
    using h(2,3) vals b(2) by (simp add: accepted_ok_def)
  ultimately show ?thesis using run a(3) b(3) ret by simp
qed


subsection \<open>Examples\<close>

text \<open>A port configuration with one denied address and the limit 0, which lets four attempts through in four seconds.\<close>

definition ex_deny :: "mem svz_array option" where
  "ex_deny = the (svz_array_add (Some (svz_array_create 1 True)) (Some (svz_inet_ntoa 5)))"

definition ex_port :: svz_portcfg where
  "ex_port = svz_portcfg_create\<lparr>pc_deny := ex_deny, pc_connect_freq := 0\<rparr>"

definition ex_listener :: svz_socket where
  "ex_listener = (svz_sock_alloc 0)\<lparr>sk_port := Some 1\<rparr>"

definition ex_client :: "u32 \<Rightarrow> svz_socket" where
  "ex_client ip = (svz_sock_alloc 0)\<lparr>sk_remote_addr := Some ip\<rparr>"

definition ex_acc :: "int net_st" where
  "ex_acc = ex_st\<lparr>ns_core := core_init\<lparr>heap := [1 \<mapsto> ex_listener, 2 \<mapsto> ex_client 5, 3 \<mapsto> ex_client 6]\<rparr>, ns_ports := [1 \<mapsto> ex_port]\<rparr>"

lemma ex_deny_list: "on_list ex_deny (map svz_inet_ntoa [5])"
  using svz_array_add_vals [OF conjunct1 [OF array_inv_create [of 1 True]], of "Some (svz_inet_ntoa 5)"] array_inv_create [of 1 True]
  by (auto simp: on_list_def ex_deny_def)

theorem check_access_decides_witness:
  "svz_sock_check_access ex_acc (Some 1) (Some 2) = Some (-1) \<and> svz_sock_check_access ex_acc (Some 1) (Some 3) = Some 0"
proof -
  have fields: "the_sock ex_acc 1 = Some ex_listener" "sk_port ex_listener = Some 1" "ns_ports ex_acc 1 = Some ex_port"
      "the_sock ex_acc 2 = Some (ex_client 5)" "the_sock ex_acc 3 = Some (ex_client 6)" "sk_remote_addr (ex_client ip) = Some ip"
      "pc_deny ex_port = ex_deny" "pc_allow ex_port = None" for ip
    by (simp_all add: ex_acc_def the_sock_def ex_listener_def ex_client_def ex_port_def svz_portcfg_create_def)
  have l: "on_list (pc_deny ex_port) (map svz_inet_ntoa [5])" "on_list (pc_allow ex_port) (map svz_inet_ntoa [])"
    using ex_deny_list by (simp_all add: fields on_list_def)
  show ?thesis
    using check_access_decides [OF fields(1-3) fields(4) fields(6) l] check_access_decides [OF fields(1-3) fields(5) fields(6) l]
    by (simp add: fields)
qed


end
