(* ===== verification/Svz_Binding.thy ===== *)
theory Svz_Binding
  imports Svz_Access
begin

text \<open>
  Bindings, \<^verbatim>\<open>binding.c\<close>: which server instances are bound to which listening sockets with which port configurations.

  The bindings of a socket are an array in memory (\<open>ns_arrays\<close>) that the listener shares with the sockets accepted from it
  until their protocol is known, and each binding owns its copy of a port configuration (\<open>ns_ports\<close>); an access to an
  array or a configuration that has been freed, or freeing it twice, is \<^term>\<open>None\<close>. Arrays that a function builds for its caller hold
  copies of the bindings and are values. \<open>fresh\<close> is the address the allocator hands out for an array of bindings.
\<close>

subsection \<open>The bindings of a socket\<close>

definition all_ears_x :: "addr \<Rightarrow> addr option \<Rightarrow> 'w net_st \<Rightarrow> (addr option \<times> 'w net_st) option" where
  "all_ears_x sock bindings st = do {
     s \<leftarrow> the_sock st sock;
     Some (ns_ears st (sk_id s, sk_version s), st\<lparr>ns_ears := (ns_ears st)((sk_id s, sk_version s) := bindings)\<rparr>)
   }"

definition svz_sock_bindings :: "addr \<Rightarrow> 'w net_st \<Rightarrow> addr option option" where
  "svz_sock_bindings sock st = do { s \<leftarrow> the_sock st sock; Some (ns_ears st (sk_id s, sk_version s)) }"

definition portcfg_cmp :: "addr \<Rightarrow> addr \<Rightarrow> 'w net_st \<Rightarrow> u32 option" where
  "portcfg_cmp a b st = do { p \<leftarrow> ns_ports st a; q \<leftarrow> ns_ports st b; svz_portcfg_equal p q }"

definition portcfg_exactly_equal :: "addr \<Rightarrow> addr \<Rightarrow> 'w net_st \<Rightarrow> bool option" where
  "portcfg_exactly_equal a b st = do { r \<leftarrow> portcfg_cmp a b st; Some (SVZ_PORTCFG_EQUAL = r) }"

definition portcfg_matching_or_equal :: "addr \<Rightarrow> addr \<Rightarrow> 'w net_st \<Rightarrow> bool option" where
  "portcfg_matching_or_equal a b st =
     do { r \<leftarrow> portcfg_cmp a b st; Some ((SVZ_PORTCFG_EQUAL OR SVZ_PORTCFG_MATCH) AND r \<noteq> 0) }"

text \<open>The bindings a loop over an array visits.\<close>

definition bind_elems :: "addr option \<Rightarrow> 'w net_st \<Rightarrow> svz_binding list option" where
  "bind_elems array st =
     (case array of
        None \<Rightarrow> Some []
      | Some p \<Rightarrow> do { a \<leftarrow> ns_arrays st p; vs \<leftarrow> svz_array_foreach (Some a) 0; those vs })"

definition sock_elems :: "addr \<Rightarrow> 'w net_st \<Rightarrow> svz_binding list option" where
  "sock_elems sock st = do { array \<leftarrow> svz_sock_bindings sock st; bind_elems array st }"

text \<open>\<^verbatim>\<open>svz_array_create\<close>, \<^verbatim>\<open>svz_array_add\<close> for each value and \<^verbatim>\<open>svz_array_destroy_zero\<close>: the array a function returns.\<close>

fun add_all :: "'a svz_array option \<Rightarrow> 'a list \<Rightarrow> 'a svz_array option option" where
  "add_all array [] = Some array"
| "add_all array (x # xs) = do { array \<leftarrow> svz_array_add array (Some x); add_all array xs }"

definition gather :: "'a list \<Rightarrow> 'a svz_array option option" where
  "gather xs = do {
     array \<leftarrow> add_all (Some (svz_array_create 1 False)) xs;
     (array, ds) \<leftarrow> svz_array_destroy_zero array;
     Some array
   }"

definition from_server :: "addr \<Rightarrow> nat \<Rightarrow> 'w net_st \<Rightarrow> svz_binding svz_array option option" where
  "from_server sock server st = do {
     bs \<leftarrow> sock_elems sock st;
     gather [b\<leftarrow>bs. bd_server b = server]
   }"

text \<open>The sockets that \<^verbatim>\<open>svz_sock_foreach_listener\<close> visits.\<close>

partial_function (option) listener_loop :: "core \<Rightarrow> addr option \<Rightarrow> addr list option" where
  "listener_loop c cur =
     (if cur = None then Some []
      else do {
        s \<leftarrow> heap c (the cur);
        ls \<leftarrow> listener_loop c (sk_next s);
        Some (if has_flag s SVZ_SOFLG_LISTENING \<and> sk_port s \<noteq> None then the cur # ls else ls)
      })"

definition svz_sock_foreach_listener :: "'w net_st \<Rightarrow> addr list option" where
  "svz_sock_foreach_listener st = listener_loop (ns_core st) (svz_sock_root (ns_core st))"

fun server_ports :: "addr list \<Rightarrow> nat \<Rightarrow> 'w net_st \<Rightarrow> addr list option" where
  "server_ports [] server st = Some []"
| "server_ports (sock # socks) server st = do {
     bindings \<leftarrow> from_server sock server st;
     bs \<leftarrow> svz_array_foreach bindings 0;
     bs \<leftarrow> those bs;
     ps \<leftarrow> server_ports socks server st;
     Some (map bd_port bs @ ps)
   }"

definition svz_server_portcfgs :: "nat \<Rightarrow> 'w net_st \<Rightarrow> addr svz_array option option" where
  "svz_server_portcfgs server st = do {
     socks \<leftarrow> svz_sock_foreach_listener st;
     ports \<leftarrow> server_ports socks server st;
     gather ports
   }"

definition svz_binding_contains_server :: "addr \<Rightarrow> nat \<Rightarrow> 'w net_st \<Rightarrow> bool option" where
  "svz_binding_contains_server sock server st = do {
     bs \<leftarrow> sock_elems sock st;
     Some (\<exists>b\<in>set bs. bd_server b = server)
   }"

fun filterM :: "('a \<Rightarrow> bool option) \<Rightarrow> 'a list \<Rightarrow> 'a list option" where
  "filterM P [] = Some []"
| "filterM P (x # xs) = do { b \<leftarrow> P x; ys \<leftarrow> filterM P xs; Some (if b then x # ys else ys) }"

fun findM :: "('a \<Rightarrow> bool option) \<Rightarrow> 'a list \<Rightarrow> 'a option option" where
  "findM P [] = Some None"
| "findM P (x # xs) = do { b \<leftarrow> P x; if b then Some (Some x) else findM P xs }"

definition svz_server_listeners :: "nat \<Rightarrow> 'w net_st \<Rightarrow> addr svz_array option option" where
  "svz_server_listeners server st = do {
     socks \<leftarrow> svz_sock_foreach_listener st;
     socks \<leftarrow> filterM (\<lambda>sock. svz_binding_contains_server sock server st) socks;
     gather socks
   }"

definition port_matches :: "addr \<Rightarrow> addr \<Rightarrow> 'w net_st \<Rightarrow> bool option" where
  "port_matches port sock st = do { s \<leftarrow> the_sock st sock; p \<leftarrow> sk_port s; portcfg_matching_or_equal p port st }"

definition socket_with_portcfg :: "addr \<Rightarrow> 'w net_st \<Rightarrow> addr option option" where
  "socket_with_portcfg port st = do {
     socks \<leftarrow> svz_sock_foreach_listener st;
     findM (\<lambda>sock. port_matches port sock st) socks
   }"

definition sockets_with_portcfg :: "addr \<Rightarrow> 'w net_st \<Rightarrow> addr svz_array option option" where
  "sockets_with_portcfg port st = do {
     socks \<leftarrow> svz_sock_foreach_listener st;
     socks \<leftarrow> filterM (\<lambda>sock. port_matches port sock st) socks;
     gather socks
   }"

subsection \<open>Adding and removing\<close>

definition svz_portcfg_free :: "addr \<Rightarrow> 'w net_st \<Rightarrow> 'w net_st option" where
  "svz_portcfg_free port st =
     (if ns_ports st port = None then None else Some (st\<lparr>ns_ports := (ns_ports st)(port := None)\<rparr>))"

definition make_binding :: "nat \<Rightarrow> addr \<Rightarrow> svz_binding" where
  "make_binding server port = \<lparr>bd_server = server, bd_port = port\<rparr>"

definition svz_binding_destroy :: "svz_binding \<Rightarrow> 'w net_st \<Rightarrow> 'w net_st option" where
  "svz_binding_destroy binding = svz_portcfg_free (bd_port binding)"

definition same_binding :: "nat \<Rightarrow> addr \<Rightarrow> 'w net_st \<Rightarrow> svz_binding \<Rightarrow> bool option" where
  "same_binding server port st b =
     (if bd_server b = server then portcfg_exactly_equal (bd_port b) port st else Some False)"

definition find_binding :: "addr \<Rightarrow> nat \<Rightarrow> addr \<Rightarrow> 'w net_st \<Rightarrow> svz_binding option option" where
  "find_binding sock server port st = do {
     bs \<leftarrow> sock_elems sock st;
     findM (same_binding server port st) bs
   }"

definition array_append :: "addr \<Rightarrow> svz_binding \<Rightarrow> 'w net_st \<Rightarrow> 'w net_st option" where
  "array_append p b st = do {
     a \<leftarrow> ns_arrays st p;
     a \<leftarrow> svz_array_add (Some a) (Some b);
     Some (st\<lparr>ns_arrays := (ns_arrays st)(p := a)\<rparr>)
   }"

definition array_new :: "addr \<Rightarrow> 'w net_st \<Rightarrow> 'w net_st" where
  "array_new p st = st\<lparr>ns_arrays := (ns_arrays st)(p \<mapsto> svz_array_create 1 True)\<rparr>"

definition add_server :: "('w net_st \<Rightarrow> addr) \<Rightarrow> addr \<Rightarrow> nat \<Rightarrow> addr \<Rightarrow> 'w net_st \<Rightarrow> (int \<times> 'w net_st) option" where
  "add_server fresh sock server port st = do {
     let binding = make_binding server port;
     bindings \<leftarrow> svz_sock_bindings sock st;
     case bindings of
       None \<Rightarrow> do {
         let p = fresh st;
         st \<leftarrow> array_append p binding (array_new p st);
         (old, st) \<leftarrow> all_ears_x sock (Some p) st;
         Some (0, st) }
     | Some p \<Rightarrow> do {
         f \<leftarrow> find_binding sock server port st;
         if f = None then do { st \<leftarrow> array_append p binding st; Some (0, st) }
         else do { st \<leftarrow> svz_binding_destroy binding st; Some (-1, st) } }
   }"

definition bindings_contain :: "addr option \<Rightarrow> svz_binding \<Rightarrow> 'w net_st \<Rightarrow> bool option" where
  "bindings_contain bindings binding st = do {
     bs \<leftarrow> bind_elems bindings st;
     f \<leftarrow> findM (same_binding (bd_server binding) (bd_port binding) st) bs;
     Some (f \<noteq> None)
   }"

definition sock_bindings :: "addr option \<Rightarrow> 'w net_st \<Rightarrow> addr option option" where
  "sock_bindings sock st =
     (case sock of
        None \<Rightarrow> Some None
      | Some a \<Rightarrow> do {
          s \<leftarrow> the_sock st a;
          if has_flag s SVZ_SOFLG_LISTENING \<and> sk_port s \<noteq> None then svz_sock_bindings a st else Some None })"

definition svz_sock_bindings_set :: "addr \<Rightarrow> addr option \<Rightarrow> 'w net_st \<Rightarrow> 'w net_st option" where
  "svz_sock_bindings_set sock from st = do {
     bindings \<leftarrow> (case from of None \<Rightarrow> Some None | Some f \<Rightarrow> svz_sock_bindings f st);
     (old, st) \<leftarrow> all_ears_x sock bindings st;
     Some st
   }"

text \<open>The loop of \<^verbatim>\<open>svz_sock_bindings_zonk_server\<close>; deleting an element moves the rest, so the index stays.\<close>

function zonk_loop :: "nat \<Rightarrow> nat \<Rightarrow> svz_binding svz_array option \<Rightarrow> 'w net_st \<Rightarrow> (svz_binding svz_array option \<times> 'w net_st) option" where
  "zonk_loop server i bindings st =
     (if bindings \<noteq> None \<and> i < svz_array_size bindings
      then do {
        v \<leftarrow> svz_array_get bindings i;
        binding \<leftarrow> v;
        if bd_server binding = server
        then do {
          st \<leftarrow> svz_binding_destroy binding st;
          (case svz_array_del bindings i of
             None \<Rightarrow> None
           | Some (v, bindings') \<Rightarrow> zonk_loop server i bindings' st) }
        else zonk_loop server (Suc i) bindings st }
      else Some (bindings, st))"
  by pat_completeness auto
termination
  by (relation "measure (\<lambda>(_, i, bindings, _). svz_array_size bindings - i)")
     (auto dest: array_del_size intro: diff_less_mono simp: diff_less_mono2)

declare zonk_loop.simps [simp del]

definition svz_sock_bindings_zonk_server :: "addr \<Rightarrow> nat \<Rightarrow> 'w net_st \<Rightarrow> (nat \<times> 'w net_st) option" where
  "svz_sock_bindings_zonk_server sock server st = do {
     bindings \<leftarrow> svz_sock_bindings sock st;
     case bindings of
       None \<Rightarrow> Some (0, st)
     | Some p \<Rightarrow> do {
         a \<leftarrow> ns_arrays st p;
         (a, st) \<leftarrow> zonk_loop server 0 (Some a) st;
         Some (svz_array_size a, st\<lparr>ns_arrays := (ns_arrays st)(p := a)\<rparr>) }
   }"

text \<open>\<^verbatim>\<open>svz_array_destroy\<close> of an array of bindings: each binding is destroyed and the array freed.\<close>

fun destroy_all :: "svz_binding list \<Rightarrow> 'w net_st \<Rightarrow> 'w net_st option" where
  "destroy_all [] st = Some st"
| "destroy_all (b # bs) st = do { st \<leftarrow> svz_binding_destroy b st; destroy_all bs st }"

definition destroy_bindings :: "addr option \<Rightarrow> 'w net_st \<Rightarrow> 'w net_st option" where
  "destroy_bindings array st =
     (case array of
        None \<Rightarrow> Some st
      | Some p \<Rightarrow> do {
          a \<leftarrow> ns_arrays st p;
          vs \<leftarrow> svz_array_destroy (Some a);
          bs \<leftarrow> those vs;
          st \<leftarrow> destroy_all bs st;
          Some (st\<lparr>ns_arrays := (ns_arrays st)(p := None)\<rparr>) })"

text \<open>The callback that is registered with \<^verbatim>\<open>svz_sock_prefree\<close>.\<close>

definition zonk_sock_ears :: "addr \<Rightarrow> 'w net_st \<Rightarrow> 'w net_st option" where
  "zonk_sock_ears sock st = do {
     s \<leftarrow> the_sock st sock;
     if has_flag s SVZ_SOFLG_LISTENING then do {
       (bindings, st) \<leftarrow> all_ears_x sock None st;
       destroy_bindings bindings st }
     else Some st
   }"

text \<open>\<open>copy_at\<close> is the address the allocator hands out for a copy of a port configuration.\<close>

fun join_loop :: "('w net_st \<Rightarrow> addr) \<Rightarrow> addr \<Rightarrow> svz_binding list \<Rightarrow> 'w net_st \<Rightarrow> 'w net_st option" where
  "join_loop copy_at p [] st = Some st"
| "join_loop copy_at p (b # bs) st = do {
     c \<leftarrow> bindings_contain (Some p) b st;
     st \<leftarrow> (if \<not> c then do {
              port \<leftarrow> ns_ports st (bd_port b);
              port \<leftarrow> svz_portcfg_dup port;
              let q = copy_at st;
              array_append p (make_binding (bd_server b) q) (st\<lparr>ns_ports := (ns_ports st)(q \<mapsto> port)\<rparr>) }
            else Some st);
     join_loop copy_at p bs st
   }"

definition adjoin ::
    "('w net_st \<Rightarrow> addr) \<Rightarrow> ('w net_st \<Rightarrow> addr) \<Rightarrow> addr option \<Rightarrow> addr \<Rightarrow> 'w net_st \<Rightarrow> (addr option \<times> 'w net_st) option" where
  "adjoin fresh copy_at bindings sock st = do {
     old \<leftarrow> sock_bindings (Some sock) st;
     s \<leftarrow> the_sock st sock;
     if \<not> (has_flag s SVZ_SOFLG_LISTENING \<and> sk_port s \<noteq> None) then Some (bindings, st)
     else do {
       let (p, st) = (case bindings of Some p \<Rightarrow> (p, st) | None \<Rightarrow> (let p = fresh st in (p, array_new p st)));
       bs \<leftarrow> bind_elems old st;
       st \<leftarrow> join_loop copy_at p bs st;
       st \<leftarrow> destroy_bindings old st;
       st \<leftarrow> svz_sock_bindings_set sock None st;
       Some (Some p, st)
     }
   }"

subsection \<open>Filtering\<close>

definition svz_sock_servers :: "addr \<Rightarrow> 'w net_st \<Rightarrow> nat svz_array option option" where
  "svz_sock_servers sock st = do {
     bindings \<leftarrow> sock_bindings (Some sock) st;
     bs \<leftarrow> bind_elems bindings st;
     gather (map bd_server bs)
   }"

definition filter_pipe :: "addr \<Rightarrow> 'w net_st \<Rightarrow> svz_binding svz_array option option" where
  "filter_pipe sock st = do { bs \<leftarrow> sock_elems sock st; gather bs }"

definition net_accepts :: "u32 \<Rightarrow> u16 \<Rightarrow> 'w net_st \<Rightarrow> svz_binding \<Rightarrow> bool option" where
  "net_accepts addr port st binding = do {
     p \<leftarrow> ns_ports st (bd_port binding);
     portaddr \<leftarrow> svz_portcfg_addr p;
     Some ((sin_addr portaddr = addr \<or> pc_flags p AND (PORTCFG_FLAG_ANY OR PORTCFG_FLAG_DEVICE) \<noteq> 0)
       \<and> (pc_proto p AND (SVZ_PROTO_RAW OR SVZ_PROTO_ICMP) \<noteq> 0 \<or> sin_port portaddr = port))
   }"

definition filter_net :: "addr \<Rightarrow> u32 \<Rightarrow> u16 \<Rightarrow> 'w net_st \<Rightarrow> svz_binding svz_array option option" where
  "filter_net sock addr port st = do {
     bs \<leftarrow> sock_elems sock st;
     bs \<leftarrow> filterM (net_accepts addr port st) bs;
     gather bs
   }"

definition local_info :: "'w os \<Rightarrow> svz_socket \<Rightarrow> 'w \<Rightarrow> (u32 \<times> u16) option" where
  "local_info os sock w = os_getsockname os (sk_sock_desc sock) w"

definition svz_binding_filter :: "'w os \<Rightarrow> addr \<Rightarrow> 'w net_st \<Rightarrow> svz_binding svz_array option option" where
  "svz_binding_filter os sock st = do {
     s \<leftarrow> the_sock st sock;
     if sk_proto s AND SVZ_PROTO_PIPE \<noteq> 0 then filter_pipe sock st
     else case local_info os s (ns_world st) of
            None \<Rightarrow> Some None
          | Some (addr, port) \<Rightarrow> filter_net sock addr port st
   }"

subsection \<open>What the loops compute\<close>

lemma filterM_total: "\<forall>x\<in>set xs. P x = Some (Q x) \<Longrightarrow> filterM P xs = Some (filter Q xs)"
  by (induction xs) auto

lemma findM_total: "\<forall>x\<in>set xs. P x = Some (Q x) \<Longrightarrow> findM P xs = Some (find Q xs)"
  by (induction xs) auto

text \<open>An array that a function returns for the values \<open>xs\<close>; no values give \<^verbatim>\<open>NULL\<close>.\<close>

definition array_of :: "'a svz_array option \<Rightarrow> 'a list \<Rightarrow> bool" where
  "array_of r xs \<longleftrightarrow> (case r of None \<Rightarrow> xs = [] | Some a \<Rightarrow> xs \<noteq> [] \<and> array_inv a \<and> array_vals a = map Some xs)"

lemma add_all_ok:
  "array_inv a \<Longrightarrow> \<exists>a'. add_all (Some a) xs = Some (Some a') \<and> array_inv a' \<and> array_vals a' = array_vals a @ map Some xs"
proof (induction xs arbitrary: a)
  case (Cons x xs)
  obtain a1 where a1: "svz_array_add (Some a) (Some x) = Some (Some a1)" "array_inv a1" "array_vals a1 = array_vals a @ [Some x]"
    using svz_array_add_vals [OF Cons.prems] by blast
  then show ?case using Cons.IH [OF a1(2)] by auto
qed simp

lemma gather_ok:
  fixes xs :: "'a list"
  shows "\<exists>r. gather xs = Some r \<and> array_of r xs"
proof -
  have i: "array_inv (svz_array_create 1 False :: 'a svz_array) \<and> array_vals (svz_array_create 1 False :: 'a svz_array) = []"
    by (rule array_inv_create)
  obtain a where a: "add_all (Some (svz_array_create 1 False)) xs = Some (Some a)" "array_inv a" "array_vals a = map Some xs"
    using add_all_ok [OF conjunct1 [OF i], of xs] i by auto
  have size: "arr_size a = length xs" using a(2,3) by (simp add: array_inv_holds)
  show ?thesis
  proof (cases "xs = []")
    case True
    then have "svz_array_destroy (Some a) = Some [] \<or> (\<exists>ds. svz_array_destroy (Some a) = Some ds)"
      using a(2) size by (auto simp: svz_array_destroy_def rd_range_def)
    then show ?thesis using True a(1) size by (auto simp: gather_def svz_array_destroy_zero_def array_of_def)
  next
    case False
    then show ?thesis using a size by (auto simp: gather_def svz_array_destroy_zero_def array_of_def)
  qed
qed

subsection \<open>The bindings of a listener\<close>

text \<open>
  The socket at \<open>a\<close> has the bindings \<open>bs\<close>: its entry leads to a valid array that holds them, and their port
  configurations are allocated.
\<close>

definition bound :: "'w net_st \<Rightarrow> addr \<Rightarrow> svz_binding list \<Rightarrow> bool" where
  "bound st a bs \<longleftrightarrow> (\<exists>s. the_sock st a = Some s \<and> (case ns_ears st (sk_id s, sk_version s) of
       None \<Rightarrow> bs = []
     | Some p \<Rightarrow> (\<exists>arr. ns_arrays st p = Some arr \<and> array_inv arr \<and> array_vals arr = map Some bs)))
     \<and> (\<forall>b\<in>set bs. ns_ports st (bd_port b) \<noteq> None)"

lemma bind_elems_array:
  "ns_arrays st p = Some arr \<Longrightarrow> array_inv arr \<Longrightarrow> array_vals arr = map Some bs \<Longrightarrow> bind_elems (Some p) st = Some bs"
  by (simp add: bind_elems_def svz_array_foreach_from)

lemma bound_elems:
  assumes "bound st a bs"
  shows "sock_elems a st = Some bs"
proof -
  obtain s where s: "the_sock st a = Some s" "case ns_ears st (sk_id s, sk_version s) of None \<Rightarrow> bs = []
      | Some p \<Rightarrow> (\<exists>arr. ns_arrays st p = Some arr \<and> array_inv arr \<and> array_vals arr = map Some bs)"
    using assms by (auto simp: bound_def)
  then show ?thesis
    by (cases "ns_ears st (sk_id s, sk_version s)")
       (auto simp: sock_elems_def svz_sock_bindings_def bind_elems_array bind_elems_def [of None])
qed

text \<open>
  Which servers may take a connection, \<^verbatim>\<open>svz_binding_filter\<close>: for a network socket whose local address is known these are exactly the bindings, in the order in
  which they were made, with a port configuration that listens on this address and port.
\<close>

lemma binding_filter_exact:
  assumes "bound st a bs" and "the_sock st a = Some s" and "sk_proto s AND SVZ_PROTO_PIPE = 0"
    and "os_getsockname os (sk_sock_desc s) (ns_world st) = Some (ip, port)"
    and "\<forall>b\<in>set bs. \<exists>p sa. ns_ports st (bd_port b) = Some p \<and> svz_portcfg_addr p = Some sa
           \<and> pc_proto p \<in> {SVZ_PROTO_TCP, SVZ_PROTO_UDP} \<and> \<not> pc_flag p PORTCFG_FLAG_DEVICE"
  shows "\<exists>r. svz_binding_filter os a st = Some r
     \<and> array_of r [b\<leftarrow>bs. \<exists>p pr. ns_ports st (bd_port b) = Some p \<and> (pr, ip, unat port) \<in> endpoints p]"
proof -
  let ?Q = "\<lambda>b. \<exists>p pr. ns_ports st (bd_port b) = Some p \<and> (pr, ip, unat port) \<in> endpoints p"
  have "net_accepts ip port st b = Some (?Q b)" if b: "b \<in> set bs" for b
  proof -
    obtain p sa where p: "ns_ports st (bd_port b) = Some p" "svz_portcfg_addr p = Some sa"
        "pc_proto p = SVZ_PROTO_TCP \<or> pc_proto p = SVZ_PROTO_UDP" "\<not> pc_flag p PORTCFG_FLAG_DEVICE"
      using bspec [OF assms(5) b] by auto
    then have key: "port_key p = unat (sin_port sa)"
      by (cases "pc_protocol p")
         (auto simp: port_key_def svz_portcfg_addr_def pc_net_def pc_proto_def SVZ_PROTO_TCP_def SVZ_PROTO_UDP_def SVZ_PROTO_ICMP_def
          SVZ_PROTO_RAW_def)
    have "pc_proto p AND (SVZ_PROTO_RAW OR SVZ_PROTO_ICMP) = 0"
      using p(3) by (auto simp: SVZ_PROTO_TCP_def SVZ_PROTO_UDP_def SVZ_PROTO_ICMP_def SVZ_PROTO_RAW_def)
    moreover have "pc_flags p AND (PORTCFG_FLAG_ANY OR PORTCFG_FLAG_DEVICE) \<noteq> 0 \<longleftrightarrow> pc_flag p PORTCFG_FLAG_ANY"
      using p(4) by (simp add: pc_flag_def bit.conj_disj_distrib)
    ultimately show ?thesis using p(1,2) key by (auto simp: net_accepts_def endpoints_member word_unat_eq_iff)
  qed
  then have "filterM (net_accepts ip port st) bs = Some (filter ?Q bs)" by (intro filterM_total) simp
  then show ?thesis
    using gather_ok [of "filter ?Q bs"] assms(2-4) bound_elems [OF assms(1)]
    by (auto simp: svz_binding_filter_def local_info_def filter_net_def)
qed

subsection \<open>Adding a server\<close>

text \<open>No server is bound twice to equal port configurations.\<close>

definition no_dup :: "'w net_st \<Rightarrow> svz_binding list \<Rightarrow> bool" where
  "no_dup st bs \<longleftrightarrow> (\<forall>i<length bs. \<forall>j<length bs. i \<noteq> j \<longrightarrow> bd_server (bs ! i) = bd_server (bs ! j) \<longrightarrow>
     portcfg_cmp (bd_port (bs ! i)) (bd_port (bs ! j)) st \<noteq> Some SVZ_PORTCFG_EQUAL)"

definition already :: "'w net_st \<Rightarrow> svz_binding list \<Rightarrow> nat \<Rightarrow> addr \<Rightarrow> bool" where
  "already st bs server port \<longleftrightarrow> (\<exists>b\<in>set bs. bd_server b = server \<and> portcfg_cmp (bd_port b) port st = Some SVZ_PORTCFG_EQUAL)"

lemma portcfg_cmp_sym: "portcfg_cmp p q st = portcfg_cmp q p st"
  by (cases "ns_ports st p"; cases "ns_ports st q") (simp_all add: portcfg_cmp_def portcfg_equal_sym)

lemma portcfg_cmp_cong: "ns_ports st' p = ns_ports st p \<Longrightarrow> ns_ports st' q = ns_ports st q \<Longrightarrow> portcfg_cmp p q st' = portcfg_cmp p q st"
  by (simp add: portcfg_cmp_def)

lemma no_dup_cong:
  assumes "no_dup st bs" "\<forall>b\<in>set bs. ns_ports st' (bd_port b) = ns_ports st (bd_port b)"
  shows "no_dup st' bs"
proof -
  have "portcfg_cmp (bd_port (bs ! i)) (bd_port (bs ! j)) st' = portcfg_cmp (bd_port (bs ! i)) (bd_port (bs ! j)) st"
    if "i < length bs" "j < length bs" for i j
    using assms(2) that by (intro portcfg_cmp_cong) auto
  then show ?thesis using assms(1) unfolding no_dup_def by metis
qed

lemma no_dup_snoc:
  assumes "no_dup st bs" "\<not> already st bs server port"
  shows "no_dup st (bs @ [make_binding server port])"
  unfolding no_dup_def
proof (intro allI impI)
  fix i j
  let ?bs = "bs @ [make_binding server port]"
  assume ij: "i < length ?bs" "j < length ?bs" "i \<noteq> j" "bd_server (?bs ! i) = bd_server (?bs ! j)"
  have new: "portcfg_cmp (bd_port (bs ! k)) port st \<noteq> Some SVZ_PORTCFG_EQUAL" if "k < length bs" "bd_server (bs ! k) = server" for k
    using assms(2) that by (auto simp: already_def)
  consider "i < length bs" "j < length bs" | "i < length bs" "j = length bs" | "i = length bs" "j < length bs" using ij(1-3) by fastforce
  then show "portcfg_cmp (bd_port (?bs ! i)) (bd_port (?bs ! j)) st \<noteq> Some SVZ_PORTCFG_EQUAL"
  proof cases
    case 1
    then show ?thesis using assms(1) ij(3,4) by (simp add: no_dup_def nth_append)
  next
    case 2
    then show ?thesis using new [of i] ij(4) by (simp add: nth_append make_binding_def)
  next
    case 3
    then show ?thesis using new [of j] ij(4) by (simp add: nth_append make_binding_def portcfg_cmp_sym [of port])
  qed
qed

lemma array_append_ok:
  assumes "ns_arrays st p = Some arr" "array_inv arr" "array_vals arr = map Some bs"
  shows "\<exists>arr'. array_append p b st = Some (st\<lparr>ns_arrays := (ns_arrays st)(p \<mapsto> arr')\<rparr>) \<and> array_inv arr'
     \<and> array_vals arr' = map Some (bs @ [b])"
  using svz_array_add_vals [OF assms(2), of "Some b"] assms(1,3) by (auto simp: array_append_def)

lemma find_binding_ok:
  assumes "bound st a bs" "\<forall>b\<in>set bs. portcfg_cmp (bd_port b) port st \<noteq> None"
  shows "\<exists>f. find_binding a server port st = Some f \<and> (f = None \<longleftrightarrow> \<not> already st bs server port)"
proof -
  let ?Q = "\<lambda>b. bd_server b = server \<and> portcfg_cmp (bd_port b) port st = Some SVZ_PORTCFG_EQUAL"
  have "same_binding server port st b = Some (?Q b)" if "b \<in> set bs" for b
    using assms(2) that by (auto simp: same_binding_def portcfg_exactly_equal_def)
  then have "findM (same_binding server port st) bs = Some (find ?Q bs)" by (intro findM_total) simp
  moreover have "find ?Q bs = None \<longleftrightarrow> \<not> already st bs server port" by (auto simp: find_None_iff already_def)
  ultimately show ?thesis using bound_elems [OF assms(1)] by (simp add: find_binding_def)
qed


subsection \<open>Removing a server\<close>

text \<open>The configurations after those of the bindings \<open>bs\<close> of a server have been freed.\<close>

definition freed_ports :: "nat \<Rightarrow> svz_binding list \<Rightarrow> (addr \<Rightarrow> svz_portcfg option) \<Rightarrow> addr \<Rightarrow> svz_portcfg option" where
  "freed_ports server bs ports q = (if \<exists>b\<in>set bs. bd_server b = server \<and> bd_port b = q then None else ports q)"

lemma freed_ports_simps:
  "freed_ports server [] ports = ports"
  "bd_server b \<noteq> server \<Longrightarrow> freed_ports server (b # bs) ports = freed_ports server bs ports"
  "bd_server b = server \<Longrightarrow> freed_ports server (b # bs) ports = freed_ports server bs (ports(bd_port b := None))"
  by (auto simp: freed_ports_def fun_eq_iff)

lemma zonk_loop_spec:
  assumes "array_inv arr" "array_vals arr = map Some (us @ bs)" "distinct (map bd_port bs)" "\<forall>b\<in>set bs. ns_ports st (bd_port b) \<noteq> None"
  shows "\<exists>arr'. zonk_loop server (length us) (Some arr) st = Some (Some arr', st\<lparr>ns_ports := freed_ports server bs (ns_ports st)\<rparr>)
     \<and> array_inv arr' \<and> array_vals arr' = map Some (us @ [b\<leftarrow>bs. bd_server b \<noteq> server])"
  using assms
proof (induction bs arbitrary: arr us st)
  case Nil
  then have "svz_array_size (Some arr) = length us" by (simp add: svz_array_size_def array_inv_holds)
  moreover have "st\<lparr>ns_ports := ns_ports st\<rparr> = st" by simp
  ultimately show ?case using Nil by (simp add: zonk_loop.simps freed_ports_simps)
next
  case (Cons b bs)
  have at: "length us < svz_array_size (Some arr)" "svz_array_get (Some arr) (length us) = Some (Some b)"
    using Cons.prems(1,2) svz_array_get_vals [OF Cons.prems(1), of "length us"]
    by (simp_all add: svz_array_size_def array_inv_holds nth_append)
  show ?case
  proof (cases "bd_server b = server")
    case False
    have "array_vals arr = map Some ((us @ [b]) @ bs)" using Cons.prems(2) by simp
    from Cons.IH [OF Cons.prems(1) this, of st] Cons.prems(3,4) show ?thesis using at False
      by (simp add: zonk_loop.simps [of server "length us" "Some arr" st] freed_ports_simps)
  next
    case True
    let ?st = "st\<lparr>ns_ports := (ns_ports st)(bd_port b := None)\<rparr>"
    have "length us < length (array_vals arr)" using Cons.prems(2) by simp
    from svz_array_del_vals [OF Cons.prems(1) this] obtain arr1 where arr1: "svz_array_del (Some arr) (length us) = Some (Some b, Some arr1)"
        "array_inv arr1" "array_vals arr1 = map Some (us @ bs)" using Cons.prems(2) by (auto simp: nth_append)
    have "bd_port b \<notin> bd_port ` set bs" "distinct (map bd_port bs)" using Cons.prems(3) by auto
    then have "bd_port c \<noteq> bd_port b" if "c \<in> set bs" for c using that by (metis imageI)
    then have "\<forall>b\<in>set bs. ns_ports ?st (bd_port b) \<noteq> None" "distinct (map bd_port bs)" using Cons.prems(3,4) by auto
    from Cons.IH [OF arr1(2,3) this(2,1)] show ?thesis using at True arr1(1) Cons.prems(4)
      by (simp add: zonk_loop.simps [of server "length us" "Some arr" st] freed_ports_simps svz_binding_destroy_def svz_portcfg_free_def fun_upd_def)
  qed
qed

text \<open>
  C36. Taking a server off a listener, \<^verbatim>\<open>svz_sock_bindings_zonk_server\<close>: the bindings of the other servers stay, in their order, and exactly the port configurations of the
  removed bindings are freed; the result is the number of bindings left. When the configuration of the listener itself belongs to one of the
  removed bindings, as it does for the server that the listener was created for, the pointer \<^verbatim>\<open>port\<close> of the
  listener dangles afterwards, also when other servers stay bound.
\<close>

theorem zonk_server_removes:
  assumes "bound st a bs" and "distinct (map bd_port bs)"
  shows "\<exists>st'. svz_sock_bindings_zonk_server a server st = Some (length [b\<leftarrow>bs. bd_server b \<noteq> server], st')
     \<and> bound st' a [b\<leftarrow>bs. bd_server b \<noteq> server]
     \<and> ns_ports st' = freed_ports server bs (ns_ports st) \<and> ns_core st' = ns_core st
     \<and> (\<forall>s b. the_sock st a = Some s \<longrightarrow> b \<in> set bs \<longrightarrow> bd_server b = server \<longrightarrow> sk_port s = Some (bd_port b) \<longrightarrow>
          the_sock st' a = Some s \<and> ns_ports st' (bd_port b) = None)"
proof -
  let ?rest = "[b\<leftarrow>bs. bd_server b \<noteq> server]"
  obtain s where s: "the_sock st a = Some s" "case ns_ears st (sk_id s, sk_version s) of None \<Rightarrow> bs = []
      | Some p \<Rightarrow> (\<exists>arr. ns_arrays st p = Some arr \<and> array_inv arr \<and> array_vals arr = map Some bs)"
    and ports: "\<forall>b\<in>set bs. ns_ports st (bd_port b) \<noteq> None" using assms(1) by (auto simp: bound_def)
  show ?thesis
  proof (cases "ns_ears st (sk_id s, sk_version s)")
    case None
    then show ?thesis using s assms(1) by (simp add: svz_sock_bindings_zonk_server_def svz_sock_bindings_def freed_ports_simps)
  next
    case (Some p)
    then obtain arr where arr: "ns_arrays st p = Some arr" "array_inv arr" "array_vals arr = map Some ([] @ bs)" using s(2) by auto
    from zonk_loop_spec [OF arr(2,3) assms(2) ports, of server] obtain arr' where arr': "zonk_loop server 0 (Some arr) st
        = Some (Some arr', st\<lparr>ns_ports := freed_ports server bs (ns_ports st)\<rparr>)" "array_inv arr'" "array_vals arr' = map Some ?rest" by auto
    let ?st = "st\<lparr>ns_ports := freed_ports server bs (ns_ports st), ns_arrays := (ns_arrays st)(p \<mapsto> arr')\<rparr>"
    have "\<forall>b\<in>set ?rest. freed_ports server bs (ns_ports st) (bd_port b) \<noteq> None"
      using ports assms(2) by (auto simp: freed_ports_def distinct_map inj_on_def)
    then have "bound ?st a ?rest" using s(1) Some arr'(2,3) by (simp add: bound_def the_sock_def)
    moreover have "svz_array_size (Some arr') = length ?rest" using arr'(2,3) by (simp add: svz_array_size_def array_inv_holds)
    ultimately show ?thesis using s(1) Some arr(1) arr'(1)
      by (auto simp: svz_sock_bindings_zonk_server_def svz_sock_bindings_def the_sock_def freed_ports_def)
  qed
qed

subsection \<open>An example\<close>

text \<open>A listener at address 1: the server 8 is bound for every address, the server 9 for 127.0.0.1.\<close>

definition ex_bindings :: "svz_binding svz_array" where
  "ex_bindings = the (the (add_all (Some (svz_array_create 1 True)) [make_binding 8 1, make_binding 9 2]))"

lemma ex_bindings_vals: "array_inv ex_bindings" "array_vals ex_bindings = map Some [make_binding 8 1, make_binding 9 2]"
  using add_all_ok [OF conjunct1 [OF array_inv_create [of 1 True]], of "[make_binding 8 1, make_binding 9 2]"] array_inv_create [of 1 True]
  by (auto simp: ex_bindings_def simp del: add_all.simps)

definition ex_bst :: "int net_st" where
  "ex_bst = ex_st\<lparr>ns_core := core_init\<lparr>heap := [1 \<mapsto> (svz_sock_alloc 0)\<lparr>sk_id := 0, sk_version := 0, sk_port := Some 1\<rparr>]\<rparr>,
     ns_ports := [1 \<mapsto> ex_any, 2 \<mapsto> ex_one, 3 \<mapsto> ex_any], ns_ears := [(0, 0) \<mapsto> 0], ns_arrays := [0 \<mapsto> ex_bindings]\<rparr>"

lemma ex_bst_bound: "bound ex_bst 1 [make_binding 8 1, make_binding 9 2]"
  using ex_bindings_vals by (simp add: bound_def ex_bst_def the_sock_def make_binding_def)

lemma ex_cmp: "portcfg_cmp 1 3 ex_bst = Some SVZ_PORTCFG_EQUAL" "portcfg_cmp 2 3 ex_bst = Some SVZ_PORTCFG_MATCH"
proof -
  have f: "\<not> pc_flag ex_any PORTCFG_FLAG_DEVICE" "\<not> pc_flag ex_one PORTCFG_FLAG_DEVICE" "pc_flag ex_any PORTCFG_FLAG_ANY" "\<not> pc_flag ex_one PORTCFG_FLAG_ANY"
    by (simp_all add: pc_flag_def ex_made PORTCFG_FLAG_DEVICE_def PORTCFG_FLAG_ANY_def)
  show "portcfg_cmp 1 3 ex_bst = Some SVZ_PORTCFG_EQUAL" "portcfg_cmp 2 3 ex_bst = Some SVZ_PORTCFG_MATCH"
    using portcfg_equal_net [OF ex_made(1) ex_made(1) f(1,1)] portcfg_equal_net [of ex_one _ ex_any, OF _ ex_made(1) f(2,1)] f(3,4)
    by (simp_all add: portcfg_cmp_def ex_bst_def cmp_addr_def ex_made)
qed


theorem zonk_server_removes_witness:
  "\<exists>st'. svz_sock_bindings_zonk_server 1 8 ex_bst = Some (1, st') \<and> bound st' 1 [make_binding 9 2]
     \<and> map_option sk_port (the_sock st' 1) = Some (Some 1) \<and> ns_ports st' 1 = None"
proof -
  let ?s = "(svz_sock_alloc 0)\<lparr>sk_id := 0, sk_version := 0, sk_port := Some 1\<rparr>"
  have s: "the_sock ex_bst 1 = Some ?s" by (simp add: the_sock_def ex_bst_def)
  have "distinct (map bd_port [make_binding 8 1, make_binding 9 2])" by (simp add: make_binding_def)
  from zonk_server_removes [OF ex_bst_bound this, of 8] obtain st' where
    st': "svz_sock_bindings_zonk_server 1 8 ex_bst = Some (1, st')" "bound st' 1 [make_binding 9 2]" "ns_core st' = ns_core ex_bst"
      "ns_ports st' = freed_ports 8 [make_binding 8 1, make_binding 9 2] (ns_ports ex_bst)" by (auto simp: make_binding_def)
  then show ?thesis using s by (auto simp: the_sock_def freed_ports_def make_binding_def)
qed

end
