(* ===== verification/Svz_Pipe.thy ===== *)
theory Svz_Pipe
  imports Svz_Net
begin

text \<open>
  Named pipes, \<^verbatim>\<open>pipe-socket.c\<close>: the callbacks that move data between the buffers and the pipes, and the functions that create, open
  and connect the pipe files under other user and group ids. The file system and the calls that change the
  identity of the process are the parameter record \<open>files\<close>.
\<close>

subsection \<open>Data\<close>

definition svz_pipe_read_socket ::
    "'w os \<Rightarrow> 'w sock_cb \<Rightarrow> 'w kick_cb \<Rightarrow> svz_socket \<Rightarrow> 'w \<Rightarrow> (int \<times> svz_socket \<times> 'w) option" where
  "svz_pipe_read_socket os check_request kicked sock w =
     (let do_read = sk_recv_buffer_size sock - sk_recv_buffer_fill sock
      in if do_read \<le> 0
         then let (sock, w) = kick kicked sock 0 w in Some (-1, sock, w)
         else
           let ((num_read, bytes), w) = os_recv os (sk_pipe_read sock) (nat do_read) w
           in if num_read = -1
              then Some (if os_unavailable os w then 0 else -1, sock, w)
              else if num_read > 0
              then do {
                xs \<leftarrow> buf_write (sk_recv_buffer sock) (sk_recv_buffer_fill sock) bytes;
                let sock = sock\<lparr>sk_recv_buffer := Some xs, sk_last_recv := os_time os w\<rparr>;
                let (kicked_p, sock, w) = svz_sock_flood_protect kicked sock num_read w;
                if kicked_p \<noteq> 0 then Some (-1, sock, w)
                else do {
                  let sock = sock\<lparr>sk_recv_buffer_fill := sk_recv_buffer_fill sock + num_read\<rparr>;
                  if sk_check_request sock \<noteq> CR_NULL then do {
                    (r, sock, w) \<leftarrow> check_request sock w;
                    Some (if r \<noteq> 0 then -1 else 0, sock, w) }
                  else Some (0, sock, w)
                }
              }
              else Some (-1, sock, w))"

definition svz_pipe_write_socket :: "'w os \<Rightarrow> 'w sock_cb" where
  "svz_pipe_write_socket os sock w = do {
     let do_write = sk_send_buffer_fill sock;
     bytes \<leftarrow> buf_read (sk_send_buffer sock) 0 do_write;
     let (num_written, w) = os_send os (sk_pipe_write sock) bytes w;
     let (num_written, sock) =
       (if num_written = -1 then
          (let (waiting, sock) = svz_wait_if_unavailable os sock 1 w in (if waiting \<noteq> 0 then 0 else num_written, sock))
        else (num_written, sock));
     sock \<leftarrow>
       (if num_written > 0 then do {
          let sock = sock\<lparr>sk_last_send := os_time os w\<rparr>;
          buf \<leftarrow> (if sk_send_buffer_fill sock > num_written
                 then buf_move (sk_send_buffer sock) 0 num_written (sk_send_buffer_fill sock - num_written)
                 else sk_send_buffer sock);
          Some (sock\<lparr>sk_send_buffer := Some buf, sk_send_buffer_fill := sk_send_buffer_fill sock - num_written\<rparr>) }
        else Some sock);
     Some (if num_written < 0 then -1 else 0, sock, w)
   }"

subsection \<open>The identity of the process\<close>

record 'w files =
  fi_umask :: "u32 \<Rightarrow> 'w \<Rightarrow> u32 \<times> 'w"
  fi_getuid :: "'w \<Rightarrow> u32"
  fi_getgid :: "'w \<Rightarrow> u32"
  fi_setuid :: "u32 \<Rightarrow> 'w \<Rightarrow> int \<times> 'w"
  fi_setgid :: "u32 \<Rightarrow> 'w \<Rightarrow> int \<times> 'w"
  fi_stat :: "mem \<Rightarrow> 'w \<Rightarrow> bool option"
  fi_mkfifo :: "mem \<Rightarrow> u32 \<Rightarrow> 'w \<Rightarrow> int \<times> 'w"
  fi_open :: "mem \<Rightarrow> bool \<Rightarrow> 'w \<Rightarrow> int \<times> 'w"
  fi_fstat :: "int \<Rightarrow> 'w \<Rightarrow> bool option"

text \<open>
  \<open>fi_stat\<close> and \<open>fi_fstat\<close> say whether a file is a fifo (\<^term>\<open>None\<close>: the call fails); the flag of \<open>fi_open\<close> is set for writing.
\<close>

definition save_state :: "'w files \<Rightarrow> 'w \<Rightarrow> (u32 \<times> u32 \<times> u32) \<times> 'w" where
  "save_state fi w = (let (mask, w) = fi_umask fi 0 w in ((mask, fi_getuid fi w, fi_getgid fi w), w))"

definition set_state :: "'w files \<Rightarrow> u32 \<times> u32 \<times> u32 \<Rightarrow> 'w \<Rightarrow> int \<times> 'w" where
  "set_state fi = (\<lambda>(mask, uid, gid) w.
     let (old, w) = fi_umask fi mask w; (r, w) = fi_setuid fi uid w
     in if r < 0 then (-1, w)
        else let (r, w) = fi_setgid fi gid w in if r < 0 then (-1, w) else (0, w))"

definition try_state :: "'w files \<Rightarrow> svz_pipe \<Rightarrow> 'w \<Rightarrow> int \<times> 'w" where
  "try_state fi pipe w =
     (let w = (if pi_perm pipe \<noteq> -1 then snd (fi_umask fi (NOT (pi_perm pipe)) w) else w);
          (r, w) = (if pi_gid pipe \<noteq> -1 then fi_setgid fi (pi_gid pipe) w else (0, w))
      in if r < 0 then (-1, w)
         else let (r, w) = (if pi_uid pipe \<noteq> -1 then fi_setuid fi (pi_uid pipe) w else (0, w))
              in if r < 0 then (-1, w) else (0, w))"

subsection \<open>Opening and creating pipes\<close>

definition set_files :: "mem option \<Rightarrow> mem option \<Rightarrow> svz_socket \<Rightarrow> svz_socket" where
  "set_files recv send sock = sock\<lparr>sk_recv_pipe := svz_strdup recv, sk_send_pipe := svz_strdup send\<rparr>"

text \<open>
  Opening a pipe as the user of its configuration; -1 when the identity cannot be taken or the file not opened.
  \<open>undo\<close> is the clean-up that the caller does before it restores the identity on these paths.
\<close>

definition open_as ::
    "'w files \<Rightarrow> svz_pipe \<Rightarrow> mem \<Rightarrow> bool \<Rightarrow> ('w \<Rightarrow> 'w) \<Rightarrow> 'w \<Rightarrow> int \<times> 'w" where
  "open_as fi pipe name for_write undo w =
     (let (state, w) = save_state fi w; (r, w) = try_state fi pipe w
      in if r < 0 then (-1, snd (set_state fi state (undo w)))
         else let (fd, w) = fi_open fi name for_write w
              in if fd = -1 then (-1, snd (set_state fi state (undo w)))
                 else (fd, snd (set_state fi state w)))"

definition is_fifo :: "'w files \<Rightarrow> mem \<Rightarrow> 'w \<Rightarrow> bool" where
  "is_fifo fi name w \<longleftrightarrow> fi_stat fi name w = Some True"

text \<open>
  \<^verbatim>\<open>stat\<close> and \<^verbatim>\<open>open\<close> of a \<^verbatim>\<open>NULL\<close> name are undefined. The code allocates the structure first and frees
  it on the failing paths; the model allocates it where the connection is established.
\<close>

definition svz_pipe_connect ::
    "'w files \<Rightarrow> 'w sys \<Rightarrow> svz_pipe \<Rightarrow> svz_pipe \<Rightarrow> 'w net_st \<Rightarrow> (addr option \<times> 'w net_st) option" where
  "svz_pipe_connect fi sy recv send st = do {
     recv_name \<leftarrow> svz_strdup (pi_name recv);
     send_name \<leftarrow> svz_strdup (pi_name send);
     let w = ns_world st;
     if \<not> is_fifo fi recv_name w then Some (None, st)
     else if \<not> is_fifo fi send_name w then Some (None, st)
     else do {
       let (recv_pipe, w) = open_as fi recv recv_name False (\<lambda>w. w) w;
       if recv_pipe = -1 then Some (None, st\<lparr>ns_world := w\<rparr>)
       else do {
         let (send_pipe, w) = open_as fi send send_name True (sy_close sy recv_pipe) w;
         if send_pipe = -1 then Some (None, st\<lparr>ns_world := w\<rparr>)
         else do {
           let (r, w) = svz_fd_nonblock sy send_pipe w;
           let (r, w) = (if r \<noteq> 0 then (r, w) else svz_fd_cloexec sy send_pipe w);
           let (r, w) = (if r \<noteq> 0 then (r, w) else svz_fd_cloexec sy recv_pipe w);
           if r \<noteq> 0 then Some (None, st\<lparr>ns_world := sy_close sy send_pipe (sy_close sy recv_pipe w)\<rparr>)
           else do {
             (a, st) \<leftarrow> pipe_connect_end sy recv_pipe send_pipe (st\<lparr>ns_world := w\<rparr>);
             st \<leftarrow> upd_sock a (set_files (pi_name recv) (pi_name send)) st;
             Some (Some a, st)
           }
         }
       }
     }
   }"

text \<open>Creating a fifo that does not exist yet: 0 or -1.\<close>

definition ensure_fifo :: "'w files \<Rightarrow> svz_pipe \<Rightarrow> mem \<Rightarrow> 'w \<Rightarrow> int \<times> 'w" where
  "ensure_fifo fi pipe name w =
     (if fi_stat fi name w = None then
        let (state, w) = save_state fi w; (r, w) = try_state fi pipe w
        in if r < 0 then (-1, snd (set_state fi state w))
           else let (r, w) = fi_mkfifo fi name 438 w
                in if r \<noteq> 0 then (-1, snd (set_state fi state w))
                   else if \<not> is_fifo fi name w then (-1, snd (set_state fi state w))
                   else (0, snd (set_state fi state w))
      else (0, w))"

definition svz_pipe_listener ::
    "'w files \<Rightarrow> 'w sys \<Rightarrow> svz_pipe \<Rightarrow> svz_pipe \<Rightarrow> svz_socket \<Rightarrow> 'w \<Rightarrow> int \<times> svz_socket \<times> 'w" where
  "svz_pipe_listener fi sy recv send sock w =
     (let sock = set_files (pi_name recv) (pi_name send) sock
      in case (sk_recv_pipe sock, sk_send_pipe sock) of
           (Some recv_name, Some send_name) \<Rightarrow>
             (let (r, w) = ensure_fifo fi recv recv_name w
              in if r < 0 then (-1, sock, w)
                 else let (r, w) = ensure_fifo fi send send_name w
                      in if r < 0 then (-1, sock, w)
                         else let (recv_pipe, w) = fi_open fi recv_name False w
                              in if recv_pipe = -1 then (-1, sock, w)
                                 else if fi_fstat fi recv_pipe w \<noteq> Some True then (-1, sock, sy_close sy recv_pipe w)
                                 else let (r, w) = svz_fd_cloexec sy recv_pipe w
                                      in (0, set_flag SVZ_SOFLG_RECV_PIPE (sock\<lparr>sk_pipe_read := recv_pipe\<rparr>), w))
         | _ \<Rightarrow> (-1, sock, w))"

subsection \<open>The stream through a pipe\<close>

text \<open>Dropping the bytes that were written is \<^verbatim>\<open>svz_sock_reduce_send\<close>, in line.\<close>

lemma pipe_reduce:
  assumes "send_rep sock pend" "0 < n" "n \<le> int (length pend)"
  shows "\<exists>buf. (if sk_send_buffer_fill sock > n
            then buf_move (sk_send_buffer sock) 0 n (sk_send_buffer_fill sock - n) else sk_send_buffer sock) = Some buf
     \<and> buf_rep (Some buf) (sk_send_buffer_size sock) (sk_send_buffer_fill sock - n) (drop (nat n) pend)"
proof -
  obtain xs where xs: "svz_sock_reduce_send sock n = Some (sock\<lparr>sk_send_buffer := Some xs, sk_send_buffer_fill := sk_send_buffer_fill sock - n\<rparr>)"
      "buf_rep (Some xs) (sk_send_buffer_size sock) (sk_send_buffer_fill sock - n) (drop (nat n) pend)"
    using svz_sock_reduce_send_rep [of sock pend n] assms by auto
  then have "map_option sk_send_buffer (svz_sock_reduce_send sock n) = Some (Some xs)" by simp
  then have "(if sk_send_buffer_fill sock > n
      then buf_move (sk_send_buffer sock) 0 n (sk_send_buffer_fill sock - n) else sk_send_buffer sock) = Some xs"
    using assms(2) by (cases "buf_move (sk_send_buffer sock) 0 n (sk_send_buffer_fill sock - n)")
      (simp_all add: svz_sock_reduce_send_def split: if_splits)
  then show ?thesis using xs(2) by blast
qed

lemma pipe_stream_writer:
  assumes "posix_send os wire"
  shows "stream_writer (svz_pipe_write_socket os) wire"
  unfolding stream_writer_def
proof (intro allI impI)
  fix sock w pend
  assume rep: "send_rep sock pend"
  then have b: "buf_rep (sk_send_buffer sock) (sk_send_buffer_size sock) (sk_send_buffer_fill sock) pend" by (simp add: send_rep_def)
  then have fill: "sk_send_buffer_fill sock = int (length pend)" using buf_rep_length by blast
  then have bytes: "buf_read (sk_send_buffer sock) 0 (sk_send_buffer_fill sock) = Some pend"
    using buf_read_rep [OF b, of 0 "sk_send_buffer_fill sock"] by simp
  obtain n w1 where sd: "os_send os (sk_pipe_write sock) pend w = (n, w1)" by fastforce
  have n: "n \<le> int (length pend)" "wire w1 = wire w @ take (nat n) pend"
    using assms sd unfolding posix_send_def by (metis fst_conv, metis fst_conv snd_conv)
  show "\<exists>ret sock' w' pend'. svz_pipe_write_socket os sock w = Some (ret, sock', w') \<and> send_rep sock' pend'
      \<and> sk_send_buffer_size sock' = sk_send_buffer_size sock \<and> wire w' @ pend' = wire w @ pend"
  proof (cases "n > 0")
    case True
    from pipe_reduce [OF rep True n(1)] show ?thesis using True n(2)
      by (fastforce simp: svz_pipe_write_socket_def bytes sd Let_def send_rep_def)
  next
    case False
    then show ?thesis using n(2) rep
      by (auto simp: svz_pipe_write_socket_def bytes sd Let_def send_rep_def svz_wait_if_unavailable_def)
  qed
qed

text \<open>
  Writing to a pipe socket always returns and never touches memory outside of the send buffer, also when \<^verbatim>\<open>write\<close> takes a
  part of the queue only: what is in the pipe followed by what is queued grows by a prefix of the given bytes, by all of them when the result is 0.
\<close>

theorem pipe_write_stream:
  assumes "posix_send os wire" and "kick_keeps kicked wire" and "send_rep sock pend" and "\<not> has_flag sock SVZ_SOFLG_KILLED"
  shows "\<exists>ret sock' w' pend' k.
           svz_sock_write (svz_pipe_write_socket os) kicked sock buf w = Some (ret, sock', w')
           \<and> send_rep sock' pend' \<and> wire w' @ pend' = wire w @ pend @ take k buf \<and> (ret = 0 \<longrightarrow> k = length buf)"
  using svz_sock_write_loop_stream [OF pipe_stream_writer [OF assms(1)] assms(3,2)] assms(4) by (auto simp: svz_sock_write_def)

theorem pipe_write_stream_witness:
  "\<exists>ret sock' w' pend' k.
     svz_sock_write (svz_pipe_write_socket slow_os) None (set_flag SVZ_SOFLG_CONNECTED (svz_sock_alloc 0)) [1, 2, 3, 4] [9]
       = Some (ret, sock', w')
     \<and> send_rep sock' pend' \<and> id w' @ pend' = id [9] @ [] @ take k [1, 2, 3, 4] \<and> (ret = 0 \<longrightarrow> k = length [1, 2, 3, 4 :: byte])"
proof (intro pipe_write_stream posix_send_slow_os)
  show "send_rep (set_flag SVZ_SOFLG_CONNECTED (svz_sock_alloc 0)) []" using svz_sock_alloc_rep by simp
  show "\<not> has_flag (set_flag SVZ_SOFLG_CONNECTED (svz_sock_alloc 0)) SVZ_SOFLG_KILLED"
    by (simp add: has_flag_def svz_sock_alloc_def set_flag_def soflg_defs)
qed simp

subsection \<open>The identity is restored\<close>

text \<open>
  What the code relies on of the system, with \<^verbatim>\<open>seteuid\<close> and \<^verbatim>\<open>setegid\<close>: \<^verbatim>\<open>umask\<close> returns the old mask and sets the permission bits of
  the new one; a change of the effective ids takes effect or fails without effect, and never fails for the ids in \<open>us\<close> and \<open>gs\<close>, the real and
  the saved ones; the calls on files and descriptors leave the identity alone. \<open>ids w\<close> is the mask and the effective user and group id.
\<close>

definition posix_ids :: "'w files \<Rightarrow> 'w sys \<Rightarrow> ('w \<Rightarrow> u32 \<times> u32 \<times> u32) \<Rightarrow> u32 set \<Rightarrow> u32 set \<Rightarrow> bool" where
  "posix_ids fi sy ids us gs \<longleftrightarrow>
     (\<forall>m w. fst (fi_umask fi m w) = fst (ids w) \<and> ids (snd (fi_umask fi m w)) = (m AND 511, snd (ids w)) \<and> fst (ids w) AND 511 = fst (ids w))
   \<and> (\<forall>w. fi_getuid fi w = fst (snd (ids w)) \<and> fi_getgid fi w = snd (snd (ids w)))
   \<and> (\<forall>u w. ids (snd (fi_setuid fi u w)) = (if fst (fi_setuid fi u w) < 0 then ids w else (fst (ids w), u, snd (snd (ids w))))
        \<and> (u \<in> us \<longrightarrow> 0 \<le> fst (fi_setuid fi u w)))
   \<and> (\<forall>g w. ids (snd (fi_setgid fi g w)) = (if fst (fi_setgid fi g w) < 0 then ids w else (fst (ids w), fst (snd (ids w)), g))
        \<and> (g \<in> gs \<longrightarrow> 0 \<le> fst (fi_setgid fi g w)))
   \<and> (\<forall>n f w. ids (snd (fi_open fi n f w)) = ids w) \<and> (\<forall>n p w. ids (snd (fi_mkfifo fi n p w)) = ids w)
   \<and> (\<forall>fd w. ids (sy_close sy fd w) = ids w)
   \<and> (\<forall>fd x w. ids (snd (sy_setfl sy fd x w)) = ids w) \<and> (\<forall>fd x w. ids (snd (sy_setfd sy fd x w)) = ids w)"

text \<open>The identity a pipe configuration asks for.\<close>

definition wanted :: "svz_pipe \<Rightarrow> u32 \<times> u32 \<times> u32 \<Rightarrow> u32 \<times> u32 \<times> u32" where
  "wanted pipe = (\<lambda>(m, u, g). (if pi_perm pipe = -1 then 0 else NOT (pi_perm pipe) AND 511,
     if pi_uid pipe = -1 then u else pi_uid pipe, if pi_gid pipe = -1 then g else pi_gid pipe))"

lemma posix_file_ids:
  assumes "posix_ids fi sy ids us gs"
  shows "ids (snd (fi_open fi n f w)) = ids w" "ids (snd (fi_mkfifo fi n p w)) = ids w" "ids (sy_close sy fd w) = ids w"
    "ids (snd (sy_setfl sy fd x w)) = ids w" "ids (snd (sy_setfd sy fd x w)) = ids w"
  using assms by (simp_all add: posix_ids_def)

lemma posix_fd_ids:
  assumes "posix_ids fi sy ids us gs"
  shows "ids (snd (svz_fd_nonblock sy fd w)) = ids w" "ids (snd (svz_fd_cloexec sy fd w)) = ids w"
  using posix_file_ids [OF assms] by (simp_all add: svz_fd_nonblock_def svz_fd_cloexec_def Let_def split: prod.splits) (metis snd_conv)+

lemma save_state_ids:
  assumes "posix_ids fi sy ids us gs"
  shows "fst (save_state fi w) = ids w" "ids (snd (save_state fi w)) = (0, snd (ids w))"
proof -
  have "fst (fi_umask fi 0 w) = fst (ids w)" "ids (snd (fi_umask fi 0 w)) = (0, snd (ids w))"
      "fi_getuid fi (snd (fi_umask fi 0 w)) = fst (snd (ids w))" "fi_getgid fi (snd (fi_umask fi 0 w)) = snd (snd (ids w))"
    using assms unfolding posix_ids_def by simp_all
  then show "fst (save_state fi w) = ids w" "ids (snd (save_state fi w)) = (0, snd (ids w))"
    by (simp_all add: save_state_def case_prod_beta prod_eq_iff)
qed

lemma set_state_ids:
  assumes "posix_ids fi sy ids us gs" "fst state AND 511 = fst state" "fst (snd state) \<in> us" "snd (snd state) \<in> gs"
  shows "ids (snd (set_state fi state w)) = state"
proof -
  obtain m u g where st: "state = (m, u, g)" by (cases state)
  define w1 where "w1 = snd (fi_umask fi m w)"
  define w2 where "w2 = snd (fi_setuid fi u w1)"
  have 1: "ids w1 = (m, snd (ids w))" using assms(1,2) unfolding posix_ids_def w1_def st by simp
  have 2: "0 \<le> fst (fi_setuid fi u w1)" "ids w2 = (m, u, snd (snd (ids w)))"
    using assms(1,3) 1 unfolding posix_ids_def w2_def st by simp_all (meson leD)+
  have 3: "0 \<le> fst (fi_setgid fi g w2)" "ids (snd (fi_setgid fi g w2)) = (m, u, g)"
    using assms(1,4) 2(2) unfolding posix_ids_def st by simp_all (meson leD)+
  show ?thesis using 2(1) 3 by (simp add: set_state_def st case_prod_beta Let_def w1_def [symmetric] w2_def [symmetric])
qed

lemma try_state_ids:
  assumes "posix_ids fi sy ids us gs" "fst (try_state fi pipe w) \<ge> 0" "fst (ids w) = 0"
  shows "ids (snd (try_state fi pipe w)) = wanted pipe (ids w)"
proof -
  define w1 where "w1 = (if pi_perm pipe \<noteq> -1 then snd (fi_umask fi (NOT (pi_perm pipe)) w) else w)"
  define r2 where "r2 = (if pi_gid pipe \<noteq> -1 then fi_setgid fi (pi_gid pipe) w1 else (0, w1))"
  define r3 where "r3 = (if pi_uid pipe \<noteq> -1 then fi_setuid fi (pi_uid pipe) (snd r2) else (0, snd r2))"
  have t: "try_state fi pipe w = (if fst r2 < 0 then (-1, snd r2) else if fst r3 < 0 then (-1, snd r3) else (0, snd r3))"
    unfolding try_state_def w1_def [symmetric] Let_def r2_def [symmetric] case_prod_beta r3_def [symmetric] ..
  then have ok: "\<not> fst r2 < 0" "\<not> fst r3 < 0" using assms(2) by (auto split: if_splits)
  have 1: "ids w1 = (if pi_perm pipe = -1 then 0 else NOT (pi_perm pipe) AND 511, snd (ids w))"
    using assms(1,3) unfolding posix_ids_def w1_def by (auto simp: prod_eq_iff)
  have 2: "ids (snd r2) = (fst (ids w1), fst (snd (ids w1)), if pi_gid pipe = -1 then snd (snd (ids w1)) else pi_gid pipe)"
    using assms(1) ok(1) unfolding posix_ids_def r2_def by auto
  have "ids (snd r3) = (fst (ids (snd r2)), if pi_uid pipe = -1 then fst (snd (ids (snd r2))) else pi_uid pipe, snd (snd (ids (snd r2))))"
    using assms(1) ok(2) unfolding posix_ids_def r3_def by auto
  then show ?thesis using t ok 1 2 by (simp add: wanted_def case_prod_beta)
qed

definition at_home :: "('w \<Rightarrow> u32 \<times> u32 \<times> u32) \<Rightarrow> u32 set \<Rightarrow> u32 set \<Rightarrow> 'w \<Rightarrow> bool" where
  "at_home ids us gs w \<longleftrightarrow> fst (snd (ids w)) \<in> us \<and> snd (snd (ids w)) \<in> gs"

lemma restore_ids:
  assumes "posix_ids fi sy ids us gs" "at_home ids us gs w"
  shows "ids (snd (set_state fi (ids w) w')) = ids w"
  using assms by (intro set_state_ids [OF assms(1)]) (simp_all add: posix_ids_def at_home_def)

lemma wanted_mask: "wanted pipe (m, x) = wanted pipe (0, x)" by (cases x) (simp add: wanted_def)

lemma open_as_ids:
  assumes p: "posix_ids fi sy ids us gs" "at_home ids us gs w"
  shows "ids (snd (open_as fi pipe name for_write undo w)) = ids w"
    "fst (open_as fi pipe name for_write undo w) \<noteq> -1 \<Longrightarrow>
       \<exists>v. ids v = wanted pipe (ids w) \<and> fst (fi_open fi name for_write v) = fst (open_as fi pipe name for_write undo w)"
proof -
  define w1 where "w1 = snd (save_state fi w)"
  define r where "r = fst (try_state fi pipe w1)"
  define w2 where "w2 = snd (try_state fi pipe w1)"
  have eqs: "save_state fi w = (ids w, w1)" "try_state fi pipe w1 = (r, w2)"
    by (simp_all add: prod_eq_iff save_state_ids [OF p(1)] w1_def r_def w2_def)
  have w1: "ids w1 = (0, snd (ids w))" by (simp add: w1_def save_state_ids [OF p(1)])
  show "ids (snd (open_as fi pipe name for_write undo w)) = ids w"
    by (simp add: open_as_def eqs case_prod_beta Let_def restore_ids [OF p])
  assume "fst (open_as fi pipe name for_write undo w) \<noteq> -1"
  then have "0 \<le> r" "fst (open_as fi pipe name for_write undo w) = fst (fi_open fi name for_write w2)"
    by (auto simp: open_as_def eqs case_prod_beta Let_def split: if_splits)
  moreover have "ids w2 = wanted pipe (ids w)" if "0 \<le> r"
    using try_state_ids [OF p(1), of pipe w1] that w1 wanted_mask [of pipe "fst (ids w)" "snd (ids w)"] by (simp add: r_def w2_def)
  ultimately show "\<exists>v. ids v = wanted pipe (ids w) \<and> fst (fi_open fi name for_write v) = fst (open_as fi pipe name for_write undo w)"
    by metis
qed

lemma ensure_fifo_ids:
  assumes p: "posix_ids fi sy ids us gs" "at_home ids us gs w"
  shows "ids (snd (ensure_fifo fi pipe name w)) = ids w"
proof -
  have "save_state fi w = (ids w, snd (save_state fi w))" by (simp add: prod_eq_iff save_state_ids [OF p(1)])
  then obtain w1 where "save_state fi w = (ids w, w1)" by blast
  then show ?thesis by (simp add: ensure_fifo_def case_prod_beta Let_def restore_ids [OF p])
qed

lemma pipe_connect_end_world: "pipe_connect_end sy r s st = Some (a, st') \<Longrightarrow> ns_world st' = ns_world st"
  by (auto simp: pipe_connect_end_def alloc_sock_def Let_def unique_id_def enqueue_def upd_sock_def with_core_def count_connection_def
      elim!: bind_SomeE)

text \<open>
  C40. The server opens named pipes under the user, group and permission mask that the port configuration names, and whatever fails on
  the way, it has its own identity back when \<^verbatim>\<open>svz_pipe_connect\<close> returns. When a socket is returned,
  both pipes were opened under the identity of their configuration.
\<close>

theorem pipe_connect_identity:
  assumes "posix_ids fi sy ids us gs" and "at_home ids us gs (ns_world st)" and "svz_pipe_connect fi sy recv send st = Some (r, st')"
  shows "ids (ns_world st') = ids (ns_world st)
     \<and> (r \<noteq> None \<longrightarrow> (\<exists>v v' n n'. svz_strdup (pi_name recv) = Some n \<and> svz_strdup (pi_name send) = Some n'
         \<and> ids v = wanted recv (ids (ns_world st)) \<and> fst (fi_open fi n False v) \<noteq> -1
         \<and> ids v' = wanted send (ids (ns_world st)) \<and> fst (fi_open fi n' True v') \<noteq> -1))"
proof -
  let ?w = "ns_world st"
  obtain n n' where n: "svz_strdup (pi_name recv) = Some n" "svz_strdup (pi_name send) = Some n'"
    using assms(3) by (auto simp: svz_pipe_connect_def elim!: bind_SomeE)
  obtain f w1 where f: "open_as fi recv n False (\<lambda>w. w) ?w = (f, w1)" by fastforce
  obtain f' w2 where f': "open_as fi send n' True (sy_close sy f) w1 = (f', w2)" by fastforce
  have w1: "ids w1 = ids ?w" using open_as_ids(1) [OF assms(1,2), of recv n False "\<lambda>w. w"] f by simp
  then have home: "at_home ids us gs w1" using assms(2) by (simp add: at_home_def)
  have w2: "ids w2 = ids ?w" using open_as_ids(1) [OF assms(1) home, of send n' True "sy_close sy f"] f' w1 by simp
  obtain q1 v1 where q1: "svz_fd_nonblock sy f' w2 = (q1, v1)" by fastforce
  obtain q2 v2 where q2: "svz_fd_cloexec sy f' v1 = (q2, v2)" by fastforce
  obtain q3 v3 where q3: "svz_fd_cloexec sy f v2 = (q3, v3)" by fastforce
  have fds: "ids v1 = ids ?w" "ids v2 = ids ?w" "ids v3 = ids ?w"
    using posix_fd_ids(1) [OF assms(1), of f' w2] posix_fd_ids(2) [OF assms(1), of f' v1] posix_fd_ids(2) [OF assms(1), of f v2] w2 q1 q2 q3
    by simp_all
  note run = assms(3) [unfolded svz_pipe_connect_def n Option.bind.simps Let_def f f' prod.case]
  have "ids (ns_world st') = ids ?w"
    using run w1 w2 fds posix_file_ids(3) [OF assms(1)]
    by (auto simp: q1 q2 q3 upd_sock_def with_core_def dest!: pipe_connect_end_world elim!: bind_SomeE split: if_splits)
  moreover have "f \<noteq> -1 \<and> f' \<noteq> -1" if "r \<noteq> None" using run that by (auto split: if_splits)
  ultimately show ?thesis
    using n open_as_ids(2) [OF assms(1,2), of recv n False "\<lambda>w. w"] open_as_ids(2) [OF assms(1) home, of send n' True "sy_close sy f"] f f' w1
    by (metis fst_conv)
qed

text \<open>
  Likewise \<^verbatim>\<open>svz_pipe_listener\<close>, which creates the fifos that do not exist: on every path, success or error, the process ends with the umask, user
  and group it had.
\<close>

theorem pipe_listener_identity:
  assumes "posix_ids fi sy ids us gs" and "at_home ids us gs w" and "svz_pipe_listener fi sy recv send sock w = (r, sock', w')"
  shows "ids w' = ids w \<and> (r = 0 \<longrightarrow> has_flag sock' SVZ_SOFLG_RECV_PIPE \<and> sk_pipe_read sock' \<noteq> -1)"
proof (cases "svz_strdup (pi_name recv) = None \<or> svz_strdup (pi_name send) = None")
  case True
  then show ?thesis using assms(3) by (auto simp: svz_pipe_listener_def set_files_def Let_def split: option.splits)
next
  case False
  then obtain n n' where n: "svz_strdup (pi_name recv) = Some n" "svz_strdup (pi_name send) = Some n'" by auto
  obtain e w1 where e: "ensure_fifo fi recv n w = (e, w1)" by fastforce
  obtain e' w2 where e': "ensure_fifo fi send n' w1 = (e', w2)" by fastforce
  have w1: "ids w1 = ids w" using ensure_fifo_ids [OF assms(1,2), of recv n] e by simp
  then have "at_home ids us gs w1" using assms(2) by (simp add: at_home_def)
  then have w2: "ids w2 = ids w" using ensure_fifo_ids [OF assms(1), of w1 send n'] e' w1 by simp
  obtain f w3 where f: "fi_open fi n False w2 = (f, w3)" by fastforce
  obtain q w4 where q: "svz_fd_cloexec sy f w3 = (q, w4)" by fastforce
  have "ids w3 = ids w" "ids w4 = ids w" using posix_file_ids(1) [OF assms(1), of n False w2] posix_fd_ids(2) [OF assms(1), of f w3] f q w2 by simp_all
  moreover have "SVZ_SOFLG_RECV_PIPE \<noteq> 0" by (simp add: SVZ_SOFLG_RECV_PIPE_def)
  ultimately show ?thesis using assms(3) w1 w2 posix_file_ids(3) [OF assms(1), of f w3]
    by (auto simp: svz_pipe_listener_def set_files_def n e e' f q Let_def split: if_splits)
qed

subsection \<open>A process that runs as root\<close>

text \<open>Its world is its mask and its effective ids; files can be opened by the user 5 only.\<close>

definition ex_fi :: "(u32 \<times> u32 \<times> u32) files" where
  "ex_fi = \<lparr>fi_umask = \<lambda>m (m0, x). (m0 AND 511, (m AND 511, x)), fi_getuid = \<lambda>w. fst (snd w), fi_getgid = \<lambda>w. snd (snd w),
     fi_setuid = \<lambda>u (m, u0, g). if u0 = 0 \<or> u = 0 then (0, (m, u, g)) else (-1, (m, u0, g)),
     fi_setgid = \<lambda>g (m, u, g0). if u = 0 \<or> g = 0 then (0, (m, u, g)) else (-1, (m, u, g0)),
     fi_stat = \<lambda>_ _. Some True, fi_mkfifo = \<lambda>_ _ w. (0, w), fi_open = \<lambda>_ f w. (if fst (snd w) = 5 then (if f then 4 else 3) else -1, w),
     fi_fstat = \<lambda>_ _. Some True\<rparr>"

definition ex_os3 :: "(u32 \<times> u32 \<times> u32) os" where
  "ex_os3 = \<lparr>os_send = \<lambda>_ m w. (int (length m), w), os_recv = \<lambda>_ _ w. ((0, []), w), os_time = \<lambda>_. 0, os_unavailable = \<lambda>_. False,
     os_recv_oob = \<lambda>_ w. ((-1, 0), w), os_send_oob = \<lambda>_ _ w. (-1, w), os_getpeername = \<lambda>_ _. None, os_getsockname = \<lambda>_ _. None\<rparr>"

definition ex_sys3 :: "(u32 \<times> u32 \<times> u32) sys" where
  "ex_sys3 = \<lparr>sy_os = ex_os3, sy_fresh = \<lambda>_. 7, sy_socket = \<lambda>_ _ w. (-1, w), sy_getfl = \<lambda>_ _. 2, sy_setfl = \<lambda>_ _ w. (0, w),
     sy_getfd = \<lambda>_ _. 0, sy_setfd = \<lambda>_ _ w. (0, w), sy_connect = \<lambda>_ _ w. (-1, w), sy_accept = \<lambda>_ w. (-1, w),
     sy_close = \<lambda>_ w. w, sy_so_error = \<lambda>_ _. (0, 0), sy_errno = \<lambda>_. 0, sy_pending = \<lambda>e. False\<rparr>"

definition ex_ids :: "u32 \<times> u32 \<times> u32 \<Rightarrow> u32 \<times> u32 \<times> u32" where
  "ex_ids = (\<lambda>(m, x). (m AND 511, x))"

definition ex_pipe :: svz_pipe where
  "ex_pipe = \<lparr>pi_name = Some [112], pi_perm = 0x1b0, pi_user = None, pi_uid = 5, pi_pgid = 0, pi_group = None, pi_gid = 6\<rparr>"

definition ex_st3 :: "(u32 \<times> u32 \<times> u32) net_st" where
  "ex_st3 = \<lparr>ns_core = core_init, ns_ports = \<lambda>_. None, ns_arrays = \<lambda>_. None, ns_ears = \<lambda>_. None, ns_world = (18, 0, 0)\<rparr>"

lemma ex_posix_ids: "posix_ids ex_fi ex_sys3 ex_ids {0} {0}"
  unfolding posix_ids_def ex_ids_def ex_fi_def ex_sys3_def by (simp add: case_prod_beta and.assoc split: prod.splits)

lemma ex_at_home: "at_home ex_ids {0} {0} (ns_world ex_st3)"
  by (simp add: at_home_def ex_ids_def ex_st3_def)

theorem pipe_listener_identity_witness:
  "\<exists>sock' w'. svz_pipe_listener ex_fi ex_sys3 ex_pipe ex_pipe (svz_sock_alloc 0) (ns_world ex_st3) = (-1, sock', w') \<and> ex_ids w' = (18, 0, 0)"
proof -
  obtain r sock' w' where r: "svz_pipe_listener ex_fi ex_sys3 ex_pipe ex_pipe (svz_sock_alloc 0) (ns_world ex_st3) = (r, sock', w')"
    by (cases "svz_pipe_listener ex_fi ex_sys3 ex_pipe ex_pipe (svz_sock_alloc 0) (ns_world ex_st3)")
  then have "r = -1"
    by (simp add: svz_pipe_listener_def ex_pipe_def ex_st3_def ex_fi_def ex_sys3_def set_files_def svz_strdup_def ensure_fifo_def Let_def)
  then show ?thesis using r pipe_listener_identity [OF ex_posix_ids ex_at_home r] by (simp add: ex_ids_def ex_st3_def)
qed

theorem pipe_connect_identity_witness:
  "\<exists>a st'. svz_pipe_connect ex_fi ex_sys3 ex_pipe ex_pipe ex_st3 = Some (Some a, st') \<and> ex_ids (ns_world st') = (18, 0, 0)
     \<and> (\<exists>v n. svz_strdup (pi_name ex_pipe) = Some n \<and> ex_ids v = (79, 5, 6) \<and> fst (fi_open ex_fi n True v) \<noteq> -1)"
proof -
  have opened: "open_as ex_fi ex_pipe [112] False (\<lambda>w. w) (18, 0, 0) = (3, (18, 0, 0))"
      "open_as ex_fi ex_pipe [112] True (sy_close ex_sys3 3) (18, 0, 0) = (4, (18, 0, 0))"
      "svz_fd_nonblock ex_sys3 4 (18, 0, 0) = (0, (18, 0, 0))" "svz_fd_cloexec ex_sys3 fd (18, 0, 0) = (0, (18, 0, 0))" for fd
    by (simp_all add: open_as_def save_state_def try_state_def set_state_def ex_fi_def ex_pipe_def ex_sys3_def Let_def
        svz_fd_nonblock_def svz_fd_cloexec_def)
  have "net_inv (ns_core ex_st3) []" "heap (ns_core ex_st3) (sy_fresh ex_sys3 (ns_core ex_st3)) = None"
    using core_init_inv by (simp_all add: net_inv_def world_inv_def ex_st3_def core_init_def)
  then obtain a st1 where st1: "pipe_connect_end ex_sys3 3 4 ex_st3 = Some (a, st1)" "valid (ns_core st1) a"
    using pipe_connect_counts [of ex_st3 "[]" ex_sys3 3 4] by auto
  then obtain c where "upd (ns_core st1) a (set_files (pi_name ex_pipe) (pi_name ex_pipe)) = Some c"
    by (auto simp: valid_def upd_def split: option.splits)
  moreover have "svz_strdup (pi_name ex_pipe) = Some [112]" "is_fifo ex_fi n w" "ex_st3\<lparr>ns_world := (18, 0, 0)\<rparr> = ex_st3" "ns_world ex_st3 = (18, 0, 0)" for n w
    by (simp_all add: ex_pipe_def svz_strdup_def is_fifo_def ex_fi_def ex_st3_def)
  ultimately obtain st' where r: "svz_pipe_connect ex_fi ex_sys3 ex_pipe ex_pipe ex_st3 = Some (Some a, st')"
    using st1(1) by (simp add: svz_pipe_connect_def opened Let_def upd_sock_def with_core_def)
  from pipe_connect_identity [OF ex_posix_ids ex_at_home r] have "ex_ids (ns_world st') = (18, 0, 0)"
      "wanted ex_pipe (ex_ids (ns_world ex_st3)) = (79, 5, 6)"
    by (simp_all add: ex_ids_def ex_st3_def wanted_def ex_pipe_def)
  then show ?thesis using r pipe_connect_identity [OF ex_posix_ids ex_at_home r] by auto
qed

end
