(* ===== verification/Svz_Listen.thy ===== *)
theory Svz_Listen
  imports Svz_Binding Svz_Pipe
begin

text \<open>
  Listening sockets: creating them and accepting connections (\<^verbatim>\<open>server-socket.c\<close>), binding servers to them (\<^verbatim>\<open>svz_server_bind\<close> of \<^verbatim>\<open>binding.c\<close>,
  \<^verbatim>\<open>server_unbind\<close> of \<^verbatim>\<open>server.c\<close>) and finding the server for an accepted connection (\<^verbatim>\<open>svz_sock_detect_proto\<close> of \<^verbatim>\<open>socket.c\<close>).

  The further system calls, the allocators and the configured maximum of connections are members of the parameter record \<open>calls\<close>.
\<close>

subsection \<open>Accepting\<close>

record 'w calls =
  ca_sys :: "'w sys"
  ca_files :: "'w files"
  ca_array :: "'w net_st \<Rightarrow> addr"
  ca_port :: "'w net_st \<Rightarrow> addr"
  ca_setsockopt :: "int \<Rightarrow> string \<Rightarrow> mem option \<Rightarrow> 'w \<Rightarrow> int \<times> 'w"
  ca_bind :: "int \<Rightarrow> sockaddr_in \<Rightarrow> 'w \<Rightarrow> int \<times> 'w"
  ca_listen :: "int \<Rightarrow> int \<Rightarrow> 'w \<Rightarrow> int \<times> 'w"
  ca_max_sockets :: int
  ca_ENXIO :: "'w \<Rightarrow> bool"
  ca_disc :: "addr \<Rightarrow> core \<Rightarrow> core option"

text \<open>A socket callback on the whole state.\<close>

type_synonym 'w net_cb = "addr \<Rightarrow> 'w net_st \<Rightarrow> (int \<times> 'w net_st) option"

text \<open>The port configuration a pointer leads to; \<^verbatim>\<open>NULL\<close> and freed memory must not be read.\<close>

definition deref_port :: "addr option \<Rightarrow> 'w net_st \<Rightarrow> svz_portcfg option" where
  "deref_port p st = do { p \<leftarrow> p; ns_ports st p }"

definition idle_protect :: "'w os \<Rightarrow> 'w net_cb" where
  "idle_protect os sock st = do {
     p \<leftarrow> svz_sock_portcfg (ns_core st) sock;
     s \<leftarrow> the_sock st sock;
     port \<leftarrow> deref_port p st;
     if os_time os (ns_world st) - sk_last_recv s > pc_detection_wait port then Some (-1, st)
     else do {
       st \<leftarrow> upd_sock sock (\<lambda>s. s\<lparr>sk_idle_counter := 1\<rparr>) st;
       Some (0, st) }
   }"

text \<open>The loop that looks for a socket with the descriptor of the new client.\<close>

partial_function (option) desc_in_use :: "core \<Rightarrow> int \<Rightarrow> addr option \<Rightarrow> bool option" where
  "desc_in_use c fd cur =
     (if cur = None then Some False
      else do {
        s \<leftarrow> heap c (the cur);
        if sk_sock_desc s = fd then Some True else desc_in_use c fd (sk_next s)
      })"

definition schedule :: "addr \<Rightarrow> 'w net_st \<Rightarrow> 'w net_st option" where
  "schedule a = with_core (\<lambda>c. svz_sock_schedule_for_shutdown c a)"

text \<open>\<^verbatim>\<open>check_frequency\<close> of a listener and its child; the record of attempts is a member of the port configuration.\<close>

definition frequency :: "'w os \<Rightarrow> addr \<Rightarrow> addr \<Rightarrow> 'w net_st \<Rightarrow> (int \<times> 'w net_st) option" where
  "frequency os parent child st = do {
     ps \<leftarrow> the_sock st parent;
     p \<leftarrow> sk_port ps;
     port \<leftarrow> ns_ports st p;
     cs \<leftarrow> the_sock st child;
     ip \<leftarrow> pp_remote cs;
     (ret, port) \<leftarrow> check_frequency os port ip (ns_world st);
     Some (ret, st\<lparr>ns_ports := (ns_ports st)(p \<mapsto> port)\<rparr>)
   }"

text \<open>What is done to a client that has been accepted; \<open>check\<close> is the call of \<^verbatim>\<open>check_request\<close>.\<close>

definition call_check :: "'w net_cb \<Rightarrow> addr \<Rightarrow> 'w net_st \<Rightarrow> 'w net_st option" where
  "call_check check sock st = do {
     s \<leftarrow> the_sock st sock;
     if sk_check_request s \<noteq> CR_NULL then do {
       (r, st) \<leftarrow> check sock st;
       if r \<noteq> 0 then schedule sock st else Some st }
     else Some st
   }"

definition enlist_client :: "addr \<Rightarrow> addr \<Rightarrow> 'w net_st \<Rightarrow> 'w net_st option" where
  "enlist_client server_sock sock st = do {
     server \<leftarrow> the_sock st server_sock;
     port \<leftarrow> deref_port (sk_port server) st;
     st \<leftarrow> upd_sock sock (set_flag SVZ_SOFLG_CONNECTED) st;
     st \<leftarrow> svz_sock_bindings_set sock (Some server_sock) st;
     st \<leftarrow> upd_sock sock (\<lambda>s. s\<lparr>sk_check_request := sk_check_request server, sk_idle_func := Some ''idle_protect'', sk_idle_counter := 1\<rparr>) st;
     st \<leftarrow> resize_sock sock (pc_send_buffer_size port) (pc_recv_buffer_size port) st;
     st \<leftarrow> enqueue sock st;
     st \<leftarrow> with_core (\<lambda>c. svz_sock_setparent c (Some sock) (Some server_sock)) st;
     st \<leftarrow> upd_sock sock (\<lambda>s. s\<lparr>sk_proto := sk_proto server\<rparr>) st;
     Some (count_connection st)
   }"

definition refuse_client :: "'w os \<Rightarrow> addr \<Rightarrow> addr \<Rightarrow> 'w net_st \<Rightarrow> (bool \<times> 'w net_st) option" where
  "refuse_client os server_sock sock st = do {
     access \<leftarrow> svz_sock_check_access st (Some server_sock) (Some sock);
     if access < 0 then Some (True, st)
     else do { (r, st) \<leftarrow> frequency os server_sock sock st; Some (r < 0, st) }
   }"

definition accept_client :: "'w os \<Rightarrow> 'w net_cb \<Rightarrow> addr \<Rightarrow> addr \<Rightarrow> 'w net_st \<Rightarrow> 'w net_st option" where
  "accept_client os check server_sock sock st = do {
     st \<leftarrow> enlist_client server_sock sock st;
     (refused, st) \<leftarrow> refuse_client os server_sock sock st;
     st \<leftarrow> (if refused then schedule sock st else Some st);
     call_check check sock st
   }"

definition tcp_accept :: "'w calls \<Rightarrow> 'w net_cb \<Rightarrow> 'w net_cb" where
  "tcp_accept ca check server_sock st = do {
     let sy = ca_sys ca;
     server \<leftarrow> the_sock st server_sock;
     let (client_socket, w) = sy_accept sy (sk_sock_desc server) (ns_world st);
     let st = st\<lparr>ns_world := w\<rparr>;
     if client_socket = -1 then Some (0, st)
     else if svz_sock_connections (ns_core st) \<ge> ca_max_sockets ca
     then Some (0, st\<lparr>ns_world := sy_close sy client_socket w\<rparr>)
     else do {
       used \<leftarrow> desc_in_use (ns_core st) client_socket (svz_sock_root (ns_core st));
       if used then Some (-1, st\<lparr>ns_world := sy_close sy client_socket w\<rparr>)
       else do {
         (sock, st) \<leftarrow> svz_sock_create sy client_socket st;
         case sock of
           None \<Rightarrow> Some (0, st)
         | Some a \<Rightarrow> do { st \<leftarrow> accept_client (sy_os sy) check server_sock a st; Some (0, st) }
       }
     }
   }"

definition pipe_accept :: "'w calls \<Rightarrow> 'w net_cb \<Rightarrow> 'w net_cb" where
  "pipe_accept ca check server_sock st = do {
     let sy = ca_sys ca;
     st \<leftarrow> upd_sock server_sock (\<lambda>s. s\<lparr>sk_idle_counter := 1\<rparr>) st;
     server \<leftarrow> the_sock st server_sock;
     name \<leftarrow> sk_send_pipe server;
     let (send_pipe, w) = fi_open (ca_files ca) name True (ns_world st);
     let st = st\<lparr>ns_world := w\<rparr>;
     if send_pipe = -1 then Some (if \<not> ca_ENXIO ca w then -1 else 0, st)
     else do {
       (sock, st) \<leftarrow> svz_pipe_create sy (sk_pipe_read server) send_pipe st;
       case sock of
         None \<Rightarrow> Some (0, st\<lparr>ns_world := sy_close sy send_pipe (ns_world st)\<rparr>)
       | Some a \<Rightarrow> do {
           st \<leftarrow> upd_sock a (\<lambda>s. s\<lparr>sk_read_socket := Some ''svz_pipe_read_socket'', sk_write_socket := WS_other ''svz_pipe_write_socket''\<rparr>) st;
           st \<leftarrow> with_core (\<lambda>c. svz_sock_setreferrer c a (Some server_sock)) st;
           st \<leftarrow> svz_sock_bindings_set a (Some server_sock) st;
           st \<leftarrow> upd_sock a (\<lambda>s. s\<lparr>sk_check_request := sk_check_request server, sk_disconnected_socket := sk_disconnected_socket server,
             sk_idle_func := Some ''idle_protect'', sk_idle_counter := 1\<rparr>) st;
           port \<leftarrow> deref_port (sk_port server) st;
           st \<leftarrow> resize_sock a (pc_send_buffer_size port) (pc_recv_buffer_size port) st;
           st \<leftarrow> enqueue a st;
           st \<leftarrow> with_core (\<lambda>c. svz_sock_setparent c (Some a) (Some server_sock)) st;
           st \<leftarrow> upd_sock a (\<lambda>s. s\<lparr>sk_proto := sk_proto server\<rparr>) st;
           st \<leftarrow> upd_sock server_sock (set_flag SVZ_SOFLG_INITED) st;
           st \<leftarrow> with_core (\<lambda>c. svz_sock_setreferrer c server_sock (Some a)) st;
           st \<leftarrow> call_check check a st;
           Some (0, st)
         }
     }
   }"

subsection \<open>Creating listeners\<close>

definition set_port :: "addr \<Rightarrow> svz_portcfg \<Rightarrow> 'w net_st \<Rightarrow> 'w net_st" where
  "set_port p cfg st = st\<lparr>ns_ports := (ns_ports st)(p \<mapsto> cfg)\<rparr>"

definition set_sin :: "(sockaddr_in \<Rightarrow> sockaddr_in) \<Rightarrow> svz_portcfg \<Rightarrow> svz_portcfg" where
  "set_sin f = upd_net (\<lambda>n. n\<lparr>nc_addr := f (nc_addr n)\<rparr>)"

text \<open>\<^verbatim>\<open>setsockopt\<close> as needed, giving up with a closed descriptor; the device makes the address any address.\<close>

definition socket_options :: "'w calls \<Rightarrow> svz_portcfg \<Rightarrow> int \<Rightarrow> 'w \<Rightarrow> bool \<times> svz_portcfg \<times> 'w" where
  "socket_options ca cfg fd w =
     (let (r, w) = (if pc_proto cfg AND SVZ_PROTO_RAW \<noteq> 0 then ca_setsockopt ca fd ''IP_HDRINCL'' None w else (0, w))
      in if r < 0 then (False, cfg, w)
         else let (r, w) = ca_setsockopt ca fd ''SO_REUSEADDR'' None w
              in if r < 0 then (False, cfg, w)
                 else case svz_portcfg_device cfg of
                        None \<Rightarrow> (True, cfg, w)
                      | Some device \<Rightarrow>
                          (let (r, w) = ca_setsockopt ca fd ''SO_BINDTODEVICE'' (Some device) w
                           in if r < 0 then (False, cfg, w) else (True, set_sin (\<lambda>sa. sa\<lparr>sin_addr := 0\<rparr>) cfg, w)))"

text \<open>The result of binding and listening on a new descriptor: whether it succeeded.\<close>

definition bind_listen :: "'w calls \<Rightarrow> svz_portcfg \<Rightarrow> sockaddr_in \<Rightarrow> int \<Rightarrow> 'w \<Rightarrow> bool \<times> 'w" where
  "bind_listen ca cfg sa fd w =
     (let (r, w) = ca_bind ca fd sa w
      in if r < 0 then (False, w)
         else case pc_protocol cfg of
                Tcp _ _ backlog \<Rightarrow> (let (r, w) = ca_listen ca fd backlog w in (\<not> r < 0, w))
              | _ \<Rightarrow> (True, w))"

text \<open>When no port was given the system has chosen one, which is stored in the configuration.\<close>

definition chosen_port :: "u16 \<Rightarrow> svz_portcfg \<Rightarrow> svz_portcfg" where
  "chosen_port local cfg = (case pc_protocol cfg of
       Tcp p n b \<Rightarrow> if sin_port (nc_addr n) = 0
         then cfg\<lparr>pc_protocol := Tcp (htons local) (n\<lparr>nc_addr := (nc_addr n)\<lparr>sin_port := local\<rparr>\<rparr>) b\<rparr> else cfg
     | Udp p n \<Rightarrow> if sin_port (nc_addr n) = 0
         then cfg\<lparr>pc_protocol := Udp (htons local) (n\<lparr>nc_addr := (nc_addr n)\<lparr>sin_port := local\<rparr>\<rparr>)\<rparr> else cfg
     | _ \<Rightarrow> cfg)"

definition create_net :: "'w calls \<Rightarrow> addr \<Rightarrow> 'w net_st \<Rightarrow> (addr option \<times> 'w net_st) option" where
  "create_net ca p st = do {
     let sy = ca_sys ca;
     cfg \<leftarrow> ns_ports st p;
     let (fd, w) = svz_socket_create sy (pc_proto cfg) (ns_world st);
     if fd = -1 then Some (None, st\<lparr>ns_world := w\<rparr>)
     else do {
       let (ok, cfg, w) = socket_options ca cfg fd w;
       let st = set_port p cfg st;
       if \<not> ok then Some (None, st\<lparr>ns_world := sy_close sy fd w\<rparr>)
       else do {
         sa \<leftarrow> svz_portcfg_addr cfg;
         let (ok, w) = bind_listen ca cfg sa fd w;
         if \<not> ok then Some (None, st\<lparr>ns_world := sy_close sy fd w\<rparr>)
         else do {
           (sock, st) \<leftarrow> svz_sock_create sy fd (st\<lparr>ns_world := w\<rparr>);
           case sock of
             None \<Rightarrow> Some (None, st\<lparr>ns_world := sy_close sy fd (ns_world st)\<rparr>)
           | Some a \<Rightarrow> do {
               s \<leftarrow> the_sock st a;
               Some (Some a, set_port p (chosen_port (sk_local_port s) cfg) st) }
         }
       }
     }
   }"

definition svz_server_create :: "'w calls \<Rightarrow> addr \<Rightarrow> 'w net_st \<Rightarrow> (addr option \<times> 'w net_st) option" where
  "svz_server_create ca p st = do {
     cfg \<leftarrow> ns_ports st p;
     let proto = pc_proto cfg;
     (sock, st) \<leftarrow>
       (if proto AND SVZ_PROTO_PIPE \<noteq> 0
        then do { let (a, st) = alloc_sock (ca_sys ca) st; st \<leftarrow> unique_id a st; Some (Some a, st) }
        else create_net ca p st);
     case sock of
       None \<Rightarrow> Some (None, st)
     | Some a \<Rightarrow> do {
         st \<leftarrow> (if proto AND (SVZ_PROTO_TCP OR SVZ_PROTO_PIPE) \<noteq> 0
                then do { st \<leftarrow> resize_sock a 0 0 st; upd_sock a (\<lambda>s. s\<lparr>sk_check_request := CR_detect_proto\<rparr>) st }
                else Some st);
         st \<leftarrow> upd_sock a (\<lambda>s. clear_flag SVZ_SOFLG_CONNECTED (set_flag SVZ_SOFLG_LISTENING s)) st;
         st \<leftarrow> upd_sock a (\<lambda>s. s\<lparr>sk_proto := sk_proto s OR proto\<rparr>) st;
         case pc_protocol cfg of
           Pipe recv send \<Rightarrow> do {
             st \<leftarrow> upd_sock a (\<lambda>s. s\<lparr>sk_read_socket := Some ''pipe_accept''\<rparr>) st;
             s \<leftarrow> the_sock st a;
             let (r, s, w) = svz_pipe_listener (ca_files ca) (ca_sys ca) recv send s (ns_world st);
             let st = st\<lparr>ns_world := w\<rparr>;
             if r = -1 then Some (None, st\<lparr>ns_core := (ns_core st)\<lparr>heap := (heap (ns_core st))(a := None)\<rparr>\<rparr>)
             else do { st \<leftarrow> upd_sock a (\<lambda>_. s) st; Some (Some a, st) } }
         | Tcp _ _ _ \<Rightarrow> do { st \<leftarrow> upd_sock a (\<lambda>s. s\<lparr>sk_read_socket := Some ''tcp_accept''\<rparr>) st; Some (Some a, st) }
         | Udp _ _ \<Rightarrow> do {
             st \<leftarrow> resize_sock a 0 0 st;
             st \<leftarrow> upd_sock a (\<lambda>s. s\<lparr>sk_read_socket := Some ''svz_udp_lazy_read_socket'', sk_write_socket := WS_other ''svz_udp_write_socket'',
               sk_check_request := CR_other ''svz_udp_check_request''\<rparr>) st;
             Some (Some a, st) }
         | Icmp _ type \<Rightarrow> do {
             st \<leftarrow> resize_sock a 0 0 st;
             st \<leftarrow> upd_sock a (\<lambda>s. s\<lparr>sk_read_socket := Some ''svz_icmp_lazy_read_socket'', sk_write_socket := WS_other ''svz_icmp_write_socket'',
               sk_check_request := CR_other ''svz_icmp_check_request'', sk_itype := type\<rparr>) st;
             Some (Some a, st) }
         | _ \<Rightarrow> Some (Some a, st)
       }
   }"

definition make_listener_socket :: "'w calls \<Rightarrow> addr \<Rightarrow> 'w net_st \<Rightarrow> (addr option \<times> 'w net_st) option" where
  "make_listener_socket ca p st = do {
     (sock, st) \<leftarrow> svz_server_create ca p st;
     case sock of
       Some a \<Rightarrow> do {
         st \<leftarrow> enqueue a st;
         st \<leftarrow> upd_sock a (\<lambda>s. s\<lparr>sk_port := Some p\<rparr>) st;
         Some (Some a, st) }
     | None \<Rightarrow> do { st \<leftarrow> svz_portcfg_free p st; Some (None, st) }
   }"

subsection \<open>Binding and unbinding servers\<close>

text \<open>\<^verbatim>\<open>svz_sock_shutdown\<close>, with the callback for a socket that is freed; the latter only reads the socket.\<close>

definition shut :: "'w calls \<Rightarrow> addr \<Rightarrow> 'w net_st \<Rightarrow> 'w net_st option" where
  "shut ca a st = do { st \<leftarrow> zonk_sock_ears a st; with_core (\<lambda>c. svz_sock_shutdown (ca_disc ca) c a) st }"

fun join_listeners :: "'w calls \<Rightarrow> addr list \<Rightarrow> addr option \<Rightarrow> 'w net_st \<Rightarrow> (addr option \<times> 'w net_st) option" where
  "join_listeners ca [] bindings st = Some (bindings, st)"
| "join_listeners ca (xsock # socks) bindings st = do {
     (bindings, st) \<leftarrow> adjoin (ca_array ca) (ca_port ca) bindings xsock st;
     st \<leftarrow> shut ca xsock st;
     join_listeners ca socks bindings st
   }"

text \<open>The body of the loop in \<^verbatim>\<open>svz_server_bind\<close>; \<open>port\<close> is the configuration given and \<open>copy\<close> one of its expansion.\<close>

definition bind_one :: "'w calls \<Rightarrow> nat \<Rightarrow> addr \<Rightarrow> addr \<Rightarrow> 'w net_st \<Rightarrow> 'w net_st option" where
  "bind_one ca server port copy st = do {
     cfg \<leftarrow> ns_ports st copy;
     let cfg = svz_portcfg_prepare cfg;
     let st = set_port copy cfg st;
     sock \<leftarrow> socket_with_portcfg copy st;
     case sock of
       None \<Rightarrow> do {
         (sock, st) \<leftarrow> make_listener_socket ca copy st;
         case sock of
           None \<Rightarrow> Some st
         | Some a \<Rightarrow> do { (r, st) \<leftarrow> add_server (ca_array ca) a server copy st; Some st } }
     | Some a \<Rightarrow> do {
         s \<leftarrow> the_sock st a;
         portcfg \<leftarrow> deref_port (sk_port s) st;
         if pc_flag cfg PORTCFG_FLAG_ANY \<and> \<not> pc_flag portcfg PORTCFG_FLAG_ANY
         then do {
           sockets \<leftarrow> sockets_with_portcfg port st;
           socks \<leftarrow> svz_array_foreach sockets 0;
           socks \<leftarrow> those socks;
           (bindings, st) \<leftarrow> join_listeners ca socks None st;
           (sock, st) \<leftarrow> make_listener_socket ca copy st;
           case sock of
             Some a \<Rightarrow> do {
               (old, st) \<leftarrow> all_ears_x a bindings st;
               (r, st) \<leftarrow> add_server (ca_array ca) a server copy st;
               Some st }
           | None \<Rightarrow> destroy_bindings bindings st }
         else do { (r, st) \<leftarrow> add_server (ca_array ca) a server copy st; Some st } }
   }"

fun alloc_ports :: "('w net_st \<Rightarrow> addr) \<Rightarrow> svz_portcfg list \<Rightarrow> 'w net_st \<Rightarrow> addr list \<times> 'w net_st" where
  "alloc_ports at [] st = ([], st)"
| "alloc_ports at (cfg # cfgs) st =
     (let p = at st; (ps, st) = alloc_ports at cfgs (set_port p cfg st) in (p # ps, st))"

fun bind_all :: "'w calls \<Rightarrow> nat \<Rightarrow> addr \<Rightarrow> addr list \<Rightarrow> 'w net_st \<Rightarrow> 'w net_st option" where
  "bind_all ca server port [] st = Some st"
| "bind_all ca server port (copy # copies) st = do { st \<leftarrow> bind_one ca server port copy st; bind_all ca server port copies st }"

definition svz_server_bind :: "'w calls \<Rightarrow> ifc_list \<Rightarrow> nat \<Rightarrow> addr \<Rightarrow> 'w net_st \<Rightarrow> (int \<times> 'w net_st) option" where
  "svz_server_bind ca interfaces server port st = do {
     cfg \<leftarrow> ns_ports st port;
     ports \<leftarrow> svz_portcfg_expand interfaces cfg;
     cfgs \<leftarrow> svz_array_foreach ports 0;
     cfgs \<leftarrow> those cfgs;
     let (copies, st) = alloc_ports (ca_port ca) cfgs st;
     st \<leftarrow> bind_all ca server port copies st;
     Some (0, st)
   }"

definition unbind_client :: "nat \<Rightarrow> addr \<Rightarrow> 'w net_st \<Rightarrow> 'w net_st option" where
  "unbind_client server sock st = do {
     s \<leftarrow> the_sock st sock;
     if has_flag s SVZ_SOFLG_LISTENING then Some st
     else do {
       parent \<leftarrow> svz_sock_getparent (ns_core st) (Some sock);
       case parent of
         None \<Rightarrow> Some st
       | Some p \<Rightarrow> do {
           ps \<leftarrow> the_sock st p;
           if has_flag ps SVZ_SOFLG_LISTENING \<and> sk_port ps \<noteq> None then do {
             bindings \<leftarrow> svz_sock_bindings p st;
             c \<leftarrow> (if bindings = None then Some False else svz_binding_contains_server p server st);
             if c then schedule sock st else Some st }
           else Some st }
     }
   }"

definition unbind_listener :: "nat \<Rightarrow> addr \<Rightarrow> 'w net_st \<Rightarrow> 'w net_st option" where
  "unbind_listener server sock st = do {
     s \<leftarrow> the_sock st sock;
     if has_flag s SVZ_SOFLG_LISTENING \<and> sk_port s \<noteq> None then do {
       (n, st) \<leftarrow> svz_sock_bindings_zonk_server sock server st;
       if n = 0 then schedule sock st else Some st }
     else Some st
   }"

definition server_unbind :: "nat \<Rightarrow> 'w net_st \<Rightarrow> 'w net_st option" where
  "server_unbind server st = do {
     st \<leftarrow> svz_sock_foreach ns_core (unbind_client server) st (svz_sock_root (ns_core st));
     svz_sock_foreach ns_core (unbind_listener server) st (svz_sock_root (ns_core st))
   }"

subsection \<open>Detecting the protocol\<close>

text \<open>The callbacks of a server instance; \<^term>\<open>None\<close> is \<^verbatim>\<open>NULL\<close>.\<close>

record 'w server_cb =
  sc_detect_proto :: "'w net_cb option"
  sc_connect_socket :: "'w net_cb option"
  sc_cfg :: "nat option"

fun detect_loop :: "(nat \<Rightarrow> 'w server_cb) \<Rightarrow> svz_binding list \<Rightarrow> addr \<Rightarrow> 'w net_st \<Rightarrow> (svz_binding option \<times> 'w net_st) option" where
  "detect_loop env [] sock st = Some (None, st)"
| "detect_loop env (b # bs) sock st =
     (case sc_detect_proto (env (bd_server b)) of
        None \<Rightarrow> detect_loop env bs sock st
      | Some detect \<Rightarrow> do {
          (r, st) \<leftarrow> detect sock st;
          if r \<noteq> 0 then Some (Some b, st) else detect_loop env bs sock st })"

text \<open>What happens to the socket when the server of \<open>b\<close> has recognised its protocol; \<open>check\<close> is the call of \<^verbatim>\<open>check_request\<close>.\<close>

definition connect_server :: "(nat \<Rightarrow> 'w server_cb) \<Rightarrow> 'w net_cb \<Rightarrow> svz_binding \<Rightarrow> 'w net_cb" where
  "connect_server env check b sock st = do {
     let server = env (bd_server b);
     st \<leftarrow> upd_sock sock (\<lambda>s. s\<lparr>sk_idle_func := None\<rparr>) st;
     st \<leftarrow> svz_sock_bindings_set sock None st;
     st \<leftarrow> upd_sock sock (\<lambda>s. s\<lparr>sk_cfg := sc_cfg server, sk_port := Some (bd_port b)\<rparr>) st;
     case sc_connect_socket server of
       None \<Rightarrow> Some (-1, st)
     | Some connect \<Rightarrow> do {
         (r, st) \<leftarrow> connect sock st;
         if r \<noteq> 0 then Some (-1, st)
         else do {
           s \<leftarrow> the_sock st sock;
           st \<leftarrow> (if sk_check_request s = CR_detect_proto then upd_sock sock (\<lambda>s. s\<lparr>sk_check_request := CR_NULL\<rparr>) st else Some st);
           s \<leftarrow> the_sock st sock;
           if sk_check_request s \<noteq> CR_NULL then check sock st else Some (0, st)
         }
       }
   }"

definition svz_sock_detect_proto :: "'w os \<Rightarrow> (nat \<Rightarrow> 'w server_cb) \<Rightarrow> 'w net_cb \<Rightarrow> 'w net_cb" where
  "svz_sock_detect_proto os env check sock st = do {
     bindings \<leftarrow> svz_sock_bindings sock st;
     if bindings = None then Some (-1, st)
     else do {
       port \<leftarrow> svz_sock_portcfg (ns_core st) sock;
       bindings \<leftarrow> svz_binding_filter os sock st;
       bs \<leftarrow> svz_array_foreach bindings 0;
       bs \<leftarrow> those bs;
       (hit, st) \<leftarrow> detect_loop env bs sock st;
       case hit of
         Some b \<Rightarrow> connect_server env check b sock st
       | None \<Rightarrow> do {
           s \<leftarrow> the_sock st sock;
           cfg \<leftarrow> deref_port port st;
           Some (if sk_recv_buffer_fill s > pc_detection_fill cfg then -1 else 0, st) }
     }
   }"

subsection \<open>A client is accepted\<close>

lemma resize_any:
  assumes "0 \<le> n" "0 \<le> m"
  shows "\<exists>b b'. svz_sock_resize_buffers s n m
     = Some (s\<lparr>sk_send_buffer := b, sk_recv_buffer := b', sk_send_buffer_size := n, sk_recv_buffer_size := m\<rparr>)"
proof -
  have ex: "\<exists>b. resize_block x old k = Some b" if "0 \<le> k" for x old k using that by (simp add: resize_block_def)
  obtain b where b: "resize_block (sk_send_buffer s) (sk_send_buffer_size s) n = Some b" using ex [OF assms(1)] by blast
  obtain b' where b': "resize_block (sk_recv_buffer s) (sk_recv_buffer_size s) m = Some b'" using ex [OF assms(2)] by blast
  show ?thesis by (rule exI [of _ b], rule exI [of _ b']) (simp add: svz_sock_resize_buffers_def b b')
qed

lemma upd_making:
  assumes "making c0 xs (ns_core st) a s" "tweaks s (f s)"
  shows "\<exists>c. upd_sock a f st = Some (st\<lparr>ns_core := c\<rparr>) \<and> making c0 xs c a (f s)"
  using making_upd [where f = f, OF assms] by (auto simp: upd_sock_def with_core_def)

lemma making_others: "making c0 xs c a s \<Longrightarrow> b \<in> set xs \<Longrightarrow> heap c b = heap c0 b"
  by (auto simp: making_def)

text \<open>The remote address of a descriptor, and the state of the system after the descriptor's flags have been set.\<close>

definition peer :: "'w os \<Rightarrow> int \<Rightarrow> 'w \<Rightarrow> u32" where
  "peer os fd w = (case os_getpeername os fd w of Some (ip, _) \<Rightarrow> ip | None \<Rightarrow> 0)"

definition fd_ready :: "'w sys \<Rightarrow> int \<Rightarrow> 'w \<Rightarrow> 'w" where
  "fd_ready sy fd w = snd (svz_fd_cloexec sy fd (snd (svz_fd_nonblock sy fd w)))"

definition fd_fails :: "'w sys \<Rightarrow> int \<Rightarrow> 'w \<Rightarrow> bool" where
  "fd_fails sy fd w \<longleftrightarrow> fst (svz_fd_nonblock sy fd w) \<noteq> 0 \<or> fst (svz_fd_cloexec sy fd (snd (svz_fd_nonblock sy fd w))) \<noteq> 0"

text \<open>\<^verbatim>\<open>svz_sock_create\<close> sets up a socket that is not listed yet.\<close>

lemma sock_create_making:
  assumes "net_inv (ns_core st) xs" "heap (ns_core st) (sy_fresh sy (ns_core st)) = None"
  shows "\<exists>r st'. svz_sock_create sy fd st = Some (r, st') \<and> st' = st\<lparr>ns_core := ns_core st', ns_world := ns_world st'\<rparr>
     \<and> (case r of None \<Rightarrow> fd_fails sy fd (ns_world st) \<and> ns_core st' = ns_core st
        | Some a \<Rightarrow> \<not> fd_fails sy fd (ns_world st) \<and> a = sy_fresh sy (ns_core st) \<and> (\<exists>s. making (ns_core st) xs (ns_core st') a s
            \<and> sk_flags s = 0x1007 \<and> sk_sock_desc s = fd \<and> sk_remote_addr s = Some (peer (sy_os sy) fd (ns_world st')))
            \<and> ns_world st' = fd_ready sy fd (ns_world st))"
proof -
  obtain q w where q: "svz_fd_nonblock sy fd (ns_world st) = (q, w)" by fastforce
  obtain q' w' where q': "svz_fd_cloexec sy fd w = (q', w')" by fastforce
  show ?thesis
  proof (cases "q \<noteq> 0 \<or> q' \<noteq> 0")
    case True
    then show ?thesis by (auto simp: svz_sock_create_def q q' Let_def fd_fails_def)
  next
    case False
    let ?c = "ns_core st" and ?a = "sy_fresh sy (ns_core st)" and ?n = "svz_sock_alloc (os_time (sy_os sy) w')"
    let ?st1 = "st\<lparr>ns_world := w', ns_core := ?c\<lparr>heap := (heap ?c)(?a \<mapsto> ?n)\<rparr>\<rparr>"
    have st1: "alloc_sock sy (st\<lparr>ns_world := w'\<rparr>) = (?a, ?st1)" by (simp add: alloc_sock_def Let_def)
    have "world_inv ?c xs" using assms(1) by (simp add: net_inv_def)
    from making_start [OF this assms(2) alloc_flags(2) [of "os_time (sy_os sy) w'"]] obtain i c1 where
      c1: "svz_sock_unique_id (ns_core ?st1) ?a = Some (i, c1)" "making ?c xs c1 ?a (?n\<lparr>sk_id := i, sk_version := sock_version ?c\<rparr>)" by auto
    let ?st2 = "?st1\<lparr>ns_core := c1\<rparr>" and ?s = "?n\<lparr>sk_id := i, sk_version := sock_version ?c\<rparr>"
    have st2: "unique_id ?a ?st1 = Some ?st2" using c1(1) by (simp add: unique_id_def with_core_def)
    let ?f = "\<lambda>s. intern_info sy ?st2 (set_flag (SVZ_SOFLG_CONNECTED OR SVZ_SOFLG_SOCK) (s\<lparr>sk_sock_desc := fd\<rparr>))"
    have "tweaks s (s\<lparr>sk_sock_desc := fd\<rparr>)" for s by (simp add: tweaks_def ident_def has_flag_def)
    moreover have "tweaks s (set_flag (SVZ_SOFLG_CONNECTED OR SVZ_SOFLG_SOCK) s)" for s by (rule tweaks_flags(1)) (simp add: soflg_defs)
    ultimately have tw: "tweaks ?s (?f ?s)" by (blast intro: tweaks_trans tweaks_intern)
    have "making ?c xs (ns_core ?st2) ?a ?s" using c1(2) by simp
    from upd_making [where f = ?f, OF this tw] obtain c2 where c2: "upd_sock ?a ?f ?st2 = Some (?st2\<lparr>ns_core := c2\<rparr>)" "making ?c xs c2 ?a (?f ?s)" by blast
    have "sk_flags (?f ?s) = 0x1007" "sk_sock_desc (?f ?s) = fd" "sk_remote_addr (?f ?s) = Some (peer (sy_os sy) fd w')"
      by (simp_all add: intern_info_def svz_sock_intern_connection_info_def peer_def set_flag_def alloc_flags soflg_defs Let_def
          split: prod.splits option.splits)
    then show ?thesis using False st2 c2 by (auto simp: svz_sock_create_def q q' st1 Let_def fd_ready_def fd_fails_def)
  qed
qed

text \<open>The loop over the descriptors in use ends and finds out whether a listed socket has the descriptor.\<close>

lemma desc_loop:
  assumes "lseg (heap c) p xs None"
  shows "desc_in_use c fd (hd_or xs None) = Some (\<exists>x\<in>set xs. map_option sk_sock_desc (heap c x) = Some fd)"
  using assms
proof (induction xs arbitrary: p)
  case Nil
  show ?case by (subst desc_in_use.simps) simp
next
  case (Cons x xs)
  then obtain s where s: "heap c x = Some s" "sk_next s = hd_or xs None" "lseg (heap c) (Some x) xs None" by auto
  show ?case using s Cons.IH [OF s(3)] by (subst desc_in_use.simps) auto
qed

lemma desc_in_use_decides:
  assumes "net_inv c xs"
  shows "desc_in_use c fd (svz_sock_root c) = Some (\<exists>x\<in>set xs. map_option sk_sock_desc (heap c x) = Some fd)"
  using assms desc_loop [of c None xs fd] by (simp add: net_inv_def world_inv_def core_inv_def chain_def)

text \<open>The steps of \<^verbatim>\<open>tcp_accept\<close> before the new socket is listed.\<close>

lemma prepare_client:
  assumes m: "making c0 xs (ns_core st) a s" and ls: "ls \<in> set xs" "heap (ns_core st) ls = Some server"
    and size: "0 \<le> n" "0 \<le> m"
  shows "\<exists>st1 st2 st3 st4 s'. upd_sock a (set_flag SVZ_SOFLG_CONNECTED) st = Some st1
     \<and> svz_sock_bindings_set a (Some ls) st1 = Some st2
     \<and> upd_sock a (\<lambda>s. s\<lparr>sk_check_request := r, sk_idle_func := Some ''idle_protect'', sk_idle_counter := 1\<rparr>) st2 = Some st3
     \<and> resize_sock a n m st3 = Some st4 \<and> making c0 xs (ns_core st4) a s'
     \<and> sk_flags s' = sk_flags s OR SVZ_SOFLG_CONNECTED \<and> sk_sock_desc s' = sk_sock_desc s \<and> sk_remote_addr s' = sk_remote_addr s
     \<and> ns_ears st4 = (ns_ears st)((sk_id s', sk_version s') := ns_ears st (sk_id server, sk_version server))
     \<and> ns_ports st4 = ns_ports st \<and> ns_world st4 = ns_world st"
proof -
  have "tweaks s (set_flag SVZ_SOFLG_CONNECTED s)" by (rule tweaks_flags(1)) (simp add: soflg_defs)
  from upd_making [where f = "set_flag SVZ_SOFLG_CONNECTED", OF m this] obtain c1 where
    c1: "upd_sock a (set_flag SVZ_SOFLG_CONNECTED) st = Some (st\<lparr>ns_core := c1\<rparr>)" "making c0 xs c1 a (set_flag SVZ_SOFLG_CONNECTED s)" by blast
  have "heap c1 ls = Some server" "heap c1 a = Some (set_flag SVZ_SOFLG_CONNECTED s)"
    using making_others [OF c1(2) ls(1)] making_others [OF m ls(1)] ls(2) c1(2) by (simp_all add: making_def)
  moreover define e where "e = (ns_ears st)((sk_id s, sk_version s) := ns_ears st (sk_id server, sk_version server))"
  ultimately have "svz_sock_bindings_set a (Some ls) (st\<lparr>ns_core := c1\<rparr>) = Some (st\<lparr>ns_core := c1, ns_ears := e\<rparr>)"
    by (simp add: svz_sock_bindings_set_def svz_sock_bindings_def all_ears_x_def the_sock_def set_flag_def)
  moreover have "st\<lparr>ns_core := c1, ns_ears := e\<rparr> = st\<lparr>ns_ears := e, ns_core := c1\<rparr>" by simp
  ultimately have e: "svz_sock_bindings_set a (Some ls) (st\<lparr>ns_core := c1\<rparr>) = Some (st\<lparr>ns_ears := e, ns_core := c1\<rparr>)" by simp
  let ?f = "\<lambda>s. s\<lparr>sk_check_request := r, sk_idle_func := Some ''idle_protect'', sk_idle_counter := 1\<rparr>"
  have "tweaks t (?f t)" for t by (simp add: tweaks_def ident_def has_flag_def)
  from upd_making [where f = ?f and st = "st\<lparr>ns_ears := e, ns_core := c1\<rparr>", simplified, OF c1(2) this] obtain c2 where
    c2: "upd_sock a ?f (st\<lparr>ns_ears := e, ns_core := c1\<rparr>) = Some (st\<lparr>ns_ears := e, ns_core := c2\<rparr>)"
      "making c0 xs c2 a (?f (set_flag SVZ_SOFLG_CONNECTED s))" by auto
  obtain b b' where b: "svz_sock_resize_buffers (?f (set_flag SVZ_SOFLG_CONNECTED s)) n m
     = Some ((?f (set_flag SVZ_SOFLG_CONNECTED s))\<lparr>sk_send_buffer := b, sk_recv_buffer := b', sk_send_buffer_size := n, sk_recv_buffer_size := m\<rparr>)"
    (is "_ = Some ?t") using resize_any [OF size] by blast
  have "tweaks (?f (set_flag SVZ_SOFLG_CONNECTED s)) ?t" by (simp add: tweaks_def ident_def has_flag_def)
  from upd_making [where f = "\<lambda>_. ?t" and st = "st\<lparr>ns_ears := e, ns_core := c2\<rparr>", simplified, OF c2(2) this] obtain c3 where
    c3: "upd_sock a (\<lambda>_. ?t) (st\<lparr>ns_ears := e, ns_core := c2\<rparr>) = Some (st\<lparr>ns_ears := e, ns_core := c3\<rparr>)" "making c0 xs c3 a ?t" by auto
  have "resize_sock a n m (st\<lparr>ns_ears := e, ns_core := c2\<rparr>) = Some (st\<lparr>ns_ears := e, ns_core := c3\<rparr>)"
    using c2(2) b c3(1) by (simp add: resize_sock_def the_sock_def making_def)
  with c1(1) e c2(1) c3(2) show ?thesis by (simp add: set_flag_def) (rule exI [of _ ?t], simp add: set_flag_def e_def)
qed

lemma keeps_net:
  assumes "keeps f" "world_inv (ns_core st) xs" "heap (ns_core st) a = Some s"
  shows "\<exists>c. upd_sock a f st = Some (st\<lparr>ns_core := c\<rparr>) \<and> world_inv c xs \<and> (\<forall>b. valid c b = valid (ns_core st) b)
     \<and> same_count (ns_core st) c \<and> heap c = (heap (ns_core st))(a \<mapsto> f s)"
  using keeps_upd [OF assms] by (auto simp: upd_sock_def with_core_def)

lemma same_payload_sock:
  "same_payload c c' A \<Longrightarrow> b \<in> A \<Longrightarrow> heap c b = Some s \<Longrightarrow> \<exists>s'. heap c' b = Some s' \<and> payload s' = payload s"
  by (auto simp: same_payload_def map_option_case split: option.splits dest: bspec)

text \<open>The steps from listing the socket to counting it.\<close>

lemma list_client:
  assumes inv: "net_inv c0 xs" and m: "making c0 xs (ns_core st) a s" and ls: "ls \<in> set xs" "heap c0 ls = Some server"
    and fl: "sk_flags s = 0x1007" and fd: "sk_sock_desc s \<noteq> -1"
  shows "\<exists>st1 st2 st3 t. enqueue a st = Some st1
     \<and> with_core (\<lambda>c. svz_sock_setparent c (Some a) (Some ls)) st1 = Some st2
     \<and> upd_sock a (\<lambda>s. s\<lparr>sk_proto := pr\<rparr>) st2 = Some st3
     \<and> net_inv (ns_core (count_connection st3)) (xs @ [a])
     \<and> svz_sock_connections (ns_core (count_connection st3)) = svz_sock_connections c0 + 1
     \<and> heap (ns_core st3) a = Some t \<and> sk_remote_addr t = sk_remote_addr s \<and> sk_sock_desc t = sk_sock_desc s
     \<and> sk_flags t = 0x1087 \<and> sk_id t = sk_id s \<and> sk_version t = sk_version s
     \<and> same_payload c0 (ns_core st3) (- {a}) \<and> ns_ears st3 = ns_ears st \<and> ns_ports st3 = ns_ports st \<and> ns_world st3 = ns_world st"
proof -
  have val: "\<not> invalid_desc s" "\<not> invalid_desc (set_flag SVZ_SOFLG_ENQUEUED s)"
    using fd by (intro socket_valid; simp only: fl; simp add: soflg_defs)+
  have sk: "has_flag s SVZ_SOFLG_SOCK \<and> has_flag s SVZ_SOFLG_CONNECTED" unfolding has_flag_def fl by (simp add: soflg_defs)
  from making_enqueue [OF m val(1)] obtain c1 where c1: "svz_sock_enqueue (ns_core st) a = Some (0, c1)" "inserted c0 xs c1 a s" by blast
  note ins = inserted_net [OF c1(2) inv val(2)]
  have pay: "same_payload c0 c1 (- {a})" "a \<notin> set xs" using c1(2) m by (simp_all add: inserted_def making_def)
  have ne: "ls \<in> - {a}" using ls(1) pay(2) by auto
  obtain ps where ps: "heap c1 ls = Some ps" using same_payload_sock [OF pay(1) ne ls(2)] by blast
  obtain t where t: "heap c1 a = Some t" "payload t = payload (set_flag SVZ_SOFLG_ENQUEUED s)" using c1(2) by (auto simp: inserted_def)
  let ?f = "\<lambda>s. s\<lparr>sk_parent_id := sk_id ps, sk_parent_version := sk_version ps\<rparr>" and ?g = "\<lambda>s. s\<lparr>sk_proto := pr\<rparr>"
  have "keeps ?f" by (simp add: keeps_def)
  from keeps_net [where st = "st\<lparr>ns_core := c1\<rparr>", OF this, unfolded ns_simps, OF ins(1) t(1)] obtain c2 where
    c2: "upd_sock a ?f (st\<lparr>ns_core := c1\<rparr>) = Some (st\<lparr>ns_core := c2\<rparr>)" "world_inv c2 (xs @ [a])" "\<forall>b. valid c2 b = valid c1 b"
      "same_count c1 c2" "heap c2 = (heap c1)(a \<mapsto> ?f t)" by auto
  then have t2: "heap c2 a = Some (?f t)" by simp
  have "keeps ?g" by (simp add: keeps_def)
  from keeps_net [where st = "st\<lparr>ns_core := c2\<rparr>", OF this, unfolded ns_simps, OF c2(2) t2] obtain c3 where
    c3: "upd_sock a ?g (st\<lparr>ns_core := c2\<rparr>) = Some (st\<lparr>ns_core := c3\<rparr>)" "world_inv c3 (xs @ [a])" "\<forall>b. valid c3 b = valid c2 b"
      "same_count c2 c3" "heap c3 = (heap c2)(a \<mapsto> ?g (?f t))" by auto
  have cnt: "same_count c1 c3" by (rule same_count_trans [OF c2(4) c3(4)])
  have "filter (counted c3) (xs @ [a]) = filter (counted c1) (xs @ [a])" using cnt by (intro filter_cong) (simp_all add: same_count_def)
  then have "net_inv (ns_core (count_connection (st\<lparr>ns_core := c3\<rparr>))) (xs @ [a])"
    using ins sk c2(3) c3(2,3) cnt inv unfolding count_connection_def ns_simps net_inv_count by (simp add: net_inv_def same_count_def)
  moreover have "svz_sock_connections (ns_core (count_connection (st\<lparr>ns_core := c3\<rparr>))) = svz_sock_connections c0 + 1"
    using ins(4) cnt by (simp add: count_connection_def same_count_def)
  moreover have "sk_remote_addr t = sk_remote_addr s" "sk_sock_desc t = sk_sock_desc s" "sk_id t = sk_id s" "sk_version t = sk_version s"
      "sk_flags t = 0x1087" by (subst payload_eq [OF t(2)], simp add: set_flag_def fl soflg_defs)+
  moreover have "same_payload c0 c3 (- {a})" using pay(1) by (simp add: same_payload_def c2(5) c3(5))
  moreover have "enqueue a st = Some (st\<lparr>ns_core := c1\<rparr>)" using c1(1) by (simp add: enqueue_def with_core_def)
  moreover have "with_core (\<lambda>c. svz_sock_setparent c (Some a) (Some ls)) (st\<lparr>ns_core := c1\<rparr>) = Some (st\<lparr>ns_core := c2\<rparr>)"
    using c2(1) by (simp add: upd_sock_def with_core_def svz_sock_setparent_def ps)
  ultimately show ?thesis using c3(1,5) by auto
qed

text \<open>When an address is refused at a port: it is denied, not allowed, or has connected too often in the last four seconds.\<close>

definition refuses :: "svz_portcfg \<Rightarrow> u32 list \<Rightarrow> u32 list \<Rightarrow> u32 \<Rightarrow> int \<Rightarrow> bool" where
  "refuses port denied allowed ip now \<longleftrightarrow> ip \<in> set denied \<or> pc_allow port \<noteq> None \<and> ip \<notin> set allowed
     \<or> 4 * (pc_connect_freq port + 1) \<le> int (length (recent now (attempts port (svz_inet_ntoa ip))))"

lemma refuse_decides:
  assumes "heap (ns_core st) ls = Some server" "sk_port server = Some p" "ns_ports st p = Some port"
    and "heap (ns_core st) a = Some t" "sk_remote_addr t = Some ip"
    and "on_list (pc_deny port) (map svz_inet_ntoa denied)" "on_list (pc_allow port) (map svz_inet_ntoa allowed)"
    and "accepted_ok port" "0 \<le> pc_connect_freq port"
  shows "\<exists>ps. refuse_client os ls a st = Some (refuses port denied allowed ip (os_time os (ns_world st)), st\<lparr>ns_ports := ps\<rparr>)"
proof -
  let ?no = "ip \<in> set denied \<or> pc_allow port \<noteq> None \<and> ip \<notin> set allowed"
  have a: "svz_sock_check_access st (Some ls) (Some a) = Some (if ?no then -1 else 0)"
    using access_decided [of st ls server p port a t ip denied allowed] assms by (simp add: the_sock_def)
  from frequency_window [OF assms(8,9), of os ip "ns_world st"] obtain ret port' where f: "check_frequency os port (svz_inet_ntoa ip) (ns_world st) = Some (ret, port')"
      "ret = (if int (length (recent (os_time os (ns_world st)) (attempts port (svz_inet_ntoa ip)))) < 4 * (pc_connect_freq port + 1) then 0 else -1)"
    by blast
  have fr: "frequency os ls a st = Some (ret, st\<lparr>ns_ports := (ns_ports st)(p \<mapsto> port')\<rparr>)"
    using assms(1-5) f(1) by (simp add: frequency_def the_sock_def pp_remote_def)
  show ?thesis
  proof (cases ?no)
    case True
    then show ?thesis by (intro exI [of _ "ns_ports st"]) (auto simp: refuse_client_def a refuses_def)
  next
    case False
    then show ?thesis using f(2) by (intro exI [of _ "(ns_ports st)(p \<mapsto> port')"]) (auto simp: refuse_client_def a fr refuses_def)
  qed
qed

lemma schedule_client:
  assumes "net_inv (ns_core st) xs" "a \<in> set xs" "heap (ns_core st) a = Some t" "sk_flags t = 0x1087"
  shows "\<exists>c. schedule a st = Some (st\<lparr>ns_core := c\<rparr>) \<and> net_inv c xs \<and> killed c a \<and> svz_sock_connections c = svz_sock_connections (ns_core st)
     \<and> heap c = (heap (ns_core st))(a \<mapsto> set_flag SVZ_SOFLG_KILLED t)"
proof -
  let ?c = "(ns_core st)\<lparr>heap := (heap (ns_core st))(a \<mapsto> set_flag SVZ_SOFLG_KILLED t)\<rparr>"
  have "\<not> has_flag t SVZ_SOFLG_KILLED" "\<not> has_flag t SVZ_SOFLG_LISTENING" unfolding has_flag_def assms(4) by (simp_all add: soflg_defs)
  then have "sched (ns_core st) (Kill a) = Some ?c" using assms(3) by (subst sched.simps) (simp add: upd_def)
  moreover have "kill_ext (ns_core st) ?c" using assms(3) by (auto simp: kill_ext_def intro!: exI [of _ "(heap (ns_core st))(a \<mapsto> set_flag SVZ_SOFLG_KILLED t)"])
  then have "net_inv ?c xs" by (rule net_kill [OF assms(1)])
  moreover have "killed ?c a" by (simp add: killed_def SVZ_SOFLG_KILLED_def)
  ultimately show ?thesis by (intro exI [of _ ?c]) (simp add: schedule_def with_core_def svz_sock_schedule_for_shutdown_def)
qed

text \<open>What the server holds about a client before its first request is looked at.\<close>

definition admitted :: "'w net_st \<Rightarrow> addr list \<Rightarrow> addr \<Rightarrow> addr \<Rightarrow> int \<Rightarrow> bool \<Rightarrow> 'w net_st \<Rightarrow> bool" where
  "admitted st xs ls a fd refused st' \<longleftrightarrow> net_inv (ns_core st') (xs @ [a])
     \<and> svz_sock_connections (ns_core st') = svz_sock_connections (ns_core st) + 1
     \<and> same_payload (ns_core st) (ns_core st') (- {a})
     \<and> map_option sk_sock_desc (heap (ns_core st') a) = Some fd
     \<and> svz_sock_bindings a st' = svz_sock_bindings ls st
     \<and> killed (ns_core st') a = refused"

lemma accept_admits:
  assumes inv: "net_inv (ns_core st0) xs" and m: "making (ns_core st0) xs (ns_core st) a s"
    and s: "sk_flags s = 0x1007" "sk_sock_desc s = fd" "fd \<noteq> -1" "sk_remote_addr s = Some ip"
    and ls: "ls \<in> set xs" "heap (ns_core st0) ls = Some server" "sk_port server = Some p" "ns_ports st p = Some port" "ns_ears st = ns_ears st0"
    and port: "0 \<le> pc_send_buffer_size port" "0 \<le> pc_recv_buffer_size port" "accepted_ok port" "0 \<le> pc_connect_freq port"
      "on_list (pc_deny port) (map svz_inet_ntoa denied)" "on_list (pc_allow port) (map svz_inet_ntoa allowed)"
  shows "\<exists>st'. accept_client os check ls a st = call_check check a st'
     \<and> admitted st0 xs ls a fd (refuses port denied allowed ip (os_time os (ns_world st))) st'"
proof -
  let ?refused = "refuses port denied allowed ip (os_time os (ns_world st))"
  have srv: "heap (ns_core st) ls = Some server" using making_others [OF m ls(1)] ls(2) by simp
  from prepare_client [OF m ls(1) srv port(1,2), of "sk_check_request server"] obtain st1 st2 st3 st4 s' where
    p: "upd_sock a (set_flag SVZ_SOFLG_CONNECTED) st = Some st1" "svz_sock_bindings_set a (Some ls) st1 = Some st2"
      "upd_sock a (\<lambda>s. s\<lparr>sk_check_request := sk_check_request server, sk_idle_func := Some ''idle_protect'', sk_idle_counter := 1\<rparr>) st2 = Some st3"
      "resize_sock a (pc_send_buffer_size port) (pc_recv_buffer_size port) st3 = Some st4" "making (ns_core st0) xs (ns_core st4) a s'"
      "sk_flags s' = sk_flags s OR SVZ_SOFLG_CONNECTED" "sk_sock_desc s' = sk_sock_desc s" "sk_remote_addr s' = sk_remote_addr s"
      "ns_ears st4 = (ns_ears st)((sk_id s', sk_version s') := ns_ears st (sk_id server, sk_version server))"
      "ns_ports st4 = ns_ports st" "ns_world st4 = ns_world st" by blast
  have fl: "sk_flags s' = 0x1007" and fd: "sk_sock_desc s' \<noteq> -1" using p(6,7) s(1-3) by (simp_all add: soflg_defs)
  from list_client [OF inv p(5) ls(1,2) fl fd, of "sk_proto server"] obtain st5 st6 st7 t where
    l: "enqueue a st4 = Some st5" "with_core (\<lambda>c. svz_sock_setparent c (Some a) (Some ls)) st5 = Some st6"
      "upd_sock a (\<lambda>s. s\<lparr>sk_proto := sk_proto server\<rparr>) st6 = Some st7" "net_inv (ns_core (count_connection st7)) (xs @ [a])"
      "svz_sock_connections (ns_core (count_connection st7)) = svz_sock_connections (ns_core st0) + 1" "heap (ns_core st7) a = Some t"
      "sk_remote_addr t = sk_remote_addr s'" "sk_sock_desc t = sk_sock_desc s'" "sk_flags t = 0x1087" "sk_id t = sk_id s'" "sk_version t = sk_version s'"
      "same_payload (ns_core st0) (ns_core st7) (- {a})" "ns_ears st7 = ns_ears st4" "ns_ports st7 = ns_ports st4" "ns_world st7 = ns_world st4"
    by blast
  let ?st = "count_connection st7"
  have c: "heap (ns_core ?st) = heap (ns_core st7)" "ns_ports ?st = ns_ports st" "ns_world ?st = ns_world st" "ns_ears ?st = ns_ears st4"
    using l(13-15) p(10,11) by (simp_all add: count_connection_def)
  have "enlist_client ls a st = Some ?st"
    using p(1-4) l(1-3) ls(3,4) by (simp add: enlist_client_def the_sock_def srv deref_port_def)
  moreover have "ls \<in> - {a}" using m ls(1) by (auto simp: making_def)
  then obtain ps where ps: "heap (ns_core st7) ls = Some ps" "payload ps = payload server" using same_payload_sock [OF l(12) _ ls(2)] by blast
  have pp: "sk_port ps = Some p" by (subst payload_eq [OF ps(2)]) (simp add: ls(3))
  have ip: "sk_remote_addr t = Some ip" using l(7) p(8) s(4) by simp
  from refuse_decides [where os = os and st = ?st, unfolded c, OF ps(1) pp ls(4) l(6) ip port(5,6,3,4)] obtain q where
    q: "refuse_client os ls a ?st = Some (?refused, ?st\<lparr>ns_ports := q\<rparr>)" by blast
  moreover have "\<exists>st'. (if ?refused then schedule a (?st\<lparr>ns_ports := q\<rparr>) else Some (?st\<lparr>ns_ports := q\<rparr>)) = Some st'
     \<and> admitted st0 xs ls a fd ?refused st'"
  proof (cases ?refused)
    case True
    have "net_inv (ns_core (?st\<lparr>ns_ports := q\<rparr>)) (xs @ [a])" "heap (ns_core (?st\<lparr>ns_ports := q\<rparr>)) a = Some t" using l(4,6) c(1) by simp_all
    from schedule_client [OF this(1) _ this(2) l(9)] obtain d where
      d: "schedule a (?st\<lparr>ns_ports := q\<rparr>) = Some (?st\<lparr>ns_ports := q, ns_core := d\<rparr>)" "net_inv d (xs @ [a])" "killed d a"
        "svz_sock_connections d = svz_sock_connections (ns_core ?st)" "heap d = (heap (ns_core ?st))(a \<mapsto> set_flag SVZ_SOFLG_KILLED t)"
      by auto
    have "same_payload (ns_core st0) d (- {a})" using l(12) by (simp add: same_payload_def d(5) c(1))
    then show ?thesis using True d l(5,8,10,11) p(7,9) s(2) ls(2,5) c
      by (simp add: admitted_def svz_sock_bindings_def the_sock_def set_flag_def)
  next
    case False
    have "\<not> killed (ns_core ?st) a" using l(6,9) c(1) by (simp add: killed_def has_flag_def soflg_defs)
    moreover have "same_payload (ns_core st0) (ns_core ?st) (- {a})" using l(12) by (simp add: same_payload_def c(1))
    ultimately show ?thesis using False l(4-6,8,10,11) p(7,9) s(2) ls(2,5) c
      by (simp add: admitted_def svz_sock_bindings_def the_sock_def)
  qed
  ultimately show ?thesis by (auto simp: accept_client_def)
qed

text \<open>
  C25. Accepting a TCP connection, \<^verbatim>\<open>tcp_accept\<close>, on a listed listener with a port configuration and a free address for the new socket. Nothing happens to
  the sockets when \<^verbatim>\<open>accept\<close> fails, when the limit of connections is reached, when a listed socket has the descriptor already (the only case in which the
  listener gets an error, -1) or when the descriptor cannot be set up. Else the client is the last socket of the list, with the new descriptor and the
  bindings of the listener; the other sockets are unchanged, the counter is again the number of connected sockets and does not exceed the limit, and the
  client is scheduled for shutdown exactly when its address is denied, not allowed or has connected too often; then its request callback is called.
\<close>

theorem tcp_accept_admits:
  assumes "net_inv (ns_core st) xs" and "heap (ns_core st) (sy_fresh (ca_sys ca) (ns_core st)) = None"
    and "ls \<in> set xs" and "heap (ns_core st) ls = Some server" and "sk_port server = Some p" and "ns_ports st p = Some port"
    and "0 \<le> pc_send_buffer_size port" and "0 \<le> pc_recv_buffer_size port" and "accepted_ok port" and "0 \<le> pc_connect_freq port"
    and "on_list (pc_deny port) (map svz_inet_ntoa denied)" and "on_list (pc_allow port) (map svz_inet_ntoa allowed)"
    and "sy_accept (ca_sys ca) (sk_sock_desc server) (ns_world st) = (fd, w)"
  shows "let os = sy_os (ca_sys ca); w' = fd_ready (ca_sys ca) fd w; a = sy_fresh (ca_sys ca) (ns_core st);
             used = (\<exists>x\<in>set xs. map_option sk_sock_desc (heap (ns_core st) x) = Some fd)
         in if fd = -1 \<or> ca_max_sockets ca \<le> svz_sock_connections (ns_core st) \<or> used \<or> fd_fails (ca_sys ca) fd w
            then \<exists>st'. tcp_accept ca check ls st = Some (if fd \<noteq> -1 \<and> svz_sock_connections (ns_core st) < ca_max_sockets ca \<and> used then -1 else 0, st')
                   \<and> ns_core st' = ns_core st
            else \<exists>st'. tcp_accept ca check ls st = map_option (Pair 0) (call_check check a st')
                   \<and> admitted st xs ls a fd (refuses port denied allowed (peer os fd w') (os_time os w')) st'
                   \<and> svz_sock_connections (ns_core st') \<le> ca_max_sockets ca"
proof -
  let ?sy = "ca_sys ca" and ?a = "sy_fresh (ca_sys ca) (ns_core st)" and ?st = "st\<lparr>ns_world := w\<rparr>"
  define used where "used \<longleftrightarrow> (\<exists>x\<in>set xs. map_option sk_sock_desc (heap (ns_core st) x) = Some fd)"
  have u: "desc_in_use (ns_core st) fd (svz_sock_root (ns_core st)) = Some used"
    unfolding used_def by (rule desc_in_use_decides [OF assms(1)])
  note run = tcp_accept_def [of ca check ls st] the_sock_def [of st ls] assms(4,13)
  show ?thesis
  proof (cases "fd = -1 \<or> ca_max_sockets ca \<le> svz_sock_connections (ns_core st) \<or> used")
    case True
    then show ?thesis unfolding used_def [symmetric] Let_def by (auto simp: run u Let_def)
  next
    case False
    have nw: "ns_core ?st = ns_core st" "ns_world ?st = w" by simp_all
    from sock_create_making [of ?st xs ?sy fd, unfolded nw, OF assms(1,2)] obtain r st1 where
      r: "svz_sock_create ?sy fd ?st = Some (r, st1)" "st1 = ?st\<lparr>ns_core := ns_core st1, ns_world := ns_world st1\<rparr>"
        "case r of None \<Rightarrow> fd_fails ?sy fd w \<and> ns_core st1 = ns_core st
        | Some a \<Rightarrow> \<not> fd_fails ?sy fd w \<and> a = ?a \<and> (\<exists>s. making (ns_core st) xs (ns_core st1) a s
            \<and> sk_flags s = 0x1007 \<and> sk_sock_desc s = fd \<and> sk_remote_addr s = Some (peer (sy_os ?sy) fd (ns_world st1)))
            \<and> ns_world st1 = fd_ready ?sy fd w" by blast
    show ?thesis
    proof (cases r)
      case None
      then show ?thesis using False r(1,3) unfolding used_def [symmetric] Let_def by (auto simp: run u Let_def)
    next
      case (Some a)
      with r(3) obtain s where s: "\<not> fd_fails ?sy fd w" "a = ?a" "making (ns_core st) xs (ns_core st1) ?a s" "sk_flags s = 0x1007"
          "sk_sock_desc s = fd" "sk_remote_addr s = Some (peer (sy_os ?sy) fd (ns_world st1))" "ns_world st1 = fd_ready ?sy fd w" by auto
      have st1: "ns_ports st1 p = Some port" "ns_ears st1 = ns_ears st" by (subst r(2), simp add: assms(6))+
      have "fd \<noteq> -1" using False by simp
      from accept_admits [where os = "sy_os ?sy" and check = check, OF assms(1) s(3-5) this s(6) assms(3-5) st1 assms(7-12)] obtain st' where
        st': "accept_client (sy_os ?sy) check ls ?a st1 = call_check check ?a st'"
          "admitted st xs ls ?a fd (refuses port denied allowed (peer (sy_os ?sy) fd (fd_ready ?sy fd w)) (os_time (sy_os ?sy) (fd_ready ?sy fd w))) st'"
        unfolding s(7) by blast
      have "tcp_accept ca check ls st = map_option (Pair 0) (call_check check ?a st')"
        using False r(1) Some s(2) st'(1) by (simp add: run u Let_def map_option_case split: option.splits)
      moreover have "svz_sock_connections (ns_core st') \<le> ca_max_sockets ca" using st'(2) False by (simp add: admitted_def)
      ultimately show ?thesis using False s(1) st'(2) unfolding used_def [symmetric] Let_def by auto
    qed
  qed
qed

subsection \<open>The server for a connection\<close>

definition recognises :: "(nat \<Rightarrow> 'w server_cb) \<Rightarrow> addr \<Rightarrow> 'w net_st \<Rightarrow> svz_binding \<Rightarrow> bool" where
  "recognises env a st b \<longleftrightarrow> (case sc_detect_proto (env (bd_server b)) of None \<Rightarrow> False
     | Some detect \<Rightarrow> (case detect a st of None \<Rightarrow> False | Some (r, _) \<Rightarrow> r \<noteq> 0))"

text \<open>The contract of the detecting callbacks: they return, and those that do not recognise the protocol leave everything as it is.\<close>

definition detects :: "(nat \<Rightarrow> 'w server_cb) \<Rightarrow> addr \<Rightarrow> 'w net_st \<Rightarrow> svz_binding \<Rightarrow> bool" where
  "detects env a st b \<longleftrightarrow> (case sc_detect_proto (env (bd_server b)) of None \<Rightarrow> True
     | Some detect \<Rightarrow> (case detect a st of None \<Rightarrow> False | Some (r, st') \<Rightarrow> r = 0 \<longrightarrow> st' = st))"

lemma detect_loop_first:
  assumes "\<forall>b\<in>set bs. detects env a st b"
  shows "detect_loop env bs a st = (case find (recognises env a st) bs of
     None \<Rightarrow> Some (None, st)
   | Some b \<Rightarrow> map_option (\<lambda>(r, st'). (Some b, st')) (the (sc_detect_proto (env (bd_server b))) a st))"
  using assms
proof (induction bs)
  case (Cons b bs)
  show ?case
  proof (cases "sc_detect_proto (env (bd_server b))")
    case None
    then show ?thesis using Cons by (simp add: recognises_def)
  next
    case (Some d)
    then obtain r st' where d: "d a st = Some (r, st')" "r = 0 \<longrightarrow> st' = st" using Cons.prems by (auto simp: detects_def split: option.splits)
    then show ?thesis using Some Cons by (cases "r = 0") (simp_all add: recognises_def)
  qed
qed simp

text \<open>
  C33. Which server a connection gets, \<^verbatim>\<open>svz_sock_detect_proto\<close>: among the bindings of its listener, in the order in which they were made, the first one whose port configuration
  listens on the local address and port of the connection and whose server recognises the protocol. When there is none the connection is
  kept (0), or given up (-1) as soon as more data than the detection limit of the port configuration has arrived.
\<close>

theorem detect_proto_first:
  assumes "bound st a bs" and "svz_sock_bindings a st \<noteq> Some None" and "the_sock st a = Some s" and "sk_proto s AND SVZ_PROTO_PIPE = 0"
    and "os_getsockname os (sk_sock_desc s) (ns_world st) = Some (ip, port)"
    and "\<forall>b\<in>set bs. \<exists>p sa. ns_ports st (bd_port b) = Some p \<and> svz_portcfg_addr p = Some sa
           \<and> pc_proto p \<in> {SVZ_PROTO_TCP, SVZ_PROTO_UDP} \<and> \<not> pc_flag p PORTCFG_FLAG_DEVICE"
    and "\<forall>b\<in>set bs. detects env a st b"
    and "svz_sock_portcfg (ns_core st) a = Some (Some lp)" and "ns_ports st lp = Some cfg"
  shows "svz_sock_detect_proto os env check a st =
     (case find (\<lambda>b. (\<exists>p pr. ns_ports st (bd_port b) = Some p \<and> (pr, ip, unat port) \<in> endpoints p) \<and> recognises env a st b) bs of
        Some b \<Rightarrow> do { (r, st') \<leftarrow> the (sc_detect_proto (env (bd_server b))) a st; connect_server env check b a st' }
      | None \<Rightarrow> Some (if sk_recv_buffer_fill s > pc_detection_fill cfg then -1 else 0, st))"
proof -
  let ?Q = "\<lambda>b. \<exists>p pr. ns_ports st (bd_port b) = Some p \<and> (pr, ip, unat port) \<in> endpoints p"
  obtain r where r: "svz_binding_filter os a st = Some r" "array_of r (filter ?Q bs)" using binding_filter_exact [OF assms(1,3-6)] by blast
  then have elems: "svz_array_foreach r 0 = Some (map Some (filter ?Q bs))"
    by (cases r) (auto simp: array_of_def svz_array_foreach_from svz_array_foreach.simps [of None])
  have "\<forall>b\<in>set (filter ?Q bs). detects env a st b" using assms(7) by auto
  note loop = detect_loop_first [OF this]
  have fnd: "find (recognises env a st) (filter ?Q bs) = find (\<lambda>b. ?Q b \<and> recognises env a st b) bs" by (induction bs) auto
  obtain p where "svz_sock_bindings a st = Some (Some p)" using assms(2,3) by (auto simp: svz_sock_bindings_def)
  then show ?thesis
    using r(1) elems loop assms(3,8,9) unfolding fnd
    by (auto simp: svz_sock_detect_proto_def deref_port_def those_map_Some bind_map_option comp_def case_prod_unfold split: option.splits)
qed

subsection \<open>An example\<close>

text \<open>The listener at address 5 has the port configuration 1, which denies the address 5; there is one connection.\<close>

definition ex_net :: "int net_st" where
  "ex_net = ex_st\<lparr>ns_core := ex_core\<lparr>heap := (heap ex_core)(5 \<mapsto> (the (heap ex_core 5))\<lparr>sk_port := Some 1\<rparr>), svz_sock_connections := 1\<rparr>,
     ns_ports := [1 \<mapsto> ex_port\<lparr>pc_send_buffer_size := 64, pc_recv_buffer_size := 64\<rparr>], ns_world := 9\<rparr>"

lemma ex_net_inv: "net_inv (ns_core ex_net) [5, 6]"
proof -
  let ?f = "\<lambda>s. s\<lparr>sk_port := Some 1\<rparr>" and ?s = "the (heap ex_core 5)"
  let ?c = "ex_core\<lparr>heap := (heap ex_core)(5 \<mapsto> ?f ?s)\<rparr>"
  have s: "heap ex_core 5 = Some ?s" by (simp add: ex_core_def)
  have "keeps ?f" by (simp add: keeps_def)
  from keeps_upd [OF this ex_world s] have w: "world_inv ?c [5, 6]" "\<forall>b. valid ?c b = valid ex_core b" "same_count ex_core ?c" by auto
  have "counted ex_core 6" "\<not> counted ex_core 5" by (simp_all add: counted_def Svz_Reach.ex_defs Svz_Reach.ex_eval)
  then have "1 = int (length (filter (counted ?c) [5, 6]))" using w(3) by (simp add: same_count_def)
  then have "net_inv (?c\<lparr>svz_sock_connections := 1\<rparr>) [5, 6]" unfolding net_inv_count using w(1,2) ex_valid by simp
  then show ?thesis by (simp add: ex_net_def)
qed

definition ex_fi1 :: "int files" where
  "ex_fi1 = \<lparr>fi_umask = \<lambda>m w. (0, w), fi_getuid = \<lambda>w. 0, fi_getgid = \<lambda>w. 0, fi_setuid = \<lambda>u w. (0, w), fi_setgid = \<lambda>g w. (0, w),
     fi_stat = \<lambda>_ _. Some True, fi_mkfifo = \<lambda>_ _ w. (0, w), fi_open = \<lambda>_ f w. (-1, w), fi_fstat = \<lambda>_ _. Some True\<rparr>"

definition ex_calls :: "int calls" where
  "ex_calls = \<lparr>ca_sys = ex_sys, ca_files = ex_fi1, ca_array = \<lambda>_. 0, ca_port = \<lambda>_. 0, ca_setsockopt = \<lambda>_ _ _ w. (0, w), ca_bind = \<lambda>_ _ w. (0, w),
     ca_listen = \<lambda>_ _ w. (0, w), ca_max_sockets = 100, ca_ENXIO = \<lambda>_. True, ca_disc = \<lambda>_ c. Some c\<rparr>"

lemma ex_net_fields:
  "heap (ns_core ex_net) 7 = None" "ns_world ex_net = 9" "svz_sock_connections (ns_core ex_net) = 1"
  "heap (ns_core ex_net) 5 = Some (set_flag SVZ_SOFLG_ENQUEUED (Svz_Reach.ex_listener\<lparr>sk_id := 1, sk_version := 0, sk_next := Some 6, sk_port := Some 1\<rparr>))"
  "map_option sk_sock_desc (heap (ns_core ex_net) 6) = Some 4"
  "ns_ports ex_net 1 = Some (ex_port\<lparr>pc_send_buffer_size := 64, pc_recv_buffer_size := 64\<rparr>)"
  by (simp_all add: ex_net_def ex_core_def ex_child_def set_flag_def)

text \<open>A client with the address 0 is accepted with the descriptor 9 and not refused.\<close>

theorem tcp_accept_admits_witness:
  "\<exists>st'. tcp_accept ex_calls (\<lambda>_ st. Some (0, st)) 5 ex_net = map_option (Pair 0) (call_check (\<lambda>_ st. Some (0, st)) 7 st')
     \<and> admitted ex_net [5, 6] 5 7 9 False st' \<and> svz_sock_connections (ns_core st') = 2"
proof -
  let ?l = "set_flag SVZ_SOFLG_ENQUEUED (Svz_Reach.ex_listener\<lparr>sk_id := 1, sk_version := 0, sk_next := Some 6, sk_port := Some 1\<rparr>)"
  let ?port = "ex_port\<lparr>pc_send_buffer_size := 64, pc_recv_buffer_size := 64\<rparr>"
  have sys: "ca_sys ex_calls = ex_sys" "ca_max_sockets ex_calls = 100" "sy_fresh ex_sys c = 7" "sy_os ex_sys = ex_os" for c
    by (simp_all add: ex_calls_def ex_sys_def)
  have p: "sk_port ?l = Some 1" "sk_sock_desc ?l = 3" by (simp_all add: set_flag_def Svz_Reach.ex_listener_def)
  have port: "0 \<le> pc_send_buffer_size ?port" "0 \<le> pc_recv_buffer_size ?port" "accepted_ok ?port" "0 \<le> pc_connect_freq ?port"
      "on_list (pc_deny ?port) (map svz_inet_ntoa [5])" "on_list (pc_allow ?port) (map svz_inet_ntoa [])" "attempts ?port ip = []" for ip
    using ex_deny_list by (simp_all add: ex_port_def svz_portcfg_create_def accepted_ok_def on_list_def attempts_def)
  have "sy_accept ex_sys (sk_sock_desc ?l) (ns_world ex_net) = (9, 10)" by (simp add: ex_sys_def ex_net_fields)
  note acc = tcp_accept_admits [where ca = ex_calls and check = "\<lambda>_ st. Some (0, st)", unfolded sys, OF ex_net_inv ex_net_fields(1) _ ex_net_fields(4) p(1) ex_net_fields(6) port(1-6) this]
  have "\<not> fd_fails ex_sys 9 10" "peer ex_os 9 w = 0" for w
    by (simp_all add: fd_fails_def svz_fd_nonblock_def svz_fd_cloexec_def ex_sys_def peer_def ex_os_def)
  moreover have "\<not> refuses ?port [5] [] 0 now" for now
    using port(7) by (simp add: refuses_def recent_def ex_port_def svz_portcfg_create_def)
  ultimately obtain st' where st': "tcp_accept ex_calls (\<lambda>_ st. Some (0, st)) 5 ex_net = map_option (Pair 0) (call_check (\<lambda>_ st. Some (0, st)) 7 st')"
      "admitted ex_net [5, 6] 5 7 9 False st'" using acc p(2) ex_net_fields(3-5) by auto
  then have "svz_sock_connections (ns_core st') = 2" using ex_net_fields(3) by (simp add: admitted_def)
  with st' show ?thesis by blast
qed

text \<open>The connection at address 6 shares the bindings of the listener; only the server 9, bound for 127.0.0.1, recognises its protocol.\<close>

definition ex_conn :: "int net_st" where
  "ex_conn = ex_net\<lparr>ns_ports := [1 \<mapsto> ex_any, 2 \<mapsto> ex_one], ns_ears := [(1, 0) \<mapsto> 0, (2, 1) \<mapsto> 0], ns_arrays := [0 \<mapsto> ex_bindings]\<rparr>"

definition ex_env :: "nat \<Rightarrow> int server_cb" where
  "ex_env n = \<lparr>sc_detect_proto = Some (\<lambda>_ st. Some (if n = 9 then 1 else 0, st)), sc_connect_socket = Some (\<lambda>_ st. Some (0, st)), sc_cfg = Some n\<rparr>"

theorem detect_proto_first_witness:
  "svz_sock_detect_proto (ex_os\<lparr>os_getsockname := \<lambda>_ _. Some (0x0100007f, htons 80)\<rparr>) ex_env (\<lambda>_ st. Some (0, st)) 6 ex_conn
     = connect_server ex_env (\<lambda>_ st. Some (0, st)) (make_binding 9 2) 6 ex_conn"
proof -
  let ?bs = "[make_binding 8 1, make_binding 9 2]"
  have h: "heap (ns_core ex_conn) 6 = Some (set_flag SVZ_SOFLG_ENQUEUED (ex_child\<lparr>sk_id := 2, sk_version := 1, sk_prev := Some 5\<rparr>))"
    by (simp add: ex_conn_def ex_net_def ex_core_def)
  have b: "bound ex_conn 6 ?bs" "svz_sock_bindings 6 ex_conn \<noteq> Some None"
    using h ex_bindings_vals by (simp_all add: bound_def the_sock_def svz_sock_bindings_def ex_conn_def make_binding_def set_flag_def)
  have pr: "sk_proto (set_flag SVZ_SOFLG_ENQUEUED (ex_child\<lparr>sk_id := 2, sk_version := 1, sk_prev := Some 5\<rparr>)) AND SVZ_PROTO_PIPE = 0"
    by (simp add: set_flag_def ex_child_def svz_sock_alloc_def soflg_defs SVZ_PROTO_PIPE_def)
  have f: "pc_flag ex_any PORTCFG_FLAG_ANY" "\<not> pc_flag ex_any PORTCFG_FLAG_DEVICE" "\<not> pc_flag ex_one PORTCFG_FLAG_DEVICE"
      "pc_proto ex_any = SVZ_PROTO_TCP" "pc_proto ex_one = SVZ_PROTO_TCP" "port_key ex_one = unat (htons 80)"
    by (simp_all add: pc_flag_def ex_made PORTCFG_FLAG_DEVICE_def PORTCFG_FLAG_ANY_def) (simp_all add: ex_made_eq pc_proto_def port_key_def)
  have p: "\<forall>b\<in>set ?bs. \<exists>p sa. ns_ports ex_conn (bd_port b) = Some p \<and> svz_portcfg_addr p = Some sa
           \<and> pc_proto p \<in> {SVZ_PROTO_TCP, SVZ_PROTO_UDP} \<and> \<not> pc_flag p PORTCFG_FLAG_DEVICE"
    using f by (simp add: ex_conn_def make_binding_def ex_made)
  have d: "\<forall>b\<in>set ?bs. detects ex_env 6 ex_conn b" by (simp add: detects_def ex_env_def)
  have lp: "svz_sock_portcfg (ns_core ex_conn) 6 = Some (Some 1)" "ns_ports ex_conn 1 = Some ex_any"
    by (simp_all add: svz_sock_portcfg_def svz_sock_getparent_def svz_sock_find_def ex_conn_def ex_net_def Svz_Reach.ex_defs Svz_Reach.ex_eval)
  have "find (\<lambda>b. (\<exists>p pr. ns_ports ex_conn (bd_port b) = Some p \<and> (pr, 0x0100007f, unat (htons 80)) \<in> endpoints p)
      \<and> recognises ex_env 6 ex_conn b) ?bs = Some (make_binding 9 2)"
    using endpoints_member [OF ex_made(5)] f by (simp add: recognises_def ex_env_def make_binding_def ex_conn_def)
  then show ?thesis
    using detect_proto_first [where os = "ex_os\<lparr>os_getsockname := \<lambda>_ _. Some (0x0100007f, htons 80)\<rparr>" and check = "\<lambda>_ st. Some (0, st)",
      OF b h [folded the_sock_def] pr _ p d lp]
    by (simp add: ex_env_def make_binding_def)
qed

end
