(* ===== verification/Http_Cache.thy ===== *)
theory Http_Cache
  imports Svz_Core Svz_Hash
begin

text \<open>
  The file cache of the HTTP server (\<^verbatim>\<open>http-server/http-cache.c\<close>): a hash table from file names to entries, which are chained from the most to the
  least recently used one. Looking a file up makes its entry the most recent one; a new file takes the place of the least recent entry that no connection
  uses.

  Entries and the blocks with the contents of files live in heaps; an access to something freed and freeing it twice is \<^term>\<open>None\<close>. File names are
  texts without their terminating NUL. The addresses the allocator hands out are parameters (\<open>at\<close>).
\<close>

subsection \<open>Data\<close>

record http_cache_entry =
  ce_next :: "addr option"
  ce_prev :: "addr option"
  ce_buffer :: "addr option"
  ce_size :: int
  ce_file :: mem
  ce_date :: int
  ce_usage :: int
  ce_hits :: int
  ce_ready :: int

text \<open>What a connection knows of the cache; its buffer is a position in a block.\<close>

record http_cache_t =
  hc_buffer :: "(addr \<times> nat) option"
  hc_size :: int
  hc_entry :: "addr option"

record cache_st =
  ch_table :: "addr svz_hash option"
  ch_entries :: nat
  ch_first :: "addr option"
  ch_last :: "addr option"
  ch_heap :: "addr \<Rightarrow> http_cache_entry option"
  ch_blocks :: "addr \<Rightarrow> byte cell list option"

definition HTTP_CACHE_COMPLETE :: int where "HTTP_CACHE_COMPLETE = 0"
definition HTTP_CACHE_INCOMPLETE :: int where "HTTP_CACHE_INCOMPLETE = 1"
definition HTTP_CACHE_NO :: int where "HTTP_CACHE_NO = 2"
definition HTTP_CACHE_INHIBIT :: int where "HTTP_CACHE_INHIBIT = 3"

definition cupd :: "addr \<Rightarrow> (http_cache_entry \<Rightarrow> http_cache_entry) \<Rightarrow> cache_st \<Rightarrow> cache_st option" where
  "cupd a f st = do { e \<leftarrow> ch_heap st a; Some (st\<lparr>ch_heap := (ch_heap st)(a \<mapsto> f e)\<rparr>) }"

text \<open>\<^verbatim>\<open>svz_free\<close> of a block, where \<^verbatim>\<open>NULL\<close> is ignored and only the start of a block may be freed.\<close>

definition free_block :: "addr option \<Rightarrow> cache_st \<Rightarrow> cache_st option" where
  "free_block b st =
     (case b of
        None \<Rightarrow> Some st
      | Some p \<Rightarrow> if ch_blocks st p = None then None else Some (st\<lparr>ch_blocks := (ch_blocks st)(p := None)\<rparr>))"

definition block_start :: "(addr \<times> nat) option \<Rightarrow> addr option option" where
  "block_start b = (case b of None \<Rightarrow> Some None | Some (p, i) \<Rightarrow> if i = 0 then Some (Some p) else None)"

subsection \<open>The table and the chain\<close>

text \<open>Freeing the entries.\<close>

partial_function (option) free_entries :: "addr option \<Rightarrow> cache_st \<Rightarrow> cache_st option" where
  "free_entries cur st =
     (case cur of
        None \<Rightarrow> Some st
      | Some a \<Rightarrow> do {
          e \<leftarrow> ch_heap st a;
          st \<leftarrow> free_block (ce_buffer e) st;
          free_entries (ce_next e) (st\<lparr>ch_heap := (ch_heap st)(a := None)\<rparr>)
        })"

definition http_free_cache :: "cache_st \<Rightarrow> cache_st option" where
  "http_free_cache st = do {
     st \<leftarrow> free_entries (ch_first st) st;
     Some (st\<lparr>ch_first := None, ch_last := None, ch_table := None\<rparr>)
   }"

definition http_alloc_cache :: "nat \<Rightarrow> cache_st \<Rightarrow> cache_st option" where
  "http_alloc_cache n st =
     (if n > ch_entries st \<or> ch_table st = None
      then do {
        st \<leftarrow> (if ch_table st \<noteq> None then http_free_cache st else Some st);
        h \<leftarrow> svz_hash_create n False;
        Some (st\<lparr>ch_table := Some h, ch_entries := n\<rparr>) }
      else Some st)"

partial_function (option) urgency_loop :: "cache_st \<Rightarrow> addr \<Rightarrow> addr option \<Rightarrow> int \<Rightarrow> int option" where
  "urgency_loop st cache entry n =
     (case entry of
        None \<Rightarrow> Some (-1)
      | Some a \<Rightarrow> if a = cache then Some n else do { e \<leftarrow> ch_heap st a; urgency_loop st cache (ce_next e) (n + 1) })"

definition http_cache_urgency :: "cache_st \<Rightarrow> addr \<Rightarrow> int option" where
  "http_cache_urgency st cache = urgency_loop st cache (ch_first st) 0"

definition http_urgent_cache :: "addr \<Rightarrow> cache_st \<Rightarrow> cache_st option" where
  "http_urgent_cache cache st = do {
     e \<leftarrow> ch_heap st cache;
     case ce_prev e of
       None \<Rightarrow> Some st
     | Some p \<Rightarrow> do {
         st \<leftarrow> cupd p (\<lambda>x. x\<lparr>ce_next := ce_next e\<rparr>) st;
         st \<leftarrow> (case ce_next e of
                  Some n \<Rightarrow> cupd n (\<lambda>x. x\<lparr>ce_prev := ce_prev e\<rparr>) st
                | None \<Rightarrow> Some (st\<lparr>ch_last := ce_prev e\<rparr>));
         f \<leftarrow> ch_first st;
         st \<leftarrow> cupd f (\<lambda>x. x\<lparr>ce_prev := Some cache\<rparr>) st;
         st \<leftarrow> cupd cache (\<lambda>x. x\<lparr>ce_next := Some f, ce_prev := None\<rparr>) st;
         Some (st\<lparr>ch_first := Some cache\<rparr>)
       }
   }"

text \<open>The table must exist: \<^verbatim>\<open>svz_hash_get\<close> dereferences it.\<close>

definition http_check_cache :: "mem \<Rightarrow> http_cache_t \<Rightarrow> cache_st \<Rightarrow> (int \<times> http_cache_t \<times> cache_st) option" where
  "http_check_cache file cache st = do {
     h \<leftarrow> ch_table st;
     hit \<leftarrow> svz_hash_get h (file @ [0]);
     case hit of
       None \<Rightarrow> Some (HTTP_CACHE_NO, cache, st)
     | Some a \<Rightarrow> do {
         st \<leftarrow> http_urgent_cache a st;
         e \<leftarrow> ch_heap st a;
         if ce_ready e \<noteq> 0
         then Some (HTTP_CACHE_COMPLETE, cache\<lparr>hc_entry := Some a, hc_buffer := map_option (\<lambda>p. (p, 0)) (ce_buffer e), hc_size := ce_size e\<rparr>, st)
         else Some (HTTP_CACHE_INCOMPLETE, cache, st)
       }
   }"

definition http_cache_create_entry :: http_cache_entry where
  "http_cache_create_entry = \<lparr>ce_next = None, ce_prev = None, ce_buffer = None, ce_size = 0, ce_file = [], ce_date = 0,
     ce_usage = 0, ce_hits = 0, ce_ready = 0\<rparr>"

text \<open>An inconsistency between table and chain is only logged.\<close>

definition http_cache_destroy_entry :: "addr \<Rightarrow> cache_st \<Rightarrow> cache_st option" where
  "http_cache_destroy_entry cache st = do {
     e \<leftarrow> ch_heap st cache;
     h \<leftarrow> ch_table st;
     (old, h) \<leftarrow> svz_hash_delete h (ce_file e @ [0]);
     let st = st\<lparr>ch_table := Some h\<rparr>;
     st \<leftarrow> (case ce_prev e of
              Some p \<Rightarrow> cupd p (\<lambda>x. x\<lparr>ce_next := ce_next e\<rparr>) st
            | None \<Rightarrow> Some (st\<lparr>ch_first := ce_next e\<rparr>));
     st \<leftarrow> (case ce_next e of
              Some n \<Rightarrow> cupd n (\<lambda>x. x\<lparr>ce_prev := ce_prev e\<rparr>) st
            | None \<Rightarrow> Some (st\<lparr>ch_last := ce_prev e\<rparr>));
     st \<leftarrow> (if ce_ready e \<noteq> 0 then free_block (ce_buffer e) st else Some st);
     Some (st\<lparr>ch_heap := (ch_heap st)(cache := None)\<rparr>)
   }"

definition http_cache_reset :: "http_cache_t \<Rightarrow> http_cache_t" where
  "http_cache_reset cache = cache\<lparr>hc_size := 0, hc_buffer := None, hc_entry := None\<rparr>"

text \<open>The search for the least recent entry that is filled and not in use.\<close>

partial_function (option) slot_loop :: "cache_st \<Rightarrow> addr option \<Rightarrow> addr option option" where
  "slot_loop st entry =
     (case entry of
        None \<Rightarrow> Some None
      | Some a \<Rightarrow> do {
          e \<leftarrow> ch_heap st a;
          if ce_usage e = 0 \<and> ce_ready e \<noteq> 0 then Some (Some a) else slot_loop st (ce_prev e)
        })"

definition link_slot :: "addr \<Rightarrow> mem \<Rightarrow> cache_st \<Rightarrow> cache_st option" where
  "link_slot slot file st = do {
     h \<leftarrow> ch_table st;
     (old, h) \<leftarrow> svz_hash_put h (file @ [0]) (Some slot);
     let st = st\<lparr>ch_table := Some h, ch_heap := (ch_heap st)(slot \<mapsto> http_cache_create_entry\<lparr>ce_file := file, ce_next := ch_first st\<rparr>)\<rparr>;
     st \<leftarrow> (case ch_first st of
              None \<Rightarrow> Some (st\<lparr>ch_last := Some slot\<rparr>)
            | Some f \<Rightarrow> cupd f (\<lambda>x. x\<lparr>ce_prev := Some slot\<rparr>) st);
     Some (st\<lparr>ch_first := Some slot\<rparr>)
   }"

definition http_init_cache :: "(cache_st \<Rightarrow> addr) \<Rightarrow> mem \<Rightarrow> http_cache_t \<Rightarrow> cache_st \<Rightarrow> (int \<times> http_cache_t \<times> cache_st) option" where
  "http_init_cache at file cache st =
     (if svz_hash_size (ch_table st) < ch_entries st
      then do {
        let slot = at st;
        st \<leftarrow> link_slot slot file st;
        Some (0, (http_cache_reset cache)\<lparr>hc_entry := Some slot\<rparr>, st) }
      else do {
        slot \<leftarrow> slot_loop st (ch_last st);
        case slot of
          None \<Rightarrow> Some (-1, http_cache_reset cache, st)
        | Some old \<Rightarrow> do {
            st \<leftarrow> http_cache_destroy_entry old st;
            let slot = at st;
            st \<leftarrow> link_slot slot file st;
            Some (0, (http_cache_reset cache)\<lparr>hc_entry := Some slot\<rparr>, st) } })"

text \<open>The entry is kept, its contents are freed.\<close>

definition http_refresh_cache :: "http_cache_t \<Rightarrow> cache_st \<Rightarrow> (http_cache_t \<times> cache_st) option" where
  "http_refresh_cache cache st = do {
     a \<leftarrow> hc_entry cache;
     e \<leftarrow> ch_heap st a;
     st \<leftarrow> free_block (ce_buffer e) st;
     st \<leftarrow> cupd a (\<lambda>e. e\<lparr>ce_buffer := None, ce_ready := 0, ce_hits := 0, ce_usage := 0\<rparr>) st;
     Some (cache\<lparr>hc_size := 0, hc_buffer := None\<rparr>, st)
   }"

subsection \<open>Chains of entries\<close>

fun cseg :: "(addr \<Rightarrow> http_cache_entry option) \<Rightarrow> addr option \<Rightarrow> addr list \<Rightarrow> addr option \<Rightarrow> bool" where
  "cseg h p [] n \<longleftrightarrow> True"
| "cseg h p (a # xs) n \<longleftrightarrow> (\<exists>e. h a = Some e \<and> ce_prev e = p \<and> ce_next e = hd_or xs n) \<and> cseg h (Some a) xs n"

lemma cseg_append: "cseg h p (xs @ ys) n \<longleftrightarrow> cseg h p xs (hd_or ys n) \<and> cseg h (last_or p xs) ys n"
  by (induction xs arbitrary: p) auto

lemma cseg_frame [simp]: "a \<notin> set xs \<Longrightarrow> cseg (h(a := v)) p xs n = cseg h p xs n"
  by (induction xs arbitrary: p) auto

lemma cseg_alloc: "cseg h p xs n \<Longrightarrow> a \<in> set xs \<Longrightarrow> h a \<noteq> None"
  by (induction xs arbitrary: p) auto

definition cchain :: "cache_st \<Rightarrow> addr list \<Rightarrow> bool" where
  "cchain st xs \<longleftrightarrow> distinct xs \<and> cseg (ch_heap st) None xs None \<and> ch_first st = hd_or xs None \<and> ch_last st = last_or None xs"

text \<open>An entry without its links.\<close>

definition ce_data :: "http_cache_entry \<Rightarrow> http_cache_entry" where
  "ce_data e = e\<lparr>ce_next := None, ce_prev := None\<rparr>"

lemma ce_data_simps [simp]:
  "ce_data (e\<lparr>ce_next := n\<rparr>) = ce_data e" "ce_data (e\<lparr>ce_prev := p\<rparr>) = ce_data e" "ce_file (ce_data e) = ce_file e"
  "ce_ready (ce_data e) = ce_ready e" "ce_usage (ce_data e) = ce_usage e" "ce_buffer (ce_data e) = ce_buffer e" "ce_size (ce_data e) = ce_size e"
  by (simp_all add: ce_data_def)

text \<open>What the operations on the chain leave alone.\<close>

definition relinked :: "cache_st \<Rightarrow> cache_st \<Rightarrow> bool" where
  "relinked st st' \<longleftrightarrow> (\<forall>b. map_option ce_data (ch_heap st' b) = map_option ce_data (ch_heap st b))
     \<and> ch_table st' = ch_table st \<and> ch_entries st' = ch_entries st \<and> ch_blocks st' = ch_blocks st"

lemma relinked_refl [simp]: "relinked st st"
  by (simp add: relinked_def)

lemma relinked_trans: "relinked st st' \<Longrightarrow> relinked st' st'' \<Longrightarrow> relinked st st''"
  by (simp add: relinked_def)

lemma cupd_relinked:
  assumes "cupd a f st = Some st'" "\<And>e. ce_data (f e) = ce_data e"
  shows "relinked st st'"
  using assms by (auto simp: cupd_def relinked_def)

text \<open>Taking an entry out of the chain.\<close>

lemma unlink_ok:
  assumes "cchain st (ys @ a # zs)" "ch_heap st a = Some e"
  shows "\<exists>st1 st2. (case ce_prev e of Some p \<Rightarrow> cupd p (\<lambda>x. x\<lparr>ce_next := ce_next e\<rparr>) st | None \<Rightarrow> Some (st\<lparr>ch_first := ce_next e\<rparr>)) = Some st1
     \<and> (case ce_next e of Some n \<Rightarrow> cupd n (\<lambda>x. x\<lparr>ce_prev := ce_prev e\<rparr>) st1 | None \<Rightarrow> Some (st1\<lparr>ch_last := ce_prev e\<rparr>)) = Some st2
     \<and> cchain st2 (ys @ zs) \<and> relinked st st2 \<and> ch_heap st2 a = Some e"
proof -
  have d: "distinct (ys @ a # zs)" and seg: "cseg (ch_heap st) None (ys @ a # zs) None"
    and ends: "ch_first st = hd_or (ys @ a # zs) None" "ch_last st = last_or None (ys @ a # zs)" using assms(1) by (simp_all add: cchain_def)
  have e: "ce_prev e = last_or None ys" "ce_next e = hd_or zs None" using seg assms(2) by (auto simp: cseg_append)
  show ?thesis
  proof (cases ys rule: rev_cases)
    case Nil
    show ?thesis
    proof (cases zs)
      case Nil
      then show ?thesis using \<open>ys = []\<close> e assms(2) by (simp add: cchain_def relinked_def)
    next
      case (Cons z zs')
      then show ?thesis using \<open>ys = []\<close> e assms(2) d seg ends by (auto simp: cupd_def cchain_def relinked_def)
    qed
  next
    case (snoc ys' y)
    obtain ey where y: "ch_heap st y = Some ey" using seg snoc by (auto simp: cseg_append)
    show ?thesis
    proof (cases zs)
      case Nil
      then show ?thesis using snoc y e assms(2) d seg ends by (auto simp: cupd_def cchain_def relinked_def cseg_append)
    next
      case (Cons z zs')
      then show ?thesis using snoc y e assms(2) d seg ends by (auto simp: cupd_def cchain_def relinked_def cseg_append)
    qed
  qed
qed

text \<open>Making an entry the most recent one.\<close>

lemma urgent_moves:
  assumes "cchain st xs" "a \<in> set xs"
  shows "\<exists>st'. http_urgent_cache a st = Some st' \<and> cchain st' (a # remove1 a xs) \<and> relinked st st'"
proof -
  obtain ys zs where xs: "xs = ys @ a # zs" using split_list [OF assms(2)] by blast
  obtain e where e: "ch_heap st a = Some e" using assms cseg_alloc [of "ch_heap st" None xs None a] by (auto simp: cchain_def)
  have d: "distinct xs" and p: "ce_prev e = last_or None ys"
    using assms(1) e by (auto simp: cchain_def xs cseg_append)
  have rm: "remove1 a xs = ys @ zs" using d by (simp add: xs remove1_append)
  show ?thesis
  proof (cases ys)
    case Nil
    then show ?thesis using assms(1) e p xs by (simp add: http_urgent_cache_def)
  next
    case (Cons f ys')
    then obtain q where q: "ce_prev e = Some q" using p by (simp add: last_or_def)
    from unlink_ok [OF assms(1) [unfolded xs] e] obtain st1 st2 where
      st2: "cupd q (\<lambda>x. x\<lparr>ce_next := ce_next e\<rparr>) st = Some st1"
        "(case ce_next e of Some n \<Rightarrow> cupd n (\<lambda>x. x\<lparr>ce_prev := ce_prev e\<rparr>) st1 | None \<Rightarrow> Some (st1\<lparr>ch_last := ce_prev e\<rparr>)) = Some st2"
        "cchain st2 (ys @ zs)" "relinked st st2" "ch_heap st2 a = Some e" by (auto simp: q)
    obtain ef where f: "ch_first st2 = Some f" "ch_heap st2 f = Some ef" "f \<noteq> a" using st2(3) d xs Cons by (auto simp: cchain_def)
    let ?h = "(ch_heap st2)(f \<mapsto> ef\<lparr>ce_prev := Some a\<rparr>, a \<mapsto> e\<lparr>ce_next := Some f, ce_prev := None\<rparr>)"
    let ?st = "st2\<lparr>ch_heap := ?h, ch_first := Some a\<rparr>"
    have "http_urgent_cache a st = Some ?st"
      using e q st2(1,2,5) f by (simp add: http_urgent_cache_def cupd_def [of f] cupd_def [of a])
    moreover have "cchain ?st (a # ys @ zs)"
      using st2(3) d xs Cons f by (auto simp: cchain_def cseg_append)
    moreover have "relinked st2 ?st" using f st2(5) by (auto simp: relinked_def)
    ultimately show ?thesis using relinked_trans [OF st2(4)] rm by auto
  qed
qed

subsection \<open>The cache as a list of files\<close>

definition file_of :: "cache_st \<Rightarrow> addr \<Rightarrow> mem option" where
  "file_of st a = map_option ce_file (ch_heap st a)"

text \<open>The table leads exactly from the files of the entries to the entries.\<close>

definition table_ok :: "cache_st \<Rightarrow> addr set \<Rightarrow> bool" where
  "table_ok st A \<longleftrightarrow> (\<exists>h m. ch_table st = Some h \<and> hash_rel h m
     \<and> (\<forall>s v. m s = Some v \<longleftrightarrow> (\<exists>a\<in>A. v = Some a \<and> file_of st a = Some s)))"

definition entry_ok :: "(addr \<Rightarrow> byte cell list option) \<Rightarrow> http_cache_entry \<Rightarrow> bool" where
  "entry_ok blocks e \<longleftrightarrow> (if ce_ready e = 0 then ce_buffer e = None else (\<exists>p. ce_buffer e = Some p \<and> blocks p \<noteq> None))"

text \<open>
  The invariant: a consistent chain of all entries, the table, no more entries than the limit, and a block of its own for every filled entry.
\<close>

definition cache_inv :: "cache_st \<Rightarrow> addr list \<Rightarrow> bool" where
  "cache_inv st xs \<longleftrightarrow> cchain st xs \<and> table_ok st (set xs) \<and> length xs \<le> ch_entries st
     \<and> (\<forall>a. ch_heap st a \<noteq> None \<longleftrightarrow> a \<in> set xs)
     \<and> (\<forall>a e. ch_heap st a = Some e \<longrightarrow> entry_ok (ch_blocks st) e)
     \<and> (\<forall>a b e e' p. ch_heap st a = Some e \<longrightarrow> ch_heap st b = Some e' \<longrightarrow> ce_buffer e = Some p \<longrightarrow> ce_buffer e' = Some p \<longrightarrow> a = b)"

lemma relinked_data:
  assumes "relinked st st'" "ch_heap st' a = Some e"
  shows "\<exists>e0. ch_heap st a = Some e0 \<and> ce_data e0 = ce_data e"
proof -
  have "map_option ce_data (ch_heap st' a) = map_option ce_data (ch_heap st a)" using assms(1) by (simp add: relinked_def)
  then show ?thesis using assms(2) by (cases "ch_heap st a") auto
qed

lemma relinked_sym: "relinked st st' \<Longrightarrow> relinked st' st"
  by (simp add: relinked_def)

lemma data_eqD:
  assumes "ce_data e = ce_data e'"
  shows "ce_file e = ce_file e'" "ce_ready e = ce_ready e'" "ce_usage e = ce_usage e'" "ce_buffer e = ce_buffer e'" "ce_size e = ce_size e'"
  using ce_data_simps(3-7) assms by metis+

lemma relinked_file: "relinked st st' \<Longrightarrow> file_of st' a = file_of st a"
  unfolding file_of_def
  by (cases "ch_heap st a"; cases "ch_heap st' a") (auto simp: relinked_def dest!: spec [of _ a] intro: data_eqD)

lemma relinked_inv:
  assumes "cache_inv st xs" "relinked st st'" "cchain st' xs'" "set xs' = set xs" "length xs' = length xs"
  shows "cache_inv st' xs'"
proof -
  have t: "ch_table st' = ch_table st" "ch_entries st' = ch_entries st" "ch_blocks st' = ch_blocks st"
    using assms(2) by (simp_all add: relinked_def)
  have "table_ok st' (set xs')"
    using assms(1) unfolding table_ok_def t assms(4) relinked_file [OF assms(2)] by (simp add: cache_inv_def table_ok_def)
  moreover have "ch_heap st' a \<noteq> None \<longleftrightarrow> a \<in> set xs'" for a
  proof -
    have "map_option ce_data (ch_heap st' a) = map_option ce_data (ch_heap st a)" using assms(2) by (simp add: relinked_def)
    then have "ch_heap st' a = None \<longleftrightarrow> ch_heap st a = None" by (metis option.map_disc_iff)
    then show ?thesis using assms(1,4) by (simp add: cache_inv_def)
  qed
  moreover have "entry_ok (ch_blocks st') e" if a: "ch_heap st' a = Some e" for a e
  proof -
    obtain e0 where e0: "ch_heap st a = Some e0" "ce_data e0 = ce_data e" using relinked_data [OF assms(2) a] by blast
    then have "entry_ok (ch_blocks st) e0" using assms(1) by (simp add: cache_inv_def)
    moreover have "entry_ok (ch_blocks st') e = entry_ok (ch_blocks st) e0" by (simp add: entry_ok_def data_eqD [OF e0(2)] t(3))
    ultimately show ?thesis by simp
  qed
  moreover have "a = b" if h: "ch_heap st' a = Some e" "ch_heap st' b = Some e'" "ce_buffer e = Some p" "ce_buffer e' = Some p" for a b e e' p
  proof -
    obtain e0 e1 where e0: "ch_heap st a = Some e0" "ce_data e0 = ce_data e" "ch_heap st b = Some e1" "ce_data e1 = ce_data e'"
      using relinked_data [OF assms(2) h(1)] relinked_data [OF assms(2) h(2)] by blast
    then show ?thesis using assms(1) h(3,4) data_eqD(4) unfolding cache_inv_def by metis
  qed
  ultimately show ?thesis using assms(1,3,5) t(2) unfolding cache_inv_def by metis
qed

lemma table_get:
  assumes "table_ok st A" "ch_table st = Some h" "0 \<notin> set fn"
  shows "\<exists>r. svz_hash_get h (fn @ [0]) = Some r \<and> (\<forall>a. r = Some a \<longleftrightarrow> a \<in> A \<and> file_of st a = Some fn)"
proof -
  obtain m where m: "hash_rel h m" "\<And>s v. m s = Some v \<longleftrightarrow> (\<exists>a\<in>A. v = Some a \<and> file_of st a = Some s)"
    using assms(1,2) by (auto simp: table_ok_def)
  have get: "svz_hash_get h (fn @ [0]) = Some (Option.bind (m fn) id)"
    using hash_step_refines [OF m(1), of "HGet (fn @ [0])"] name_c_string [of fn] cstr_name [OF assms(3)]
    by (auto elim!: bind_SomeE)
  show ?thesis
  proof (cases "m fn")
    case None
    then have "\<not> (\<exists>a\<in>A. file_of st a = Some fn)" using m(2) [of fn] by auto
    then show ?thesis using None get by auto
  next
    case (Some v)
    then obtain a where a: "a \<in> A" "v = Some a" "file_of st a = Some fn" using m(2) [of fn v] by auto
    have "b = a" if b: "b \<in> A" "file_of st b = Some fn" for b
    proof -
      have "m fn = Some (Some b)" using m(2) b by blast
      then show ?thesis using Some a(2) by simp
    qed
    then have "Some a = Some b \<longleftrightarrow> b \<in> A \<and> file_of st b = Some fn" for b using a(1,3) by blast
    moreover have "svz_hash_get h (fn @ [0]) = Some (Some a)" using get by (simp add: Some a(2))
    ultimately show ?thesis by blast
  qed
qed

lemma table_put:
  assumes "table_ok st A" "ch_table st = Some h" "0 \<notin> set fn" "\<forall>a\<in>A. file_of st a \<noteq> Some fn"
  shows "\<exists>old h'. svz_hash_put h (fn @ [0]) (Some slot) = Some (old, h')
     \<and> (\<forall>st'. ch_table st' = Some h' \<longrightarrow> (\<forall>b\<in>A. file_of st' b = file_of st b) \<longrightarrow> file_of st' slot = Some fn \<longrightarrow> table_ok st' (insert slot A))"
proof -
  obtain m where m: "hash_rel h m" "\<And>s v. m s = Some v \<longleftrightarrow> (\<exists>a\<in>A. v = Some a \<and> file_of st a = Some s)"
    using assms(1,2) by (auto simp: table_ok_def)
  obtain old h' where h': "svz_hash_put h (fn @ [0]) (Some slot) = Some (old, h')" "hash_rel h' (m(fn \<mapsto> Some slot))"
    using hash_step_refines [OF m(1), of "HPut (fn @ [0]) (Some slot)"] name_c_string [of fn] cstr_name [OF assms(3)] by auto
  have "(m(fn \<mapsto> Some slot)) s = Some v \<longleftrightarrow> (\<exists>a\<in>insert slot A. v = Some a \<and> file_of st' a = Some s)"
    if "\<forall>b\<in>A. file_of st' b = file_of st b" "file_of st' slot = Some fn" for st' s v
    using m(2) [of s v] assms(4) that by (cases "s = fn") auto
  then show ?thesis using h' unfolding table_ok_def by blast
qed

lemma table_del:
  assumes "table_ok st A" "ch_table st = Some h" "0 \<notin> set fn" "a \<in> A" "file_of st a = Some fn"
    and "\<And>b. b \<in> A \<Longrightarrow> b \<noteq> a \<Longrightarrow> file_of st' b = file_of st b"
  shows "\<exists>old h'. svz_hash_delete h (fn @ [0]) = Some (old, h') \<and> (ch_table st' = Some h' \<longrightarrow> table_ok st' (A - {a}))"
proof -
  obtain m where m: "hash_rel h m" "\<And>s v. m s = Some v \<longleftrightarrow> (\<exists>a\<in>A. v = Some a \<and> file_of st a = Some s)"
    using assms(1,2) by (auto simp: table_ok_def)
  obtain old h' where h': "svz_hash_delete h (fn @ [0]) = Some (old, h')" "hash_rel h' (m(fn := None))"
    using hash_step_refines [OF m(1), of "HDel (fn @ [0])"] name_c_string [of fn] cstr_name [OF assms(3)] by auto
  have uniq: "b = a" if "b \<in> A" "file_of st b = Some fn" for b
  proof -
    have "m fn = Some (Some b)" "m fn = Some (Some a)" using m(2) that assms(4,5) by auto
    then show ?thesis by simp
  qed
  have "(m(fn := None)) s = Some v \<longleftrightarrow> (\<exists>b\<in>A - {a}. v = Some b \<and> file_of st' b = Some s)" for s v
  proof (cases "s = fn")
    case True
    then show ?thesis using uniq assms(6) by fastforce
  next
    case False
    then show ?thesis unfolding fun_upd_other [OF False] m(2) [of s v] using assms(5,6) by force
  qed
  then show ?thesis using h' unfolding table_ok_def by blast
qed

lemma table_size:
  assumes "table_ok st A" "\<forall>a\<in>A. ch_heap st a \<noteq> None"
  shows "svz_hash_size (ch_table st) = card A"
proof -
  obtain h m where m: "ch_table st = Some h" "hash_rel h m" "\<And>s v. m s = Some v \<longleftrightarrow> (\<exists>a\<in>A. v = Some a \<and> file_of st a = Some s)"
    using assms(1) by (auto simp: table_ok_def)
  let ?f = "\<lambda>a. the (file_of st a)"
  have f: "file_of st a = Some (?f a)" if "a \<in> A" for a using assms(2) that by (auto simp: file_of_def)
  have inj: "inj_on ?f A"
  proof
    fix a b assume ab: "a \<in> A" "b \<in> A" "?f a = ?f b"
    then have "m (?f a) = Some (Some a)" "m (?f a) = Some (Some b)" using m(3) f [of a] f [of b] by auto
    then show "a = b" by simp
  qed
  have "s \<in> dom m \<longleftrightarrow> s \<in> ?f ` A" for s
  proof
    assume "s \<in> dom m"
    then obtain v where "m s = Some v" by auto
    then show "s \<in> ?f ` A" using m(3) [of s v] by force
  next
    assume "s \<in> ?f ` A"
    then obtain a where a: "a \<in> A" "s = ?f a" by auto
    then show "s \<in> dom m" using m(3) [of s "Some a"] f [OF a(1)] by auto
  qed
  then have "dom m = ?f ` A" by blast
  then show ?thesis using hash_rel_size [OF m(2)] card_image [OF inj] by (simp add: svz_hash_size_def m(1))
qed

lemma table_names:
  assumes "table_ok st A" "a \<in> A" "file_of st a = Some s"
  shows "0 \<notin> set s"
proof -
  obtain h m where m: "hash_rel h m" "\<And>s v. m s = Some v \<longleftrightarrow> (\<exists>a\<in>A. v = Some a \<and> file_of st a = Some s)"
    using assms(1) by (auto simp: table_ok_def)
  then have "m s = Some (Some a)" using assms(2,3) by blast
  then show ?thesis using m(1) by (auto simp: hash_rel_def)
qed

text \<open>The entries other than those in \<open>B\<close> are the same up to their links.\<close>

definition others :: "cache_st \<Rightarrow> cache_st \<Rightarrow> addr set \<Rightarrow> bool" where
  "others st st' B \<longleftrightarrow> (\<forall>b. b \<notin> B \<longrightarrow> map_option ce_data (ch_heap st' b) = map_option ce_data (ch_heap st b))"

lemma others_entry:
  assumes "others st st' B" "b \<notin> B" "ch_heap st' b = Some e"
  shows "\<exists>e0. ch_heap st b = Some e0 \<and> ce_data e0 = ce_data e"
proof -
  have "map_option ce_data (ch_heap st' b) = map_option ce_data (ch_heap st b)" using assms(1,2) by (simp add: others_def)
  then show ?thesis using assms(3) by (cases "ch_heap st b") auto
qed

lemma others_file:
  assumes "others st st' B" "b \<notin> B"
  shows "file_of st' b = file_of st b"
proof -
  have eq: "map_option ce_data (ch_heap st' b) = map_option ce_data (ch_heap st b)" using assms by (simp add: others_def)
  show ?thesis
  proof (cases "ch_heap st' b")
    case None
    then show ?thesis using eq by (simp add: file_of_def)
  next
    case (Some e)
    then show ?thesis using others_entry [OF assms Some] by (auto simp: file_of_def dest: data_eqD(1))
  qed
qed

text \<open>Blocks and entries of the other entries stay well-formed.\<close>

lemma others_blocks:
  assumes inv: "cache_inv st xs" and o: "others st st' B" and blk: "\<And>p. ch_blocks st' p = ch_blocks st p \<or> (\<exists>b\<in>B. \<exists>e. ch_heap st b = Some e \<and> ce_buffer e = Some p)"
    and a: "a \<notin> B" "ch_heap st' a = Some e"
  shows "entry_ok (ch_blocks st') e"
proof -
  obtain e0 where e0: "ch_heap st a = Some e0" "ce_data e0 = ce_data e" using others_entry [OF o a] by blast
  have "entry_ok (ch_blocks st) e0" using inv e0(1) by (simp add: cache_inv_def)
  moreover have "ch_blocks st' p = ch_blocks st p" if p: "ce_buffer e0 = Some p" for p
  proof (rule ccontr)
    assume "ch_blocks st' p \<noteq> ch_blocks st p"
    then obtain b e' where b: "b \<in> B" "ch_heap st b = Some e'" "ce_buffer e' = Some p" using blk [of p] by blast
    have "a = b" using inv e0(1) b(2,3) p unfolding cache_inv_def by metis
    then show False using a(1) b(1) by simp
  qed
  ultimately show ?thesis unfolding entry_ok_def data_eqD [OF e0(2), symmetric] by metis
qed

lemma others_inj:
  assumes inv: "cache_inv st xs" and o: "others st st' B" and a: "a \<notin> B" "b \<notin> B" "ch_heap st' a = Some e" "ch_heap st' b = Some e'"
    "ce_buffer e = Some p" "ce_buffer e' = Some p"
  shows "a = b"
proof -
  obtain e0 e1 where e0: "ch_heap st a = Some e0" "ce_data e0 = ce_data e" "ch_heap st b = Some e1" "ce_data e1 = ce_data e'"
    using others_entry [OF o a(1,3)] others_entry [OF o a(2,4)] by blast
  then show ?thesis using inv a(5,6) data_eqD(4) unfolding cache_inv_def by metis
qed

lemma inv_entry:
  assumes "cache_inv st xs" "a \<in> set xs"
  shows "\<exists>e. ch_heap st a = Some e"
proof -
  have "ch_heap st a \<noteq> None" using assms unfolding cache_inv_def by blast
  then show ?thesis by blast
qed

text \<open>Destroying a filled or unfilled entry.\<close>

lemma destroy_entry:
  assumes inv: "cache_inv st xs" and a: "a \<in> set xs"
  shows "\<exists>st'. http_cache_destroy_entry a st = Some st' \<and> cache_inv st' (remove1 a xs) \<and> others st st' {a} \<and> ch_heap st' a = None
     \<and> ch_entries st' = ch_entries st"
proof -
  obtain ys zs where xs: "xs = ys @ a # zs" using split_list [OF a] by blast
  have ch: "cchain st (ys @ a # zs)" and tab: "table_ok st (set xs)" using inv xs by (simp_all add: cache_inv_def)
  then have d: "distinct (ys @ a # zs)" by (simp add: cchain_def)
  obtain e where e: "ch_heap st a = Some e" using inv_entry [OF inv a] by blast
  obtain h where h: "ch_table st = Some h" using tab by (auto simp: table_ok_def)
  have f: "file_of st a = Some (ce_file e)" using e by (simp add: file_of_def)
  note z = table_names [OF tab a f]
  have rm: "remove1 a xs = ys @ zs" using d by (simp add: xs remove1_append)
  obtain old h' where del: "svz_hash_delete h (ce_file e @ [0]) = Some (old, h')"
    using table_del [OF tab h z a f, of st] by blast
  let ?st0 = "st\<lparr>ch_table := Some h'\<rparr>"
  have "cchain ?st0 (ys @ a # zs)" "ch_heap ?st0 a = Some e" using ch e by (simp_all add: cchain_def)
  from unlink_ok [OF this] obtain st1 st2 where st2:
    "(case ce_prev e of Some p \<Rightarrow> cupd p (\<lambda>x. x\<lparr>ce_next := ce_next e\<rparr>) ?st0 | None \<Rightarrow> Some (?st0\<lparr>ch_first := ce_next e\<rparr>)) = Some st1"
    "(case ce_next e of Some n \<Rightarrow> cupd n (\<lambda>x. x\<lparr>ce_prev := ce_prev e\<rparr>) st1 | None \<Rightarrow> Some (st1\<lparr>ch_last := ce_prev e\<rparr>)) = Some st2"
    "cchain st2 (ys @ zs)" "relinked ?st0 st2" "ch_heap st2 a = Some e" by blast
  have ok: "entry_ok (ch_blocks st) e" using inv e by (simp add: cache_inv_def)
  define bl where "bl = (if ce_ready e \<noteq> 0 then (ch_blocks st)(the (ce_buffer e) := None) else ch_blocks st)"
  have fb: "(if ce_ready e \<noteq> 0 then free_block (ce_buffer e) st2 else Some st2) = Some (st2\<lparr>ch_blocks := bl\<rparr>)"
    using ok st2(4) by (auto simp: entry_ok_def free_block_def bl_def relinked_def)
  let ?st = "st2\<lparr>ch_blocks := bl, ch_heap := (ch_heap st2)(a := None)\<rparr>"
  have run: "http_cache_destroy_entry a st = Some ?st"
    unfolding http_cache_destroy_entry_def by (simp add: e h del Let_def st2(1,2) fb)
  have o: "others st ?st {a}" using st2(4) by (simp add: others_def relinked_def)
  have ent: "ch_table ?st = Some h'" "ch_entries ?st = ch_entries st" using st2(4) by (simp_all add: relinked_def)
  have "table_ok ?st (set xs - {a})"
    using table_del [OF tab h z a f, of ?st] others_file [OF o] del ent(1) by auto
  then have t: "table_ok ?st (set (remove1 a xs))" using d rm xs by simp
  have c: "cchain ?st (ys @ zs)" using st2(3) d by (auto simp: cchain_def cseg_append)
  have dom: "ch_heap ?st b \<noteq> None \<longleftrightarrow> b \<in> set (remove1 a xs)" for b
  proof (cases "b = a")
    case False
    then have "map_option ce_data (ch_heap ?st b) = map_option ce_data (ch_heap st b)" using o by (simp add: others_def)
    then have "ch_heap ?st b = None \<longleftrightarrow> ch_heap st b = None" by (metis option.map_disc_iff)
    then show ?thesis using inv d rm xs False by (simp add: cache_inv_def)
  qed (use d rm in simp)
  have blk: "ch_blocks ?st p = ch_blocks st p \<or> (\<exists>b\<in>{a}. \<exists>e. ch_heap st b = Some e \<and> ce_buffer e = Some p)" for p
    using e ok by (auto simp: bl_def entry_ok_def)
  have "entry_ok (ch_blocks ?st) e'" if "ch_heap ?st b = Some e'" for b e'
    using others_blocks [OF inv o blk, of b e'] that by (cases "b = a") auto
  moreover have "b = b'" if "ch_heap ?st b = Some e1" "ch_heap ?st b' = Some e2" "ce_buffer e1 = Some p" "ce_buffer e2 = Some p" for b b' e1 e2 p
    using others_inj [OF inv o _ _ that] that(1,2) by (cases "b = a"; cases "b' = a") auto
  moreover have "length (remove1 a xs) \<le> ch_entries ?st" using inv ent(2) rm xs by (simp add: cache_inv_def)
  ultimately have "cache_inv ?st (remove1 a xs)" using c t dom unfolding cache_inv_def rm by blast
  then show ?thesis using run o ent(2) by simp
qed

text \<open>A new entry in front of the others.\<close>

lemma link_new:
  assumes inv: "cache_inv st xs" and fn: "0 \<notin> set fn" "\<forall>a\<in>set xs. file_of st a \<noteq> Some fn" and s: "ch_heap st slot = None" "length xs < ch_entries st"
  shows "\<exists>st'. link_slot slot fn st = Some st' \<and> cache_inv st' (slot # xs) \<and> others st st' {slot} \<and> ch_entries st' = ch_entries st
     \<and> ch_heap st' slot = Some (http_cache_create_entry\<lparr>ce_file := fn, ce_next := ch_first st\<rparr>)"
proof -
  let ?new = "http_cache_create_entry\<lparr>ce_file := fn, ce_next := ch_first st\<rparr>"
  have ch: "cchain st xs" and tab: "table_ok st (set xs)" using inv by (simp_all add: cache_inv_def)
  have n: "slot \<notin> set xs" using inv_entry [OF inv, of slot] s(1) by auto
  obtain h where h: "ch_table st = Some h" using tab by (auto simp: table_ok_def)
  from table_put [OF tab h fn, of slot] obtain old h' where put: "svz_hash_put h (fn @ [0]) (Some slot) = Some (old, h')"
      "\<And>st'. ch_table st' = Some h' \<Longrightarrow> \<forall>b\<in>set xs. file_of st' b = file_of st b \<Longrightarrow> file_of st' slot = Some fn \<Longrightarrow> table_ok st' (insert slot (set xs))"
    by blast
  let ?st1 = "st\<lparr>ch_table := Some h', ch_heap := (ch_heap st)(slot \<mapsto> ?new)\<rparr>"
  have "\<exists>st2. (case ch_first st of None \<Rightarrow> Some (?st1\<lparr>ch_last := Some slot\<rparr>) | Some f \<Rightarrow> cupd f (\<lambda>x. x\<lparr>ce_prev := Some slot\<rparr>) ?st1) = Some st2
     \<and> cchain (st2\<lparr>ch_first := Some slot\<rparr>) (slot # xs) \<and> relinked ?st1 st2 \<and> ch_heap st2 slot = Some ?new"
  proof (cases xs)
    case Nil
    then show ?thesis using ch by (simp add: cchain_def relinked_def http_cache_create_entry_def)
  next
    case (Cons f fs)
    then obtain ef where "ch_heap st f = Some ef" "ch_first st = Some f" "f \<noteq> slot" using ch n by (auto simp: cchain_def)
    then show ?thesis using ch n Cons by (auto simp: cupd_def cchain_def relinked_def http_cache_create_entry_def)
  qed
  then obtain st2 where st2: "(case ch_first st of None \<Rightarrow> Some (?st1\<lparr>ch_last := Some slot\<rparr>) | Some f \<Rightarrow> cupd f (\<lambda>x. x\<lparr>ce_prev := Some slot\<rparr>) ?st1) = Some st2"
     "cchain (st2\<lparr>ch_first := Some slot\<rparr>) (slot # xs)" "relinked ?st1 st2" "ch_heap st2 slot = Some ?new" by blast
  let ?st = "st2\<lparr>ch_first := Some slot\<rparr>"
  have run: "link_slot slot fn st = Some ?st" unfolding link_slot_def using st2(1) by (simp add: h put(1) Let_def)
  have o: "others st ?st {slot}" using st2(3) by (simp add: others_def relinked_def)
  have ent: "ch_table ?st = Some h'" "ch_entries ?st = ch_entries st" "ch_blocks ?st = ch_blocks st" using st2(3) by (simp_all add: relinked_def)
  have "file_of ?st slot = Some fn" using st2(4) by (simp add: file_of_def)
  moreover have "file_of ?st b = file_of st b" if "b \<in> set xs" for b by (rule others_file [OF o]) (use that n in auto)
  ultimately have t: "table_ok ?st (set (slot # xs))" using put(2) [OF ent(1)] by simp
  have dom: "ch_heap ?st b \<noteq> None \<longleftrightarrow> b \<in> set (slot # xs)" for b
  proof (cases "b = slot")
    case False
    then have "map_option ce_data (ch_heap ?st b) = map_option ce_data (ch_heap st b)" using o by (simp add: others_def)
    then have "ch_heap ?st b = None \<longleftrightarrow> ch_heap st b = None" by (metis option.map_disc_iff)
    then show ?thesis using inv False by (simp add: cache_inv_def)
  qed (use st2(4) in simp)
  have ok: "entry_ok (ch_blocks ?st) e" if "ch_heap ?st b = Some e" for b e
    using others_blocks [OF inv o _ _ that] that st2(4) ent(3) by (cases "b = slot") (auto simp: entry_ok_def http_cache_create_entry_def)
  have new: "ce_buffer ?new = None" by (simp add: http_cache_create_entry_def)
  have "b = b'" if hp: "ch_heap ?st b = Some e1" "ch_heap ?st b' = Some e2" "ce_buffer e1 = Some p" "ce_buffer e2 = Some p" for b b' e1 e2 p
  proof -
    have "b \<noteq> slot" "b' \<noteq> slot" using hp st2(4) new by auto
    then show ?thesis using others_inj [OF inv o _ _ hp] by simp
  qed
  moreover have "length (slot # xs) \<le> ch_entries ?st" using s(2) ent(2) by simp
  ultimately have "cache_inv ?st (slot # xs)" using st2(2) t dom ok unfolding cache_inv_def by blast
  then show ?thesis using run o ent(2) st2(4) by simp
qed

lemma slot_loop_spec:
  assumes "cseg (ch_heap st) None xs n"
  shows "slot_loop st (last_or None xs) = Some (find (\<lambda>a. case ch_heap st a of None \<Rightarrow> False | Some e \<Rightarrow> ce_usage e = 0 \<and> ce_ready e \<noteq> 0) (rev xs))"
  using assms
proof (induction xs arbitrary: n rule: rev_induct)
  case Nil
  show ?case by (subst slot_loop.simps) simp
next
  case (snoc a xs)
  then obtain e where e: "ch_heap st a = Some e" "ce_prev e = last_or None xs" by (auto simp: cseg_append)
  have "cseg (ch_heap st) None xs (hd_or [a] n)" using snoc.prems by (simp add: cseg_append)
  note IH = snoc.IH [OF this]
  show ?case using e IH by (subst slot_loop.simps) simp
qed

text \<open>An entry that may be replaced: filled and used by nobody.\<close>

definition evictable :: "cache_st \<Rightarrow> addr \<Rightarrow> bool" where
  "evictable st a \<longleftrightarrow> (case ch_heap st a of None \<Rightarrow> False | Some e \<Rightarrow> ce_usage e = 0 \<and> ce_ready e \<noteq> 0)"

text \<open>The allocator hands out addresses that are not in use.\<close>

definition fresh_entry :: "(cache_st \<Rightarrow> addr) \<Rightarrow> bool" where
  "fresh_entry at \<longleftrightarrow> (\<forall>st xs. cache_inv st xs \<longrightarrow> ch_heap st (at st) = None)"

lemma fresh_entryD: "fresh_entry at \<Longrightarrow> cache_inv st xs \<Longrightarrow> ch_heap st (at st) = None"
  unfolding fresh_entry_def by blast

lemma check_hit:
  assumes inv: "cache_inv st xs" and fn: "0 \<notin> set fn"
  shows "\<exists>r cache' st'. http_check_cache fn cache st = Some (r, cache', st')
     \<and> (if \<exists>a\<in>set xs. file_of st a = Some fn
        then \<exists>a\<in>set xs. \<exists>e. file_of st a = Some fn \<and> cache_inv st' (a # remove1 a xs) \<and> relinked st st' \<and> ch_heap st' a = Some e
          \<and> r = (if ce_ready e \<noteq> 0 then HTTP_CACHE_COMPLETE else HTTP_CACHE_INCOMPLETE)
          \<and> (ce_ready e \<noteq> 0 \<longrightarrow> hc_entry cache' = Some a \<and> hc_size cache' = ce_size e \<and> (\<exists>p. hc_buffer cache' = Some (p, 0) \<and> ce_buffer e = Some p \<and> ch_blocks st' p \<noteq> None))
        else r = HTTP_CACHE_NO \<and> cache' = cache \<and> st' = st)"
proof -
  have tab: "table_ok st (set xs)" and ch: "cchain st xs" using inv by (simp_all add: cache_inv_def)
  obtain h where h: "ch_table st = Some h" using tab by (auto simp: table_ok_def)
  obtain q where q: "svz_hash_get h (fn @ [0]) = Some q" "\<And>a. q = Some a \<longleftrightarrow> a \<in> set xs \<and> file_of st a = Some fn"
    using table_get [OF tab h fn] by blast
  show ?thesis
  proof (cases q)
    case None
    then have "\<not> (\<exists>a\<in>set xs. file_of st a = Some fn)" using q(2) by auto
    then show ?thesis using q(1) None by (auto simp: http_check_cache_def h)
  next
    case (Some a)
    then have a: "a \<in> set xs" "file_of st a = Some fn" using q(2) by auto
    from urgent_moves [OF ch a(1)] obtain st' where st': "http_urgent_cache a st = Some st'" "cchain st' (a # remove1 a xs)" "relinked st st'" by blast
    have len: "length (a # remove1 a xs) = length xs" "set (a # remove1 a xs) = set xs"
      using a(1) ch length_pos_if_in_set [OF a(1)] by (auto simp: length_remove1 cchain_def)
    have inv': "cache_inv st' (a # remove1 a xs)" by (rule relinked_inv [OF inv st'(3,2) len(2,1)])
    obtain e where e: "ch_heap st' a = Some e" using inv_entry [OF inv', of a] by auto
    have ok: "entry_ok (ch_blocks st') e" using inv' e by (simp add: cache_inv_def)
    show ?thesis
    proof (cases "ce_ready e = 0")
      case True
      then have "http_check_cache fn cache st = Some (HTTP_CACHE_INCOMPLETE, cache, st')"
        by (simp add: http_check_cache_def h q(1) Some st'(1) e)
      then show ?thesis using a inv' st'(3) e True by auto
    next
      case False
      then obtain p where p: "ce_buffer e = Some p" "ch_blocks st' p \<noteq> None" using ok by (auto simp: entry_ok_def)
      let ?c = "cache\<lparr>hc_entry := Some a, hc_buffer := Some (p, 0), hc_size := ce_size e\<rparr>"
      have "http_check_cache fn cache st = Some (HTTP_CACHE_COMPLETE, ?c, st')"
        using False by (simp add: http_check_cache_def h q(1) Some st'(1) e p)
      then show ?thesis using a inv' st'(3) e False p
        by (intro exI [of _ HTTP_CACHE_COMPLETE] exI [of _ ?c] exI [of _ st']) (auto intro!: bexI [of _ a])
    qed
  qed
qed

lemma find_in: "find P xs = Some a \<Longrightarrow> a \<in> set xs \<and> P a"
  by (induction xs) (auto split: if_splits)

lemma init_new:
  assumes inv: "cache_inv st xs" and fn: "0 \<notin> set fn" "\<forall>a\<in>set xs. file_of st a \<noteq> Some fn"
    and at: "fresh_entry at"
  shows "\<exists>r cache' st'. http_init_cache at fn cache st = Some (r, cache', st')
     \<and> (let gone = (if length xs < ch_entries st then None else find (evictable st) (rev xs))
        in if length xs < ch_entries st \<or> gone \<noteq> None
           then \<exists>a. r = 0 \<and> hc_entry cache' = Some a \<and> cache_inv st' (a # (case gone of None \<Rightarrow> xs | Some b \<Rightarrow> remove1 b xs))
                  \<and> (\<exists>e. ch_heap st' a = Some e \<and> ce_file e = fn \<and> ce_ready e = 0 \<and> ce_usage e = 0) \<and> others st st' (insert a (set_option gone)) \<and> a \<notin> set xs - set_option gone
           else r = -1 \<and> hc_entry cache' = None \<and> st' = st)"
proof -
  have tab: "table_ok st (set xs)" and ch: "cchain st xs" using inv by (simp_all add: cache_inv_def)
  then have d: "distinct xs" by (simp add: cchain_def)
  have "\<forall>a\<in>set xs. ch_heap st a \<noteq> None" using inv_entry [OF inv] by blast
  then have size: "svz_hash_size (ch_table st) = length xs" using table_size [OF tab] d by (simp add: distinct_card)
  have nin: "at st' \<notin> set ys" if "cache_inv st' ys" for st' ys using inv_entry [OF that, of "at st'"] fresh_entryD [OF at that] by auto
  show ?thesis
  proof (cases "length xs < ch_entries st")
    case True
    from link_new [OF inv fn fresh_entryD [OF at inv] True] obtain st' where st': "link_slot (at st) fn st = Some st'" "cache_inv st' (at st # xs)" "others st st' {at st}"
        "ch_heap st' (at st) = Some (http_cache_create_entry\<lparr>ce_file := fn, ce_next := ch_first st\<rparr>)" by blast
    then show ?thesis using True nin [OF inv]
      by (simp add: http_init_cache_def size Let_def http_cache_reset_def http_cache_create_entry_def)
  next
    case False
    have P: "(\<lambda>a. case ch_heap st a of None \<Rightarrow> False | Some e \<Rightarrow> ce_usage e = 0 \<and> ce_ready e \<noteq> 0) = evictable st" by (simp add: fun_eq_iff evictable_def)
    have last: "ch_last st = last_or None xs" "cseg (ch_heap st) None xs None" using ch by (simp_all add: cchain_def)
    note loop = slot_loop_spec [OF last(2), unfolded P, folded last(1)]
    show ?thesis
    proof (cases "find (evictable st) (rev xs)")
      case None
      then show ?thesis using False loop by (simp add: http_init_cache_def size http_cache_reset_def)
    next
      case (Some b)
      then have b: "b \<in> set xs" using find_in by fastforce
      from destroy_entry [OF inv b] obtain st1 where st1: "http_cache_destroy_entry b st = Some st1" "cache_inv st1 (remove1 b xs)" "others st st1 {b}"
          "ch_heap st1 b = None" "ch_entries st1 = ch_entries st" by blast
      have "file_of st1 a \<noteq> Some fn" if "a \<in> set (remove1 b xs)" for a
        using others_file [OF st1(3), of a] fn(2) that d by auto
      moreover have "length (remove1 b xs) < ch_entries st1"
      proof -
        have "length xs \<le> ch_entries st" "0 < length xs" using inv length_pos_if_in_set [OF b] by (simp_all add: cache_inv_def)
        moreover have "length (remove1 b xs) = length xs - 1" using b by (simp add: length_remove1)
        ultimately show ?thesis using st1(5) by linarith
      qed
      ultimately obtain st' where st': "link_slot (at st1) fn st1 = Some st'" "cache_inv st' (at st1 # remove1 b xs)" "others st1 st' {at st1}"
          "ch_heap st' (at st1) = Some (http_cache_create_entry\<lparr>ce_file := fn, ce_next := ch_first st1\<rparr>)"
        using link_new [OF st1(2) fn(1) _ fresh_entryD [OF at st1(2)]] by blast
      have "others st st' {at st1, b}" using st1(3) st'(3) by (simp add: others_def)
      then show ?thesis using False loop Some st1(1) st' nin [OF st1(2)] d
        by (simp add: http_init_cache_def size Let_def http_cache_reset_def http_cache_create_entry_def)
    qed
  qed
qed

subsection \<open>The cache keeps the recently used files\<close>

text \<open>What matters of an entry, and the abstract cache: a list of these, the most recent one first.\<close>

type_synonym lru = "(mem \<times> bool \<times> int) list"

definition view :: "cache_st \<Rightarrow> addr \<Rightarrow> mem \<times> bool \<times> int" where
  "view st a = (case ch_heap st a of None \<Rightarrow> ([], False, 0) | Some e \<Rightarrow> (ce_file e, ce_ready e \<noteq> 0, ce_usage e))"

definition lru_find :: "mem \<Rightarrow> lru \<Rightarrow> (mem \<times> bool \<times> int) option" where
  "lru_find fn l = find (\<lambda>(f, _). f = fn) l"

definition lru_touch :: "mem \<Rightarrow> lru \<Rightarrow> lru" where
  "lru_touch fn l = (case lru_find fn l of None \<Rightarrow> l | Some x \<Rightarrow> x # remove1 x l)"

definition lru_insert :: "nat \<Rightarrow> mem \<Rightarrow> lru \<Rightarrow> lru option" where
  "lru_insert n fn l =
     (if length l < n then Some ((fn, False, 0) # l)
      else case find (\<lambda>(_, ready, usage). usage = 0 \<and> ready) (rev l) of
             None \<Rightarrow> None
           | Some x \<Rightarrow> Some ((fn, False, 0) # remove1 x l))"

lemma view_file:
  assumes "cache_inv st xs" "a \<in> set xs"
  shows "file_of st a = Some (fst (view st a))"
  using inv_entry [OF assms] by (auto simp: file_of_def view_def)

lemma file_unique:
  assumes "cache_inv st xs" "a \<in> set xs" "b \<in> set xs" "file_of st a = Some fn" "file_of st b = Some fn"
  shows "a = b"
proof -
  obtain m where m: "\<And>s v. m s = Some v \<longleftrightarrow> (\<exists>a\<in>set xs. v = Some a \<and> file_of st a = Some s)"
    using assms(1) by (auto simp: cache_inv_def table_ok_def)
  have a: "m fn = Some (Some a)" using m assms(2,4) by blast
  have b: "m fn = Some (Some b)" using m assms(3,5) by blast
  show ?thesis using trans [OF a [symmetric] b] by simp
qed

lemma view_inj:
  assumes "cache_inv st xs"
  shows "inj_on (view st) (set xs)"
proof
  fix a b assume ab: "a \<in> set xs" "b \<in> set xs" "view st a = view st b"
  have "file_of st a = Some (fst (view st b))" using view_file [OF assms ab(1)] unfolding ab(3) .
  then show "a = b" by (rule file_unique [OF assms ab(1,2) _ view_file [OF assms ab(2)]])
qed

lemma map_remove1_inj: "inj_on f (insert a (set xs)) \<Longrightarrow> map f (remove1 a xs) = remove1 (f a) (map f xs)"
  by (induction xs) (auto simp: inj_on_def)

lemma find_map_view: "find P (map f xs) = map_option f (find (\<lambda>x. P (f x)) xs)"
  by (induction xs) auto

lemma others_view:
  assumes "others st st' B" "b \<notin> B"
  shows "view st' b = view st b"
proof -
  have eq: "map_option ce_data (ch_heap st' b) = map_option ce_data (ch_heap st b)" using assms by (simp add: others_def)
  show ?thesis
  proof (cases "ch_heap st' b")
    case None
    then show ?thesis using eq by (simp add: view_def)
  next
    case (Some e)
    then obtain e0 where "ch_heap st b = Some e0" "ce_data e0 = ce_data e" using others_entry [OF assms Some] by blast
    then show ?thesis using data_eqD [of e0 e] Some by (simp add: view_def)
  qed
qed

lemma relinked_others: "relinked st st' \<Longrightarrow> others st st' {}"
  by (simp add: relinked_def others_def)

lemma map_view_others:
  assumes "others st st' B" "set xs \<inter> B = {}"
  shows "map (view st') xs = map (view st) xs"
  using others_view [OF assms(1)] assms(2) by auto

lemma lru_find_view:
  assumes "cache_inv st xs"
  shows "lru_find fn (map (view st) xs) = map_option (view st) (find (\<lambda>a. file_of st a = Some fn) xs)"
proof -
  have "find (\<lambda>a. case view st a of (f, _) \<Rightarrow> f = fn) xs = find (\<lambda>a. file_of st a = Some fn) xs"
    using view_file [OF assms] by (intro find_cong) (auto simp: case_prod_beta)
  then show ?thesis by (simp add: lru_find_def find_map_view)
qed

lemma find_file:
  assumes "cache_inv st xs" "a \<in> set xs" "file_of st a = Some fn"
  shows "find (\<lambda>a. file_of st a = Some fn) xs = Some a"
proof (cases "find (\<lambda>a. file_of st a = Some fn) xs")
  case None
  then show ?thesis using assms(2,3) by (auto simp: find_None_iff)
next
  case (Some b)
  then have "b \<in> set xs" "file_of st b = Some fn" using find_in [OF Some] by simp_all
  then have "b = a" using file_unique [OF assms(1) _ assms(2) _ assms(3)] by blast
  then show ?thesis using Some by simp
qed

lemma view_remove:
  assumes "cache_inv st xs" "a \<in> set xs"
  shows "map (view st) (remove1 a xs) = remove1 (view st a) (map (view st) xs)"
  using view_inj [OF assms(1)] assms(2) by (intro map_remove1_inj) (simp add: insert_absorb)

lemma check_lru:
  assumes "cache_inv st xs" "0 \<notin> set fn"
  shows "\<exists>cache' st' ys. http_check_cache fn cache st
          = Some (case lru_find fn (map (view st) xs) of None \<Rightarrow> HTTP_CACHE_NO
                  | Some (_, ready, _) \<Rightarrow> if ready then HTTP_CACHE_COMPLETE else HTTP_CACHE_INCOMPLETE, cache', st')
        \<and> cache_inv st' ys \<and> map (view st') ys = lru_touch fn (map (view st) xs)"
proof -
  obtain r cache' st' where r: "http_check_cache fn cache st = Some (r, cache', st')"
     "if \<exists>a\<in>set xs. file_of st a = Some fn
        then \<exists>a\<in>set xs. \<exists>e. file_of st a = Some fn \<and> cache_inv st' (a # remove1 a xs) \<and> relinked st st' \<and> ch_heap st' a = Some e
          \<and> r = (if ce_ready e \<noteq> 0 then HTTP_CACHE_COMPLETE else HTTP_CACHE_INCOMPLETE)
        else r = HTTP_CACHE_NO \<and> cache' = cache \<and> st' = st"
    using check_hit [OF assms, of cache] by (metis (no_types, lifting))
  show ?thesis
  proof (cases "\<exists>a\<in>set xs. file_of st a = Some fn")
    case False
    then have "find (\<lambda>a. file_of st a = Some fn) xs = None" by (simp add: find_None_iff)
    then show ?thesis using r False assms(1) by (auto simp: lru_find_view [OF assms(1)] lru_touch_def)
  next
    case True
    then obtain a e where a: "a \<in> set xs" "file_of st a = Some fn" "cache_inv st' (a # remove1 a xs)" "relinked st st'" "ch_heap st' a = Some e"
        "r = (if ce_ready e \<noteq> 0 then HTTP_CACHE_COMPLETE else HTTP_CACHE_INCOMPLETE)" using r(2) by (simp only: if_True) blast
    have v: "map (view st') zs = map (view st) zs" for zs by (rule map_view_others [OF relinked_others [OF a(4)]]) simp
    have fnd: "lru_find fn (map (view st) xs) = Some (view st a)" by (simp add: lru_find_view [OF assms(1)] find_file [OF assms(1) a(1,2)])
    have "view st a = view st' a" using v [of "[a]"] by simp
    then have "view st a = (ce_file e, ce_ready e \<noteq> 0, ce_usage e)" by (simp add: view_def a(5))
    moreover have "map (view st') (a # remove1 a xs) = lru_touch fn (map (view st) xs)"
      unfolding v by (simp add: lru_touch_def fnd view_remove [OF assms(1) a(1)])
    ultimately show ?thesis using r(1) a(3,6) by (auto simp: fnd)
  qed
qed

lemma init_lru:
  assumes "cache_inv st xs" "0 \<notin> set fn" "fresh_entry at" "lru_find fn (map (view st) xs) = None"
  shows "\<exists>cache' st' ys.
        http_init_cache at fn cache st = Some (if lru_insert (ch_entries st) fn (map (view st) xs) = None then -1 else 0, cache', st')
        \<and> cache_inv st' ys
        \<and> map (view st') ys = (case lru_insert (ch_entries st) fn (map (view st) xs) of None \<Rightarrow> map (view st) xs | Some l \<Rightarrow> l)"
proof -
  have d: "distinct xs" using assms(1) by (simp add: cache_inv_def cchain_def)
  define gone where "gone = (if length xs < ch_entries st then None else find (evictable st) (rev xs))"
  have ab: "\<forall>a\<in>set xs. file_of st a \<noteq> Some fn" using assms(4) by (simp add: lru_find_view [OF assms(1)] find_None_iff)
  obtain r cache' st' where r: "http_init_cache at fn cache st = Some (r, cache', st')"
     "if length xs < ch_entries st \<or> gone \<noteq> None
       then \<exists>a. r = 0 \<and> hc_entry cache' = Some a \<and> cache_inv st' (a # (case gone of None \<Rightarrow> xs | Some b \<Rightarrow> remove1 b xs))
              \<and> (\<exists>e. ch_heap st' a = Some e \<and> ce_file e = fn \<and> ce_ready e = 0 \<and> ce_usage e = 0) \<and> others st st' (insert a (set_option gone))
              \<and> a \<notin> set xs - set_option gone
       else r = -1 \<and> hc_entry cache' = None \<and> st' = st"
    using init_new [OF assms(1,2) ab assms(3), of cache] unfolding gone_def [symmetric] Let_def by blast
  have "find (\<lambda>(_, ready, usage). usage = 0 \<and> ready) (rev (map (view st) xs)) = map_option (view st) (find (evictable st) (rev xs))"
    unfolding rev_map find_map_view using inv_entry [OF assms(1)]
    by (intro arg_cong [where f = "map_option (view st)"] find_cong) (auto simp: view_def evictable_def split: option.splits)
  then have ins: "lru_insert (ch_entries st) fn (map (view st) xs) = (if length xs < ch_entries st then Some ((fn, False, 0) # map (view st) xs)
      else map_option (\<lambda>b. (fn, False, 0) # remove1 (view st b) (map (view st) xs)) (find (evictable st) (rev xs)))"
    by (cases "find (evictable st) (rev xs)") (simp_all add: lru_insert_def)
  show ?thesis
  proof (cases "length xs < ch_entries st \<or> gone \<noteq> None")
    case False
    then show ?thesis using r assms(1) by (auto simp: ins gone_def)
  next
    case True
    let ?ys = "case gone of None \<Rightarrow> xs | Some b \<Rightarrow> remove1 b xs"
    obtain a e where a: "r = 0" "cache_inv st' (a # ?ys)" "ch_heap st' a = Some e" "ce_file e = fn" "ce_ready e = 0" "ce_usage e = 0"
        "others st st' (insert a (set_option gone))" "a \<notin> set xs - set_option gone" using r(2) True by (simp only: if_True) blast
    have "set ?ys \<inter> insert a (set_option gone) = {}" using a(8) d by (auto split: option.splits)
    note v = map_view_others [OF a(7) this]
    have new: "view st' a = (fn, False, 0)" by (simp add: view_def a(3-6))
    have old: "map (view st) (remove1 b xs) = remove1 (view st b) (map (view st) xs)" if "gone = Some b" for b
    proof -
      have "b \<in> set xs" using that find_in [of "evictable st" "rev xs" b] by (auto simp: gone_def split: if_splits)
      then show ?thesis by (rule view_remove [OF assms(1)])
    qed
    have "lru_insert (ch_entries st) fn (map (view st) xs) = Some (map (view st') (a # ?ys))"
    proof (cases gone)
      case None
      then show ?thesis using True v new by (simp add: ins)
    next
      case (Some b)
      then have "\<not> length xs < ch_entries st" "find (evictable st) (rev xs) = Some b" by (auto simp: gone_def split: if_splits)
      then show ?thesis using v new old [OF Some] Some by (simp add: ins del: map_eq_conv)
    qed
    then show ?thesis using r(1) a(1,2) by auto
  qed
qed


text \<open>Freeing the cache, and a new one.\<close>

lemma free_all:
  assumes "cseg (ch_heap st) p xs None" "distinct xs" "\<forall>a e. ch_heap st a = Some e \<longrightarrow> entry_ok (ch_blocks st) e"
    "\<forall>a b e e' p. ch_heap st a = Some e \<longrightarrow> ch_heap st b = Some e' \<longrightarrow> ce_buffer e = Some p \<longrightarrow> ce_buffer e' = Some p \<longrightarrow> a = b"
  shows "\<exists>st'. free_entries (hd_or xs None) st = Some st' \<and> (\<forall>a. ch_heap st' a = (if a \<in> set xs then None else ch_heap st a))"
  using assms
proof (induction xs arbitrary: st p)
  case Nil
  show ?case by (subst free_entries.simps) simp
next
  case (Cons a xs)
  obtain e where e: "ch_heap st a = Some e" "ce_next e = hd_or xs None" "cseg (ch_heap st) (Some a) xs None" using Cons.prems(1) by auto
  have ok: "entry_ok (ch_blocks st) e" using Cons.prems(3) e(1) by blast
  define bl where "bl = (case ce_buffer e of None \<Rightarrow> ch_blocks st | Some q \<Rightarrow> (ch_blocks st)(q := None))"
  have fb: "free_block (ce_buffer e) st = Some (st\<lparr>ch_blocks := bl\<rparr>)"
    using ok by (auto simp: free_block_def bl_def entry_ok_def split: option.splits if_splits)
  let ?st = "st\<lparr>ch_blocks := bl, ch_heap := (ch_heap st)(a := None)\<rparr>"
  have "entry_ok bl e'" if b: "b \<noteq> a" "ch_heap st b = Some e'" for b e'
  proof -
    have "entry_ok (ch_blocks st) e'" using Cons.prems(3) b(2) by blast
    moreover have "bl q = ch_blocks st q" if "ce_buffer e' = Some q" for q
      using Cons.prems(4) e(1) b that unfolding bl_def by (cases "ce_buffer e") (simp, metis fun_upd_apply option.simps(5))
    ultimately show ?thesis unfolding entry_ok_def by metis
  qed
  then have "\<forall>b e. ch_heap ?st b = Some e \<longrightarrow> entry_ok (ch_blocks ?st) e" by simp
  moreover have "cseg (ch_heap ?st) (Some a) xs None" "distinct xs" using e(3) Cons.prems(2) by simp_all
  moreover have "\<forall>a b e e' p. ch_heap ?st a = Some e \<longrightarrow> ch_heap ?st b = Some e' \<longrightarrow> ce_buffer e = Some p \<longrightarrow> ce_buffer e' = Some p \<longrightarrow> a = b"
    using Cons.prems(4) by (auto split: if_splits)
  ultimately obtain st' where st': "free_entries (hd_or xs None) ?st = Some st'" "\<And>b. ch_heap st' b = (if b \<in> set xs then None else ch_heap ?st b)"
    using Cons.IH by blast
  have "free_entries (hd_or (a # xs) None) st = Some st'" using e fb st'(1) by (subst free_entries.simps) simp
  then show ?case using st'(2) Cons.prems(2) by auto
qed

lemma alloc_empty:
  assumes "cache_inv st xs \<or> ch_table st = None \<and> ch_first st = None \<and> ch_last st = None \<and> (\<forall>a. ch_heap st a = None)" "ch_entries st < n"
  shows "\<exists>st'. http_alloc_cache n st = Some st' \<and> cache_inv st' [] \<and> ch_entries st' = n"
proof -
  obtain sz where "create_size n 1 = Some sz" using assms(2) create_size_returns [of n 1] by auto
  then obtain h :: "addr svz_hash" where h: "svz_hash_create n False = Some h" by (auto simp: svz_hash_create_def Let_def)
  note f = fresh_hash_wf [OF h]
  have rel: "hash_rel h Map.empty" using f by (simp add: hash_rel_def)
  have ok: "cache_inv (st1\<lparr>ch_table := Some h, ch_entries := n\<rparr>) []" if "ch_first st1 = None" "ch_last st1 = None" "\<forall>a. ch_heap st1 a = None" for st1
    using that rel unfolding cache_inv_def table_ok_def by (auto simp: cchain_def intro!: exI [of _ Map.empty])
  show ?thesis
  proof (cases "ch_table st")
    case None
    then show ?thesis using assms ok [of st] h by (auto simp: http_alloc_cache_def cache_inv_def table_ok_def)
  next
    case (Some h0)
    then have inv: "cache_inv st xs" using assms(1) by simp
    then have c: "cseg (ch_heap st) None xs None" "distinct xs" "ch_first st = hd_or xs None" by (simp_all add: cache_inv_def cchain_def)
    obtain st' where st': "free_entries (hd_or xs None) st = Some st'" "\<And>a. ch_heap st' a = (if a \<in> set xs then None else ch_heap st a)"
      using free_all [OF c(1,2)] inv unfolding cache_inv_def by blast
    have "ch_heap st' a = None" for a using st'(2) [of a] inv unfolding cache_inv_def by (metis (full_types))
    then show ?thesis using ok [of "st'\<lparr>ch_first := None, ch_last := None, ch_table := None\<rparr>"] Some assms(2) h st'(1) c(3)
      by (simp add: http_alloc_cache_def http_free_cache_def)
  qed
qed

subsection \<open>An example\<close>

definition ex_at :: "cache_st \<Rightarrow> addr" where
  "ex_at st = the (find (\<lambda>a. ch_heap st a = None) [0..<Suc (ch_entries st)])"

lemma ex_at_fresh: "fresh_entry ex_at"
  unfolding fresh_entry_def
proof (intro allI impI)
  fix st xs assume inv: "cache_inv st xs"
  show "ch_heap st (ex_at st) = None"
  proof (cases "find (\<lambda>a. ch_heap st a = None) [0..<Suc (ch_entries st)]")
    case None
    have "{0..<Suc (ch_entries st)} \<subseteq> set xs"
    proof
      fix a assume a: "a \<in> {0..<Suc (ch_entries st)}"
      then have "a \<in> set [0..<Suc (ch_entries st)]" unfolding atLeastLessThan_upt .
      then have "ch_heap st a \<noteq> None" using None unfolding find_None_iff by metis
      then show "a \<in> set xs" using inv unfolding cache_inv_def by blast
    qed
    then have "card {0..<Suc (ch_entries st)} \<le> length xs" using card_mono [OF finite_set] card_length order_trans by blast
    then show ?thesis using inv by (simp add: cache_inv_def)
  next
    case (Some a)
    then show ?thesis using find_in [OF Some] by (simp add: ex_at_def)
  qed
qed

definition ex_cache :: cache_st where
  "ex_cache = the (http_alloc_cache 1 \<lparr>ch_table = None, ch_entries = 0, ch_first = None, ch_last = None, ch_heap = \<lambda>_. None, ch_blocks = \<lambda>_. None\<rparr>)"

definition no_cache :: http_cache_t where
  "no_cache = \<lparr>hc_buffer = None, hc_size = 0, hc_entry = None\<rparr>"

lemma ex_cache_inv: "cache_inv ex_cache []" "ch_entries ex_cache = 1"
  using alloc_empty [of "\<lparr>ch_table = None, ch_entries = 0, ch_first = None, ch_last = None, ch_heap = \<lambda>_. None, ch_blocks = \<lambda>_. None\<rparr>" "[]" 1]
  by (auto simp: ex_cache_def)


end
