(* ===== verification/Http_Core.thy ===== *)
theory Http_Core
  imports Http_Cache Svz_Socket Svz_Util
begin

text \<open>
  Requests of the HTTP server: the header fields, the ranges and the URI decoding of \<^verbatim>\<open>http-server/http-core.c\<close>, and the framing and
  parsing of a request in \<^verbatim>\<open>http_check_request\<close> and \<^verbatim>\<open>http_handle_request\<close> of \<^verbatim>\<open>http-proto.c\<close>.

  Parsing works in place on the receive buffer, a block of cells; positions in it are indices. Every read of the code is a read of
  the model, so the ones behind the end of the received data are \<^term>\<open>None\<close>. \<^verbatim>\<open>memcmp\<close> reads up to the first difference. Texts that were copied into
  blocks of their own are byte lists with their NUL.
\<close>

subsection \<open>Data\<close>

record http_range =
  hr_first :: int
  hr_last :: int
  hr_length :: int

record http_socket =
  hs_cache :: "http_cache_t option"
  hs_property :: "mem option cell list option"
  hs_contentlength :: int
  hs_filelength :: int
  hs_keepalive :: int
  hs_fileoffset :: int
  hs_pid :: int
  hs_timestamp :: int
  hs_request :: "mem option"
  hs_host :: "mem option"
  hs_response :: int
  hs_length :: int
  hs_ident :: "mem option"
  hs_auth :: "mem option"
  hs_range :: http_range

definition MAX_HTTP_PROPERTIES :: nat where "MAX_HTTP_PROPERTIES = 32"
definition HTTP_MAJOR_VERSION :: int where "HTTP_MAJOR_VERSION = 1"
definition HTTP_FLAG_CACHE :: u32 where "HTTP_FLAG_CACHE = 0x0001"
definition HTTP_FLAG_NOFILE :: u32 where "HTTP_FLAG_NOFILE = 0x0002"
definition HTTP_FLAG_SIMPLE :: u32 where "HTTP_FLAG_SIMPLE = 0x0004"
definition HTTP_FLAG_DONE :: u32 where "HTTP_FLAG_DONE = 0x0008"
definition HTTP_FLAG_POST :: u32 where "HTTP_FLAG_POST = 0x0010"
definition HTTP_FLAG_CGI :: u32 where "HTTP_FLAG_CGI = 0x0020"
definition HTTP_FLAG_KEEP :: u32 where "HTTP_FLAG_KEEP = 0x0040"
definition HTTP_FLAG_SENDFILE :: u32 where "HTTP_FLAG_SENDFILE = 0x0080"
definition HTTP_FLAG_PARTIAL :: u32 where "HTTP_FLAG_PARTIAL = 0x0100"
definition HTTP_FLAG :: u32 where
  "HTTP_FLAG = HTTP_FLAG_DONE OR HTTP_FLAG_POST OR HTTP_FLAG_CGI OR HTTP_FLAG_CACHE OR HTTP_FLAG_KEEP
     OR HTTP_FLAG_SENDFILE OR HTTP_FLAG_PARTIAL"

subsection \<open>Ranges\<close>

definition http_check_range :: "http_range \<Rightarrow> int \<Rightarrow> int" where
  "http_check_range rng filesize =
     (if hr_first rng \<le> 0
        \<or> (hr_last rng \<noteq> 0 \<and> hr_last rng \<le> hr_first rng)
        \<or> (hr_last rng \<ge> filesize \<or> hr_length rng > filesize)
      then -1 else 0)"

text \<open>A number of type \<^verbatim>\<open>off_t\<close>, whose overflow is undefined.\<close>

fun range_number :: "mem \<Rightarrow> int \<Rightarrow> (int \<times> mem) option" where
  "range_number [] n = None"
| "range_number (c # p) n =
     (if is_digit c
      then (let n' = n * 10 + (uint c - 48) in if n' < 2 ^ 63 then range_number p n' else None)
      else Some (n, c # p))"

definition http_get_range :: "mem option \<Rightarrow> http_range \<Rightarrow> (int \<times> http_range) option" where
  "http_get_range line rng =
     (case line of
        None \<Rightarrow> Some (-1, rng)
      | Some p \<Rightarrow>
          if length (cstr p) \<ge> 5 \<and> memcmp p (lit ''bytes'') 5 \<noteq> 0 then Some (-1, rng)
          else (let rng = \<lparr>hr_first = 0, hr_last = 0, hr_length = 0\<rparr> in
            case drop 5 p of
              [] \<Rightarrow> None
            | c # p \<Rightarrow>
                if c \<noteq> 61 then Some (0, rng)
                else do {
                  (n, p) \<leftarrow> range_number p 0;
                  let rng = rng\<lparr>hr_first := n\<rparr>;
                  if hd p \<noteq> 45 then Some (0, rng)
                  else do {
                    (n, p) \<leftarrow> range_number (tl p) 0;
                    let rng = rng\<lparr>hr_last := n\<rparr>;
                    if hd p \<noteq> 47 then Some (0, rng)
                    else do {
                      (n, p) \<leftarrow> range_number (tl p) 0;
                      Some (0, rng\<lparr>hr_length := n\<rparr>)
                    }
                  }
                }))"

subsection \<open>Scanning blocks\<close>

text \<open>Whether the bytes from a position on begin with a text.\<close>

fun cmp_at :: "byte cell list \<Rightarrow> nat \<Rightarrow> mem \<Rightarrow> bool option" where
  "cmp_at xs i [] = Some True"
| "cmp_at xs i (c # cs) = do { b \<leftarrow> rd xs i; if b = c then cmp_at xs (i + 1) cs else Some False }"

definition EOL1_P :: "byte cell list \<Rightarrow> nat \<Rightarrow> bool option" where
  "EOL1_P xs p = cmp_at xs p [13, 10]"

definition EOL2_P :: "byte cell list \<Rightarrow> nat \<Rightarrow> bool option" where
  "EOL2_P xs p = cmp_at xs p [13, 10, 13, 10]"

text \<open>\<^verbatim>\<open>while (*p != c && p < end) p++\<close>\<close>

function scan_to :: "byte cell list \<Rightarrow> byte \<Rightarrow> nat \<Rightarrow> nat \<Rightarrow> nat option" where
  "scan_to xs c p end = do { b \<leftarrow> rd xs p; if b \<noteq> c \<and> p < end then scan_to xs c (p + 1) end else Some p }"
  by pat_completeness auto
termination
  by (relation "measure (\<lambda>(xs, c, p, end). end - p)") auto

declare scan_to.simps [simp del]

function scan_eol :: "byte cell list \<Rightarrow> nat \<Rightarrow> nat \<Rightarrow> nat option" where
  "scan_eol xs p end = do { e \<leftarrow> EOL1_P xs p; if \<not> e \<and> p < end then scan_eol xs (p + 1) end else Some p }"
  by pat_completeness auto
termination
  by (relation "measure (\<lambda>(xs, p, end). end - p)") auto

declare scan_eol.simps [simp del]

text \<open>The text at a position up to its NUL, which is not part of it.\<close>

function c_text :: "byte cell list \<Rightarrow> nat \<Rightarrow> mem option" where
  "c_text xs i =
     (if i < length xs
      then do { b \<leftarrow> rd xs i; if b = 0 then Some [] else do { t \<leftarrow> c_text xs (i + 1); Some (b # t) } }
      else None)"
  by pat_completeness auto
termination
  by (relation "measure (\<lambda>(xs, i). length xs - i)") auto

declare c_text.simps [simp del]

text \<open>
  \<^verbatim>\<open>strcpy\<close> into a new block of \<open>n\<close> bytes, and \<^verbatim>\<open>strncpy\<close> of the bytes between two positions into a new block, with a NUL behind them.
\<close>

definition strcpy_new :: "byte cell list \<Rightarrow> nat \<Rightarrow> nat \<Rightarrow> byte cell list option" where
  "strcpy_new xs i n = do { t \<leftarrow> c_text xs i; wr_range (replicate n Uninit) 0 (t @ [0]) }"

definition strncpy_new :: "byte cell list \<Rightarrow> nat \<Rightarrow> nat \<Rightarrow> mem option" where
  "strncpy_new xs i j = do {
     bs \<leftarrow> rd_range xs i (j - i);
     let t = takeWhile (\<lambda>b. b \<noteq> 0) bs;
     Some (t @ replicate (j - i - length t) 0 @ [0])
   }"

subsection \<open>Header fields\<close>

function property_loop ::
  "byte cell list \<Rightarrow> nat \<Rightarrow> nat \<Rightarrow> nat \<Rightarrow> nat \<Rightarrow> mem option cell list \<Rightarrow> (nat \<times> nat \<times> mem option cell list) option" where
  "property_loop xs end request properties n property = do {
     e \<leftarrow> EOL1_P xs request;
     if \<not> e \<and> properties < MAX_HTTP_PROPERTIES - 1
     then do {
       p \<leftarrow> scan_to xs 58 request end;
       if p = end then Some (properties, n, property)
       else do {
         name \<leftarrow> strncpy_new xs request p;
         property \<leftarrow> wr property n (Cell (Some name));
         let n = n + 1;
         let request = p + 2;
         p \<leftarrow> scan_eol xs p end;
         if p = end \<or> p \<le> request then Some (properties, n, property)
         else do {
           body \<leftarrow> strncpy_new xs request p;
           property \<leftarrow> wr property n (Cell (Some body));
           property_loop xs end (p + 2) (properties + 1) (n + 1) property
         }
       }
     }
     else Some (properties, n, property)
   }"
  by pat_completeness auto
termination
  by (relation "measure (\<lambda>(xs, end, request, properties, n, property). MAX_HTTP_PROPERTIES - properties)") auto

declare property_loop.simps [simp del]

definition http_parse_property :: "byte cell list \<Rightarrow> nat \<Rightarrow> nat \<Rightarrow> http_socket \<Rightarrow> (int \<times> http_socket) option" where
  "http_parse_property xs request end http = do {
     (properties, n, property) \<leftarrow> property_loop xs end request 0 0 (replicate (MAX_HTTP_PROPERTIES * 2) Uninit);
     property \<leftarrow> wr property n (Cell None);
     Some (int properties, http\<lparr>hs_property := Some property\<rparr>)
   }"

text \<open>\<^verbatim>\<open>strncasecmp\<close>, as far as equality goes.\<close>

fun case_equal :: "mem \<Rightarrow> mem \<Rightarrow> nat \<Rightarrow> bool option" where
  "case_equal a b 0 = Some True"
| "case_equal (x # a) (y # b) (Suc n) =
     (if to_lower x \<noteq> to_lower y then Some False else if x = 0 then Some True else case_equal a b n)"
| "case_equal _ _ (Suc n) = None"

function find_loop :: "mem option cell list \<Rightarrow> mem \<Rightarrow> nat \<Rightarrow> mem option option" where
  "find_loop property key n =
     (if n < length property
      then do {
        name \<leftarrow> rd property n;
        case name of
          None \<Rightarrow> Some None
        | Some t \<Rightarrow> do {
            e \<leftarrow> case_equal t key (length (cstr key));
            if e then rd property (n + 1) else find_loop property key (n + 2)
          }
      }
      else None)"
  by pat_completeness auto
termination
  by (relation "measure (\<lambda>(property, key, n). length property - n)") auto

declare find_loop.simps [simp del]

definition http_find_property :: "http_socket \<Rightarrow> mem \<Rightarrow> mem option option" where
  "http_find_property http key =
     (case hs_property http of None \<Rightarrow> Some None | Some property \<Rightarrow> find_loop property key 0)"

subsection \<open>Decoding the URI\<close>

definition ASC_TO_HEX :: "byte \<Rightarrow> byte" where
  "ASC_TO_HEX c =
     (if 48 \<le> c \<and> c \<le> 57 then c - 48
      else if 97 \<le> c \<and> c \<le> 102 then c - (97 - 10)
      else if 65 \<le> c \<and> c \<le> 70 then c - (65 - 10)
      else c)"

function strchr_at :: "byte cell list \<Rightarrow> byte \<Rightarrow> nat \<Rightarrow> nat option option" where
  "strchr_at xs c i =
     (if i < length xs
      then do { b \<leftarrow> rd xs i; if b = c then Some (Some i) else if b = 0 then Some None else strchr_at xs c (i + 1) }
      else None)"
  by pat_completeness auto
termination
  by (relation "measure (\<lambda>(xs, c, i). length xs - i)") auto

declare strchr_at.simps [simp del]

partial_function (option) copy_rest :: "byte cell list \<Rightarrow> nat \<Rightarrow> byte cell list option" where
  "copy_rest xs p = do {
     b \<leftarrow> rd xs (p + 2);
     if b \<noteq> 0 then do { xs \<leftarrow> wr xs p (Cell b); copy_rest xs (p + 1) }
     else wr xs p (Cell 0)
   }"

partial_function (option) uri_loop :: "byte cell list \<Rightarrow> nat \<Rightarrow> byte cell list option" where
  "uri_loop xs uri = do {
     q \<leftarrow> strchr_at xs 37 uri;
     case q of
       None \<Rightarrow> Some xs
     | Some p \<Rightarrow> do {
         h \<leftarrow> rd xs (p + 1);
         if h = 0 then Some xs
         else do {
           l \<leftarrow> rd xs (p + 2);
           if l = 0 then Some xs
           else do {
             xs \<leftarrow> wr xs p (Cell (push_bit 4 (ASC_TO_HEX h) OR ASC_TO_HEX l));
             xs \<leftarrow> copy_rest xs (p + 1);
             uri_loop xs (p + 1)
           }
         }
       }
   }"

definition http_process_uri :: "byte cell list \<Rightarrow> byte cell list option" where
  "http_process_uri uri = uri_loop uri 0"

subsection \<open>Requests\<close>

text \<open>The request types; every other one gets the default response as well.\<close>

datatype response_cb = R_get | R_head | R_post | R_default

definition http_request :: "(mem \<times> response_cb) list" where
  "http_request = [(lit ''GET'', R_get), (lit ''HEAD'', R_head), (lit ''POST'', R_post), (lit ''PUT'', R_default),
     (lit ''OPTIONS'', R_default), (lit ''DELETE'', R_default), (lit ''TRACE'', R_default), (lit ''CONNECT'', R_default)]"

text \<open>
  A response routine gets the socket, the data of the connection, the decoded URI and the flags of the request; its result is ignored.
\<close>

type_synonym 'w responder = "response_cb \<Rightarrow> svz_socket \<Rightarrow> http_socket \<Rightarrow> mem \<Rightarrow> u32 \<Rightarrow> 'w \<Rightarrow> (svz_socket \<times> http_socket \<times> 'w) option"

fun method_loop :: "byte cell list \<Rightarrow> (mem \<times> response_cb) list \<Rightarrow> response_cb option option" where
  "method_loop request [] = Some None"
| "method_loop request ((name, cb) # rest) = do {
     e \<leftarrow> cmp_at request 0 name;
     if e then Some (Some cb) else method_loop request rest
   }"

text \<open>\<^verbatim>\<open>while (*p != ' ' && *p) p--\<close>, which must not leave the buffer.\<close>

fun scan_back :: "byte cell list \<Rightarrow> nat \<Rightarrow> nat option" where
  "scan_back xs 0 = do { b \<leftarrow> rd xs 0; if b \<noteq> 32 \<and> b \<noteq> 0 then None else Some 0 }"
| "scan_back xs (Suc p) = do { b \<leftarrow> rd xs (Suc p); if b \<noteq> 32 \<and> b \<noteq> 0 then scan_back xs p else Some (Suc p) }"

text \<open>
  The first line of a request behind the request type: the URI, the version, the flags, the position behind the version and the buffer. \<open>Inl\<close> with the buffer is a
  line that is refused.
\<close>

definition request_line ::
  "byte cell list \<Rightarrow> byte cell list \<Rightarrow> nat \<Rightarrow> nat \<Rightarrow> (byte cell list + (byte cell list \<times> int \<times> int \<times> u32 \<times> nat) \<times> byte cell list) option" where
  "request_line request xs line p = do {
     get \<leftarrow> cmp_at request 0 (lit ''GET'');
     simple \<leftarrow> (if get then map_option Not (cmp_at xs (p + 1) (lit ''HTTP/'')) else Some False);
     if simple
     then do {
       p \<leftarrow> scan_to xs 13 p (length xs);
       uri \<leftarrow> strncpy_new xs line p;
       Some (Inr ((map Cell uri, 0, 9, HTTP_FLAG_SIMPLE, p), xs))
     }
     else if p \<le> line then Some (Inl xs)
     else do {
       xs \<leftarrow> wr xs p (Cell 0);
       uri \<leftarrow> strcpy_new xs line (p - line + 1);
       let line = p + 1;
       e \<leftarrow> cmp_at xs line (lit ''HTTP/'');
       if \<not> e then Some (Inl xs)
       else do {
         major \<leftarrow> rd xs (line + 5);
         minor \<leftarrow> rd xs (line + 7);
         Some (Inr ((uri, sint major - 48, sint minor - 48, 0, line + 8), xs))
       }
     }
   }"

definition refused_line :: "byte cell list \<Rightarrow> int \<Rightarrow> int \<Rightarrow> u32 \<Rightarrow> nat \<Rightarrow> bool option" where
  "refused_line xs major minor flag line = do {
     bad \<leftarrow> (if major \<noteq> HTTP_MAJOR_VERSION \<or> minor > 1 then Some True else map_option (\<lambda>b. b \<noteq> 46) (rd xs (line - 2)));
     if bad \<and> flag = 0 then Some True else map_option Not (EOL1_P xs line)
   }"

text \<open>
  \<^verbatim>\<open>sprintf (http->request, "%s %s HTTP/%d.%d", ...)\<close> into a block of \<^verbatim>\<open>strlen (request) + strlen (uri) + 11\<close> bytes.
\<close>

definition request_text :: "mem \<Rightarrow> mem \<Rightarrow> int \<Rightarrow> int \<Rightarrow> mem option" where
  "request_text request uri major minor =
     (let t = request @ [32] @ uri @ lit '' HTTP/'' @ printf_d major @ [46] @ printf_d minor @ [0]
      in if length t \<le> length request + length uri + 11 then Some t else None)"

text \<open>The part of \<^verbatim>\<open>http_handle_request\<close> behind the first line: the header, the URI and the response.\<close>

definition answer_request ::
  "'w os \<Rightarrow> 'w responder \<Rightarrow> svz_socket \<Rightarrow> http_socket \<Rightarrow> nat \<Rightarrow> byte cell list \<Rightarrow> byte cell list \<Rightarrow> int \<Rightarrow> int \<Rightarrow> u32 \<Rightarrow> nat \<Rightarrow> 'w
   \<Rightarrow> (int \<times> svz_socket \<times> http_socket \<times> 'w) option" where
  "answer_request os respond sock http len request uri major minor flag line w = do {
     xs \<leftarrow> sk_recv_buffer sock;
     refused \<leftarrow> refused_line xs major minor flag line;
     if refused then Some (-1, sock, http, w)
     else do {
       (_, http) \<leftarrow> http_parse_property xs (line + 2) len http;
       uri \<leftarrow> http_process_uri uri;
       name \<leftarrow> c_text request 0;
       target \<leftarrow> c_text uri 0;
       text \<leftarrow> request_text name target major minor;
       let http = http\<lparr>hs_timestamp := os_time os w, hs_request := Some text\<rparr>;
       m \<leftarrow> method_loop request http_request;
       (sock, http, w) \<leftarrow> (case m of
           Some cb \<Rightarrow> respond cb sock http target flag w
         | None \<Rightarrow> respond R_default sock http target 0 w);
       Some (0, sock, http, w)
     }
   }"

definition http_handle_request ::
  "'w os \<Rightarrow> 'w responder \<Rightarrow> svz_socket \<Rightarrow> http_socket \<Rightarrow> nat \<Rightarrow> 'w \<Rightarrow> (int \<times> svz_socket \<times> http_socket \<times> 'w) option" where
  "http_handle_request os respond sock http len w = do {
     xs \<leftarrow> sk_recv_buffer sock;
     p \<leftarrow> scan_to xs 32 0 (len - 1);
     b \<leftarrow> rd xs (p + 1);
     if p = len \<or> b \<noteq> 47 then Some (-1, sock, http, w)
     else do {
       xs \<leftarrow> wr xs p (Cell 0);
       request \<leftarrow> strcpy_new xs 0 (p + 1);
       let line = p + 1;
       q \<leftarrow> scan_to xs 13 p len;
       if q = len then Some (-1, sock\<lparr>sk_recv_buffer := Some xs\<rparr>, http, w)
       else do {
         q \<leftarrow> scan_back xs q;
         r \<leftarrow> request_line request xs line q;
         case r of
           Inl xs \<Rightarrow> Some (-1, sock\<lparr>sk_recv_buffer := Some xs\<rparr>, http, w)
         | Inr ((uri, major, minor, flag, line), xs) \<Rightarrow>
             answer_request os respond (sock\<lparr>sk_recv_buffer := Some xs\<rparr>) http len request uri major minor flag line w
       }
     }
   }"

text \<open>\<^verbatim>\<open>while (p < buf + fill - 3 && !EOL2_P (p)) p++\<close>\<close>

function scan_end :: "byte cell list \<Rightarrow> int \<Rightarrow> nat \<Rightarrow> nat option" where
  "scan_end xs len p =
     (if int p < len - 3
      then do { e \<leftarrow> EOL2_P xs p; if \<not> e then scan_end xs len (p + 1) else Some p }
      else Some p)"
  by pat_completeness auto
termination
  by (relation "measure (\<lambda>(xs, len, p). nat (len - int p))") auto

declare scan_end.simps [simp del]

definition http_check_request ::
  "'w os \<Rightarrow> 'w responder \<Rightarrow> svz_socket \<Rightarrow> http_socket \<Rightarrow> 'w \<Rightarrow> (int \<times> svz_socket \<times> http_socket \<times> 'w) option" where
  "http_check_request os respond sock http w = do {
     xs \<leftarrow> sk_recv_buffer sock;
     p \<leftarrow> scan_end xs (sk_recv_buffer_fill sock) 0;
     e \<leftarrow> EOL2_P xs p;
     if e \<and> int p < sk_recv_buffer_fill sock - 3
     then do {
       let len = p + 4;
       (ret, sock, http, w) \<leftarrow> http_handle_request os respond sock http len w;
       if ret \<noteq> 0 then Some (-1, sock, http, w)
       else do {
         sock \<leftarrow> (if sk_recv_buffer_fill sock > int len
                  then do { ys \<leftarrow> buf_move (sk_recv_buffer sock) 0 (int len) (sk_recv_buffer_fill sock - int len);
                            Some (sock\<lparr>sk_recv_buffer := Some ys\<rparr>) }
                  else Some sock);
         Some (0, sock\<lparr>sk_recv_buffer_fill := sk_recv_buffer_fill sock - int len\<rparr>, http, w)
       }
     }
     else Some (0, sock, http, w)
   }"

subsection \<open>Ranges that are accepted\<close>

lemma digit_value: "k < 10 \<Longrightarrow> is_digit (word_of_nat k + 48) \<and> uint (word_of_nat k + 48 :: byte) = int k + 48"
proof -
  assume k: "k < 10"
  have e: "(word_of_nat k + 48 :: byte) = word_of_nat (k + 48)" by simp
  have "unat (word_of_nat k + 48 :: byte) = k + 48" unfolding e unat_of_nat using k by (simp add: take_bit_eq_mod)
  then show ?thesis
    using k by (auto simp: is_digit_def word_le_nat_alt uint_nat)
qed

lemma range_number_digits: "int k < 2 ^ 63 \<Longrightarrow> range_number (dec_digits k @ rest) 0 = range_number rest (int k)"
proof (induction k arbitrary: rest rule: dec_digits.induct)
  case (1 k)
  show ?case
  proof (cases "k < 10")
    case True
    then show ?thesis using digit_value [of k] by (subst dec_digits.simps) (simp add: Let_def)
  next
    case False
    have m: "k mod 10 < 10" by simp
    have le: "int (k div 10) < 2 ^ 63" using "1.prems" by (simp add: zdiv_int)
    have step: "range_number ([word_of_nat (k mod 10) + 48] @ rest) (int (k div 10)) = range_number rest (int k)"
      using digit_value [OF m] "1.prems" by (simp add: Let_def zdiv_int zmod_int)
    show ?thesis using "1.IH" [OF False le, of "[word_of_nat (k mod 10) + 48] @ rest"] step False
      by (subst dec_digits.simps) simp
  qed
qed

lemma range_number_stop: "\<not> is_digit c \<Longrightarrow> range_number (c # rest) n = Some (n, c # rest)"
  by simp

lemma dec_digits_no_nul: "0 \<notin> set (dec_digits k)"
proof (induction k rule: dec_digits.induct)
  case (1 k)
  have "word_of_nat (k mod 10) + 48 \<noteq> (0 :: byte)" "k < 10 \<Longrightarrow> word_of_nat k + 48 \<noteq> (0 :: byte)"
    using digit_value [of "k mod 10"] digit_value [of k] by (auto simp: is_digit_def)
  then show ?case using 1 by (subst dec_digits.simps) auto
qed

text \<open>The specifiers a client may send.\<close>

definition range_text :: "nat \<Rightarrow> nat \<Rightarrow> nat \<Rightarrow> mem" where
  "range_text a b c = lit ''bytes='' @ dec_digits a @ lit ''-'' @ dec_digits b @ lit ''/'' @ dec_digits c"

lemma get_range_text:
  assumes "int a < 2 ^ 63" "int b < 2 ^ 63" "int c < 2 ^ 63"
  shows "http_get_range (Some (range_text a b c @ [0])) r = Some (0, \<lparr>hr_first = int a, hr_last = int b, hr_length = int c\<rparr>)"
proof -
  have l: "lit ''bytes='' = [98, 121, 116, 101, 115, 61]" "lit ''bytes'' = [98, 121, 116, 101, 115]" "lit ''-'' = [45]" "lit ''/'' = [47]"
    by (simp_all add: lit_def)
  have nd: "\<not> is_digit 45" "\<not> is_digit 47" "\<not> is_digit 0" by (simp_all add: is_digit_def)
  have m: "memcmp (range_text a b c @ [0]) (lit ''bytes'') 5 = 0"
    by (subst memcmp_eq_0) (simp_all add: range_text_def l)
  have d: "drop 5 (range_text a b c @ [0]) = 61 # dec_digits a @ 45 # dec_digits b @ 47 # dec_digits c @ [0]"
    by (simp add: range_text_def l)
  have n: "range_number (dec_digits a @ 45 # rest) 0 = Some (int a, 45 # rest)"
    "range_number (dec_digits b @ 47 # rest) 0 = Some (int b, 47 # rest)"
    "range_number (dec_digits c @ [0]) 0 = Some (int c, [0])" for rest
    using nd by (simp_all add: range_number_digits [OF assms(1)] range_number_digits [OF assms(2)] range_number_digits [OF assms(3)])
  show ?thesis unfolding http_get_range_def option.case m d list.case by (simp add: n)
qed

text \<open>
  The range a client asks for is read as it was written, and one that \<^verbatim>\<open>http_check_range\<close> accepts for a file is a part of the file, provided that
  it starts inside the file: the part is not empty and ends before the end of the file.
\<close>

theorem http_range_inside:
  assumes "int a < 2 ^ 63" "int b < 2 ^ 63" "int c < 2 ^ 63"
    and "http_get_range (Some (range_text a b c @ [0])) r = Some (0, rng)" "http_check_range rng filesize = 0" "int a < filesize"
  shows "hr_first rng = int a \<and> hr_last rng = int b
    \<and> (let last = if hr_last rng = 0 then filesize - 1 else hr_last rng in 0 < hr_first rng \<and> hr_first rng \<le> last \<and> last < filesize)"
  using assms(4,5,6) get_range_text [OF assms(1-3), of r] by (auto simp: http_check_range_def split: if_splits)

theorem http_range_inside_witness:
  "http_get_range (Some (range_text 5 9 20 @ [0])) \<lparr>hr_first = 0, hr_last = 0, hr_length = 0\<rparr> = Some (0, \<lparr>hr_first = 5, hr_last = 9, hr_length = 20\<rparr>)
   \<and> hr_first \<lparr>hr_first = 5, hr_last = 9, hr_length = 20\<rparr> = 5"
proof -
  have g: "http_get_range (Some (range_text 5 9 20 @ [0])) \<lparr>hr_first = 0, hr_last = 0, hr_length = 0\<rparr> = Some (0, \<lparr>hr_first = 5, hr_last = 9, hr_length = 20\<rparr>)"
    using get_range_text [of 5 9 20] by simp
  have "http_check_range \<lparr>hr_first = 5, hr_last = 9, hr_length = 20\<rparr> 20 = 0" by (simp add: http_check_range_def)
  from http_range_inside [OF _ _ _ g this] g show ?thesis by simp
qed

text \<open>Without the condition the part may be empty: a range without an end that starts behind the end of the file is accepted.\<close>

lemma range_behind_end: "http_check_range \<lparr>hr_first = 30, hr_last = 0, hr_length = 0\<rparr> 20 = 0"
  by (simp add: http_check_range_def)

subsection \<open>URIs\<close>

text \<open>What decoding means: \<^verbatim>\<open>%\<close> and two characters are one byte; an incomplete one at the end stays.\<close>

fun uri_decode :: "mem \<Rightarrow> mem" where
  "uri_decode (h # l # r # rest) =
     (if h = 37 then (push_bit 4 (ASC_TO_HEX l) OR ASC_TO_HEX r) # uri_decode rest else h # uri_decode (l # r # rest))"
| "uri_decode s = s"

lemma uri_decode_Cons: "c \<noteq> 37 \<Longrightarrow> uri_decode (c # s) = c # uri_decode s"
  by (cases "c # s" rule: uri_decode.cases) auto

lemma uri_decode_skip: "37 \<notin> set a \<Longrightarrow> uri_decode (a @ s) = a @ uri_decode s"
  by (induction a) (simp_all add: uri_decode_Cons)

lemma uri_decode_plain: "37 \<notin> set s \<Longrightarrow> uri_decode s = s"
  using uri_decode_skip [of s "[]"] by simp

lemma length_uri_decode: "length (uri_decode s) \<le> length s"
  by (induction s rule: uri_decode.induct) auto

lemma rd_mid: "rd (map Cell (pre @ c # post) @ junk) (length pre) = Some c"
  by (simp add: rd_def nth_append)

lemma rd_mid2: "rd (map Cell (pre @ a # b # c # post) @ junk) (length pre + 2) = Some c"
  using rd_mid [of "pre @ [a, b]" c post junk] by simp

lemma wr_mid: "wr (map Cell (pre @ c # post) @ junk) (length pre) (Cell v) = Some (map Cell (pre @ v # post) @ junk)"
  by (simp add: wr_def list_update_append)

lemma strchr_none:
  assumes "c \<notin> set s" "0 \<notin> set s" "c \<noteq> 0"
  shows "strchr_at (map Cell (pre @ s @ [0]) @ junk) c (length pre) = Some None"
  using assms
proof (induction s arbitrary: pre)
  case Nil
  then show ?case using rd_mid [of pre 0 "[]" junk] by (subst strchr_at.simps) simp
next
  case (Cons b s)
  then show ?case using Cons.IH [of "pre @ [b]"] rd_mid [of pre b "s @ [0]" junk]
    by (subst strchr_at.simps) auto
qed

lemma strchr_found:
  assumes "c \<notin> set a" "0 \<notin> set a"
  shows "strchr_at (map Cell (pre @ a @ c # post) @ junk) c (length pre) = Some (Some (length pre + length a))"
  using assms
proof (induction a arbitrary: pre)
  case Nil
  then show ?case using rd_mid [of pre c post junk] by (subst strchr_at.simps) simp
next
  case (Cons b a)
  then show ?case using Cons.IH [of "pre @ [b]"] rd_mid [of pre b "a @ c # post" junk]
    by (subst strchr_at.simps) auto
qed

lemma copy_rest_shift:
  assumes "0 \<notin> set r"
  shows "\<exists>junk'. copy_rest (map Cell (pre @ x # y # r @ [0]) @ junk) (length pre) = Some (map Cell (pre @ r @ [0]) @ junk')
           \<and> length junk' = length junk + 2"
  using assms
proof (induction r arbitrary: pre x y)
  case Nil
  have "copy_rest (map Cell (pre @ x # y # [] @ [0]) @ junk) (length pre) = Some (map Cell (pre @ 0 # [y, 0]) @ junk)"
    using rd_mid2 [of pre x y 0 "[]" junk] wr_mid [of pre x "[y, 0]" junk 0] by (subst copy_rest.simps) simp
  then show ?case by (intro exI [of _ "Cell y # Cell 0 # junk"]) simp
next
  case (Cons c r)
  have "copy_rest (map Cell (pre @ x # y # (c # r) @ [0]) @ junk) (length pre)
      = copy_rest (map Cell ((pre @ [c]) @ y # c # r @ [0]) @ junk) (length (pre @ [c]))"
    using Cons.prems rd_mid2 [of pre x y c "r @ [0]" junk] wr_mid [of pre x "y # c # r @ [0]" junk c]
    by (subst copy_rest.simps) simp
  then show ?case using Cons.IH [of "pre @ [c]" y c] Cons.prems by auto
qed

lemma uri_loop_decodes:
  assumes "0 \<notin> set s"
  shows "\<exists>junk'. uri_loop (map Cell (pre @ s @ [0]) @ junk) (length pre) = Some (map Cell (pre @ uri_decode s @ [0]) @ junk')
           \<and> length (uri_decode s) + length junk' = length s + length junk"
  using assms
proof (induction "length s" arbitrary: s pre junk rule: less_induct)
  case less
  show ?case
  proof (cases "37 \<in> set s")
    case False
    then show ?thesis using less.prems strchr_none [of 37 s pre junk]
      by (subst uri_loop.simps) (simp add: uri_decode_plain)
  next
    case True
    then obtain a b where s: "s = a @ 37 # b" "37 \<notin> set a" using split_list_first by metis
    have f: "strchr_at (map Cell (pre @ s @ [0]) @ junk) 37 (length pre) = Some (Some (length (pre @ a)))"
      using strchr_found [of 37 a pre "b @ [0]" junk] s less.prems by simp
    have xs: "pre @ s @ [0] = (pre @ a) @ 37 # b @ [0]" by (simp add: s)
    consider (short) "b = [] \<or> (\<exists>h. b = [h])" | (long) h l r where "b = h # l # r" by (metis list.exhaust)
    then show ?thesis
    proof cases
      case short
      have d: "uri_decode s = s" using short s by (auto simp: uri_decode_skip)
      have "uri_loop (map Cell (pre @ s @ [0]) @ junk) (length pre) = Some (map Cell (pre @ s @ [0]) @ junk)"
        using short
      proof
        assume "b = []"
        then have "rd (map Cell (pre @ s @ [0]) @ junk) (length (pre @ a) + 1) = Some 0"
          using rd_mid [of "pre @ a @ [37]" 0 "[]" junk] by (simp add: s)
        then show ?thesis by (subst uri_loop.simps) (simp add: f del: length_append map_append)
      next
        assume "\<exists>h. b = [h]"
        then obtain h where b: "b = [h]" by blast
        have "rd (map Cell (pre @ s @ [0]) @ junk) (length (pre @ a) + 1) = Some h"
          "rd (map Cell (pre @ s @ [0]) @ junk) (length (pre @ a) + 2) = Some 0"
          using rd_mid [of "pre @ a @ [37]" h "[0]" junk] rd_mid2 [of "pre @ a" 37 h 0 "[]" junk] by (simp_all add: s b)
        then show ?thesis by (subst uri_loop.simps) (simp add: f del: length_append map_append)
      qed
      then show ?thesis by (auto simp: d)
    next
      case (long h l r)
      have nz: "h \<noteq> 0" "l \<noteq> 0" "0 \<notin> set r" using less.prems by (auto simp: s long)
      define v where "v = (push_bit 4 (ASC_TO_HEX h) OR ASC_TO_HEX l)"
      have r1: "rd (map Cell (pre @ s @ [0]) @ junk) (length (pre @ a) + 1) = Some h"
        "rd (map Cell (pre @ s @ [0]) @ junk) (length (pre @ a) + 2) = Some l"
        using rd_mid [of "pre @ a @ [37]" h "l # r @ [0]" junk] rd_mid2 [of "pre @ a" 37 h l "r @ [0]" junk] by (simp_all add: s long)
      have w: "wr (map Cell (pre @ s @ [0]) @ junk) (length (pre @ a)) (Cell v) = Some (map Cell ((pre @ a @ [v]) @ h # l # r @ [0]) @ junk)"
        using wr_mid [of "pre @ a" 37 "b @ [0]" junk v] by (simp add: s long)
      obtain j1 where c: "copy_rest (map Cell ((pre @ a @ [v]) @ h # l # r @ [0]) @ junk) (length (pre @ a @ [v]))
          = Some (map Cell ((pre @ a @ [v]) @ r @ [0]) @ j1)" "length j1 = length junk + 2"
        using copy_rest_shift [OF nz(3)] by blast
      have e: "length (pre @ a) + 1 = length (pre @ a @ [v])" by simp
      have "uri_loop (map Cell (pre @ s @ [0]) @ junk) (length pre) = uri_loop (map Cell ((pre @ a @ [v]) @ r @ [0]) @ j1) (length (pre @ a @ [v]))"
        by (subst uri_loop.simps)
           (simp add: f r1 [unfolded e] r1(2) nz v_def [symmetric] w e c(1) del: length_append map_append append_assoc One_nat_def add_2_eq_Suc')
      moreover have "uri_decode s = a @ v # uri_decode r" using s by (simp add: uri_decode_skip long v_def)
      moreover have "length r < length s" by (simp add: s long)
      note less.hyps [OF this nz(3), of "pre @ a @ [v]" j1]
      ultimately show ?thesis using c(2) by (auto simp: s long)
    qed
  qed
qed

text \<open>Encoding the bytes of a set and \<^verbatim>\<open>%\<close>, with digits and capital letters.\<close>

definition hex_char :: "byte \<Rightarrow> byte" where
  "hex_char n = (if n < 10 then n + 48 else n + 55)"

definition uri_encode :: "(byte \<Rightarrow> bool) \<Rightarrow> mem \<Rightarrow> mem" where
  "uri_encode esc s = concat (map (\<lambda>c. if esc c \<or> c = 37 then [37, hex_char (drop_bit 4 c), hex_char (c AND 15)] else [c]) s)"

lemma hex_digit:
  assumes "n < 16"
  shows "ASC_TO_HEX (hex_char n) = n \<and> hex_char n \<noteq> 0"
proof -
  have all: "\<forall>k\<in>set [0..<16]. ASC_TO_HEX (hex_char (word_of_nat k)) = word_of_nat k \<and> hex_char (word_of_nat k) \<noteq> 0" by code_simp
  have "unat n < 16" using assms by (simp add: word_less_nat_alt)
  then have "unat n \<in> set [0..<16]" by simp
  moreover have "word_of_nat (unat n) = n" by simp
  ultimately show ?thesis using all by (metis (no_types))
qed

lemma nibbles: "push_bit 4 (drop_bit 4 c) OR (c AND 15) = (c :: byte)" "drop_bit 4 c < (16 :: byte)" "c AND 15 < (16 :: byte)"
proof -
  have m: "c AND 15 = take_bit 4 c" using take_bit_eq_mask [of 4 c] by (simp add: mask_eq_exp_minus_1)
  show "push_bit 4 (drop_bit 4 c) OR (c AND 15) = c"
    by (rule bit_word_eqI) (auto simp: m bit_simps)
  show "c AND 15 < 16" unfolding m word_less_nat_alt unsigned_take_bit_eq by (simp add: take_bit_eq_mod)
  have "unat c < 256" using unat_bound [of c] by simp
  then show "drop_bit 4 c < 16" unfolding word_less_nat_alt unsigned_drop_bit_eq by (simp add: drop_bit_eq_div take_bit_eq_mod)
qed

lemma decode_encode: "uri_decode (uri_encode esc s) = s"
proof (induction s)
  case (Cons c s)
  have "uri_encode esc (c # s) = (if esc c \<or> c = 37 then [37, hex_char (drop_bit 4 c), hex_char (c AND 15)] else [c]) @ uri_encode esc s"
    by (simp add: uri_encode_def)
  then show ?case using Cons hex_digit [OF nibbles(2)] hex_digit [OF nibbles(3)] nibbles(1) by (auto simp: uri_decode_Cons)
qed (simp add: uri_encode_def)

lemma encode_no_nul: "0 \<notin> set s \<Longrightarrow> 0 \<notin> set (uri_encode esc s)"
proof (induction s)
  case (Cons c s)
  then show ?case using hex_digit [OF nibbles(2) [of c]] hex_digit [OF nibbles(3) [of c]] by (simp add: uri_encode_def)
qed (simp add: uri_encode_def)

lemma c_text_at: "0 \<notin> set t \<Longrightarrow> c_text (map Cell (pre @ t @ [0] @ post) @ junk) (length pre) = Some t"
proof (induction t arbitrary: pre)
  case Nil
  then show ?case using rd_mid [of pre 0 post junk] by (subst c_text.simps) simp
next
  case (Cons b t)
  then show ?case using Cons.IH [of "pre @ [b]"] rd_mid [of pre b "t @ 0 # post" junk] by (subst c_text.simps) simp
qed

lemma cstr_plain: "0 \<notin> set t \<Longrightarrow> cstr t = t"
  by (induction t) (auto simp: cstr_def)

lemma c_text_start: "c_text (map Cell (t @ [0]) @ junk) 0 = Some (cstr t)"
proof -
  obtain post where "t @ [0] = cstr t @ 0 # post" "0 \<notin> set (cstr t)"
  proof (cases "0 \<in> set t")
    case True
    then obtain a b where "t = a @ 0 # b" "0 \<notin> set a" by (metis split_list_first)
    then show ?thesis using that [of "b @ [0]"] by (simp add: cstr_def takeWhile_append)
  next
    case False
    then show ?thesis using that [of "[]"] by (simp add: cstr_plain)
  qed
  then show ?thesis using c_text_at [of "cstr t" "[]" post junk] by simp
qed

lemma process_uri_text:
  assumes "0 \<notin> set u"
  shows "\<exists>xs. http_process_uri (map Cell (u @ [0]) @ junk) = Some xs \<and> length xs = length u + 1 + length junk
           \<and> holds xs (uri_decode u @ [0]) \<and> c_text xs 0 = Some (cstr (uri_decode u))"
proof -
  obtain j where j: "uri_loop (map Cell (u @ [0]) @ junk) 0 = Some (map Cell (uri_decode u @ [0]) @ j)"
      "length (uri_decode u) + length j = length u + length junk"
    using uri_loop_decodes [OF assms, of "[]" junk] by auto
  have "c_text (map Cell (uri_decode u @ [0]) @ j) 0 = Some (cstr (uri_decode u))" by (rule c_text_start)
  then show ?thesis using j by (auto simp: http_process_uri_def holds_def)
qed

text \<open>
  C32. \<^verbatim>\<open>http_process_uri\<close> stays inside the block of the URI and decodes it: \<^verbatim>\<open>%\<close> and two digits become one byte, everything else and an incomplete code at
  the end stays. So every path arrives as it was, whichever of its bytes the client encoded.
\<close>

theorem process_uri_decodes:
  assumes "0 \<notin> set u" and "0 \<notin> set path"
  shows "(\<exists>xs. http_process_uri (map Cell (u @ [0])) = Some xs \<and> length xs = length u + 1 \<and> holds xs (uri_decode u @ [0]))
    \<and> (\<exists>xs. http_process_uri (map Cell (uri_encode esc path @ [0])) = Some xs \<and> c_text xs 0 = Some path)"
proof -
  have c: "cstr path = path" using assms(2) by (rule cstr_plain)
  show ?thesis using process_uri_text [OF assms(1), of "[]"] process_uri_text [OF encode_no_nul [OF assms(2)], of esc "[]"]
    by (auto simp: decode_encode c)
qed

theorem process_uri_decodes_witness:
  "\<exists>xs. http_process_uri (map Cell (lit ''/a%20%2'' @ [0])) = Some xs \<and> holds xs (lit ''/a %2'' @ [0])"
proof -
  have n: "0 \<notin> set (lit ''/a%20%2'')" by (simp add: lit_def)
  have d: "uri_decode (lit ''/a%20%2'') = lit ''/a %2''" by code_simp
  show ?thesis using process_uri_decodes [OF n n, of "\<lambda>c. False"] unfolding d by blast
qed

subsection \<open>Header fields that are found\<close>

lemma holds_mid: "holds xs (pre @ c # post) \<Longrightarrow> rd xs (length pre) = Some c"
  by (simp add: holds_rd)

lemma scan_to_found:
  assumes "holds xs (pre @ a @ c # post)" "c \<notin> set a" "length pre + length a \<le> end"
  shows "scan_to xs c (length pre) end = Some (length pre + length a)"
  using assms
proof (induction a arbitrary: pre)
  case Nil
  then show ?case using holds_mid [of xs pre c post] by (subst scan_to.simps) simp
next
  case (Cons b a)
  then show ?case using Cons.IH [of "pre @ [b]"] holds_mid [of xs pre b "a @ c # post"]
    by (subst scan_to.simps) auto
qed

lemma EOL1_no: "holds xs (pre @ c # post) \<Longrightarrow> c \<noteq> 13 \<Longrightarrow> EOL1_P xs (length pre) = Some False"
  by (simp add: EOL1_P_def holds_mid)

lemma EOL1_yes: "holds xs (pre @ 13 # 10 # post) \<Longrightarrow> EOL1_P xs (length pre) = Some True"
  using holds_mid [of xs pre 13 "10 # post"] holds_mid [of xs "pre @ [13]" 10 post] by (simp add: EOL1_P_def)

lemma scan_eol_found:
  assumes "holds xs (pre @ a @ 13 # 10 # post)" "13 \<notin> set a" "length pre + length a \<le> end"
  shows "scan_eol xs (length pre) end = Some (length pre + length a)"
  using assms
proof (induction a arbitrary: pre)
  case Nil
  then show ?case using EOL1_yes [of xs pre post] by (subst scan_eol.simps) simp
next
  case (Cons b a)
  then show ?case using Cons.IH [of "pre @ [b]"] EOL1_no [of xs pre b "a @ 13 # 10 # post"]
    by (subst scan_eol.simps) auto
qed

lemma strncpy_text:
  assumes "holds xs (pre @ a @ post)" "0 \<notin> set a"
  shows "strncpy_new xs (length pre) (length pre + length a) = Some (a @ [0])"
proof -
  have "rd_range xs (length pre) (length a) = Some a" using holds_rd_range [OF assms(1), of "length pre" "length a"] by simp
  moreover have "takeWhile (\<lambda>b. b \<noteq> 0) a = a" using cstr_plain [OF assms(2)] by (simp add: cstr_def)
  ultimately show ?thesis by (simp add: strncpy_new_def Let_def del: takeWhile_eq_all_conv)
qed

text \<open>A header as clients write it, and the array of its names and values.\<close>

definition field_ok :: "mem \<times> mem \<Rightarrow> bool" where
  "field_ok f = (case f of (k, v) \<Rightarrow> v \<noteq> [] \<and> (\<forall>c\<in>{0, 13}. c \<notin> set k \<and> c \<notin> set v) \<and> 58 \<notin> set k)"

definition header_text :: "(mem \<times> mem) list \<Rightarrow> mem" where
  "header_text hs = concat (map (\<lambda>(k, v). k @ [58, 32] @ v @ [13, 10]) hs)"

definition slots :: "(mem \<times> mem) list \<Rightarrow> mem option list" where
  "slots hs = concat (map (\<lambda>(k, v). [Some (k @ [0]), Some (v @ [0])]) hs)"

lemma length_slots: "length (slots hs) = 2 * length hs"
  by (induction hs) (auto simp: slots_def)

lemma slots_append: "slots (hs @ gs) = slots hs @ slots gs"
  by (simp add: slots_def)

lemma header_text_Cons: "header_text ((k, v) # hs) = k @ 58 # 32 # v @ 13 # 10 # header_text hs"
  by (simp add: header_text_def)

lemma slot_write: "0 < m \<Longrightarrow> wr (map Cell ss @ replicate m Uninit) (length ss) (Cell v) = Some (map Cell (ss @ [v]) @ replicate (m - 1) Uninit)"
  by (cases m) (simp_all add: wr_def list_update_append)

lemma property_loop_fields:
  assumes "holds xs (pre @ header_text hs @ 13 # 10 # post)" "\<forall>f\<in>set hs. field_ok f"
    and "length pre + length (header_text hs) < end" "length done \<le> 31"
  shows "property_loop xs end (length pre) (length done) (2 * length done) (map Cell (slots done) @ replicate (64 - 2 * length done) Uninit)
       = (let gs = done @ take (31 - length done) hs in
          Some (length gs, 2 * length gs, map Cell (slots gs) @ replicate (64 - 2 * length gs) Uninit))"
  using assms
proof (induction hs arbitrary: pre "done")
  case Nil
  have "EOL1_P xs (length pre) = Some True" using Nil.prems(1) by (simp add: header_text_def EOL1_yes)
  then show ?case by (subst property_loop.simps) simp
next
  case (Cons f hs)
  obtain k v where f: "f = (k, v)" by fastforce
  have ok: "v \<noteq> []" "0 \<notin> set k" "0 \<notin> set v" "13 \<notin> set k" "13 \<notin> set v" "58 \<notin> set k"
    using Cons.prems(2) by (auto simp: f field_ok_def)
  have h: "holds xs (pre @ k @ 58 # 32 # v @ 13 # 10 # header_text hs @ 13 # 10 # post)"
    using Cons.prems(1) by (simp add: f header_text_Cons)
  have len: "length pre + length k + 2 + length v + 2 + length (header_text hs) < end"
    using Cons.prems(3) by (simp add: f header_text_Cons)
  have e: "EOL1_P xs (length pre) = Some False"
    using h ok(4) EOL1_no [of xs pre] by (cases k) auto
  show ?case
  proof (cases "length done = 31")
    case True
    then show ?thesis using e by (subst property_loop.simps) (simp add: MAX_HTTP_PROPERTIES_def)
  next
    case False
    then have lt: "length done < 31" using Cons.prems(4) by simp
    have s1: "scan_to xs 58 (length pre) end = Some (length pre + length k)"
      using scan_to_found [OF h ok(6)] len by simp
    have s2: "strncpy_new xs (length pre) (length pre + length k) = Some (k @ [0])"
      using strncpy_text [OF h ok(2)] .
    have s3: "scan_eol xs (length pre + length k) end = Some (length pre + length k + 2 + length v)"
      using scan_eol_found [of xs "pre @ k" "58 # 32 # v" "header_text hs @ 13 # 10 # post" "end"] h ok(5) len by simp
    have s4: "strncpy_new xs (length pre + length k + 2) (length pre + length k + 2 + length v) = Some (v @ [0])"
      using strncpy_text [of xs "pre @ k @ [58, 32]" v] h ok(3) by simp
    let ?P = "\<lambda>ss m. map Cell ss @ replicate m Uninit"
    have w1: "wr (?P (slots done) (64 - 2 * length done)) (2 * length done) (Cell (Some (k @ [0])))
        = Some (?P (slots done @ [Some (k @ [0])]) (63 - 2 * length done))"
      using slot_write [of "64 - 2 * length done" "slots done" "Some (k @ [0])"] lt by (simp add: length_slots)
    have w2: "wr (?P (slots done @ [Some (k @ [0])]) (63 - 2 * length done)) (Suc (2 * length done)) (Cell (Some (v @ [0])))
        = Some (?P (slots (done @ [f])) (64 - 2 * length (done @ [f])))"
      using slot_write [of "63 - 2 * length done" "slots done @ [Some (k @ [0])]" "Some (v @ [0])"] lt
      by (simp add: length_slots slots_append) (simp add: slots_def f)
    have "property_loop xs end (length pre) (length done) (2 * length done) (?P (slots done) (64 - 2 * length done))
        = property_loop xs end (length (pre @ k @ [58, 32] @ v @ [13, 10])) (length (done @ [f])) (2 * length (done @ [f]))
            (?P (slots (done @ [f])) (64 - 2 * length (done @ [f])))"
      using len ok(1) lt
      by (subst property_loop.simps) (simp add: e s1 s2 s3 s4 [simplified, unfolded add.assoc] w1 w2 [simplified] add.assoc MAX_HTTP_PROPERTIES_def Let_def)
    also have "\<dots> = (let gs = (done @ [f]) @ take (31 - length (done @ [f])) hs in
          Some (length gs, 2 * length gs, ?P (slots gs) (64 - 2 * length gs)))"
      by (rule Cons.IH) (use h Cons.prems lt len in \<open>auto simp: f header_text_Cons\<close>)
    also have "(done @ [f]) @ take (31 - length (done @ [f])) hs = done @ take (31 - length done) (f # hs)"
      using Suc_diff_Suc [OF lt] by (simp add: take_Suc_Cons [symmetric] del: take_Suc_Cons)
    finally show ?thesis .
  qed
qed

lemma to_lower_nul: "c \<noteq> 0 \<Longrightarrow> to_lower c \<noteq> 0" "to_lower 0 = 0"
proof -
  show "to_lower 0 = 0" by (simp add: to_lower_def is_upper_def)
  have "\<forall>k\<in>set [65..<91]. (word_of_nat k + 32 :: byte) \<noteq> 0" by code_simp
  moreover have "65 \<le> c \<and> c \<le> 90 \<Longrightarrow> unat c \<in> set [65..<91]" unfolding set_upt atLeastLessThan_iff by (simp add: word_le_nat_alt)
  moreover have "word_of_nat (unat c) = c" by simp
  ultimately show "c \<noteq> 0 \<Longrightarrow> to_lower c \<noteq> 0" unfolding to_lower_def is_upper_def by metis
qed

text \<open>Whether a name begins with a key, without regard to case.\<close>

definition begins :: "mem \<Rightarrow> mem \<Rightarrow> bool" where
  "begins key name \<longleftrightarrow> take (length key) (map to_lower name) = map to_lower key"

lemma case_equal_begins:
  assumes "0 \<notin> set name" "0 \<notin> set key"
  shows "case_equal (name @ [0]) (key @ [0]) (length key) = Some (begins key name)"
  using assms
proof (induction key arbitrary: name)
  case (Cons y key)
  show ?case
  proof (cases name)
    case Nil
    then show ?thesis using Cons.prems to_lower_nul by (simp add: begins_def)
  next
    case (Cons x name')
    then show ?thesis using Cons.IH [of name'] Cons.prems by (auto simp: begins_def)
  qed
qed (simp add: begins_def)

lemma find_loop_fields:
  assumes "\<forall>f\<in>set hs. field_ok f" "0 \<notin> set key"
  shows "find_loop (map Cell (slots pre @ slots hs @ [None]) @ junk) (key @ [0]) (2 * length pre)
       = Some (map_option (\<lambda>(k, v). v @ [0]) (find (\<lambda>(k, v). begins key k) hs))"
  using assms
proof (induction hs arbitrary: pre)
  case Nil
  have "rd (map Cell (slots pre @ slots [] @ [None]) @ junk) (2 * length pre) = Some None"
    using rd_mid [of "slots pre" None "[]" junk] by (simp add: slots_def length_slots [unfolded slots_def])
  then show ?case by (subst find_loop.simps) (simp add: length_slots)
next
  case (Cons f hs)
  obtain k v where f: "f = (k, v)" by fastforce
  have ok: "0 \<notin> set k" using Cons.prems(1) by (auto simp: f field_ok_def)
  have sl: "slots pre @ slots (f # hs) @ [None] = slots pre @ Some (k @ [0]) # Some (v @ [0]) # slots hs @ [None]"
    by (simp add: slots_def f)
  have r: "rd (map Cell (slots pre @ slots (f # hs) @ [None]) @ junk) (2 * length pre) = Some (Some (k @ [0]))"
    "rd (map Cell (slots pre @ slots (f # hs) @ [None]) @ junk) (Suc (2 * length pre)) = Some (Some (v @ [0]))"
    using rd_mid [of "slots pre" "Some (k @ [0])" "Some (v @ [0]) # slots hs @ [None]" junk]
      rd_mid [of "slots pre @ [Some (k @ [0])]" "Some (v @ [0])" "slots hs @ [None]" junk]
    unfolding sl by (simp_all add: length_slots)
  have c: "case_equal (k @ [0]) (key @ [0]) (length (cstr (key @ [0]))) = Some (begins key k)"
    using case_equal_begins [OF ok Cons.prems(2)] cstr_name [OF Cons.prems(2)] by simp
  have len: "2 * length pre < length (map Cell (slots pre @ slots (f # hs) @ [None]) @ junk)" by (simp add: length_slots)
  have e: "slots pre @ slots (f # hs) @ [None] = slots (pre @ [f]) @ slots hs @ [None]" by (simp add: slots_def f)
  have ih: "find_loop (map Cell (slots pre @ slots (f # hs) @ [None]) @ junk) (key @ [0]) (Suc (Suc (2 * length pre)))
      = Some (map_option (\<lambda>(k, v). v @ [0]) (find (\<lambda>(k, v). begins key k) hs))"
    using Cons.IH [of "pre @ [f]"] Cons.prems unfolding e by simp
  define B where "B = map Cell (slots pre @ slots (f # hs) @ [None]) @ junk"
  show ?case using len r ih
    unfolding B_def [symmetric] by (subst find_loop.simps) (simp add: c f)
qed

lemma parse_fields:
  assumes "holds xs (pre @ header_text hs @ 13 # 10 # post)" "\<forall>f\<in>set hs. field_ok f" "length pre + length (header_text hs) < end"
  shows "http_parse_property xs (length pre) end http
       = Some (int (length (take 31 hs)), http\<lparr>hs_property := Some (map Cell (slots (take 31 hs) @ [None]) @ replicate (63 - 2 * length (take 31 hs)) Uninit)\<rparr>)"
proof -
  let ?gs = "take 31 hs"
  have "property_loop xs end (length pre) 0 0 (replicate 64 Uninit)
      = Some (length ?gs, 2 * length ?gs, map Cell (slots ?gs) @ replicate (64 - 2 * length ?gs) Uninit)"
    using property_loop_fields [OF assms, of "[]"] by (simp add: Let_def slots_def)
  moreover have "wr (map Cell (slots ?gs) @ replicate (64 - 2 * length ?gs) Uninit) (2 * length ?gs) (Cell None)
      = Some (map Cell (slots ?gs @ [None]) @ replicate (63 - 2 * length ?gs) Uninit)"
    using slot_write [of "64 - 2 * length ?gs" "slots ?gs" None] by (simp add: length_slots)
  ultimately show ?thesis by (simp add: http_parse_property_def MAX_HTTP_PROPERTIES_def)
qed

text \<open>
  The header of a request. Whatever the first 31 fields of a request are (names without a colon, \<^verbatim>\<open>": "\<close>, values that are not empty), \<^verbatim>\<open>http_parse_property\<close>
  stays inside the receive buffer and the array of properties and stores them, and \<^verbatim>\<open>http_find_property\<close> then returns the value of the first field whose
  name begins with the key, without regard to case, and nothing when there is none.
\<close>

theorem http_header_found:
  assumes "holds xs (pre @ header_text hs @ [13, 10] @ post)" and "\<forall>f\<in>set hs. field_ok f"
    and "end = length pre + length (header_text hs) + 2" and "0 \<notin> set key"
  shows "\<exists>http'. http_parse_property xs (length pre) end http = Some (int (min 31 (length hs)), http')
    \<and> http_find_property http' (key @ [0]) = Some (map_option (\<lambda>(k, v). v @ [0]) (find (\<lambda>(k, v). begins key k) (take 31 hs)))"
proof -
  have ok: "\<forall>f\<in>set (take 31 hs). field_ok f" using assms(2) by (meson in_set_takeD)
  have p: "http_parse_property xs (length pre) end http
       = Some (int (length (take 31 hs)), http\<lparr>hs_property := Some (map Cell (slots (take 31 hs) @ [None]) @ replicate (63 - 2 * length (take 31 hs)) Uninit)\<rparr>)"
    by (rule parse_fields [where post = post]) (use assms in auto)
  show ?thesis
    using find_loop_fields [OF ok assms(4), of "[]"] unfolding p
    by (simp add: http_find_property_def min.commute) (simp add: slots_def)
qed

theorem http_header_found_witness:
  "\<exists>http'. http_parse_property (map Cell (lit ''Host: a'' @ [13, 10, 13, 10])) 0 11
       \<lparr>hs_cache = None, hs_property = None, hs_contentlength = 0, hs_filelength = 0, hs_keepalive = 0, hs_fileoffset = 0, hs_pid = 0,
         hs_timestamp = 0, hs_request = None, hs_host = None, hs_response = 0, hs_length = 0, hs_ident = None, hs_auth = None,
         hs_range = \<lparr>hr_first = 0, hr_last = 0, hr_length = 0\<rparr>\<rparr> = Some (1, http')
     \<and> http_find_property http' (lit ''host'' @ [0]) = Some (Some (lit ''a'' @ [0]))"
proof -
  let ?hs = "[(lit ''Host'', lit ''a'')]"
  have t: "[] @ header_text ?hs @ [13, 10] @ [] = lit ''Host: a'' @ [13, 10, 13, 10]" by code_simp
  have h: "holds (map Cell (lit ''Host: a'' @ [13, 10, 13, 10])) ([] @ header_text ?hs @ [13, 10] @ [])"
    unfolding t by (simp add: holds_def)
  have ok: "\<forall>f\<in>set ?hs. field_ok f" by code_simp
  have e: "11 = length ([] :: mem) + length (header_text ?hs) + 2" by code_simp
  have k: "0 \<notin> set (lit ''host'')" by code_simp
  have f: "find (\<lambda>(k, v). begins (lit ''host'') k) (take 31 ?hs) = Some (lit ''Host'', lit ''a'')" by code_simp
  show ?thesis using http_header_found [OF h ok e k] unfolding f by simp
qed

subsection \<open>The end of a request\<close>

definition eol2_at :: "mem \<Rightarrow> nat \<Rightarrow> bool" where
  "eol2_at vs i \<longleftrightarrow> take 4 (drop i vs) = [13, 10, 13, 10]"

lemma cmp_at_holds:
  assumes "holds xs vs" "i + length pat \<le> length vs"
  shows "cmp_at xs i pat = Some (take (length pat) (drop i vs) = pat)"
  using assms(2)
proof (induction pat arbitrary: i)
  case (Cons c pat)
  have "rd xs i = Some (vs ! i)" using holds_rd [OF assms(1)] Cons.prems by simp
  moreover have "drop i vs = vs ! i # drop (Suc i) vs" using Cons.prems by (simp add: Cons_nth_drop_Suc)
  ultimately show ?case using Cons.IH [of "i + 1"] Cons.prems by simp
qed simp

lemma EOL2_holds: "holds xs vs \<Longrightarrow> i + 4 \<le> length vs \<Longrightarrow> EOL2_P xs i = Some (eol2_at vs i)"
proof -
  assume "holds xs vs" "i + 4 \<le> length vs"
  moreover have l: "length [13, 10, 13, 10 :: byte] = 4" by simp
  ultimately show ?thesis unfolding EOL2_P_def eol2_at_def using cmp_at_holds [of xs vs i "[13, 10, 13, 10]", unfolded l] by blast
qed

lemma scan_end_first:
  assumes "holds xs vs" "p + 4 \<le> length vs" "\<forall>i<p. \<not> eol2_at vs i" "eol2_at vs p" "j \<le> p"
  shows "scan_end xs (int (length vs)) j = Some p"
  using assms(5)
proof (induction "p - j" arbitrary: j)
  case 0
  then show ?case using EOL2_holds [OF assms(1), of p] assms(2,4) by (subst scan_end.simps) simp
next
  case (Suc k)
  then have j: "j < p" "k = p - (j + 1)" "j + 1 \<le> p" by auto
  then show ?case using Suc.hyps(1) [OF j(2,3)] EOL2_holds [OF assms(1), of j] assms(2,3)
    by (subst scan_end.simps) simp
qed

lemma eol2_shift: "eol2_at (a @ b) (length a + i) = eol2_at b i"
  by (simp add: eol2_at_def)

lemma eol2_start: "eol2_at (c # b) 0 \<Longrightarrow> c = 13"
  by (simp add: eol2_at_def)

lemma eol2_plain: "13 \<notin> set a \<Longrightarrow> i < length a \<Longrightarrow> \<not> eol2_at (a @ b) i"
proof -
  assume a: "13 \<notin> set a" "i < length a"
  have "a @ b = take i a @ a ! i # drop (Suc i) a @ b" using a(2) by (simp add: id_take_nth_drop)
  then have "eol2_at (a @ b) i = eol2_at (a ! i # drop (Suc i) a @ b) 0"
    using eol2_shift [of "take i a" _ 0] a(2) by (metis add.right_neutral length_take min.absorb4)
  moreover have "a ! i \<noteq> 13" using a nth_mem by metis
  ultimately show ?thesis using eol2_start by blast
qed

lemma header_end:
  assumes "\<forall>f\<in>set hs. field_ok f"
  shows "(\<forall>i<length (header_text hs). \<not> eol2_at (13 # 10 # header_text hs @ 13 # 10 # post) i)
    \<and> eol2_at (13 # 10 # header_text hs @ 13 # 10 # post) (length (header_text hs))"
  using assms
proof (induction hs)
  case Nil
  show ?case by (simp add: header_text_def eol2_at_def)
next
  case (Cons f hs)
  obtain k v where f: "f = (k, v)" by fastforce
  have ok: "13 \<notin> set k" "13 \<notin> set v" using Cons.prems by (auto simp: f field_ok_def)
  let ?T = "13 # 10 # header_text hs @ 13 # 10 # post" and ?a = "k @ 58 # 32 # v"
  have t: "13 # 10 # header_text (f # hs) @ 13 # 10 # post = [13, 10] @ ?a @ ?T" by (simp add: f header_text_Cons)
  have len: "length (header_text (f # hs)) = length ([13, 10] @ ?a) + length (header_text hs)" by (simp add: f header_text_Cons)
  have na: "13 \<notin> set ?a" using ok by simp
  have no: "\<not> eol2_at ([13, 10] @ ?a @ ?T) i" if i: "i < length (header_text (f # hs))" for i
  proof -
    consider "i = 0" | "i = 1" | j where "i = length [13, 10 :: byte] + j" "j < length ?a" | j where "i = length ([13, 10] @ ?a) + j" "j < length (header_text hs)"
    proof -
      have "i = 0 \<or> i = 1 \<or> (2 \<le> i \<and> i < 2 + length ?a) \<or> 2 + length ?a \<le> i" by linarith
      then show thesis
        using that(1,2) that(3) [of "i - 2"] that(4) [of "i - (2 + length ?a)"] i len by fastforce
    qed
    then show ?thesis
    proof cases
      case 1
      then show ?thesis using ok(1) by (cases k) (auto simp: eol2_at_def)
    next
      case 2
      then show ?thesis by (simp add: eol2_at_def)
    next
      case (3 j)
      then show ?thesis using eol2_plain [OF na, of j ?T] eol2_shift [of "[13, 10]" "?a @ ?T" j] by simp
    next
      case (4 j)
      then show ?thesis using Cons eol2_shift [of "[13, 10] @ ?a" ?T j] by simp
    qed
  qed
  have "eol2_at ([13, 10] @ ?a @ ?T) (length (header_text (f # hs)))"
    using Cons eol2_shift [of "[13, 10] @ ?a" ?T "length (header_text hs)"] unfolding len by simp
  then show ?case using no unfolding t by blast
qed

end
