(* ===== verification/Http_Request.thy ===== *)
theory Http_Request
  imports Http_Core
begin

text \<open>
  What \<^verbatim>\<open>http_check_request\<close> makes of the data of a client: well-formed requests are cut out of the stream and handed to their response routine with
  the decoded URI and the header fields; whatever else arrives is refused without an access outside the receive buffer, under the two
  conditions that the code needs.
\<close>

subsection \<open>Copies of texts\<close>

lemma holds_off: "holds xs (pre @ vs) \<Longrightarrow> i < length vs \<Longrightarrow> rd xs (length pre + i) = Some (vs ! i)"
  using holds_rd [of xs "pre @ vs" "length pre + i"] by simp

lemma holds_split: "holds xs vs \<Longrightarrow> xs = map Cell vs @ drop (length vs) xs"
  unfolding holds_def by (metis append_take_drop_id)

lemma holds_update: "holds xs vs \<Longrightarrow> i < length vs \<Longrightarrow> holds (xs[i := Cell v]) (vs[i := v])"
  using wr_update [of xs vs i v] by (auto simp: wr_def split: if_splits)

lemma c_text_holds:
  assumes "holds xs (pre @ t @ 0 # post)" "0 \<notin> set t"
  shows "c_text xs (length pre) = Some t"
  using c_text_at [OF assms(2), of pre post "drop (length (pre @ t @ 0 # post)) xs"] holds_split [OF assms(1)] by simp

lemma strcpy_exact:
  assumes "holds xs (pre @ t @ 0 # post)" "0 \<notin> set t"
  shows "strcpy_new xs (length pre) (length t + 1) = Some (map Cell (t @ [0]))"
  using c_text_holds [OF assms] by (simp add: strcpy_new_def wr_range_def)

lemma scan_back_found:
  assumes "holds xs (pre @ s # b @ post)" "s = 32 \<or> s = 0" "32 \<notin> set b" "0 \<notin> set b"
  shows "scan_back xs (length pre + length b) = Some (length pre)"
  using assms
proof (induction b arbitrary: post rule: rev_induct)
  case Nil
  then show ?case using holds_mid [of xs pre s post] by (cases "length pre") auto
next
  case (snoc c b)
  have "rd xs (Suc (length pre + length b)) = Some c" using holds_mid [of xs "pre @ s # b" c post] snoc.prems(1) by simp
  then show ?case using snoc.IH [of "c # post"] snoc.prems by auto
qed

lemma cmp_text:
  assumes "0 \<notin> set pat"
  shows "cmp_at (map Cell (pre @ m @ [0]) @ junk) (length pre) pat = Some (take (length pat) m = pat)"
  using assms
proof (induction pat arbitrary: pre m)
  case (Cons c pat)
  show ?case
  proof (cases m)
    case Nil
    then show ?thesis using Cons.prems rd_mid [of pre 0 "[]" junk] by simp
  next
    case (Cons b m')
    then show ?thesis using Cons.IH [of "pre @ [b]" m'] Cons.prems rd_mid [of pre b "m' @ [0]" junk] by auto
  qed
qed simp

text \<open>The response routine of a request type: the first entry of the table that is a prefix of it.\<close>

definition method_of :: "mem \<Rightarrow> response_cb" where
  "method_of m = (case find (\<lambda>(n, cb). take (length n) m = n) http_request of Some (_, cb) \<Rightarrow> cb | None \<Rightarrow> R_default)"

lemma method_loop_find:
  "\<forall>(n, cb)\<in>set tab. 0 \<notin> set n \<Longrightarrow>
   method_loop (map Cell (m @ [0]) @ junk) tab = Some (map_option snd (find (\<lambda>(n, cb). take (length n) m = n) tab))"
proof (induction tab)
  case (Cons e tab)
  then show ?case using cmp_text [of "fst e" "[]" m junk] by (cases e) auto
qed simp

lemma method_loop_table:
  "method_loop (map Cell (m @ [0]) @ junk) http_request = Some (map_option snd (find (\<lambda>(n, cb). take (length n) m = n) http_request))"
  by (rule method_loop_find) (simp add: http_request_def lit_def)

subsection \<open>Well-formed requests\<close>

definition request_bytes :: "mem \<Rightarrow> mem \<Rightarrow> byte \<Rightarrow> (mem \<times> mem) list \<Rightarrow> mem" where
  "request_bytes m u d hs = m @ [32] @ u @ lit '' HTTP/1.'' @ [d, 13, 10] @ header_text hs @ [13, 10]"

definition request_ok :: "mem \<Rightarrow> mem \<Rightarrow> byte \<Rightarrow> (mem \<times> mem) list \<Rightarrow> bool" where
  "request_ok m u d hs \<longleftrightarrow> (\<forall>c\<in>{0, 13, 32}. c \<notin> set m) \<and> u \<noteq> [] \<and> hd u = 47 \<and> (\<forall>c\<in>{0, 13}. c \<notin> set u)
     \<and> (d = 48 \<or> d = 49) \<and> (\<forall>f\<in>set hs. field_ok f)"

text \<open>What the code itself asks of a request, where the minor version may be any byte that is not above one as a signed number.\<close>

definition line_ok :: "mem \<Rightarrow> mem \<Rightarrow> byte \<Rightarrow> (mem \<times> mem) list \<Rightarrow> bool" where
  "line_ok m u d hs \<longleftrightarrow> (\<forall>c\<in>{0, 13, 32}. c \<notin> set m) \<and> u \<noteq> [] \<and> hd u = 47 \<and> (\<forall>c\<in>{0, 13}. c \<notin> set u)
     \<and> (\<forall>c\<in>{0, 13, 32}. d \<noteq> c) \<and> sint d \<le> 49 \<and> (\<forall>f\<in>set hs. field_ok f)"

lemma request_line_ok: "request_ok m u d hs \<Longrightarrow> line_ok m u d hs"
  by (auto simp: request_ok_def line_ok_def)

text \<open>The state the response routine gets.\<close>

definition parsed_buffer :: "byte cell list \<Rightarrow> mem \<Rightarrow> mem \<Rightarrow> byte cell list" where
  "parsed_buffer xs m u = xs[length m := Cell 0, length m + 1 + length u := Cell 0]"

definition parsed_http :: "int \<Rightarrow> mem \<Rightarrow> mem \<Rightarrow> byte \<Rightarrow> (mem \<times> mem) list \<Rightarrow> http_socket \<Rightarrow> http_socket" where
  "parsed_http now m u d hs http = http\<lparr>
     hs_property := Some (map Cell (slots (take 31 hs) @ [None]) @ replicate (63 - 2 * length (take 31 hs)) Uninit),
     hs_timestamp := now,
     hs_request := Some (m @ [32] @ cstr (uri_decode u) @ lit '' HTTP/1.'' @ [d, 0])\<rparr>"

lemma version_lit: "lit '' HTTP/1.'' = 32 # [72, 84, 84, 80, 47, 49, 46]" "lit ''HTTP/'' = [72, 84, 84, 80, 47]" "lit '' HTTP/'' = 32 # lit ''HTTP/''"
  by (simp_all add: lit_def)

lemma request_line_parsed:
  assumes "holds xs (m @ 0 # u @ lit '' HTTP/1.'' @ [d, 13, 10] @ post)" and "line_ok m u d hs"
  shows "request_line (map Cell (m @ [0])) xs (length m + 1) (length m + 1 + length u)
       = Some (Inr ((map Cell (u @ [0]), 1, sint d - 48, 0, length m + 1 + length u + 9), xs[length m + 1 + length u := Cell 0]))"
proof -
  let ?pre = "m @ 0 # u" and ?v = "[72, 84, 84, 80, 47, 49, 46, d, 13, 10] @ post"
  have l: "length ?pre = length m + 1 + length u" by simp
  have u: "u \<noteq> []" "0 \<notin> set u" using assms(2) by (auto simp: line_ok_def)
  have h: "holds xs (?pre @ 32 # ?v)" using assms(1) by (simp add: version_lit)
  let ?ys = "xs[length ?pre := Cell 0]"
  have w: "wr xs (length ?pre) (Cell 0) = Some ?ys" "holds ?ys (?pre @ 0 # ?v)"
    using wr_update [OF h, of "length ?pre" 0] h by (auto simp: wr_def list_update_append split: if_splits)
  have c: "cmp_at zs (length ?pre + 1) (lit ''HTTP/'') = Some True" if "holds zs (?pre @ x # ?v)" for zs x
    using cmp_at_holds [OF that, of "length ?pre + 1" "lit ''HTTP/''"] by (simp add: version_lit)
  have "0 \<notin> set (lit ''GET'')" by code_simp
  then have g: "cmp_at (map Cell (m @ [0])) 0 (lit ''GET'') = Some (take (length (lit ''GET'')) m = lit ''GET'')"
    using cmp_text [of "lit ''GET''" "[]" m "[]"] by (simp del: cmp_at.simps)
  have s: "strcpy_new ?ys (length m + 1) (length u + 1) = Some (map Cell (u @ [0]))"
    using strcpy_exact [of ?ys "m @ [0]" u "?v"] w(2) u(2) by simp
  have r: "rd ?ys (length ?pre + 6) = Some 49" "rd ?ys (length ?pre + 8) = Some d"
    using holds_off [OF w(2), of 6] holds_off [OF w(2), of 8] by simp_all
  have d: "length ?pre - (length m + 1) + 1 = length u + 1" "\<not> length ?pre \<le> length m + 1" using u(1) by auto
  obtain P where P: "P = length ?pre" by blast
  have n: "P + 1 + 5 = P + 6" "P + 1 + 7 = P + 8" "P + 1 + 8 = P + 9" by simp_all
  have v: "sint (49 :: byte) - 48 = 1" by simp
  show ?thesis unfolding l [symmetric] request_line_def
    unfolding P [symmetric] using g c [OF h] w(1) c [OF w(2)] s r d v
    unfolding P [symmetric] by (simp add: Let_def n v del: cmp_at.simps One_nat_def)
qed

lemma refused_line_no:
  assumes "holds xs (pre @ [46, d, 13, 10] @ post)" "sint d \<le> 49"
  shows "refused_line xs 1 (sint d - 48) 0 (length pre + 2) = Some False"
proof -
  have "rd xs (length pre) = Some 46" using holds_off [OF assms(1), of 0] by simp
  moreover have "EOL1_P xs (length pre + 2) = Some True" using EOL1_yes [of xs "pre @ [46, d]" post] assms(1) by simp
  moreover have "\<not> 1 < sint d - 48" using assms(2) by simp
  ultimately show ?thesis by (simp add: refused_line_def HTTP_MAJOR_VERSION_def)
qed

lemma request_text_parsed:
  assumes "d = 48 \<or> d = 49"
  shows "request_text m t 1 (sint d - 48) = Some (m @ [32] @ t @ lit '' HTTP/1.'' @ [d, 0])"
proof -
  have p: "printf_d 1 = [49]" "printf_d 0 = [48]" by (simp_all add: printf_d_def dec_digits.simps)
  have "printf_d (sint d - 48) = [d]" using assms p by auto
  then show ?thesis by (simp add: request_text_def Let_def p version_lit)
qed

lemma handle_request_line:
  assumes buf: "sk_recv_buffer sock = Some xs" "holds xs (request_bytes m u d hs @ post)" and ok: "line_ok m u d hs"
  shows "http_handle_request os respond sock http (length (request_bytes m u d hs)) w = do {
     text \<leftarrow> request_text m (cstr (uri_decode u)) 1 (sint d - 48);
     (s, h, w) \<leftarrow> respond (method_of m) (sock\<lparr>sk_recv_buffer := Some (parsed_buffer xs m u)\<rparr>)
       ((parsed_http (os_time os w) m u d hs http)\<lparr>hs_request := Some text\<rparr>) (cstr (uri_decode u)) 0 w;
     Some (0, s, h, w) }"
proof -
  let ?len = "length (request_bytes m u d hs)" and ?P = "length m + 1 + length u"
  let ?tail = "lit '' HTTP/1.'' @ [d, 13, 10] @ header_text hs @ 13 # 10 # post"
  have o: "0 \<notin> set m" "32 \<notin> set m" "u \<noteq> []" "hd u = 47" "0 \<notin> set u" "13 \<notin> set u" "\<forall>c\<in>{0, 13, 32}. d \<noteq> c" "\<forall>f\<in>set hs. field_ok f" "sint d \<le> 49"
    using ok by (auto simp: line_ok_def)
  have len: "?len = length m + length u + length (header_text hs) + 14" by (simp add: request_bytes_def version_lit)
  have h: "holds xs (m @ 32 # u @ ?tail)" using buf(2) by (simp add: request_bytes_def)
  have s1: "scan_to xs 32 0 (?len - 1) = Some (length m)"
    using scan_to_found [of xs "[]" m 32 "u @ ?tail" "?len - 1"] h o(2) len by simp
  have b: "rd xs (length m + 1) = Some 47"
    using holds_off [OF h, of 1] o(3,4) by (cases u) simp_all
  let ?ys = "xs[length m := Cell 0]"
  have w: "wr xs (length m) (Cell 0) = Some ?ys" "holds ?ys (m @ 0 # u @ ?tail)"
    using wr_update [OF h, of "length m" 0] by (auto simp: wr_def split: if_splits)
  have s2: "strcpy_new ?ys 0 (length m + 1) = Some (map Cell (m @ [0]))"
    using strcpy_exact [of ?ys "[]" m "u @ ?tail"] w(2) o(1) by simp
  have s3: "scan_to ?ys 13 (length m) ?len = Some (?P + 9)"
  proof -
    have "13 \<notin> set (0 # u @ lit '' HTTP/1.'' @ [d])" using o(6,7) by (auto simp: version_lit)
    moreover have "holds ?ys (m @ (0 # u @ lit '' HTTP/1.'' @ [d]) @ 13 # 10 # header_text hs @ 13 # 10 # post)" using w(2) by simp
    ultimately show ?thesis using scan_to_found [of ?ys m _ 13 _ ?len] len by (fastforce simp: version_lit)
  qed
  have s4: "scan_back ?ys (?P + 9) = Some ?P"
  proof -
    let ?b = "[72, 84, 84, 80, 47, 49, 46, d, 13]"
    have hb: "holds ?ys ((m @ 0 # u) @ 32 # ?b @ 10 # header_text hs @ 13 # 10 # post)" using w(2) by (simp add: version_lit)
    have e: "length ?b = 9" "length (m @ 0 # u) = ?P" by simp_all
    have "32 \<notin> set ?b" "0 \<notin> set ?b" using o(7) by auto
    from scan_back_found [OF hb _ this] show ?thesis unfolding e by blast
  qed
  have s5: "request_line (map Cell (m @ [0])) ?ys (length m + 1) ?P
      = Some (Inr ((map Cell (u @ [0]), 1, sint d - 48, 0, ?P + 9), parsed_buffer xs m u))"
    using request_line_parsed [OF _ ok, of ?ys "header_text hs @ 13 # 10 # post"] w(2) by (simp add: parsed_buffer_def)
  let ?pre = "m @ 0 # u @ [0, 72, 84, 84, 80, 47, 49]" and ?zs = "parsed_buffer xs m u"
  have hz: "holds ?zs (?pre @ [46, d, 13, 10] @ header_text hs @ 13 # 10 # post)"
    using wr_update [OF w(2), of ?P 0] w(2) by (auto simp: parsed_buffer_def wr_def list_update_append version_lit split: if_splits)
  have s6: "refused_line ?zs 1 (sint d - 48) 0 (?P + 9) = Some False"
  proof -
    have "length ?pre + 2 = ?P + 9" by simp
    then show ?thesis using refused_line_no [OF hz o(9)] by metis
  qed
  have s7: "http_parse_property ?zs (?P + 9 + 2) ?len http
      = Some (int (length (take 31 hs)), http\<lparr>hs_property := Some (map Cell (slots (take 31 hs) @ [None]) @ replicate (63 - 2 * length (take 31 hs)) Uninit)\<rparr>)"
  proof -
    have e: "length (?pre @ [46, d, 13, 10]) = ?P + 9 + 2" by simp
    have "holds ?zs ((?pre @ [46, d, 13, 10]) @ header_text hs @ 13 # 10 # post)" using hz by simp
    from parse_fields [OF this o(8), of ?len http] show ?thesis unfolding e using len by linarith
  qed
  obtain ub where s8: "http_process_uri (map Cell (u @ [0])) = Some ub" "c_text ub 0 = Some (cstr (uri_decode u))"
    using process_uri_text [OF o(5), of "[]"] by auto
  have s9: "c_text (map Cell (m @ [0])) 0 = Some m" using c_text_start [of m "[]"] cstr_plain [OF o(1)] by simp
  have s10: "method_loop (map Cell (m @ [0])) http_request = Some (map_option snd (find (\<lambda>(n, cb). take (length n) m = n) http_request))"
    using method_loop_table [of m "[]"] by simp
  have ne: "length m \<noteq> ?len" "?P + 9 \<noteq> ?len" using len by simp_all
  obtain L P where L: "L = ?len" and P: "P = ?P" by blast
  show ?thesis
    using s1 b w(1) s2 s3 s4 s5 s6 s7 s8 s9 s10 ne
    unfolding L [symmetric] P [symmetric] http_handle_request_def answer_request_def buf(1)
    by (simp add: Let_def parsed_http_def method_of_def split: option.splits del: One_nat_def)
qed

lemma handle_request_parsed:
  assumes "sk_recv_buffer sock = Some xs" "holds xs (request_bytes m u d hs @ post)" and "request_ok m u d hs"
  shows "http_handle_request os respond sock http (length (request_bytes m u d hs)) w
       = map_option (\<lambda>(s, h, w). (0, s, h, w))
           (respond (method_of m) (sock\<lparr>sk_recv_buffer := Some (parsed_buffer xs m u)\<rparr>) (parsed_http (os_time os w) m u d hs http)
             (cstr (uri_decode u)) 0 w)"
proof -
  have d: "d = 48 \<or> d = 49" using assms(3) by (auto simp: request_ok_def)
  have h: "(parsed_http (os_time os w) m u d hs http)\<lparr>hs_request := Some (m @ [32] @ cstr (uri_decode u) @ lit '' HTTP/1.'' @ [d, 0])\<rparr>
      = parsed_http (os_time os w) m u d hs http" by (simp add: parsed_http_def)
  have b: "x \<bind> (\<lambda>(s, h, w). Some (0, s, h, w)) = map_option (\<lambda>(s, h, w). (0, s, h, w)) x" for x :: "(svz_socket \<times> http_socket \<times> 'a) option"
    by (cases x) auto
  show ?thesis unfolding handle_request_line [OF assms(1,2) request_line_ok [OF assms(3)]] request_text_parsed [OF d]
    by (simp add: h b del: append.simps)
qed


lemma request_end:
  assumes "line_ok m u d hs" and "vs = request_bytes m u d hs @ rest"
  shows "\<exists>p. length (request_bytes m u d hs) = p + 4 \<and> (\<forall>i<p. \<not> eol2_at vs i) \<and> eol2_at vs p"
proof -
  let ?a = "m @ [32] @ u @ lit '' HTTP/1.'' @ [d]" and ?T = "13 # 10 # header_text hs @ 13 # 10 # rest"
  have vs: "vs = ?a @ ?T" by (simp add: assms(2) request_bytes_def)
  have a: "13 \<notin> set ?a" and hs: "\<forall>f\<in>set hs. field_ok f" using assms(1) by (auto simp: line_ok_def version_lit)
  note e = header_end [OF hs, of rest]
  have "\<not> eol2_at vs i" if "i < length ?a + length (header_text hs)" for i
  proof (cases "i < length ?a")
    case True
    then show ?thesis unfolding vs by (rule eol2_plain [OF a])
  next
    case False
    then obtain j where j: "i = length ?a + j" by (metis le_Suc_ex not_less)
    then show ?thesis using e that unfolding vs j eol2_shift by simp
  qed
  moreover have "eol2_at vs (length ?a + length (header_text hs))" using e eol2_shift [of ?a ?T "length (header_text hs)"] unfolding vs by simp
  moreover have "length (request_bytes m u d hs) = length ?a + length (header_text hs) + 4" by (simp add: request_bytes_def)
  ultimately show ?thesis by blast
qed

text \<open>The response routines leave the receive buffer alone.\<close>

definition keeps_input :: "'w responder \<Rightarrow> bool" where
  "keeps_input respond \<longleftrightarrow> (\<forall>cb s h t f w s' h' w'. respond cb s h t f w = Some (s', h', w') \<longrightarrow>
     sk_recv_buffer s' = sk_recv_buffer s \<and> sk_recv_buffer_size s' = sk_recv_buffer_size s \<and> sk_recv_buffer_fill s' = sk_recv_buffer_fill s)"

lemma check_request_found:
  assumes "sk_recv_buffer sock = Some xs" "holds xs vs" "sk_recv_buffer_fill sock = int (length vs)"
    and "p + 4 \<le> length vs" "\<forall>i<p. \<not> eol2_at vs i" "eol2_at vs p"
  shows "http_check_request os respond sock http w = do {
     (ret, sock, http, w) \<leftarrow> http_handle_request os respond sock http (p + 4) w;
     if ret \<noteq> 0 then Some (-1, sock, http, w)
     else do { sock \<leftarrow> svz_sock_reduce_recv sock (int (p + 4)); Some (0, sock, http, w) } }"
proof -
  have "scan_end xs (int (length vs)) 0 = Some p" using scan_end_first [OF assms(2,4,5,6)] by simp
  moreover have "EOL2_P xs p = Some True" using EOL2_holds [OF assms(2,4)] assms(6) by simp
  moreover have "int p < int (length vs) - 3" using assms(4) by linarith
  ultimately show ?thesis
    unfolding http_check_request_def svz_sock_reduce_recv_def
    by (simp add: assms(1,3) case_prod_unfold bind_map_option Let_def cong: if_cong)
qed


definition ex_http :: http_socket where
  "ex_http = \<lparr>hs_cache = None, hs_property = None, hs_contentlength = 0, hs_filelength = 0, hs_keepalive = 0, hs_fileoffset = 0, hs_pid = 0,
     hs_timestamp = 0, hs_request = None, hs_host = None, hs_response = 0, hs_length = 0, hs_ident = None, hs_auth = None,
     hs_range = \<lparr>hr_first = 0, hr_last = 0, hr_length = 0\<rparr>\<rparr>"

definition ex_input :: "mem \<Rightarrow> svz_socket" where
  "ex_input data = (svz_sock_alloc 0)\<lparr>sk_recv_buffer := Some (map Cell data), sk_recv_buffer_size := int (length data),
     sk_recv_buffer_fill := int (length data)\<rparr>"

lemma ex_input_rep: "recv_rep (ex_input data) data"
  by (simp add: recv_rep_def buf_rep_def ex_input_def holds_def)


subsection \<open>Arbitrary data\<close>

lemma scan_to_safe:
  assumes "holds xs vs" "p \<le> end" "end < length vs"
  shows "\<exists>q. scan_to xs c p end = Some q \<and> p \<le> q \<and> q \<le> end \<and> (q < end \<longrightarrow> vs ! q = c) \<and> (\<forall>j. p \<le> j \<longrightarrow> j < q \<longrightarrow> vs ! j \<noteq> c)"
  using assms(2)
proof (induction "end - p" arbitrary: p)
  case 0
  then show ?case using holds_rd [OF assms(1), of p] assms(3) by (subst scan_to.simps) auto
next
  case (Suc k)
  have r: "rd xs p = Some (vs ! p)" using holds_rd [OF assms(1), of p] Suc.hyps(2) assms(3) by simp
  show ?case
  proof (cases "vs ! p = c")
    case True
    then show ?thesis using r Suc.prems by (subst scan_to.simps) (auto intro!: exI [of _ p])
  next
    case False
    have "k = end - (p + 1)" "p + 1 \<le> end" using Suc.hyps(2) by auto
    from Suc.hyps(1) [OF this] obtain q where q: "scan_to xs c (p + 1) end = Some q" "p + 1 \<le> q" "q \<le> end" "q < end \<longrightarrow> vs ! q = c"
        "\<forall>j. p + 1 \<le> j \<longrightarrow> j < q \<longrightarrow> vs ! j \<noteq> c" by blast
    have "p < end" using Suc.hyps(2) by simp
    then have "scan_to xs c p end = Some q" using r False q(1) by (subst scan_to.simps) simp
    moreover have "\<forall>j. p \<le> j \<longrightarrow> j < q \<longrightarrow> vs ! j \<noteq> c" using q(5) False by (metis Suc_eq_plus1 not_less_eq_eq order_antisym)
    ultimately show ?thesis using q(2-4) by auto
  qed
qed

lemma EOL1_holds: "holds xs vs \<Longrightarrow> i + 1 < length vs \<Longrightarrow> EOL1_P xs i = Some (vs ! i = 13 \<and> vs ! (i + 1) = 10)"
  by (simp add: EOL1_P_def holds_rd)

lemma scan_eol_safe:
  assumes "holds xs vs" "vs ! e = 13" "vs ! (e + 1) = 10" "e + 1 < length vs" "e < end" "p \<le> e"
  shows "\<exists>q. scan_eol xs p end = Some q \<and> p \<le> q \<and> q \<le> e"
  using assms(6)
proof (induction "e - p" arbitrary: p)
  case 0
  then have "p = e" by simp
  then show ?case using EOL1_holds [OF assms(1), of e] assms(2-4) by (subst scan_eol.simps) simp
next
  case (Suc k)
  have r: "EOL1_P xs p = Some (vs ! p = 13 \<and> vs ! (p + 1) = 10)" using EOL1_holds [OF assms(1)] Suc.hyps(2) assms(4) by simp
  have "k = e - (p + 1)" "p + 1 \<le> e" using Suc.hyps(2) by auto
  from Suc.hyps(1) [OF this] obtain q where q: "scan_eol xs (p + 1) end = Some q" "p + 1 \<le> q" "q \<le> e" by blast
  show ?case
  proof (cases "vs ! p = 13 \<and> vs ! (p + 1) = 10")
    case True
    then show ?thesis using r Suc.prems by (subst scan_eol.simps) simp
  next
    case False
    then have "scan_eol xs p end = Some q" using r q(1) Suc.prems assms(5) by (subst scan_eol.simps) auto
    then show ?thesis using q(2,3) by auto
  qed
qed

lemma c_text_safe:
  assumes "holds xs vs" "q < length vs" "vs ! q = 0" "i \<le> q"
  shows "\<exists>t. c_text xs i = Some t \<and> length t \<le> q - i \<and> 0 \<notin> set t"
  using assms(4)
proof (induction "q - i" arbitrary: i)
  case 0
  then have "i = q" by simp
  then show ?case using holds_rd [OF assms(1,2)] assms(2,3) holds_length [OF assms(1)] by (subst c_text.simps) simp
next
  case (Suc k)
  have r: "rd xs i = Some (vs ! i)" "i < length xs" using holds_rd [OF assms(1)] Suc.prems assms(2) holds_length [OF assms(1)] by auto
  have "k = q - (i + 1)" "i + 1 \<le> q" using Suc.hyps(2) by auto
  from Suc.hyps(1) [OF this] obtain t where t: "c_text xs (i + 1) = Some t" "length t \<le> q - (i + 1)" "0 \<notin> set t" by blast
  show ?case
    using r t Suc.hyps(2) by (subst c_text.simps) (cases "vs ! i = 0"; auto)
qed

lemma strcpy_safe:
  assumes "holds xs vs" "q < length vs" "vs ! q = 0" "i \<le> q"
  shows "\<exists>t junk. strcpy_new xs i (q - i + 1) = Some (map Cell (t @ [0]) @ junk) \<and> 0 \<notin> set t"
proof -
  obtain t where t: "c_text xs i = Some t" "length t \<le> q - i" "0 \<notin> set t" using c_text_safe [OF assms] by blast
  then have "strcpy_new xs i (q - i + 1) = Some (map Cell (t @ [0]) @ replicate (q - i - length t) Uninit)"
    by (simp add: strcpy_new_def wr_range_def)
  then show ?thesis using t(3) by blast
qed

lemma scan_back_safe:
  assumes "holds xs vs" "q < length vs" "vs ! p = 0" "p \<le> q"
  shows "\<exists>r. scan_back xs q = Some r \<and> p \<le> r \<and> r \<le> q \<and> (vs ! r = 32 \<or> vs ! r = 0)"
  using assms(2,4)
proof (induction q)
  case 0
  then show ?case using holds_rd [OF assms(1), of 0] assms(3) by auto
next
  case (Suc q)
  have r: "rd xs (Suc q) = Some (vs ! Suc q)" using holds_rd [OF assms(1)] Suc.prems(1) by simp
  show ?case
  proof (cases "vs ! Suc q = 32 \<or> vs ! Suc q = 0")
    case True
    then show ?thesis using r Suc.prems by auto
  next
    case False
    then have "p \<noteq> Suc q" using assms(3) by auto
    then show ?thesis using Suc r False by auto
  qed
qed

lemma cmp_safe:
  assumes "holds xs vs" "q < length vs" "vs ! q \<notin> set pat" "i \<le> q"
  shows "\<exists>b. cmp_at xs i pat = Some b \<and> (b \<longrightarrow> i + length pat \<le> q \<and> take (length pat) (drop i vs) = pat)"
  using assms(3,4)
proof (induction pat arbitrary: i)
  case Nil
  then show ?case by (intro exI [of _ True]) simp
next
  case (Cons c pat)
  have r: "rd xs i = Some (vs ! i)" "drop i vs = vs ! i # drop (i + 1) vs"
    using holds_rd [OF assms(1)] Cons.prems(2) assms(2) by (auto simp: Cons_nth_drop_Suc)
  show ?case
  proof (cases "vs ! i = c")
    case True
    then have "i + 1 \<le> q" using Cons.prems by (cases "i = q") auto
    from Cons.IH [OF _ this] Cons.prems True r show ?thesis by auto
  qed (use r in \<open>simp add: exI [of _ False]\<close>)
qed

lemma strncpy_safe:
  assumes "holds xs vs" "i \<le> j" "j \<le> length vs"
  shows "\<exists>t rest. strncpy_new xs i j = Some (t @ 0 # rest) \<and> 0 \<notin> set t"
proof -
  have "rd_range xs i (j - i) = Some (take (j - i) (drop i vs))" using holds_rd_range [OF assms(1)] assms(2,3) by simp
  moreover define t where "t = takeWhile (\<lambda>b. b \<noteq> 0) (take (j - i) (drop i vs))"
  ultimately have "strncpy_new xs i j = Some (t @ replicate (j - i - length t) 0 @ [0])" by (simp add: strncpy_new_def Let_def)
  moreover have "replicate k 0 @ [0] = 0 # replicate k (0 :: byte)" for k by (induction k) auto
  moreover have "0 \<notin> set t" unfolding t_def by (metis set_takeWhileD)
  ultimately show ?thesis by metis
qed

text \<open>The end of a request at \<open>len\<close>, with a byte behind it.\<close>

definition ends_at :: "mem \<Rightarrow> nat \<Rightarrow> bool" where
  "ends_at vs len \<longleftrightarrow> 4 \<le> len \<and> len < length vs \<and> vs ! (len - 4) = 13 \<and> vs ! (len - 3) = 10 \<and> vs ! (len - 2) = 13 \<and> vs ! (len - 1) = 10"

lemma ends_at_step: "ends_at vs len \<Longrightarrow> len - 4 + 1 = len - 3"
  by (auto simp: ends_at_def)

lemma before_end:
  assumes "ends_at vs len" "i < len" "vs ! i \<noteq> 13" "vs ! i \<noteq> 10"
  shows "i < len - 4"
proof (rule ccontr)
  assume "\<not> i < len - 4"
  then have "i = len - 4 \<or> i = len - 3 \<or> i = len - 2 \<or> i = len - 1" using assms(1,2) by (auto simp: ends_at_def)
  then show False using assms by (auto simp: ends_at_def)
qed

lemma property_loop_safe:
  assumes "holds xs vs" "ends_at vs len"
  shows "request + 2 \<le> len \<Longrightarrow> n = 2 * properties \<Longrightarrow> properties \<le> 31 \<Longrightarrow> length property = 64 \<Longrightarrow>
    \<exists>props n' property'. property_loop xs len request properties n property = Some (props, n', property') \<and> n' < 64 \<and> length property' = 64"
proof (induction "31 - properties" arbitrary: request n properties property rule: less_induct)
  case less
  have len: "len < length vs" "4 \<le> len" "vs ! (len - 4) = 13" "vs ! (len - 4 + 1) = 10"
    using assms(2) ends_at_step [OF assms(2)] by (auto simp: ends_at_def)
  have e: "EOL1_P xs request = Some (vs ! request = 13 \<and> vs ! (request + 1) = 10)" using EOL1_holds [OF assms(1)] less.prems(1) len by simp
  show ?case
  proof (cases "\<not> (vs ! request = 13 \<and> vs ! (request + 1) = 10) \<and> properties < 31")
    case False
    then show ?thesis using e less.prems by (subst property_loop.simps) (auto simp: MAX_HTTP_PROPERTIES_def)
  next
    case True
    obtain p where p: "scan_to xs 58 request len = Some p" "request \<le> p" "p \<le> len" "p < len \<longrightarrow> vs ! p = 58"
      using scan_to_safe [OF assms(1) _ len(1), of request 58] less.prems(1) by auto
    show ?thesis
    proof (cases "p = len")
      case True
      then show ?thesis using e p less.prems \<open>\<not> _ \<and> _\<close> by (subst property_loop.simps) (auto simp: MAX_HTTP_PROPERTIES_def)
    next
      case False
      then have lt: "p < len - 4" using before_end [OF assms(2), of p] p(3,4) by simp
      obtain q where q: "scan_eol xs p len = Some q" "p \<le> q" "q \<le> len - 4"
        using scan_eol_safe [OF assms(1) len(3,4), of len p] len lt by auto
      obtain t1 where t1: "strncpy_new xs request p = Some t1" using strncpy_safe [OF assms(1) p(2)] lt len by fastforce
      let ?P1 = "property[n := Cell (Some t1)]"
      have w1: "wr property n (Cell (Some t1)) = Some ?P1" using less.prems True by (simp add: wr_def)
      show ?thesis
      proof (cases "q \<le> p + 2")
        case True
        then show ?thesis using e p(1) False t1 w1 q less.prems \<open>\<not> _ \<and> _\<close>
          by (subst property_loop.simps) (auto simp: MAX_HTTP_PROPERTIES_def)
      next
        case gt: False
        obtain t2 where t2: "strncpy_new xs (p + 2) q = Some t2" using strncpy_safe [OF assms(1), of "p + 2" q] gt q len by fastforce
        let ?P2 = "?P1[n + 1 := Cell (Some t2)]"
        have w2: "wr ?P1 (n + 1) (Cell (Some t2)) = Some ?P2" using less.prems True by (simp add: wr_def)
        have ql: "q \<noteq> len" using q(3) len(2) by linarith
        have "property_loop xs len request properties n property = property_loop xs len (q + 2) (properties + 1) (n + 2) ?P2"
          using e p(1) False t1 w1 q(1) ql gt t2 w2 \<open>\<not> _ \<and> _\<close>
          by (subst property_loop.simps) (simp add: MAX_HTTP_PROPERTIES_def Let_def)
        moreover have "\<exists>props n' property'. property_loop xs len (q + 2) (properties + 1) (n + 2) ?P2 = Some (props, n', property') \<and> n' < 64 \<and> length property' = 64"
          by (rule less.hyps) (use less.prems True q(3) len in auto)
        ultimately show ?thesis by simp
      qed
    qed
  qed
qed

lemma parse_property_safe:
  assumes "holds xs vs" "ends_at vs len" "request + 2 \<le> len"
  shows "\<exists>k http'. http_parse_property xs request len http = Some (k, http')"
proof -
  obtain props n property where "property_loop xs len request 0 0 (replicate 64 Uninit) = Some (props, n, property)" "n < 64" "length property = 64"
    using property_loop_safe [OF assms, of 0 0 "replicate 64 Uninit"] by auto
  then show ?thesis by (simp add: http_parse_property_def MAX_HTTP_PROPERTIES_def wr_def)
qed

lemma scan_to_hit:
  assumes "holds xs vs" "q < length vs" "vs ! q = c" "q \<le> end" "p \<le> q"
  shows "\<exists>j. scan_to xs c p end = Some j \<and> p \<le> j \<and> j \<le> q \<and> vs ! j = c"
  using assms(5)
proof (induction "q - p" arbitrary: p)
  case 0
  then have "p = q" by simp
  then show ?case using holds_rd [OF assms(1,2)] assms(3) by (subst scan_to.simps) simp
next
  case (Suc k)
  have r: "rd xs p = Some (vs ! p)" using holds_rd [OF assms(1)] Suc.prems assms(2) by simp
  have "k = q - (p + 1)" "p + 1 \<le> q" using Suc.hyps(2) by auto
  from Suc.hyps(1) [OF this] obtain j where j: "scan_to xs c (p + 1) end = Some j" "p + 1 \<le> j" "j \<le> q" "vs ! j = c" by blast
  show ?case
  proof (cases "vs ! p = c")
    case True
    then show ?thesis using r Suc.prems by (subst scan_to.simps) auto
  next
    case False
    have "p < end" using \<open>p + 1 \<le> q\<close> assms(4) by simp
    then have "scan_to xs c p end = Some j" using r False j(1) by (subst scan_to.simps) simp
    then show ?thesis using j by auto
  qed
qed

lemma request_line_safe:
  assumes h: "holds xs vs" and q: "q + 3 < length vs" "vs ! q = 13" and r: "p \<le> r" "r < q" and p: "vs ! p = 0"
    and request: "request = map Cell (name @ [0]) @ junk"
  shows "\<exists>res. request_line request xs (p + 1) r = Some res \<and>
    (case res of Inl ys \<Rightarrow> ys = xs \<or> ys = xs[r := Cell 0]
     | Inr ((uri, major, minor, flag, line), ys) \<Rightarrow>
         (\<exists>t j. uri = map Cell (t @ [0]) @ j \<and> 0 \<notin> set t)
         \<and> (flag = HTTP_FLAG_SIMPLE \<and> major = 0 \<and> minor = 9 \<and> ys = xs \<and> line \<le> q
            \<or> flag = 0 \<and> ys = xs[r := Cell 0] \<and> r + 6 \<le> q \<and> take 5 (drop (r + 1) vs) = lit ''HTTP/''
              \<and> major = sint (vs ! (r + 6)) - 48 \<and> minor = sint (vs ! (r + 8)) - 48 \<and> line = r + 9))"
proof -
  have ql: "q < length vs" "r + 1 \<le> q" using q r by simp_all
  have lit5: "length (lit ''HTTP/'') = 5" "13 \<notin> set (lit ''HTTP/'')" "0 \<notin> set (lit ''GET'')" by (auto simp: lit_def)
  obtain get where g: "cmp_at request 0 (lit ''GET'') = Some get"
    using cmp_text [OF lit5(3), of "[]" name junk] by (auto simp: request simp del: cmp_at.simps)
  obtain b where b: "cmp_at xs (r + 1) (lit ''HTTP/'') = Some b" using cmp_safe [OF h ql(1) _ ql(2)] lit5(2) q(2) by metis
  show ?thesis
  proof (cases "get \<and> \<not> b")
    case True
    have "q \<le> length xs" using holds_length [OF h] ql by simp
    then obtain j where j: "scan_to xs 13 r (length xs) = Some j" "r \<le> j" "j \<le> q" "vs ! j = 13"
      using scan_to_hit [OF h ql(1) q(2), of "length xs" r] r by auto
    have "p + 1 \<le> j" using j(2,4) r(1) p by (cases "j = p") auto
    then obtain t rest where t: "strncpy_new xs (p + 1) j = Some (t @ 0 # rest)" "0 \<notin> set t"
      using strncpy_safe [OF h, of "p + 1" j] j(3) ql by fastforce
    have "request_line request xs (p + 1) r = Some (Inr ((map Cell (t @ 0 # rest), 0, 9, HTTP_FLAG_SIMPLE, j), xs))"
      using True g b j(1) t(1) by (simp add: request_line_def del: cmp_at.simps)
    moreover have "map Cell (t @ 0 # rest) = map Cell (t @ [0]) @ map Cell rest" by simp
    ultimately show ?thesis using t(2) j(3) by fastforce
  next
    case False
    then have s: "(if get then map_option Not (cmp_at xs (r + 1) (lit ''HTTP/'')) else Some False) = Some False" using b by auto
    show ?thesis
    proof (cases "r \<le> p + 1")
      case True
      then show ?thesis using g s by (intro exI [of _ "Inl xs"]) (simp add: request_line_def del: cmp_at.simps)
    next
      case gt: False
      let ?ys = "xs[r := Cell 0]" and ?vs = "vs[r := 0]"
      have rl: "r < length vs" using r q by simp
      have h': "holds ?ys ?vs" using holds_update [OF h rl] .
      have w: "wr xs r (Cell 0) = Some ?ys" using rl holds_length [OF h] by (simp add: wr_def)
      obtain t junk' where t: "strcpy_new ?ys (p + 1) (r - (p + 1) + 1) = Some (map Cell (t @ [0]) @ junk')" "0 \<notin> set t"
        using strcpy_safe [OF h', of r "p + 1"] rl gt by auto
      have q': "q < length ?vs" "?vs ! q \<notin> set (lit ''HTTP/'')" using ql q(2) r(2) lit5(2) by simp_all
      obtain b' where b': "cmp_at ?ys (r + 1) (lit ''HTTP/'') = Some b'" "b' \<longrightarrow> r + 1 + 5 \<le> q \<and> take 5 (drop (r + 1) ?vs) = lit ''HTTP/''"
        using cmp_safe [OF h' q' ql(2)] unfolding lit5(1) by blast
      show ?thesis
      proof (cases b')
        case False
        then show ?thesis using g s gt w t b'(1) by (intro exI [of _ "Inl ?ys"]) (simp add: request_line_def Let_def del: cmp_at.simps)
      next
        case True
        then have le: "r + 6 \<le> q" "take 5 (drop (r + 1) vs) = lit ''HTTP/''" using b'(2) by auto
        have rds: "rd ?ys (r + 1 + 5) = Some (vs ! (r + 6))" "rd ?ys (r + 1 + 7) = Some (vs ! (r + 8))"
          using holds_rd [OF h', of "r + 6"] holds_rd [OF h', of "r + 8"] le(1) q(1) by (simp_all add: add.commute)
        have "request_line request xs (p + 1) r = Some (Inr ((map Cell (t @ [0]) @ junk', sint (vs ! (r + 6)) - 48, sint (vs ! (r + 8)) - 48, 0, r + 9), ?ys))"
          using g s gt w t(1) b'(1) True rds by (simp add: request_line_def Let_def add.commute del: cmp_at.simps)
        then show ?thesis using t(2) le by fastforce
      qed
    qed
  qed
qed

lemma request_text_safe: "major = 1 \<and> (minor = 0 \<or> minor = 1) \<or> major = 0 \<and> minor = 9 \<Longrightarrow> \<exists>t. request_text name target major minor = Some t"
proof -
  have p: "printf_d 0 = [48]" "printf_d 1 = [49]" "printf_d 9 = [57]" by (simp_all add: printf_d_def dec_digits.simps)
  assume "major = 1 \<and> (minor = 0 \<or> minor = 1) \<or> major = 0 \<and> minor = 9"
  then show ?thesis by (auto simp: request_text_def Let_def p version_lit)
qed

text \<open>The version of a request line that is not refused.\<close>

lemma version_accepted:
  assumes "refused_line ys major minor 0 (r + 9) = Some False" and "holds ys vs" and "r + 10 < length vs"
    and "take 5 (drop (r + 1) vs) = lit ''HTTP/''" and "major = sint (vs ! (r + 6)) - 48"
  shows "take 7 (drop (r + 1) vs) = lit ''HTTP/1.'' \<and> major = 1 \<and> minor \<le> 1 \<and> vs ! (r + 9) = 13"
proof -
  have n: "r + 9 - 2 = r + 7" by simp
  have rd7: "rd ys (r + 9 - 2) = Some (vs ! (r + 7))" unfolding n using holds_rd [OF assms(2), of "r + 7"] assms(3) by simp
  have e: "EOL1_P ys (r + 9) = Some (vs ! (r + 9) = 13 \<and> vs ! (r + 9 + 1) = 10)" using EOL1_holds [OF assms(2), of "r + 9"] assms(3) by simp
  have f: "major = 1" "minor \<le> 1" "vs ! (r + 7) = 46" "vs ! (r + 9) = 13"
    using assms(1) rd7 e by (auto simp: refused_line_def HTTP_MAJOR_VERSION_def split: if_splits)
  have "sint (vs ! (r + 6)) = sint (49 :: byte)" using assms(5) f(1) by simp
  then have six: "vs ! (r + 6) = 49" by (rule signed_word_eqI)
  have "take 7 (drop (r + 1) vs) = take 5 (drop (r + 1) vs) @ [vs ! (r + 6), vs ! (r + 7)]"
    using assms(3) by (simp add: take_Suc_conv_app_nth eval_nat_numeral)
  then show ?thesis using f six assms(4) by (simp add: lit_def)
qed

text \<open>A response routine that always returns and leaves the receive buffer alone.\<close>

definition responds :: "'w responder \<Rightarrow> bool" where
  "responds respond \<longleftrightarrow> keeps_input respond \<and> (\<forall>cb s h t f w. respond cb s h t f w \<noteq> None)"

lemma answer_request_safe:
  assumes "sk_recv_buffer sock = Some xs" "holds xs vs" "ends_at vs len" "responds respond"
    and request: "request = map Cell (name @ [0]) @ junk" and uri: "uri = map Cell (t @ [0]) @ junk'" "0 \<notin> set t"
    and refused: "refused_line xs major minor flag line = Some b"
    and ok: "\<not> b \<Longrightarrow> line + 4 \<le> len \<and> (major = 1 \<and> (minor = 0 \<or> minor = 1) \<or> major = 0 \<and> minor = 9)"
  shows "\<exists>ret s h w'. answer_request os respond sock http len request uri major minor flag line w = Some (ret, s, h, w')
    \<and> sk_recv_buffer s = sk_recv_buffer sock \<and> sk_recv_buffer_size s = sk_recv_buffer_size sock \<and> sk_recv_buffer_fill s = sk_recv_buffer_fill sock"
proof (cases b)
  case True
  then show ?thesis using assms(1) refused by (simp add: answer_request_def)
next
  case False
  obtain k http1 where p: "http_parse_property xs (line + 2) len http = Some (k, http1)"
    using parse_property_safe [OF assms(2,3), of "line + 2" http] ok [OF False] by auto
  obtain ub where u: "http_process_uri uri = Some ub" "c_text ub 0 = Some (cstr (uri_decode t))"
    using process_uri_text [OF uri(2), of junk'] by (auto simp: uri(1))
  have n: "c_text request 0 = Some (cstr name)" unfolding request by (rule c_text_start)
  obtain line1 where tx: "request_text (cstr name) (cstr (uri_decode t)) major minor = Some line1" using request_text_safe ok [OF False] by blast
  let ?h = "http1\<lparr>hs_timestamp := os_time os w, hs_request := Some line1\<rparr>" and ?target = "cstr (uri_decode t)"
  obtain m where m: "method_loop request http_request = Some m" using method_loop_table [of name junk] request by blast
  obtain cb f where cb: "(case m of Some cb \<Rightarrow> respond cb sock ?h ?target flag w | None \<Rightarrow> respond R_default sock ?h ?target 0 w) = respond cb sock ?h ?target f w"
    by (cases m) auto
  obtain s h w' where r: "respond cb sock ?h ?target f w = Some (s, h, w')"
    using assms(4) unfolding responds_def by (metis option.exhaust_sel prod_cases3)
  have "answer_request os respond sock http len request uri major minor flag line w = Some (0, s, h, w')"
    using False refused r p unfolding answer_request_def assms(1) by (simp add: u n tx m cb Let_def)
  moreover have "sk_recv_buffer s = sk_recv_buffer sock \<and> sk_recv_buffer_size s = sk_recv_buffer_size sock \<and> sk_recv_buffer_fill s = sk_recv_buffer_fill sock"
    using assms(4) r unfolding responds_def keeps_input_def by blast
  ultimately show ?thesis by blast
qed

definition version_ok :: "mem \<Rightarrow> nat \<Rightarrow> bool" where
  "version_ok vs len \<longleftrightarrow> (\<forall>i. i + 7 < len \<longrightarrow> take 7 (drop i vs) = lit ''HTTP/1.'' \<longrightarrow> 48 \<le> sint (vs ! (i + 7)))"

lemma refused_line_total:
  assumes "holds xs vs" "line + 1 < length vs"
  shows "\<exists>b. refused_line xs major minor flag line = Some b"
  using holds_rd [OF assms(1), of "line - 2"] EOL1_holds [OF assms] assms(2) by (auto simp: refused_line_def)

lemma ends_at_update: "ends_at vs len \<Longrightarrow> i < len - 4 \<Longrightarrow> ends_at (vs[i := v]) len"
  by (auto simp: ends_at_def)

text \<open>The positions in an accepted first line: the carriage return that ends it comes right behind the version.\<close>

lemma accepted_line:
  assumes "refused_line ys (sint (vs ! (r + 6)) - 48) (sint (vs ! (r + 8)) - 48) 0 (r + 9) = Some False" "holds ys (vs[r := 0])"
    and "r + 10 < length vs" "take 5 (drop (r + 1) vs) = lit ''HTTP/''" "take 7 (drop (r + 1) vs) = lit ''HTTP/1.'' \<longrightarrow> 48 \<le> sint (vs ! (r + 8))"
    and "r + 6 \<le> q" "vs ! q = 13" "\<forall>j. r \<le> j \<longrightarrow> j < q \<longrightarrow> vs ! j \<noteq> 13"
  shows "q = r + 9 \<and> sint (vs ! (r + 6)) - 48 = 1 \<and> (sint (vs ! (r + 8)) - 48 = 0 \<or> sint (vs ! (r + 8)) - 48 = 1)"
proof -
  have len: "r + 10 < length (vs[r := 0])" using assms(3) by simp
  have a: "take 7 (drop (r + 1) vs) = lit ''HTTP/1.''" "sint (vs ! (r + 6)) - 48 = 1" "sint (vs ! (r + 8)) - 48 \<le> 1" "vs ! (r + 9) = 13"
    using version_accepted [OF assms(1,2) len] assms(4) by (simp_all add: drop_update_cancel)
  have v: "48 \<le> sint (vs ! (r + 8))" using assms(5) a(1) by blast
  have nth: "drop (r + 1) vs ! k = vs ! (r + 1 + k)" for k using assms(3) by simp
  have "take 7 (drop (r + 1) vs) ! 5 = 49" "take 7 (drop (r + 1) vs) ! 6 = 46" unfolding a(1) by (simp_all add: lit_def)
  then have "vs ! (r + 6) = 49" "vs ! (r + 7) = 46" using nth [of 5] nth [of 6] by (simp_all add: add.commute)
  moreover have "vs ! (r + 8) \<noteq> 13" using v by auto
  ultimately have "q \<noteq> r + 6" "q \<noteq> r + 7" "q \<noteq> r + 8" using assms(7) by auto
  moreover have "\<not> r + 9 < q" using assms(8) a(4) by auto
  ultimately have "q = r + 9" using assms(6) by linarith
  then show ?thesis using a v by auto
qed

lemma accepted_safe:
  assumes h: "holds ys V" and fin: "ends_at V len" and q: "q \<le> len - 4" "V ! q = 13" "\<forall>j. r \<le> j \<longrightarrow> j < q \<longrightarrow> V ! j \<noteq> 13" and rq: "r < q"
    and v: "r + 8 < len \<longrightarrow> take 7 (drop (r + 1) V) = lit ''HTTP/1.'' \<longrightarrow> 48 \<le> sint (V ! (r + 8))"
    and c: "flag = HTTP_FLAG_SIMPLE \<and> major = 0 \<and> minor = 9 \<and> zs = ys \<and> line \<le> q
      \<or> flag = 0 \<and> zs = ys[r := Cell 0] \<and> r + 6 \<le> q \<and> take 5 (drop (r + 1) V) = lit ''HTTP/''
        \<and> major = sint (V ! (r + 6)) - 48 \<and> minor = sint (V ! (r + 8)) - 48 \<and> line = r + 9"
  shows "\<exists>zv b. holds zs zv \<and> length zs = length ys \<and> length zv = length V \<and> ends_at zv len
    \<and> refused_line zs major minor flag line = Some b
    \<and> (\<not> b \<longrightarrow> line + 4 \<le> len \<and> (major = 1 \<and> (minor = 0 \<or> minor = 1) \<or> major = 0 \<and> minor = 9))"
  using c
proof
  have len: "4 \<le> len" "len < length V" using fin by (auto simp: ends_at_def)
  assume s: "flag = HTTP_FLAG_SIMPLE \<and> major = 0 \<and> minor = 9 \<and> zs = ys \<and> line \<le> q"
  then have "line + 4 \<le> len" "line + 1 < length V" using q(1) len by linarith+
  moreover obtain b where "refused_line zs major minor flag line = Some b" using refused_line_total [OF h calculation(2)] s by blast
  ultimately show ?thesis using s h fin by blast
next
  have len: "4 \<le> len" "len < length V" using fin by (auto simp: ends_at_def)
  assume s: "flag = 0 \<and> zs = ys[r := Cell 0] \<and> r + 6 \<le> q \<and> take 5 (drop (r + 1) V) = lit ''HTTP/''
      \<and> major = sint (V ! (r + 6)) - 48 \<and> minor = sint (V ! (r + 8)) - 48 \<and> line = r + 9"
  then have l: "r + 10 < length V" "r + 8 < len" "r < length V" "r < len - 4" using q(1) len rq by linarith+
  have h2: "holds zs (V[r := 0])" using holds_update [OF h l(3)] s by blast
  obtain b where b: "refused_line zs major minor flag line = Some b" using refused_line_total [OF h2, of line major minor flag] s l(1) by auto
  have a: "q = r + 9 \<and> major = 1 \<and> (minor = 0 \<or> minor = 1)" if "\<not> b"
    using accepted_line [of zs V r q] b that s h2 l v q by auto
  have "\<not> b \<longrightarrow> line + 4 \<le> len \<and> (major = 1 \<and> (minor = 0 \<or> minor = 1) \<or> major = 0 \<and> minor = 9)"
  proof
    assume "\<not> b"
    moreover have "line + 4 \<le> len" if "q = r + 9" using that s q(1) len(1) by linarith
    ultimately show "line + 4 \<le> len \<and> (major = 1 \<and> (minor = 0 \<or> minor = 1) \<or> major = 0 \<and> minor = 9)" using a by blast
  qed
  then show ?thesis using s h2 b ends_at_update [OF fin l(4)] by (intro exI [of _ "V[r := 0]"] exI [of _ b]) simp
qed

lemma handle_request_safe:
  assumes buf: "sk_recv_buffer sock = Some xs" "holds xs vs" and fin: "ends_at vs len" and ver: "version_ok vs len" and resp: "responds respond"
  shows "\<exists>ret s h w' ys vs'. http_handle_request os respond sock http len w = Some (ret, s, h, w')
    \<and> sk_recv_buffer s = Some ys \<and> holds ys vs' \<and> length ys = length xs \<and> length vs' = length vs
    \<and> sk_recv_buffer_size s = sk_recv_buffer_size sock \<and> sk_recv_buffer_fill s = sk_recv_buffer_fill sock"
proof -
  have len: "4 \<le> len" "len < length vs" "vs ! (len - 4) = 13" using fin by (auto simp: ends_at_def)
  have l1: "len - 1 < length vs" using len by simp
  obtain p where p: "scan_to xs 32 0 (len - 1) = Some p" "p \<le> len - 1" "p < len - 1 \<longrightarrow> vs ! p = 32"
    using scan_to_safe [OF buf(2) _ l1, of 0 32] by auto
  have b: "rd xs (p + 1) = Some (vs ! (p + 1))" using holds_rd [OF buf(2)] p(2) len by simp
  show ?thesis
  proof (cases "vs ! (p + 1) = 47")
    case False
    then show ?thesis using buf p(1) b unfolding http_handle_request_def by auto
  next
    case slash: True
    let ?ys = "xs[p := Cell 0]" and ?vs = "vs[p := 0]"
    have pl: "p < length vs" "p \<noteq> len" "p \<le> len" using p(2) len by auto
    have w: "wr xs p (Cell 0) = Some ?ys" "holds ?ys ?vs" using holds_update [OF buf(2) pl(1)] pl holds_length [OF buf(2)] by (auto simp: wr_def)
    obtain name junk where rq: "strcpy_new ?ys 0 (p + 1) = Some (map Cell (name @ [0]) @ junk)"
      using strcpy_safe [OF w(2), of p 0] pl by auto
    obtain q where q: "scan_to ?ys 13 p len = Some q" "p \<le> q" "q \<le> len" "q < len \<longrightarrow> ?vs ! q = 13" "\<forall>j. p \<le> j \<longrightarrow> j < q \<longrightarrow> ?vs ! j \<noteq> 13"
      using scan_to_safe [OF w(2), of p len 13] len pl by auto
    show ?thesis
    proof (cases "q = len")
      case True
      then have "http_handle_request os respond sock http len w = Some (-1, sock\<lparr>sk_recv_buffer := Some ?ys\<rparr>, http, w)"
        using buf(1) p(1) b slash w(1) rq q(1) pl unfolding http_handle_request_def by (simp add: Let_def)
      then show ?thesis using w(2) by fastforce
    next
      case False
      then have q13: "q < len" "?vs ! q = 13" using q by auto
      then have pq: "p < q" using q(2) pl by (cases "p = q") auto
      then have p4: "p < len - 4" using before_end [OF fin, of p] p(2,3) q13(1) pl by (cases "p < len - 1") auto
      have q4: "q \<le> len - 4" using q(5) p4 len(3) by (metis less_le_not_le nat_le_linear nth_list_update_neq order_less_imp_le not_less)
      have end1: "ends_at ?vs len" using ends_at_update [OF fin p4] .
      obtain r where r: "scan_back ?ys q = Some r" "p \<le> r" "r \<le> q" "?vs ! r = 32 \<or> ?vs ! r = 0"
        using scan_back_safe [OF w(2), of q p] pl pq q13 len by auto
      have rq': "r < q" using r q13(2) by (cases "r = q") auto
      have q3: "q + 3 < length ?vs" using q4 len by simp
      have p0: "?vs ! p = 0" using pl by simp
      obtain res where res: "request_line (map Cell (name @ [0]) @ junk) ?ys (p + 1) r = Some res"
        "case res of Inl zs \<Rightarrow> zs = ?ys \<or> zs = ?ys[r := Cell 0]
         | Inr ((uri, major, minor, flag, line), zs) \<Rightarrow>
             (\<exists>t j. uri = map Cell (t @ [0]) @ j \<and> 0 \<notin> set t)
             \<and> (flag = HTTP_FLAG_SIMPLE \<and> major = 0 \<and> minor = 9 \<and> zs = ?ys \<and> line \<le> q
                \<or> flag = 0 \<and> zs = ?ys[r := Cell 0] \<and> r + 6 \<le> q \<and> take 5 (drop (r + 1) ?vs) = lit ''HTTP/''
                  \<and> major = sint (?vs ! (r + 6)) - 48 \<and> minor = sint (?vs ! (r + 8)) - 48 \<and> line = r + 9)"
        using request_line_safe [OF w(2) q3 q13(2) r(2) rq' p0 refl, of name junk] by blast
      have h2: "holds (?ys[r := Cell 0]) (?vs[r := 0])" using holds_update [OF w(2), of r 0] rq' q3 by simp
      have d: "drop (r + 1) ?vs = drop (r + 1) vs" using r(2) by (simp add: drop_update_cancel)
      show ?thesis
      proof (cases res)
        case (Inl zs)
        then have "http_handle_request os respond sock http len w = Some (-1, sock\<lparr>sk_recv_buffer := Some zs\<rparr>, http, w)"
          using buf(1) p(1) b slash w(1) rq q(1) pl False r(1) res(1) unfolding http_handle_request_def by (simp add: Let_def)
        moreover have "\<exists>vs'. holds zs vs' \<and> length zs = length xs \<and> length vs' = length vs" using res(2) w(2) h2 unfolding Inl by fastforce
        ultimately show ?thesis by fastforce
      next
        case (Inr a)
        obtain uri major minor flag line zs where a: "a = ((uri, major, minor, flag, line), zs)" by (metis prod.exhaust)
        let ?sock = "sock\<lparr>sk_recv_buffer := Some zs\<rparr>"
        have h: "http_handle_request os respond sock http len w
            = answer_request os respond ?sock http len (map Cell (name @ [0]) @ junk) uri major minor flag line w"
          using buf(1) p(1) b slash w(1) rq q(1) pl False r(1) res(1) unfolding http_handle_request_def Inr a by (simp add: Let_def)
        obtain t j where uri: "uri = map Cell (t @ [0]) @ j" "0 \<notin> set t" using res(2) unfolding Inr a by auto
        have c: "flag = HTTP_FLAG_SIMPLE \<and> major = 0 \<and> minor = 9 \<and> zs = ?ys \<and> line \<le> q
            \<or> flag = 0 \<and> zs = ?ys[r := Cell 0] \<and> r + 6 \<le> q \<and> take 5 (drop (r + 1) ?vs) = lit ''HTTP/''
              \<and> major = sint (?vs ! (r + 6)) - 48 \<and> minor = sint (?vs ! (r + 8)) - 48 \<and> line = r + 9"
          using res(2) unfolding Inr a by auto
        have rv: "r + 8 < len \<longrightarrow> take 7 (drop (r + 1) ?vs) = lit ''HTTP/1.'' \<longrightarrow> 48 \<le> sint (?vs ! (r + 8))"
        proof -
          have "r + 1 + 7 = r + 8" "?vs ! (r + 8) = vs ! (r + 8)" using r(2) by auto
          then show ?thesis using ver unfolding version_ok_def d by metis
        qed
        have nr: "\<forall>j. r \<le> j \<longrightarrow> j < q \<longrightarrow> ?vs ! j \<noteq> 13" using q(5) r(2) order_trans by blast
        obtain zv bb where zv: "holds zs zv" "length zs = length ?ys" "length zv = length ?vs" "ends_at zv len"
          "refused_line zs major minor flag line = Some bb"
          "\<not> bb \<longrightarrow> line + 4 \<le> len \<and> (major = 1 \<and> (minor = 0 \<or> minor = 1) \<or> major = 0 \<and> minor = 9)"
          using accepted_safe [OF w(2) end1 q4 q13(2) nr rq' rv c] by blast
        obtain ret s h' w' where "http_handle_request os respond sock http len w = Some (ret, s, h', w')"
            "sk_recv_buffer s = Some zs" "sk_recv_buffer_size s = sk_recv_buffer_size sock" "sk_recv_buffer_fill s = sk_recv_buffer_fill sock"
          using answer_request_safe [of ?sock zs zv len respond _ name junk uri t j major minor flag line bb os http w] zv resp uri h by auto
        then show ?thesis using zv(1-3) by auto
      qed
    qed
  qed
qed

lemma ends_at_eol2: "eol2_at vs p \<Longrightarrow> p + 4 < length vs \<Longrightarrow> ends_at vs (p + 4)"
proof -
  assume e: "eol2_at vs p" and l: "p + 4 < length vs"
  have "\<forall>k<4. vs ! (p + k) = [13, 10, 13, 10] ! k"
    using e l unfolding eol2_at_def by (metis add_leD1 less_imp_le_nat nth_drop nth_take)
  from this [rule_format, of 0] this [rule_format, of 1] this [rule_format, of 2] this [rule_format, of 3]
  show ?thesis using l by (simp add: ends_at_def numeral_2_eq_2 numeral_3_eq_3 add.commute)
qed



subsection \<open>What the two conditions exclude\<close>

lemma printf_negative: "i < 0 \<Longrightarrow> 2 \<le> length (printf_d i)"
proof -
  assume "i < 0"
  moreover have "dec_digits n \<noteq> []" for n by (subst dec_digits.simps) simp
  ultimately show ?thesis by (cases "dec_digits (nat (- i))") (auto simp: printf_d_def)
qed

lemma request_text_overflow: "minor < 0 \<Longrightarrow> request_text name target 1 minor = None"
proof -
  assume "minor < 0"
  then have "2 \<le> length (printf_d minor)" by (rule printf_negative)
  moreover have "printf_d 1 = [49]" by (simp add: printf_d_def dec_digits.simps)
  ultimately show ?thesis by (simp add: request_text_def Let_def version_lit)
qed

lemma colon_overread:
  "http_handle_request slow_os (\<lambda>cb s h t f w. Some (s, h, w)) (ex_input (lit ''GET / HTTP/1.0'' @ [13, 10, 65, 13, 10, 13, 10])) ex_http 21 [] = None"
  by code_simp

text \<open>
  C31. A client that sends a byte below the digits as the minor version, as in \<^verbatim>\<open>GET / HTTP/1./\<close>, makes the server write behind the end of a heap block: the
  version is the difference to the digit zero, a negative one is not refused, and the text of the request then needs more bytes than were allocated for
  single digits.
\<close>

theorem version_overflow:
  assumes "recv_rep sock (request_bytes m u d hs @ rest)" and "line_ok m u d hs" and "sint d < 48"
  shows "http_check_request os respond sock http w = None"
proof -
  let ?vs = "request_bytes m u d hs @ rest" and ?len = "length (request_bytes m u d hs)"
  obtain xs where xs: "sk_recv_buffer sock = Some xs" "holds xs ?vs" "sk_recv_buffer_fill sock = int (length ?vs)"
    using assms(1) by (auto simp: recv_rep_def buf_rep_def)
  obtain p where p: "?len = p + 4" "\<forall>i<p. \<not> eol2_at ?vs i" "eol2_at ?vs p" using request_end [OF assms(2)] by blast
  have le: "p + 4 \<le> length ?vs" using p(1) by simp
  have "request_text m (cstr (uri_decode u)) 1 (sint d - 48) = None" by (rule request_text_overflow) (use assms(3) in simp)
  then show ?thesis
    using check_request_found [OF xs le p(2,3), of os respond http w] unfolding p(1) [symmetric] handle_request_line [OF xs(1,2) assms(2)] by simp
qed

theorem version_overflow_witness:
  "http_check_request slow_os (\<lambda>cb s h t f w. Some (s, h, w)) (ex_input (lit ''GET / HTTP/1./'' @ [13, 10, 13, 10])) ex_http [] = None"
proof -
  have b: "lit ''GET / HTTP/1./'' @ [13, 10, 13, 10] = request_bytes (lit ''GET'') (lit ''/'') 47 [] @ []" by code_simp
  have ok: "line_ok (lit ''GET'') (lit ''/'') 47 []" by code_simp
  have d: "sint (47 :: byte) < 48" by simp
  show ?thesis unfolding b by (rule version_overflow [OF ex_input_rep ok d])
qed

end
