(* ===== verification/Http_Conn.thy ===== *)
theory Http_Conn
  imports Http_Request
begin

text \<open>
  Connections of the HTTP server: the callbacks that read a file into the send buffer and into the file cache, send the send buffer or a cached file, keep a connection
  alive and end it (\<^verbatim>\<open>http-server/http-proto.c\<close>, \<^verbatim>\<open>http-core.c\<close>, \<^verbatim>\<open>http-cache.c\<close>).

  The data of a connection (\<^verbatim>\<open>sock->data\<close>) is an argument beside the socket, the file cache another one. Files and the log are behind parameters; the callbacks a
  connection installs are names in the socket. The code is the one with \<^verbatim>\<open>sendfile\<close>.
\<close>

subsection \<open>The environment\<close>

record 'w http_env =
  he_os :: "'w os"
  he_read :: "int \<Rightarrow> nat \<Rightarrow> 'w \<Rightarrow> (int \<times> mem) \<times> 'w"
  he_close :: "int \<Rightarrow> 'w \<Rightarrow> int \<times> 'w"
  he_sendfile :: "int \<Rightarrow> int \<Rightarrow> int \<Rightarrow> int \<Rightarrow> 'w \<Rightarrow> (int \<times> int) \<times> 'w"
  he_cork :: "int \<Rightarrow> bool \<Rightarrow> 'w \<Rightarrow> 'w"
  he_log :: "svz_socket \<Rightarrow> http_socket \<Rightarrow> 'w \<Rightarrow> 'w option"
  he_cgi_died :: "svz_socket \<Rightarrow> http_socket \<Rightarrow> 'w \<Rightarrow> (int \<times> svz_socket \<times> http_socket \<times> 'w) option"
  he_block :: "cache_st \<Rightarrow> addr"
  he_rdns :: "svz_socket \<Rightarrow> 'w \<Rightarrow> 'w"
  he_ident :: "svz_socket \<Rightarrow> 'w \<Rightarrow> 'w"

type_synonym 'w http_result = "(int \<times> svz_socket \<times> http_socket \<times> cache_st \<times> 'w) option"

definition user_flag :: "svz_socket \<Rightarrow> u32 \<Rightarrow> bool" where
  "user_flag sock f \<longleftrightarrow> sk_userflags sock AND f \<noteq> 0"

subsection \<open>The end of a request and of a connection\<close>

function free_properties :: "mem option cell list \<Rightarrow> nat \<Rightarrow> unit option" where
  "free_properties property n =
     (if n < length property
      then do { t \<leftarrow> rd property n; case t of None \<Rightarrow> Some () | Some _ \<Rightarrow> free_properties property (n + 1) }
      else None)"
  by pat_completeness auto
termination
  by (relation "measure (\<lambda>(property, n). length property - n)") auto

declare free_properties.simps [simp del]

text \<open>The log entry, the texts of the request, the properties, the use of a cache entry, the file.\<close>

definition http_free_socket :: "'w http_env \<Rightarrow> svz_socket \<Rightarrow> http_socket \<Rightarrow> cache_st \<Rightarrow> 'w \<Rightarrow> (svz_socket \<times> http_socket \<times> cache_st \<times> 'w) option" where
  "http_free_socket env sock http st w = do {
     w \<leftarrow> he_log env sock http w;
     let http = http\<lparr>hs_request := None, hs_timestamp := 0, hs_response := 0, hs_length := 0\<rparr>;
     _ \<leftarrow> (case hs_property http of None \<Rightarrow> Some () | Some property \<Rightarrow> free_properties property 0);
     let http = http\<lparr>hs_property := None\<rparr>;
     st \<leftarrow> (if user_flag sock HTTP_FLAG_CACHE
            then do { c \<leftarrow> hs_cache http; a \<leftarrow> hc_entry c; cupd a (\<lambda>e. e\<lparr>ce_usage := ce_usage e - 1\<rparr>) st }
            else Some st);
     let http = http\<lparr>hs_cache := None\<rparr>;
     (if sk_file_desc sock \<noteq> -1
      then (let (_, w) = he_close env (sk_file_desc sock) w in Some (sock\<lparr>sk_file_desc := -1\<rparr>, http, st, w))
      else Some (sock, http, st, w))
   }"

text \<open>Afterwards \<^verbatim>\<open>sock->data\<close> is gone.\<close>

definition http_disconnect :: "'w http_env \<Rightarrow> svz_socket \<Rightarrow> http_socket \<Rightarrow> cache_st \<Rightarrow> 'w \<Rightarrow> (int \<times> svz_socket \<times> cache_st \<times> 'w) option" where
  "http_disconnect env sock http st w = do {
     (sock, http, st, w) \<leftarrow> http_free_socket env sock http st w;
     Some (0, sock, st, w)
   }"

text \<open>A connection that ends while it fills an entry takes the entry with it.\<close>

definition http_cache_disconnect :: "'w http_env \<Rightarrow> svz_socket \<Rightarrow> http_socket \<Rightarrow> cache_st \<Rightarrow> 'w \<Rightarrow> (int \<times> svz_socket \<times> cache_st \<times> 'w) option" where
  "http_cache_disconnect env sock http st w =
     (case hs_cache http of
        None \<Rightarrow> http_disconnect env sock http st w
      | Some c \<Rightarrow>
          (case hc_entry c of
             None \<Rightarrow> http_disconnect env sock http st w
           | Some a \<Rightarrow> do {
               e \<leftarrow> ch_heap st a;
               if ce_ready e = 0
               then do {
                 st \<leftarrow> http_cache_destroy_entry a st;
                 b \<leftarrow> block_start (hc_buffer c);
                 st \<leftarrow> free_block b st;
                 http_disconnect env sock (http\<lparr>hs_cache := Some (http_cache_reset c)\<rparr>) st w
               }
               else http_disconnect env sock http st w
             }))"

definition http_idle :: "'w http_env \<Rightarrow> int \<Rightarrow> svz_socket \<Rightarrow> http_socket \<Rightarrow> 'w \<Rightarrow> (int \<times> svz_socket \<times> http_socket \<times> 'w) option" where
  "http_idle env timeout sock http w =
     (let now = os_time (he_os env) w in
      if now - sk_last_recv sock > timeout \<and> now - sk_last_send sock > timeout then Some (-1, sock, http, w)
      else he_cgi_died env (sock\<lparr>sk_idle_counter := 1\<rparr>) http w)"

definition http_keep_alive :: "'w http_env \<Rightarrow> svz_socket \<Rightarrow> http_socket \<Rightarrow> cache_st \<Rightarrow> 'w \<Rightarrow> 'w http_result" where
  "http_keep_alive env sock http st w =
     (if user_flag sock HTTP_FLAG_KEEP
      then do {
        (sock, http, st, w) \<leftarrow> http_free_socket env sock http st w;
        Some (0, sock\<lparr>sk_userflags := sk_userflags sock AND NOT HTTP_FLAG, sk_read_socket := Some ''svz_tcp_read_socket'',
                   sk_check_request := CR_other ''http_check_request'', sk_write_socket := WS_other ''http_default_write'',
                   sk_send_buffer_fill := 0, sk_idle_func := Some ''http_idle''\<rparr>, http, st, w)
      }
      else Some (-1, sock, http, st, w))"

subsection \<open>Writing\<close>

definition http_send_file :: "'w http_env \<Rightarrow> svz_socket \<Rightarrow> http_socket \<Rightarrow> cache_st \<Rightarrow> 'w \<Rightarrow> 'w http_result" where
  "http_send_file env sock http st w =
     (let do_write = (if hs_filelength http > SVZ_SOCK_MAX_WRITE then SVZ_SOCK_MAX_WRITE else hs_filelength http);
          ((n, offset), w) = he_sendfile env (sk_sock_desc sock) (sk_file_desc sock) (hs_fileoffset http) do_write w;
          http = http\<lparr>hs_fileoffset := offset\<rparr>
      in
      if n < 0 then Some (-1, sock, http, st, w)
      else if n = 0 \<and> hs_filelength http \<noteq> 0 then Some (-1, sock, http, st, w)
      else (let http = http\<lparr>hs_filelength := hs_filelength http - n, hs_length := hs_length http + n\<rparr> in
        if hs_filelength http \<le> 0
        then do {
          let sock = sock\<lparr>sk_read_socket := Some ''svz_tcp_read_socket'', sk_recv_buffer_fill := 0, sk_send_buffer_fill := 0,
                          sk_write_socket := WS_other ''http_default_write'', sk_userflags := sk_userflags sock AND NOT HTTP_FLAG_SENDFILE\<rparr>;
          (n, sock, http, st, w) \<leftarrow> http_keep_alive env sock http st w;
          Some (if n < 0 then -1 else 0, sock, http, st, he_cork env (sk_sock_desc sock) False w)
        }
        else Some (0, sock, http, st, w)))"

text \<open>Sending as much of the send buffer as possible.\<close>

definition send_pending :: "'w http_env \<Rightarrow> svz_socket \<Rightarrow> 'w \<Rightarrow> (int \<times> svz_socket \<times> 'w) option" where
  "send_pending env sock w = do {
     bytes \<leftarrow> buf_read (sk_send_buffer sock) 0 (sk_send_buffer_fill sock);
     let (n, w) = os_send (he_os env) (sk_sock_desc sock) bytes w;
     if n > 0
     then do {
       let sock = sock\<lparr>sk_last_send := os_time (he_os env) w\<rparr>;
       sock \<leftarrow> (if sk_send_buffer_fill sock > n
                then do { xs \<leftarrow> buf_move (sk_send_buffer sock) 0 n (sk_send_buffer_fill sock - n); Some (sock\<lparr>sk_send_buffer := Some xs\<rparr>) }
                else Some sock);
       Some (n, sock\<lparr>sk_send_buffer_fill := sk_send_buffer_fill sock - n\<rparr>, w)
     }
     else if n < 0
     then (let (waiting, sock) = svz_wait_if_unavailable (he_os env) sock 1 w in Some (if waiting \<noteq> 0 then 0 else n, sock, w))
     else Some (n, sock, w)
   }"

definition http_default_write :: "'w http_env \<Rightarrow> svz_socket \<Rightarrow> http_socket \<Rightarrow> cache_st \<Rightarrow> 'w \<Rightarrow> 'w http_result" where
  "http_default_write env sock http st w = do {
     (n, sock, w) \<leftarrow> send_pending env sock w;
     (n, sock, http, st, w) \<leftarrow> (
       if user_flag sock HTTP_FLAG_DONE \<and> sk_send_buffer_fill sock = 0 then http_keep_alive env sock http st w
       else Some (n, sock, http, st, w));
     let sock = (
       if sk_send_buffer_fill sock = 0
       then (if user_flag sock HTTP_FLAG_CACHE
             then sock\<lparr>sk_send_buffer_fill := 42, sk_write_socket := WS_other ''http_cache_write''\<rparr>
             else if user_flag sock HTTP_FLAG_SENDFILE
             then sock\<lparr>sk_send_buffer_fill := 42, sk_write_socket := WS_other ''http_send_file''\<rparr>
             else sock)
       else sock);
     Some (if n < 0 then -1 else 0, sock, http, st, w)
   }"

text \<open>The cached bytes at a position; nothing is read when there are none to send.\<close>

definition cached_bytes :: "cache_st \<Rightarrow> (addr \<times> nat) option \<Rightarrow> int \<Rightarrow> mem option" where
  "cached_bytes st buffer n =
     (if n = 0 then Some []
      else if n < 0 then None
      else do { (b, i) \<leftarrow> buffer; xs \<leftarrow> ch_blocks st b; rd_range xs i (nat n) })"

definition cache_chunk :: "int \<Rightarrow> int" where
  "cache_chunk sz = (if sz > SVZ_SOCK_MAX_WRITE * 32 then SVZ_SOCK_MAX_WRITE * 32 else sz)"

definition http_cache_write :: "'w http_env \<Rightarrow> svz_socket \<Rightarrow> http_socket \<Rightarrow> cache_st \<Rightarrow> 'w \<Rightarrow> 'w http_result" where
  "http_cache_write env sock http st w = do {
     cache \<leftarrow> hs_cache http;
     _ \<leftarrow> hc_entry cache;
     bytes \<leftarrow> cached_bytes st (hc_buffer cache) (cache_chunk (hc_size cache));
     let (n, w) = os_send (he_os env) (sk_sock_desc sock) bytes w;
     let (n, sock, http) = (
       if n > 0
       then (n, sock\<lparr>sk_last_send := os_time (he_os env) w\<rparr>,
             http\<lparr>hs_cache := Some (cache\<lparr>hc_buffer := map_option (\<lambda>(b, i). (b, i + nat n)) (hc_buffer cache), hc_size := hc_size cache - n\<rparr>),
                  hs_length := hs_length http + n\<rparr>)
       else if n < 0
       then (let (waiting, sock) = svz_wait_if_unavailable (he_os env) sock 1 w in (if waiting \<noteq> 0 then 0 else n, sock, http))
       else (n, sock, http));
     cache \<leftarrow> hs_cache http;
     (n, sock, http, st, w) \<leftarrow> (
       if hc_size cache \<le> 0 then http_keep_alive env sock http st w else Some (n, sock, http, st, w));
     Some (if n < 0 then -1 else 0, sock, http, st, w)
   }"

subsection \<open>Reading files\<close>

definition file_done :: "svz_socket \<Rightarrow> svz_socket" where
  "file_done sock = clear_flag SVZ_SOFLG_FILE (sock\<lparr>sk_read_socket := Some ''svz_tcp_read_socket'', sk_userflags := sk_userflags sock OR HTTP_FLAG_DONE\<rparr>)"

definition http_file_read :: "'w http_env \<Rightarrow> svz_socket \<Rightarrow> http_socket \<Rightarrow> 'w \<Rightarrow> (int \<times> svz_socket \<times> http_socket \<times> 'w) option" where
  "http_file_read env sock http w =
     (let do_read = sk_send_buffer_size sock - sk_send_buffer_fill sock in
      if do_read \<le> 0 then Some (0, sock, http, w)
      else (let ((n, bytes), w) = he_read env (sk_file_desc sock) (nat do_read) w in
        if n < 0 then Some (-1, sock, http, w)
        else if n = 0 \<and> hs_filelength http \<noteq> 0 then Some (-1, sock, http, w)
        else do {
          xs \<leftarrow> buf_write (sk_send_buffer sock) (sk_send_buffer_fill sock) bytes;
          let sock = sock\<lparr>sk_send_buffer := Some xs, sk_send_buffer_fill := sk_send_buffer_fill sock + n\<rparr>;
          let http = http\<lparr>hs_filelength := hs_filelength http - n, hs_length := hs_length http + n\<rparr>;
          Some (0, if hs_filelength http \<le> 0 then file_done sock else sock, http, w)
        }))"

text \<open>\<^verbatim>\<open>svz_realloc\<close> of the cached contents, which may move, and the copy of the new bytes behind the old ones.\<close>

definition append_block :: "'w http_env \<Rightarrow> (addr \<times> nat) option \<Rightarrow> int \<Rightarrow> mem \<Rightarrow> cache_st \<Rightarrow> (addr \<times> cache_st) option" where
  "append_block env buffer sz bytes st = do {
     b \<leftarrow> block_start buffer;
     old \<leftarrow> (case b of None \<Rightarrow> Some [] | Some p \<Rightarrow> ch_blocks st p);
     st \<leftarrow> free_block b st;
     if sz < 0 then None
     else do {
       xs \<leftarrow> wr_range (realloc (nat sz + length bytes) old) (nat sz) bytes;
       let p = he_block env st;
       Some (p, st\<lparr>ch_blocks := (ch_blocks st)(p \<mapsto> xs)\<rparr>)
     }
   }"

text \<open>The contents become the entry's.\<close>

definition fill_entry :: "http_cache_t \<Rightarrow> cache_st \<Rightarrow> cache_st option" where
  "fill_entry cache st = do {
     a \<leftarrow> hc_entry cache;
     b \<leftarrow> block_start (hc_buffer cache);
     cupd a (\<lambda>e. e\<lparr>ce_size := hc_size cache, ce_buffer := b, ce_ready := 42\<rparr>) st
   }"

definition http_cache_read :: "'w http_env \<Rightarrow> svz_socket \<Rightarrow> http_socket \<Rightarrow> cache_st \<Rightarrow> 'w \<Rightarrow> 'w http_result" where
  "http_cache_read env sock http st w = do {
     cache \<leftarrow> hs_cache http;
     let do_read = sk_send_buffer_size sock - sk_send_buffer_fill sock;
     if do_read \<le> 0 then Some (0, sock, http, st, w)
     else (let ((n, bytes), w) = he_read env (sk_file_desc sock) (nat do_read) w in
       if n < 0
       then (if hc_size cache > 0
             then do {
               b \<leftarrow> block_start (hc_buffer cache);
               st \<leftarrow> free_block b st;
               Some (-1, sock, http\<lparr>hs_cache := Some (http_cache_reset cache)\<rparr>, st, w) }
             else Some (-1, sock, http, st, w))
       else do {
         (sock, http, cache, st) \<leftarrow> (
           if n > 0
           then do {
             xs \<leftarrow> buf_write (sk_send_buffer sock) (sk_send_buffer_fill sock) bytes;
             (p, st) \<leftarrow> append_block env (hc_buffer cache) (hc_size cache) bytes st;
             Some (sock\<lparr>sk_send_buffer := Some xs, sk_send_buffer_fill := sk_send_buffer_fill sock + n\<rparr>,
                   http\<lparr>hs_filelength := hs_filelength http - n, hs_length := hs_length http + n\<rparr>,
                   cache\<lparr>hc_buffer := Some (p, 0), hc_size := hc_size cache + n\<rparr>, st)
           }
           else Some (sock, http, cache, st));
         if n = 0 \<and> hs_filelength http \<noteq> 0
         then do { st \<leftarrow> fill_entry cache st; Some (-1, sock, http\<lparr>hs_cache := Some (http_cache_reset cache)\<rparr>, st, w) }
         else if hs_filelength http \<le> 0
         then do { st \<leftarrow> fill_entry cache st; Some (0, file_done sock, http\<lparr>hs_cache := Some (http_cache_reset cache)\<rparr>, st, w) }
         else Some (0, sock, http\<lparr>hs_cache := Some cache\<rparr>, st, w)
       })
   }"

subsection \<open>New connections\<close>

fun method_at :: "byte cell list \<Rightarrow> int \<Rightarrow> (mem \<times> response_cb) list \<Rightarrow> int option" where
  "method_at xs len [] = Some 0"
| "method_at xs len ((name, _) # rest) =
     (if len \<ge> int (length name)
      then do { e \<leftarrow> cmp_at xs 0 name; if e then Some (-1) else method_at xs len rest }
      else method_at xs len rest)"

definition http_detect_proto :: "svz_socket \<Rightarrow> int option" where
  "http_detect_proto sock = do { xs \<leftarrow> sk_recv_buffer sock; method_at xs (sk_recv_buffer_fill sock) http_request }"

text \<open>The parts of the configuration of a server that a new connection uses.\<close>

record http_conn_config =
  hcf_keepalive :: int
  hcf_nslookup :: bool
  hcf_ident :: bool

definition http_connect_socket :: "'w http_env \<Rightarrow> http_conn_config \<Rightarrow> svz_socket \<Rightarrow> 'w \<Rightarrow> int \<times> svz_socket \<times> http_socket \<times> 'w" where
  "http_connect_socket env cfg sock w =
     (let http = \<lparr>hs_cache = None, hs_property = None, hs_contentlength = 0, hs_filelength = 0, hs_keepalive = hcf_keepalive cfg,
                  hs_fileoffset = 0, hs_pid = -1, hs_timestamp = 0, hs_request = None, hs_host = None, hs_response = 0, hs_length = 0,
                  hs_ident = None, hs_auth = None, hs_range = \<lparr>hr_first = 0, hr_last = 0, hr_length = 0\<rparr>\<rparr>;
          w = (if hcf_nslookup cfg then he_rdns env sock w else w);
          w = (if hcf_ident cfg then he_ident env sock w else w)
      in (0, (set_flag SVZ_SOFLG_NOFLOOD sock)\<lparr>sk_check_request := CR_other ''http_check_request'', sk_write_socket := WS_other ''http_default_write'',
            sk_disconnected_socket := Some ''http_disconnect'', sk_idle_func := Some ''http_cgi_died'', sk_idle_counter := 1\<rparr>, http, w))"

subsection \<open>Files on their way to the client and into the cache\<close>

text \<open>
  What the code relies on of \<^verbatim>\<open>read\<close> and \<^verbatim>\<open>send\<close>: a call of \<^verbatim>\<open>read\<close> on the descriptor gives the bytes of the file \<open>F\<close> behind those read before, at most as many as asked for and
  none only at the end, or fails; \<open>pos\<close> is the position in the file and \<open>wire\<close> what was sent. Closing and logging do not touch the two.
\<close>

definition delivers :: "'w http_env \<Rightarrow> int \<Rightarrow> mem \<Rightarrow> ('w \<Rightarrow> mem) \<Rightarrow> ('w \<Rightarrow> nat) \<Rightarrow> bool" where
  "delivers env fd F wire pos \<longleftrightarrow> posix_send (he_os env) wire
     \<and> (\<forall>d bytes w. pos (snd (os_send (he_os env) d bytes w)) = pos w)
     \<and> (\<forall>n w r d w'. he_read env fd n w = ((r, d), w') \<longrightarrow> wire w' = wire w
          \<and> (r < 0 \<and> pos w' = pos w
             \<or> r = int (length d) \<and> length d \<le> n \<and> (d = [] \<longrightarrow> n = 0 \<or> length F \<le> pos w)
               \<and> d = take (length d) (drop (pos w) F) \<and> pos w' = pos w + length d))
     \<and> (\<forall>d w. wire (snd (he_close env d w)) = wire w \<and> pos (snd (he_close env d w)) = pos w)
     \<and> (\<forall>s h w. \<exists>w'. he_log env s h w = Some w' \<and> wire w' = wire w \<and> pos w' = pos w)"

lemma send_pending_stream:
  assumes "posix_send (he_os env) wire" "send_rep sock pend"
  shows "\<exists>n x b f u k bytes. send_pending env sock w
      = Some (n, sock\<lparr>sk_last_send := x, sk_send_buffer := b, sk_send_buffer_fill := f, sk_unavailable := u\<rparr>,
          snd (os_send (he_os env) (sk_sock_desc sock) bytes w))
    \<and> buf_rep b (sk_send_buffer_size sock) f (drop k pend) \<and> wire (snd (os_send (he_os env) (sk_sock_desc sock) bytes w)) = wire w @ take k pend"
proof -
  have rep: "buf_rep (sk_send_buffer sock) (sk_send_buffer_size sock) (sk_send_buffer_fill sock) pend" using assms(2) by (simp add: send_rep_def)
  have fill: "sk_send_buffer_fill sock = int (length pend)" using buf_rep_length [OF rep] by blast
  have rd: "buf_read (sk_send_buffer sock) 0 (sk_send_buffer_fill sock) = Some pend" using buf_read_rep [OF rep, of 0 "sk_send_buffer_fill sock"] fill by simp
  obtain n w1 where sd: "os_send (he_os env) (sk_sock_desc sock) pend w = (n, w1)" by fastforce
  have n: "n \<le> int (length pend)" "wire w1 = wire w @ take (nat n) pend"
    using assms(1) sd unfolding posix_send_def by (metis fst_conv, metis fst_conv snd_conv)
  show ?thesis
  proof (cases "n > 0")
    case True
    obtain xs where xs: "(if sk_send_buffer_fill sock > n then do { xs \<leftarrow> buf_move (sk_send_buffer sock) 0 n (sk_send_buffer_fill sock - n); Some (Some xs) }
        else Some (sk_send_buffer sock)) = Some xs" "buf_rep xs (sk_send_buffer_size sock) (sk_send_buffer_fill sock - n) (drop (nat n) pend)"
    proof (cases "sk_send_buffer_fill sock > n")
      case gt: True
      then obtain ys where "buf_move (sk_send_buffer sock) 0 n (sk_send_buffer_fill sock - n) = Some ys"
          "buf_rep (Some ys) (sk_send_buffer_size sock) (sk_send_buffer_fill sock - n) (drop (nat n) pend)"
        using buf_move_rep [OF rep, of n] True by auto
      then show ?thesis using that [of "Some ys"] gt by simp
    next
      case False
      then show ?thesis using that [of "sk_send_buffer sock"] rep n(1) fill by (auto simp: buf_rep_def)
    qed
    have "send_pending env sock w = Some (n, sock\<lparr>sk_last_send := os_time (he_os env) w1, sk_send_buffer := xs,
        sk_send_buffer_fill := sk_send_buffer_fill sock - n, sk_unavailable := sk_unavailable sock\<rparr>, w1)"
      using True xs(1) by (auto simp: send_pending_def rd sd split: if_splits)
    moreover have "w1 = snd (os_send (he_os env) (sk_sock_desc sock) pend w)" by (simp add: sd)
    ultimately show ?thesis using xs(2) n(2) by blast
  next
    case False
    define u where "u = (if n < 0 \<and> os_unavailable (he_os env) w1 then 1 + os_time (he_os env) w1 else sk_unavailable sock)"
    have "\<exists>m. send_pending env sock w = Some (m, sock\<lparr>sk_last_send := sk_last_send sock, sk_send_buffer := sk_send_buffer sock,
        sk_send_buffer_fill := sk_send_buffer_fill sock, sk_unavailable := u\<rparr>, w1)"
      using False by (auto simp: send_pending_def rd sd u_def svz_wait_if_unavailable_def)
    moreover have "w1 = snd (os_send (he_os env) (sk_sock_desc sock) pend w)" by (simp add: sd)
    moreover have "buf_rep (sk_send_buffer sock) (sk_send_buffer_size sock) (sk_send_buffer_fill sock) (drop 0 pend)" "wire w1 = wire w @ take 0 pend"
      using rep n(2) False by simp_all
    ultimately show ?thesis by blast
  qed
qed

text \<open>The blocks that entries own, and an allocator for blocks.\<close>

definition owned :: "cache_st \<Rightarrow> addr \<Rightarrow> bool" where
  "owned st q \<longleftrightarrow> (\<exists>a e. ch_heap st a = Some e \<and> ce_buffer e = Some q)"

definition fresh_block :: "'w http_env \<Rightarrow> bool" where
  "fresh_block env \<longleftrightarrow> (\<forall>st. finite (dom (ch_blocks st)) \<longrightarrow> ch_blocks st (he_block env st) = None)"

text \<open>A connection that has read \<open>c\<close> into the entry at \<open>a\<close>, which is not filled yet; an entry that is filled with \<open>c\<close>.\<close>

definition filling :: "cache_st \<Rightarrow> http_cache_t \<Rightarrow> addr \<Rightarrow> mem \<Rightarrow> bool" where
  "filling st cache a c \<longleftrightarrow> hc_entry cache = Some a \<and> (\<exists>e. ch_heap st a = Some e \<and> ce_ready e = 0) \<and> hc_size cache = int (length c)
     \<and> (case hc_buffer cache of None \<Rightarrow> c = []
        | Some (b, i) \<Rightarrow> i = 0 \<and> ch_blocks st b = Some (map Cell c) \<and> \<not> owned st b)"

definition filled :: "cache_st \<Rightarrow> addr \<Rightarrow> mem \<Rightarrow> bool" where
  "filled st a c \<longleftrightarrow> (\<exists>e b. ch_heap st a = Some e \<and> ce_ready e \<noteq> 0 \<and> ce_size e = int (length c) \<and> ce_buffer e = Some b \<and> ch_blocks st b = Some (map Cell c))"

lemma owned_block: "cache_inv st xs \<Longrightarrow> owned st q \<Longrightarrow> ch_blocks st q \<noteq> None"
  unfolding owned_def cache_inv_def entry_ok_def by (metis option.distinct(1) option.inject)

lemma blocks_inv:
  assumes "cache_inv st xs" "\<forall>q. owned st q \<longrightarrow> B q \<noteq> None"
  shows "cache_inv (st\<lparr>ch_blocks := B\<rparr>) xs"
proof -
  have "entry_ok B e" if "ch_heap st a = Some e" for a e
    using assms that unfolding cache_inv_def entry_ok_def owned_def by metis
  then show ?thesis using assms(1) by (simp add: cache_inv_def cchain_def table_ok_def file_of_def)
qed

lemma append_block_fill:
  assumes "cache_inv st xs" "filling st cache a c" "fresh_block env" "finite (dom (ch_blocks st))"
  shows "\<exists>p B. append_block env (hc_buffer cache) (hc_size cache) d st = Some (p, st\<lparr>ch_blocks := B\<rparr>) \<and> B p = Some (map Cell (c @ d))
    \<and> \<not> owned st p \<and> (\<forall>q. owned st q \<longrightarrow> B q = ch_blocks st q) \<and> finite (dom B)"
proof -
  have w: "wr_range (realloc (length c + length d) (map Cell c)) (length c) d = Some (map Cell (c @ d))"
    by (simp add: wr_range_def realloc_def)
  let ?go = "\<lambda>B0. (let p = he_block env (st\<lparr>ch_blocks := B0\<rparr>) in (p, st\<lparr>ch_blocks := B0(p \<mapsto> map Cell (c @ d))\<rparr>))"
  obtain B0 where B0: "append_block env (hc_buffer cache) (hc_size cache) d st = Some (?go B0)" "\<forall>q. owned st q \<longrightarrow> B0 q = ch_blocks st q" "finite (dom B0)"
  proof (cases "hc_buffer cache")
    case None
    then have "c = []" "hc_size cache = 0" using assms(2) by (auto simp: filling_def)
    then have "append_block env (hc_buffer cache) (hc_size cache) d st = Some (?go (ch_blocks st))"
      using w None by (simp add: append_block_def block_start_def free_block_def Let_def)
    then show ?thesis using that assms(4) by blast
  next
    case (Some bi)
    then obtain b where b: "hc_buffer cache = Some (b, 0)" "ch_blocks st b = Some (map Cell c)" "\<not> owned st b" "hc_size cache = int (length c)"
      using assms(2) by (cases bi) (auto simp: filling_def)
    then have "append_block env (hc_buffer cache) (hc_size cache) d st = Some (?go ((ch_blocks st)(b := None)))"
      using w by (simp add: append_block_def block_start_def free_block_def Let_def)
    moreover have "finite (dom ((ch_blocks st)(b := None)))" using assms(4) by simp
    moreover have "\<forall>q. owned st q \<longrightarrow> ((ch_blocks st)(b := None)) q = ch_blocks st q" using b(3) by auto
    ultimately show ?thesis using that by blast
  qed
  define p where "p = he_block env (st\<lparr>ch_blocks := B0\<rparr>)"
  have "finite (dom (ch_blocks (st\<lparr>ch_blocks := B0\<rparr>)))" using B0(3) by simp
  then have "ch_blocks (st\<lparr>ch_blocks := B0\<rparr>) p = None" using assms(3) unfolding fresh_block_def p_def by blast
  then have p: "B0 p = None" by simp
  have no: "\<not> owned st p" using p B0(2) owned_block [OF assms(1)] by metis
  have "append_block env (hc_buffer cache) (hc_size cache) d st = Some (p, st\<lparr>ch_blocks := B0(p \<mapsto> map Cell (c @ d))\<rparr>)"
    using B0(1) by (simp add: Let_def p_def)
  moreover have "\<forall>q. owned st q \<longrightarrow> (B0(p \<mapsto> map Cell (c @ d))) q = ch_blocks st q" using B0(2) no by auto
  ultimately show ?thesis using no B0(3) by (intro exI [of _ p] exI [of _ "B0(p \<mapsto> map Cell (c @ d))"]) simp
qed

lemma cseg_links:
  assumes "\<forall>x. map_option (\<lambda>e. (ce_prev e, ce_next e)) (h' x) = map_option (\<lambda>e. (ce_prev e, ce_next e)) (h x)"
  shows "cseg h' p xs n = cseg h p xs n"
proof (induction xs arbitrary: p)
  case (Cons a xs)
  have "(\<exists>e. h' a = Some e \<and> ce_prev e = p \<and> ce_next e = k) = (\<exists>e. h a = Some e \<and> ce_prev e = p \<and> ce_next e = k)" for k
    using assms [rule_format, of a] by (cases "h' a"; cases "h a") auto
  then show ?case using Cons by simp
qed simp

text \<open>An entry gets its contents.\<close>

lemma fill_entry_ok:
  assumes inv: "cache_inv st xs" and f: "filling st cache a c" and c: "c \<noteq> []"
  shows "\<exists>st'. fill_entry cache st = Some st' \<and> cache_inv st' xs \<and> filled st' a c \<and> ch_blocks st' = ch_blocks st"
proof -
  obtain e b where e: "hc_entry cache = Some a" "ch_heap st a = Some e" "ce_ready e = 0" "hc_size cache = int (length c)"
      "hc_buffer cache = Some (b, 0)" "ch_blocks st b = Some (map Cell c)" "\<not> owned st b"
    using f c unfolding filling_def by (auto split: option.splits)
  let ?e = "e\<lparr>ce_size := int (length c), ce_buffer := Some b, ce_ready := 42\<rparr>"
  let ?h = "(ch_heap st)(a \<mapsto> ?e)"
  let ?st = "st\<lparr>ch_heap := ?h\<rparr>"
  have "fill_entry cache st = Some ?st" using e by (simp add: fill_entry_def block_start_def cupd_def)
  moreover have "filled ?st a c" using e by (simp add: filled_def)
  moreover have "cache_inv ?st xs"
  proof -
    have c1: "cchain ?st xs" using inv cseg_links [of ?h "ch_heap st" None xs None] e(2) by (simp add: cache_inv_def cchain_def)
    have fo: "file_of ?st x = file_of st x" for x using e(2) by (simp add: file_of_def)
    have c2: "table_ok ?st (set xs)" using inv unfolding cache_inv_def table_ok_def fo by simp
    have c3: "ch_heap ?st x \<noteq> None \<longleftrightarrow> x \<in> set xs" for x using inv e(2) unfolding cache_inv_def by (metis cache_st.select_convs(5) cache_st.surjective cache_st.update_convs(5) fun_upd_apply option.distinct(1))
    have c4: "entry_ok (ch_blocks ?st) x" if "ch_heap ?st y = Some x" for x y
    proof (cases "y = a")
      case True
      then show ?thesis using that e(6) by (auto simp: entry_ok_def)
    next
      case False
      then have "ch_heap st y = Some x" using that by simp
      then show ?thesis using inv unfolding cache_inv_def by simp
    qed
    have c5: "y = z" if "ch_heap ?st y = Some u" "ch_heap ?st z = Some v" "ce_buffer u = Some q" "ce_buffer v = Some q" for y z u v q
    proof (cases "y = a \<or> z = a")
      case True
      then show ?thesis using that e(7) unfolding owned_def by (auto split: if_splits)
    next
      case False
      then have "ch_heap st y = Some u" "ch_heap st z = Some v" using that(1,2) by simp_all
      then show ?thesis using inv that(3,4) unfolding cache_inv_def by blast
    qed
    have le: "length xs \<le> ch_entries ?st" using inv by (simp add: cache_inv_def)
    show ?thesis
      unfolding cache_inv_def
    proof (intro conjI allI impI)
      fix y z u v q
      assume "ch_heap ?st y = Some u" "ch_heap ?st z = Some v" "ce_buffer u = Some q" "ce_buffer v = Some q"
      then show "y = z" by (rule c5)
    qed (rule c1 c2 le c3 | erule c4)+
  qed
  ultimately show ?thesis by (intro exI [of _ ?st]) simp
qed

subsection \<open>The steps of a connection that delivers a file\<close>

text \<open>The loop calls the reader while the connection reads a file and the writer while there is something to send, until one of them fails.\<close>

type_synonym 'w conn = "int \<times> svz_socket \<times> http_socket \<times> cache_st \<times> 'w"

inductive conn_step :: "'w http_env \<Rightarrow> 'w conn \<Rightarrow> 'w conn \<Rightarrow> bool" for env where
  conn_read: "sk_read_socket sock = Some ''http_cache_read'' \<Longrightarrow> http_cache_read env sock http st w = Some res \<Longrightarrow> conn_step env (0, sock, http, st, w) res"
| conn_write: "sk_send_buffer_fill sock > 0 \<Longrightarrow> http_default_write env sock http st w = Some res \<Longrightarrow> conn_step env (0, sock, http, st, w) res"

inductive_cases conn_stepE: "conn_step env c res"

text \<open>The file is \<open>F\<close>, the entry is at \<open>a\<close>, \<open>w0\<close> is what was sent or queued before the file.\<close>

definition conn_base :: "addr list \<Rightarrow> mem \<Rightarrow> ('w \<Rightarrow> mem) \<Rightarrow> ('w \<Rightarrow> nat) \<Rightarrow> mem \<Rightarrow> svz_socket \<Rightarrow> http_socket \<Rightarrow> cache_st \<Rightarrow> 'w \<Rightarrow> bool" where
  "conn_base xs F wire pos w0 sock http st w \<longleftrightarrow> cache_inv st xs \<and> finite (dom (ch_blocks st))
     \<and> (\<exists>pend. send_rep sock pend \<and> wire w @ pend = w0 @ take (pos w) F)
     \<and> \<not> user_flag sock HTTP_FLAG_CACHE \<and> \<not> user_flag sock HTTP_FLAG_SENDFILE
     \<and> (case hs_property http of None \<Rightarrow> True | Some property \<Rightarrow> free_properties property 0 \<noteq> None)"

definition conn_reading :: "int \<Rightarrow> mem \<Rightarrow> addr \<Rightarrow> ('w \<Rightarrow> nat) \<Rightarrow> svz_socket \<Rightarrow> http_socket \<Rightarrow> cache_st \<Rightarrow> 'w \<Rightarrow> bool" where
  "conn_reading fd F a pos sock http st w \<longleftrightarrow> sk_read_socket sock = Some ''http_cache_read'' \<and> sk_file_desc sock = fd \<and> \<not> user_flag sock HTTP_FLAG_DONE
     \<and> pos w < length F \<and> hs_filelength http = int (length F) - int (pos w)
     \<and> (\<exists>cache. hs_cache http = Some cache \<and> filling st cache a (take (pos w) F))"

definition conn_stored :: "mem \<Rightarrow> addr \<Rightarrow> ('w \<Rightarrow> nat) \<Rightarrow> svz_socket \<Rightarrow> cache_st \<Rightarrow> 'w \<Rightarrow> bool" where
  "conn_stored F a pos sock st w \<longleftrightarrow> sk_read_socket sock \<noteq> Some ''http_cache_read'' \<and> pos w = length F \<and> filled st a F"

definition conn_failed :: "addr \<Rightarrow> int \<Rightarrow> svz_socket \<Rightarrow> cache_st \<Rightarrow> bool" where
  "conn_failed a ret sock st \<longleftrightarrow> ret = -1 \<and> sk_read_socket sock = Some ''http_cache_read'' \<and> (\<exists>e. ch_heap st a = Some e \<and> ce_ready e = 0)"

fun conn_inv :: "int \<Rightarrow> mem \<Rightarrow> addr \<Rightarrow> addr list \<Rightarrow> ('w \<Rightarrow> mem) \<Rightarrow> ('w \<Rightarrow> nat) \<Rightarrow> mem \<Rightarrow> 'w conn \<Rightarrow> bool" where
  "conn_inv fd F a xs wire pos w0 (ret, sock, http, st, w) \<longleftrightarrow> conn_base xs F wire pos w0 sock http st w
     \<and> (conn_reading fd F a pos sock http st w \<and> ret = 0 \<or> conn_stored F a pos sock st w \<or> conn_failed a ret sock st)"

lemma filling_entry: "filling st cache a c \<Longrightarrow> \<exists>e. ch_heap st a = Some e \<and> ce_ready e = 0"
  by (auto simp: filling_def)

lemma file_done_simps [simp]:
  "send_rep (file_done sock) = send_rep sock" "sk_read_socket (file_done sock) = Some ''svz_tcp_read_socket''"
  by (auto simp: file_done_def clear_flag_def send_rep_def fun_eq_iff)

lemma file_done_flags:
  "user_flag (file_done sock) HTTP_FLAG_CACHE = user_flag sock HTTP_FLAG_CACHE" "user_flag (file_done sock) HTTP_FLAG_SENDFILE = user_flag sock HTTP_FLAG_SENDFILE"
proof -
  have "(HTTP_FLAG_DONE :: u32) AND HTTP_FLAG_CACHE = 0" "(HTTP_FLAG_DONE :: u32) AND HTTP_FLAG_SENDFILE = 0"
    by (simp_all add: HTTP_FLAG_DONE_def HTTP_FLAG_CACHE_def HTTP_FLAG_SENDFILE_def)
  then show "user_flag (file_done sock) HTTP_FLAG_CACHE = user_flag sock HTTP_FLAG_CACHE" "user_flag (file_done sock) HTTP_FLAG_SENDFILE = user_flag sock HTTP_FLAG_SENDFILE"
    by (simp_all add: user_flag_def file_done_def clear_flag_def or_disjoint)
qed

text \<open>Reading.\<close>

lemma read_error_keeps:
  assumes "conn_base xs F wire pos w0 sock http st w" "hs_cache http = Some cache" "filling st cache a c" "wire w' = wire w" "pos w' = pos w"
  shows "\<exists>http' st'. (if hc_size cache > 0
      then do { b \<leftarrow> block_start (hc_buffer cache); st \<leftarrow> free_block b st; Some (-1, sock, http\<lparr>hs_cache := Some (http_cache_reset cache)\<rparr>, st, w') }
      else Some (-1, sock, http, st, w')) = Some (-1, sock, http', st', w') \<and> conn_base xs F wire pos w0 sock http' st' w' \<and> ch_heap st' = ch_heap st"
proof (cases "hc_size cache > 0")
  case False
  then show ?thesis using assms by (auto simp: conn_base_def)
next
  case True
  then obtain b where b: "hc_buffer cache = Some (b, 0)" "ch_blocks st b = Some (map Cell c)" "\<not> owned st b"
    using assms(3) by (auto simp: filling_def split: option.splits)
  let ?st = "st\<lparr>ch_blocks := (ch_blocks st)(b := None)\<rparr>"
  have inv: "cache_inv st xs" using assms(1) by (simp add: conn_base_def)
  have "\<forall>q. owned st q \<longrightarrow> ((ch_blocks st)(b := None)) q \<noteq> None" using owned_block [OF inv] b(3) by auto
  then have ci: "cache_inv ?st xs" by (rule blocks_inv [OF inv])
  show ?thesis using True b assms(1,4,5) by (simp add: block_start_def free_block_def conn_base_def ci)
qed

lemma read_data:
  assumes base: "conn_base xs F wire pos w0 sock http st w" and cache: "hs_cache http = Some cache" "filling st cache a (take (pos w) F)"
    and fresh: "fresh_block env" and d: "d = take (length d) (drop (pos w) F)" "length d \<le> nat (sk_send_buffer_size sock - sk_send_buffer_fill sock)" "d \<noteq> []"
    and w': "wire w' = wire w" "pos w' = pos w + length d" and pos: "pos w < length F"
  shows "\<exists>ys p st1. buf_write (sk_send_buffer sock) (sk_send_buffer_fill sock) d = Some ys
     \<and> append_block env (hc_buffer cache) (hc_size cache) d st = Some (p, st1)
     \<and> filling st1 (cache\<lparr>hc_buffer := Some (p, 0), hc_size := hc_size cache + int (length d)\<rparr>) a (take (pos w') F)
     \<and> conn_base xs F wire pos w0 (sock\<lparr>sk_send_buffer := Some ys, sk_send_buffer_fill := sk_send_buffer_fill sock + int (length d)\<rparr>) http st1 w'"
proof -
  have t: "take (pos w') F = take (pos w) F @ d" using d(1) unfolding w'(2) by (metis take_add)
  have inv: "cache_inv st xs" "finite (dom (ch_blocks st))" using base by (simp_all add: conn_base_def)
  obtain pend where pend: "send_rep sock pend" "wire w @ pend = w0 @ take (pos w) F" using base by (auto simp: conn_base_def)
  have rep: "buf_rep (sk_send_buffer sock) (sk_send_buffer_size sock) (sk_send_buffer_fill sock) pend" using pend(1) by (simp add: send_rep_def)
  have "int (length pend + length d) \<le> sk_send_buffer_size sock" using buf_rep_length [OF rep] d(2) by linarith
  from buf_write_rep [OF rep this] obtain ys where ys: "buf_write (sk_send_buffer sock) (sk_send_buffer_fill sock) d = Some ys"
      "buf_rep (Some ys) (sk_send_buffer_size sock) (sk_send_buffer_fill sock + int (length d)) (pend @ d)" by blast
  obtain p B where B: "append_block env (hc_buffer cache) (hc_size cache) d st = Some (p, st\<lparr>ch_blocks := B\<rparr>)" "B p = Some (map Cell (take (pos w) F @ d))"
      "\<not> owned st p" "\<forall>q. owned st q \<longrightarrow> B q = ch_blocks st q" "finite (dom B)"
    using append_block_fill [OF inv(1) cache(2) fresh inv(2)] by blast
  have "\<forall>q. owned st q \<longrightarrow> B q \<noteq> None" using B(4) owned_block [OF inv(1)] by simp
  then have ci: "cache_inv (st\<lparr>ch_blocks := B\<rparr>) xs" by (rule blocks_inv [OF inv(1)])
  have "filling (st\<lparr>ch_blocks := B\<rparr>) (cache\<lparr>hc_buffer := Some (p, 0), hc_size := hc_size cache + int (length d)\<rparr>) a (take (pos w') F)"
    using cache(2) B(2,3) unfolding t by (simp add: filling_def owned_def)
  moreover have "conn_base xs F wire pos w0 (sock\<lparr>sk_send_buffer := Some ys, sk_send_buffer_fill := sk_send_buffer_fill sock + int (length d)\<rparr>) http (st\<lparr>ch_blocks := B\<rparr>) w'"
  proof -
    have "\<exists>pend. buf_rep (Some ys) (sk_send_buffer_size sock) (sk_send_buffer_fill sock + int (length d)) pend \<and> wire w' @ pend = w0 @ take (pos w') F"
      using ys(2) pend(2) unfolding t w'(1) by (metis append.assoc)
    then show ?thesis using base ci B(5) by (simp add: conn_base_def send_rep_def user_flag_def)
  qed
  ultimately show ?thesis using ys(1) B(1) by blast
qed

lemma conn_read_step:
  assumes del: "delivers env fd F wire pos" and fresh: "fresh_block env" and base: "conn_base xs F wire pos w0 sock http st w"
    and rdg: "conn_reading fd F a pos sock http st w"
  shows "\<exists>res. http_cache_read env sock http st w = Some res \<and> conn_inv fd F a xs wire pos w0 res"
proof -
  obtain cache where c: "hs_cache http = Some cache" "filling st cache a (take (pos w) F)" using rdg by (auto simp: conn_reading_def)
  have fl: "hs_filelength http = int (length F) - int (pos w)" "pos w < length F" "sk_file_desc sock = fd" "sk_read_socket sock = Some ''http_cache_read''"
    using rdg by (auto simp: conn_reading_def)
  let ?n = "sk_send_buffer_size sock - sk_send_buffer_fill sock"
  show ?thesis
  proof (cases "?n \<le> 0")
    case True
    then show ?thesis using c base rdg by (simp add: http_cache_read_def)
  next
    case room: False
    obtain r d w' where rd: "he_read env fd (nat ?n) w = ((r, d), w')" by (metis prod.exhaust)
    then have w': "wire w' = wire w" and r: "r < 0 \<and> pos w' = pos w \<or> r = int (length d) \<and> length d \<le> nat ?n \<and> (d = [] \<longrightarrow> nat ?n = 0 \<or> length F \<le> pos w)
        \<and> d = take (length d) (drop (pos w) F) \<and> pos w' = pos w + length d"
      using del unfolding delivers_def by blast+
    show ?thesis
    proof (cases "r < 0")
      case True
      then have "pos w' = pos w" using r by auto
      from read_error_keeps [OF base c w' this] obtain http' st' where "http_cache_read env sock http st w = Some (-1, sock, http', st', w')"
          "conn_base xs F wire pos w0 sock http' st' w'" "ch_heap st' = ch_heap st"
        using True room rd c(1) fl(3) by (auto simp: http_cache_read_def)
      then show ?thesis using fl(4) filling_entry [OF c(2)] by (simp add: conn_failed_def)
    next
      case False
      then have d: "r = int (length d)" "length d \<le> nat ?n" "d = take (length d) (drop (pos w) F)" "pos w' = pos w + length d" "d \<noteq> []"
        using r room fl(2) by auto
      obtain ys p st1 where e: "buf_write (sk_send_buffer sock) (sk_send_buffer_fill sock) d = Some ys"
          "append_block env (hc_buffer cache) (hc_size cache) d st = Some (p, st1)"
          "filling st1 (cache\<lparr>hc_buffer := Some (p, 0), hc_size := hc_size cache + int (length d)\<rparr>) a (take (pos w') F)"
          "conn_base xs F wire pos w0 (sock\<lparr>sk_send_buffer := Some ys, sk_send_buffer_fill := sk_send_buffer_fill sock + int (length d)\<rparr>) http st1 w'"
        using read_data [OF base c fresh d(3,2,5) w' d(4) fl(2)] by blast
      let ?c = "cache\<lparr>hc_buffer := Some (p, 0), hc_size := hc_size cache + int (length d)\<rparr>"
      let ?s = "sock\<lparr>sk_send_buffer := Some ys, sk_send_buffer_fill := sk_send_buffer_fill sock + int (length d)\<rparr>"
      let ?h = "http\<lparr>hs_filelength := hs_filelength http - int (length d), hs_length := hs_length http + int (length d)\<rparr>"
      have ln: "int (length d) \<noteq> 0" "0 < int (length d)" using d(5) by simp_all
      have le: "pos w' \<le> length F" using d(3,4) fl(2) by (metis add_le_mono1 drop_drop le_add_diff_inverse2 length_drop length_take min.cobounded1 min.absorb_iff2 nat_add_left_cancel_le add.commute less_imp_le_nat)
      show ?thesis
      proof (cases "pos w' < length F")
        case True
        then have "\<not> hs_filelength ?h \<le> 0" using fl(1) d(4) by simp
        then have "http_cache_read env sock http st w = Some (0, ?s, ?h\<lparr>hs_cache := Some ?c\<rparr>, st1, w')"
          using room rd c(1) fl(3) d(1) ln e(1,2) by (simp add: http_cache_read_def)
        moreover have "conn_reading fd F a pos ?s (?h\<lparr>hs_cache := Some ?c\<rparr>) st1 w'"
          using rdg e(3) True d(4) by (simp add: conn_reading_def user_flag_def)
        moreover have "conn_base xs F wire pos w0 ?s (?h\<lparr>hs_cache := Some ?c\<rparr>) st1 w'" using e(4) by (simp add: conn_base_def)
        ultimately show ?thesis by auto
      next
        case False
        then have F: "take (pos w') F = F" "pos w' = length F" using le by simp_all
        have Fne: "F \<noteq> []" using fl(2) by auto
        have fF: "filling st1 ?c a F" "cache_inv st1 xs" using e(3) F(1) e(4) by (simp_all add: conn_base_def)
        obtain st2 where f: "fill_entry ?c st1 = Some st2" "cache_inv st2 xs" "filled st2 a F" "ch_blocks st2 = ch_blocks st1"
          using fill_entry_ok [OF fF(2,1) Fne] by blast
        have "hs_filelength ?h \<le> 0" using fl(1) d(4) F(2) by simp
        then have "http_cache_read env sock http st w = Some (0, file_done ?s, ?h\<lparr>hs_cache := Some (http_cache_reset ?c)\<rparr>, st2, w')"
          using room rd c(1) fl(3) d(1) ln e(1,2) f(1) by (simp add: http_cache_read_def)
        moreover have "conn_base xs F wire pos w0 (file_done ?s) (?h\<lparr>hs_cache := Some (http_cache_reset ?c)\<rparr>) st2 w'"
          using e(4) f(2,4) by (simp add: conn_base_def file_done_flags)
        ultimately show ?thesis using f(3) F(2) by (auto simp: conn_stored_def)
      qed
    qed
  qed
qed

text \<open>Writing.\<close>

lemma free_socket_keeps:
  assumes del: "delivers env fd F wire pos" and base: "conn_base xs F wire pos w0 sock http st w"
  shows "\<exists>sock' http' w'. http_free_socket env sock http st w = Some (sock', http', st, w') \<and> wire w' = wire w \<and> pos w' = pos w
    \<and> (sock' = sock \<or> sock' = sock\<lparr>sk_file_desc := -1\<rparr>) \<and> hs_property http' = None"
proof -
  obtain w1 where w1: "he_log env sock http w = Some w1" "wire w1 = wire w" "pos w1 = pos w" using del unfolding delivers_def by blast
  obtain r w2 where cl: "he_close env (sk_file_desc sock) w1 = (r, w2)" by fastforce
  then have w2: "wire w2 = wire w" "pos w2 = pos w" using del w1(2,3) unfolding delivers_def by (metis snd_conv)+
  have p: "(case hs_property http of None \<Rightarrow> Some () | Some property \<Rightarrow> free_properties property 0) = Some ()"
    using base by (auto simp: conn_base_def split: option.splits)
  have "\<not> user_flag sock HTTP_FLAG_CACHE" using base by (simp add: conn_base_def)
  then show ?thesis using w1 w2 cl p by (cases "sk_file_desc sock = -1") (simp_all add: http_free_socket_def Let_def)
qed

lemma conn_write_base:
  assumes base: "conn_base xs F wire pos w0 sock http st w" and rep: "buf_rep b (sk_send_buffer_size sock) f (drop k pend)"
    and pend: "send_rep sock pend" "wire w @ pend = w0 @ take (pos w) F" and w': "wire w' = wire w @ take k pend" "pos w' = pos w"
  shows "conn_base xs F wire pos w0 (sock\<lparr>sk_last_send := x, sk_send_buffer := b, sk_send_buffer_fill := f, sk_unavailable := u\<rparr>) http st w'"
proof -
  have "wire w' @ drop k pend = w0 @ take (pos w') F" using pend(2) w' by simp
  then show ?thesis using base rep by (auto simp: conn_base_def send_rep_def user_flag_def)
qed

lemma keep_alive_step:
  assumes del: "delivers env fd F wire pos" and base: "conn_base xs F wire pos w0 sock http st w" and st: "conn_stored F a pos sock st w"
    and empty: "sk_send_buffer_fill sock = 0"
  shows "\<exists>n sock' http' w'. http_keep_alive env sock http st w = Some (n, sock', http', st, w') \<and> sk_send_buffer_fill sock' = 0
    \<and> conn_base xs F wire pos w0 sock' http' st w' \<and> conn_stored F a pos sock' st w'"
proof (cases "user_flag sock HTTP_FLAG_KEEP")
  case False
  then show ?thesis using base st empty by (simp add: http_keep_alive_def)
next
  case True
  obtain s1 h1 w1 where f: "http_free_socket env sock http st w = Some (s1, h1, st, w1)" "wire w1 = wire w" "pos w1 = pos w"
      "s1 = sock \<or> s1 = sock\<lparr>sk_file_desc := -1\<rparr>" "hs_property h1 = None"
    using free_socket_keeps [OF del base] by blast
  let ?s = "s1\<lparr>sk_userflags := sk_userflags s1 AND NOT HTTP_FLAG, sk_read_socket := Some ''svz_tcp_read_socket'',
       sk_check_request := CR_other ''http_check_request'', sk_write_socket := WS_other ''http_default_write'',
       sk_send_buffer_fill := 0, sk_idle_func := Some ''http_idle''\<rparr>"
  have k: "http_keep_alive env sock http st w = Some (0, ?s, h1, st, w1)" using True f(1) by (simp add: http_keep_alive_def)
  have fl: "NOT HTTP_FLAG AND HTTP_FLAG_CACHE = 0" "NOT HTTP_FLAG AND HTTP_FLAG_SENDFILE = 0"
    by (simp_all add: HTTP_FLAG_def HTTP_FLAG_CACHE_def HTTP_FLAG_SENDFILE_def HTTP_FLAG_DONE_def HTTP_FLAG_POST_def HTTP_FLAG_CGI_def HTTP_FLAG_KEEP_def
      HTTP_FLAG_PARTIAL_def)
  have flags: "\<not> user_flag ?s HTTP_FLAG_CACHE" "\<not> user_flag ?s HTTP_FLAG_SENDFILE" using fl by (simp_all add: user_flag_def and.assoc)
  obtain pend where pend: "send_rep sock pend" "wire w @ pend = w0 @ take (pos w) F" using base by (auto simp: conn_base_def)
  have e: "pend = []" using pend(1) empty buf_rep_length unfolding send_rep_def by fastforce
  have "send_rep ?s []" using pend(1) f(4) unfolding e send_rep_def buf_rep_def by auto
  then have "conn_base xs F wire pos w0 ?s h1 st w1" using base flags f pend(2) unfolding e conn_base_def by auto
  moreover have "conn_stored F a pos ?s st w1" using st f(3) by (simp add: conn_stored_def)
  ultimately show ?thesis using k by auto
qed

lemma conn_write_step:
  assumes del: "delivers env fd F wire pos" and base: "conn_base xs F wire pos w0 sock http st w"
    and ph: "conn_reading fd F a pos sock http st w \<or> conn_stored F a pos sock st w"
  shows "\<exists>res. http_default_write env sock http st w = Some res \<and> conn_inv fd F a xs wire pos w0 res"
proof -
  obtain pend where pend: "send_rep sock pend" "wire w @ pend = w0 @ take (pos w) F" using base by (auto simp: conn_base_def)
  have ps: "posix_send (he_os env) wire" using del by (simp add: delivers_def)
  obtain n x b f u k w1 bytes where s: "send_pending env sock w = Some (n, sock\<lparr>sk_last_send := x, sk_send_buffer := b, sk_send_buffer_fill := f, sk_unavailable := u\<rparr>, w1)"
      "w1 = snd (os_send (he_os env) (sk_sock_desc sock) bytes w)" "buf_rep b (sk_send_buffer_size sock) f (drop k pend)" "wire w1 = wire w @ take k pend"
    using send_pending_stream [OF ps pend(1), of w] by blast
  have pw: "pos w1 = pos w" using del s(2) by (simp add: delivers_def)
  define S where "S = sock\<lparr>sk_last_send := x, sk_send_buffer := b, sk_send_buffer_fill := f, sk_unavailable := u\<rparr>"
  have S: "send_pending env sock w = Some (n, S, w1)" "sk_send_buffer_fill S = f" "sk_read_socket S = sk_read_socket sock" "sk_file_desc S = sk_file_desc sock"
      "sk_userflags S = sk_userflags sock"
    using s(1) by (simp_all add: S_def)
  have base1: "conn_base xs F wire pos w0 S http st w1" unfolding S_def using conn_write_base [OF base s(3) pend s(4) pw] .
  have nf: "\<not> user_flag s' HTTP_FLAG_CACHE" "\<not> user_flag s' HTTP_FLAG_SENDFILE" if "conn_base xs F wire pos w0 s' h' st' w'" for s' h' st' w'
    using that by (simp_all add: conn_base_def)
  show ?thesis
  proof (cases "user_flag S HTTP_FLAG_DONE \<and> f = 0")
    case True
    then have "conn_stored F a pos S st w1" using ph pw S by (auto simp: conn_reading_def conn_stored_def user_flag_def)
    from keep_alive_step [OF del base1 this] True S(2) obtain m s2 h2 w2 where k: "http_keep_alive env S http st w1 = Some (m, s2, h2, st, w2)"
        "conn_base xs F wire pos w0 s2 h2 st w2" "conn_stored F a pos s2 st w2" by auto
    have "http_default_write env sock http st w = Some (if m < 0 then -1 else 0, s2, h2, st, w2)"
      using True S(1,2) k(1) nf [OF k(2)] by (simp add: http_default_write_def)
    then show ?thesis using k(2,3) by simp
  next
    case False
    have c: "(user_flag S HTTP_FLAG_DONE \<and> sk_send_buffer_fill S = 0) = False" using False S(2) by simp
    have r: "http_default_write env sock http st w = Some (if n < 0 then -1 else 0, S, http, st, w1)"
      unfolding http_default_write_def S(1) by (simp add: c nf [OF base1])
    show ?thesis
      using ph
    proof
      assume "conn_stored F a pos sock st w"
      then show ?thesis using r base1 pw S by (auto simp: conn_stored_def)
    next
      assume p: "conn_reading fd F a pos sock http st w"
      then have "conn_reading fd F a pos S http st w1" "\<exists>e. ch_heap st a = Some e \<and> ce_ready e = 0"
        using pw S filling_entry by (auto simp: conn_reading_def user_flag_def)
      then show ?thesis using r base1 by (auto simp: conn_failed_def conn_reading_def)
    qed
  qed
qed

lemma conn_inv_step:
  assumes "delivers env fd F wire pos" "fresh_block env" "conn_step env c res" "conn_inv fd F a xs wire pos w0 c"
  shows "conn_inv fd F a xs wire pos w0 res"
  using assms(3)
proof (rule conn_stepE)
  fix sock http st w assume c: "c = (0, sock, http, st, w)" and r: "sk_read_socket sock = Some ''http_cache_read''" "http_cache_read env sock http st w = Some res"
  have "conn_base xs F wire pos w0 sock http st w" "conn_reading fd F a pos sock http st w"
    using assms(4) r(1) by (auto simp: c conn_stored_def conn_failed_def)
  from conn_read_step [OF assms(1,2) this] r(2) show ?thesis by auto
next
  fix sock http st w assume c: "c = (0, sock, http, st, w)" and r: "http_default_write env sock http st w = Some res"
  have "conn_base xs F wire pos w0 sock http st w" "conn_reading fd F a pos sock http st w \<or> conn_stored F a pos sock st w"
    using assms(4) by (auto simp: c conn_failed_def)
  from conn_write_step [OF assms(1) this] r show ?thesis by auto
qed

lemma conn_inv_run:
  assumes "(conn_step env)\<^sup>*\<^sup>* c res" "delivers env fd F wire pos" "fresh_block env" "conn_inv fd F a xs wire pos w0 c"
  shows "conn_inv fd F a xs wire pos w0 res"
  using assms(1,4) by (induction rule: rtranclp_induct) (auto intro: conn_inv_step [OF assms(2,3)] simp del: conn_inv.simps)


text \<open>A file of three bytes, a system that reads and sends as much as possible.\<close>

definition ex_file :: mem where "ex_file = [65, 66, 67]"

definition ex_env :: "(nat \<times> mem) http_env" where
  "ex_env = \<lparr>he_os = \<lparr>os_send = (\<lambda>fd bytes (p, t). (int (length bytes), (p, t @ bytes))), os_recv = (\<lambda>fd n w. ((0, []), w)), os_time = (\<lambda>w. 7),
       os_unavailable = (\<lambda>w. False), os_recv_oob = (\<lambda>fd w. ((0, 0), w)), os_send_oob = (\<lambda>fd b w. (1, w)),
       os_getpeername = (\<lambda>fd w. None), os_getsockname = (\<lambda>fd w. None)\<rparr>,
     he_read = (\<lambda>fd n (p, t). let d = take n (drop p ex_file) in ((int (length d), d), (p + length d, t))),
     he_close = (\<lambda>fd w. (0, w)), he_sendfile = (\<lambda>out fd off n w. ((0, off), w)), he_cork = (\<lambda>fd b w. w), he_log = (\<lambda>s h w. Some w),
     he_cgi_died = (\<lambda>s h w. Some (0, s, h, w)), he_block = (\<lambda>st. LEAST b. ch_blocks st b = None), he_rdns = (\<lambda>s w. w), he_ident = (\<lambda>s w. w)\<rparr>"

lemma ex_env_delivers: "delivers ex_env 3 ex_file snd fst" "fresh_block ex_env"
proof -
  show "delivers ex_env 3 ex_file snd fst"
  proof -
    have rd: "snd w' = snd w \<and> r = int (length d) \<and> length d \<le> n \<and> (d = [] \<longrightarrow> n = 0 \<or> length ex_file \<le> fst w)
        \<and> d = take (length d) (drop (fst w) ex_file) \<and> fst w' = fst w + length d"
      if "he_read ex_env 3 n w = ((r, d), w')" for n w r d w'
    proof -
      obtain p t where w: "w = (p, t)" by fastforce
      let ?d = "take n (drop p ex_file)"
      have "d = ?d" "r = int (length ?d)" "w' = (p + length ?d, t)" using that by (auto simp: w ex_env_def Let_def)
      moreover have "take (length ?d) (drop p ex_file) = ?d" by (metis append_eq_conv_conj append_take_drop_id)
      ultimately show ?thesis by (auto simp: w)
    qed
    have f1: "posix_send (he_os ex_env) snd" by (simp add: posix_send_def ex_env_def case_prod_unfold)
    have f2: "\<forall>d bytes w. fst (snd (os_send (he_os ex_env) d bytes w)) = fst w" by (simp add: ex_env_def case_prod_unfold)
    have f3: "\<forall>n w r d w'. he_read ex_env 3 n w = ((r, d), w') \<longrightarrow> snd w' = snd w
        \<and> (r < 0 \<and> fst w' = fst w \<or> r = int (length d) \<and> length d \<le> n \<and> (d = [] \<longrightarrow> n = 0 \<or> length ex_file \<le> fst w)
          \<and> d = take (length d) (drop (fst w) ex_file) \<and> fst w' = fst w + length d)"
      by (intro allI impI) (drule rd, elim conjE, intro conjI disjI2, assumption+)
    have f4: "\<forall>d w. snd (snd (he_close ex_env d w)) = snd w \<and> fst (snd (he_close ex_env d w)) = fst w" by (simp add: ex_env_def)
    have f5: "\<forall>s h w. \<exists>w'. he_log ex_env s h w = Some w' \<and> snd w' = snd w \<and> fst w' = fst w" by (simp add: ex_env_def)
    show ?thesis unfolding delivers_def by (intro conjI f1 f2 f3 f4 f5)
  qed
  have "ch_blocks st (LEAST b. ch_blocks st b = None) = None" if fin: "finite (dom (ch_blocks st))" for st :: cache_st
  proof (rule LeastI_ex)
    obtain b where "b \<notin> dom (ch_blocks st)" using ex_new_if_finite [OF infinite_UNIV_nat fin] ..
    then show "\<exists>b. ch_blocks st b = None" by (auto simp: domIff)
  qed
  then show "fresh_block ex_env" unfolding fresh_block_def ex_env_def by simp
qed

lemma ex_new_entry: "\<exists>st a e. cache_inv st [a] \<and> ch_heap st a = Some e \<and> ce_ready e = 0 \<and> ce_file e = [97] \<and> ch_blocks st = Map.empty"
proof -
  have "(0 :: byte) \<notin> set [97]" "\<forall>a\<in>set []. file_of ex_cache a \<noteq> Some [97]" by simp_all
  from init_new [OF ex_cache_inv(1) this ex_at_fresh, of no_cache] obtain st a e where
    st: "cache_inv st [a]" "ch_heap st a = Some e" "ce_ready e = 0" "ce_file e = [97]" by (auto simp: Let_def ex_cache_inv(2))
  have "ce_buffer x = None" if "ch_heap st y = Some x" for x y
  proof -
    have "y = a" using st(1) that unfolding cache_inv_def by (metis empty_iff list.set(1,2) option.distinct(1) singletonD)
    then have "x = e" using st(2) that by simp
    moreover have "entry_ok (ch_blocks st) e" using st(1,2) unfolding cache_inv_def by blast
    ultimately show ?thesis using st(3) by (simp add: entry_ok_def)
  qed
  then have "\<forall>q. owned st q \<longrightarrow> Map.empty q \<noteq> None" by (auto simp: owned_def)
  from blocks_inv [OF st(1) this] st(2,3,4) show ?thesis
    by (intro exI [of _ "st\<lparr>ch_blocks := Map.empty\<rparr>"] exI [of _ a] exI [of _ e]) simp
qed

definition ex_reader :: svz_socket where
  "ex_reader = (svz_sock_alloc 0)\<lparr>sk_read_socket := Some ''http_cache_read'', sk_file_desc := 3\<rparr>"


subsection \<open>Cached files on their way to the client\<close>

text \<open>A connection that has sent \<open>i\<close> bytes of the file \<open>c\<close> cached in the entry at \<open>a\<close>.\<close>

definition sending :: "cache_st \<Rightarrow> http_socket \<Rightarrow> addr \<Rightarrow> mem \<Rightarrow> nat \<Rightarrow> bool" where
  "sending st http a c i \<longleftrightarrow> ch_heap st a \<noteq> None \<and> (\<exists>cache b. hs_cache http = Some cache \<and> hc_entry cache = Some a \<and> hc_buffer cache = Some (b, i)
     \<and> ch_blocks st b = Some (map Cell c) \<and> i \<le> length c \<and> hc_size cache = int (length c) - int i)"

lemma rd_range_cells: "i + n \<le> length c \<Longrightarrow> rd_range (map Cell c) i n = Some (take n (drop i c))"
  using holds_rd_range [of "map Cell c" c i n] by (simp add: holds_def)

lemma cached_bytes_ok:
  assumes "ch_blocks st b = Some (map Cell c)" "0 \<le> n" "int i + n \<le> int (length c)"
  shows "cached_bytes st (Some (b, i)) n = Some (take (nat n) (drop i c))"
proof -
  have "i + nat n \<le> length c" using assms(2,3) by linarith
  then show ?thesis using assms(1,2) rd_range_cells [of i "nat n" c] by (auto simp: cached_bytes_def)
qed

lemma cache_write_sends:
  assumes ps: "posix_send (he_os env) wire" and sg: "sending st http a c i"
  shows "\<exists>n sock' http' k w1. wire w1 = wire w @ take k (drop i c) \<and> i + k \<le> length c
    \<and> sending st http' a c (i + k) \<and> hs_property http' = hs_property http \<and> sk_userflags sock' = sk_userflags sock \<and> sk_write_socket sock' = sk_write_socket sock
    \<and> (n < 0 \<longrightarrow> (\<exists>d bytes v. fst (os_send (he_os env) d bytes v) < 0))
    \<and> http_cache_write env sock http st w = do {
        (n, sock, http, st, w) \<leftarrow> (if i + k = length c then http_keep_alive env sock' http' st w1 else Some (n, sock', http', st, w1));
        Some (if n < 0 then -1 else 0, sock, http, st, w) }"
proof -
  obtain cache b where c: "hs_cache http = Some cache" "hc_entry cache = Some a" "ch_heap st a \<noteq> None" "hc_buffer cache = Some (b, i)"
      "ch_blocks st b = Some (map Cell c)" "i \<le> length c" "hc_size cache = int (length c) - int i"
    using sg unfolding sending_def by blast
  define m where "m = cache_chunk (hc_size cache)"
  have m: "0 \<le> m" "int i + m \<le> int (length c)" using c(6,7) by (auto simp: m_def cache_chunk_def SVZ_SOCK_MAX_WRITE_def)
  let ?bytes = "take (nat m) (drop i c)"
  have cb: "cached_bytes st (hc_buffer cache) m = Some ?bytes" unfolding c(4) by (rule cached_bytes_ok [OF c(5) m])
  obtain n w1 where sd: "os_send (he_os env) (sk_sock_desc sock) ?bytes w = (n, w1)" by fastforce
  have n: "n \<le> int (length ?bytes)" "wire w1 = wire w @ take (nat n) ?bytes" using ps sd unfolding posix_send_def by (metis fst_conv, metis fst_conv snd_conv)
  have nm: "n \<le> m" using n(1) m by auto
  let ?c = "cache\<lparr>hc_buffer := Some (b, i + nat n), hc_size := hc_size cache - n\<rparr>"
  show ?thesis
  proof (cases "n > 0")
    case True
    let ?s = "sock\<lparr>sk_last_send := os_time (he_os env) w1\<rparr>" and ?h = "http\<lparr>hs_cache := Some ?c, hs_length := hs_length http + n\<rparr>"
    have e: "(hc_size cache - n \<le> 0) = (i + nat n = length c)" using True nm m c(7) by auto
    have "sending st ?h a c (i + nat n)" unfolding sending_def using c True nm m by auto
    moreover have "http_cache_write env sock http st w = do {
        (n, sock, http, st, w) \<leftarrow> (if i + nat n = length c then http_keep_alive env ?s ?h st w1 else Some (n, ?s, ?h, st, w1));
        Some (if n < 0 then -1 else 0, sock, http, st, w) }"
      using True by (simp add: http_cache_write_def c(1,2) m_def [symmetric] cb sd e [symmetric] Let_def) (simp add: c(4))
    moreover have "take (nat n) ?bytes = take (nat n) (drop i c)" using nm True by (simp add: min_absorb1)
    moreover have "i + nat n \<le> length c" using nm m by linarith
    ultimately show ?thesis using n(2) True
      by (intro exI [of _ n] exI [of _ ?s] exI [of _ ?h] exI [of _ "nat n"] exI [of _ w1] conjI) simp_all
  next
    case False
    let ?m = "if n < 0 \<and> os_unavailable (he_os env) w1 then 0 else n"
    let ?s = "sock\<lparr>sk_unavailable := if n < 0 \<and> os_unavailable (he_os env) w1 then 1 + os_time (he_os env) w1 else sk_unavailable sock\<rparr>"
    have e: "(i = length c) = (hc_size cache \<le> 0)" using c(6,7) by auto
    have "http_cache_write env sock http st w = do {
        (n, sock, http, st, w) \<leftarrow> (if i + 0 = length c then http_keep_alive env ?s http st w1 else Some (?m, ?s, http, st, w1));
        Some (if n < 0 then -1 else 0, sock, http, st, w) }"
      using False by (simp add: http_cache_write_def c(1,2) m_def [symmetric] cb sd svz_wait_if_unavailable_def e Let_def)
    moreover have "\<exists>d bytes v. fst (os_send (he_os env) d bytes v) < 0" if "?m < 0"
      using that sd by (metis fst_conv less_irrefl)
    ultimately show ?thesis using n(2) False sg c(6)
      by (intro exI [of _ ?m] exI [of _ ?s] exI [of _ http] exI [of _ 0] exI [of _ w1] conjI) (simp_all split del: if_split)
  qed
qed

text \<open>Logging and closing do not send anything to the client.\<close>

definition silent :: "'w http_env \<Rightarrow> ('w \<Rightarrow> mem) \<Rightarrow> bool" where
  "silent env wire \<longleftrightarrow> posix_send (he_os env) wire \<and> (\<forall>d w. wire (snd (he_close env d w)) = wire w)
     \<and> (\<forall>s h w. \<exists>w'. he_log env s h w = Some w' \<and> wire w' = wire w)"

definition property_ok :: "http_socket \<Rightarrow> bool" where
  "property_ok http \<longleftrightarrow> (case hs_property http of None \<Rightarrow> True | Some property \<Rightarrow> free_properties property 0 \<noteq> None)"

lemma cached_keep_alive:
  assumes sl: "silent env wire" and sg: "sending st http a c i" and fl: "user_flag sock HTTP_FLAG_CACHE" and pr: "property_ok http"
  shows "http_keep_alive env sock http st w = Some (-1, sock, http, st, w)
    \<or> (\<exists>sock' http' st' w'. http_keep_alive env sock http st w = Some (0, sock', http', st', w') \<and> wire w' = wire w
        \<and> sk_write_socket sock' = WS_other ''http_default_write'' \<and> cupd a (\<lambda>e. e\<lparr>ce_usage := ce_usage e - 1\<rparr>) st = Some st')"
proof (cases "user_flag sock HTTP_FLAG_KEEP")
  case True
  obtain cache e where c: "hs_cache http = Some cache" "hc_entry cache = Some a" "ch_heap st a = Some e" using sg unfolding sending_def by blast
  obtain w1 where w1: "he_log env sock http w = Some w1" "wire w1 = wire w" using sl unfolding silent_def by blast
  have w2: "wire (snd (he_close env (sk_file_desc sock) w1)) = wire w" using sl w1(2) unfolding silent_def by simp
  have p: "(case hs_property http of None \<Rightarrow> Some () | Some property \<Rightarrow> free_properties property 0) = Some ()"
    using pr by (auto simp: property_ok_def split: option.splits)
  show ?thesis
    by (rule disjI2) (use True c w1 w2 p fl in \<open>auto simp: http_keep_alive_def http_free_socket_def cupd_def Let_def case_prod_unfold\<close>)
qed (simp add: http_keep_alive_def)

inductive cached_step :: "'w http_env \<Rightarrow> 'w conn \<Rightarrow> 'w conn \<Rightarrow> bool" for env where
  cached_write: "sk_write_socket sock = WS_other ''http_cache_write'' \<Longrightarrow> http_cache_write env sock http st w = Some res \<Longrightarrow> cached_step env (0, sock, http, st, w) res"

inductive_cases cached_stepE: "cached_step env s res"

text \<open>Either the file is on its way, or all of it is sent and the entry is released.\<close>

fun cached_inv :: "'w http_env \<Rightarrow> ('w \<Rightarrow> mem) \<Rightarrow> addr \<Rightarrow> mem \<Rightarrow> mem \<Rightarrow> cache_st \<Rightarrow> 'w conn \<Rightarrow> bool" where
  "cached_inv env wire a c w0 st0 (ret, sock, http, st, w) \<longleftrightarrow>
     (\<exists>i. sending st http a c i \<and> wire w = w0 @ take i c \<and> st = st0 \<and> sk_write_socket sock = WS_other ''http_cache_write''
        \<and> user_flag sock HTTP_FLAG_CACHE \<and> property_ok http
        \<and> (ret \<noteq> 0 \<longrightarrow> i = length c \<or> (\<exists>d bytes v. fst (os_send (he_os env) d bytes v) < 0)))
     \<or> ret = 0 \<and> sk_write_socket sock = WS_other ''http_default_write'' \<and> wire w = w0 @ c
        \<and> cupd a (\<lambda>e. e\<lparr>ce_usage := ce_usage e - 1\<rparr>) st0 = Some st"

lemma cached_write_step:
  assumes sl: "silent env wire" and inv: "cached_inv env wire a c w0 st0 (0, sock, http, st, w)" and ws: "sk_write_socket sock = WS_other ''http_cache_write''"
  shows "\<exists>res. http_cache_write env sock http st w = Some res \<and> cached_inv env wire a c w0 st0 res"
proof -
  obtain i where i: "sending st http a c i" "wire w = w0 @ take i c" "st = st0" "user_flag sock HTTP_FLAG_CACHE" "property_ok http"
    using inv ws by auto
  have ps: "posix_send (he_os env) wire" using sl by (simp add: silent_def)
  obtain n s1 h1 k w1 where s: "wire w1 = wire w @ take k (drop i c)" "i + k \<le> length c" "sending st h1 a c (i + k)" "hs_property h1 = hs_property http"
      "sk_userflags s1 = sk_userflags sock" "sk_write_socket s1 = sk_write_socket sock" "n < 0 \<longrightarrow> (\<exists>d bytes v. fst (os_send (he_os env) d bytes v) < 0)"
      "http_cache_write env sock http st w = do {
        (n, sock, http, st, w) \<leftarrow> (if i + k = length c then http_keep_alive env s1 h1 st w1 else Some (n, s1, h1, st, w1));
        Some (if n < 0 then -1 else 0, sock, http, st, w) }"
    using cache_write_sends [OF ps i(1), of w sock] by blast
  have w1: "wire w1 = w0 @ take (i + k) c" using s(1) i(2) by (simp add: take_add)
  have k1: "user_flag s1 HTTP_FLAG_CACHE" "property_ok h1" "sk_write_socket s1 = WS_other ''http_cache_write''"
    using i(4,5) s(4,5,6) ws by (simp_all add: user_flag_def property_ok_def)
  show ?thesis
  proof (cases "i + k = length c")
    case True
    have w1': "wire w1 = w0 @ c" using w1 unfolding True by simp
    from cached_keep_alive [OF sl s(3) k1(1,2), of w1] show ?thesis
    proof (elim disjE exE conjE)
      assume "http_keep_alive env s1 h1 st w1 = Some (-1, s1, h1, st, w1)"
      then have "http_cache_write env sock http st w = Some (-1, s1, h1, st, w1)" using s(8) True by simp
      then show ?thesis using s(3) w1 k1 i(3) True by auto
    next
      fix s2 h2 st2 w2 assume k: "http_keep_alive env s1 h1 st w1 = Some (0, s2, h2, st2, w2)" "wire w2 = wire w1"
        "sk_write_socket s2 = WS_other ''http_default_write''" "cupd a (\<lambda>e. e\<lparr>ce_usage := ce_usage e - 1\<rparr>) st = Some st2"
      then have "http_cache_write env sock http st w = Some (0, s2, h2, st2, w2)" using s(8) True by simp
      then show ?thesis using k w1' i(3) by simp
    qed
  next
    case False
    then have "http_cache_write env sock http st w = Some (if n < 0 then -1 else 0, s1, h1, st, w1)" using s(8) by simp
    moreover have "cached_inv env wire a c w0 st0 (if n < 0 then -1 else 0, s1, h1, st, w1)" using s(3,7) w1 k1 i(3) by auto
    ultimately show ?thesis by blast
  qed
qed

lemma cached_run:
  assumes "(cached_step env)\<^sup>*\<^sup>* s res" "silent env wire" "cached_inv env wire a c w0 st0 s"
  shows "cached_inv env wire a c w0 st0 res"
  using assms(1,3)
proof (induction rule: rtranclp_induct)
  case (step r res)
  from step(2) show ?case
  proof (rule cached_stepE)
    fix sock http st w assume r: "r = (0, sock, http, st, w)" and x: "sk_write_socket sock = WS_other ''http_cache_write''" "http_cache_write env sock http st w = Some res"
    from cached_write_step [OF assms(2) step.IH [OF step.prems, unfolded r] x(1)] x(2) show ?thesis by auto
  qed
qed


lemma ex_filled_entry:
  "\<exists>st a cache' st'. filled st' a ex_file \<and> http_check_cache [97] no_cache st = Some (HTTP_CACHE_COMPLETE, cache', st') \<and> hc_entry cache' = Some a"
proof -
  obtain st a e where st: "cache_inv st [a]" "ch_heap st a = Some e" "ce_ready e = 0" "ce_file e = [97]" "ch_blocks st = Map.empty" using ex_new_entry by blast
  let ?cache = "\<lparr>hc_buffer = Some (0, 0), hc_size = 3, hc_entry = Some a\<rparr>" and ?st = "st\<lparr>ch_blocks := [0 \<mapsto> map Cell ex_file]\<rparr>"
  have no: "\<not> owned st q" for q using owned_block [OF st(1), of q] st(5) by auto
  then have "cache_inv ?st [a]" using blocks_inv [OF st(1)] by simp
  moreover have "filling ?st ?cache a ex_file" using st no by (simp add: filling_def ex_file_def owned_def)
  moreover have "ex_file \<noteq> []" by (simp add: ex_file_def)
  ultimately obtain s2 where s2: "fill_entry ?cache ?st = Some s2" "cache_inv s2 [a]" "filled s2 a ex_file" using fill_entry_ok by blast
  have f2: "file_of s2 a = Some [97]" using s2(1) st(2,4) by (auto simp: fill_entry_def block_start_def cupd_def file_of_def)
  have "(0 :: byte) \<notin> set [97]" by simp
  from check_hit [OF s2(2) this, of no_cache] f2 obtain r cache' s3 e3 where c: "http_check_cache [97] no_cache s2 = Some (r, cache', s3)" "relinked s2 s3"
      "ch_heap s3 a = Some e3" "r = (if ce_ready e3 \<noteq> 0 then HTTP_CACHE_COMPLETE else HTTP_CACHE_INCOMPLETE)" "ce_ready e3 \<noteq> 0 \<longrightarrow> hc_entry cache' = Some a"
    by auto
  obtain e2 where e2: "ch_heap s2 a = Some e2" "ce_data e2 = ce_data e3" using relinked_data [OF c(2,3)] by blast
  from c(2) have "ch_blocks s3 = ch_blocks s2" by (simp add: relinked_def)
  then have "filled s3 a ex_file" "ce_ready e3 \<noteq> 0" using s2(3) e2 c(3) data_eqD [OF e2(2)] by (auto simp: filled_def)
  then show ?thesis using c by auto
qed

definition ex_sender :: svz_socket where
  "ex_sender = (svz_sock_alloc 0)\<lparr>sk_write_socket := WS_other ''http_cache_write'', sk_userflags := HTTP_FLAG_CACHE OR HTTP_FLAG_KEEP\<rparr>"


subsection \<open>Two ways to lose an entry\<close>

text \<open>
  When \<^verbatim>\<open>read\<close> fails behind the first block of a file, the connection forgets the entry before it ends: the disconnect callback does not destroy it, no
  connection fills it any more, and it can never be replaced because it does not count as filled.
\<close>

lemma read_error_strands_entry:
  assumes "delivers env fd F wire pos" and "conn_base xs F wire pos w0 sock http st w"
    and "hs_cache http = Some cache" and "filling st cache a c" and "c \<noteq> []"
    and "sk_send_buffer_fill sock < sk_send_buffer_size sock"
    and "he_read env (sk_file_desc sock) (nat (sk_send_buffer_size sock - sk_send_buffer_fill sock)) w = ((n, bytes), w1)" and "n < 0"
  shows "\<exists>http' st' sock2 st2 w2. http_cache_read env sock http st w = Some (-1, sock, http', st', w1)
    \<and> http_cache_disconnect env sock http' st' w1 = Some (0, sock2, st2, w2) \<and> ch_heap st2 = ch_heap st \<and> \<not> evictable st2 a"
proof -
  obtain e b where e: "ch_heap st a = Some e" "ce_ready e = 0" and b: "hc_buffer cache = Some (b, 0)" "ch_blocks st b = Some (map Cell c)" "hc_size cache = int (length c)"
    using assms(4,5) by (auto simp: filling_def split: option.splits)
  let ?st = "st\<lparr>ch_blocks := (ch_blocks st)(b := None)\<rparr>" and ?http = "http\<lparr>hs_cache := Some (http_cache_reset cache)\<rparr>"
  have rd: "http_cache_read env sock http st w = Some (-1, sock, ?http, ?st, w1)"
    using assms(3,5-8) b by (simp add: http_cache_read_def block_start_def free_block_def)
  have p: "(case hs_property ?http of None \<Rightarrow> Some () | Some property \<Rightarrow> free_properties property 0) = Some ()"
    and nf: "\<not> user_flag sock HTTP_FLAG_CACHE"
    using assms(2) by (auto simp: conn_base_def split: option.splits)
  obtain w2 where "he_log env sock ?http w1 = Some w2" using assms(1) unfolding delivers_def by blast
  then have "\<exists>sock2 w3. http_cache_disconnect env sock ?http ?st w1 = Some (0, sock2, ?st, w3)"
    using p nf by (simp add: http_cache_disconnect_def http_cache_reset_def http_disconnect_def http_free_socket_def Let_def case_prod_unfold)
  moreover have "\<not> evictable ?st a" using e by (simp add: evictable_def)
  ultimately show ?thesis using rd by fastforce
qed

text \<open>
  When a file has changed on disk, the next request for it frees the cached contents without regard to the connections that are still sending them: their next
  write reads freed memory.
\<close>

lemma refresh_frees_sent_block:
  assumes "sending st http a c i" and "i < length c" and "ch_heap st a = Some e" and "ce_buffer e = Some b" and "map_option hc_buffer (hs_cache http) = Some (Some (b, i))"
    and "hc_entry cache' = Some a"
  shows "\<exists>cache'' st'. http_refresh_cache cache' st = Some (cache'', st') \<and> http_cache_write env sock http st' w = None"
proof -
  let ?st = "st\<lparr>ch_blocks := (ch_blocks st)(b := None)\<rparr>"
  obtain cache where c: "hs_cache http = Some cache" "hc_entry cache = Some a" "hc_buffer cache = Some (b, i)" "ch_blocks st b = Some (map Cell c)"
      "hc_size cache = int (length c) - int i"
    using assms(1,5) unfolding sending_def by auto
  obtain st' where r: "http_refresh_cache cache' st = Some (cache'\<lparr>hc_size := 0, hc_buffer := None\<rparr>, st')" "ch_blocks st' b = None"
    using assms(3,4,6) c(4) by (auto simp: http_refresh_cache_def free_block_def cupd_def)
  have "cache_chunk (hc_size cache) > 0" using c(5) assms(2) by (simp add: cache_chunk_def SVZ_SOCK_MAX_WRITE_def)
  then have "http_cache_write env sock http st' w = None" using c r(2) by (simp add: http_cache_write_def cached_bytes_def)
  then show ?thesis using r(1) by blast
qed

end
