(* ===== verification/Spec2Isabelle.thy ===== *)
theory Spec2Isabelle
  imports Svz_Array Svz_Hash Svz_Socket Svz_Util Foo_Server Svz_Loop Svz_Datagram Nut_Stream Svz_Listen Http_Conn
begin

text \<open>
  Verification of GNU Serveez, a server framework in C: one process with one loop that polls all sockets,
  reads and writes their buffers, detects the protocol of a connection and hands its packets to
  protocol servers.

  \<^bold>\<open>The parts of the program and the theories that model them\<close> (paths are below \<^verbatim>\<open>src/src\<close>):

  \<^item> Containers: \<open>Svz_Array\<close> (\<^verbatim>\<open>libserveez/array.c\<close>), \<open>Svz_Hash\<close> (\<^verbatim>\<open>libserveez/hash.c\<close>, the callbacks of
    \<^verbatim>\<open>soprop.c\<close> and \<^verbatim>\<open>nut-server/gnutella.c\<close>). Each has a locale that states its contract (\<open>vector_store\<close>,
    \<open>assoc_map\<close>, and \<open>hash_callbacks\<close> for what a table needs of its key functions), interpreted on
    the definitions.
  \<^item> Conversions: \<open>Svz_Util\<close> (\<^verbatim>\<open>libserveez/util.c\<close>).
  \<^item> Sockets: \<open>Svz_Socket\<close> (\<^verbatim>\<open>libserveez/socket.c\<close>, \<^verbatim>\<open>tcp-socket.c\<close>): the record \<open>svz_socket\<close>, its buffers,
    \<^verbatim>\<open>svz_sock_write\<close>, \<^verbatim>\<open>svz_sock_printf\<close>, the TCP callbacks, the loops that split a buffer into packets.
  \<^item> The socket list: \<open>Svz_Core\<close> (\<^verbatim>\<open>libserveez/server-core.c\<close>) over a heap of sockets, and \<open>Svz_Reach\<close>, the
    state machine of its operations.
  \<^item> The loop: \<open>Svz_Loop\<close> (\<^verbatim>\<open>server-core.c\<close>, \<^verbatim>\<open>server-loop.c\<close>): signals, periodic tasks, polling with
    \<^verbatim>\<open>poll\<close> and \<^verbatim>\<open>select\<close>, shutting down.
  \<^item> Packet sockets: \<open>Svz_Datagram\<close> (\<^verbatim>\<open>udp-socket.c\<close>, \<^verbatim>\<open>icmp-socket.c\<close>, \<^verbatim>\<open>raw-socket.c\<close>).
  \<^item> Addresses and ports: \<open>Svz_Address\<close> (\<^verbatim>\<open>address.c\<close>, \<^verbatim>\<open>interface.c\<close>) and \<open>Svz_Portcfg\<close> (\<^verbatim>\<open>portcfg.c\<close>): the list of network
    interfaces, comparing, expanding and naming port configurations.
  \<^item> Making connections: \<open>Svz_Net\<close> (\<^verbatim>\<open>core.c\<close>, \<^verbatim>\<open>tcp-socket.c\<close>, \<^verbatim>\<open>udp-socket.c\<close>, \<^verbatim>\<open>icmp-socket.c\<close>) and \<open>Svz_Pipe\<close> (\<^verbatim>\<open>pipe-socket.c\<close>).
  \<^item> Accepting connections: \<open>Svz_Access\<close> (who may connect to a port and how often), \<open>Svz_Binding\<close> (\<^verbatim>\<open>binding.c\<close>: the servers bound
    to a listener) and \<open>Svz_Listen\<close> (\<^verbatim>\<open>server-socket.c\<close>, \<^verbatim>\<open>svz_sock_detect_proto\<close>: accepting, giving a connection to a server).
  \<^item> Servers: \<open>Foo_Server\<close> (\<^verbatim>\<open>foo-server/foo-proto.c\<close>); \<open>Nut_Core\<close>, \<open>Nut_Server\<close>, \<open>Nut_Route\<close> and
    \<open>Nut_Stream\<close> (\<^verbatim>\<open>nut-server/nut-core.c\<close>, \<^verbatim>\<open>nut-route.c\<close>, \<^verbatim>\<open>nut-request.c\<close>, \<^verbatim>\<open>nut-hostlist.c\<close>,
    \<^verbatim>\<open>gnutella.c\<close>); \<open>Http_Cache\<close> (\<^verbatim>\<open>http-server/http-cache.c\<close>),
    \<open>Http_Core\<close> (\<^verbatim>\<open>http-core.c\<close>, \<^verbatim>\<open>http-proto.c\<close>: ranges, header fields, URIs, requests), \<open>Http_Request\<close> (what becomes of a client's data)
    and \<open>Http_Conn\<close> (the callbacks that read, cache and send files and keep a connection alive or end it).

  \<^bold>\<open>How the parts interact.\<close> The loop walks the list of \<open>Svz_Core\<close> and calls the callbacks of the
  sockets: reading appends to the receive buffer and calls \<^verbatim>\<open>check_request\<close>, which splits the
  buffer and calls the handler of the protocol, which writes to send buffers and schedules sockets
  for shutdown; killed sockets are freed by the sweep at the end of an iteration. In the theories,
  \<open>Svz_Loop\<close> takes the callbacks as members of an environment with a contract, and \<open>Foo_Server\<close> and the
  gnutella theories are callbacks of this kind on the same record \<open>svz_socket\<close> and the same \<open>core\<close>.
  A listener is a socket of the list with a port configuration and an array of bindings; accepting makes a new
  socket with the same bindings and appends it to the list, and the first data that arrive on it are shown to the bound servers
  until one of them recognises its protocol and takes the connection over.

  \<^bold>\<open>Conventions.\<close> Memory is explicit where a pointer may be wrong: blocks are lists of cells, sockets
  live in a heap, and a result \<^term>\<open>None\<close> is undefined behaviour (an access outside a block, of freed
  memory, of an uninitialised cell) or a loop that does not end. Integers are machine words where
  the code may overflow (hash codes and the \<^verbatim>\<open>fill\<close> counter, checksums, packet lengths, TTLs) and
  unbounded where they count objects in memory. System calls, the clock and callbacks are
  parameters over a type \<open>'w\<close> for the world outside. Loops that follow pointers or that may not end
  are \<open>partial_function (option)\<close>, so that a theorem with a result says that the loop ends; the other
  loops are recursive functions with a measure. No definition uses fuel.

  \<^bold>\<open>What is shown.\<close>

  \<^item> Containers: any sequence of operations refines lists and finite maps; iteration; creation
    (which does not end for capacity 0) and the counter that the shrinking of a table spoils.
  \<^item> Sockets: nothing written is lost, reordered or duplicated on its way through the send buffer;
    reading appends; splitting gives exactly the packets, however the input was cut.
  \<^item> List and loop: invariant of the reachable states, handles never dangle, scheduling and
    sweeping end and free exactly the killed sockets, passes of both polling routines touch no freed socket and
    no array out of bounds, the loop ends on a signal.
  \<^item> Packet sockets: written messages are the queue of frames, the ICMP packet format round-trips,
    the checksum is the one's complement of the sum.
  \<^item> Ports and interfaces: equality of port configurations decides which listeners compete, expanding covers all
    interfaces, the list of interfaces follows the system.
  \<^item> Connections: accepting keeps list and counters consistent and within the limit and enforces access lists and the
    frequency of connections; servers are bound once and unbound completely; the first server that recognises a protocol gets the
    connection; connecting enqueues one socket, pipes are opened under the configured identity.
  \<^item> HTTP: the file cache keeps the most recently used files; requests are cut out of the stream, decoded and given to their
    response routine, and arbitrary data do no harm under two conditions, one of which a client can break; files reach the client and the cache complete and in
    order, from the disk or from the cache.
  \<^item> Gnutella: packets round-trip; validated packets lose TTL; routing refines the decision of the
    protocol; a query is flooded once; the tables stay well-formed and forget a connection;
    the stream is cut into its packets, except for the length field that makes the server hang.

  \<^bold>\<open>Not modelled.\<close> Logging and the texts of reports; the Windows code; what only calls the system
  (\<^verbatim>\<open>boot.c\<close>, \<^verbatim>\<open>mutex.c\<close>, \<^verbatim>\<open>dynload.c\<close>, \<^verbatim>\<open>passthrough.c\<close>); the Guile bindings and the
  configuration language (\<^verbatim>\<open>guile*.c\<close>, \<^verbatim>\<open>gi.c\<close>, \<^verbatim>\<open>cfgfile.c\<close>); the compression codecs, which call
  zlib and bzip2; the file transfers of the gnutella server, whose entry points are parameters; the
  remaining servers (the responses, CGI programs and listings of HTTP, IRC, control, tunnel, SNTP, ident, program) and the coservers.
\<close>

end
